(* ===== verification/Mago_Prelude.thy ===== *)
theory Mago_Prelude
  imports Main "HOL-Library.Word" "HOL-Library.Product_Lexorder" "HOL-Library.Multiset"
begin

text \<open>
  Shared vocabulary of the development: the machine types of the source as word types,
  the slice and search operations of Rust's standard library that several crates use,
  and the generic list lemmas the component theories share.

  A Rust operation that can panic is modelled as a function into an option type, with
  \<open>None\<close> for the panic.
\<close>

section \<open>Machine types\<close>

type_synonym u8 = "8 word"
type_synonym u16 = "16 word"
type_synonym u32 = "32 word"
type_synonym u64 = "64 word"
type_synonym bytes = "u8 list"

text \<open>The facts about \<open>u32\<close> values and their \<open>usize\<close> readings that proofs share.\<close>

named_theorems word_order
  "comparisons of words as comparisons of the natural numbers they denote"

declare word_le_nat_alt [word_order]
declare word_less_nat_alt [word_order]

lemma unat_of_nat_u32:
  "n < 2 ^ 32 \<Longrightarrow> unat (of_nat n :: u32) = n"
  by (simp add: unat_of_nat take_bit_nat_eq_self_iff)

text \<open>\<open>saturating_add\<close> and \<open>saturating_sub\<close> of \<open>u32\<close>.\<close>

definition sat_add_u32 :: "u32 \<Rightarrow> u32 \<Rightarrow> u32" where
  "sat_add_u32 a b = (if unat a + unat b < 2 ^ 32 then a + b else -1)"

definition sat_sub_u32 :: "u32 \<Rightarrow> u32 \<Rightarrow> u32" where
  "sat_sub_u32 a b = (if b \<le> a then a - b else 0)"

lemma unat_minus_one_u32 [simp]: "unat (-1 :: u32) = 2 ^ 32 - 1"
  by (simp add: unsigned_minus_1_eq_mask mask_eq_exp_minus_1)

lemma unat_sat_add_u32: "unat (sat_add_u32 a b) = min (2 ^ 32 - 1) (unat a + unat b)"
  by (auto simp: sat_add_u32_def unat_word_ariths min_def)

lemma unat_sat_sub_u32: "unat (sat_sub_u32 a b) = unat a - unat b"
  by (auto simp: sat_sub_u32_def unat_sub word_le_nat_alt)

text \<open>\<open>a + b\<close> of \<open>u32\<close> where the compiler's overflow check panics.\<close>

definition checked_add_u32 :: "u32 \<Rightarrow> u32 \<Rightarrow> u32 option" where
  "checked_add_u32 a b = (if unat a + unat b < 2 ^ 32 then Some (a + b) else None)"

text \<open>The same functions without a comparison of large natural numbers, for evaluation.\<close>

lemma no_overflow_u32: "unat a + unat b < 2 ^ 32 \<longleftrightarrow> a \<le> a + b" for a b :: u32
  using no_olen_add_nat[of a b] by simp

lemma sat_add_u32_code [code]: "sat_add_u32 a b = (let c = a + b in if a \<le> c then c else -1)"
  unfolding sat_add_u32_def no_overflow_u32 by (simp add: Let_def)

lemma checked_add_u32_code [code]: "checked_add_u32 a b = (let c = a + b in if a \<le> c then Some c else None)"
  unfolding checked_add_u32_def no_overflow_u32 by (simp add: Let_def)

section \<open>Slices and searches\<close>

text \<open>\<open>&xs[lo..hi]\<close>: panics when \<open>lo > hi\<close> or \<open>hi > xs.len()\<close>.\<close>

definition subslice :: "'a list \<Rightarrow> nat \<Rightarrow> nat \<Rightarrow> 'a list option" where
  "subslice xs lo hi = (if lo \<le> hi \<and> hi \<le> length xs then Some (take (hi - lo) (drop lo xs)) else None)"

lemma subslice_Some [simp]:
  "lo \<le> hi \<Longrightarrow> hi \<le> length xs \<Longrightarrow> subslice xs lo hi = Some (take (hi - lo) (drop lo xs))"
  by (simp add: subslice_def)

text \<open>
  \<open>xs.partition_point(p)\<close>: the index of the first element where \<open>p\<close> fails. The standard
  library searches by bisection, which returns this index whenever \<open>xs\<close> is partitioned
  by \<open>p\<close>; \<open>partitioned\<close> states that condition.
\<close>

definition partition_point :: "('a \<Rightarrow> bool) \<Rightarrow> 'a list \<Rightarrow> nat" where
  "partition_point p xs = length (takeWhile p xs)"

definition partitioned :: "('a \<Rightarrow> bool) \<Rightarrow> 'a list \<Rightarrow> bool" where
  "partitioned p xs \<longleftrightarrow> (\<forall>i j. i < j \<longrightarrow> j < length xs \<longrightarrow> p (xs ! j) \<longrightarrow> p (xs ! i))"

lemma partition_point_le: "partition_point p xs \<le> length xs"
  by (simp add: partition_point_def length_takeWhile_le)

lemma take_partition_point: "take (partition_point p xs) xs = takeWhile p xs"
  by (metis partition_point_def takeWhile_eq_take)

lemma drop_partition_point: "drop (partition_point p xs) xs = dropWhile p xs"
  by (metis partition_point_def dropWhile_eq_drop)

text \<open>\<open>Vec::insert(i, x)\<close> for \<open>i \<le> len\<close>.\<close>

definition insert_at :: "nat \<Rightarrow> 'a \<Rightarrow> 'a list \<Rightarrow> 'a list" where
  "insert_at i x xs = take i xs @ x # drop i xs"

lemma insert_at_partition_point:
  "insert_at (partition_point p xs) x xs = takeWhile p xs @ x # dropWhile p xs"
  by (simp add: insert_at_def take_partition_point drop_partition_point)

lemma set_insert_at: "set (insert_at i x xs) = insert x (set xs)"
  unfolding insert_at_def
  by (metis append_take_drop_id list.simps(15) set_append Un_insert_right)

lemma mset_insert_at: "mset (insert_at i x xs) = add_mset x (mset xs)"
  unfolding insert_at_def
  by (metis append_take_drop_id mset.simps(2) mset_append union_mset_add_mset_right)

text \<open>The element a \<open>dropWhile\<close> stops at, and everything after it.\<close>

lemma dropWhile_ConsD: "dropWhile p xs = y # ys \<Longrightarrow> \<not> p y"
  by (induction xs) (auto split: if_splits)

lemma sorted_wrt_take_drop_While:
  "sorted_wrt R xs \<Longrightarrow> x \<in> set (takeWhile p xs) \<Longrightarrow> y \<in> set (dropWhile p xs) \<Longrightarrow> R x y"
  by (metis sorted_wrt_append takeWhile_dropWhile_id)

text \<open>Stable sorting keeps the elements of one key in their order.\<close>

lemma filter_key_sort: "filter (\<lambda>x. k = f x) (sort_key f xs) = filter (\<lambda>x. k = f x) xs"
  using sort_key_stable[of f k xs] by (simp only: eq_commute)

text \<open>A text is cut in one way at the first occurrence of a separator.\<close>

lemma split_at_separator:
  assumes "c \<notin> set xs" "c \<notin> set ys"
  shows "xs @ c # us = ys @ c # vs \<longleftrightarrow> xs = ys \<and> us = vs"
proof
  assume "xs @ c # us = ys @ c # vs"
  moreover have "takeWhile (\<lambda>d. d \<noteq> c) (xs @ c # us) = xs" "takeWhile (\<lambda>d. d \<noteq> c) (ys @ c # vs) = ys"
    using assms by (subst takeWhile_append2; auto)+
  ultimately show "xs = ys \<and> us = vs" by (metis append_same_eq list.inject same_append_eq)
qed simp

end
