(* ===== verification/Text_Edit.thy ===== *)
theory Text_Edit
  imports Mago_Prelude
begin

text \<open>
  The transactional text editor of crate \<open>text-edit\<close> (\<open>crates/text-edit/src/lib.rs\<close>): it
  collects edits that refer to byte offsets of the original text, refuses edits that are
  out of bounds, too unsafe or in conflict with accepted ones, and stitches the accepted
  edits into the new text in one pass. Offsets are \<open>u32\<close>; slicing can panic, so the
  stitching functions return an option.

  The lemmas give the editor's invariant (accepted edits are in bounds, ordered and pairwise
  disjoint), the meaning of the stitched text as a right-to-left splice of the original, and
  the agreement of the simulations shown to a checker with the text that is committed.
\<close>

section \<open>Data\<close>

datatype apply_result =
  Applied
| OutOfBounds
| Overlap
| Rejected
| Unsafe
| PotentiallyUnsafe

datatype safety =
  Safe
| PotentiallyUnsafe
| Unsafe

text \<open>The derived order of \<open>Safety\<close>: declaration order, most safe first.\<close>

fun safety_rank :: "safety \<Rightarrow> nat" where
  "safety_rank Safe = 0"
| "safety_rank safety.PotentiallyUnsafe = 1"
| "safety_rank safety.Unsafe = 2"

lemma safety_rank_inject: "safety_rank a = safety_rank b \<Longrightarrow> a = b"
  by (cases a; cases b) simp_all

instantiation safety :: linorder
begin

definition less_eq_safety :: "safety \<Rightarrow> safety \<Rightarrow> bool" where
  "less_eq_safety a b \<longleftrightarrow> safety_rank a \<le> safety_rank b"

definition less_safety :: "safety \<Rightarrow> safety \<Rightarrow> bool" where
  "less_safety a b \<longleftrightarrow> safety_rank a < safety_rank b"

instance
  by standard (auto simp: less_eq_safety_def less_safety_def intro: safety_rank_inject)

end

record text_range =
  range_start :: u32
  range_end :: u32

definition text_range_new :: "u32 \<Rightarrow> u32 \<Rightarrow> text_range" where
  "text_range_new s e = \<lparr>range_start = s, range_end = e\<rparr>"

definition range_len :: "text_range \<Rightarrow> u32" where
  "range_len r = range_end r - range_start r"

definition range_is_empty :: "text_range \<Rightarrow> bool" where
  "range_is_empty r \<longleftrightarrow> range_start r = range_end r"

definition range_overlaps :: "text_range \<Rightarrow> text_range \<Rightarrow> bool" where
  "range_overlaps self other =
     (case (range_is_empty self, range_is_empty other) of
        (True, True) \<Rightarrow> False
      | (True, False) \<Rightarrow>
          range_start self > range_start other \<and> range_start self < range_end other
      | (False, True) \<Rightarrow>
          range_start other > range_start self \<and> range_start other < range_end self
      | (False, False) \<Rightarrow>
          range_start self < range_end other \<and> range_start other < range_end self)"

definition range_contains :: "text_range \<Rightarrow> u32 \<Rightarrow> bool" where
  "range_contains r offset \<longleftrightarrow> offset \<ge> range_start r \<and> offset < range_end r"

text \<open>
  \<open>impl From<RangeBounds<u32>> for TextRange\<close>: the increment of an excluded start or an
  included end panics on overflow.
\<close>

datatype bound = Included u32 | Excluded u32 | Unbounded

definition range_from_bounds :: "bound \<Rightarrow> bound \<Rightarrow> text_range option" where
  "range_from_bounds sb eb =
     (case (case sb of Included s \<Rightarrow> Some s
                     | Excluded s \<Rightarrow> checked_add_u32 s 1
                     | Unbounded \<Rightarrow> Some 0) of
        None \<Rightarrow> None
      | Some s \<Rightarrow>
          (case (case eb of Included e \<Rightarrow> checked_add_u32 e 1
                          | Excluded e \<Rightarrow> Some e
                          | Unbounded \<Rightarrow> Some (-1)) of
             None \<Rightarrow> None
           | Some e \<Rightarrow> Some (text_range_new s e)))"

record text_edit =
  edit_range :: text_range
  new_text :: bytes
  edit_safety :: safety

definition edit_delete :: "text_range \<Rightarrow> text_edit" where
  "edit_delete r = \<lparr>edit_range = r, new_text = [], edit_safety = Safe\<rparr>"

definition edit_insert :: "u32 \<Rightarrow> bytes \<Rightarrow> text_edit" where
  "edit_insert offset txt =
     \<lparr>edit_range = text_range_new offset offset, new_text = txt, edit_safety = Safe\<rparr>"

definition edit_replace :: "text_range \<Rightarrow> bytes \<Rightarrow> text_edit" where
  "edit_replace r txt = \<lparr>edit_range = r, new_text = txt, edit_safety = Safe\<rparr>"

definition edit_with_safety :: "text_edit \<Rightarrow> safety \<Rightarrow> text_edit" where
  "edit_with_safety e s = e\<lparr>edit_safety := s\<rparr>"

text \<open>The start and end offset of an edit, and the key edits are sorted by.\<close>

abbreviation e_start :: "text_edit \<Rightarrow> u32" where
  "e_start e \<equiv> range_start (edit_range e)"

abbreviation e_end :: "text_edit \<Rightarrow> u32" where
  "e_end e \<equiv> range_end (edit_range e)"

definition edit_key :: "text_edit \<Rightarrow> u32 \<times> u32" where
  "edit_key e = (e_start e, e_end e)"

record text_editor =
  original_text :: bytes
  original_len :: u32
  edits :: "text_edit list"
  safety_threshold :: safety

section \<open>Stitching\<close>

text \<open>
  The capacity \<open>stitch\<close> reserves, with the saturating arithmetic of \<open>usize\<close> (a 64-bit value
  that no text of a 32-bit length exceeds).
\<close>

fun stitch_capacity :: "nat \<Rightarrow> text_edit list \<Rightarrow> nat" where
  "stitch_capacity n [] = n"
| "stitch_capacity n (e # es) =
     stitch_capacity (n - unat (range_len (edit_range e)) + length (new_text e)) es"

text \<open>
  The loop of \<open>stitch\<close>, with \<open>last_processed\<close> and \<open>output\<close> as its state.
\<close>

definition stitch_step :: "bytes \<Rightarrow> nat \<times> bytes \<Rightarrow> text_edit \<Rightarrow> (nat \<times> bytes) option" where
  "stitch_step original st e =
     (let (last_processed, output) = st; s = unat (e_start e) in
      if s > last_processed
      then (case subslice original last_processed s of
              None \<Rightarrow> None
            | Some between \<Rightarrow> Some (unat (e_end e), output @ between @ new_text e))
      else Some (unat (e_end e), output @ new_text e))"

definition stitch_finish :: "bytes \<Rightarrow> nat \<times> bytes \<Rightarrow> bytes" where
  "stitch_finish original st =
     (if fst st < length original then snd st @ drop (fst st) original else snd st)"

fun stitch_loop :: "bytes \<Rightarrow> nat \<times> bytes \<Rightarrow> text_edit list \<Rightarrow> bytes option" where
  "stitch_loop original st [] = Some (stitch_finish original st)"
| "stitch_loop original st (e # es) =
     (case stitch_step original st e of
        None \<Rightarrow> None
      | Some st' \<Rightarrow> stitch_loop original st' es)"

definition stitch :: "bytes \<Rightarrow> text_edit list \<Rightarrow> bytes option" where
  "stitch original es = stitch_loop original (0, []) es"

text \<open>
  The loop of \<open>stitch_merged\<close>: two sorted sequences consumed in the order of their keys, an
  old edit first where the keys are equal.
\<close>

fun stitch_merged_loop ::
  "bytes \<Rightarrow> nat \<times> bytes \<Rightarrow> text_edit list \<Rightarrow> text_edit list \<Rightarrow> bytes option" where
  "stitch_merged_loop original st [] [] = Some (stitch_finish original st)"
| "stitch_merged_loop original st (old # olds) [] =
     (case stitch_step original st old of
        None \<Rightarrow> None | Some st' \<Rightarrow> stitch_merged_loop original st' olds [])"
| "stitch_merged_loop original st [] (new # news) =
     (case stitch_step original st new of
        None \<Rightarrow> None | Some st' \<Rightarrow> stitch_merged_loop original st' [] news)"
| "stitch_merged_loop original st (old # olds) (new # news) =
     (if edit_key old \<le> edit_key new
      then (case stitch_step original st old of
              None \<Rightarrow> None | Some st' \<Rightarrow> stitch_merged_loop original st' olds (new # news))
      else (case stitch_step original st new of
              None \<Rightarrow> None | Some st' \<Rightarrow> stitch_merged_loop original st' (old # olds) news))"

text \<open>
  The capacity \<open>stitch_merged\<close> reserves: its subtractions do not saturate, so an underflow
  panics.
\<close>

fun merged_capacity :: "nat \<Rightarrow> text_edit list \<Rightarrow> nat option" where
  "merged_capacity n [] = Some n"
| "merged_capacity n (e # es) =
     (if unat (range_len (edit_range e)) \<le> n
      then merged_capacity (n - unat (range_len (edit_range e)) + length (new_text e)) es
      else None)"

definition stitch_merged :: "bytes \<Rightarrow> text_edit list \<Rightarrow> text_edit list \<Rightarrow> bytes option" where
  "stitch_merged original old_edits new_edits =
     (case merged_capacity (length original) old_edits of
        None \<Rightarrow> None
      | Some n \<Rightarrow>
          (case merged_capacity n new_edits of
             None \<Rightarrow> None
           | Some _ \<Rightarrow> stitch_merged_loop original (0, []) old_edits new_edits))"

definition stitch_one :: "bytes \<Rightarrow> text_edit list \<Rightarrow> text_edit \<Rightarrow> bytes option" where
  "stitch_one original existing_edits new_edit =
     stitch_merged original existing_edits [new_edit]"

section \<open>The editor\<close>

type_synonym checker = "(bytes \<Rightarrow> bool) option"

definition editor_with_safety :: "bytes \<Rightarrow> safety \<Rightarrow> text_editor" where
  "editor_with_safety txt threshold =
     \<lparr>original_text = txt, original_len = of_nat (length txt), edits = [],
      safety_threshold = threshold\<rparr>"

definition editor_new :: "bytes \<Rightarrow> text_editor" where
  "editor_new txt =
     \<lparr>original_text = txt, original_len = of_nat (length txt), edits = [],
      safety_threshold = safety.Unsafe\<rparr>"

definition check_safety :: "text_editor \<Rightarrow> safety \<Rightarrow> apply_result option" where
  "check_safety ed s =
     (if s > safety_threshold ed
      then Some (case s of
                   safety.Unsafe \<Rightarrow> apply_result.Unsafe
                 | safety.PotentiallyUnsafe \<Rightarrow> apply_result.PotentiallyUnsafe
                 | Safe \<Rightarrow> apply_result.Unsafe)
      else None)"

text \<open>
  A checker sees the simulated text. A simulation that panics makes the call panic: the
  result of an operation is \<open>None\<close> then.
\<close>

definition run_checker :: "checker \<Rightarrow> bytes option \<Rightarrow> bool option" where
  "run_checker checker simulated =
     (case checker of
        None \<Rightarrow> Some True
      | Some check_fn \<Rightarrow> map_option check_fn simulated)"

definition apply_edit ::
  "text_editor \<Rightarrow> text_edit \<Rightarrow> checker \<Rightarrow> (apply_result \<times> text_editor) option" where
  "apply_edit ed edit checker =
     (case check_safety ed (edit_safety edit) of
        Some rejection \<Rightarrow> Some (rejection, ed)
      | None \<Rightarrow>
          if e_end edit > original_len ed \<or> e_start edit > e_end edit
          then Some (OutOfBounds, ed)
          else
            let search_idx = partition_point (\<lambda>e. e_end e \<le> e_start edit) (edits ed) in
            if search_idx < length (edits ed) \<and>
               range_overlaps (edit_range (edits ed ! search_idx)) (edit_range edit)
            then Some (Overlap, ed)
            else
              (case run_checker checker (stitch_one (original_text ed) (edits ed) edit) of
                 None \<Rightarrow> None
               | Some False \<Rightarrow> Some (Rejected, ed)
               | Some True \<Rightarrow>
                   Some (Applied, ed\<lparr>edits := insert_at search_idx edit (edits ed)\<rparr>)))"

text \<open>\<open>apply_batch\<close>: the checks in the order of the source.\<close>

fun batch_safety :: "text_editor \<Rightarrow> text_edit list \<Rightarrow> apply_result option" where
  "batch_safety ed [] = None"
| "batch_safety ed (e # es) =
     (case check_safety ed (edit_safety e) of
        Some rejection \<Rightarrow> Some rejection
      | None \<Rightarrow> batch_safety ed es)"

fun batch_validate :: "u32 \<Rightarrow> text_edit option \<Rightarrow> text_edit list \<Rightarrow> apply_result option" where
  "batch_validate len prev [] = None"
| "batch_validate len prev (e # es) =
     (if e_end e > len \<or> e_start e > e_end e then Some OutOfBounds
      else if (case prev of None \<Rightarrow> False
                          | Some p \<Rightarrow> range_overlaps (edit_range p) (edit_range e))
      then Some Overlap
      else batch_validate len (Some e) es)"

fun batch_conflict :: "text_edit list \<Rightarrow> text_edit list \<Rightarrow> bool" where
  "batch_conflict (old # olds) (new # news) =
     (if range_overlaps (edit_range old) (edit_range new) then True
      else if e_start old < e_start new then batch_conflict olds (new # news)
      else batch_conflict (old # olds) news)"
| "batch_conflict _ _ = False"

definition apply_batch ::
  "text_editor \<Rightarrow> text_edit list \<Rightarrow> checker \<Rightarrow> (apply_result \<times> text_editor) option" where
  "apply_batch ed new_edits checker =
     (if new_edits = [] then Some (Applied, ed)
      else case batch_safety ed new_edits of
        Some rejection \<Rightarrow> Some (rejection, ed)
      | None \<Rightarrow>
          let news = sort_key edit_key new_edits in
          (case batch_validate (original_len ed) None news of
             Some rejection \<Rightarrow> Some (rejection, ed)
           | None \<Rightarrow>
               if batch_conflict (edits ed) news then Some (Overlap, ed)
               else
                 (case run_checker checker (stitch_merged (original_text ed) (edits ed) news) of
                    None \<Rightarrow> None
                  | Some False \<Rightarrow> Some (Rejected, ed)
                  | Some True \<Rightarrow>
                      Some (Applied, ed\<lparr>edits := sort_key edit_key (edits ed @ news)\<rparr>))))"

text \<open>\<open>apply_unique_batch\<close>: edits equal to an accepted one are dropped first.\<close>

definition already_accepted :: "text_editor \<Rightarrow> text_edit \<Rightarrow> bool" where
  "already_accepted ed edit =
     (let start = partition_point (\<lambda>existing. edit_key existing < edit_key edit) (edits ed) in
      \<exists>existing \<in> set (takeWhile (\<lambda>existing. edit_range existing = edit_range edit)
                         (drop start (edits ed))). existing = edit)"

definition apply_unique_batch ::
  "text_editor \<Rightarrow> text_edit list \<Rightarrow> checker \<Rightarrow> (apply_result \<times> text_editor) option" where
  "apply_unique_batch ed new_edits checker =
     apply_batch ed (filter (\<lambda>edit. \<not> already_accepted ed edit) new_edits) checker"

definition editor_finish :: "text_editor \<Rightarrow> bytes option" where
  "editor_finish ed = stitch (original_text ed) (edits ed)"

definition get_edits :: "text_editor \<Rightarrow> text_edit list" where
  "get_edits ed = edits ed"

section \<open>What stitching computes\<close>

text \<open>
  The reference: one edit replaces its range of a text, and a sequence of edits with offsets
  into the original is performed from the last to the first, so that no edit moves the
  offsets of the ones still to be performed.
\<close>

definition splice :: "text_edit \<Rightarrow> bytes \<Rightarrow> bytes" where
  "splice e txt = take (unat (e_start e)) txt @ new_text e @ drop (unat (e_end e)) txt"

definition spliced :: "bytes \<Rightarrow> text_edit list \<Rightarrow> bytes" where
  "spliced original es = foldr splice es original"

text \<open>Edits that are in bounds, in order, and share no byte.\<close>

definition in_bounds :: "bytes \<Rightarrow> text_edit \<Rightarrow> bool" where
  "in_bounds original e \<longleftrightarrow> e_start e \<le> e_end e \<and> unat (e_end e) \<le> length original"

definition before :: "text_edit \<Rightarrow> text_edit \<Rightarrow> bool" where
  "before a b \<longleftrightarrow> e_end a \<le> e_start b"

definition valid_edits :: "bytes \<Rightarrow> text_edit list \<Rightarrow> bool" where
  "valid_edits original es \<longleftrightarrow> (\<forall>e \<in> set es. in_bounds original e) \<and> sorted_wrt before es"

lemma valid_edits_Nil [simp]: "valid_edits original []"
  by (simp add: valid_edits_def)

lemma valid_edits_Cons:
  "valid_edits original (e # es) \<longleftrightarrow>
     in_bounds original e \<and> (\<forall>x \<in> set es. before e x) \<and> valid_edits original es"
  by (auto simp: valid_edits_def)

lemma in_bounds_unat:
  "in_bounds original e \<Longrightarrow> unat (e_start e) \<le> unat (e_end e) \<and> unat (e_end e) \<le> length original"
  by (simp add: in_bounds_def word_le_nat_alt)

lemma before_unat: "before a b \<Longrightarrow> unat (e_end a) \<le> unat (e_start b)"
  by (simp add: before_def word_le_nat_alt)

lemma unat_range_len:
  "in_bounds original e \<Longrightarrow>
     unat (range_len (edit_range e)) = unat (e_end e) - unat (e_start e)"
  by (simp add: in_bounds_def range_len_def unat_sub)

lemma take_spliced:
  assumes "\<forall>e \<in> set es. in_bounds original e \<and> n \<le> unat (e_start e)" "n \<le> length original"
  shows "take n (spliced original es) = take n original \<and> n \<le> length (spliced original es)"
  using assms
proof (induction es)
  case Nil
  then show ?case by (simp add: spliced_def)
next
  case (Cons e es)
  then have IH: "take n (spliced original es) = take n original" "n \<le> length (spliced original es)"
    and n: "n \<le> unat (e_start e)" by auto
  from n IH(2) have "take n (splice e (spliced original es)) = take n (spliced original es)"
    by (simp add: splice_def min_def)
  moreover from n IH(2) have "n \<le> length (splice e (spliced original es))"
    by (simp add: splice_def)
  ultimately show ?case using IH by (simp add: spliced_def)
qed

lemma stitch_loop_spliced:
  assumes "valid_edits original es" "pos \<le> length original"
    "\<forall>e \<in> set es. pos \<le> unat (e_start e)"
  shows "stitch_loop original (pos, out) es = Some (out @ drop pos (spliced original es))"
  using assms
proof (induction es arbitrary: pos out)
  case Nil
  then show ?case by (auto simp: stitch_finish_def spliced_def)
next
  case (Cons e es)
  let ?s = "unat (e_start e)" and ?t = "unat (e_end e)" and ?S = "spliced original es"
  from Cons.prems(1) have v: "valid_edits original es" and b: "in_bounds original e"
    and bf: "\<forall>x \<in> set es. before e x" by (auto simp: valid_edits_Cons)
  from b have st: "?s \<le> ?t" "?t \<le> length original" using in_bounds_unat by auto
  from bf have es: "\<forall>x \<in> set es. ?t \<le> unat (e_start x)" using before_unat by blast
  have step: "stitch_step original (pos, out) e =
      Some (?t, out @ take (?s - pos) (drop pos original) @ new_text e)"
    using Cons.prems(3) st by (auto simp: stitch_step_def Let_def)
  have IH: "stitch_loop original (?t, out') es = Some (out' @ drop ?t ?S)" for out'
    using Cons.IH[OF v st(2) es] .
  have "\<forall>x \<in> set es. in_bounds original x \<and> ?s \<le> unat (e_start x)"
    using v es st(1) by (auto simp: valid_edits_def intro: order_trans)
  with st have tk: "take ?s ?S = take ?s original" and len: "?s \<le> length ?S"
    using take_spliced[of es original ?s] by auto
  have "drop pos (spliced original (e # es)) =
      drop pos (take ?s original) @ new_text e @ drop ?t ?S"
    using Cons.prems(3) len st tk by (simp add: spliced_def splice_def)
  then show ?case using step IH Cons.prems(3) by (simp add: take_drop)
qed

lemma stitch_spliced: "valid_edits original es \<Longrightarrow> stitch original es = Some (spliced original es)"
  by (simp add: stitch_def stitch_loop_spliced)

section \<open>The two sequences of a simulation\<close>

fun merge_edits :: "text_edit list \<Rightarrow> text_edit list \<Rightarrow> text_edit list" where
  "merge_edits [] news = news"
| "merge_edits olds [] = olds"
| "merge_edits (old # olds) (new # news) =
     (if edit_key old \<le> edit_key new then old # merge_edits olds (new # news)
      else new # merge_edits (old # olds) news)"

lemma merge_edits_Nil2 [simp]: "merge_edits olds [] = olds"
  by (cases olds) simp_all

lemma stitch_merged_loop_eq:
  "stitch_merged_loop original st olds news = stitch_loop original st (merge_edits olds news)"
proof (induction original st olds news rule: stitch_merged_loop.induct)
  case (3 original st new news)
  then show ?case by (cases news) (auto split: option.splits)
qed (auto split: option.splits)

lemma mset_merge_edits: "mset (merge_edits olds news) = mset olds + mset news"
  by (induction olds news rule: merge_edits.induct) auto

lemma set_merge_edits: "set (merge_edits olds news) = set olds \<union> set news"
  by (metis mset_merge_edits set_mset_mset set_mset_union)

lemma sorted_merge_edits:
  "sorted (map edit_key olds) \<Longrightarrow> sorted (map edit_key news) \<Longrightarrow>
     sorted (map edit_key (merge_edits olds news))"
  by (induction olds news rule: merge_edits.induct) (auto simp: set_merge_edits)

lemma filter_merge_edits:
  "sorted (map edit_key olds) \<Longrightarrow> sorted (map edit_key news) \<Longrightarrow>
     filter (\<lambda>e. k = edit_key e) (merge_edits olds news) =
     filter (\<lambda>e. k = edit_key e) olds @ filter (\<lambda>e. k = edit_key e) news"
proof (induction olds news rule: merge_edits.induct)
  case (3 old olds new news)
  show ?case
  proof (cases "edit_key old \<le> edit_key new")
    case True
    with 3 show ?thesis by auto
  next
    case False
    have "filter (\<lambda>e. edit_key new = edit_key e) (old # olds) = []"
      using False "3.prems"(1) by (auto simp: filter_empty_conv)
    with 3 False show ?thesis by auto
  qed
qed auto

lemma merge_edits_sort:
  assumes "sorted (map edit_key olds)" "sorted (map edit_key news)"
  shows "merge_edits olds news = sort_key edit_key (olds @ news)"
  using assms
  by (intro properties_for_sort_key[symmetric])
     (auto simp: mset_merge_edits filter_merge_edits sorted_merge_edits)

section \<open>The editor's invariant\<close>

definition editor_inv :: "text_editor \<Rightarrow> bool" where
  "editor_inv ed \<longleftrightarrow>
     length (original_text ed) < 2 ^ 32 \<and>
     original_len ed = of_nat (length (original_text ed)) \<and>
     valid_edits (original_text ed) (edits ed) \<and>
     (\<forall>e \<in> set (edits ed). edit_safety e \<le> safety_threshold ed)"

lemma editor_inv_new: "length txt < 2 ^ 32 \<Longrightarrow> editor_inv (editor_with_safety txt threshold)"
  by (simp add: editor_inv_def editor_with_safety_def)

lemma editor_inv_in_bounds:
  "editor_inv ed \<Longrightarrow>
     in_bounds (original_text ed) e \<longleftrightarrow> \<not> (e_end e > original_len ed \<or> e_start e > e_end e)"
  by (auto simp: editor_inv_def in_bounds_def word_le_nat_alt word_less_nat_alt unat_of_nat_u32)

lemma editor_inv_valid: "editor_inv ed \<Longrightarrow> valid_edits (original_text ed) (edits ed)"
  by (simp add: editor_inv_def)

lemma check_safety_None: "check_safety ed s = None \<longleftrightarrow> s \<le> safety_threshold ed"
  by (auto simp: check_safety_def)

lemma check_safety_not_Applied: "check_safety ed s \<noteq> Some Applied"
  by (auto simp: check_safety_def split: safety.splits)

text \<open>
  Two edits in bounds are free of conflict exactly when one of them lies before the other;
  for edits in the order of their keys it is the first one that does.
\<close>

lemma range_overlaps_iff:
  "range_overlaps a b \<longleftrightarrow>
     (if range_start a = range_end a
      then range_start b \<noteq> range_end b \<and> range_start a > range_start b \<and> range_start a < range_end b
      else if range_start b = range_end b
      then range_start b > range_start a \<and> range_start b < range_end a
      else range_start a < range_end b \<and> range_start b < range_end a)"
  by (simp add: range_overlaps_def range_is_empty_def)

lemma before_if_no_overlap:
  assumes "\<not> range_overlaps (edit_range a) (edit_range b)"
    "e_start a \<le> e_end a" "e_start b \<le> e_end b" "edit_key a \<le> edit_key b"
  shows "before a b"
  using assms
  by (auto simp: range_overlaps_iff before_def edit_key_def not_less split: if_splits)

lemma before_no_overlap:
  assumes "before a b" "e_start a \<le> e_end a" "e_start b \<le> e_end b"
  shows "\<not> range_overlaps (edit_range a) (edit_range b)"
    and "\<not> range_overlaps (edit_range b) (edit_range a)"
  using assms
  by (auto simp: range_overlaps_iff before_def)

lemma before_trans: "before a b \<Longrightarrow> e_start b \<le> e_end b \<Longrightarrow> before b c \<Longrightarrow> before a c"
  by (auto simp: before_def intro: order_trans)

lemma before_key_le:
  assumes "before a b" "e_start a \<le> e_end a" "e_start b \<le> e_end b"
  shows "edit_key a \<le> edit_key b"
  using assms by (auto simp: before_def edit_key_def)

lemma valid_edits_sorted_key: "valid_edits original es \<Longrightarrow> sorted (map edit_key es)"
proof (induction es)
  case (Cons e es)
  then show ?case
    by (auto simp: valid_edits_Cons valid_edits_def in_bounds_def intro!: before_key_le)
qed simp

lemma valid_edits_partitioned:
  assumes "valid_edits original es"
  shows "partitioned (\<lambda>e. e_end e \<le> p) es"
  unfolding partitioned_def
proof (intro allI impI)
  fix i j
  assume ij: "i < j" "j < length es" and "e_end (es ! j) \<le> p"
  from assms ij have "before (es ! i) (es ! j)" "in_bounds original (es ! j)"
    by (auto simp: valid_edits_def sorted_wrt_iff_nth_less)
  then show "e_end (es ! i) \<le> p" using \<open>e_end (es ! j) \<le> p\<close>
    by (auto simp: before_def in_bounds_def)
qed

lemma editor_inv_sorted_key: "editor_inv ed \<Longrightarrow> sorted (map edit_key (edits ed))"
  by (auto intro: valid_edits_sorted_key editor_inv_valid)

section \<open>A single edit\<close>

text \<open>
  The one comparison of \<open>apply\<close> decides whether any accepted edit conflicts: what follows
  the insertion point begins at or after the end of the new edit.
\<close>

lemma first_conflict:
  assumes v: "valid_edits original es" and b: "in_bounds original e"
    and no: "\<forall>x xs. dropWhile (\<lambda>x. e_end x \<le> e_start e) es = x # xs \<longrightarrow>
      \<not> range_overlaps (edit_range x) (edit_range e)"
    and y: "y \<in> set (dropWhile (\<lambda>x. e_end x \<le> e_start e) es)"
  shows "before e y \<and> edit_key e < edit_key y"
proof -
  obtain x xs where x: "dropWhile (\<lambda>x. e_end x \<le> e_start e) es = x # xs"
    using y by (cases "dropWhile (\<lambda>x. e_end x \<le> e_start e) es") auto
  then have gt: "e_end x > e_start e" using dropWhile_ConsD[OF x] by simp
  have inset: "x \<in> set es" "set xs \<subseteq> set es"
    using x set_dropWhileD[of _ "\<lambda>x. e_end x \<le> e_start e" es] by auto
  then have bx: "in_bounds original x" using v by (auto simp: valid_edits_def)
  have xe: "e_end e \<le> e_start x"
    using no[rule_format, OF x] gt b bx
    by (auto simp: range_overlaps_iff in_bounds_def not_less split: if_splits)
  have "before x y \<or> y = x"
    using sorted_wrt_dropWhile[of before es "\<lambda>x. e_end x \<le> e_start e"] v x y
    by (auto simp: valid_edits_def)
  moreover have "in_bounds original y"
    using y set_dropWhileD[of y] v by (auto simp: valid_edits_def)
  ultimately show ?thesis
    using xe gt bx b by (fastforce simp: before_def in_bounds_def edit_key_def)
qed

definition apply_position :: "text_editor \<Rightarrow> text_edit \<Rightarrow> nat" where
  "apply_position ed e = partition_point (\<lambda>x. e_end x \<le> e_start e) (edits ed)"

definition apply_conflict :: "text_editor \<Rightarrow> text_edit \<Rightarrow> bool" where
  "apply_conflict ed e \<longleftrightarrow>
     apply_position ed e < length (edits ed) \<and>
     range_overlaps (edit_range (edits ed ! apply_position ed e)) (edit_range e)"

lemma apply_conflict_dropWhile:
  "apply_conflict ed e \<longleftrightarrow>
     (\<exists>x xs. dropWhile (\<lambda>x. e_end x \<le> e_start e) (edits ed) = x # xs \<and>
        range_overlaps (edit_range x) (edit_range e))"
proof -
  let ?n = "apply_position ed e"
  have d: "dropWhile (\<lambda>x. e_end x \<le> e_start e) (edits ed) = drop ?n (edits ed)"
    by (simp add: apply_position_def drop_partition_point)
  show ?thesis
  proof (cases "?n < length (edits ed)")
    case True
    then show ?thesis unfolding d apply_conflict_def by (simp flip: Cons_nth_drop_Suc)
  next
    case False
    then show ?thesis unfolding d apply_conflict_def by simp
  qed
qed

lemma insert_position:
  assumes v: "valid_edits (original_text ed) (edits ed)" and b: "in_bounds (original_text ed) e"
    and no: "\<not> apply_conflict ed e"
  shows "valid_edits (original_text ed) (insert_at (apply_position ed e) e (edits ed))"
    and "insert_at (apply_position ed e) e (edits ed) = sort_key edit_key (edits ed @ [e])"
proof -
  let ?p = "\<lambda>x. e_end x \<le> e_start e" and ?es = "edits ed"
  have ins: "insert_at (apply_position ed e) e ?es = takeWhile ?p ?es @ e # dropWhile ?p ?es"
    by (simp add: apply_position_def insert_at_partition_point)
  have after: "before e y \<and> edit_key e < edit_key y" if "y \<in> set (dropWhile ?p ?es)" for y
    using first_conflict[OF v b _ that] no by (auto simp: apply_conflict_dropWhile)
  have pre: "before x e" if "x \<in> set (takeWhile ?p ?es)" for x
    using that by (auto simp: before_def dest: set_takeWhileD)
  show v': "valid_edits (original_text ed) (insert_at (apply_position ed e) e ?es)"
    using v b after pre unfolding ins valid_edits_def
    by (auto simp: sorted_wrt_append sorted_wrt_dropWhile sorted_wrt_takeWhile
        dest: set_takeWhileD set_dropWhileD intro: sorted_wrt_take_drop_While)
  have split: "filter P ?es = filter P (takeWhile ?p ?es) @ filter P (dropWhile ?p ?es)" for P
    by (simp flip: filter_append)
  have "filter (\<lambda>x. k = edit_key x) (takeWhile ?p ?es @ e # dropWhile ?p ?es) =
      filter (\<lambda>x. k = edit_key x) (?es @ [e])" for k
  proof (cases "k = edit_key e")
    case True
    have "filter (\<lambda>x. k = edit_key x) (dropWhile ?p ?es) = []"
      using True after by (fastforce simp: filter_empty_conv)
    then show ?thesis using True split[of "\<lambda>x. k = edit_key x"] by simp
  next
    case False
    then show ?thesis using split[of "\<lambda>x. k = edit_key x"] by simp
  qed
  then have f: "filter (\<lambda>x. k = edit_key x) (insert_at (apply_position ed e) e ?es) =
      filter (\<lambda>x. k = edit_key x) (?es @ [e])" for k
    unfolding ins by blast
  have m: "mset (insert_at (apply_position ed e) e ?es) = mset (?es @ [e])"
    by (simp add: mset_insert_at)
  show "insert_at (apply_position ed e) e ?es = sort_key edit_key (?es @ [e])"
    using properties_for_sort_key[OF m f valid_edits_sorted_key[OF v']] by simp
qed

section \<open>Simulations show the text that is committed\<close>

definition removed_bytes :: "text_edit list \<Rightarrow> nat" where
  "removed_bytes es = (\<Sum>e \<leftarrow> es. unat (range_len (edit_range e)))"

definition inserted_bytes :: "text_edit list \<Rightarrow> nat" where
  "inserted_bytes es = (\<Sum>e \<leftarrow> es. length (new_text e))"

lemma removed_bytes_simps [simp]:
  "removed_bytes [] = 0"
  "removed_bytes (e # es) = unat (range_len (edit_range e)) + removed_bytes es"
  "removed_bytes (es @ fs) = removed_bytes es + removed_bytes fs"
  by (simp_all add: removed_bytes_def)

lemma inserted_bytes_simps [simp]:
  "inserted_bytes [] = 0"
  "inserted_bytes (e # es) = length (new_text e) + inserted_bytes es"
  "inserted_bytes (es @ fs) = inserted_bytes es + inserted_bytes fs"
  by (simp_all add: inserted_bytes_def)

lemma removed_bytes_sort: "removed_bytes (sort_key edit_key es) = removed_bytes es"
  by (simp add: removed_bytes_def flip: sum_mset_sum_list)

lemma removed_bytes_bound:
  assumes "valid_edits original es" "p \<le> length original" "\<forall>e \<in> set es. p \<le> unat (e_start e)"
  shows "p + removed_bytes es \<le> length original"
  using assms
proof (induction es arbitrary: p)
  case (Cons e es)
  let ?t = "unat (e_end e)"
  from Cons.prems have b: "in_bounds original e" and v: "valid_edits original es"
    and "\<forall>x \<in> set es. ?t \<le> unat (e_start x)"
    by (auto simp: valid_edits_Cons dest: before_unat)
  then have "?t + removed_bytes es \<le> length original"
    using Cons.IH[OF v, of ?t] in_bounds_unat[OF b] by auto
  moreover have "p + unat (range_len (edit_range e)) \<le> ?t"
    using Cons.prems(3) unat_range_len[OF b] in_bounds_unat[OF b] by auto
  ultimately show ?case by simp
qed simp

lemma merged_capacity_eq:
  "removed_bytes es \<le> n \<Longrightarrow> merged_capacity n es = Some (n + inserted_bytes es - removed_bytes es)"
  by (induction es arbitrary: n) auto

lemma length_spliced:
  assumes "valid_edits original es"
  shows "length (spliced original es) + removed_bytes es = length original + inserted_bytes es"
  using assms
proof (induction es)
  case Nil
  then show ?case by (simp add: spliced_def)
next
  case (Cons e es)
  let ?t = "unat (e_end e)"
  from Cons.prems have b: "in_bounds original e" and v: "valid_edits original es"
    and "\<forall>x \<in> set es. ?t \<le> unat (e_start x)"
    by (auto simp: valid_edits_Cons dest: before_unat)
  then have t: "?t \<le> length (spliced original es)"
    using take_spliced[of es original ?t] in_bounds_unat[OF b] by (auto simp: valid_edits_def)
  have "length (spliced original (e # es)) + (?t - unat (e_start e)) =
      length (spliced original es) + length (new_text e)"
    using t in_bounds_unat[OF b] by (simp add: spliced_def splice_def)
  then show ?case using Cons.IH[OF v] unat_range_len[OF b] by simp
qed

lemma stitch_capacity_eq:
  "removed_bytes es \<le> n \<Longrightarrow> stitch_capacity n es = n + inserted_bytes es - removed_bytes es"
  by (induction es arbitrary: n) auto

lemma stitch_merged_sort:
  assumes "valid_edits original (sort_key edit_key (olds @ news))"
    and "sorted (map edit_key olds)" "sorted (map edit_key news)"
  shows "stitch_merged original olds news =
    Some (spliced original (sort_key edit_key (olds @ news)))"
proof -
  have le: "removed_bytes olds + removed_bytes news \<le> length original"
    using removed_bytes_bound[OF assms(1), of 0] removed_bytes_sort[of "olds @ news"] by simp
  then have "merged_capacity (length original) olds =
      Some (length original + inserted_bytes olds - removed_bytes olds)"
    by (intro merged_capacity_eq) simp
  moreover have "\<exists>m. merged_capacity (length original + inserted_bytes olds - removed_bytes olds)
      news = Some m"
    using le merged_capacity_eq by auto
  moreover have "stitch_merged_loop original (0, []) olds news =
      Some (spliced original (sort_key edit_key (olds @ news)))"
    using stitch_spliced[OF assms(1)] assms(2,3)
    by (simp add: stitch_merged_loop_eq merge_edits_sort stitch_def)
  ultimately show ?thesis by (auto simp: stitch_merged_def)
qed

section \<open>The contract of a single edit\<close>

definition accepts :: "checker \<Rightarrow> bytes \<Rightarrow> bool" where
  "accepts checker txt = (case checker of None \<Rightarrow> True | Some check_fn \<Rightarrow> check_fn txt)"

lemma run_checker_Some: "run_checker checker (Some txt) = Some (accepts checker txt)"
  by (simp add: run_checker_def accepts_def split: option.splits)

text \<open>
  What \<open>apply\<close> promises: the edit is judged against every accepted edit, and the checker
  is asked about the text that accepting it gives.
\<close>

definition with_edit :: "text_editor \<Rightarrow> text_edit list \<Rightarrow> text_edit list" where
  "with_edit ed news = sort_key edit_key (edits ed @ news)"

definition apply_spec :: "text_editor \<Rightarrow> text_edit \<Rightarrow> checker \<Rightarrow> apply_result \<times> text_editor" where
  "apply_spec ed edit checker =
     (case check_safety ed (edit_safety edit) of
        Some rejection \<Rightarrow> (rejection, ed)
      | None \<Rightarrow>
          if \<not> in_bounds (original_text ed) edit then (OutOfBounds, ed)
          else if \<exists>x \<in> set (edits ed). range_overlaps (edit_range x) (edit_range edit)
          then (Overlap, ed)
          else if \<not> accepts checker (spliced (original_text ed) (with_edit ed [edit]))
          then (Rejected, ed)
          else (Applied, ed\<lparr>edits := with_edit ed [edit]\<rparr>))"

lemma apply_conflict_iff:
  assumes v: "valid_edits (original_text ed) (edits ed)" and b: "in_bounds (original_text ed) e"
  shows "apply_conflict ed e \<longleftrightarrow>
    (\<exists>x \<in> set (edits ed). range_overlaps (edit_range x) (edit_range e))"
proof
  assume "apply_conflict ed e"
  then obtain x xs where "dropWhile (\<lambda>x. e_end x \<le> e_start e) (edits ed) = x # xs"
    and o: "range_overlaps (edit_range x) (edit_range e)"
    by (auto simp: apply_conflict_dropWhile)
  then have "x \<in> set (edits ed)"
    using set_dropWhileD[of x "\<lambda>x. e_end x \<le> e_start e" "edits ed"] by simp
  with o show "\<exists>x \<in> set (edits ed). range_overlaps (edit_range x) (edit_range e)" by blast
next
  assume "\<exists>x \<in> set (edits ed). range_overlaps (edit_range x) (edit_range e)"
  then obtain x where x: "x \<in> set (edits ed)" and o: "range_overlaps (edit_range x) (edit_range e)"
    by blast
  show "apply_conflict ed e"
  proof (rule ccontr)
    assume no: "\<not> apply_conflict ed e"
    have bx: "in_bounds (original_text ed) x" using x v by (auto simp: valid_edits_def)
    have "before x e \<or> before e x"
    proof (cases "x \<in> set (dropWhile (\<lambda>x. e_end x \<le> e_start e) (edits ed))")
      case True
      then show ?thesis using first_conflict[OF v b _ True] no
        by (auto simp: apply_conflict_dropWhile)
    next
      case False
      then have "x \<in> set (takeWhile (\<lambda>x. e_end x \<le> e_start e) (edits ed))"
        using x by (metis Un_iff set_append takeWhile_dropWhile_id)
      then show ?thesis by (auto simp: before_def dest: set_takeWhileD)
    qed
    with o bx b before_no_overlap show False by (auto simp: in_bounds_def)
  qed
qed

lemma with_edit_valid:
  assumes "editor_inv ed" "in_bounds (original_text ed) e" "\<not> apply_conflict ed e"
  shows "valid_edits (original_text ed) (with_edit ed [e])"
    and "insert_at (apply_position ed e) e (edits ed) = with_edit ed [e]"
  using assms insert_position[of ed e] by (auto simp: editor_inv_def with_edit_def)

lemma stitch_one_committed:
  assumes "editor_inv ed" "in_bounds (original_text ed) e" "\<not> apply_conflict ed e"
  shows "stitch_one (original_text ed) (edits ed) e =
    Some (spliced (original_text ed) (with_edit ed [e]))"
  using assms with_edit_valid[OF assms] valid_edits_sorted_key[of "original_text ed" "edits ed"]
  by (auto simp: stitch_one_def with_edit_def editor_inv_def intro!: stitch_merged_sort)

lemma apply_edit_refines_spec:
  assumes "editor_inv ed"
  shows "apply_edit ed edit checker = Some (apply_spec ed edit checker)"
proof (cases "in_bounds (original_text ed) edit")
  case True
  have c: "apply_conflict ed edit \<longleftrightarrow>
      (\<exists>x \<in> set (edits ed). range_overlaps (edit_range x) (edit_range edit))"
    using apply_conflict_iff[OF _ True] assms by (simp add: editor_inv_def)
  show ?thesis
    using True assms c stitch_one_committed[OF assms True] with_edit_valid(2)[OF assms True]
    by (auto simp: apply_edit_def apply_spec_def Let_def editor_inv_in_bounds run_checker_Some
        apply_position_def[symmetric] apply_conflict_def[symmetric] split: option.splits)
next
  case False
  then show ?thesis
    using assms by (auto simp: apply_edit_def apply_spec_def editor_inv_in_bounds split: option.splits)
qed

lemma editor_inv_with_edits:
  assumes "editor_inv ed" "valid_edits (original_text ed) (with_edit ed news)"
    "\<forall>e \<in> set news. edit_safety e \<le> safety_threshold ed"
  shows "editor_inv (ed\<lparr>edits := with_edit ed news\<rparr>)"
  using assms by (auto simp: editor_inv_def with_edit_def)

lemma editor_finish_spliced:
  "editor_inv ed \<Longrightarrow> editor_finish ed = Some (spliced (original_text ed) (edits ed))"
  by (simp add: editor_finish_def editor_inv_def stitch_spliced)

lemma set_with_edit [simp]: "set (with_edit ed news) = set (edits ed) \<union> set news"
  by (auto simp: with_edit_def)

lemma apply_spec_inv:
  assumes "editor_inv ed"
  shows "editor_inv (snd (apply_spec ed edit checker))"
proof -
  have v: "valid_edits (original_text ed) (edits ed)" using assms by (simp add: editor_inv_def)
  have "editor_inv (ed\<lparr>edits := with_edit ed [edit]\<rparr>)"
    if "check_safety ed (edit_safety edit) = None" "in_bounds (original_text ed) edit"
      "\<not> (\<exists>x \<in> set (edits ed). range_overlaps (edit_range x) (edit_range edit))"
    using that assms apply_conflict_iff[OF v that(2)] with_edit_valid(1)[OF assms that(2)]
    by (intro editor_inv_with_edits) (auto simp: check_safety_None)
  then show ?thesis using assms by (auto simp: apply_spec_def split: option.splits)
qed

section \<open>The contract of a batch\<close>

lemma with_edit_sort: "sort_key edit_key (edits ed @ sort_key edit_key news) = with_edit ed news"
  unfolding with_edit_def
  by (rule properties_for_sort_key) (simp_all only: filter_append filter_key_sort mset_append
      mset_sort sorted_sort_key)

lemma with_edit_Nil: "editor_inv ed \<Longrightarrow> with_edit ed [] = edits ed"
  by (simp add: with_edit_def sort_key_id_if_sorted editor_inv_sorted_key)

lemma batch_safety_None:
  "batch_safety ed es = None \<longleftrightarrow> (\<forall>e \<in> set es. edit_safety e \<le> safety_threshold ed)"
  by (induction es) (auto simp flip: check_safety_None split: option.splits)

lemma batch_safety_not_Applied: "batch_safety ed es \<noteq> Some Applied"
  by (induction es) (auto simp: check_safety_not_Applied split: option.splits)

lemma batch_validate_not_Applied: "batch_validate len prev es \<noteq> Some Applied"
  by (induction len prev es rule: batch_validate.induct) auto

text \<open>Comparing neighbours is enough, because the batch is sorted first.\<close>

lemma batch_validate_before:
  assumes "sorted (map edit_key (p # es))" "e_start p \<le> e_end p"
    "batch_validate len (Some p) es = None"
  shows "sorted_wrt before (p # es)"
    and "\<forall>e \<in> set es. \<not> (e_end e > len \<or> e_start e > e_end e)"
  using assms
proof (induction es arbitrary: p)
  case (Cons e es)
  { case 1
    then have e: "e_start e \<le> e_end e" "before p e" and r: "batch_validate len (Some e) es = None"
      by (auto split: if_splits intro: before_if_no_overlap)
    then have "sorted_wrt before (e # es)" "\<forall>x \<in> set es. \<not> (e_end x > len \<or> e_start x > e_end x)"
      using Cons.IH[of e] 1 by auto
    then show ?case using e by (auto intro: before_trans)
  next
    case 2
    then show ?case using Cons.IH(2)[of e] by (auto split: if_splits)
  }
qed auto

lemma batch_validate_valid:
  assumes "editor_inv ed" "sorted (map edit_key es)"
  shows "batch_validate (original_len ed) None es = None \<longleftrightarrow> valid_edits (original_text ed) es"
proof
  assume v: "batch_validate (original_len ed) None es = None"
  show "valid_edits (original_text ed) es"
  proof (cases es)
    case (Cons e es')
    with v have "e_start e \<le> e_end e" "\<not> e_end e > original_len ed"
      and "batch_validate (original_len ed) (Some e) es' = None" by (auto split: if_splits)
    then show ?thesis
      using batch_validate_before[of e es' "original_len ed"] assms Cons
      by (auto simp: valid_edits_def editor_inv_in_bounds)
  qed simp
next
  have "batch_validate (original_len ed) p es = None"
    if "\<forall>e \<in> set es. in_bounds (original_text ed) e" "sorted_wrt before es"
      "\<forall>x. p = Some x \<longrightarrow> in_bounds (original_text ed) x \<and> (\<forall>e \<in> set es. before x e)" for p
    using that
  proof (induction es arbitrary: p)
    case (Cons e es)
    then show ?case
      using before_no_overlap(1)[of "the p" e] assms(1)
      by (auto simp: editor_inv_in_bounds not_less split: option.splits)
  qed simp
  then show "valid_edits (original_text ed) es \<Longrightarrow>
      batch_validate (original_len ed) None es = None"
    by (auto simp: valid_edits_def)
qed

text \<open>
  The scan of accepted against new edits stops comparing a new edit once it meets an accepted
  edit that does not start before it. That is enough unless an accepted insertion stands at
  the very start of a new replacement.
\<close>

definition no_insertion_at_start :: "text_edit list \<Rightarrow> text_edit list \<Rightarrow> bool" where
  "no_insertion_at_start olds news \<longleftrightarrow>
     (\<forall>old \<in> set olds. \<forall>new \<in> set news. e_start old = e_start new \<longrightarrow>
        range_is_empty (edit_range old) \<longrightarrow> range_is_empty (edit_range new))"

lemma batch_conflict_sound:
  "batch_conflict olds news \<Longrightarrow>
     \<exists>old \<in> set olds. \<exists>new \<in> set news. range_overlaps (edit_range old) (edit_range new)"
  by (induction olds news rule: batch_conflict.induct) (auto split: if_splits)

lemma batch_conflict_complete:
  assumes "valid_edits original olds" "valid_edits original news"
    "no_insertion_at_start olds news" "\<not> batch_conflict olds news"
  shows "\<forall>old \<in> set olds. \<forall>new \<in> set news. before old new \<or> before new old"
  using assms
proof (induction olds news rule: batch_conflict.induct)
  case (1 old olds new news)
  have no: "\<not> range_overlaps (edit_range old) (edit_range new)"
    using "1.prems"(4) by (auto split: if_splits)
  have b: "in_bounds original old" "in_bounds original new"
    using "1.prems" by (auto simp: valid_edits_Cons)
  show ?case
  proof (cases "e_start old < e_start new")
    case True
    have IH: "\<forall>old' \<in> set olds. \<forall>new' \<in> set (new # news). before old' new' \<or> before new' old'"
      using "1.IH"(1)[OF no True] "1.prems" no True
      by (auto simp: valid_edits_Cons no_insertion_at_start_def)
    have "before old new"
      using before_if_no_overlap[OF no] b True by (auto simp: in_bounds_def edit_key_def)
    then have "\<forall>new' \<in> set (new # news). before old new'"
      using "1.prems"(2) b by (fastforce simp: valid_edits_Cons before_def in_bounds_def)
    then show ?thesis using IH by auto
  next
    case False
    have IH: "\<forall>old' \<in> set (old # olds). \<forall>new' \<in> set news. before old' new' \<or> before new' old'"
      using "1.IH"(2)[OF no False] "1.prems" no False
      by (auto simp: valid_edits_Cons no_insertion_at_start_def)
    have ne: "e_start old = e_start new \<Longrightarrow> e_start old = e_end old \<Longrightarrow> e_start new = e_end new"
      using "1.prems"(3) by (auto simp: no_insertion_at_start_def range_is_empty_def)
    have "before new old"
      using no b False ne by (auto simp: range_overlaps_iff before_def in_bounds_def not_less
          split: if_splits)
    then have "\<forall>old' \<in> set (old # olds). before new old'"
      using "1.prems"(1) b by (fastforce simp: valid_edits_Cons before_def in_bounds_def)
    then show ?thesis using IH by auto
  qed
qed auto

lemma merge_edits_valid:
  assumes "valid_edits original olds" "valid_edits original news"
    "\<forall>old \<in> set olds. \<forall>new \<in> set news. before old new \<or> before new old"
  shows "valid_edits original (merge_edits olds news)"
  using assms
proof (induction olds news rule: merge_edits.induct)
  case (3 old olds new news)
  have key: "before a b"
    if "before a b \<or> before b a" "edit_key a \<le> edit_key b" "in_bounds original a" "in_bounds original b"
    for a b
    using that by (auto simp: before_def in_bounds_def edit_key_def)
  have b: "\<forall>x \<in> set (old # olds) \<union> set (new # news). in_bounds original x"
    using "3.prems" by (auto simp: valid_edits_def)
  have srt: "\<forall>x \<in> set olds. edit_key old \<le> edit_key x" "\<forall>x \<in> set news. edit_key new \<le> edit_key x"
    using "3.prems"(1,2)[THEN valid_edits_sorted_key] by auto
  show ?case
  proof (cases "edit_key old \<le> edit_key new")
    case True
    have "before old x" if "x \<in> set olds \<union> set (new # news)" for x
    proof (cases "x \<in> set olds")
      case False
      with that True srt(2) have "edit_key old \<le> edit_key x" by (auto intro: order_trans)
      then show ?thesis using False that "3.prems"(3) b by (intro key) auto
    qed (use "3.prems"(1) in \<open>auto simp: valid_edits_Cons\<close>)
    then show ?thesis using 3 True
      by (auto simp: valid_edits_Cons set_merge_edits)
  next
    case False
    have "before new x" if "x \<in> set (old # olds) \<union> set news" for x
    proof (cases "x \<in> set news")
      case nx: False
      with that False srt(1) have "edit_key new \<le> edit_key x" by (auto intro: order_trans)
      then show ?thesis using nx that "3.prems"(3) b by (intro key) auto
    qed (use "3.prems"(2) in \<open>auto simp: valid_edits_Cons\<close>)
    then show ?thesis using 3 False
      by (auto simp: valid_edits_Cons set_merge_edits)
  qed
qed auto

lemma merge_edits_validD:
  assumes "valid_edits original (merge_edits olds news)"
  shows "valid_edits original olds \<and> valid_edits original news \<and>
    (\<forall>old \<in> set olds. \<forall>new \<in> set news. before old new \<or> before new old)"
  using assms
proof (induction olds news rule: merge_edits.induct)
  case (3 old olds new news)
  then show ?case
    by (cases "edit_key old \<le> edit_key new") (auto simp: valid_edits_Cons set_merge_edits)
qed auto

definition batch_admissible :: "text_editor \<Rightarrow> text_edit list \<Rightarrow> checker \<Rightarrow> bool" where
  "batch_admissible ed news checker \<longleftrightarrow>
     (\<forall>e \<in> set news. edit_safety e \<le> safety_threshold ed) \<and>
     valid_edits (original_text ed) (with_edit ed news) \<and>
     (news = [] \<or> accepts checker (spliced (original_text ed) (with_edit ed news)))"

lemma with_edit_merge:
  "editor_inv ed \<Longrightarrow> with_edit ed news = merge_edits (edits ed) (sort_key edit_key news)"
  by (simp add: with_edit_sort[symmetric] merge_edits_sort editor_inv_sorted_key)

lemma with_edit_valid_iff:
  assumes inv: "editor_inv ed" and no: "no_insertion_at_start (edits ed) news"
  shows "valid_edits (original_text ed) (with_edit ed news) \<longleftrightarrow>
    batch_validate (original_len ed) None (sort_key edit_key news) = None \<and>
    \<not> batch_conflict (edits ed) (sort_key edit_key news)"
proof -
  let ?o = "original_text ed" and ?news = "sort_key edit_key news"
  have val: "batch_validate (original_len ed) None ?news = None \<longleftrightarrow> valid_edits ?o ?news"
    by (rule batch_validate_valid[OF inv]) simp
  have olds: "valid_edits ?o (edits ed)" using inv by (simp add: editor_inv_def)
  have no': "no_insertion_at_start (edits ed) ?news" using no by (simp add: no_insertion_at_start_def)
  have "\<not> batch_conflict (edits ed) ?news"
    if "valid_edits ?o ?news"
      "\<forall>old \<in> set (edits ed). \<forall>new \<in> set ?news. before old new \<or> before new old"
  proof
    assume "batch_conflict (edits ed) ?news"
    then obtain a b where ab: "a \<in> set (edits ed)" "b \<in> set ?news"
      and o: "range_overlaps (edit_range a) (edit_range b)"
      using batch_conflict_sound by blast
    then have "e_start a \<le> e_end a" "e_start b \<le> e_end b"
      using olds that(1) by (auto simp: valid_edits_def in_bounds_def)
    then show False using o ab that(2) before_no_overlap by blast
  qed
  then show ?thesis
    unfolding val with_edit_merge[OF inv]
    using merge_edits_validD merge_edits_valid[OF olds]
      batch_conflict_complete[OF olds _ no'] by blast
qed

lemma apply_batch_outcome:
  assumes inv: "editor_inv ed" and no: "no_insertion_at_start (edits ed) news"
  shows "if batch_admissible ed news checker
    then apply_batch ed news checker = Some (Applied, ed\<lparr>edits := with_edit ed news\<rparr>)
    else \<exists>r. r \<noteq> Applied \<and> apply_batch ed news checker = Some (r, ed)"
proof -
  let ?news = "sort_key edit_key news"
  consider (empty) "news = []" | (unsafe) r where "news \<noteq> []" "batch_safety ed news = Some r"
    | (invalid) "news \<noteq> []" "batch_safety ed news = None"
        "\<not> valid_edits (original_text ed) (with_edit ed news)"
    | (valid) "news \<noteq> []" "batch_safety ed news = None"
        "valid_edits (original_text ed) (with_edit ed news)"
    by (cases "batch_safety ed news") auto
  then show ?thesis
  proof cases
    case empty
    then show ?thesis
      using inv by (auto simp: batch_admissible_def apply_batch_def with_edit_Nil editor_inv_def)
  next
    case unsafe
    then show ?thesis
      using batch_safety_None[of ed news] batch_safety_not_Applied[of ed news]
      by (auto simp: batch_admissible_def apply_batch_def)
  next
    case invalid
    then show ?thesis
      using with_edit_valid_iff[OF inv no] batch_validate_not_Applied[of "original_len ed" None ?news]
      by (auto simp: batch_admissible_def apply_batch_def Let_def split: option.splits)
  next
    case valid
    have "stitch_merged (original_text ed) (edits ed) ?news =
        Some (spliced (original_text ed) (with_edit ed news))"
      using stitch_merged_sort[of "original_text ed" "edits ed" ?news] valid(3) inv
      by (simp add: with_edit_sort editor_inv_sorted_key)
    then show ?thesis
      using valid with_edit_valid_iff[OF inv no] batch_safety_None[of ed news]
      by (auto simp: batch_admissible_def apply_batch_def Let_def run_checker_Some with_edit_sort)
  qed
qed

lemma already_accepted_iff:
  assumes "editor_inv ed"
  shows "already_accepted ed e \<longleftrightarrow> e \<in> set (edits ed)"
proof
  assume "already_accepted ed e"
  then show "e \<in> set (edits ed)"
    by (auto simp: already_accepted_def dest!: set_takeWhileD dest: in_set_dropD)
next
  let ?p = "\<lambda>x. edit_key x < edit_key e" and ?q = "\<lambda>x. edit_range x = edit_range e"
  assume e: "e \<in> set (edits ed)"
  have srt: "sorted (map edit_key (edits ed))" using assms by (rule editor_inv_sorted_key)
  have "e \<in> set (dropWhile ?p (edits ed))"
    using e by (metis Un_iff order.irrefl set_append set_takeWhileD takeWhile_dropWhile_id)
  moreover have "e \<in> set (takeWhile ?q xs)"
    if "sorted (map edit_key xs)" "\<forall>x \<in> set xs. edit_key e \<le> edit_key x" "e \<in> set xs" for xs
    using that
  proof (induction xs)
    case (Cons x xs)
    then have "edit_key x = edit_key e" by auto
    then have "edit_range x = edit_range e" by (simp add: edit_key_def text_range.equality)
    then show ?case using Cons by auto
  qed simp
  moreover have "\<forall>x \<in> set (dropWhile ?p (edits ed)). edit_key e \<le> edit_key x"
  proof (cases "dropWhile ?p (edits ed)")
    case Nil
    then show ?thesis by (simp only: list.set ball_empty)
  next
    case (Cons y ys)
    then have "edit_key e \<le> edit_key y" using dropWhile_ConsD[OF Cons] by simp
    then show ?thesis using Cons srt
      by (metis (no_types, lifting) dropWhile_eq_drop drop_map order_trans set_ConsD set_map
          image_eqI list.simps(9) sorted_simps(2) sorted_wrt_drop)
  qed
  moreover have "sorted (map edit_key (dropWhile ?p (edits ed)))"
    using srt by (metis dropWhile_eq_drop drop_map sorted_wrt_drop)
  ultimately have "e \<in> set (takeWhile ?q (dropWhile ?p (edits ed)))" by blast
  then show "already_accepted ed e"
    by (auto simp: already_accepted_def Let_def drop_partition_point)
qed

section \<open>Properties\<close>

text \<open>The editor and edits the concrete instances use: the text \<open>0123456789\<close>.\<close>

definition digits_text :: bytes where
  "digits_text = [48, 49, 50, 51, 52, 53, 54, 55, 56, 57]"

definition sample_editor :: text_editor where
  "sample_editor = \<lparr>original_text = digits_text, original_len = 10,
     edits = [edit_insert 5 [88], edit_replace (text_range_new 7 8) [89]],
     safety_threshold = PotentiallyUnsafe\<rparr>"

lemma sample_editor_inv: "editor_inv sample_editor"
  by (simp add: editor_inv_def sample_editor_def digits_text_def valid_edits_def in_bounds_def
      before_def edit_insert_def edit_replace_def text_range_new_def less_eq_safety_def)

text \<open>
  C1. The single-edit operation implements its contract: in an editor whose accepted edits are
  in bounds, ordered and disjoint, \<open>apply\<close> never panics, its one bisection step finds a
  conflict exactly when some accepted edit overlaps the new one, the checker is asked about the
  text the accepted edits give together with the new one, and the invariant is kept.
\<close>

theorem apply_edit_contract:
  assumes "editor_inv ed"
  shows "apply_edit ed edit checker = Some (apply_spec ed edit checker) \<and>
    editor_inv (snd (apply_spec ed edit checker))"
  using assms by (simp add: apply_edit_refines_spec apply_spec_inv)

theorem apply_edit_contract_witness:
  "editor_inv sample_editor \<and>
   apply_edit sample_editor (edit_delete (text_range_new 8 10)) None =
     Some (apply_spec sample_editor (edit_delete (text_range_new 8 10)) None)"
  using apply_edit_contract[OF sample_editor_inv] sample_editor_inv by blast

text \<open>
  C17. Finishing an editor never panics; it gives the original text with every accepted edit
  spliced in at its original offsets, and its length is the capacity the stitcher reserves.
\<close>

theorem finish_splices:
  assumes "editor_inv ed"
  shows "\<exists>txt. editor_finish ed = Some txt \<and> txt = spliced (original_text ed) (edits ed) \<and>
    length txt = stitch_capacity (length (original_text ed)) (edits ed)"
proof -
  have "removed_bytes (edits ed) \<le> length (original_text ed)"
    using removed_bytes_bound[OF editor_inv_valid[OF assms], of 0] by simp
  then show ?thesis
    using editor_finish_spliced[OF assms] length_spliced[OF editor_inv_valid[OF assms]]
    by (auto simp: stitch_capacity_eq)
qed

theorem finish_splices_witness:
  "\<exists>txt. editor_finish sample_editor = Some txt \<and> length txt = 11"
  using finish_splices[OF sample_editor_inv]
  by (auto simp: sample_editor_def digits_text_def edit_insert_def edit_replace_def
      text_range_new_def range_len_def)

text \<open>
  C13. A batch is atomic and judged as a whole: unless an accepted insertion stands at the start
  of a new replacement, the batch is accepted exactly when all its edits are safe enough, all
  accepted and new edits together are in bounds and disjoint, and the checker accepts the text
  they give; otherwise the editor is unchanged.
\<close>

theorem apply_batch_contract:
  assumes "editor_inv ed" and "no_insertion_at_start (edits ed) news"
  shows "if batch_admissible ed news checker
    then apply_batch ed news checker = Some (Applied, ed\<lparr>edits := with_edit ed news\<rparr>) \<and>
      editor_inv (ed\<lparr>edits := with_edit ed news\<rparr>)
    else \<exists>r. r \<noteq> Applied \<and> apply_batch ed news checker = Some (r, ed)"
  using apply_batch_outcome[OF assms, of checker] editor_inv_with_edits[OF assms(1), of news]
  by (auto simp: batch_admissible_def split: if_splits)

theorem apply_batch_contract_witness:
  "\<exists>ed'. apply_batch sample_editor [edit_replace (text_range_new 0 2) [90], edit_insert 10 [33]] None =
     Some (Applied, ed') \<and> editor_inv ed'"
proof -
  let ?news = "[edit_replace (text_range_new 0 2) [90], edit_insert 10 [33]]"
  have no: "no_insertion_at_start (edits sample_editor) ?news"
    by (simp add: no_insertion_at_start_def sample_editor_def edit_insert_def edit_replace_def
        text_range_new_def)
  have "batch_admissible sample_editor ?news None"
    by (simp add: batch_admissible_def accepts_def with_edit_def sample_editor_def digits_text_def
        edit_insert_def edit_replace_def text_range_new_def edit_key_def valid_edits_def
        in_bounds_def before_def less_eq_safety_def)
  then show ?thesis using apply_batch_contract[OF sample_editor_inv no, of None] by auto
qed

text \<open>
  The scan for conflicts of a batch misses one kind of overlap: with the insertion at 5 and
  the replacement of 7..8 accepted, a batch that replaces 5..10 is applied, and the finished
  text still ends with the bytes 8 and 9 that the batch replaces.
\<close>

theorem batch_misses_conflict:
  "editor_inv sample_editor \<and>
   range_overlaps (text_range_new 7 8) (text_range_new 5 10) \<and>
   (\<exists>ed'. apply_batch sample_editor [edit_replace (text_range_new 5 10) [90]] None =
       Some (Applied, ed') \<and>
     \<not> editor_inv ed' \<and>
     editor_finish ed' = Some [48, 49, 50, 51, 52, 88, 90, 89, 56, 57])"
proof -
  let ?news = "[edit_replace (text_range_new 5 10) [90]]"
  let ?ed = "sample_editor\<lparr>edits := [edit_insert 5 [88], edit_replace (text_range_new 5 10) [90],
     edit_replace (text_range_new 7 8) [89]]\<rparr>"
  have srt: "sort_key edit_key (edits sample_editor @ ?news) = edits ?ed"
    by (simp add: sample_editor_def edit_insert_def edit_replace_def edit_key_def text_range_new_def)
  have "apply_batch sample_editor ?news None = Some (Applied, ?ed)"
    using srt
    by (simp add: apply_batch_def sample_editor_def edit_insert_def edit_replace_def
        text_range_new_def check_safety_def less_safety_def range_overlaps_iff run_checker_def)
  moreover have "\<not> editor_inv ?ed"
    by (simp add: editor_inv_def valid_edits_def before_def edit_insert_def edit_replace_def
        text_range_new_def)
  moreover have "editor_finish ?ed = Some [48, 49, 50, 51, 52, 88, 90, 89, 56, 57]"
    by (simp add: editor_finish_def stitch_def stitch_step_def stitch_finish_def sample_editor_def
        digits_text_def edit_insert_def edit_replace_def text_range_new_def)
  moreover have "range_overlaps (text_range_new 7 8) (text_range_new 5 10)"
    by (simp add: range_overlaps_iff text_range_new_def)
  ultimately show ?thesis using sample_editor_inv by blast
qed

text \<open>
  What a batch's checker accepts is byte for byte the text that finishing the editor gives
  afterwards, also where a conflict slipped through: the simulation merges the two sorted
  sequences into the one the editor keeps.
\<close>

theorem batch_checker_sees_finished_text:
  assumes "sorted (map edit_key (edits ed))" and "news \<noteq> []"
    and "apply_batch ed news (Some check_fn) = Some (Applied, ed')"
  shows "\<exists>txt. editor_finish ed' = Some txt \<and> check_fn txt"
proof -
  let ?news = "sort_key edit_key news"
  have "batch_safety ed news = None" "batch_validate (original_len ed) None ?news = None"
    using assms(2,3) batch_safety_not_Applied batch_validate_not_Applied
    by (auto simp: apply_batch_def Let_def split: option.splits if_splits)
  then obtain t where m: "stitch_merged (original_text ed) (edits ed) ?news = Some t"
    and "check_fn t" and ed': "ed' = ed\<lparr>edits := with_edit ed news\<rparr>"
    using assms(2,3)
    by (auto simp: apply_batch_def Let_def run_checker_def with_edit_sort
        split: option.splits if_splits bool.splits)
  moreover from m have "stitch_loop (original_text ed) (0, []) (with_edit ed news) = Some t"
    using merge_edits_sort[OF assms(1), of ?news]
    by (simp add: stitch_merged_def stitch_merged_loop_eq with_edit_sort split: option.splits)
  ultimately show ?thesis by (auto simp: editor_finish_def stitch_def)
qed

theorem batch_checker_sees_finished_text_witness:
  "\<exists>ed' txt. apply_batch (editor_new [97, 98]) [edit_insert 0 [33]] (Some (\<lambda>t. length t = 3)) =
     Some (Applied, ed') \<and> editor_finish ed' = Some txt \<and> length txt = 3"
proof -
  have "\<exists>ed'. apply_batch (editor_new [97, 98]) [edit_insert 0 [33]] (Some (\<lambda>t. length t = 3)) =
      Some (Applied, ed')"
    by (simp add: apply_batch_def editor_new_def edit_insert_def text_range_new_def check_safety_def
        less_safety_def run_checker_def stitch_merged_def stitch_step_def stitch_finish_def
        range_len_def)
  then obtain ed' where ed': "apply_batch (editor_new [97, 98]) [edit_insert 0 [33]]
      (Some (\<lambda>t. length t = 3)) = Some (Applied, ed')" ..
  have "sorted (map edit_key (edits (editor_new [97, 98])))" by (simp add: editor_new_def)
  from batch_checker_sees_finished_text[OF this _ ed'] ed' show ?thesis by auto
qed

text \<open>
  Applying a unique batch is applying the batch without the edits already accepted: the
  bisection and scan by key find an accepted edit exactly when it is there. A batch of accepted
  edits changes nothing.
\<close>

theorem unique_batch_skips_accepted:
  assumes "editor_inv ed"
  shows "apply_unique_batch ed news checker =
      apply_batch ed (filter (\<lambda>e. e \<notin> set (edits ed)) news) checker \<and>
    (set news \<subseteq> set (edits ed) \<longrightarrow> apply_unique_batch ed news checker = Some (Applied, ed))"
proof -
  have "filter (\<lambda>e. e \<notin> set (edits ed)) news = []" if "set news \<subseteq> set (edits ed)"
    using that by (auto simp: filter_empty_conv)
  then show ?thesis
    using assms by (simp add: apply_unique_batch_def already_accepted_iff apply_batch_def)
qed

theorem unique_batch_skips_accepted_witness:
  "apply_unique_batch sample_editor [edit_insert 5 [88]] None = Some (Applied, sample_editor)"
proof -
  have "set [edit_insert 5 [88]] \<subseteq> set (edits sample_editor)"
    by (simp add: sample_editor_def)
  then show ?thesis using unique_batch_skips_accepted[OF sample_editor_inv] by blast
qed

end
