(* ===== verification/Decimal.thy ===== *)
theory Decimal
  imports Mago_Prelude
begin

text \<open>
  Decimal numerals as the standard library prints and parses them: the \<open>Display\<close>
  implementation of integers (and \<open>itoa\<close>, which prints the same text), and
  \<open>str::parse\<close> for unsigned integers with its error kinds. Printing and then parsing
  gives the number back, so printing is injective.
\<close>

definition digit_char :: "nat \<Rightarrow> char" where
  "digit_char d = char_of (48 + d)"

definition char_digit :: "char \<Rightarrow> nat option" where
  "char_digit c =
     (let n = of_char c :: nat in if 48 \<le> n \<and> n \<le> 57 then Some (n - 48) else None)"

fun show_nat :: "nat \<Rightarrow> string" where
  "show_nat n =
     (if n < 10 then [digit_char n] else show_nat (n div 10) @ [digit_char (n mod 10)])"

declare show_nat.simps [simp del]

definition show_int :: "int \<Rightarrow> string" where
  "show_int i = (if i < 0 then ''-'' @ show_nat (nat (- i)) else show_nat (nat i))"

datatype int_error_kind = Empty | InvalidDigit | PosOverflow

text \<open>
  The loop of \<open>from_str\<close>: a character that is no digit is reported before an overflow of
  the multiplication, which is reported before an overflow of the addition.
\<close>

fun parse_digits :: "nat \<Rightarrow> nat \<Rightarrow> string \<Rightarrow> int_error_kind + nat" where
  "parse_digits bound acc [] = Inr acc"
| "parse_digits bound acc (c # cs) =
     (case char_digit c of
        None \<Rightarrow> Inl InvalidDigit
      | Some d \<Rightarrow>
          if acc * 10 > bound then Inl PosOverflow
          else if acc * 10 + d > bound then Inl PosOverflow
          else parse_digits bound (acc * 10 + d) cs)"

definition parse_uint :: "nat \<Rightarrow> string \<Rightarrow> int_error_kind + nat" where
  "parse_uint bound s =
     (case s of
        [] \<Rightarrow> Inl Empty
      | [c] \<Rightarrow> if c = CHR ''+'' \<or> c = CHR ''-'' then Inl InvalidDigit else parse_digits bound 0 s
      | c # cs \<Rightarrow> if c = CHR ''+'' then parse_digits bound 0 cs else parse_digits bound 0 s)"

lemma of_char_digit: "d < 10 \<Longrightarrow> (of_char (digit_char d) :: nat) = 48 + d"
  by (simp add: digit_char_def)

lemma char_digit_digit_char [simp]: "d < 10 \<Longrightarrow> char_digit (digit_char d) = Some d"
  by (simp add: char_digit_def of_char_digit)

lemma digit_char_neq:
  assumes "d < 10"
  shows "digit_char d \<noteq> CHR ''+''" "digit_char d \<noteq> CHR ''-''" "digit_char d \<noteq> CHR ''.''"
    "digit_char d \<noteq> CHR '',''" "digit_char d \<noteq> CHR ''>''" "digit_char d \<noteq> CHR '')''"
    "digit_char d \<noteq> CHR ''m''"
proof -
  have "(of_char (digit_char d) :: nat) \<in> {48..57}" using assms by (simp add: of_char_digit)
  then show "digit_char d \<noteq> CHR ''+''" "digit_char d \<noteq> CHR ''-''" "digit_char d \<noteq> CHR ''.''"
    "digit_char d \<noteq> CHR '',''" "digit_char d \<noteq> CHR ''>''" "digit_char d \<noteq> CHR '')''"
    "digit_char d \<noteq> CHR ''m''"
    by (auto simp: of_char_def)
qed

lemma show_nat_digits: "c \<in> set (show_nat n) \<Longrightarrow> \<exists>d < 10. c = digit_char d"
proof (induction n rule: show_nat.induct)
  case (1 n)
  have "\<exists>d < 10. digit_char (n mod 10) = digit_char d" by (rule exI[of _ "n mod 10"]) simp
  with 1 show ?case by (cases "n < 10") (auto simp: show_nat.simps[of n])
qed

lemma show_nat_no_sign:
  "c \<in> set (show_nat n) \<Longrightarrow> c \<notin> {CHR ''+'', CHR ''-'', CHR ''.'', CHR '','', CHR ''>'', CHR '')'', CHR ''m''}"
  using show_nat_digits[of c n] digit_char_neq by fastforce

lemma show_nat_not_Nil [simp]: "show_nat n \<noteq> []"
  by (subst show_nat.simps) simp

lemma parse_digits_append:
  "parse_digits bound acc (xs @ ys) =
     (case parse_digits bound acc xs of Inl e \<Rightarrow> Inl e | Inr a \<Rightarrow> parse_digits bound a ys)"
  by (induction bound acc xs rule: parse_digits.induct) (auto split: option.splits)

lemma parse_digits_show: "n \<le> bound \<Longrightarrow> parse_digits bound 0 (show_nat n) = Inr n"
proof (induction n rule: show_nat.induct)
  case (1 n)
  show ?case
  proof (cases "n < 10")
    case True
    then show ?thesis using 1 by (simp add: show_nat.simps[of n])
  next
    case False
    then have "parse_digits bound 0 (show_nat (n div 10)) = Inr (n div 10)" using 1 by simp
    moreover have "n div 10 * 10 + n mod 10 = n" by simp
    moreover from this have "n div 10 * 10 \<le> bound" using "1.prems" by linarith
    ultimately show ?thesis using False "1.prems"
      by (simp add: show_nat.simps[of n] parse_digits_append del: div_mult_mod_eq mod_div_mult_eq)
  qed
qed

lemma parse_uint_digits: "s \<noteq> [] \<Longrightarrow> hd s \<noteq> CHR ''+'' \<Longrightarrow> hd s \<noteq> CHR ''-'' \<Longrightarrow>
    parse_uint bound s = parse_digits bound 0 s"
  by (auto simp: parse_uint_def split: list.splits)

lemma parse_uint_show: "n \<le> bound \<Longrightarrow> parse_uint bound (show_nat n) = Inr n"
  using show_nat_no_sign[of "hd (show_nat n)" n]
  by (simp add: parse_uint_digits parse_digits_show)

lemma show_nat_inject: "show_nat m = show_nat n \<longleftrightarrow> m = n"
  by (metis Inr_inject max.cobounded1 max.cobounded2 parse_uint_show)

lemma show_int_inject: "show_int i = show_int j \<longleftrightarrow> i = j"
proof -
  have "CHR ''-'' # xs \<noteq> show_nat n" for xs n
    using show_nat_no_sign[of "CHR ''-''" n] by (metis insertCI list.set_intros(1))
  from this this[symmetric] show ?thesis
    by (auto simp: show_int_def show_nat_inject)
qed

lemma show_int_not_Nil [simp]: "show_int i \<noteq> []"
  by (simp add: show_int_def)

lemma show_int_chars:
  "c \<in> set (show_int i) \<Longrightarrow> c \<notin> {CHR ''+'', CHR ''.'', CHR '','', CHR ''>'', CHR '')'', CHR ''m''}"
  using show_nat_no_sign by (fastforce simp: show_int_def split: if_splits)

lemma show_int_cut:
  "show_int i @ CHR '','' # us = show_int j @ CHR '','' # vs \<longleftrightarrow> i = j \<and> us = vs"
  using split_at_separator[of "CHR '',''" "show_int i" "show_int j"] show_int_chars
  by (auto simp: show_int_inject)

lemma show_int_no_m:
  "show_int i @ us \<noteq> CHR ''m'' # vs" "CHR ''m'' # vs \<noteq> show_int i @ us"
proof -
  have "hd (show_int i @ us) \<noteq> CHR ''m''" using show_int_chars[of "hd (show_int i)" i] by auto
  then show "show_int i @ us \<noteq> CHR ''m'' # vs" by (metis list.sel(1))
  then show "CHR ''m'' # vs \<noteq> show_int i @ us" by metis
qed

end
