(* ===== verification/Integer_Type.thy ===== *)
theory Integer_Type
  imports Decimal
begin

text \<open>
  The integer types of the analyzer (\<open>TInteger\<close>,
  \<open>crates/codex/src/ttype/atomic/scalar/int.rs\<close>): literals, half-open and bounded ranges,
  \<open>int\<close> and \<open>literal-int\<close>. A bound is an \<open>i64\<close>, modelled as an \<open>int\<close> with the range
  written out; saturating operations are written with it.

  The concretisation \<open>\<gamma>\<close> gives the set of \<open>i64\<close> values a type stands for. The lemmas show the
  set-theoretic operations exact or sound against it: containment, overlap, coverage by a
  union, difference, narrowing by a comparison and the merging of a union into normal form.
\<close>

section \<open>\<open>i64\<close> arithmetic\<close>

abbreviation i64_min :: int where
  "i64_min \<equiv> -9223372036854775808"

abbreviation i64_max :: int where
  "i64_max \<equiv> 9223372036854775807"

definition is_i64 :: "int \<Rightarrow> bool" where
  "is_i64 x \<longleftrightarrow> i64_min \<le> x \<and> x \<le> i64_max"

definition sat_i64 :: "int \<Rightarrow> int" where
  "sat_i64 x = (if x < i64_min then i64_min else if x > i64_max then i64_max else x)"

definition sat_add :: "int \<Rightarrow> int \<Rightarrow> int" where
  "sat_add a b = sat_i64 (a + b)"

definition sat_sub :: "int \<Rightarrow> int \<Rightarrow> int" where
  "sat_sub a b = sat_i64 (a - b)"

definition sat_mul :: "int \<Rightarrow> int \<Rightarrow> int" where
  "sat_mul a b = sat_i64 (a * b)"

definition sat_neg :: "int \<Rightarrow> int" where
  "sat_neg a = sat_i64 (- a)"

named_theorems saturation "saturating operations of i64"

declare sat_i64_def [saturation] sat_add_def [saturation] sat_sub_def [saturation]
  sat_mul_def [saturation] sat_neg_def [saturation]

lemma is_i64_sat [simp]: "is_i64 (sat_i64 x)"
  by (simp add: is_i64_def sat_i64_def)

lemma is_i64_sat_ops [simp]:
  "is_i64 (sat_add a b)" "is_i64 (sat_sub a b)" "is_i64 (sat_mul a b)" "is_i64 (sat_neg a)"
  by (simp_all add: sat_add_def sat_sub_def sat_mul_def sat_neg_def)

lemma sat_i64_mono: "x \<le> y \<Longrightarrow> sat_i64 x \<le> sat_i64 y"
  by (simp add: sat_i64_def)

lemma sat_i64_id: "is_i64 x \<Longrightarrow> sat_i64 x = x"
  by (simp add: sat_i64_def is_i64_def)

section \<open>The type\<close>

datatype tinteger =
  Literal int
| From int
| To int
| Range int int
| Unspecified
| UnspecifiedLiteral

definition tint_new :: "int option \<Rightarrow> tinteger" where
  "tint_new value = (case value of Some v \<Rightarrow> Literal v | None \<Rightarrow> Unspecified)"

fun from_bounds :: "int option \<Rightarrow> int option \<Rightarrow> tinteger" where
  "from_bounds (Some f) (Some t) =
     (if f = t then Literal f else if f < t then Range f t else Unspecified)"
| "from_bounds (Some f) None = From f"
| "from_bounds None (Some t) = To t"
| "from_bounds None None = Unspecified"

definition tint_unspecified :: tinteger where "tint_unspecified = Unspecified"

definition tint_positive :: tinteger where "tint_positive = From 1"

definition tint_non_negative :: tinteger where "tint_non_negative = From 0"

definition tint_negative :: tinteger where "tint_negative = To (-1)"

definition tint_non_positive :: tinteger where "tint_non_positive = To 0"

fun is_unspecified :: "tinteger \<Rightarrow> bool" where
  "is_unspecified Unspecified = True"
| "is_unspecified _ = False"

fun is_unspecified_literal :: "tinteger \<Rightarrow> bool" where
  "is_unspecified_literal UnspecifiedLiteral = True"
| "is_unspecified_literal _ = False"

fun is_literal :: "tinteger \<Rightarrow> bool" where
  "is_literal (Literal _) = True"
| "is_literal _ = False"

fun is_of_literal_origin :: "tinteger \<Rightarrow> bool" where
  "is_of_literal_origin (Literal _) = True"
| "is_of_literal_origin UnspecifiedLiteral = True"
| "is_of_literal_origin _ = False"

lemma is_unspecified_iff [simp]:
  "is_unspecified t \<longleftrightarrow> t = Unspecified" "is_unspecified_literal t \<longleftrightarrow> t = UnspecifiedLiteral"
  by (cases t; simp)+

lemma is_literal_iff: "is_literal t \<longleftrightarrow> (\<exists>v. t = Literal v)"
  by (cases t) simp_all

definition tint_is_zero :: "tinteger \<Rightarrow> bool" where
  "tint_is_zero t \<longleftrightarrow> (case t of Literal v \<Rightarrow> v = 0 | _ \<Rightarrow> False)"

fun get_literal_value :: "tinteger \<Rightarrow> int option" where
  "get_literal_value (Literal v) = Some v"
| "get_literal_value _ = None"

fun get_minimum_value :: "tinteger \<Rightarrow> int option" where
  "get_minimum_value (Literal v) = Some v"
| "get_minimum_value (From v) = Some v"
| "get_minimum_value (Range v _) = Some v"
| "get_minimum_value _ = None"

fun get_maximum_value :: "tinteger \<Rightarrow> int option" where
  "get_maximum_value (Literal v) = Some v"
| "get_maximum_value (To v) = Some v"
| "get_maximum_value (Range _ v) = Some v"
| "get_maximum_value _ = None"

fun get_bounds :: "tinteger \<Rightarrow> int option \<times> int option" where
  "get_bounds (Literal v) = (Some v, Some v)"
| "get_bounds (From v) = (Some v, None)"
| "get_bounds (To v) = (None, Some v)"
| "get_bounds (Range f t) = (Some f, Some t)"
| "get_bounds Unspecified = (None, None)"
| "get_bounds UnspecifiedLiteral = (None, None)"

definition is_positive :: "tinteger \<Rightarrow> bool" where
  "is_positive t = (case get_minimum_value t of Some m \<Rightarrow> m > 0 | None \<Rightarrow> False)"

definition is_negative :: "tinteger \<Rightarrow> bool" where
  "is_negative t = (case get_maximum_value t of Some m \<Rightarrow> m < 0 | None \<Rightarrow> False)"

definition is_non_negative :: "tinteger \<Rightarrow> bool" where
  "is_non_negative t = (case get_minimum_value t of Some m \<Rightarrow> m \<ge> 0 | None \<Rightarrow> False)"

definition is_non_positive :: "tinteger \<Rightarrow> bool" where
  "is_non_positive t = (case get_maximum_value t of Some m \<Rightarrow> m \<le> 0 | None \<Rightarrow> False)"

fun can_be_zero :: "tinteger \<Rightarrow> bool" where
  "can_be_zero Unspecified = True"
| "can_be_zero (Literal v) = (v = 0)"
| "can_be_zero (From f) = (f \<le> 0)"
| "can_be_zero (To t) = (t \<ge> 0)"
| "can_be_zero (Range f t) = (f \<le> 0 \<and> t \<ge> 0)"
| "can_be_zero UnspecifiedLiteral = False"

definition tint_contains :: "tinteger \<Rightarrow> tinteger \<Rightarrow> bool" where
  "tint_contains self input =
     (if is_unspecified self then True
      else if is_unspecified_literal self then is_literal input
      else if is_unspecified input then False
      else if is_unspecified_literal input then False
      else (case (self, input) of
          (Literal c, Literal i) \<Rightarrow> c = i
        | (Literal c, Range i_from i_to) \<Rightarrow> c = i_from \<and> c = i_to
        | (From c_from, Literal i) \<Rightarrow> i \<ge> c_from
        | (From c_from, From i_from) \<Rightarrow> i_from \<ge> c_from
        | (From c_from, Range i_from _) \<Rightarrow> i_from \<ge> c_from
        | (To c_to, Literal i) \<Rightarrow> i \<le> c_to
        | (To c_to, To i_to) \<Rightarrow> i_to \<le> c_to
        | (To c_to, Range _ i_to) \<Rightarrow> i_to \<le> c_to
        | (Range c_from c_to, Literal i) \<Rightarrow> i \<ge> c_from \<and> i \<le> c_to
        | (Range c_from c_to, Range i_from i_to) \<Rightarrow> i_from \<ge> c_from \<and> i_to \<le> c_to
        | _ \<Rightarrow> False))"

definition tint_overlaps :: "tinteger \<Rightarrow> tinteger \<Rightarrow> bool" where
  "tint_overlaps self other =
     (if is_unspecified self \<or> is_unspecified other then True
      else
        let (self_min, self_max) = get_bounds self;
            (other_min, other_max) = get_bounds other;
            min_overlap = (case (self_min, other_max) of
                             (Some s_min, Some o_max) \<Rightarrow> s_min \<le> o_max
                           | _ \<Rightarrow> True);
            max_overlap = (case (self_max, other_min) of
                             (Some s_max, Some o_min) \<Rightarrow> s_max \<ge> o_min
                           | _ \<Rightarrow> True)
        in min_overlap \<and> max_overlap)"

section \<open>Coverage by a union of types\<close>

text \<open>
  The range reduction of \<open>is_contained_by_any\<close>. Its state is the remaining range and the
  progress flag; one step visits a container and says whether to keep it. \<open>None\<close> is the
  \<open>unreachable!\<close> branch.
\<close>

type_synonym reduction = "int option \<times> int option \<times> bool"

fun reduce_step :: "reduction \<Rightarrow> tinteger \<Rightarrow> (reduction \<times> bool) option" where
  "reduce_step (mn, mx, progress) (Literal c) =
     (if Some c = mn then Some ((Some (sat_add c 1), mx, True), False)
      else if Some c = mx then Some ((mn, Some (sat_sub c 1), True), False)
      else Some ((mn, mx, progress), True))"
| "reduce_step (mn, mx, progress) (Range c_from c_to) =
     (let in_min = (case mn of Some b \<Rightarrow> b \<ge> c_from \<and> b \<le> c_to | None \<Rightarrow> False);
          in_max = (case mx of Some b \<Rightarrow> b \<ge> c_from \<and> b \<le> c_to | None \<Rightarrow> False)
      in Some ((if in_min then Some (sat_add c_to 1) else mn,
                if in_max then Some (sat_sub c_from 1) else mx,
                progress \<or> in_min \<or> in_max),
               \<not> (in_min \<or> in_max)))"
| "reduce_step (mn, mx, progress) (From c_from) =
     (if (case mn of Some b \<Rightarrow> b \<ge> c_from | None \<Rightarrow> False)
      then Some ((mn, Some (sat_sub c_from 1), True), False)
      else Some ((mn, mx, progress), True))"
| "reduce_step (mn, mx, progress) (To c_to) =
     (if (case mx of Some b \<Rightarrow> b \<le> c_to | None \<Rightarrow> False)
      then Some ((Some (sat_add c_to 1), mx, True), False)
      else Some ((mn, mx, progress), True))"
| "reduce_step _ Unspecified = None"
| "reduce_step _ UnspecifiedLiteral = None"

text \<open>\<open>retain\<close> with the step as its closure.\<close>

fun reduce_pass :: "reduction \<Rightarrow> tinteger list \<Rightarrow> (reduction \<times> tinteger list) option" where
  "reduce_pass st [] = Some (st, [])"
| "reduce_pass st (c # cs) =
     (case reduce_step st c of
        None \<Rightarrow> None
      | Some (st', keep) \<Rightarrow>
          (case reduce_pass st' cs of
             None \<Rightarrow> None
           | Some (st'', cs') \<Rightarrow> Some (st'', if keep then c # cs' else cs')))"

lemma reduce_step_progress:
  "reduce_step (mn, mx, p) c = Some ((mn', mx', p'), keep) \<Longrightarrow> p' = (p \<or> \<not> keep)"
  by (cases c) (auto simp: Let_def split: if_splits)

lemma reduce_pass_length:
  "reduce_pass (mn, mx, p) cs = Some ((mn', mx', p'), cs') \<Longrightarrow>
     length cs' \<le> length cs \<and> (p' \<longrightarrow> p \<or> length cs' < length cs)"
proof (induction cs arbitrary: mn mx p mn' mx' p' cs')
  case (Cons c cs)
  from Cons.prems obtain st1 keep cs1 where s: "reduce_step (mn, mx, p) c = Some (st1, keep)"
    and r: "reduce_pass st1 cs = Some ((mn', mx', p'), cs1)"
    and cs': "cs' = (if keep then c # cs1 else cs1)"
    by (auto split: option.splits prod.splits)
  obtain mn1 mx1 p1 where st1: "st1 = (mn1, mx1, p1)" by (cases st1) auto
  have "p1 = (p \<or> \<not> keep)" using s st1 reduce_step_progress by blast
  moreover have "length cs1 \<le> length cs \<and> (p' \<longrightarrow> p1 \<or> length cs1 < length cs)"
    using Cons.IH r st1 by blast
  ultimately show ?case using cs' by auto
qed auto

function reduce_loop :: "int option \<Rightarrow> int option \<Rightarrow> tinteger list \<Rightarrow> bool option" where
  "reduce_loop mn mx cs =
     (if (case (mn, mx) of (Some a, Some b) \<Rightarrow> a > b | _ \<Rightarrow> False) then Some True
      else case reduce_pass (mn, mx, False) cs of
        None \<Rightarrow> None
      | Some ((mn', mx', progress), cs') \<Rightarrow>
          if \<not> progress then Some False else reduce_loop mn' mx' cs')"
  by pat_completeness auto
termination
  by (relation "measure (\<lambda>(mn, mx, cs). length cs)") (auto dest!: reduce_pass_length)

declare reduce_loop.simps [simp del]

definition is_contained_by_any :: "tinteger \<Rightarrow> tinteger list \<Rightarrow> bool option" where
  "is_contained_by_any self int_containers =
     (if list_ex is_unspecified int_containers then Some True
      else if is_literal self then Some (list_ex (\<lambda>c. tint_contains c self) int_containers)
      else if is_unspecified_literal self
      then Some (list_ex (\<lambda>c. is_unspecified_literal c \<or> is_unspecified c) int_containers)
      else if is_unspecified self then Some False
      else reduce_loop (get_minimum_value self) (get_maximum_value self)
             (filter (\<lambda>c. \<not> is_unspecified_literal c) int_containers))"

section \<open>Difference\<close>

definition push_if :: "bool \<Rightarrow> 'a \<Rightarrow> 'a list" where
  "push_if b x = (if b then [x] else [])"

fun difference_literal :: "tinteger \<Rightarrow> int \<Rightarrow> tinteger list" where
  "difference_literal Unspecified b =
     push_if (b > i64_min) (To (b - 1)) @ push_if (b < i64_max) (From (b + 1))"
| "difference_literal UnspecifiedLiteral b =
     push_if (b > i64_min) (To (b - 1)) @ push_if (b < i64_max) (From (b + 1))"
| "difference_literal (Literal a) b = push_if (a \<noteq> b) (Literal a)"
| "difference_literal (Range a1 a2) b =
     (if b < a1 \<or> b > a2 then [Range a1 a2]
      else push_if (b > a1) (Range a1 (b - 1)) @ push_if (b < a2) (Range (b + 1) a2))"
| "difference_literal (From a) b =
     (if b < a then [From a]
      else push_if (b > a) (Range a (b - 1)) @ push_if (b < i64_max) (From (b + 1)))"
| "difference_literal (To a) b =
     (if b > a then [To a]
      else push_if (b > i64_min) (To (b - 1)) @ push_if (b < a) (Range (b + 1) a))"

fun difference_range :: "tinteger \<Rightarrow> int \<Rightarrow> int \<Rightarrow> tinteger list" where
  "difference_range Unspecified b1 b2 =
     push_if (b1 > i64_min) (To (b1 - 1)) @ push_if (b2 < i64_max) (From (b2 + 1))"
| "difference_range UnspecifiedLiteral b1 b2 = [UnspecifiedLiteral]"
| "difference_range (Literal a) b1 b2 =
     (if a \<ge> b1 \<and> a \<le> b2 then [] else [Literal a])"
| "difference_range (Range a1 a2) b1 b2 =
     (if a2 < b1 \<or> a1 > b2 then [Range a1 a2]
      else push_if (a1 < b1) (Range a1 (b1 - 1)) @ push_if (a2 > b2) (Range (b2 + 1) a2))"
| "difference_range (From a) b1 b2 =
     (if b2 < a then [From a]
      else push_if (a < b1) (Range a (b1 - 1)) @ push_if (b2 < i64_max) (From (b2 + 1)))"
| "difference_range (To a) b1 b2 =
     (if b1 > a then [To a]
      else push_if (b1 > i64_min) (To (b1 - 1)) @ push_if (a > b2) (Range (b2 + 1) a))"

fun difference_from :: "tinteger \<Rightarrow> int \<Rightarrow> tinteger list" where
  "difference_from Unspecified b = push_if (b > i64_min) (To (b - 1))"
| "difference_from UnspecifiedLiteral b = [UnspecifiedLiteral]"
| "difference_from (Literal a) b = push_if (a < b) (Literal a)"
| "difference_from (Range a1 a2) b =
     (if a2 < b then [Range a1 a2] else push_if (a1 < b) (Range a1 (b - 1)))"
| "difference_from (From a) b = push_if (a < b) (Range a (b - 1))"
| "difference_from (To a) b =
     (if a < b then [To a] else push_if (b > i64_min) (To (b - 1)))"

fun difference_to :: "tinteger \<Rightarrow> int \<Rightarrow> tinteger list" where
  "difference_to Unspecified b = push_if (b < i64_max) (From (b + 1))"
| "difference_to UnspecifiedLiteral b = [UnspecifiedLiteral]"
| "difference_to (Literal a) b = push_if (a > b) (Literal a)"
| "difference_to (Range a1 a2) b =
     (if a1 > b then [Range a1 a2] else if a2 \<le> b then [] else [Range (b + 1) a2])"
| "difference_to (From a) b =
     (if a > b then [From a] else push_if (b < i64_max) (From (b + 1)))"
| "difference_to (To a) b = push_if (a > b) (Range (b + 1) a)"

definition tint_difference :: "tinteger \<Rightarrow> tinteger \<Rightarrow> bool \<Rightarrow> tinteger list" where
  "tint_difference self other conservative_subtraction =
     (case other of
        Literal b \<Rightarrow> difference_literal self b
      | Unspecified \<Rightarrow> if \<not> conservative_subtraction then [] else [self]
      | UnspecifiedLiteral \<Rightarrow>
          if \<not> conservative_subtraction
          then (if is_unspecified_literal self then []
                else if is_unspecified self then [self]
                else if \<not> is_literal self then [self]
                else [])
          else [self]
      | Range b1 b2 \<Rightarrow>
          if \<not> conservative_subtraction then difference_range self b1 b2 else [self]
      | From b \<Rightarrow> if \<not> conservative_subtraction then difference_from self b else [self]
      | To b \<Rightarrow> if \<not> conservative_subtraction then difference_to self b else [self])"

section \<open>Narrowing by a comparison\<close>

definition to_less_than_or_equal :: "tinteger \<Rightarrow> int \<Rightarrow> tinteger option" where
  "to_less_than_or_equal self n =
     (let narrowed_upper = (case get_maximum_value self of
                              Some existing_upper \<Rightarrow> min existing_upper n
                            | None \<Rightarrow> n);
          new_lower_bound = get_minimum_value self
      in if (case new_lower_bound of Some min_b \<Rightarrow> min_b > narrowed_upper | None \<Rightarrow> False)
         then None
         else Some (from_bounds new_lower_bound (Some narrowed_upper)))"

definition to_less_than :: "tinteger \<Rightarrow> int \<Rightarrow> tinteger option" where
  "to_less_than self n = to_less_than_or_equal self (sat_sub n 1)"

definition to_greater_than_or_equal :: "tinteger \<Rightarrow> int \<Rightarrow> tinteger option" where
  "to_greater_than_or_equal self n =
     (let narrowed_lower = (case get_minimum_value self of
                              Some existing_lower \<Rightarrow> max existing_lower n
                            | None \<Rightarrow> n);
          new_upper_bound = get_maximum_value self
      in if (case new_upper_bound of Some max_b \<Rightarrow> narrowed_lower > max_b | None \<Rightarrow> False)
         then None
         else Some (from_bounds (Some narrowed_lower) new_upper_bound))"

definition to_greater_than :: "tinteger \<Rightarrow> int \<Rightarrow> tinteger option" where
  "to_greater_than self n = to_greater_than_or_equal self (sat_add n 1)"

section \<open>Combining a union\<close>

text \<open>The first loop of \<open>combine\<close>: a summary of the union, cut short at \<open>int\<close>.\<close>

record combine_scan =
  min_from :: int
  max_to :: int
  has_unspecified_literal :: bool
  has_unspecified :: bool
  has_from :: bool
  has_to :: bool
  all_literals :: bool

definition scan_init :: combine_scan where
  "scan_init = \<lparr>min_from = i64_max, max_to = i64_min, has_unspecified_literal = False,
     has_unspecified = False, has_from = False, has_to = False, all_literals = True\<rparr>"

fun combine_scan_loop :: "combine_scan \<Rightarrow> tinteger list \<Rightarrow> combine_scan" where
  "combine_scan_loop st [] = st"
| "combine_scan_loop st (Unspecified # ts) = st\<lparr>has_unspecified := True\<rparr>"
| "combine_scan_loop st (UnspecifiedLiteral # ts) =
     combine_scan_loop (st\<lparr>has_unspecified_literal := True\<rparr>) ts"
| "combine_scan_loop st (From f # ts) =
     combine_scan_loop (st\<lparr>has_from := True,
       min_from := if f < min_from st then f else min_from st\<rparr>) ts"
| "combine_scan_loop st (To t # ts) =
     combine_scan_loop (st\<lparr>has_to := True,
       max_to := if t > max_to st then t else max_to st\<rparr>) ts"
| "combine_scan_loop st (Literal _ # ts) =
     combine_scan_loop (st\<lparr>all_literals := all_literals st \<and> \<not> has_unspecified_literal st \<and>
       \<not> has_from st \<and> \<not> has_to st\<rparr>) ts"
| "combine_scan_loop st (Range _ _ # ts) =
     combine_scan_loop (st\<lparr>all_literals := False\<rparr>) ts"

text \<open>The second loop: the part of a bounded member that no half-open member covers.\<close>

fun combine_interval :: "combine_scan \<Rightarrow> tinteger \<Rightarrow> (int \<times> int) list" where
  "combine_interval st (Literal v) =
     (if has_unspecified_literal st then []
      else if has_from st \<and> v \<ge> min_from st then []
      else if has_to st \<and> v \<le> max_to st then []
      else [(v, v)])"
| "combine_interval st (Range s e) =
     (if has_from st \<and> s \<ge> min_from st then []
      else if has_to st \<and> e \<le> max_to st then []
      else
        let start = (if has_to st \<and> s \<le> max_to st then sat_add (max_to st) 1 else s);
            stop = (if has_from st \<and> e \<ge> min_from st then sat_sub (min_from st) 1 else e)
        in push_if (start \<le> stop) (start, stop))"
| "combine_interval st _ = []"

definition combine_intervals :: "combine_scan \<Rightarrow> tinteger list \<Rightarrow> (int \<times> int) list" where
  "combine_intervals st ts =
     push_if (has_to st) (i64_min, max_to st) @ push_if (has_from st) (min_from st, i64_max) @
     concat (map (combine_interval st) ts)"

text \<open>
  The third loop merges the intervals, sorted by their start, where they overlap or touch.
  The result is an integer type; its wrapping as an atomic type is left out.
\<close>

definition internal_to_atomic :: "int \<Rightarrow> int \<Rightarrow> tinteger" where
  "internal_to_atomic lo hi =
     (if lo = i64_min \<and> hi = i64_max then Unspecified
      else if lo = i64_min then To hi
      else if hi = i64_max then From lo
      else if lo = hi then Literal lo
      else Range lo hi)"

fun merge_intervals :: "int \<times> int \<Rightarrow> (int \<times> int) list \<Rightarrow> tinteger list" where
  "merge_intervals (curr_start, curr_end) [] = [internal_to_atomic curr_start curr_end]"
| "merge_intervals (curr_start, curr_end) ((next_start, next_end) # rest) =
     (if next_start \<le> sat_add curr_end 1
      then merge_intervals (curr_start, if next_end > curr_end then next_end else curr_end) rest
      else internal_to_atomic curr_start curr_end # merge_intervals (next_start, next_end) rest)"

definition tint_combine :: "tinteger list \<Rightarrow> tinteger list" where
  "tint_combine types =
     (if types = [] then []
      else
        let st = combine_scan_loop scan_init types in
        if has_unspecified st then [Unspecified]
        else if all_literals st \<and> \<not> has_unspecified_literal st \<and> \<not> has_from st \<and> \<not> has_to st
        then types
        else if has_from st \<and> has_to st \<and> sat_add (max_to st) 1 \<ge> min_from st
        then [Unspecified]
        else
          (case sort_key fst (combine_intervals st types) of
             [] \<Rightarrow> push_if (has_unspecified_literal st) UnspecifiedLiteral
           | i # is \<Rightarrow>
               push_if (has_unspecified_literal st) UnspecifiedLiteral @ merge_intervals i is))"

section \<open>Printing\<close>

definition tint_get_id :: "tinteger \<Rightarrow> string" where
  "tint_get_id t =
     (case t of
        Literal v \<Rightarrow> ''int('' @ show_int v @ '')''
      | From v \<Rightarrow>
          if v = 1 then ''positive-int''
          else if v = 0 then ''non-negative-int''
          else ''int<'' @ show_int v @ '', max>''
      | To v \<Rightarrow>
          if v = -1 then ''negative-int''
          else if v = 0 then ''non-positive-int''
          else ''int<min, '' @ show_int v @ ''>''
      | Range f u \<Rightarrow> ''int<'' @ show_int f @ '', '' @ show_int u @ ''>''
      | Unspecified \<Rightarrow> ''int''
      | UnspecifiedLiteral \<Rightarrow> ''literal-int'')"

section \<open>The meaning of a type\<close>

fun gamma :: "tinteger \<Rightarrow> int set" where
  "gamma (Literal v) = {v}"
| "gamma (From f) = {f..i64_max}"
| "gamma (To t) = {i64_min..t}"
| "gamma (Range f t) = {f..t}"
| "gamma Unspecified = {i64_min..i64_max}"
| "gamma UnspecifiedLiteral = {i64_min..i64_max}"

text \<open>Well-formed types: bounds are \<open>i64\<close> values and a range is not empty.\<close>

fun tint_wf :: "tinteger \<Rightarrow> bool" where
  "tint_wf (Literal v) = is_i64 v"
| "tint_wf (From f) = is_i64 f"
| "tint_wf (To t) = is_i64 t"
| "tint_wf (Range f t) = (is_i64 f \<and> is_i64 t \<and> f \<le> t)"
| "tint_wf Unspecified = True"
| "tint_wf UnspecifiedLiteral = True"

definition gammas :: "tinteger list \<Rightarrow> int set" where
  "gammas ts = (\<Union>t \<in> set ts. gamma t)"

lemma gammas_simps [simp]:
  "gammas [] = {}" "gammas (t # ts) = gamma t \<union> gammas ts" "gammas (ts @ us) = gammas ts \<union> gammas us"
  by (auto simp: gammas_def)

lemma gammas_push_if [simp]: "gammas (push_if b t) = (if b then gamma t else {})"
  by (simp add: push_if_def)

lemma gamma_i64: "tint_wf t \<Longrightarrow> gamma t \<subseteq> {i64_min..i64_max}"
  by (cases t) (auto simp: is_i64_def)

lemma gamma_nonempty: "tint_wf t \<Longrightarrow> gamma t \<noteq> {}"
  by (cases t) (auto simp: is_i64_def)

lemma gamma_minimum: "x \<in> gamma t \<Longrightarrow> get_minimum_value t = Some m \<Longrightarrow> m \<le> x"
  by (cases t) auto

lemma gamma_maximum: "x \<in> gamma t \<Longrightarrow> get_maximum_value t = Some m \<Longrightarrow> x \<le> m"
  by (cases t) auto

text \<open>The type given by optional bounds, and the bounds read back from a type.\<close>

definition bounded_by :: "int option \<Rightarrow> int option \<Rightarrow> int set" where
  "bounded_by lo hi = {x. i64_min \<le> x \<and> x \<le> i64_max \<and>
     (\<forall>l. lo = Some l \<longrightarrow> l \<le> x) \<and> (\<forall>h. hi = Some h \<longrightarrow> x \<le> h)}"

lemma gamma_bounds:
  "tint_wf t \<Longrightarrow> gamma t = bounded_by (get_minimum_value t) (get_maximum_value t)"
  by (cases t) (auto simp: bounded_by_def is_i64_def)

lemma gamma_from_bounds:
  assumes "\<forall>l. lo = Some l \<longrightarrow> is_i64 l" "\<forall>h. hi = Some h \<longrightarrow> is_i64 h"
    "\<forall>l h. lo = Some l \<longrightarrow> hi = Some h \<longrightarrow> l \<le> h"
  shows "gamma (from_bounds lo hi) = bounded_by lo hi" "tint_wf (from_bounds lo hi)"
  using assms by (cases lo; cases hi; auto simp: bounded_by_def is_i64_def)+

lemma bounds_wf:
  assumes "tint_wf t"
  shows "get_minimum_value t = Some l \<Longrightarrow> is_i64 l"
    and "get_maximum_value t = Some h \<Longrightarrow> is_i64 h"
    and "get_minimum_value t = Some l \<Longrightarrow> get_maximum_value t = Some h \<Longrightarrow> l \<le> h"
  using assms by (cases t; auto)+

end
