(* ===== verification/Integer_Sets.thy ===== *)
theory Integer_Sets
  imports Integer_Type
begin

text \<open>
  The set-theoretic operations of \<open>TInteger\<close> against the concretisation \<open>\<gamma>\<close>: containment,
  overlap, coverage by a union, difference, narrowing and the normal form of a union.
\<close>

section \<open>Containment, overlap and coverage\<close>

lemma contains_sound: "tint_contains a b \<Longrightarrow> tint_wf b \<Longrightarrow> gamma b \<subseteq> gamma a"
  by (cases a; cases b) (auto simp: tint_contains_def is_i64_def)

lemma overlaps_exact:
  "tint_wf a \<Longrightarrow> tint_wf b \<Longrightarrow> tint_overlaps a b \<longleftrightarrow> gamma a \<inter> gamma b \<noteq> {}"
  by (cases a; cases b) (auto simp: tint_overlaps_def is_i64_def atLeastatMost_empty_iff)

text \<open>
  Range reduction keeps every value of the input either in the remaining range or in a container
  already consumed.
\<close>

definition remaining :: "int option \<Rightarrow> int option \<Rightarrow> int set" where
  "remaining mn mx = bounded_by mn mx"

lemma reduce_step_covers:
  assumes "reduce_step (mn, mx, p) c = Some ((mn', mx', p'), keep)" "tint_wf c"
  shows "remaining mn mx \<subseteq> remaining mn' mx' \<union> gamma c"
  using assms
  by (cases c)
     (auto simp: remaining_def bounded_by_def Let_def saturation is_i64_def
       split: if_splits option.splits)

lemma reduce_pass_covers:
  assumes "reduce_pass (mn, mx, p) cs = Some ((mn', mx', p'), cs')" "\<forall>c \<in> set cs. tint_wf c"
  shows "remaining mn mx \<subseteq> remaining mn' mx' \<union> gammas cs" "set cs' \<subseteq> set cs"
proof -
  have "remaining mn mx \<subseteq> remaining mn' mx' \<union> gammas cs \<and> set cs' \<subseteq> set cs"
    using assms
  proof (induction cs arbitrary: mn mx p mn' mx' p' cs')
    case (Cons c cs)
    from Cons.prems(1) obtain mn1 mx1 p1 keep cs1
      where s: "reduce_step (mn, mx, p) c = Some ((mn1, mx1, p1), keep)"
        and r: "reduce_pass (mn1, mx1, p1) cs = Some ((mn', mx', p'), cs1)"
        and cs': "cs' = (if keep then c # cs1 else cs1)"
      by (auto split: option.splits prod.splits)
    have "remaining mn mx \<subseteq> remaining mn1 mx1 \<union> gamma c"
      using reduce_step_covers[OF s] Cons.prems(2) by simp
    moreover have "remaining mn1 mx1 \<subseteq> remaining mn' mx' \<union> gammas cs \<and> set cs1 \<subseteq> set cs"
      using Cons.IH[OF r] Cons.prems(2) by simp
    ultimately show ?case using cs' by auto
  qed simp
  then show "remaining mn mx \<subseteq> remaining mn' mx' \<union> gammas cs" "set cs' \<subseteq> set cs" by auto
qed

lemma gammas_mono: "set xs \<subseteq> set ys \<Longrightarrow> gammas xs \<subseteq> gammas ys"
  by (auto simp: gammas_def)

lemma reduce_loop_sound:
  "reduce_loop mn mx cs = Some True \<Longrightarrow> \<forall>c \<in> set cs. tint_wf c \<Longrightarrow>
     remaining mn mx \<subseteq> gammas cs"
proof (induction cs arbitrary: mn mx rule: measure_induct_rule[of length])
  case (less cs)
  show ?case
  proof (cases "case (mn, mx) of (Some a, Some b) \<Rightarrow> a > b | _ \<Rightarrow> False")
    case True
    then show ?thesis by (auto simp: remaining_def bounded_by_def split: option.splits)
  next
    case False
    then obtain mn' mx' cs' where p: "reduce_pass (mn, mx, False) cs = Some ((mn', mx', True), cs')"
      and r: "reduce_loop mn' mx' cs' = Some True"
      using less.prems(1)
      by (subst (asm) reduce_loop.simps) (auto split: option.splits prod.splits if_splits)
    have "remaining mn' mx' \<subseteq> gammas cs'"
      using less.IH[of cs'] reduce_pass_length[OF p] r less.prems(2)
        reduce_pass_covers(2)[OF p less.prems(2)] by auto
    moreover have "gammas cs' \<subseteq> gammas cs"
      by (rule gammas_mono[OF reduce_pass_covers(2)[OF p less.prems(2)]])
    ultimately show ?thesis
      using reduce_pass_covers(1)[OF p less.prems(2)] by blast
  qed
qed

lemma reduce_pass_total:
  assumes "\<forall>c \<in> set cs. \<not> is_unspecified c \<and> \<not> is_unspecified_literal c"
  shows "\<exists>mn' mx' p' cs'. reduce_pass st cs = Some ((mn', mx', p'), cs') \<and> set cs' \<subseteq> set cs"
  using assms
proof (induction cs arbitrary: st)
  case (Cons c cs)
  obtain mn mx p where st: "st = (mn, mx, p)" by (cases st) auto
  have "\<exists>st1 keep. reduce_step st c = Some (st1, keep)"
    using Cons.prems st by (cases c) (auto simp: Let_def)
  then obtain st1 keep where "reduce_step st c = Some (st1, keep)" by blast
  moreover obtain mn2 mx2 p2 cs2
    where "reduce_pass st1 cs = Some ((mn2, mx2, p2), cs2)" "set cs2 \<subseteq> set cs"
    using Cons.IH[of st1] Cons.prems by auto
  ultimately show ?case by auto
next
  case Nil
  then show ?case by (cases st) auto
qed

lemma reduce_loop_total:
  assumes "\<forall>c \<in> set cs. \<not> is_unspecified c \<and> \<not> is_unspecified_literal c"
  shows "\<exists>b. reduce_loop mn mx cs = Some b"
  using assms
proof (induction cs arbitrary: mn mx rule: measure_induct_rule[of length])
  case (less cs)
  obtain mn' mx' p cs' where p: "reduce_pass (mn, mx, False) cs = Some ((mn', mx', p), cs')"
    and "set cs' \<subseteq> set cs"
    using reduce_pass_total[OF less.prems, of "(mn, mx, False)"] by auto
  moreover have "p \<Longrightarrow> length cs' < length cs" using reduce_pass_length[OF p] by simp
  ultimately have "p \<Longrightarrow> \<exists>b. reduce_loop mn' mx' cs' = Some b"
    using less.IH[of cs'] less.prems by blast
  then show ?case using p by (subst reduce_loop.simps) auto
qed

lemma is_contained_by_any_total: "\<exists>b. is_contained_by_any t cs = Some b"
  using reduce_loop_total[of "filter (\<lambda>c. \<not> is_unspecified_literal c) cs"]
  by (auto simp: is_contained_by_any_def list_ex_iff)

lemma unspecified_member: "list_ex is_unspecified cs \<longleftrightarrow> Unspecified \<in> set cs"
  by (auto simp: list_ex_iff)

lemma is_contained_by_any_simple:
  assumes "is_contained_by_any t cs = Some True"
    "list_ex is_unspecified cs \<or> is_literal t \<or> is_unspecified_literal t"
  shows "Unspecified \<in> set cs \<or> (\<exists>c \<in> set cs. tint_contains c t) \<or>
    (t = UnspecifiedLiteral \<and> UnspecifiedLiteral \<in> set cs)"
proof (cases t)
  case UnspecifiedLiteral
  then show ?thesis using assms(1)
    by (auto simp: is_contained_by_any_def list_ex_iff split: if_splits)
qed (use assms in \<open>auto simp: is_contained_by_any_def unspecified_member list_ex_iff split: if_splits\<close>)

lemma is_contained_by_any_sound:
  assumes "is_contained_by_any t cs = Some True" "tint_wf t" "\<forall>c \<in> set cs. tint_wf c"
  shows "gamma t \<subseteq> gammas cs"
proof -
  have all: "gamma t \<subseteq> {i64_min..i64_max}" using assms(2) by (rule gamma_i64)
  show ?thesis
  proof (cases "list_ex is_unspecified cs \<or> is_literal t \<or> is_unspecified_literal t")
    case True
    have U: "Unspecified \<in> set cs \<Longrightarrow> gamma t \<subseteq> gammas cs"
      "UnspecifiedLiteral \<in> set cs \<Longrightarrow> gamma t \<subseteq> gammas cs"
      using all unfolding gammas_def by (metis UN_upper gamma.simps(5,6) subset_trans)+
    have C: "c \<in> set cs \<Longrightarrow> tint_contains c t \<Longrightarrow> gamma t \<subseteq> gammas cs" for c
      using contains_sound[OF _ assms(2)] unfolding gammas_def by (meson UN_upper subset_trans)
    show ?thesis using is_contained_by_any_simple[OF assms(1) True] U C by blast
  next
    case False
    let ?cs = "filter (\<lambda>c. \<not> is_unspecified_literal c) cs"
    have "reduce_loop (get_minimum_value t) (get_maximum_value t) ?cs = Some True"
      using assms(1) False by (auto simp: is_contained_by_any_def split: if_splits)
    then have "gamma t \<subseteq> gammas ?cs"
      using reduce_loop_sound assms(2,3) gamma_bounds[OF assms(2)] by (auto simp: remaining_def)
    then show ?thesis using gammas_mono[of ?cs cs] by auto
  qed
qed

text \<open>
  The reduction only moves the ends of the range inwards, and a half-open container moves an
  end only when it covers the whole rest. Two half-open containers that together cover a range
  are therefore not recognised.
\<close>

lemma is_contained_by_any_incomplete:
  "gamma (Range 1 10) \<subseteq> gammas [To 5, From 6] \<and>
   is_contained_by_any (Range 1 10) [To 5, From 6] = Some False"
  by (auto simp: is_contained_by_any_def reduce_loop.simps)

section \<open>Difference\<close>

lemma difference_cases:
  assumes "tint_wf a" "is_i64 b"
  shows "gammas (difference_literal a b) = gamma a - {b} \<and>
    (\<forall>t \<in> set (difference_literal a b). tint_wf t)"
  using assms by (cases a) (auto simp: push_if_def is_i64_def)

lemma difference_range_cases:
  assumes "tint_wf a" "tint_wf (Range b1 b2)" "a \<noteq> UnspecifiedLiteral"
  shows "gammas (difference_range a b1 b2) = gamma a - {b1..b2} \<and>
    (\<forall>t \<in> set (difference_range a b1 b2). tint_wf t)"
  using assms by (cases a) (auto simp: push_if_def is_i64_def)

lemma difference_from_cases:
  assumes "tint_wf a" "is_i64 b" "a \<noteq> UnspecifiedLiteral"
  shows "gammas (difference_from a b) = gamma a - {b..i64_max} \<and>
    (\<forall>t \<in> set (difference_from a b). tint_wf t)"
  using assms by (cases a) (auto simp: push_if_def is_i64_def)

lemma difference_to_cases:
  assumes "tint_wf a" "is_i64 b" "a \<noteq> UnspecifiedLiteral"
  shows "gammas (difference_to a b) = gamma a - {i64_min..b} \<and>
    (\<forall>t \<in> set (difference_to a b). tint_wf t)"
  using assms by (cases a) (auto simp: push_if_def is_i64_def)

text \<open>
  The cases in which the difference is exact: \<open>literal-int\<close> is only taken away from types of literal
  origin, and only a literal, \<open>int\<close> or \<open>literal-int\<close> is taken away from it.
\<close>

definition difference_exact :: "tinteger \<Rightarrow> tinteger \<Rightarrow> bool \<Rightarrow> bool" where
  "difference_exact a b conservative \<longleftrightarrow>
     is_literal b \<or>
     (\<not> conservative \<and>
       (b = Unspecified \<or> (if is_unspecified_literal b then is_of_literal_origin a else \<not> is_unspecified_literal a)))"

lemma difference_correct:
  assumes "tint_wf a" "tint_wf b"
  shows "gamma a - gamma b \<subseteq> gammas (tint_difference a b conservative)"
    and "gammas (tint_difference a b conservative) \<subseteq> gamma a"
    and "\<forall>t \<in> set (tint_difference a b conservative). tint_wf t"
    and "difference_exact a b conservative \<Longrightarrow>
      gammas (tint_difference a b conservative) = gamma a - gamma b"
proof -
  have "gamma a - gamma b \<subseteq> gammas (tint_difference a b conservative) \<and>
    gammas (tint_difference a b conservative) \<subseteq> gamma a \<and>
    (\<forall>t \<in> set (tint_difference a b conservative). tint_wf t) \<and>
    (difference_exact a b conservative \<longrightarrow>
      gammas (tint_difference a b conservative) = gamma a - gamma b)"
  proof (cases b)
    case (Literal x)
    then show ?thesis using difference_cases[of a x] assms by (auto simp: tint_difference_def)
  next
    case (From x)
    then show ?thesis using difference_from_cases[of a x] assms
      by (cases "a = UnspecifiedLiteral") (auto simp: tint_difference_def difference_exact_def)
  next
    case (To x)
    then show ?thesis using difference_to_cases[of a x] assms
      by (cases "a = UnspecifiedLiteral") (auto simp: tint_difference_def difference_exact_def)
  next
    case (Range x y)
    then show ?thesis using difference_range_cases[of a x y] assms
      by (cases "a = UnspecifiedLiteral") (auto simp: tint_difference_def difference_exact_def)
  next
    case Unspecified
    then show ?thesis using assms gamma_i64[of a]
      by (auto simp: tint_difference_def difference_exact_def)
  next
    case UnspecifiedLiteral
    then show ?thesis using assms gamma_i64[of a]
      by (cases a) (auto simp: tint_difference_def difference_exact_def)
  qed
  then show "gamma a - gamma b \<subseteq> gammas (tint_difference a b conservative)"
    and "gammas (tint_difference a b conservative) \<subseteq> gamma a"
    and "\<forall>t \<in> set (tint_difference a b conservative). tint_wf t"
    and "difference_exact a b conservative \<Longrightarrow>
      gammas (tint_difference a b conservative) = gamma a - gamma b"
    by blast+
qed

section \<open>Narrowing\<close>

definition option_gamma :: "tinteger option \<Rightarrow> int set" where
  "option_gamma t = (case t of None \<Rightarrow> {} | Some t \<Rightarrow> gamma t)"

lemma narrow_upper:
  assumes "tint_wf t" "is_i64 n"
  shows "option_gamma (to_less_than_or_equal t n) = {x \<in> gamma t. x \<le> n}"
    and "to_less_than_or_equal t n = Some u \<Longrightarrow> tint_wf u"
    and "to_less_than_or_equal t n = None \<longleftrightarrow> {x \<in> gamma t. x \<le> n} = {}"
  using assms
  by (cases t; auto simp: to_less_than_or_equal_def option_gamma_def is_i64_def min_def
      split: if_splits)+

lemma narrow_lower:
  assumes "tint_wf t" "is_i64 n"
  shows "option_gamma (to_greater_than_or_equal t n) = {x \<in> gamma t. n \<le> x}"
    and "to_greater_than_or_equal t n = Some u \<Longrightarrow> tint_wf u"
    and "to_greater_than_or_equal t n = None \<longleftrightarrow> {x \<in> gamma t. n \<le> x} = {}"
  using assms
  by (cases t; auto simp: to_greater_than_or_equal_def option_gamma_def is_i64_def max_def
      split: if_splits)+

section \<open>The normal form of a union\<close>

definition intervals_gamma :: "(int \<times> int) list \<Rightarrow> int set" where
  "intervals_gamma is = (\<Union>i \<in> set is. {fst i..snd i})"

lemma intervals_gamma_simps [simp]:
  "intervals_gamma [] = {}"
  "intervals_gamma (i # is) = {fst i..snd i} \<union> intervals_gamma is"
  "intervals_gamma (is @ js) = intervals_gamma is \<union> intervals_gamma js"
  "intervals_gamma (push_if b i) = (if b then {fst i..snd i} else {})"
  by (auto simp: intervals_gamma_def push_if_def)

lemma intervals_gamma_concat:
  "intervals_gamma (concat (map f ts)) = (\<Union>t \<in> set ts. intervals_gamma (f t))"
  by (induction ts) auto

definition interval_wf :: "int \<times> int \<Rightarrow> bool" where
  "interval_wf i \<longleftrightarrow> is_i64 (fst i) \<and> is_i64 (snd i) \<and> fst i \<le> snd i"

subsection \<open>The summary of the union\<close>

definition up_from :: "combine_scan \<Rightarrow> int set" where
  "up_from st = (if has_from st then {min_from st..i64_max} else {})"

definition down_to :: "combine_scan \<Rightarrow> int set" where
  "down_to st = (if has_to st then {i64_min..max_to st} else {})"

definition half_open :: "tinteger \<Rightarrow> bool" where
  "half_open t \<longleftrightarrow> (case t of From _ \<Rightarrow> True | To _ \<Rightarrow> True | _ \<Rightarrow> False)"

lemma scan_unspecified:
  "has_unspecified (combine_scan_loop st ts) \<longleftrightarrow> has_unspecified st \<or> Unspecified \<in> set ts"
  by (induction st ts rule: combine_scan_loop.induct) auto

lemma scan_unspecified_literal:
  "Unspecified \<notin> set ts \<Longrightarrow> has_unspecified_literal (combine_scan_loop st ts) \<longleftrightarrow>
     has_unspecified_literal st \<or> UnspecifiedLiteral \<in> set ts"
  by (induction st ts rule: combine_scan_loop.induct) auto

lemma scan_literals:
  assumes "all_literals (combine_scan_loop st ts)" "Unspecified \<notin> set ts"
    "\<not> has_unspecified_literal (combine_scan_loop st ts)"
    "\<not> has_from (combine_scan_loop st ts)" "\<not> has_to (combine_scan_loop st ts)"
  shows "(\<forall>t \<in> set ts. is_literal t) \<and> \<not> has_from st \<and> \<not> has_to st \<and>
    \<not> has_unspecified_literal st \<and> all_literals st"
  using assms by (induction st ts rule: combine_scan_loop.induct) auto

lemma scan_literals_conv:
  assumes "\<forall>t \<in> set ts. is_literal t" "all_literals st" "\<not> has_from st" "\<not> has_to st"
    "\<not> has_unspecified_literal st"
  shows "combine_scan_loop st ts = st"
  using assms by (induction st ts rule: combine_scan_loop.induct) auto

lemma scan_half_open:
  assumes "Unspecified \<notin> set ts" "\<forall>t \<in> set ts. tint_wf t"
    "is_i64 (min_from st)" "is_i64 (max_to st)"
    "has_from st \<or> min_from st = i64_max" "has_to st \<or> max_to st = i64_min"
  shows "up_from (combine_scan_loop st ts) \<union> down_to (combine_scan_loop st ts) =
      up_from st \<union> down_to st \<union> gammas (filter half_open ts) \<and>
    is_i64 (min_from (combine_scan_loop st ts)) \<and> is_i64 (max_to (combine_scan_loop st ts))"
  using assms
proof (induction st ts rule: combine_scan_loop.induct)
  case (4 st f ts)
  let ?st = "st\<lparr>has_from := True, min_from := if f < min_from st then f else min_from st\<rparr>"
  have "up_from ?st = up_from st \<union> {f..i64_max}"
    using 4 by (auto simp: up_from_def is_i64_def)
  moreover have "down_to ?st = down_to st" by (simp add: down_to_def)
  ultimately show ?case using 4 by (auto simp: half_open_def)
next
  case (5 st t ts)
  let ?st = "st\<lparr>has_to := True, max_to := if t > max_to st then t else max_to st\<rparr>"
  have "down_to ?st = down_to st \<union> {i64_min..t}"
    using 5 by (auto simp: down_to_def is_i64_def)
  moreover have "up_from ?st = up_from st" by (simp add: up_from_def)
  ultimately show ?case using 5 by (auto simp: half_open_def)
qed (auto simp: half_open_def up_from_def down_to_def)

subsection \<open>The intervals\<close>

lemma combine_interval_part:
  assumes "tint_wf t"
  shows "intervals_gamma (combine_interval st t) \<subseteq> gamma t"
    and "\<forall>i \<in> set (combine_interval st t). interval_wf i"
    and "\<not> has_unspecified_literal st \<Longrightarrow> is_literal t \<or> (\<exists>a b. t = Range a b) \<Longrightarrow>
      gamma t \<subseteq> intervals_gamma (combine_interval st t) \<union> (up_from st \<union> down_to st)"
proof -
  show "intervals_gamma (combine_interval st t) \<subseteq> gamma t"
    using assms by (cases t) (auto simp: saturation is_i64_def Let_def)
  show "\<forall>i \<in> set (combine_interval st t). interval_wf i"
    using assms by (cases t) (auto simp: saturation is_i64_def Let_def push_if_def interval_wf_def)
  show "\<not> has_unspecified_literal st \<Longrightarrow> is_literal t \<or> (\<exists>a b. t = Range a b) \<Longrightarrow>
      gamma t \<subseteq> intervals_gamma (combine_interval st t) \<union> (up_from st \<union> down_to st)"
    using assms
    by (cases t) (auto simp: up_from_def down_to_def saturation is_i64_def Let_def)
qed

lemma scan_init_half_open:
  assumes "Unspecified \<notin> set ts" "\<forall>t \<in> set ts. tint_wf t" "st = combine_scan_loop scan_init ts"
  shows "up_from st \<union> down_to st = gammas (filter half_open ts)"
    "is_i64 (min_from st)" "is_i64 (max_to st)"
  using scan_half_open[OF assms(1,2), of scan_init] assms(3)
  by (simp_all add: scan_init_def up_from_def down_to_def is_i64_def)

lemma combine_intervals_wf:
  assumes "Unspecified \<notin> set ts" "\<forall>t \<in> set ts. tint_wf t" "st = combine_scan_loop scan_init ts"
  shows "\<forall>i \<in> set (combine_intervals st ts). interval_wf i"
  using combine_interval_part(2) scan_init_half_open(2,3)[OF assms] assms(2)
  by (auto simp: combine_intervals_def push_if_def interval_wf_def is_i64_def split: if_splits)

lemma combine_intervals_gamma:
  assumes "Unspecified \<notin> set ts" "UnspecifiedLiteral \<notin> set ts" "\<forall>t \<in> set ts. tint_wf t"
    "st = combine_scan_loop scan_init ts"
  shows "intervals_gamma (combine_intervals st ts) = gammas ts"
proof -
  have ul: "\<not> has_unspecified_literal st"
    using scan_unspecified_literal[OF assms(1), of scan_init] assms(2,4) by (simp add: scan_init_def)
  note ho = scan_init_half_open(1)[OF assms(1,3,4)]
  let ?body = "\<Union>t \<in> set ts. intervals_gamma (combine_interval st t)"
  have int: "intervals_gamma (combine_intervals st ts) = (up_from st \<union> down_to st) \<union> ?body"
    by (auto simp: combine_intervals_def intervals_gamma_concat up_from_def down_to_def)
  have "?body \<subseteq> gammas ts"
    using combine_interval_part(1) assms(3) by (fastforce simp: gammas_def)
  moreover have "gammas (filter half_open ts) \<subseteq> gammas ts" by (rule gammas_mono) auto
  moreover have "gamma t \<subseteq> (up_from st \<union> down_to st) \<union> ?body" if t: "t \<in> set ts" for t
  proof (cases "half_open t")
    case True
    then have "gamma t \<subseteq> gammas (filter half_open ts)" using t by (auto simp: gammas_def)
    then show ?thesis using ho by blast
  next
    case False
    have "is_literal t \<or> (\<exists>a b. t = Range a b)"
      using False t assms(1,2) by (cases t) (auto simp: half_open_def)
    then show ?thesis using combine_interval_part(3)[of t st] ul assms(3) t by fastforce
  qed
  ultimately show "intervals_gamma (combine_intervals st ts) = gammas ts"
    unfolding int ho[symmetric] by (auto simp: gammas_def)
qed

subsection \<open>Merging\<close>

text \<open>Two members of a union in normal form leave a gap between them.\<close>

definition gap_before :: "tinteger \<Rightarrow> tinteger \<Rightarrow> bool" where
  "gap_before a b \<longleftrightarrow> (\<forall>x \<in> gamma a. \<forall>y \<in> gamma b. x + 1 < y)"

lemma internal_to_atomic_gamma [simp]:
  "is_i64 lo \<Longrightarrow> is_i64 hi \<Longrightarrow> gamma (internal_to_atomic lo hi) = {lo..hi}"
  by (auto simp: internal_to_atomic_def is_i64_def)

lemma internal_to_atomic_wf:
  "is_i64 lo \<Longrightarrow> is_i64 hi \<Longrightarrow> lo \<le> hi \<Longrightarrow> tint_wf (internal_to_atomic lo hi) \<and>
     internal_to_atomic lo hi \<noteq> UnspecifiedLiteral"
  by (auto simp: internal_to_atomic_def is_i64_def)

lemma merge_intervals_sound:
  assumes "interval_wf i" "\<forall>j \<in> set is. interval_wf j" "\<forall>j \<in> set is. fst i \<le> fst j"
    "sorted (map fst is)"
  shows "gammas (merge_intervals i is) = intervals_gamma (i # is) \<and>
    (\<forall>t \<in> set (merge_intervals i is). tint_wf t \<and> t \<noteq> UnspecifiedLiteral \<and>
       (\<forall>x \<in> gamma t. fst i \<le> x)) \<and>
    sorted_wrt gap_before (merge_intervals i is)"
  using assms
proof (induction i "is" rule: merge_intervals.induct)
  case (1 lo hi)
  then show ?case using internal_to_atomic_wf[of lo hi] by (simp add: interval_wf_def)
next
  case (2 lo hi nlo nhi rest)
  show ?case
  proof (cases "nlo \<le> sat_add hi 1")
    case True
    let ?hi = "if nhi > hi then nhi else hi"
    have "{lo..?hi} = {lo..hi} \<union> {nlo..nhi}"
      using 2(3-5) True by (auto simp: interval_wf_def saturation is_i64_def split: if_splits)
    moreover have "interval_wf (lo, ?hi)" using 2(3,4) by (auto simp: interval_wf_def)
    ultimately show ?thesis using 2(1)[OF True] 2(4-6) True by (auto simp: Un_assoc)
  next
    case False
    have IH: "gammas (merge_intervals (nlo, nhi) rest) = intervals_gamma ((nlo, nhi) # rest)"
      "\<forall>t \<in> set (merge_intervals (nlo, nhi) rest). tint_wf t \<and> t \<noteq> UnspecifiedLiteral \<and>
        (\<forall>x \<in> gamma t. nlo \<le> x)"
      "sorted_wrt gap_before (merge_intervals (nlo, nhi) rest)"
      using 2(2)[OF False] 2(4-6) by auto
    have w: "is_i64 lo" "is_i64 hi" "lo \<le> hi" "is_i64 nlo"
      using 2(3,4) by (auto simp: interval_wf_def)
    have "hi + 1 < nlo" using False w by (auto simp: saturation is_i64_def split: if_splits)
    then have "\<forall>t \<in> set (merge_intervals (nlo, nhi) rest). gap_before (internal_to_atomic lo hi) t"
      using IH(2) w by (force simp: gap_before_def)
    moreover have "\<forall>t \<in> set (merge_intervals (nlo, nhi) rest). \<forall>x \<in> gamma t. lo \<le> x"
      using IH(2) \<open>hi + 1 < nlo\<close> w by force
    ultimately show ?thesis using False IH internal_to_atomic_wf[of lo hi] w by auto
  qed
qed

lemma merge_sorted_intervals:
  assumes "\<forall>i \<in> set is. interval_wf i" "sort_key fst is = j # js"
  shows "gammas (merge_intervals j js) = intervals_gamma is"
    "\<forall>t \<in> set (merge_intervals j js). tint_wf t \<and> t \<noteq> UnspecifiedLiteral"
    "sorted_wrt gap_before (merge_intervals j js)"
proof -
  have "set (j # js) = set is" by (metis assms(2) set_sort)
  moreover have "sorted (map fst (j # js))" by (metis assms(2) sorted_sort_key)
  ultimately have "interval_wf j" "\<forall>k \<in> set js. interval_wf k" "\<forall>k \<in> set js. fst j \<le> fst k"
    "sorted (map fst js)" "intervals_gamma is = intervals_gamma (j # js)"
    using assms(1) by (auto simp: intervals_gamma_def)
  then show "gammas (merge_intervals j js) = intervals_gamma is"
    "\<forall>t \<in> set (merge_intervals j js). tint_wf t \<and> t \<noteq> UnspecifiedLiteral"
    "sorted_wrt gap_before (merge_intervals j js)"
    using merge_intervals_sound[of j js] by auto
qed

text \<open>The integer types of the result apart from the leading \<open>literal-int\<close>.\<close>

definition normal_union :: "tinteger list \<Rightarrow> bool" where
  "normal_union ts \<longleftrightarrow> sorted_wrt gap_before (filter (\<lambda>t. t \<noteq> UnspecifiedLiteral) ts)"

lemma gammas_all: "\<forall>t \<in> set ts. tint_wf t \<Longrightarrow> gammas ts \<subseteq> {i64_min..i64_max}"
  using gamma_i64 by (fastforce simp: gammas_def)

lemma gammas_full:
  "\<forall>t \<in> set ts. tint_wf t \<Longrightarrow> t \<in> set ts \<Longrightarrow> gamma t = {i64_min..i64_max} \<Longrightarrow>
     gammas ts = {i64_min..i64_max}"
  by (rule equalityI) (simp_all only: gammas_all, force simp: gammas_def)

lemma combine_touching:
  assumes "Unspecified \<notin> set ts" "\<forall>t \<in> set ts. tint_wf t" "st = combine_scan_loop scan_init ts"
    "has_from st" "has_to st" "sat_add (max_to st) 1 \<ge> min_from st"
  shows "gammas ts = {i64_min..i64_max}"
proof -
  have "up_from st \<union> down_to st = {i64_min..i64_max}"
    using scan_init_half_open(2,3)[OF assms(1-3)] assms(4-6)
    by (auto simp: up_from_def down_to_def saturation is_i64_def split: if_splits)
  moreover have "gammas (filter half_open ts) \<subseteq> gammas ts" by (rule gammas_mono) auto
  ultimately show ?thesis
    using scan_init_half_open(1)[OF assms(1-3)] gammas_all[OF assms(2)] by blast
qed

lemma combine_correct:
  assumes wf: "\<forall>t \<in> set ts. tint_wf t"
  shows "gammas (tint_combine ts) = gammas ts \<and> (\<forall>t \<in> set (tint_combine ts). tint_wf t) \<and>
    (if \<forall>t \<in> set ts. is_literal t then tint_combine ts = ts else normal_union (tint_combine ts))"
proof (cases "\<forall>t \<in> set ts. is_literal t")
  case True
  then have "combine_scan_loop scan_init ts = scan_init"
    by (rule scan_literals_conv) (simp_all add: scan_init_def)
  then have "tint_combine ts = ts" by (simp add: tint_combine_def scan_init_def)
  then show ?thesis using True wf by simp
next
  case False
  define st where st: "st = combine_scan_loop scan_init ts"
  have ne: "ts \<noteq> []" using False by auto
  have u: "has_unspecified st \<longleftrightarrow> Unspecified \<in> set ts"
    using scan_unspecified[of scan_init ts] st by (simp add: scan_init_def)
  have c: "tint_combine ts =
     (if has_unspecified st then [Unspecified]
      else if has_from st \<and> has_to st \<and> sat_add (max_to st) 1 \<ge> min_from st then [Unspecified]
      else (case sort_key fst (combine_intervals st ts) of
             [] \<Rightarrow> push_if (has_unspecified_literal st) UnspecifiedLiteral
           | i # is \<Rightarrow>
               push_if (has_unspecified_literal st) UnspecifiedLiteral @ merge_intervals i is))"
  proof -
    have "\<not> has_unspecified st \<Longrightarrow> \<not> (all_literals st \<and> \<not> has_unspecified_literal st \<and>
        \<not> has_from st \<and> \<not> has_to st)"
      using False scan_literals[of scan_init ts] u st by blast
    then show ?thesis using ne
      by (cases "has_unspecified st")
         (simp_all only: tint_combine_def st[symmetric] Let_def if_True if_False simp_thms)
  qed
  show ?thesis
  proof (cases "Unspecified \<in> set ts \<or>
      (has_from st \<and> has_to st \<and> sat_add (max_to st) 1 \<ge> min_from st)")
    case True
    then have "tint_combine ts = [Unspecified]" using c u by auto
    moreover have "gammas ts = {i64_min..i64_max}"
      using True combine_touching[OF _ wf st] gammas_full[OF wf, of Unspecified] by auto
    ultimately show ?thesis unfolding if_not_P[OF False] by (simp add: normal_union_def)
  next
    case nt: False
    have no: "Unspecified \<notin> set ts" using nt by blast
    have ul: "has_unspecified_literal st \<longleftrightarrow> UnspecifiedLiteral \<in> set ts"
      using scan_unspecified_literal[OF no, of scan_init] st by (simp add: scan_init_def)
    obtain js where js: "tint_combine ts = push_if (has_unspecified_literal st) UnspecifiedLiteral @ js"
      and g: "gammas js = intervals_gamma (combine_intervals st ts)"
      and w: "\<forall>t \<in> set js. tint_wf t \<and> t \<noteq> UnspecifiedLiteral" and s: "sorted_wrt gap_before js"
    proof (cases "sort_key fst (combine_intervals st ts)")
      case Nil
      then have "combine_intervals st ts = []" by (metis set_empty set_sort)
      then show ?thesis using that[of "[]"] c nt u Nil by auto
    next
      case (Cons j js)
      then show ?thesis
        using that[of "merge_intervals j js"] c nt u
          merge_sorted_intervals[OF combine_intervals_wf[OF no wf st] Cons] by auto
    qed
    have "filter (\<lambda>t. t \<noteq> UnspecifiedLiteral) js = js" using w by (simp add: filter_id_conv)
    then have "normal_union (tint_combine ts)" using js s by (simp add: normal_union_def push_if_def)
    moreover have "\<forall>t \<in> set (tint_combine ts). tint_wf t" using js w by (auto simp: push_if_def)
    moreover have "gammas (tint_combine ts) = gammas ts"
    proof (cases "UnspecifiedLiteral \<in> set ts")
      case True
      then have "gammas ts = {i64_min..i64_max}" using gammas_full[OF wf] by simp
      moreover have "gammas js \<subseteq> {i64_min..i64_max}" using gammas_all[of js] w by blast
      ultimately show ?thesis using js ul True by auto
    next
      case no_ul: False
      then show ?thesis using js g ul combine_intervals_gamma[OF no no_ul wf st] by simp
    qed
    ultimately show ?thesis unfolding if_not_P[OF False] by simp
  qed
qed

section \<open>Printing\<close>

lemma tint_get_id_inject_cases: "tint_get_id a = tint_get_id b \<Longrightarrow> a = b"
  by (cases a; cases b)
     (auto simp: tint_get_id_def show_int_inject show_int_cut show_int_no_m split: if_splits)

section \<open>Properties\<close>

text \<open>\<open>contains\<close> never accepts a type with a value outside the container, and \<open>overlaps\<close>
  answers exactly whether two types share a value.\<close>

theorem containment_and_overlap:
  assumes "tint_wf a" "tint_wf b"
  shows "(tint_contains a b \<longrightarrow> gamma b \<subseteq> gamma a) \<and>
    (tint_overlaps a b \<longleftrightarrow> gamma a \<inter> gamma b \<noteq> {})"
  using contains_sound overlaps_exact assms by blast

theorem containment_and_overlap_witness:
  "gamma (Range 3 7) \<subseteq> gamma (From 2) \<and> gamma (Range 3 7) \<inter> gamma (To 2) = {}"
  using containment_and_overlap[of "From 2" "Range 3 7"] containment_and_overlap[of "Range 3 7" "To 2"]
  by (simp add: tint_contains_def is_i64_def)

text \<open>Deciding whether a type is covered by a union always returns an answer (its
  \<open>unreachable!\<close> branch is never taken), and a positive answer is right: every value of the
  type belongs to a member of the union.\<close>

theorem coverage_total_and_sound:
  assumes "tint_wf t" "\<forall>c \<in> set cs. tint_wf c"
  shows "\<exists>b. is_contained_by_any t cs = Some b \<and> (b \<longrightarrow> gamma t \<subseteq> gammas cs)"
proof -
  obtain b where b: "is_contained_by_any t cs = Some b" using is_contained_by_any_total[of t cs] ..
  have "b \<Longrightarrow> gamma t \<subseteq> gammas cs" using is_contained_by_any_sound[OF _ assms] b by simp
  then show ?thesis using b by simp
qed

theorem coverage_total_and_sound_witness:
  "is_contained_by_any (Range 1 9) [Range 1 4, Range 5 12] = Some True \<and>
   gamma (Range 1 9) \<subseteq> gammas [Range 1 4, Range 5 12]"
proof -
  have r: "is_contained_by_any (Range 1 9) [Range 1 4, Range 5 12] = Some True"
    by (simp add: is_contained_by_any_def reduce_loop.simps saturation)
  moreover have "\<forall>c \<in> set [Range 1 4, Range 5 12]. tint_wf c" "tint_wf (Range 1 9)"
    by (simp_all add: is_i64_def)
  ultimately show ?thesis
    using coverage_total_and_sound[of "Range 1 9" "[Range 1 4, Range 5 12]"] by auto
qed

text \<open>C20. The difference of two well-formed types loses no value of the first that the second lacks
  and adds none, and its members are well formed. It is exact when the second is a literal; when the
  caller does not ask for the conservative answer, it is also exact if the second is \<open>int\<close>, if it is
  \<open>literal-int\<close> and the first is of literal origin, and if neither is \<open>literal-int\<close>.\<close>

theorem difference_sound_and_exact:
  assumes "tint_wf a" "tint_wf b"
  shows "gamma a - gamma b \<subseteq> gammas (tint_difference a b conservative) \<and>
    gammas (tint_difference a b conservative) \<subseteq> gamma a \<and>
    (\<forall>t \<in> set (tint_difference a b conservative). tint_wf t) \<and>
    (difference_exact a b conservative \<longrightarrow>
      gammas (tint_difference a b conservative) = gamma a - gamma b)"
  using difference_correct[OF assms] by blast

theorem difference_sound_and_exact_witness:
  "tint_difference (Range 1 9) (Range 4 6) False = [Range 1 3, Range 7 9] \<and>
   gammas [Range 1 3, Range 7 9] = gamma (Range 1 9) - gamma (Range 4 6)"
  using difference_sound_and_exact[of "Range 1 9" "Range 4 6" False]
  by (simp add: tint_difference_def push_if_def difference_exact_def is_i64_def)

text \<open>Narrowing by a comparison keeps exactly the values that satisfy it and answers \<open>None\<close>
  exactly when no value does; the strict comparisons saturate, so at the end of the \<open>i64\<close> range
  they keep that end.\<close>

theorem narrowing_exact:
  assumes "tint_wf t" "is_i64 n"
  shows "option_gamma (to_less_than_or_equal t n) = {x \<in> gamma t. x \<le> n} \<and>
    option_gamma (to_greater_than_or_equal t n) = {x \<in> gamma t. n \<le> x} \<and>
    option_gamma (to_less_than t n) = {x \<in> gamma t. x < n \<or> (n = i64_min \<and> x = n)} \<and>
    option_gamma (to_greater_than t n) = {x \<in> gamma t. n < x \<or> (n = i64_max \<and> x = n)} \<and>
    (to_less_than_or_equal t n = None \<longleftrightarrow> {x \<in> gamma t. x \<le> n} = {}) \<and>
    (to_greater_than_or_equal t n = None \<longleftrightarrow> {x \<in> gamma t. n \<le> x} = {})"
proof -
  have lt: "x \<le> sat_sub n 1 \<longleftrightarrow> x < n \<or> (n = i64_min \<and> x = n)"
    and gt: "sat_add n 1 \<le> x \<longleftrightarrow> n < x \<or> (n = i64_max \<and> x = n)" if "x \<in> gamma t" for x
  proof -
    have "is_i64 x" using gamma_i64[OF assms(1)] that by (auto simp: is_i64_def)
    then show "x \<le> sat_sub n 1 \<longleftrightarrow> x < n \<or> (n = i64_min \<and> x = n)"
      "sat_add n 1 \<le> x \<longleftrightarrow> n < x \<or> (n = i64_max \<and> x = n)"
      using assms(2) by (simp_all add: saturation is_i64_def) linarith+
  qed
  have "{x \<in> gamma t. x \<le> sat_sub n 1} = {x \<in> gamma t. x < n \<or> (n = i64_min \<and> x = n)}"
    "{x \<in> gamma t. sat_add n 1 \<le> x} = {x \<in> gamma t. n < x \<or> (n = i64_max \<and> x = n)}"
    by (simp_all only: lt gt cong: conj_cong)
  moreover have "is_i64 (sat_sub n 1)" "is_i64 (sat_add n 1)" by simp_all
  ultimately show ?thesis
    unfolding to_less_than_def to_greater_than_def
    by (simp only: narrow_upper(1,3)[OF assms(1)] narrow_lower(1,3)[OF assms(1)] assms(2) simp_thms)
qed

theorem narrowing_exact_witness:
  "to_less_than (Range 1 9) 5 = Some (Range 1 4) \<and> to_greater_than_or_equal (To 3) 5 = None \<and>
   gamma (Range 1 4) = {x \<in> gamma (Range 1 9). x < 5}"
  using narrowing_exact[of "Range 1 9" 5] narrowing_exact[of "To 3" 5]
  by (simp add: is_i64_def to_less_than_def to_less_than_or_equal_def to_greater_than_or_equal_def
      saturation option_gamma_def)



text \<open>Two integer types with the same printed name are the same type, whatever their bounds.\<close>

theorem tint_get_id_injective: "tint_get_id a = tint_get_id b \<longleftrightarrow> a = b"
  using tint_get_id_inject_cases by blast

end
