(* ===== verification/Integer_Arith.thy ===== *)
theory Integer_Arith
  imports Integer_Sets "HOL-Library.Signed_Division" "HOL-Library.Monad_Syntax"
begin

text \<open>
  The arithmetic of integer types: the \<open>Add\<close>, \<open>Sub\<close>, \<open>Mul\<close>, \<open>Div\<close>, \<open>Rem\<close> and \<open>Neg\<close>
  implementations of \<open>TInteger\<close>. Division and the absolute value can panic in \<open>i64\<close>
  arithmetic, so \<open>Div\<close> and \<open>Rem\<close> return an option with \<open>None\<close> for the panic.

  The lemmas show each operation sound for the operation of PHP on the values of its
  operands, and the inputs on which the fallible ones panic. The locale \<open>sound_operation\<close>
  is the contract the analyzer relies on when it applies an operation to unions.
\<close>

section \<open>Fallible \<open>i64\<close> operations\<close>

definition rust_div :: "int \<Rightarrow> int \<Rightarrow> int option" where
  "rust_div a b = (if b = 0 \<or> (a = i64_min \<and> b = -1) then None else Some (a sdiv b))"

definition rust_rem :: "int \<Rightarrow> int \<Rightarrow> int option" where
  "rust_rem a b = (if b = 0 \<or> (a = i64_min \<and> b = -1) then None else Some (a smod b))"

definition rust_abs :: "int \<Rightarrow> int option" where
  "rust_abs a = (if a = i64_min then None else Some \<bar>a\<bar>)"

section \<open>Operations\<close>

definition tint_add :: "tinteger \<Rightarrow> tinteger \<Rightarrow> tinteger" where
  "tint_add self other = (case (self, other) of
     (Unspecified, _) \<Rightarrow> Unspecified
   | (_, Unspecified) \<Rightarrow> Unspecified
   | (UnspecifiedLiteral, UnspecifiedLiteral) \<Rightarrow> UnspecifiedLiteral
   | (Literal _, UnspecifiedLiteral) \<Rightarrow> UnspecifiedLiteral
   | (UnspecifiedLiteral, Literal _) \<Rightarrow> UnspecifiedLiteral
   | (UnspecifiedLiteral, _) \<Rightarrow> Unspecified
   | (_, UnspecifiedLiteral) \<Rightarrow> Unspecified
   | (Literal l1, Literal l2) \<Rightarrow> Literal (sat_add l1 l2)
   | (Literal l, From f) \<Rightarrow> From (sat_add l f)
   | (From f, Literal l) \<Rightarrow> From (sat_add l f)
   | (Literal l, To t) \<Rightarrow> To (sat_add l t)
   | (To t, Literal l) \<Rightarrow> To (sat_add l t)
   | (Literal l, Range f t) \<Rightarrow> Range (sat_add l f) (sat_add l t)
   | (Range f t, Literal l) \<Rightarrow> Range (sat_add l f) (sat_add l t)
   | (From f1, From f2) \<Rightarrow> From (sat_add f1 f2)
   | (To t1, To t2) \<Rightarrow> To (sat_add t1 t2)
   | (Range f1 t1, Range f2 t2) \<Rightarrow> Range (sat_add f1 f2) (sat_add t1 t2)
   | (Range f1 _, From f2) \<Rightarrow> From (sat_add f1 f2)
   | (From f2, Range f1 _) \<Rightarrow> From (sat_add f1 f2)
   | (Range _ t1, To t2) \<Rightarrow> To (sat_add t1 t2)
   | (To t2, Range _ t1) \<Rightarrow> To (sat_add t1 t2)
   | _ \<Rightarrow> Unspecified)"

definition tint_sub :: "tinteger \<Rightarrow> tinteger \<Rightarrow> tinteger" where
  "tint_sub self other = (case (self, other) of
     (Unspecified, _) \<Rightarrow> Unspecified
   | (_, Unspecified) \<Rightarrow> Unspecified
   | (UnspecifiedLiteral, UnspecifiedLiteral) \<Rightarrow> UnspecifiedLiteral
   | (Literal _, UnspecifiedLiteral) \<Rightarrow> UnspecifiedLiteral
   | (UnspecifiedLiteral, Literal _) \<Rightarrow> UnspecifiedLiteral
   | (UnspecifiedLiteral, _) \<Rightarrow> Unspecified
   | (_, UnspecifiedLiteral) \<Rightarrow> Unspecified
   | (Literal l1, Literal l2) \<Rightarrow> Literal (sat_sub l1 l2)
   | (From f, Literal l) \<Rightarrow> From (sat_sub f l)
   | (Literal l, From f) \<Rightarrow> To (sat_sub l f)
   | (Literal l, To t) \<Rightarrow> From (sat_sub l t)
   | (From _, From _) \<Rightarrow> Unspecified
   | (From _, To _) \<Rightarrow> Unspecified
   | (To _, From _) \<Rightarrow> Unspecified
   | (To _, To _) \<Rightarrow> Unspecified
   | (Range _ t1, From f2) \<Rightarrow> To (sat_sub t1 f2)
   | (Range f1 _, To t2) \<Rightarrow> From (sat_sub f1 t2)
   | (To t, Literal l) \<Rightarrow> To (sat_sub t l)
   | (Literal l, Range f t) \<Rightarrow> Range (sat_sub l t) (sat_sub l f)
   | (Range f t, Literal l) \<Rightarrow> Range (sat_sub f l) (sat_sub t l)
   | (Range f1 t1, Range f2 t2) \<Rightarrow> Range (sat_sub f1 t2) (sat_sub t1 f2)
   | _ \<Rightarrow> Unspecified)"

text \<open>The three arms a comparison of a literal factor with zero selects.\<close>

definition by_sign :: "int \<Rightarrow> tinteger \<Rightarrow> tinteger \<Rightarrow> tinteger" where
  "by_sign l pos neg = (if l > 0 then pos else if l < 0 then neg else Literal 0)"

definition tint_mul :: "tinteger \<Rightarrow> tinteger \<Rightarrow> tinteger" where
  "tint_mul self other = (case (self, other) of
     (Unspecified, _) \<Rightarrow> Unspecified
   | (_, Unspecified) \<Rightarrow> Unspecified
   | (UnspecifiedLiteral, UnspecifiedLiteral) \<Rightarrow> UnspecifiedLiteral
   | (Literal _, UnspecifiedLiteral) \<Rightarrow> UnspecifiedLiteral
   | (UnspecifiedLiteral, Literal _) \<Rightarrow> UnspecifiedLiteral
   | (UnspecifiedLiteral, _) \<Rightarrow> Unspecified
   | (_, UnspecifiedLiteral) \<Rightarrow> Unspecified
   | (Literal l1, Literal l2) \<Rightarrow> Literal (sat_mul l1 l2)
   | (Literal l, From f) \<Rightarrow> by_sign l (From (sat_mul l f)) (To (sat_mul l f))
   | (From f, Literal l) \<Rightarrow> by_sign l (From (sat_mul l f)) (To (sat_mul l f))
   | (Literal l, To t) \<Rightarrow> by_sign l (To (sat_mul l t)) (From (sat_mul l t))
   | (To t, Literal l) \<Rightarrow> by_sign l (To (sat_mul l t)) (From (sat_mul l t))
   | (Literal l, Range f t) \<Rightarrow>
       by_sign l (Range (sat_mul l f) (sat_mul l t)) (Range (sat_mul l t) (sat_mul l f))
   | (Range f t, Literal l) \<Rightarrow>
       by_sign l (Range (sat_mul l f) (sat_mul l t)) (Range (sat_mul l t) (sat_mul l f))
   | (From f1, From f2) \<Rightarrow>
       if f1 \<ge> 0 \<and> f2 \<ge> 0 then From (sat_mul f1 f2) else Unspecified
   | (Range f1 t1, Range f2 t2) \<Rightarrow>
       let p1 = sat_mul f1 f2; p2 = sat_mul f1 t2; p3 = sat_mul t1 f2; p4 = sat_mul t1 t2
       in Range (min (min p1 p2) (min p3 p4)) (max (max p1 p2) (max p3 p4))
   | _ \<Rightarrow> Unspecified)"

definition tint_div :: "tinteger \<Rightarrow> tinteger \<Rightarrow> tinteger option" where
  "tint_div self rhs = (case (self, rhs) of
     (Unspecified, _) \<Rightarrow> Some Unspecified
   | (_, Unspecified) \<Rightarrow> Some Unspecified
   | (UnspecifiedLiteral, UnspecifiedLiteral) \<Rightarrow>
       Some (if can_be_zero rhs then Unspecified else UnspecifiedLiteral)
   | (Literal _, UnspecifiedLiteral) \<Rightarrow>
       Some (if can_be_zero rhs then Unspecified else UnspecifiedLiteral)
   | (UnspecifiedLiteral, Literal _) \<Rightarrow>
       Some (if can_be_zero rhs then Unspecified else UnspecifiedLiteral)
   | (UnspecifiedLiteral, _) \<Rightarrow> Some Unspecified
   | (_, UnspecifiedLiteral) \<Rightarrow> Some Unspecified
   | _ \<Rightarrow>
     if can_be_zero rhs then Some Unspecified
     else (case (self, rhs) of
       (Literal l1, Literal l2) \<Rightarrow>
         if l1 = 0 then Some (Literal 0)
         else if l1 = i64_min \<and> l2 = -1 then Some Unspecified
         else do { q \<leftarrow> rust_div l1 l2; Some (Literal q) }
     | (Literal l, From f) \<Rightarrow> do {
         v \<leftarrow> rust_div l f;
         Some (if v = 0 then Literal 0 else if l \<ge> 0 then Range 0 v else Range v 0) }
     | (Literal l, To t) \<Rightarrow>
         if l \<ge> 0 then do { q \<leftarrow> rust_div l t; Some (Range q 0) }
         else do { q \<leftarrow> rust_div l t; Some (Range 0 q) }
     | (From f, Literal l) \<Rightarrow>
         if l > 0 then do { q \<leftarrow> rust_div f l; Some (From q) }
         else do { q \<leftarrow> rust_div f l; Some (To q) }
     | (To t, Literal l) \<Rightarrow>
         if l > 0 then do { q \<leftarrow> rust_div t l; Some (To q) }
         else do { q \<leftarrow> rust_div t l; Some (From q) }
     | (Range f t, Literal l) \<Rightarrow>
         if l > 0 then do { p \<leftarrow> rust_div f l; q \<leftarrow> rust_div t l; Some (Range p q) }
         else do { p \<leftarrow> rust_div t l; q \<leftarrow> rust_div f l; Some (Range p q) }
     | (Literal l, Range f t) \<Rightarrow> do {
         p1 \<leftarrow> rust_div l f; p2 \<leftarrow> rust_div l t; Some (Range (min p1 p2) (max p1 p2)) }
     | (Range f1 t1, Range f2 t2) \<Rightarrow> do {
         p1 \<leftarrow> rust_div f1 f2; p2 \<leftarrow> rust_div f1 t2;
         p3 \<leftarrow> rust_div t1 f2; p4 \<leftarrow> rust_div t1 t2;
         Some (Range (min (min p1 p2) (min p3 p4)) (max (max p1 p2) (max p3 p4))) }
     | _ \<Rightarrow> Some Unspecified))"

text \<open>The remainder of \<open>int\<close> by a divisor.\<close>

definition rem_unspecified :: "tinteger \<Rightarrow> tinteger option" where
  "rem_unspecified other = (case other of
     Literal n \<Rightarrow>
       if n = 0 then Some Unspecified
       else do { m \<leftarrow> rust_abs n; Some (Range (- (m - 1)) (m - 1)) }
   | Range n1 n2 \<Rightarrow>
       Some (if n1 \<le> 0 \<and> n2 \<ge> 0 then Unspecified
             else if 0 < n1 then Range (- (n2 - 1)) (n2 - 1)
             else Range (sat_add n1 1) (sat_sub (sat_neg n1) 1))
   | _ \<Rightarrow> Some Unspecified)"

definition tint_rem :: "tinteger \<Rightarrow> tinteger \<Rightarrow> tinteger option" where
  "tint_rem self rhs = (case (self, rhs) of
     (UnspecifiedLiteral, UnspecifiedLiteral) \<Rightarrow>
       Some (if can_be_zero rhs then Unspecified else UnspecifiedLiteral)
   | (Literal _, UnspecifiedLiteral) \<Rightarrow>
       Some (if can_be_zero rhs then Unspecified else UnspecifiedLiteral)
   | (UnspecifiedLiteral, Literal _) \<Rightarrow>
       Some (if can_be_zero rhs then Unspecified else UnspecifiedLiteral)
   | (UnspecifiedLiteral, _) \<Rightarrow> Some Unspecified
   | (_, UnspecifiedLiteral) \<Rightarrow> Some Unspecified
   | (Unspecified, other) \<Rightarrow> rem_unspecified other
   | (_, Unspecified) \<Rightarrow> Some Unspecified
   | _ \<Rightarrow>
     if can_be_zero rhs then Some Unspecified
     else (case (self, rhs) of
       (Literal l1, Literal l2) \<Rightarrow>
         if l1 = i64_min \<and> l2 = -1 then Some Unspecified
         else do { r \<leftarrow> rust_rem l1 l2; Some (Literal r) }
     | (Literal l, From f) \<Rightarrow>
         Some (if f > 0 then (if l \<ge> 0 then Range 0 l else Range l 0) else Unspecified)
     | (From f, Literal l) \<Rightarrow>
         Some (if l = 1 \<or> l = -1 then Literal 0
           else if l > 0 then (if f \<ge> 0 then Range 0 (l - 1) else Range (- (l - 1)) (l - 1))
           else if f \<ge> 0 then Range 0 (sat_sub (sat_neg l) 1)
           else Range (sat_add l 1) (sat_sub (sat_neg l) 1))
     | (To t, Literal l) \<Rightarrow>
         if l = 1 \<or> l = -1 then Some (Literal 0)
         else do {
           abs_l \<leftarrow> rust_abs l;
           Some (if t \<le> 0 then Range (- (abs_l - 1)) 0 else Range (- (abs_l - 1)) (abs_l - 1)) }
     | (Range f t, Literal l) \<Rightarrow>
         if l = 1 \<or> l = -1 then Some (Literal 0)
         else do {
           v \<leftarrow> rust_abs l;
           Some (if f \<ge> 0 then Range 0 (min (v - 1) t)
             else if t \<le> 0 then Range (max (- (v - 1)) f) 0
             else Range (- (v - 1)) (v - 1)) }
     | _ \<Rightarrow> Some Unspecified))"

fun tint_neg :: "tinteger \<Rightarrow> tinteger" where
  "tint_neg (Literal a) = Literal (sat_neg a)"
| "tint_neg (From a) = To (sat_neg a)"
| "tint_neg (To a) = From (sat_neg a)"
| "tint_neg (Range lo hi) = Range (sat_neg hi) (sat_neg lo)"
| "tint_neg Unspecified = Unspecified"
| "tint_neg UnspecifiedLiteral = UnspecifiedLiteral"

section \<open>The contract of an operation\<close>

text \<open>
  \<open>conc\<close> is the operation of PHP on two integers, undefined where it throws or leaves the
  integers; \<open>abst\<close> is the operation of the analyzer on types and \<open>dom\<close> the types on which
  the contract holds.
\<close>

locale sound_operation =
  fixes conc :: "int \<Rightarrow> int \<Rightarrow> int option"
    and abst :: "tinteger \<Rightarrow> tinteger \<Rightarrow> tinteger option"
    and dom :: "tinteger \<Rightarrow> tinteger \<Rightarrow> bool"
  assumes wf: "tint_wf a \<Longrightarrow> tint_wf b \<Longrightarrow> dom a b \<Longrightarrow> abst a b = Some c \<Longrightarrow> tint_wf c"
    and sound: "tint_wf a \<Longrightarrow> tint_wf b \<Longrightarrow> dom a b \<Longrightarrow> abst a b = Some c \<Longrightarrow>
      x \<in> gamma a \<Longrightarrow> y \<in> gamma b \<Longrightarrow> conc x y = Some z \<Longrightarrow> z \<in> gamma c"
begin

text \<open>Applied to every pair of members of two unions, the results combine to a sound union.\<close>

lemma sound_on_unions:
  assumes "\<forall>a \<in> set as. tint_wf a" "\<forall>b \<in> set bs. tint_wf b"
    "\<forall>a \<in> set as. \<forall>b \<in> set bs. dom a b"
    "\<forall>a \<in> set as. \<forall>b \<in> set bs. \<exists>c \<in> set cs. abst a b = Some c"
    "\<forall>c \<in> set cs. \<exists>a \<in> set as. \<exists>b \<in> set bs. abst a b = Some c"
    "x \<in> gammas as" "y \<in> gammas bs" "conc x y = Some z"
  shows "z \<in> gammas (tint_combine cs)" "\<forall>c \<in> set (tint_combine cs). tint_wf c"
proof -
  have wfs: "\<forall>c \<in> set cs. tint_wf c" using assms(1-3,5) wf by blast
  obtain a b where ab: "a \<in> set as" "b \<in> set bs" "x \<in> gamma a" "y \<in> gamma b"
    using assms(6,7) by (auto simp: gammas_def)
  then obtain c where "c \<in> set cs" "abst a b = Some c" using assms(4) by blast
  then have "z \<in> gammas cs" using sound[of a b c x y z] ab assms(1-3,8) by (auto simp: gammas_def)
  then show "z \<in> gammas (tint_combine cs)" using combine_correct[OF wfs] by simp
  show "\<forall>c \<in> set (tint_combine cs). tint_wf c" using combine_correct[OF wfs] by blast
qed

end

section \<open>Addition, subtraction, multiplication and negation\<close>

text \<open>The value of an operation when it is an integer of PHP.\<close>

definition int_result :: "int \<Rightarrow> int option" where
  "int_result z = (if is_i64 z then Some z else None)"

lemma tint_add_wf: "tint_wf a \<Longrightarrow> tint_wf b \<Longrightarrow> tint_wf (tint_add a b)"
  by (cases a; cases b) (auto simp: tint_add_def saturation is_i64_def)

lemma tint_sub_wf: "tint_wf a \<Longrightarrow> tint_wf b \<Longrightarrow> tint_wf (tint_sub a b)"
  by (cases a; cases b) (auto simp: tint_sub_def saturation is_i64_def)

lemma tint_add_sound:
  "tint_wf a \<Longrightarrow> tint_wf b \<Longrightarrow> x \<in> gamma a \<Longrightarrow> y \<in> gamma b \<Longrightarrow> is_i64 (x + y) \<Longrightarrow>
     x + y \<in> gamma (tint_add a b)"
  by (cases a; cases b) (auto simp: tint_add_def saturation is_i64_def)

lemma tint_sub_sound:
  "tint_wf a \<Longrightarrow> tint_wf b \<Longrightarrow> x \<in> gamma a \<Longrightarrow> y \<in> gamma b \<Longrightarrow> is_i64 (x - y) \<Longrightarrow>
     x - y \<in> gamma (tint_sub a b)"
  by (cases a; cases b) (auto simp: tint_sub_def saturation is_i64_def)

lemma tint_neg_sound:
  "tint_wf a \<Longrightarrow> tint_wf (tint_neg a) \<and>
     (x \<in> gamma a \<longrightarrow> is_i64 (- x) \<longrightarrow> - x \<in> gamma (tint_neg a))"
  by (cases a) (auto simp: saturation is_i64_def)

interpretation addition: sound_operation
  "\<lambda>x y. int_result (x + y)" "\<lambda>a b. Some (tint_add a b)" "\<lambda>a b. True"
  by unfold_locales (auto simp: int_result_def tint_add_wf tint_add_sound split: if_splits)

interpretation subtraction: sound_operation
  "\<lambda>x y. int_result (x - y)" "\<lambda>a b. Some (tint_sub a b)" "\<lambda>a b. True"
  by unfold_locales (auto simp: int_result_def tint_sub_wf tint_sub_sound split: if_splits)

subsection \<open>Multiplication\<close>

lemma mul_between:
  fixes a x b y :: int
  assumes "a \<le> x" "x \<le> b"
  shows "min (a * y) (b * y) \<le> x * y" "x * y \<le> max (a * y) (b * y)"
proof -
  have "min (a * y) (b * y) \<le> x * y \<and> x * y \<le> max (a * y) (b * y)"
  proof (cases "0 \<le> y")
    case True
    then have "a * y \<le> x * y" "x * y \<le> b * y" using assms by (simp_all add: mult_right_mono)
    then show ?thesis by (simp add: min_def max_def)
  next
    case False
    then have "b * y \<le> x * y" "x * y \<le> a * y" using assms by (simp_all add: mult_right_mono_neg)
    then show ?thesis by (simp add: min_def max_def)
  qed
  then show "min (a * y) (b * y) \<le> x * y" "x * y \<le> max (a * y) (b * y)" by blast+
qed

lemma mul_corners:
  fixes f1 t1 f2 t2 x y :: int
  assumes "f1 \<le> x" "x \<le> t1" "f2 \<le> y" "y \<le> t2"
  shows "min (min (f1 * f2) (f1 * t2)) (min (t1 * f2) (t1 * t2)) \<le> x * y"
    "x * y \<le> max (max (f1 * f2) (f1 * t2)) (max (t1 * f2) (t1 * t2))"
  using mul_between[OF assms(1,2), of y] mul_between[OF assms(3,4), of f1]
    mul_between[OF assms(3,4), of t1]
  by (auto simp: mult.commute)

lemma sat_below: "is_i64 z \<Longrightarrow> p \<le> z \<Longrightarrow> sat_i64 p \<le> z"
  and sat_above: "is_i64 z \<Longrightarrow> z \<le> p \<Longrightarrow> z \<le> sat_i64 p"
  by (auto simp: sat_i64_def is_i64_def)

lemma sat_min: "min (sat_i64 a) (sat_i64 b) = sat_i64 (min a b)"
  and sat_max: "max (sat_i64 a) (sat_i64 b) = sat_i64 (max a b)"
  by (auto simp: sat_i64_def min_def max_def)

lemma sat_mul_order:
  "0 < l \<Longrightarrow> f \<le> t \<Longrightarrow> sat_i64 (l * f) \<le> sat_i64 (l * t)"
  "l < 0 \<Longrightarrow> f \<le> t \<Longrightarrow> sat_i64 (l * t) \<le> sat_i64 (l * f)"
  by (simp_all add: sat_i64_mono mult_left_mono mult_left_mono_neg)

lemma tint_mul_wf: "tint_wf a \<Longrightarrow> tint_wf b \<Longrightarrow> tint_wf (tint_mul a b)"
  by (cases a; cases b)
     (auto simp: tint_mul_def by_sign_def sat_mul_def Let_def sat_min sat_max sat_mul_order
       intro!: sat_i64_mono)

lemma by_sign_sound:
  assumes "l > 0 \<Longrightarrow> z \<in> gamma a" "l < 0 \<Longrightarrow> z \<in> gamma b" "l = 0 \<Longrightarrow> z = 0"
  shows "z \<in> gamma (by_sign l a b)"
  using assms by (auto simp: by_sign_def)

lemma mul_literal_sound:
  assumes "tint_wf (Literal l)" "tint_wf b" "y \<in> gamma b" "is_i64 (l * y)"
  shows "l * y \<in> gamma (tint_mul (Literal l) b)" "l * y \<in> gamma (tint_mul b (Literal l))"
proof -
  have z: "i64_min \<le> l * y" "l * y \<le> i64_max" using assms(4) by (auto simp: is_i64_def)
  have "l * y \<in> gamma (tint_mul (Literal l) b) \<and> l * y \<in> gamma (tint_mul b (Literal l))"
    using assms z
    by (cases b)
       (auto simp: tint_mul_def sat_mul_def sat_i64_id mult.commute
         intro!: by_sign_sound sat_below sat_above mult_left_mono mult_left_mono_neg
           mult_right_mono mult_right_mono_neg)
  then show "l * y \<in> gamma (tint_mul (Literal l) b)" "l * y \<in> gamma (tint_mul b (Literal l))"
    by blast+
qed

lemma tint_mul_sound:
  assumes "tint_wf a" "tint_wf b" "x \<in> gamma a" "y \<in> gamma b" "is_i64 (x * y)"
  shows "x * y \<in> gamma (tint_mul a b)"
proof -
  have z: "i64_min \<le> x * y" "x * y \<le> i64_max" using assms(5) by (auto simp: is_i64_def)
  consider l where "a = Literal l" | l where "b = Literal l"
    | f1 f2 where "a = From f1" "b = From f2"
    | f1 t1 f2 t2 where "a = Range f1 t1" "b = Range f2 t2"
    | "tint_mul a b \<in> {Unspecified, UnspecifiedLiteral}"
    by (cases a; cases b) (auto simp: tint_mul_def)
  then show ?thesis
  proof cases
    case 1
    then show ?thesis using mul_literal_sound(1)[of l b y] assms by auto
  next
    case 2
    then show ?thesis using mul_literal_sound(2)[of l a x] assms by (auto simp: mult.commute)
  next
    case 3
    then show ?thesis using assms z
      by (auto simp: tint_mul_def sat_mul_def intro!: sat_below mult_mono)
  next
    case 4
    then have "f1 \<le> x" "x \<le> t1" "f2 \<le> y" "y \<le> t2" using assms by auto
    from mul_corners[OF this] 4 show ?thesis
      by (simp add: tint_mul_def sat_mul_def Let_def sat_min sat_max sat_below sat_above assms(5))
  next
    case 5
    then show ?thesis using z by auto
  qed
qed

interpretation multiplication: sound_operation
  "\<lambda>x y. int_result (x * y)" "\<lambda>a b. Some (tint_mul a b)" "\<lambda>a b. True"
  by unfold_locales (auto simp: int_result_def tint_mul_wf tint_mul_sound split: if_splits)

end
