(* ===== verification/Integer_Division.thy ===== *)
theory Integer_Division
  imports Integer_Arith
begin

text \<open>
  Soundness of the division and the remainder of integer types, and the inputs on which they
  panic. Division is Rust's, rounding towards zero (\<open>sdiv\<close> and \<open>smod\<close>).
\<close>

section \<open>Division rounding towards zero\<close>

lemma sdiv_pos: "0 < y \<Longrightarrow> x sdiv y = (if 0 \<le> x then x div y else - ((- x) div y))" for x y :: int
  by (auto simp: signed_divide_int_def sgn_if)

lemma sdiv_neg: "y < 0 \<Longrightarrow> x sdiv y = - (x sdiv (- y))" for x y :: int
  by simp

lemma sdiv_mono: "0 < y \<Longrightarrow> x \<le> x' \<Longrightarrow> x sdiv y \<le> x' sdiv y" for x x' y :: int
  by (auto simp: sdiv_pos zdiv_mono1 intro: order_trans[of _ 0])
     (smt (verit) pos_imp_zdiv_nonneg_iff)

lemma sdiv_mono_neg: "y < 0 \<Longrightarrow> x \<le> x' \<Longrightarrow> x' sdiv y \<le> x sdiv y" for x x' y :: int
  using sdiv_mono[of "- y" x x'] by simp

lemma sdiv_divisor:
  fixes x y y' :: int
  assumes "0 < y" "y \<le> y'"
  shows "0 \<le> x \<Longrightarrow> x sdiv y' \<le> x sdiv y" "x \<le> 0 \<Longrightarrow> x sdiv y \<le> x sdiv y'"
proof -
  show "0 \<le> x \<Longrightarrow> x sdiv y' \<le> x sdiv y"
    using assms by (simp add: sdiv_pos zdiv_mono2)
  show "x \<le> 0 \<Longrightarrow> x sdiv y \<le> x sdiv y'"
    using assms zdiv_mono2[of "- x" y y'] by (cases "x = 0") (simp_all add: sdiv_pos)
qed

lemma sdiv_sign:
  fixes x y :: int
  shows "0 < y \<Longrightarrow> 0 \<le> x \<Longrightarrow> 0 \<le> x sdiv y" "0 < y \<Longrightarrow> x \<le> 0 \<Longrightarrow> x sdiv y \<le> 0"
    "y < 0 \<Longrightarrow> 0 \<le> x \<Longrightarrow> x sdiv y \<le> 0" "y < 0 \<Longrightarrow> x \<le> 0 \<Longrightarrow> 0 \<le> x sdiv y"
  using sdiv_mono[of y 0 x] sdiv_mono[of y x 0] sdiv_mono_neg[of y 0 x] sdiv_mono_neg[of y x 0]
  by simp_all

lemma sdiv_between_dividends:
  fixes a x b y :: int
  assumes "a \<le> x" "x \<le> b" "y \<noteq> 0"
  shows "min (a sdiv y) (b sdiv y) \<le> x sdiv y" "x sdiv y \<le> max (a sdiv y) (b sdiv y)"
proof -
  have "min (a sdiv y) (b sdiv y) \<le> x sdiv y \<and> x sdiv y \<le> max (a sdiv y) (b sdiv y)"
  proof (cases "0 < y")
    case True
    then show ?thesis using sdiv_mono[of y a x] sdiv_mono[of y x b] assms by auto
  next
    case False
    then show ?thesis using sdiv_mono_neg[of y a x] sdiv_mono_neg[of y x b] assms by auto
  qed
  then show "min (a sdiv y) (b sdiv y) \<le> x sdiv y" "x sdiv y \<le> max (a sdiv y) (b sdiv y)" by blast+
qed

lemma sdiv_between_divisors:
  fixes f t x y :: int
  assumes "f \<le> y" "y \<le> t" "0 < f \<or> t < 0"
  shows "min (x sdiv f) (x sdiv t) \<le> x sdiv y" "x sdiv y \<le> max (x sdiv f) (x sdiv t)"
proof -
  have "min (x sdiv f) (x sdiv t) \<le> x sdiv y \<and> x sdiv y \<le> max (x sdiv f) (x sdiv t)"
  proof (cases "0 < f")
    case True
    then show ?thesis using sdiv_divisor[of f y x] sdiv_divisor[of y t x] assms
      by (cases "0 \<le> x") auto
  next
    case False
    then have "x sdiv f = - (x sdiv - f)" "x sdiv t = - (x sdiv - t)" "x sdiv y = - (x sdiv - y)"
      by simp_all
    then show ?thesis using sdiv_divisor[of "- y" "- f" x] sdiv_divisor[of "- t" "- y" x] assms False
      by (cases "0 \<le> x") auto
  qed
  then show "min (x sdiv f) (x sdiv t) \<le> x sdiv y" "x sdiv y \<le> max (x sdiv f) (x sdiv t)" by blast+
qed

lemma sdiv_corners:
  fixes f1 t1 f2 t2 x y :: int
  assumes "f1 \<le> x" "x \<le> t1" "f2 \<le> y" "y \<le> t2" "0 < f2 \<or> t2 < 0"
  shows "min (min (f1 sdiv f2) (f1 sdiv t2)) (min (t1 sdiv f2) (t1 sdiv t2)) \<le> x sdiv y"
    "x sdiv y \<le> max (max (f1 sdiv f2) (f1 sdiv t2)) (max (t1 sdiv f2) (t1 sdiv t2))"
  using sdiv_between_dividends[OF assms(1,2), of y] assms(3-5)
    sdiv_between_divisors[OF assms(3-5), of f1] sdiv_between_divisors[OF assms(3-5), of t1]
  by auto

text \<open>A quotient of \<open>i64\<close> values that does not panic is an \<open>i64\<close> value.\<close>

lemma abs_sdiv_half: "\<bar>y\<bar> \<ge> 2 \<Longrightarrow> 2 * \<bar>x sdiv y\<bar> \<le> \<bar>x\<bar>" for x y :: int
proof -
  assume y: "\<bar>y\<bar> \<ge> 2"
  have "\<bar>x sdiv y\<bar> \<le> \<bar>x\<bar> div \<bar>y\<bar>" by (simp add: signed_divide_int_def abs_mult abs_sgn_eq pos_imp_zdiv_nonneg_iff)
  also have "\<dots> \<le> \<bar>x\<bar> div 2" using y by (simp add: zdiv_mono2)
  finally show ?thesis by simp
qed

lemma sdiv_i64:
  assumes "is_i64 x" "y \<noteq> 0" "\<not> (x = i64_min \<and> y = -1)"
  shows "is_i64 (x sdiv y)"
proof -
  consider "y = 1" | "y = -1" | "\<bar>y\<bar> \<ge> 2" using assms(2) by linarith
  then show ?thesis
  proof cases
    case 3
    then show ?thesis using abs_sdiv_half[of y x] assms(1) by (auto simp: is_i64_def)
  qed (use assms in \<open>auto simp: is_i64_def\<close>)
qed

lemma rust_div_Some:
  "rust_div a b = Some q \<longleftrightarrow> q = a sdiv b \<and> b \<noteq> 0 \<and> \<not> (a = i64_min \<and> b = -1)"
  by (auto simp: rust_div_def)

section \<open>Division of types\<close>

lemma can_be_zero_exact:
  "tint_wf t \<Longrightarrow> t \<noteq> UnspecifiedLiteral \<Longrightarrow> can_be_zero t \<longleftrightarrow> 0 \<in> gamma t"
  by (cases t) (auto simp: is_i64_def)

lemmas div_step = rust_div_Some bind_eq_Some_conv

lemma div_literal_from:
  assumes "tint_div (Literal l) (From f) = Some c" "tint_wf (Literal l)" "tint_wf (From f)" "f \<le> y"
    "0 < f"
  shows "tint_wf c \<and> l sdiv y \<in> gamma c"
proof -
  have c: "c = (if l sdiv f = 0 then Literal 0 else if l \<ge> 0 then Range 0 (l sdiv f) else Range (l sdiv f) 0)"
    and q: "is_i64 (l sdiv f)"
    using assms sdiv_i64[of l f] by (auto simp: tint_div_def div_step split: if_splits)
  show ?thesis
    using sdiv_divisor[OF assms(5,4), of l] sdiv_sign[of y l] sdiv_sign[of f l] assms(4,5) q
    by (cases "0 \<le> l") (auto simp: c is_i64_def)
qed

lemma div_literal_to:
  assumes "tint_div (Literal l) (To t) = Some c" "tint_wf (Literal l)" "y \<le> t" "t < 0"
  shows "tint_wf c \<and> l sdiv y \<in> gamma c"
proof -
  have c: "c = (if l \<ge> 0 then Range (l sdiv t) 0 else Range 0 (l sdiv t))" and q: "is_i64 (l sdiv t)"
    using assms sdiv_i64[of l t] by (auto simp: tint_div_def div_step split: if_splits)
  show ?thesis
    using sdiv_divisor[of "- t" "- y" l] sdiv_sign[of y l] sdiv_sign[of t l] assms(3,4) q
    by (cases "0 \<le> l") (auto simp: c is_i64_def)
qed

lemma div_by_literal:
  assumes "tint_div a (Literal l) = Some c" "tint_wf a" "tint_wf (Literal l)" "x \<in> gamma a" "l \<noteq> 0"
  shows "tint_wf c \<and> (is_i64 (x sdiv l) \<longrightarrow> x sdiv l \<in> gamma c)"
proof -
  have z: "i64_min \<le> x sdiv l \<and> x sdiv l \<le> i64_max" if "is_i64 (x sdiv l)"
    using that by (simp add: is_i64_def)
  have m: "u \<le> v \<Longrightarrow> 0 < l \<Longrightarrow> u sdiv l \<le> v sdiv l" "u \<le> v \<Longrightarrow> \<not> 0 < l \<Longrightarrow> v sdiv l \<le> u sdiv l" for u v
    using sdiv_mono[of l u v] sdiv_mono_neg[of l u v] assms(5) by linarith+
  show ?thesis
    using assms z
    by (cases a) (auto simp: tint_div_def div_step sdiv_i64 intro: m split: if_splits,
       (meson m order_trans)+)
qed

lemma div_bounded:
  assumes "tint_div a (Range f2 t2) = Some c" "a = Range f1 t1 \<or> (a = Literal f1 \<and> t1 = f1)"
    "tint_wf a" "tint_wf (Range f2 t2)" "x \<in> gamma a" "f2 \<le> y" "y \<le> t2" "0 < f2 \<or> t2 < 0"
  shows "tint_wf c \<and> x sdiv y \<in> gamma c"
proof -
  let ?lo = "min (min (f1 sdiv f2) (f1 sdiv t2)) (min (t1 sdiv f2) (t1 sdiv t2))"
  let ?hi = "max (max (f1 sdiv f2) (f1 sdiv t2)) (max (t1 sdiv f2) (t1 sdiv t2))"
  have c: "c = Range ?lo ?hi" and q: "is_i64 (f1 sdiv f2)" "is_i64 (f1 sdiv t2)"
    "is_i64 (t1 sdiv f2)" "is_i64 (t1 sdiv t2)"
    using assms by (auto simp: tint_div_def div_step sdiv_i64 split: if_splits)
  have "f1 \<le> x" "x \<le> t1" using assms(2,5) by auto
  from sdiv_corners[OF this assms(6-8)] show ?thesis
    using q by (auto simp: c is_i64_def min_def max_def)
qed

lemma tint_div_sound:
  assumes "tint_div a b = Some c" "tint_wf a" "tint_wf b" "x \<in> gamma a" "y \<in> gamma b"
  shows "is_i64 (x sdiv y) \<Longrightarrow> x sdiv y \<in> gamma c" "tint_wf c"
proof -
  consider "c = Unspecified \<or> c = UnspecifiedLiteral"
    | l f where "a = Literal l" "b = From f" "0 < f"
    | l t where "a = Literal l" "b = To t" "t < 0"
    | l where "b = Literal l" "l \<noteq> 0"
    | f2 t2 f1 t1 where "b = Range f2 t2" "0 < f2 \<or> t2 < 0"
        "a = Range f1 t1 \<or> (a = Literal f1 \<and> t1 = f1)"
    using assms(1) by (cases a; cases b) (auto simp: tint_div_def split: if_splits)
  then have "tint_wf c \<and> (is_i64 (x sdiv y) \<longrightarrow> x sdiv y \<in> gamma c)"
  proof cases
    case 1
    then show ?thesis by (auto simp: is_i64_def)
  next
    case 2
    then show ?thesis using div_literal_from[of l f c y] assms by auto
  next
    case 3
    then show ?thesis using div_literal_to[of l t c y] assms by auto
  next
    case 4
    then show ?thesis using div_by_literal[of a l c x] assms by auto
  next
    case 5
    then show ?thesis using div_bounded[of a f2 t2 c f1 t1 x y] assms by auto
  qed
  then show "is_i64 (x sdiv y) \<Longrightarrow> x sdiv y \<in> gamma c" "tint_wf c" by auto
qed

text \<open>Division panics only where the one overflowing quotient of \<open>i64\<close> is among the bounds.\<close>

lemma tint_div_total:
  assumes "tint_wf a" "tint_wf b" "i64_min \<notin> gamma a \<or> -1 \<notin> gamma b"
  shows "\<exists>c. tint_div a b = Some c"
  using assms
  by (cases a; cases b) (auto simp: tint_div_def rust_div_def is_i64_def split: if_splits)

section \<open>Remainder of types\<close>

lemma smod_bounds:
  fixes x y :: int
  shows "y \<noteq> 0 \<Longrightarrow> x smod y < \<bar>y\<bar> \<and> - \<bar>y\<bar> < x smod y"
    and "0 \<le> x \<Longrightarrow> 0 \<le> x smod y \<and> x smod y \<le> x"
    and "x \<le> 0 \<Longrightarrow> x \<le> x smod y \<and> x smod y \<le> 0"
proof -
  define r where "r = \<bar>x\<bar> mod \<bar>y\<bar>"
  have m: "y \<noteq> 0 \<Longrightarrow> 0 \<le> r \<and> r < \<bar>y\<bar>" by (simp add: r_def)
  have le: "r \<le> \<bar>x\<bar>" by (simp add: r_def zmod_le_nonneg_dividend)
  have s: "x smod y = sgn x * r" by (simp add: signed_modulo_int_def r_def)
  have y0: "y = 0 \<Longrightarrow> r = \<bar>x\<bar>" by (simp add: r_def)
  show "y \<noteq> 0 \<Longrightarrow> x smod y < \<bar>y\<bar> \<and> - \<bar>y\<bar> < x smod y"
    using m unfolding s by (auto simp: sgn_if)
  show "0 \<le> x \<Longrightarrow> 0 \<le> x smod y \<and> x smod y \<le> x"
    using m le y0 unfolding s by (cases "y = 0") (auto simp: sgn_if)
  show "x \<le> 0 \<Longrightarrow> x \<le> x smod y \<and> x smod y \<le> 0"
    using m le y0 unfolding s by (cases "y = 0") (auto simp: sgn_if)
qed

lemma rust_rem_Some:
  "rust_rem a b = Some r \<longleftrightarrow> r = a smod b \<and> b \<noteq> 0 \<and> \<not> (a = i64_min \<and> b = -1)"
  by (auto simp: rust_rem_def)

lemma rust_abs_Some: "rust_abs a = Some m \<longleftrightarrow> m = \<bar>a\<bar> \<and> a \<noteq> i64_min"
  by (auto simp: rust_abs_def)

lemmas rem_step = rust_rem_Some rust_abs_Some bind_eq_Some_conv

lemma smod_i64: "is_i64 x \<Longrightarrow> is_i64 (x smod y)"
  using smod_bounds(2,3)[of x y] by (cases "0 \<le> x") (auto simp: is_i64_def)

lemma rem_unspecified_sound:
  assumes "rem_unspecified b = Some c" "tint_wf b" "i64_min \<notin> gamma b" "is_i64 x" "y \<in> gamma b"
  shows "tint_wf c \<and> (y \<noteq> 0 \<longrightarrow> x smod y \<in> gamma c)"
  using assms smod_bounds(1)[of y x] smod_i64[OF assms(4), of y]
  by (cases b) (auto simp: rem_unspecified_def rem_step saturation is_i64_def split: if_splits)

lemma rem_by_literal:
  assumes "tint_rem a (Literal l) = Some c" "tint_wf a" "tint_wf (Literal l)" "l \<noteq> i64_min" "x \<in> gamma a"
    "l \<noteq> 0"
  shows "tint_wf c \<and> x smod l \<in> gamma c"
proof -
  have "is_i64 x" using assms(2,5) gamma_i64[of a] by (auto simp: is_i64_def)
  note b = smod_bounds(1)[OF assms(6), of x] smod_bounds(2,3)[of x l] smod_i64[OF this, of l]
  show ?thesis
  proof (cases a)
    case (Literal k)
    then show ?thesis using assms b by (auto simp: tint_rem_def rem_step is_i64_def split: if_splits)
  next
    case (From f)
    then show ?thesis using assms b
      by (auto simp: tint_rem_def saturation is_i64_def split: if_splits)
  next
    case (To t)
    then show ?thesis using assms b
      by (auto simp: tint_rem_def rem_step is_i64_def split: if_splits)
  next
    case (Range f t)
    then show ?thesis using assms b
      by (auto simp: tint_rem_def rem_step is_i64_def split: if_splits)
  next
    case Unspecified
    then show ?thesis using assms rem_unspecified_sound[of "Literal l" c x l] \<open>is_i64 x\<close>
      by (auto simp: tint_rem_def)
  next
    case UnspecifiedLiteral
    then show ?thesis using assms b by (auto simp: tint_rem_def is_i64_def)
  qed
qed

lemma tint_rem_sound:
  assumes "tint_rem a b = Some c" "tint_wf a" "tint_wf b" "i64_min \<notin> gamma b" "x \<in> gamma a"
    "y \<in> gamma b"
  shows "y \<noteq> 0 \<Longrightarrow> x smod y \<in> gamma c" "tint_wf c"
proof -
  have x: "is_i64 x" using assms(2,5) gamma_i64[of a] by (auto simp: is_i64_def)
  note z = smod_i64[OF x, of y]
  consider "c = Unspecified \<or> c = UnspecifiedLiteral" | l where "b = Literal l" "l \<noteq> 0"
    | "a = Unspecified" | l f where "a = Literal l" "b = From f" "0 < f"
    using assms(1) by (cases a; cases b) (auto simp: tint_rem_def split: if_splits)
  then have "tint_wf c \<and> (y \<noteq> 0 \<longrightarrow> x smod y \<in> gamma c)"
  proof cases
    case 1
    then show ?thesis using z by (auto simp: is_i64_def)
  next
    case 2
    then show ?thesis using rem_by_literal[of a l c x] assms by auto
  next
    case 3
    then have "rem_unspecified b = Some c \<or> c = Unspecified"
      using assms(1) by (cases b) (auto simp: tint_rem_def)
    then show ?thesis using rem_unspecified_sound[of b c x y] assms x z by (auto simp: is_i64_def)
  next
    case 4
    then have "c = (if l \<ge> 0 then Range 0 l else Range l 0)" "x = l"
      using assms by (auto simp: tint_rem_def)
    then show ?thesis using smod_bounds(2,3)[of x y] assms(2) 4 by (auto simp: is_i64_def)
  qed
  then show "y \<noteq> 0 \<Longrightarrow> x smod y \<in> gamma c" "tint_wf c" by auto
qed

lemma tint_rem_total:
  assumes "tint_wf a" "tint_wf b" "i64_min \<notin> gamma b"
  shows "\<exists>c. tint_rem a b = Some c"
  using assms
  by (cases a; cases b)
     (auto simp: tint_rem_def rem_unspecified_def rust_rem_def rust_abs_def is_i64_def split: if_splits)

section \<open>The contracts\<close>

text \<open>\<open>intdiv\<close> and \<open>%\<close> of PHP throw on a zero divisor.\<close>

definition php_intdiv :: "int \<Rightarrow> int \<Rightarrow> int option" where
  "php_intdiv x y = (if y = 0 then None else int_result (x sdiv y))"

definition php_mod :: "int \<Rightarrow> int \<Rightarrow> int option" where
  "php_mod x y = (if y = 0 then None else int_result (x smod y))"

lemma some_value: "tint_wf t \<Longrightarrow> \<exists>x. x \<in> gamma t"
  using gamma_nonempty by blast

interpretation division: sound_operation php_intdiv tint_div "\<lambda>a b. True"
proof
  fix a b c x y z
  show "tint_wf a \<Longrightarrow> tint_wf b \<Longrightarrow> True \<Longrightarrow> tint_div a b = Some c \<Longrightarrow> tint_wf c"
    using tint_div_sound(2) some_value by blast
  show "tint_wf a \<Longrightarrow> tint_wf b \<Longrightarrow> True \<Longrightarrow> tint_div a b = Some c \<Longrightarrow>
      x \<in> gamma a \<Longrightarrow> y \<in> gamma b \<Longrightarrow> php_intdiv x y = Some z \<Longrightarrow> z \<in> gamma c"
    using tint_div_sound(1) by (auto simp: php_intdiv_def int_result_def split: if_splits)
qed

interpretation remainder: sound_operation php_mod tint_rem "\<lambda>a b. i64_min \<notin> gamma b"
proof
  fix a b c x y z
  show "tint_wf a \<Longrightarrow> tint_wf b \<Longrightarrow> i64_min \<notin> gamma b \<Longrightarrow> tint_rem a b = Some c \<Longrightarrow> tint_wf c"
    using tint_rem_sound(2) some_value by blast
  show "tint_wf a \<Longrightarrow> tint_wf b \<Longrightarrow> i64_min \<notin> gamma b \<Longrightarrow> tint_rem a b = Some c \<Longrightarrow>
      x \<in> gamma a \<Longrightarrow> y \<in> gamma b \<Longrightarrow> php_mod x y = Some z \<Longrightarrow> z \<in> gamma c"
    using tint_rem_sound(1) by (auto simp: php_mod_def int_result_def split: if_splits)
qed

end
