(* ===== verification/Integer_Bits.thy ===== *)
theory Integer_Bits
  imports Integer_Division
begin

unbundle bit_operations_syntax

text \<open>
  The bitwise operations and shifts of integer types, and the dispatch of the analyzer over the
  arithmetic operators of PHP (\<open>calculate_int_arithmetic\<close>,
  \<open>crates/analyzer/src/expression/binary/arithmetic.rs\<close>).

  An \<open>i64\<close> is an \<open>int\<close> in range: \<open>AND\<close>, \<open>OR\<close>, \<open>XOR\<close> and the arithmetic shift
  \<open>drop_bit\<close> of \<open>int\<close> agree with the machine's, and a left shift wraps by
  \<open>signed_take_bit 63\<close>.
\<close>

section \<open>Bit operations on types\<close>

definition bit_smear :: "int \<Rightarrow> int" where
  "bit_smear v =
     (let v = v OR drop_bit 1 v; v = v OR drop_bit 2 v; v = v OR drop_bit 4 v;
          v = v OR drop_bit 8 v; v = v OR drop_bit 16 v; v = v OR drop_bit 32 v
      in v)"

definition known_non_negative :: "tinteger \<Rightarrow> bool" where
  "known_non_negative t = (case get_minimum_value t of Some v \<Rightarrow> v \<ge> 0 | None \<Rightarrow> False)"

text \<open>\<open>None\<close> is the early return of the source with \<open>int\<close>.\<close>

definition and_upper :: "tinteger \<Rightarrow> tinteger \<Rightarrow> int option option" where
  "and_upper l r = (case (known_non_negative l, known_non_negative r) of
     (False, False) \<Rightarrow> None
   | (True, True) \<Rightarrow>
       Some (case (get_maximum_value l, get_maximum_value r) of
          (Some a, Some b) \<Rightarrow> Some (min a b)
        | (Some v, None) \<Rightarrow> Some v
        | (None, Some v) \<Rightarrow> Some v
        | (None, None) \<Rightarrow> None)
   | (True, False) \<Rightarrow> Some (get_maximum_value l)
   | (False, True) \<Rightarrow> Some (get_maximum_value r))"

definition tint_and :: "tinteger \<Rightarrow> tinteger \<Rightarrow> tinteger" where
  "tint_and self rhs = (case (self, rhs) of
     (Literal l, Literal r) \<Rightarrow> Literal (l AND r)
   | (UnspecifiedLiteral, UnspecifiedLiteral) \<Rightarrow> UnspecifiedLiteral
   | (Literal _, UnspecifiedLiteral) \<Rightarrow> UnspecifiedLiteral
   | (UnspecifiedLiteral, Literal _) \<Rightarrow> UnspecifiedLiteral
   | (l, r) \<Rightarrow>
       (case and_upper l r of
          None \<Rightarrow> Unspecified
        | Some upper \<Rightarrow> from_bounds (Some 0) upper))"

text \<open>The upper bound that \<open>|\<close> and \<open>^\<close> share.\<close>

definition smear_upper :: "tinteger \<Rightarrow> tinteger \<Rightarrow> int option" where
  "smear_upper l r = (case (get_maximum_value l, get_maximum_value r) of
     (Some a, Some b) \<Rightarrow> Some (bit_smear (max a b))
   | _ \<Rightarrow> None)"

definition or_lower :: "tinteger \<Rightarrow> tinteger \<Rightarrow> int option" where
  "or_lower l r = (case (get_minimum_value l, get_minimum_value r) of
     (Some a, Some b) \<Rightarrow> Some (max a b)
   | (Some v, None) \<Rightarrow> Some v
   | (None, Some v) \<Rightarrow> Some v
   | (None, None) \<Rightarrow> Some 0)"

definition tint_or :: "tinteger \<Rightarrow> tinteger \<Rightarrow> tinteger" where
  "tint_or self rhs = (case (self, rhs) of
     (Literal l, Literal r) \<Rightarrow> Literal (l OR r)
   | (UnspecifiedLiteral, UnspecifiedLiteral) \<Rightarrow> UnspecifiedLiteral
   | (Literal _, UnspecifiedLiteral) \<Rightarrow> UnspecifiedLiteral
   | (UnspecifiedLiteral, Literal _) \<Rightarrow> UnspecifiedLiteral
   | (l, r) \<Rightarrow>
       if \<not> (known_non_negative l \<and> known_non_negative r) then Unspecified
       else from_bounds (or_lower l r) (smear_upper l r))"

definition tint_xor :: "tinteger \<Rightarrow> tinteger \<Rightarrow> tinteger" where
  "tint_xor self rhs =
     (if is_literal self \<and> is_literal rhs
      then (case (self, rhs) of (Literal l, Literal r) \<Rightarrow> Literal (l XOR r) | _ \<Rightarrow> Unspecified)
      else if self = Literal 0 then rhs
      else if rhs = Literal 0 then self
      else (case (self, rhs) of
          (UnspecifiedLiteral, UnspecifiedLiteral) \<Rightarrow> UnspecifiedLiteral
        | (Literal _, UnspecifiedLiteral) \<Rightarrow> UnspecifiedLiteral
        | (UnspecifiedLiteral, Literal _) \<Rightarrow> UnspecifiedLiteral
        | (l, r) \<Rightarrow>
            if \<not> (known_non_negative l \<and> known_non_negative r) then Unspecified
            else from_bounds (Some 0) (smear_upper l r)))"

section \<open>Shifts of types\<close>

text \<open>\<open>wrapping_shl\<close> and \<open>checked_shl\<close>; the latter checks the width of the shift only.\<close>

definition wrapping_shl :: "int \<Rightarrow> nat \<Rightarrow> int" where
  "wrapping_shl v s = signed_take_bit 63 (push_bit s v)"

definition checked_shl :: "int \<Rightarrow> nat \<Rightarrow> int option" where
  "checked_shl v s = (if s < 64 then Some (wrapping_shl v s) else None)"

text \<open>A cast from \<open>i64\<close> to \<open>u32\<close> keeps the low bits.\<close>

definition as_u32 :: "int \<Rightarrow> nat" where
  "as_u32 v = nat (v mod 2 ^ 32)"

definition shl_by_literal :: "tinteger \<Rightarrow> nat \<Rightarrow> tinteger" where
  "shl_by_literal val s = (case val of
     Literal v \<Rightarrow> Literal (wrapping_shl v s)
   | From lo \<Rightarrow> (case checked_shl lo s of None \<Rightarrow> Unspecified | Some v \<Rightarrow> From v)
   | To hi \<Rightarrow> (case checked_shl hi s of None \<Rightarrow> Unspecified | Some v \<Rightarrow> To v)
   | Range lo hi \<Rightarrow>
       (case (checked_shl lo s, checked_shl hi s) of
          (Some a, Some b) \<Rightarrow> Range a b
        | _ \<Rightarrow> Unspecified)
   | Unspecified \<Rightarrow> Unspecified
   | UnspecifiedLiteral \<Rightarrow> UnspecifiedLiteral)"

definition shl_by_range :: "tinteger \<Rightarrow> tinteger \<Rightarrow> tinteger" where
  "shl_by_range val shift =
     (if known_non_negative val \<and> known_non_negative shift \<and>
         (case get_maximum_value shift of Some v \<Rightarrow> v < 64 | None \<Rightarrow> False)
      then (case (get_minimum_value shift, get_maximum_value shift) of
          (Some s_min, Some s_max) \<Rightarrow>
            (case (Option.bind (get_minimum_value val) (\<lambda>v. checked_shl v (as_u32 s_min)),
                   Option.bind (get_maximum_value val) (\<lambda>v. checked_shl v (as_u32 s_max))) of
               (Some lo, Some hi) \<Rightarrow> from_bounds (Some lo) (Some hi)
             | (Some lo, None) \<Rightarrow> From lo
             | _ \<Rightarrow> Unspecified)
        | _ \<Rightarrow> Unspecified)
      else Unspecified)"

definition tint_shl :: "tinteger \<Rightarrow> tinteger \<Rightarrow> tinteger" where
  "tint_shl self rhs =
     (if self = Literal 0 then Literal 0
      else (case (self, rhs) of
          (Literal l, Literal r) \<Rightarrow>
            if \<not> (0 \<le> r \<and> r < 64) then Unspecified else Literal (wrapping_shl l (as_u32 r))
        | (UnspecifiedLiteral, UnspecifiedLiteral) \<Rightarrow> UnspecifiedLiteral
        | (Literal _, UnspecifiedLiteral) \<Rightarrow> UnspecifiedLiteral
        | (UnspecifiedLiteral, Literal _) \<Rightarrow> UnspecifiedLiteral
        | (val, Literal shift) \<Rightarrow>
            if shift = 0 then val
            else if 1 \<le> shift \<and> shift < 64 then shl_by_literal val (as_u32 shift)
            else shl_by_range val (Literal shift)
        | (val, shift) \<Rightarrow> shl_by_range val shift))"

definition shr_by_literal :: "tinteger \<Rightarrow> nat \<Rightarrow> tinteger" where
  "shr_by_literal val s = (case val of
     Literal v \<Rightarrow> Literal (drop_bit s v)
   | From lo \<Rightarrow> From (drop_bit s lo)
   | To hi \<Rightarrow> To (drop_bit s hi)
   | Range lo hi \<Rightarrow>
       let r1 = drop_bit s lo; r2 = drop_bit s hi in Range (min r1 r2) (max r1 r2)
   | Unspecified \<Rightarrow> Unspecified
   | UnspecifiedLiteral \<Rightarrow> UnspecifiedLiteral)"

definition shr_by_range :: "tinteger \<Rightarrow> tinteger \<Rightarrow> tinteger" where
  "shr_by_range val shift =
     (if known_non_negative val \<and> known_non_negative shift
      then (case get_minimum_value shift of
          None \<Rightarrow> Unspecified
        | Some s_min_raw \<Rightarrow>
            let s_min = min (as_u32 s_min_raw) 63;
                s_max = map_option (\<lambda>v. min (as_u32 v) 63) (get_maximum_value shift);
                upper = map_option (drop_bit s_min) (get_maximum_value val);
                lower = (case s_max of
                           Some s \<Rightarrow> map_option (drop_bit s) (get_minimum_value val)
                         | None \<Rightarrow> Some 0)
            in from_bounds lower upper)
      else Unspecified)"

definition tint_shr :: "tinteger \<Rightarrow> tinteger \<Rightarrow> tinteger" where
  "tint_shr self rhs = (case (self, rhs) of
     (Literal l, Literal r) \<Rightarrow>
       if \<not> (0 \<le> r \<and> r < 64) then Unspecified else Literal (drop_bit (as_u32 r) l)
   | (UnspecifiedLiteral, UnspecifiedLiteral) \<Rightarrow> UnspecifiedLiteral
   | (Literal _, UnspecifiedLiteral) \<Rightarrow> UnspecifiedLiteral
   | (UnspecifiedLiteral, Literal _) \<Rightarrow> UnspecifiedLiteral
   | (val, shift) \<Rightarrow>
       if val = Literal 0 \<and> known_non_negative shift then Literal 0
       else (case shift of
           Literal s \<Rightarrow>
             if s = 0 then val
             else if 1 \<le> s \<and> s < 64 then shr_by_literal val (as_u32 s)
             else shr_by_range val shift
         | _ \<Rightarrow> shr_by_range val shift))"

section \<open>The operators of PHP\<close>

datatype int_operator =
  Addition | Subtraction | Multiplication | Modulo | BitwiseAnd | BitwiseOr | BitwiseXor
| LeftShift | RightShift | Division | Exponentiation | OtherOperator

text \<open>\<open>checked_pow\<close> of \<open>i64\<close>.\<close>

definition checked_pow :: "int \<Rightarrow> nat \<Rightarrow> int option" where
  "checked_pow b e = (let p = b ^ e in if is_i64 p then Some p else None)"

text \<open>
  The outer option is a panic. The inner one is the answer of the source: \<open>None\<close> when nothing
  more precise than \<open>int\<close> is known.
\<close>

definition int_arithmetic :: "int_operator \<Rightarrow> tinteger \<Rightarrow> tinteger \<Rightarrow> tinteger option option" where
  "int_arithmetic op left right = (case op of
     Addition \<Rightarrow> Some (Some (tint_add left right))
   | Subtraction \<Rightarrow> Some (Some (tint_sub left right))
   | Multiplication \<Rightarrow> Some (Some (tint_mul left right))
   | Modulo \<Rightarrow> map_option Some (tint_rem left right)
   | BitwiseAnd \<Rightarrow> Some (Some (tint_and left right))
   | BitwiseOr \<Rightarrow> Some (Some (tint_or left right))
   | BitwiseXor \<Rightarrow> Some (Some (tint_xor left right))
   | LeftShift \<Rightarrow> Some (Some (tint_shl left right))
   | RightShift \<Rightarrow> Some (Some (tint_shr left right))
   | Division \<Rightarrow>
       (case (left, right) of
          (Literal l, Literal r) \<Rightarrow>
            if r = 0 then Some (Some Unspecified)
            else do {
              m \<leftarrow> rust_rem l r;
              if m = 0 then do { q \<leftarrow> rust_div l r; Some (Some (Literal q)) }
              else Some (Some Unspecified) }
        | _ \<Rightarrow> Some (Some Unspecified))
   | Exponentiation \<Rightarrow>
       (case (left, right) of
          (Literal l, Literal r) \<Rightarrow>
            if r < 0 then Some (Some Unspecified)
            else if r < 2 ^ 32
            then (case checked_pow l (nat r) of
                    None \<Rightarrow> Some (Some Unspecified)
                  | Some p \<Rightarrow> Some (Some (Literal p)))
            else Some (Some Unspecified)
        | _ \<Rightarrow> Some (Some Unspecified))
   | OtherOperator \<Rightarrow> Some None)"

definition calculate_int_arithmetic ::
  "int_operator \<Rightarrow> tinteger \<Rightarrow> tinteger \<Rightarrow> tinteger option option" where
  "calculate_int_arithmetic op left right = (case int_arithmetic op left right of
     None \<Rightarrow> None
   | Some None \<Rightarrow> Some None
   | Some (Some result) \<Rightarrow> Some (if is_unspecified result then None else Some result))"

section \<open>Soundness of the bitwise operations\<close>

lemma is_i64_signed: "is_i64 x \<longleftrightarrow> signed_take_bit 63 x = x"
  by (auto simp: is_i64_def signed_take_bit_int_eq_self_iff)

lemma is_i64_bits: "is_i64 x \<longleftrightarrow> (\<forall>n. bit x (min 63 n) = bit x n)"
  unfolding is_i64_signed bit_eq_iff by (simp add: bit_signed_take_bit_iff)

lemma bit_ops_i64:
  assumes "is_i64 x" "is_i64 y"
  shows "is_i64 (x AND y)" "is_i64 (x OR y)" "is_i64 (x XOR y)"
  using assms unfolding is_i64_bits by (simp_all add: bit_and_iff bit_or_iff bit_xor_iff)

lemma bits_subset_le:
  fixes a b :: int
  assumes "0 \<le> b" "\<And>n. bit a n \<Longrightarrow> bit b n"
  shows "a \<le> b"
proof -
  have "a AND b = a" using assms(2) by (auto intro: bit_eqI simp: bit_and_iff)
  then show ?thesis using AND_upper2[OF assms(1), of a] by simp
qed

text \<open>One step of the smearing doubles the width over which bits are spread downwards.\<close>

lemma smear_step:
  fixes v w :: int
  assumes "\<And>n. bit w n \<longleftrightarrow> (\<exists>j < s. bit v (n + j))"
  shows "bit (w OR drop_bit s w) n \<longleftrightarrow> (\<exists>j < 2 * s. bit v (n + j))"
proof -
  have "bit (w OR drop_bit s w) n \<longleftrightarrow> (\<exists>j < s. bit v (n + j)) \<or> (\<exists>j < s. bit v (n + (s + j)))"
    using assms by (simp add: bit_or_iff bit_drop_bit_eq add.assoc add.left_commute)
  also have "\<dots> \<longleftrightarrow> (\<exists>j < 2 * s. bit v (n + j))"
  proof
    assume "\<exists>j < 2 * s. bit v (n + j)"
    then obtain j where j: "j < 2 * s" "bit v (n + j)" by blast
    show "(\<exists>j < s. bit v (n + j)) \<or> (\<exists>j < s. bit v (n + (s + j)))"
    proof (cases "j < s")
      case False
      then have "j - s < s" "bit v (n + (s + (j - s)))" using j by auto
      then show ?thesis by blast
    qed (use j in blast)
  next
    assume "(\<exists>j < s. bit v (n + j)) \<or> (\<exists>j < s. bit v (n + (s + j)))"
    then obtain j where "j < s" "bit v (n + j) \<or> bit v (n + (s + j))" by blast
    then have "j < 2 * s \<and> bit v (n + j) \<or> s + j < 2 * s \<and> bit v (n + (s + j))" by linarith
    then show "\<exists>j < 2 * s. bit v (n + j)" by blast
  qed
  finally show ?thesis .
qed

lemma bit_smear_bits: "bit (bit_smear v) n \<longleftrightarrow> (\<exists>j < 64. bit v (n + j))"
proof -
  let ?v1 = "v OR drop_bit 1 v"
  let ?v2 = "?v1 OR drop_bit 2 ?v1"
  let ?v4 = "?v2 OR drop_bit 4 ?v2"
  let ?v8 = "?v4 OR drop_bit 8 ?v4"
  let ?v16 = "?v8 OR drop_bit 16 ?v8"
  have "bit v n \<longleftrightarrow> (\<exists>j < 1. bit v (n + j))" for n by auto
  from smear_step[OF this] have "bit ?v1 n \<longleftrightarrow> (\<exists>j < 2. bit v (n + j))" for n by simp
  from smear_step[OF this] have "bit ?v2 n \<longleftrightarrow> (\<exists>j < 4. bit v (n + j))" for n by simp
  from smear_step[OF this] have "bit ?v4 n \<longleftrightarrow> (\<exists>j < 8. bit v (n + j))" for n by simp
  from smear_step[OF this] have "bit ?v8 n \<longleftrightarrow> (\<exists>j < 16. bit v (n + j))" for n by simp
  from smear_step[OF this] have "bit ?v16 n \<longleftrightarrow> (\<exists>j < 32. bit v (n + j))" for n by simp
  from smear_step[OF this] show ?thesis by (simp add: bit_smear_def Let_def)
qed

lemma above_bit: "0 \<le> x \<Longrightarrow> bit x n \<Longrightarrow> 2 ^ n \<le> x" for x :: int
  by (metis bit_iff_odd drop_bit_eq_div drop_bit_int_def div_pos_pos_trivial even_zero linorder_not_less)

lemma below_no_bit:
  fixes m :: int
  assumes "0 \<le> m" "\<And>k. n \<le> k \<Longrightarrow> \<not> bit m k"
  shows "m < 2 ^ n"
proof -
  have "drop_bit n m = 0"
    using assms(2) by (intro bit_eqI) (simp add: bit_drop_bit_eq)
  then have "m div 2 ^ n = 0" by (simp add: drop_bit_eq_div)
  then show ?thesis using assms(1) by (metis div_int_pos_iff linorder_not_less order_refl
      pos_imp_zdiv_pos_iff zero_less_numeral zero_less_power less_irrefl)
qed

lemma smear_covers:
  assumes "0 \<le> x" "x \<le> m" "is_i64 m" "bit x n"
  shows "bit (bit_smear m) n"
proof -
  have "2 ^ n \<le> m" using above_bit[OF assms(1,4)] assms(2) by simp
  then obtain k where k: "n \<le> k" "bit m k" using below_no_bit[of m n] assms(1,2) by fastforce
  have "2 ^ k \<le> m" using above_bit[OF _ k(2)] assms(1,2) by simp
  also have "m < 2 ^ 63" using assms(3) by (simp add: is_i64_def)
  finally have "k < 63" by (rule power_less_imp_less_exp[rotated]) simp
  then have "k - n < 64 \<and> bit m (n + (k - n))" using k by simp
  then show ?thesis unfolding bit_smear_bits by blast
qed

lemma smear_range:
  assumes "0 \<le> m" "is_i64 m"
  shows "0 \<le> bit_smear m" "is_i64 (bit_smear m)" "m \<le> bit_smear m"
proof -
  show n: "0 \<le> bit_smear m" using assms(1) by (simp add: bit_smear_def Let_def)
  show "m \<le> bit_smear m" by (rule bits_subset_le[OF n smear_covers[OF assms(1) _ assms(2)]]) simp
  have "\<not> bit m k" if "63 \<le> k" for k
  proof
    assume "bit m k"
    then have "2 ^ k \<le> m" by (rule above_bit[OF assms(1)])
    moreover have "(2::int) ^ 63 \<le> 2 ^ k" using that by (rule power_increasing) simp
    ultimately show False using assms(2) by (simp add: is_i64_def)
  qed
  then have "\<not> bit (bit_smear m) k" if "63 \<le> k" for k
    unfolding bit_smear_bits using that by (meson trans_le_add1)
  then have "bit_smear m < 2 ^ 63" using below_no_bit[OF n] by blast
  then show "is_i64 (bit_smear m)" using n by (simp add: is_i64_def)
qed

lemma known_non_negative: "known_non_negative t \<Longrightarrow> x \<in> gamma t \<Longrightarrow> 0 \<le> x"
  using gamma_minimum[of x t] by (fastforce simp: known_non_negative_def split: option.splits)

lemma gamma_is_i64: "tint_wf t \<Longrightarrow> x \<in> gamma t \<Longrightarrow> is_i64 x"
  using gamma_i64[of t] by (auto simp: is_i64_def)

lemma from_bounds_member:
  assumes "\<And>l. lo = Some l \<Longrightarrow> is_i64 l \<and> l \<le> z" "\<And>h. hi = Some h \<Longrightarrow> is_i64 h \<and> z \<le> h" "is_i64 z"
  shows "tint_wf (from_bounds lo hi) \<and> z \<in> gamma (from_bounds lo hi)"
proof -
  have b: "\<forall>l. lo = Some l \<longrightarrow> is_i64 l" "\<forall>h. hi = Some h \<longrightarrow> is_i64 h"
    "\<forall>l h. lo = Some l \<longrightarrow> hi = Some h \<longrightarrow> l \<le> h"
    using assms(1,2) by force+
  have "z \<in> bounded_by lo hi" using assms by (auto simp: bounded_by_def is_i64_def)
  then show ?thesis using gamma_from_bounds[OF b] by blast
qed

lemma full_type: "is_i64 z \<Longrightarrow> t = Unspecified \<or> t = UnspecifiedLiteral \<Longrightarrow> tint_wf t \<and> z \<in> gamma t"
  by (auto simp: is_i64_def)

lemma literal_pair:
  "is_of_literal_origin a \<Longrightarrow> is_of_literal_origin b \<Longrightarrow>
     (\<exists>l r. a = Literal l \<and> b = Literal r) \<or>
     (a = UnspecifiedLiteral \<and> b = UnspecifiedLiteral) \<or>
     (\<exists>l. a = Literal l \<and> b = UnspecifiedLiteral) \<or> (\<exists>r. a = UnspecifiedLiteral \<and> b = Literal r)"
  by (cases a; cases b) auto

lemma tint_and_other:
  "\<not> (is_of_literal_origin a \<and> is_of_literal_origin b) \<Longrightarrow> tint_and a b =
     (case and_upper a b of None \<Rightarrow> Unspecified | Some upper \<Rightarrow> from_bounds (Some 0) upper)"
  by (cases a; cases b) (simp_all add: tint_and_def)

lemma tint_or_other:
  "\<not> (is_of_literal_origin a \<and> is_of_literal_origin b) \<Longrightarrow> tint_or a b =
     (if \<not> (known_non_negative a \<and> known_non_negative b) then Unspecified
      else from_bounds (or_lower a b) (smear_upper a b))"
  by (cases a; cases b) (simp_all add: tint_or_def)

lemma tint_xor_other:
  "\<not> (is_of_literal_origin a \<and> is_of_literal_origin b) \<Longrightarrow> a \<noteq> Literal 0 \<Longrightarrow> b \<noteq> Literal 0 \<Longrightarrow>
     tint_xor a b =
     (if \<not> (known_non_negative a \<and> known_non_negative b) then Unspecified
      else from_bounds (Some 0) (smear_upper a b))"
  by (cases a; cases b) (simp_all add: tint_xor_def)

lemma maximum_bounds:
  "tint_wf t \<Longrightarrow> x \<in> gamma t \<Longrightarrow> get_maximum_value t = Some h \<Longrightarrow> is_i64 h \<and> x \<le> h"
  using gamma_maximum bounds_wf(2) by blast

lemma and_upper_sound:
  assumes "tint_wf a" "tint_wf b" "x \<in> gamma a" "y \<in> gamma b" "and_upper a b = Some hi"
  shows "0 \<le> x AND y" "hi = Some h \<Longrightarrow> is_i64 h \<and> x AND y \<le> h"
proof -
  have u: "0 \<le> x \<Longrightarrow> x AND y \<le> x" "0 \<le> y \<Longrightarrow> x AND y \<le> y"
    by (simp_all add: AND_upper1 AND_upper2)
  have mx: "get_maximum_value a = Some p \<Longrightarrow> is_i64 p \<and> x \<le> p"
    "get_maximum_value b = Some p \<Longrightarrow> is_i64 p \<and> y \<le> p" for p
    using maximum_bounds assms by blast+
  have k: "known_non_negative a \<Longrightarrow> 0 \<le> x" "known_non_negative b \<Longrightarrow> 0 \<le> y"
    using assms known_non_negative by blast+
  show "0 \<le> x AND y"
    using assms(5) k by (auto simp: and_upper_def split: bool.splits)
  show "is_i64 h \<and> x AND y \<le> h" if "hi = Some h"
  proof (cases "known_non_negative a \<and> known_non_negative b")
    case True
    then have le: "x AND y \<le> x" "x AND y \<le> y" using u k by simp_all
    have m1: "is_i64 p \<and> x AND y \<le> p" if "get_maximum_value a = Some p" for p
      using mx(1)[OF that] le by simp
    have m2: "is_i64 p \<and> x AND y \<le> p" if "get_maximum_value b = Some p" for p
      using mx(2)[OF that] le by simp
    have "hi = (case (get_maximum_value a, get_maximum_value b) of
        (Some a, Some b) \<Rightarrow> Some (min a b) | (Some v, None) \<Rightarrow> Some v
      | (None, Some v) \<Rightarrow> Some v | (None, None) \<Rightarrow> None)"
      using assms(5) True by (simp add: and_upper_def)
    then show ?thesis using that m1 m2 by (auto simp: min_def split: option.splits if_splits)
  next
    case False
    then consider "known_non_negative a" "hi = get_maximum_value a"
      | "known_non_negative b" "hi = get_maximum_value b"
      using assms(5) by (auto simp: and_upper_def split: bool.splits)
    then show ?thesis using that u k mx[of h] by cases fastforce+
  qed
qed

lemma tint_and_sound:
  assumes "tint_wf a" "tint_wf b" "x \<in> gamma a" "y \<in> gamma b"
  shows "tint_wf (tint_and a b) \<and> x AND y \<in> gamma (tint_and a b)"
proof -
  have i: "is_i64 (x AND y)"
    by (rule bit_ops_i64(1)[OF gamma_is_i64[OF assms(1,3)] gamma_is_i64[OF assms(2,4)]])
  show ?thesis
  proof (cases "is_of_literal_origin a \<and> is_of_literal_origin b")
    case True
    from literal_pair[OF conjunct1[OF this] conjunct2[OF this]] show ?thesis
      using i assms by (elim disjE exE conjE) (simp_all add: tint_and_def is_i64_def)
  next
    case False
    show ?thesis
    proof (cases "and_upper a b")
      case None
      then show ?thesis using i by (simp add: tint_and_other[OF False] is_i64_def)
    next
      case (Some hi)
      then show ?thesis using i and_upper_sound[OF assms Some]
        by (simp add: tint_and_other[OF False]) (intro from_bounds_member, auto simp: is_i64_def)
    qed
  qed
qed

text \<open>The two operations whose result has no more bits than the larger operand.\<close>

lemma smear_upper_sound:
  assumes "tint_wf a" "tint_wf b" "x \<in> gamma a" "y \<in> gamma b" "0 \<le> x" "0 \<le> y"
    "smear_upper a b = Some h" "\<And>n. bit z n \<Longrightarrow> bit x n \<or> bit y n" "0 \<le> (z::int)"
  shows "is_i64 h \<and> z \<le> h"
proof -
  obtain p q where pq: "get_maximum_value a = Some p" "get_maximum_value b = Some q"
    and h: "h = bit_smear (max p q)"
    using assms(7) by (auto simp: smear_upper_def split: option.splits)
  have m: "is_i64 (max p q)" "x \<le> max p q" "y \<le> max p q"
    using maximum_bounds[OF assms(1,3) pq(1)] maximum_bounds[OF assms(2,4) pq(2)]
    by (simp_all add: max_def)
  then have m0: "0 \<le> max p q" using assms(5) by linarith
  have "bit (bit_smear (max p q)) n" if "bit z n" for n
    using assms(8)[OF that] smear_covers[OF assms(5) m(2,1)] smear_covers[OF assms(6) m(3,1)] by blast
  then have "z \<le> bit_smear (max p q)" by (rule bits_subset_le[OF smear_range(1)[OF m0 m(1)]])
  then show ?thesis using smear_range(2)[OF m0 m(1)] h by simp
qed

lemma or_ge: "0 \<le> x \<Longrightarrow> 0 \<le> y \<Longrightarrow> x \<le> x OR y \<and> y \<le> x OR y" for x y :: int
  by (rule conjI; rule bits_subset_le) (simp_all add: bit_or_iff)

lemma or_lower_sound:
  assumes "tint_wf a" "tint_wf b" "x \<in> gamma a" "y \<in> gamma b"
    "known_non_negative a" "known_non_negative b" "or_lower a b = Some l"
  shows "is_i64 l \<and> l \<le> x OR y"
proof -
  obtain p q where pq: "get_minimum_value a = Some p" "get_minimum_value b = Some q" "l = max p q"
    using assms(5-7) by (auto simp: known_non_negative_def or_lower_def split: option.splits)
  have "is_i64 p" "is_i64 q" "p \<le> x" "q \<le> y"
    using pq bounds_wf(1) gamma_minimum assms(1-4) by blast+
  moreover have "x \<le> x OR y" "y \<le> x OR y" using or_ge known_non_negative assms(3-6) by blast+
  ultimately show ?thesis using pq(3) by (simp add: max_def)
qed

lemma tint_or_sound:
  assumes "tint_wf a" "tint_wf b" "x \<in> gamma a" "y \<in> gamma b"
  shows "tint_wf (tint_or a b) \<and> x OR y \<in> gamma (tint_or a b)"
proof -
  have i: "is_i64 (x OR y)"
    by (rule bit_ops_i64(2)[OF gamma_is_i64[OF assms(1,3)] gamma_is_i64[OF assms(2,4)]])
  show ?thesis
  proof (cases "is_of_literal_origin a \<and> is_of_literal_origin b")
    case True
    from literal_pair[OF conjunct1[OF this] conjunct2[OF this]] show ?thesis
      using i assms by (elim disjE exE conjE) (simp_all add: tint_or_def is_i64_def)
  next
    case False
    show ?thesis
    proof (cases "known_non_negative a \<and> known_non_negative b")
      case True
      then have xy: "0 \<le> x" "0 \<le> y" using assms known_non_negative by blast+
      have "is_i64 h \<and> x OR y \<le> h" if "smear_upper a b = Some h" for h
        using smear_upper_sound[OF assms xy that, of "x OR y"] xy by (simp add: bit_or_iff)
      moreover have "is_i64 l \<and> l \<le> x OR y" if "or_lower a b = Some l" for l
        using or_lower_sound[OF assms _ _ that] True by blast
      ultimately show ?thesis
        unfolding tint_or_other[OF False] if_not_P[OF not_not[THEN iffD2, OF True]]
        using i by (intro from_bounds_member)
    qed (use i in \<open>auto simp: tint_or_other[OF False] is_i64_def\<close>)
  qed
qed

lemma tint_xor_sound:
  assumes "tint_wf a" "tint_wf b" "x \<in> gamma a" "y \<in> gamma b"
  shows "tint_wf (tint_xor a b) \<and> x XOR y \<in> gamma (tint_xor a b)"
proof -
  have i: "is_i64 (x XOR y)"
    by (rule bit_ops_i64(3)[OF gamma_is_i64[OF assms(1,3)] gamma_is_i64[OF assms(2,4)]])
  consider "is_of_literal_origin a \<and> is_of_literal_origin b" | "a = Literal 0" | "b = Literal 0"
    | "\<not> (is_of_literal_origin a \<and> is_of_literal_origin b)" "a \<noteq> Literal 0" "b \<noteq> Literal 0"
    by blast
  then show ?thesis
  proof cases
    case 1
    from literal_pair[OF conjunct1[OF this] conjunct2[OF this]] show ?thesis
      using i assms by (elim disjE exE conjE) (auto simp: tint_xor_def is_i64_def)
  next
    case 2
    then have "tint_xor a b = b" by (cases b) (simp_all add: tint_xor_def)
    then show ?thesis using 2 assms by simp
  next
    case 3
    then have "tint_xor a b = a" by (cases a) (simp_all add: tint_xor_def)
    then show ?thesis using 3 assms by simp
  next
    case 4
    show ?thesis
    proof (cases "known_non_negative a \<and> known_non_negative b")
      case True
      then have xy: "0 \<le> x" "0 \<le> y" using assms known_non_negative by blast+
      have z: "0 \<le> x XOR y" using xy by (simp add: XOR_lower)
      have "is_i64 h \<and> x XOR y \<le> h" if "smear_upper a b = Some h" for h
        by (rule smear_upper_sound[OF assms xy that _ z]) (auto simp: bit_xor_iff)
      then have "tint_wf (from_bounds (Some 0) (smear_upper a b)) \<and>
          x XOR y \<in> gamma (from_bounds (Some 0) (smear_upper a b))"
        using z i by (intro from_bounds_member) (auto simp: is_i64_def)
      then show ?thesis unfolding tint_xor_other[OF 4] using True by simp
    qed (use i in \<open>auto simp: tint_xor_other[OF 4] is_i64_def\<close>)
  qed
qed

section \<open>Soundness of the shifts\<close>

text \<open>
  The shifts of PHP: a negative distance throws, a distance of the width or more leaves only
  the sign.
\<close>

definition php_shl :: "int \<Rightarrow> int \<Rightarrow> int option" where
  "php_shl x y = (if y < 0 then None else if y \<ge> 64 then Some 0 else Some (wrapping_shl x (nat y)))"

definition php_shr :: "int \<Rightarrow> int \<Rightarrow> int option" where
  "php_shr x y =
     (if y < 0 then None else if y \<ge> 64 then Some (if x < 0 then -1 else 0)
      else Some (drop_bit (nat y) x))"

lemma wrapping_shl_i64 [simp]: "is_i64 (wrapping_shl v s)"
  by (simp add: is_i64_signed wrapping_shl_def)

lemma wrapping_shl_exact: "is_i64 (v * 2 ^ s) \<Longrightarrow> wrapping_shl v s = v * 2 ^ s"
  by (simp add: is_i64_signed wrapping_shl_def push_bit_eq_mult)

text \<open>No value of the first type leaves \<open>i64\<close> when shifted by the bounds of the second.\<close>

definition shl_fits :: "tinteger \<Rightarrow> tinteger \<Rightarrow> bool" where
  "shl_fits a b \<longleftrightarrow> (is_literal a \<and> is_literal b) \<or>
     (\<forall>x \<in> gamma a. \<forall>y \<in> gamma b. 0 \<le> y \<longrightarrow> y < 64 \<longrightarrow> is_i64 (x * 2 ^ nat y))"

lemma as_u32_small: "0 \<le> v \<Longrightarrow> v < 2 ^ 32 \<Longrightarrow> as_u32 v = nat v"
  by (simp add: as_u32_def)

lemma as_u32_le: "0 \<le> v \<Longrightarrow> as_u32 v \<le> nat v"
  unfolding as_u32_def by (intro nat_mono) (simp add: zmod_le_nonneg_dividend)

lemma gamma_ends:
  "tint_wf t \<Longrightarrow> get_minimum_value t = Some m \<Longrightarrow> m \<in> gamma t"
  "tint_wf t \<Longrightarrow> get_maximum_value t = Some m \<Longrightarrow> m \<in> gamma t"
  by (cases t; auto simp: is_i64_def)+

lemma high_bits: "is_i64 x \<Longrightarrow> 63 \<le> n \<Longrightarrow> bit x n \<longleftrightarrow> x < 0"
proof -
  assume x: "is_i64 x" and n: "63 \<le> n"
  have "bit x n = bit x 63" using x n unfolding is_i64_bits by (metis min.absorb1)
  also have "bit x 63 \<longleftrightarrow> signed_take_bit 63 x < 0" by simp
  also have "signed_take_bit 63 x = x" using x by (simp only: is_i64_signed)
  finally show "bit x n \<longleftrightarrow> x < 0" .
qed

lemma php_shr_drop_bit: "is_i64 x \<Longrightarrow> 0 \<le> y \<Longrightarrow> php_shr x y = Some (drop_bit (nat y) x)"
proof (cases "y < 64")
  case False
  assume x: "is_i64 x" and "0 \<le> y"
  have "bit (drop_bit (nat y) x) n \<longleftrightarrow> x < 0" for n
    using False high_bits[OF x, of "nat y + n"] by (simp add: bit_drop_bit_eq)
  then have "drop_bit (nat y) x = (if x < 0 then -1 else 0)" by (auto intro: bit_eqI)
  then show ?thesis using False \<open>0 \<le> y\<close> by (simp add: php_shr_def)
qed (simp add: php_shr_def)

lemma drop_bit_mono: "x \<le> y \<Longrightarrow> drop_bit n x \<le> drop_bit n y" for x y :: int
  by (simp add: drop_bit_eq_div zdiv_mono1)

lemma drop_bit_antimono: "0 \<le> x \<Longrightarrow> m \<le> n \<Longrightarrow> drop_bit n x \<le> drop_bit m x" for x :: int
  by (simp add: drop_bit_eq_div zdiv_mono2 power_increasing)

lemma drop_bit_i64:
  assumes "is_i64 x"
  shows "is_i64 (drop_bit n x)"
  unfolding is_i64_bits
proof
  fix k
  show "bit (drop_bit n x) (min 63 k) = bit (drop_bit n x) k"
    using high_bits[OF assms, of "n + 63"] high_bits[OF assms, of "n + k"]
    by (cases "k \<le> 63") (simp_all add: bit_drop_bit_eq)
qed

lemma is_literal_cases: "is_literal t \<Longrightarrow> (\<And>v. t = Literal v \<Longrightarrow> P) \<Longrightarrow> P"
  by (auto simp: is_literal_iff)

subsection \<open>Right shift\<close>

lemma shr_by_literal_sound:
  assumes "tint_wf a" "x \<in> gamma a"
  shows "tint_wf (shr_by_literal a s) \<and> drop_bit s x \<in> gamma (shr_by_literal a s)"
proof -
  have i: "is_i64 (drop_bit s x)" using assms gamma_is_i64 drop_bit_i64 by blast
  then have "i64_min \<le> drop_bit s x" "drop_bit s x \<le> i64_max" by (auto simp: is_i64_def)
  then show ?thesis
    using assms by (cases a) (auto simp: shr_by_literal_def drop_bit_i64 drop_bit_mono Let_def min_def max_def)
qed

text \<open>The cast of the distance to \<open>u32\<close> is exact when the largest distance fits.\<close>

definition shr_fits :: "tinteger \<Rightarrow> bool" where
  "shr_fits b \<longleftrightarrow> (case get_maximum_value b of Some m \<Rightarrow> m < 2 ^ 32 | None \<Rightarrow> True)"

lemma shr_by_range_sound:
  assumes "tint_wf a" "tint_wf b" "x \<in> gamma a" "y \<in> gamma b" "shr_fits b" "0 \<le> y"
  shows "tint_wf (shr_by_range a b) \<and> drop_bit (nat y) x \<in> gamma (shr_by_range a b)"
proof (cases "known_non_negative a \<and> known_non_negative b")
  case False
  then have "shr_by_range a b = Unspecified" by (auto simp: shr_by_range_def)
  moreover have "is_i64 (drop_bit (nat y) x)" using drop_bit_i64 gamma_is_i64 assms by blast
  ultimately show ?thesis by (auto simp: is_i64_def)
next
  case True
  then obtain lo s where lo: "get_minimum_value a = Some lo" "0 \<le> lo"
    and s: "get_minimum_value b = Some s" "0 \<le> s"
    by (auto simp: known_non_negative_def split: option.splits)
  have x: "lo \<le> x" "is_i64 lo" and y: "s \<le> y"
    using gamma_minimum lo s assms bounds_wf(1) by blast+
  have z: "is_i64 (drop_bit (nat y) x)" using drop_bit_i64 gamma_is_i64 assms by blast
  define upper where "upper = map_option (drop_bit (min (as_u32 s) 63)) (get_maximum_value a)"
  define lower where "lower = (case map_option (\<lambda>v. min (as_u32 v) 63) (get_maximum_value b) of
    Some s \<Rightarrow> map_option (drop_bit s) (get_minimum_value a) | None \<Rightarrow> Some 0)"
  have t: "shr_by_range a b = from_bounds lower upper"
    using True s(1) by (simp add: shr_by_range_def upper_def lower_def Let_def)
  have "is_i64 h \<and> drop_bit (nat y) x \<le> h" if h: "upper = Some h" for h
  proof -
    obtain hi where hi: "get_maximum_value a = Some hi" "h = drop_bit (min (as_u32 s) 63) hi"
      using h by (auto simp: upper_def)
    have "drop_bit (nat y) x \<le> drop_bit (min (as_u32 s) 63) x"
      using x(1) lo(2) as_u32_le[OF s(2)] y by (intro drop_bit_antimono) auto
    also have "\<dots> \<le> h" using maximum_bounds[OF assms(1,3) hi(1)] hi(2) by (simp add: drop_bit_mono)
    finally show ?thesis using maximum_bounds[OF assms(1,3) hi(1)] hi(2) drop_bit_i64 by simp
  qed
  moreover have "is_i64 l \<and> l \<le> drop_bit (nat y) x" if l: "lower = Some l" for l
  proof (cases "get_maximum_value b")
    case None
    then show ?thesis using l x(1) lo(2) by (auto simp: lower_def is_i64_def)
  next
    case (Some m)
    have m: "y \<le> m" "as_u32 m = nat m"
      using maximum_bounds[OF assms(2,4) Some] assms(5,6) Some
      by (auto simp: shr_fits_def intro: as_u32_small)
    have l: "l = drop_bit (min (nat m) 63) lo" using l Some lo(1) m(2) by (simp add: lower_def)
    have "l \<le> drop_bit (nat y) lo"
    proof (cases "nat m \<le> 63")
      case True
      then show ?thesis using l lo(2) m(1) by (simp add: drop_bit_antimono nat_mono)
    next
      case False
      have "drop_bit 63 lo = 0"
        using x(2) lo(2) by (simp add: drop_bit_eq_div div_pos_pos_trivial is_i64_def)
      then show ?thesis using l lo(2) False by simp
    qed
    also have "\<dots> \<le> drop_bit (nat y) x" using x(1) by (rule drop_bit_mono)
    finally show ?thesis using l drop_bit_i64[OF x(2)] by simp
  qed
  ultimately show ?thesis unfolding t using z by (intro from_bounds_member) blast+
qed

lemma tint_shr_other:
  "\<not> (is_of_literal_origin a \<and> is_of_literal_origin b) \<Longrightarrow> tint_shr a b =
     (if a = Literal 0 \<and> known_non_negative b then Literal 0
      else (case b of
           Literal s \<Rightarrow>
             if s = 0 then a
             else if 1 \<le> s \<and> s < 64 then shr_by_literal a (as_u32 s)
             else shr_by_range a b
         | _ \<Rightarrow> shr_by_range a b))"
  by (cases a; cases b) (simp_all add: tint_shr_def)

lemma tint_shr_sound:
  assumes "tint_wf a" "tint_wf b" "x \<in> gamma a" "y \<in> gamma b" "shr_fits b" "0 \<le> y"
  shows "tint_wf (tint_shr a b) \<and> drop_bit (nat y) x \<in> gamma (tint_shr a b)"
proof -
  have i: "is_i64 (drop_bit (nat y) x)" using drop_bit_i64 gamma_is_i64 assms by blast
  show ?thesis
  proof (cases "is_of_literal_origin a \<and> is_of_literal_origin b")
    case True
    from literal_pair[OF conjunct1[OF this] conjunct2[OF this]] show ?thesis
      using i assms
      by (elim disjE exE conjE)
         (auto simp: tint_shr_def is_i64_def as_u32_small)
  next
    case False
    have r: "tint_wf (shr_by_range a b) \<and> drop_bit (nat y) x \<in> gamma (shr_by_range a b)"
      by (rule shr_by_range_sound[OF assms])
    show ?thesis
    proof (cases b)
      case (Literal s)
      then show ?thesis
        using False r assms shr_by_literal_sound[OF assms(1,3), of "nat y"]
        by (auto simp: tint_shr_other as_u32_small)
    qed (use False r assms in \<open>auto simp: tint_shr_other\<close>)
  qed
qed

lemma shr_by_range_wf:
  assumes "tint_wf a" "tint_wf b" "shr_fits b"
  shows "tint_wf (shr_by_range a b)"
proof (cases "known_non_negative a \<and> known_non_negative b")
  case True
  obtain x y where "x \<in> gamma a" "y \<in> gamma b" using some_value assms(1,2) by blast
  then show ?thesis
    using shr_by_range_sound[OF assms(1,2) _ _ assms(3)] known_non_negative True by blast
qed (auto simp: shr_by_range_def)

lemma tint_shr_wf:
  assumes "tint_wf a" "tint_wf b" "shr_fits b"
  shows "tint_wf (tint_shr a b)"
proof (cases "is_of_literal_origin a \<and> is_of_literal_origin b")
  case True
  from literal_pair[OF conjunct1[OF this] conjunct2[OF this]] show ?thesis
    using assms by (elim disjE exE conjE) (auto simp: tint_shr_def drop_bit_i64)
next
  case False
  obtain x where "x \<in> gamma a" using some_value assms(1) by blast
  then have "tint_wf (shr_by_literal a s)" for s using shr_by_literal_sound assms(1) by blast
  then show ?thesis
    unfolding tint_shr_other[OF False] using shr_by_range_wf[OF assms] assms(1)
    by (cases b) (auto simp: is_i64_def)
qed

interpretation right_shift: sound_operation php_shr "\<lambda>a b. Some (tint_shr a b)" "\<lambda>a b. shr_fits b"
proof
  fix a b c x y z
  show "tint_wf a \<Longrightarrow> tint_wf b \<Longrightarrow> shr_fits b \<Longrightarrow> Some (tint_shr a b) = Some c \<Longrightarrow> tint_wf c"
    using tint_shr_wf by blast
  assume a: "tint_wf a" "tint_wf b" "shr_fits b" "Some (tint_shr a b) = Some c" "x \<in> gamma a"
    "y \<in> gamma b" "php_shr x y = Some z"
  then have "0 \<le> y" by (auto simp: php_shr_def split: if_splits)
  moreover from this have "z = drop_bit (nat y) x"
    using a php_shr_drop_bit gamma_is_i64 by fastforce
  ultimately show "z \<in> gamma c" using tint_shr_sound[of a b x y] a by simp
qed

subsection \<open>Left shift\<close>

lemma shl_scaled:
  assumes "is_i64 (lo * 2 ^ s)" "s < 64"
  shows "checked_shl lo s = Some (lo * 2 ^ s)"
  using assms by (simp add: checked_shl_def wrapping_shl_exact)

lemma shl_by_literal_sound:
  assumes "tint_wf a" "\<forall>x \<in> gamma a. is_i64 (x * 2 ^ s)" "s < 64" "x \<in> gamma a"
  shows "tint_wf (shl_by_literal a s) \<and> x * 2 ^ s \<in> gamma (shl_by_literal a s)"
proof -
  have e: "checked_shl m s = Some (m * 2 ^ s) \<and> is_i64 (m * 2 ^ s)"
    if "get_minimum_value a = Some m \<or> get_maximum_value a = Some m" for m
    using shl_scaled assms gamma_ends that by blast
  have i: "is_i64 (x * 2 ^ s)" using assms by blast
  then have "i64_min \<le> x * 2 ^ s" "x * 2 ^ s \<le> i64_max" by (auto simp: is_i64_def)
  then show ?thesis
    using assms(1,4) e i
    by (cases a) (auto simp: shl_by_literal_def wrapping_shl_exact)
qed

lemma shl_by_range_sound:
  assumes "tint_wf a" "tint_wf b" "\<forall>x \<in> gamma a. \<forall>y \<in> gamma b. 0 \<le> y \<longrightarrow> y < 64 \<longrightarrow> is_i64 (x * 2 ^ nat y)"
    "x \<in> gamma a" "y \<in> gamma b" "is_i64 z" "0 \<le> y" "y < 64 \<Longrightarrow> z = x * 2 ^ nat y"
  shows "tint_wf (shl_by_range a b) \<and> z \<in> gamma (shl_by_range a b)"
proof (cases "known_non_negative a \<and> known_non_negative b \<and>
    (case get_maximum_value b of Some v \<Rightarrow> v < 64 | None \<Rightarrow> False)")
  case False
  then have "shl_by_range a b = Unspecified" by (auto simp: shl_by_range_def)
  then show ?thesis using assms(6) by (auto simp: is_i64_def)
next
  case True
  then obtain lo s1 s2 where lo: "get_minimum_value a = Some lo" "0 \<le> lo"
    and s: "get_minimum_value b = Some s1" "0 \<le> s1" "get_maximum_value b = Some s2" "s2 < 64"
    by (auto simp: known_non_negative_def split: option.splits)
  have y: "s1 \<le> y" "y \<le> s2" and x: "lo \<le> x"
    using gamma_minimum gamma_maximum lo s assms by blast+
  then have z: "z = x * 2 ^ nat y" using assms(8) s by simp
  have u: "as_u32 s1 = nat s1" "as_u32 s2 = nat s2" using s y by (auto intro: as_u32_small)
  have fit: "is_i64 (m * 2 ^ nat k)" if "m \<in> gamma a" "k \<in> gamma b" "k = s1 \<or> k = s2" for m k
    using assms(3) that s y by (auto intro: order_trans)
  have le: "lo * 2 ^ nat s1 \<le> z" "is_i64 (lo * 2 ^ nat s1)" "checked_shl lo (nat s1) = Some (lo * 2 ^ nat s1)"
  proof -
    show "lo * 2 ^ nat s1 \<le> z"
      unfolding z using x lo(2) y by (intro mult_mono power_increasing) (auto simp: nat_mono)
    show i: "is_i64 (lo * 2 ^ nat s1)" using fit gamma_ends assms(1,2) lo(1) s(1) by blast
    show "checked_shl lo (nat s1) = Some (lo * 2 ^ nat s1)" using shl_scaled[OF i] y s by simp
  qed
  show ?thesis
  proof (cases "get_maximum_value a")
    case None
    then have "shl_by_range a b = From (lo * 2 ^ nat s1)"
      using True lo s le(3) by (simp add: shl_by_range_def u)
    then show ?thesis using le assms(6) by (simp add: is_i64_def)
  next
    case (Some hi)
    have i: "is_i64 (hi * 2 ^ nat s2)" using fit gamma_ends assms(1,2) Some s(3) by blast
    have "checked_shl hi (nat s2) = Some (hi * 2 ^ nat s2)" using shl_scaled[OF i] s y by simp
    then have t: "shl_by_range a b = from_bounds (Some (lo * 2 ^ nat s1)) (Some (hi * 2 ^ nat s2))"
      using True lo s le(3) Some by (simp add: shl_by_range_def u)
    have "z \<le> hi * 2 ^ nat s2"
      unfolding z using maximum_bounds[OF assms(1,4) Some] x lo(2) y
      by (intro mult_mono power_increasing) (auto simp: nat_mono)
    then show ?thesis unfolding t using le i assms(6) by (intro from_bounds_member) auto
  qed
qed

lemma tint_shl_other:
  "\<not> (is_of_literal_origin a \<and> is_of_literal_origin b) \<Longrightarrow> tint_shl a b =
     (if a = Literal 0 then Literal 0
      else (case b of
           Literal s \<Rightarrow>
             if s = 0 then a
             else if 1 \<le> s \<and> s < 64 then shl_by_literal a (as_u32 s)
             else shl_by_range a b
         | _ \<Rightarrow> shl_by_range a b))"
  by (cases a; cases b) (simp_all add: tint_shl_def)

lemma php_shl_cases:
  assumes "php_shl x y = Some z"
  shows "0 \<le> y" "is_i64 z" "y < 64 \<Longrightarrow> z = wrapping_shl x (nat y)" "x = 0 \<Longrightarrow> z = 0"
  using assms by (auto simp: php_shl_def is_i64_def[of 0] split: if_splits) (simp add: wrapping_shl_def)

lemma tint_shl_sound:
  assumes "tint_wf a" "tint_wf b" "shl_fits a b" "x \<in> gamma a" "y \<in> gamma b" "php_shl x y = Some z"
  shows "tint_wf (tint_shl a b) \<and> z \<in> gamma (tint_shl a b)"
proof -
  note c = php_shl_cases[OF assms(6)]
  show ?thesis
  proof (cases "is_of_literal_origin a \<and> is_of_literal_origin b")
    case True
    from literal_pair[OF conjunct1[OF this] conjunct2[OF this]] show ?thesis
      using assms c
      by (elim disjE exE conjE) (auto simp: tint_shl_def is_i64_def as_u32_small split: if_splits)
  next
    case False
    then have fit: "\<forall>x \<in> gamma a. \<forall>y \<in> gamma b. 0 \<le> y \<longrightarrow> y < 64 \<longrightarrow> is_i64 (x * 2 ^ nat y)"
      using assms(3) by (auto simp: shl_fits_def elim!: is_literal_cases)
    have z: "y < 64 \<Longrightarrow> z = x * 2 ^ nat y"
      using c(1,3) fit assms(4,5) wrapping_shl_exact by auto
    have r: "tint_wf (shl_by_range a b) \<and> z \<in> gamma (shl_by_range a b)"
      using shl_by_range_sound[OF assms(1,2) fit assms(4,5) c(2,1) z] .
    show ?thesis
    proof (cases "a = Literal 0")
      case True
      then show ?thesis using assms(4) c(4) by (simp add: tint_shl_def is_i64_def)
    next
      case nz: False
      show ?thesis
      proof (cases b)
        case (Literal s)
        then have y: "y = s" using assms(5) by simp
        have "tint_wf (shl_by_literal a (nat s)) \<and> z \<in> gamma (shl_by_literal a (nat s))"
          if "1 \<le> s" "s < 64"
          using shl_by_literal_sound[of a "nat s" x] assms(1,4,5) fit that Literal z y by auto
        then show ?thesis
          unfolding tint_shl_other[OF False] using r z assms(1,4) nz Literal y
          by (auto simp: as_u32_small)
      qed (use r nz False in \<open>auto simp: tint_shl_other\<close>)
    qed
  qed
qed

lemma shl_by_range_wf:
  assumes "tint_wf a" "tint_wf b" "shl_fits a b"
    "\<not> (is_of_literal_origin a \<and> is_of_literal_origin b)"
  shows "tint_wf (shl_by_range a b)"
proof (cases "known_non_negative b")
  case True
  have fit: "\<forall>x \<in> gamma a. \<forall>y \<in> gamma b. 0 \<le> y \<longrightarrow> y < 64 \<longrightarrow> is_i64 (x * 2 ^ nat y)"
    using assms(3,4) by (auto simp: shl_fits_def elim!: is_literal_cases)
  obtain x y where xy: "x \<in> gamma a" "y \<in> gamma b" using some_value assms(1,2) by blast
  have "is_i64 (if y < 64 then x * 2 ^ nat y else 0)"
    using fit xy known_non_negative[OF True xy(2)] by (auto simp: is_i64_def[of 0])
  from shl_by_range_sound[OF assms(1,2) fit xy this known_non_negative[OF True xy(2)]]
  show ?thesis by simp
qed (auto simp: shl_by_range_def)

lemma tint_shl_wf:
  assumes "tint_wf a" "tint_wf b" "shl_fits a b"
  shows "tint_wf (tint_shl a b)"
proof (cases "is_of_literal_origin a \<and> is_of_literal_origin b")
  case True
  from literal_pair[OF conjunct1[OF this] conjunct2[OF this]] show ?thesis
    by (elim disjE exE conjE) (auto simp: tint_shl_def is_i64_def[of 0])
next
  case False
  obtain x where x: "x \<in> gamma a" using some_value assms(1) by blast
  show ?thesis
  proof (cases b)
    case (Literal s)
    have "tint_wf (shl_by_literal a (nat s))" if "1 \<le> s" "s < 64"
      using shl_by_literal_sound[of a "nat s" x] assms x that Literal False
      by (auto simp: shl_fits_def elim!: is_literal_cases)
    then show ?thesis
      unfolding tint_shl_other[OF False] using shl_by_range_wf[OF assms False] assms(1) Literal
      by (auto simp: as_u32_small is_i64_def[of 0])
  qed (use shl_by_range_wf[OF assms False] False in \<open>auto simp: tint_shl_other is_i64_def[of 0]\<close>)
qed

interpretation left_shift: sound_operation php_shl "\<lambda>a b. Some (tint_shl a b)" shl_fits
  by unfold_locales (use tint_shl_wf tint_shl_sound in auto)

lemma bitwise_wf:
  assumes "tint_wf a" "tint_wf b"
  shows "tint_wf (tint_and a b)" "tint_wf (tint_or a b)" "tint_wf (tint_xor a b)"
proof -
  obtain x y where xy: "x \<in> gamma a" "y \<in> gamma b" using some_value assms by blast
  show "tint_wf (tint_and a b)" "tint_wf (tint_or a b)" "tint_wf (tint_xor a b)"
    using tint_and_sound[OF assms xy] tint_or_sound[OF assms xy] tint_xor_sound[OF assms xy]
    by simp_all
qed

interpretation bit_and: sound_operation
  "\<lambda>x y. Some (x AND y)" "\<lambda>a b. Some (tint_and a b)" "\<lambda>a b. True"
  by unfold_locales (auto simp: bitwise_wf tint_and_sound)

interpretation bit_or: sound_operation
  "\<lambda>x y. Some (x OR y)" "\<lambda>a b. Some (tint_or a b)" "\<lambda>a b. True"
  by unfold_locales (auto simp: bitwise_wf tint_or_sound)

interpretation bit_xor: sound_operation
  "\<lambda>x y. Some (x XOR y)" "\<lambda>a b. Some (tint_xor a b)" "\<lambda>a b. True"
  by unfold_locales (auto simp: bitwise_wf tint_xor_sound)

section \<open>The dispatch over the operators\<close>

text \<open>
  The integer PHP computes, where it computes one: \<open>/\<close> gives an integer only for an exact
  quotient, \<open>**\<close> only for a non-negative exponent, and a result beyond \<open>i64\<close> is a float.
\<close>

definition php_arithmetic :: "int_operator \<Rightarrow> int \<Rightarrow> int \<Rightarrow> int option" where
  "php_arithmetic op x y = (case op of
     Addition \<Rightarrow> int_result (x + y)
   | Subtraction \<Rightarrow> int_result (x - y)
   | Multiplication \<Rightarrow> int_result (x * y)
   | Modulo \<Rightarrow> php_mod x y
   | BitwiseAnd \<Rightarrow> Some (x AND y)
   | BitwiseOr \<Rightarrow> Some (x OR y)
   | BitwiseXor \<Rightarrow> Some (x XOR y)
   | LeftShift \<Rightarrow> php_shl x y
   | RightShift \<Rightarrow> php_shr x y
   | Division \<Rightarrow> if y \<noteq> 0 \<and> x smod y = 0 then int_result (x sdiv y) else None
   | Exponentiation \<Rightarrow> if y < 0 then None else int_result (x ^ nat y)
   | OtherOperator \<Rightarrow> None)"

text \<open>The operands on which the contract of an operator holds.\<close>

definition operands_ok :: "int_operator \<Rightarrow> tinteger \<Rightarrow> tinteger \<Rightarrow> bool" where
  "operands_ok op a b = (case op of
     Modulo \<Rightarrow> i64_min \<notin> gamma b
   | LeftShift \<Rightarrow> shl_fits a b
   | RightShift \<Rightarrow> shr_fits b
   | _ \<Rightarrow> True)"

lemma division_literal:
  assumes "int_arithmetic Division a b = Some (Some c)" "tint_wf a" "tint_wf b"
  shows "tint_wf c" "x \<in> gamma a \<Longrightarrow> y \<in> gamma b \<Longrightarrow> php_arithmetic Division x y = Some z \<Longrightarrow> z \<in> gamma c"
  using assms
  by (cases a; cases b;
      auto simp: int_arithmetic_def php_arithmetic_def rem_step rust_div_Some sdiv_i64 is_i64_def[of z]
        int_result_def split: if_splits)+

lemma exponentiation_literal:
  assumes "int_arithmetic Exponentiation a b = Some (Some c)" "tint_wf a" "tint_wf b"
  shows "tint_wf c"
    "x \<in> gamma a \<Longrightarrow> y \<in> gamma b \<Longrightarrow> php_arithmetic Exponentiation x y = Some z \<Longrightarrow> z \<in> gamma c"
  using assms
  by (cases a; cases b;
      auto simp: int_arithmetic_def php_arithmetic_def checked_pow_def Let_def is_i64_def[of z]
        int_result_def split: if_splits option.splits)+

text \<open>Every operator keeps the contract, by the interpretations above.\<close>

lemma int_arithmetic_result:
  "int_arithmetic Addition a b = Some (Some c) \<longleftrightarrow> Some (tint_add a b) = Some c"
  "int_arithmetic Subtraction a b = Some (Some c) \<longleftrightarrow> Some (tint_sub a b) = Some c"
  "int_arithmetic Multiplication a b = Some (Some c) \<longleftrightarrow> Some (tint_mul a b) = Some c"
  "int_arithmetic Modulo a b = Some (Some c) \<longleftrightarrow> tint_rem a b = Some c"
  "int_arithmetic BitwiseAnd a b = Some (Some c) \<longleftrightarrow> Some (tint_and a b) = Some c"
  "int_arithmetic BitwiseOr a b = Some (Some c) \<longleftrightarrow> Some (tint_or a b) = Some c"
  "int_arithmetic BitwiseXor a b = Some (Some c) \<longleftrightarrow> Some (tint_xor a b) = Some c"
  "int_arithmetic LeftShift a b = Some (Some c) \<longleftrightarrow> Some (tint_shl a b) = Some c"
  "int_arithmetic RightShift a b = Some (Some c) \<longleftrightarrow> Some (tint_shr a b) = Some c"
  "int_arithmetic OtherOperator a b = Some (Some c) \<longleftrightarrow> False"
  by (auto simp: int_arithmetic_def)

lemma operator_wf:
  assumes r: "int_arithmetic op a b = Some (Some c)" and wf: "tint_wf a" "tint_wf b"
    and ok: "operands_ok op a b"
  shows "tint_wf c"
proof (cases op)
  case Modulo
  show ?thesis
    by (rule remainder.wf[OF wf]) (use r ok Modulo in \<open>simp_all add: int_arithmetic_result operands_ok_def\<close>)
next
  case LeftShift
  show ?thesis
    by (rule left_shift.wf[OF wf]) (use r ok LeftShift in \<open>simp_all add: int_arithmetic_result operands_ok_def\<close>)
next
  case RightShift
  show ?thesis
    by (rule right_shift.wf[OF wf]) (use r ok RightShift in \<open>simp_all add: int_arithmetic_result operands_ok_def\<close>)
next
  case Division
  then show ?thesis using division_literal(1)[OF _ wf] r by simp
next
  case Exponentiation
  then show ?thesis using exponentiation_literal(1)[OF _ wf] r by simp
qed (use r wf in \<open>auto simp: int_arithmetic_result tint_add_wf tint_sub_wf tint_mul_wf bitwise_wf\<close>)

lemma operator_sound:
  assumes r: "int_arithmetic op a b = Some (Some c)" and wf: "tint_wf a" "tint_wf b"
    and ok: "operands_ok op a b"
    and v: "x \<in> gamma a" "y \<in> gamma b" "php_arithmetic op x y = Some z"
  shows "z \<in> gamma c"
proof (cases op)
  case Addition
  show ?thesis
    by (rule addition.sound[OF wf TrueI _ v(1,2)])
       (use r v(3) Addition in \<open>simp_all add: int_arithmetic_result php_arithmetic_def\<close>)
next
  case Subtraction
  show ?thesis
    by (rule subtraction.sound[OF wf TrueI _ v(1,2)])
       (use r v(3) Subtraction in \<open>simp_all add: int_arithmetic_result php_arithmetic_def\<close>)
next
  case Multiplication
  show ?thesis
    by (rule multiplication.sound[OF wf TrueI _ v(1,2)])
       (use r v(3) Multiplication in \<open>simp_all add: int_arithmetic_result php_arithmetic_def\<close>)
next
  case Modulo
  show ?thesis
    by (rule remainder.sound[OF wf _ _ v(1,2)])
       (use r v(3) ok Modulo in \<open>simp_all add: int_arithmetic_result php_arithmetic_def operands_ok_def\<close>)
next
  case BitwiseAnd
  then show ?thesis using r v(3) tint_and_sound[OF wf v(1,2)]
    by (auto simp: int_arithmetic_result php_arithmetic_def)
next
  case BitwiseOr
  then show ?thesis using r v(3) tint_or_sound[OF wf v(1,2)]
    by (auto simp: int_arithmetic_result php_arithmetic_def)
next
  case BitwiseXor
  then show ?thesis using r v(3) tint_xor_sound[OF wf v(1,2)]
    by (auto simp: int_arithmetic_result php_arithmetic_def)
next
  case LeftShift
  show ?thesis
    by (rule left_shift.sound[OF wf _ _ v(1,2)])
       (use r v(3) ok LeftShift in \<open>simp_all add: int_arithmetic_result php_arithmetic_def operands_ok_def\<close>)
next
  case RightShift
  show ?thesis
    by (rule right_shift.sound[OF wf _ _ v(1,2)])
       (use r v(3) ok RightShift in \<open>simp_all add: int_arithmetic_result php_arithmetic_def operands_ok_def\<close>)
next
  case Division
  then show ?thesis using division_literal(2)[OF _ wf v(1,2)] r v(3) by simp
next
  case Exponentiation
  then show ?thesis using exponentiation_literal(2)[OF _ wf v(1,2)] r v(3) by simp
next
  case OtherOperator
  then show ?thesis using r by (simp add: int_arithmetic_result)
qed

text \<open>Every operator keeps the contract, by the interpretations above.\<close>

interpretation operator: sound_operation
  "php_arithmetic op" "\<lambda>a b. Option.bind (int_arithmetic op a b) id" "operands_ok op" for op
  by unfold_locales (auto simp: bind_eq_Some_conv intro: operator_wf operator_sound)

lemma calculate_result:
  "calculate_int_arithmetic op a b = Some (Some t) \<longleftrightarrow>
     int_arithmetic op a b = Some (Some t) \<and> t \<noteq> Unspecified"
  by (auto simp: calculate_int_arithmetic_def split: option.splits)

section \<open>Properties\<close>

text \<open>C2. Whenever the analyzer gives a type for an arithmetic operator on two integer types, the
  type is well formed and contains the integer PHP computes from any two values of the operand
  types, for all eleven operators; \<open>operands_ok\<close> excludes a divisor of \<open>%\<close> with the
  smallest integer, left shifts that overflow and shift distances beyond \<open>u32\<close>.\<close>

theorem arithmetic_sound:
  assumes "calculate_int_arithmetic op a b = Some (Some t)" "tint_wf a" "tint_wf b"
    "operands_ok op a b" "x \<in> gamma a" "y \<in> gamma b" "php_arithmetic op x y = Some z"
  shows "tint_wf t \<and> z \<in> gamma t"
proof -
  have r: "Option.bind (int_arithmetic op a b) id = Some t" using assms(1) by (simp add: calculate_result)
  show ?thesis using operator.wf[OF assms(2-4) r] operator.sound[OF assms(2-4) r assms(5-7)] ..
qed

theorem arithmetic_sound_witness:
  "calculate_int_arithmetic Multiplication (Range (-3) 4) (Range (-5) 2) = Some (Some (Range (-20) 15)) \<and>
   (15::int) \<in> gamma (Range (-20) 15)"
proof -
  have c: "calculate_int_arithmetic Multiplication (Range (-3) 4) (Range (-5) 2) =
      Some (Some (Range (-20) 15))"
    by (simp add: calculate_int_arithmetic_def int_arithmetic_def tint_mul_def saturation)
  show ?thesis
    using arithmetic_sound[OF c, of "-3" "-5" 15] c
    by (simp add: is_i64_def operands_ok_def php_arithmetic_def int_result_def)
qed

text \<open>Applied to all pairs of members of two unions and combined, the results still contain
  every integer PHP computes.\<close>

theorem arithmetic_sound_on_unions:
  assumes "\<forall>a \<in> set as. tint_wf a" "\<forall>b \<in> set bs. tint_wf b"
    "\<forall>a \<in> set as. \<forall>b \<in> set bs. operands_ok op a b"
    "\<forall>a \<in> set as. \<forall>b \<in> set bs. \<exists>c \<in> set cs. int_arithmetic op a b = Some (Some c)"
    "\<forall>c \<in> set cs. \<exists>a \<in> set as. \<exists>b \<in> set bs. int_arithmetic op a b = Some (Some c)"
    "x \<in> gammas as" "y \<in> gammas bs" "php_arithmetic op x y = Some z"
  shows "z \<in> gammas (tint_combine cs) \<and> (\<forall>c \<in> set (tint_combine cs). tint_wf c)"
proof -
  have e: "Option.bind (int_arithmetic op a b) id = Some c \<longleftrightarrow> int_arithmetic op a b = Some (Some c)"
    for a b c by (auto simp: bind_eq_Some_conv)
  note u = operator.sound_on_unions[of "as" bs op cs x y z, unfolded e, OF assms]
  from u show ?thesis by blast
qed

theorem arithmetic_sound_on_unions_witness:
  "(9::int) \<in> gammas (tint_combine [Range 3 5, Literal 9])"
  using arithmetic_sound_on_unions[of "[Range 1 3, Literal 7]" "[Literal 2]" Addition
      "[Range 3 5, Literal 9]" 7 2 9]
  by (simp add: is_i64_def operands_ok_def int_arithmetic_def tint_add_def saturation
      php_arithmetic_def int_result_def)

text \<open>C37. The analyzer returns from every operator unless it is given the smallest integer: as a
  divisor of \<open>%\<close>, or as a literal dividend of \<open>/\<close> by \<open>-1\<close>. There it does panic: the
  remainder it takes to test for an exact quotient overflows.\<close>

theorem arithmetic_total_except_min:
  assumes "tint_wf a" "tint_wf b" "op = Modulo \<Longrightarrow> i64_min \<notin> gamma b"
    "op = Division \<Longrightarrow> \<not> (a = Literal i64_min \<and> b = Literal (-1))"
  shows "(\<exists>r. calculate_int_arithmetic op a b = Some r) \<and>
    calculate_int_arithmetic Division (Literal i64_min) (Literal (-1)) = None"
proof -
  have "\<exists>r. int_arithmetic op a b = Some r"
  proof (cases op)
    case Modulo
    then show ?thesis using tint_rem_total[OF assms(1,2)] assms(3) by (auto simp: int_arithmetic_def)
  next
    case Division
    then show ?thesis using assms(4)
      by (cases a; cases b) (auto simp: int_arithmetic_def rust_rem_def rust_div_def)
  next
    case Exponentiation
    then show ?thesis
      by (cases a; cases b) (auto simp: int_arithmetic_def split: option.splits)
  qed (auto simp: int_arithmetic_def)
  then have "\<exists>r. calculate_int_arithmetic op a b = Some r"
    by (auto simp: calculate_int_arithmetic_def split: option.splits)
  moreover have "calculate_int_arithmetic Division (Literal i64_min) (Literal (-1)) = None"
    by (simp add: calculate_int_arithmetic_def int_arithmetic_def rust_rem_def)
  ultimately show ?thesis ..
qed

theorem arithmetic_total_except_min_witness:
  "\<exists>r. calculate_int_arithmetic Modulo (Range 0 9) (Literal 7) = Some r"
  using arithmetic_total_except_min[of "Range 0 9" "Literal 7" Modulo] by (simp add: is_i64_def)

text \<open>Division of integer types contains every quotient, rounded towards zero, by a non-zero
  value of the divisor, and panics only when both the smallest dividend and the divisor
  \<open>-1\<close> are possible.\<close>

theorem division_sound_and_total:
  assumes "tint_wf a" "tint_wf b" "i64_min \<notin> gamma a \<or> -1 \<notin> gamma b"
  shows "\<exists>c. tint_div a b = Some c \<and> tint_wf c \<and>
    (\<forall>x \<in> gamma a. \<forall>y \<in> gamma b. y \<noteq> 0 \<longrightarrow> x sdiv y \<in> gamma c)"
proof -
  obtain c where c: "tint_div a b = Some c" using tint_div_total[OF assms] by blast
  have "x sdiv y \<in> gamma c" if v: "x \<in> gamma a" "y \<in> gamma b" "y \<noteq> 0" for x y
  proof -
    have "is_i64 (x sdiv y)" using sdiv_i64[of x y] gamma_is_i64[OF assms(1)] v assms(3) by blast
    then show ?thesis
      using division.sound[OF assms(1,2) TrueI c v(1,2)] v(3) by (simp add: php_intdiv_def int_result_def)
  qed
  then show ?thesis using c division.wf[OF assms(1,2) TrueI c] by blast
qed

theorem division_sound_and_total_witness:
  "tint_div (Range (-7) 9) (Literal 2) = Some (Range (-3) 4) \<and> (-7::int) sdiv 2 \<in> gamma (Range (-3) 4)"
  using division_sound_and_total[of "Range (-7) 9" "Literal 2"]
  by (auto simp: tint_div_def rust_div_def is_i64_def)

text \<open>The operands the contract excludes are handled wrongly: a left shift of a half-open range
  forgets that its values can overflow, a shift distance of \<open>2^32\<close> is cast to zero, and the
  remainder by a range from the smallest integer misses the remainder of the largest one.\<close>

theorem arithmetic_unsound_cases:
  "tint_shl (From 1) (Literal 1) = From 2 \<and> php_shl (2 ^ 62) 1 = Some i64_min \<and>
     (2 ^ 62 :: int) \<in> gamma (From 1) \<and> i64_min \<notin> gamma (From 2) \<and>
   tint_shr (Literal 5) (Range 0 (2 ^ 32)) = Literal 5 \<and> php_shr 5 3 = Some 0 \<and>
   tint_rem Unspecified (Range i64_min (-5)) = Some (Range (i64_min + 1) (i64_max - 1)) \<and>
     php_mod i64_max i64_min = Some i64_max"
  by (simp add: tint_shl_def shl_by_literal_def checked_shl_def wrapping_shl_def as_u32_def php_shl_def
      tint_shr_def shr_by_range_def known_non_negative_def php_shr_def tint_rem_def rem_unspecified_def
      saturation php_mod_def int_result_def is_i64_def push_bit_eq_mult drop_bit_eq_div
      signed_take_bit_int_eq_self_iff)

end
