(* ===== verification/Php_Version.thy ===== *)
theory Php_Version
  imports Decimal
begin

unbundle bit_operations_syntax

text \<open>
  PHP versions (crate \<open>php-version\<close>): the packed representation of a version, its components and
  order, version ranges, the table of features with the versions that support or deprecate
  them, and the textual form. The lemmas show packing and unpacking inverse on components in
  range, the order of packed versions lexicographic, printing and parsing inverse, and the
  features supported on an interval of versions.
\<close>

section \<open>Versions\<close>

datatype php_version = PHPVersion (to_version_id: u32)

definition pack :: "u32 \<Rightarrow> u32 \<Rightarrow> u32 \<Rightarrow> u32" where
  "pack major minor patch = (push_bit 16 major OR push_bit 8 minor) OR patch"

definition version_new :: "u32 \<Rightarrow> u32 \<Rightarrow> u32 \<Rightarrow> php_version" where
  "version_new major minor patch = PHPVersion (pack major minor patch)"

definition from_version_id :: "u32 \<Rightarrow> php_version" where
  "from_version_id version_id = PHPVersion version_id"

definition version_major :: "php_version \<Rightarrow> u32" where
  "version_major self = drop_bit 16 (to_version_id self)"

definition version_minor :: "php_version \<Rightarrow> u32" where
  "version_minor self = drop_bit 8 (to_version_id self) AND 0xff"

definition version_patch :: "php_version \<Rightarrow> u32" where
  "version_patch self = to_version_id self AND 0xff"

definition is_at_least :: "php_version \<Rightarrow> u32 \<Rightarrow> u32 \<Rightarrow> u32 \<Rightarrow> bool" where
  "is_at_least self major minor patch \<longleftrightarrow> to_version_id self \<ge> pack major minor patch"

text \<open>The named versions, and the order of the source: that of the packed numbers.\<close>

definition PHP70 :: php_version where "PHP70 = version_new 7 0 0"
definition PHP71 :: php_version where "PHP71 = version_new 7 1 0"
definition PHP72 :: php_version where "PHP72 = version_new 7 2 0"
definition PHP73 :: php_version where "PHP73 = version_new 7 3 0"
definition PHP74 :: php_version where "PHP74 = version_new 7 4 0"
definition PHP80 :: php_version where "PHP80 = version_new 8 0 0"
definition PHP81 :: php_version where "PHP81 = version_new 8 1 0"
definition PHP82 :: php_version where "PHP82 = version_new 8 2 0"
definition PHP83 :: php_version where "PHP83 = version_new 8 3 0"
definition PHP84 :: php_version where "PHP84 = version_new 8 4 0"
definition PHP85 :: php_version where "PHP85 = version_new 8 5 0"
definition PHP86 :: php_version where "PHP86 = version_new 8 6 0"
definition LATEST :: php_version where "LATEST = PHP85"
definition NEXT :: php_version where "NEXT = PHP86"

instantiation php_version :: linorder
begin

definition less_eq_php_version :: "php_version \<Rightarrow> php_version \<Rightarrow> bool" where
  "less_eq_php_version a b \<longleftrightarrow> to_version_id a \<le> to_version_id b"

definition less_php_version :: "php_version \<Rightarrow> php_version \<Rightarrow> bool" where
  "less_php_version a b \<longleftrightarrow> to_version_id a < to_version_id b"

instance
  by standard (auto simp: less_eq_php_version_def less_php_version_def php_version.expand)

end

section \<open>Ranges\<close>

record version_range =
  range_min :: "php_version option"
  range_max :: "php_version option"

definition range_any :: version_range where
  "range_any = \<lparr>range_min = None, range_max = None\<rparr>"

definition range_until :: "php_version \<Rightarrow> version_range" where
  "range_until version = \<lparr>range_min = None, range_max = Some version\<rparr>"

definition range_from :: "php_version \<Rightarrow> version_range" where
  "range_from version = \<lparr>range_min = Some version, range_max = None\<rparr>"

definition range_between :: "php_version \<Rightarrow> php_version \<Rightarrow> version_range" where
  "range_between lo hi = \<lparr>range_min = Some lo, range_max = Some hi\<rparr>"

definition PHP7 :: version_range where
  "PHP7 = range_between (version_new 7 0 0) (version_new 7 99 99)"

definition PHP8 :: version_range where
  "PHP8 = range_between (version_new 8 0 0) (version_new 8 99 99)"

definition range_includes :: "version_range \<Rightarrow> php_version \<Rightarrow> bool" where
  "range_includes self version =
     (if (case range_min self of Some lo \<Rightarrow> to_version_id version < to_version_id lo | None \<Rightarrow> False)
      then False
      else if (case range_max self of Some hi \<Rightarrow> to_version_id version > to_version_id hi | None \<Rightarrow> False)
      then False
      else True)"

section \<open>Features\<close>

text \<open>
  The enumeration of features is represented by its discriminants: the variants of the source
  in their order.
\<close>

datatype feature = Feature (discriminant: nat)

abbreviation ShortOpenTag :: feature where "ShortOpenTag \<equiv> Feature 0"
abbreviation NullCoalesceAssign :: feature where "NullCoalesceAssign \<equiv> Feature 1"
abbreviation ParameterContravariance :: feature where "ParameterContravariance \<equiv> Feature 2"
abbreviation ReturnCovariance :: feature where "ReturnCovariance \<equiv> Feature 3"
abbreviation PregUnmatchedAsNull :: feature where "PregUnmatchedAsNull \<equiv> Feature 4"
abbreviation NonCapturingCatches :: feature where "NonCapturingCatches \<equiv> Feature 5"
abbreviation NativeUnionTypes :: feature where "NativeUnionTypes \<equiv> Feature 6"
abbreviation RequiredParameterAfterOptional :: feature where "RequiredParameterAfterOptional \<equiv> Feature 7"
abbreviation LessOverriddenParametersWithVariadic :: feature where "LessOverriddenParametersWithVariadic \<equiv> Feature 8"
abbreviation ThrowExpression :: feature where "ThrowExpression \<equiv> Feature 9"
abbreviation ClassConstantOnExpression :: feature where "ClassConstantOnExpression \<equiv> Feature 10"
abbreviation PromotedProperties :: feature where "PromotedProperties \<equiv> Feature 11"
abbreviation NamedArguments :: feature where "NamedArguments \<equiv> Feature 12"
abbreviation ThrowsTypeErrorForInternalFunctions :: feature where "ThrowsTypeErrorForInternalFunctions \<equiv> Feature 13"
abbreviation ThrowsValueErrorForInternalFunctions :: feature where "ThrowsValueErrorForInternalFunctions \<equiv> Feature 14"
abbreviation HHPrintfSpecifier :: feature where "HHPrintfSpecifier \<equiv> Feature 15"
abbreviation StricterRoundFunctions :: feature where "StricterRoundFunctions \<equiv> Feature 16"
abbreviation ThrowsOnInvalidMbStringEncoding :: feature where "ThrowsOnInvalidMbStringEncoding \<equiv> Feature 17"
abbreviation WarnsAboutFinalPrivateMethods :: feature where "WarnsAboutFinalPrivateMethods \<equiv> Feature 18"
abbreviation CallableInstanceMethods :: feature where "CallableInstanceMethods \<equiv> Feature 19"
abbreviation LegacyConstructor :: feature where "LegacyConstructor \<equiv> Feature 20"
abbreviation UnsetCast :: feature where "UnsetCast \<equiv> Feature 21"
abbreviation CaseInsensitiveConstantNames :: feature where "CaseInsensitiveConstantNames \<equiv> Feature 22"
abbreviation InterfaceConstantImplicitlyFinal :: feature where "InterfaceConstantImplicitlyFinal \<equiv> Feature 23"
abbreviation ArrayFunctionsReturnNullWithNonArray :: feature where "ArrayFunctionsReturnNullWithNonArray \<equiv> Feature 24"
abbreviation SubstrReturnFalseInsteadOfEmptyString :: feature where "SubstrReturnFalseInsteadOfEmptyString \<equiv> Feature 25"
abbreviation CurlUrlOptionCheckingFileSchemeWithOpenBasedir :: feature where "CurlUrlOptionCheckingFileSchemeWithOpenBasedir \<equiv> Feature 26"
abbreviation EmptyStringValidAliasForNoneInMbSubstituteCharacter :: feature where "EmptyStringValidAliasForNoneInMbSubstituteCharacter \<equiv> Feature 27"
abbreviation NumericStringValidArgInMbSubstituteCharacter :: feature where "NumericStringValidArgInMbSubstituteCharacter \<equiv> Feature 28"
abbreviation ParameterTypeWidening :: feature where "ParameterTypeWidening \<equiv> Feature 29"
abbreviation AllUnicodeScalarCodePointsInMbSubstituteCharacter :: feature where "AllUnicodeScalarCodePointsInMbSubstituteCharacter \<equiv> Feature 30"
abbreviation PassNoneEncodings :: feature where "PassNoneEncodings \<equiv> Feature 31"
abbreviation RequiredParameterAfterOptionalNullableAndDefaultNull :: feature where "RequiredParameterAfterOptionalNullableAndDefaultNull \<equiv> Feature 32"
abbreviation FinalConstants :: feature where "FinalConstants \<equiv> Feature 33"
abbreviation ReadonlyProperties :: feature where "ReadonlyProperties \<equiv> Feature 34"
abbreviation Enums :: feature where "Enums \<equiv> Feature 35"
abbreviation PureIntersectionTypes :: feature where "PureIntersectionTypes \<equiv> Feature 36"
abbreviation TentativeReturnTypes :: feature where "TentativeReturnTypes \<equiv> Feature 37"
abbreviation ClosureCreation :: feature where "ClosureCreation \<equiv> Feature 38"
abbreviation ArrayUnpackingWithStringKeys :: feature where "ArrayUnpackingWithStringKeys \<equiv> Feature 39"
abbreviation SerializableRequiresMagicMethods :: feature where "SerializableRequiresMagicMethods \<equiv> Feature 40"
abbreviation DynamicProperties :: feature where "DynamicProperties \<equiv> Feature 41"
abbreviation StrSplitReturnsEmptyArray :: feature where "StrSplitReturnsEmptyArray \<equiv> Feature 42"
abbreviation DisjunctiveNormalForm :: feature where "DisjunctiveNormalForm \<equiv> Feature 43"
abbreviation ReadonlyClasses :: feature where "ReadonlyClasses \<equiv> Feature 44"
abbreviation NeverReturnTypeInArrowFunction :: feature where "NeverReturnTypeInArrowFunction \<equiv> Feature 45"
abbreviation PregCaptureOnlyNamedGroups :: feature where "PregCaptureOnlyNamedGroups \<equiv> Feature 46"
abbreviation ConstantsInTraits :: feature where "ConstantsInTraits \<equiv> Feature 47"
abbreviation AsymmetricVisibility :: feature where "AsymmetricVisibility \<equiv> Feature 48"
abbreviation LazyObjects :: feature where "LazyObjects \<equiv> Feature 49"
abbreviation RequiredParameterAfterOptionalUnionOrMixed :: feature where "RequiredParameterAfterOptionalUnionOrMixed \<equiv> Feature 50"
abbreviation DateTimeExceptions :: feature where "DateTimeExceptions \<equiv> Feature 51"
abbreviation TypedClassLikeConstants :: feature where "TypedClassLikeConstants \<equiv> Feature 52"
abbreviation TypedProperties :: feature where "TypedProperties \<equiv> Feature 53"
abbreviation OverrideAttribute :: feature where "OverrideAttribute \<equiv> Feature 54"
abbreviation DynamicClassConstantAccess :: feature where "DynamicClassConstantAccess \<equiv> Feature 55"
abbreviation ReadonlyAnonymousClasses :: feature where "ReadonlyAnonymousClasses \<equiv> Feature 56"
abbreviation ReadonlyPropertyReinitializationInClone :: feature where "ReadonlyPropertyReinitializationInClone \<equiv> Feature 57"
abbreviation CastsNumbersToStringsOnLooseComparison :: feature where "CastsNumbersToStringsOnLooseComparison \<equiv> Feature 58"
abbreviation NonNumericStringAndIntegerIsFalseOnLooseComparison :: feature where "NonNumericStringAndIntegerIsFalseOnLooseComparison \<equiv> Feature 59"
abbreviation AbstractTraitMethods :: feature where "AbstractTraitMethods \<equiv> Feature 60"
abbreviation ImplicitlyNullableParameterTypes :: feature where "ImplicitlyNullableParameterTypes \<equiv> Feature 61"
abbreviation HighlightStringDoesNotReturnFalse :: feature where "HighlightStringDoesNotReturnFalse \<equiv> Feature 62"
abbreviation PropertyHooks :: feature where "PropertyHooks \<equiv> Feature 63"
abbreviation JsonValidate :: feature where "JsonValidate \<equiv> Feature 64"
abbreviation ClosureInConstantExpressions :: feature where "ClosureInConstantExpressions \<equiv> Feature 65"
abbreviation ArrowFunctions :: feature where "ArrowFunctions \<equiv> Feature 66"
abbreviation TrueTypeHint :: feature where "TrueTypeHint \<equiv> Feature 67"
abbreviation FalseTypeHint :: feature where "FalseTypeHint \<equiv> Feature 68"
abbreviation FalseCompoundTypeHint :: feature where "FalseCompoundTypeHint \<equiv> Feature 69"
abbreviation NullTypeHint :: feature where "NullTypeHint \<equiv> Feature 70"
abbreviation NullCompoundTypeHint :: feature where "NullCompoundTypeHint \<equiv> Feature 71"
abbreviation NullableTypeHint :: feature where "NullableTypeHint \<equiv> Feature 72"
abbreviation IterableTypeHint :: feature where "IterableTypeHint \<equiv> Feature 73"
abbreviation VoidTypeHint :: feature where "VoidTypeHint \<equiv> Feature 74"
abbreviation MixedTypeHint :: feature where "MixedTypeHint \<equiv> Feature 75"
abbreviation NeverTypeHint :: feature where "NeverTypeHint \<equiv> Feature 76"
abbreviation StaticReturnTypeHint :: feature where "StaticReturnTypeHint \<equiv> Feature 77"
abbreviation NewWithoutParentheses :: feature where "NewWithoutParentheses \<equiv> Feature 78"
abbreviation ClassLikeConstantVisibilityModifiers :: feature where "ClassLikeConstantVisibilityModifiers \<equiv> Feature 79"
abbreviation ListReferenceAssignment :: feature where "ListReferenceAssignment \<equiv> Feature 80"
abbreviation NumericLiteralSeparator :: feature where "NumericLiteralSeparator \<equiv> Feature 81"
abbreviation AccessClassOnObject :: feature where "AccessClassOnObject \<equiv> Feature 82"
abbreviation Attributes :: feature where "Attributes \<equiv> Feature 83"
abbreviation MatchExpression :: feature where "MatchExpression \<equiv> Feature 84"
abbreviation NullSafeOperator :: feature where "NullSafeOperator \<equiv> Feature 85"
abbreviation TrailingCommaInListSyntax :: feature where "TrailingCommaInListSyntax \<equiv> Feature 86"
abbreviation TrailingCommaInFunctionCalls :: feature where "TrailingCommaInFunctionCalls \<equiv> Feature 87"
abbreviation TrailingCommaInClosureUseList :: feature where "TrailingCommaInClosureUseList \<equiv> Feature 88"
abbreviation TrailingCommaInParameterList :: feature where "TrailingCommaInParameterList \<equiv> Feature 89"
abbreviation NewInInitializers :: feature where "NewInInitializers \<equiv> Feature 90"
abbreviation ConstantAttributes :: feature where "ConstantAttributes \<equiv> Feature 91"
abbreviation CallStaticMethodOnTrait :: feature where "CallStaticMethodOnTrait \<equiv> Feature 92"
abbreviation CatchOptionalVariable :: feature where "CatchOptionalVariable \<equiv> Feature 93"
abbreviation CatchUnionType :: feature where "CatchUnionType \<equiv> Feature 94"
abbreviation VoidCast :: feature where "VoidCast \<equiv> Feature 95"
abbreviation NoDiscardAttribute :: feature where "NoDiscardAttribute \<equiv> Feature 96"
abbreviation AsymmetricVisibilityForStaticProperties :: feature where "AsymmetricVisibilityForStaticProperties \<equiv> Feature 97"
abbreviation ClosureCreationInConstantExpressions :: feature where "ClosureCreationInConstantExpressions \<equiv> Feature 98"
abbreviation DeprecatedAttribute :: feature where "DeprecatedAttribute \<equiv> Feature 99"
abbreviation PipeOperator :: feature where "PipeOperator \<equiv> Feature 100"
abbreviation CloneWith :: feature where "CloneWith \<equiv> Feature 101"
abbreviation PartialFunctionApplication :: feature where "PartialFunctionApplication \<equiv> Feature 102"
abbreviation SwitchSemicolonSeparators :: feature where "SwitchSemicolonSeparators \<equiv> Feature 103"

definition is_supported :: "php_version \<Rightarrow> feature \<Rightarrow> bool" where
  "is_supported self feature =
    (if feature \<in> {
          NullableTypeHint, IterableTypeHint, VoidTypeHint, ClassLikeConstantVisibilityModifiers,
          CatchUnionType}
      then to_version_id self \<ge> 0x070100
     else if feature \<in> {
          TrailingCommaInListSyntax, ParameterTypeWidening,
          AllUnicodeScalarCodePointsInMbSubstituteCharacter}
      then to_version_id self \<ge> 0x070200
     else if feature \<in> {
          ListReferenceAssignment, TrailingCommaInFunctionCalls}
      then to_version_id self \<ge> 0x070300
     else if feature \<in> {
          NullCoalesceAssign, ParameterContravariance, ReturnCovariance, PregUnmatchedAsNull,
          ArrowFunctions, NumericLiteralSeparator, TypedProperties}
      then to_version_id self \<ge> 0x070400
     else if feature \<in> {
          NonCapturingCatches, NativeUnionTypes, LessOverriddenParametersWithVariadic,
          ThrowExpression, ClassConstantOnExpression, PromotedProperties, NamedArguments,
          ThrowsTypeErrorForInternalFunctions, ThrowsValueErrorForInternalFunctions,
          HHPrintfSpecifier, StricterRoundFunctions, ThrowsOnInvalidMbStringEncoding,
          WarnsAboutFinalPrivateMethods, CastsNumbersToStringsOnLooseComparison,
          NonNumericStringAndIntegerIsFalseOnLooseComparison, AbstractTraitMethods,
          StaticReturnTypeHint, AccessClassOnObject, Attributes, MixedTypeHint, MatchExpression,
          NullSafeOperator, TrailingCommaInClosureUseList, TrailingCommaInParameterList,
          FalseCompoundTypeHint, NullCompoundTypeHint, CatchOptionalVariable}
      then to_version_id self \<ge> 0x080000
     else if feature \<in> {
          FinalConstants, ReadonlyProperties, Enums, PureIntersectionTypes, TentativeReturnTypes,
          NeverTypeHint, ClosureCreation, ArrayUnpackingWithStringKeys,
          SerializableRequiresMagicMethods}
      then to_version_id self \<ge> 0x080100
     else if feature \<in> {
          ConstantsInTraits, StrSplitReturnsEmptyArray, DisjunctiveNormalForm, ReadonlyClasses,
          NeverReturnTypeInArrowFunction, PregCaptureOnlyNamedGroups, TrueTypeHint,
          FalseTypeHint, NullTypeHint}
      then to_version_id self \<ge> 0x080200
     else if feature \<in> {
          JsonValidate, TypedClassLikeConstants, DateTimeExceptions, OverrideAttribute,
          DynamicClassConstantAccess, ReadonlyAnonymousClasses,
          ReadonlyPropertyReinitializationInClone}
      then to_version_id self \<ge> 0x080300
     else if feature \<in> {
          AsymmetricVisibility, LazyObjects, HighlightStringDoesNotReturnFalse, PropertyHooks,
          NewWithoutParentheses, DeprecatedAttribute}
      then to_version_id self \<ge> 0x080400
     else if feature \<in> {
          ClosureInConstantExpressions, ConstantAttributes, NoDiscardAttribute, VoidCast,
          CloneWith, AsymmetricVisibilityForStaticProperties,
          ClosureCreationInConstantExpressions, PipeOperator}
      then to_version_id self \<ge> 0x080500
     else if feature \<in> {
          CallableInstanceMethods, LegacyConstructor, UnsetCast, CaseInsensitiveConstantNames,
          ArrayFunctionsReturnNullWithNonArray, SubstrReturnFalseInsteadOfEmptyString,
          CurlUrlOptionCheckingFileSchemeWithOpenBasedir,
          EmptyStringValidAliasForNoneInMbSubstituteCharacter,
          NumericStringValidArgInMbSubstituteCharacter}
      then to_version_id self < 0x080000
     else if feature = InterfaceConstantImplicitlyFinal
      then to_version_id self < 0x080100
     else if feature = PassNoneEncodings
      then to_version_id self < 0x070300
     else if feature = ImplicitlyNullableParameterTypes
      then to_version_id self < 0x090000
     else if feature = PartialFunctionApplication
      then to_version_id self \<ge> 0x080600
      else True)"

definition is_deprecated :: "php_version \<Rightarrow> feature \<Rightarrow> bool" where
  "is_deprecated self feature =
    (if feature \<in> {
          DynamicProperties, CallStaticMethodOnTrait}
      then to_version_id self \<ge> 0x080200
     else if feature = ImplicitlyNullableParameterTypes
      then to_version_id self \<ge> 0x080400
     else if feature = RequiredParameterAfterOptionalUnionOrMixed
      then to_version_id self \<ge> 0x080300
     else if feature = RequiredParameterAfterOptionalNullableAndDefaultNull
      then to_version_id self \<ge> 0x080100
     else if feature = RequiredParameterAfterOptional
      then to_version_id self \<ge> 0x080000
     else if feature = SwitchSemicolonSeparators
      then to_version_id self \<ge> 0x080500
      else False)"

section \<open>Text\<close>

text \<open>\<open>split\<close> at a character: one part more than there are separators.\<close>

fun split_on :: "char \<Rightarrow> string \<Rightarrow> string list" where
  "split_on c [] = [[]]"
| "split_on c (x # xs) =
     (if x = c then [] # split_on c xs
      else (case split_on c xs of [] \<Rightarrow> [[x]] | p # ps \<Rightarrow> (x # p) # ps))"

datatype parsing_error = InvalidFormat | ParseIntError int_error_kind

definition parse_component :: "string \<Rightarrow> parsing_error + u32" where
  "parse_component s = (case parse_uint (2 ^ 32 - 1) s of
     Inl e \<Rightarrow> Inl (ParseIntError e)
   | Inr n \<Rightarrow> Inr (of_nat n))"

definition version_from_str :: "string \<Rightarrow> parsing_error + php_version" where
  "version_from_str s =
     (if s = [] then Inl InvalidFormat
      else (case split_on CHR ''.'' s of
          [a] \<Rightarrow>
            (case parse_component a of Inl e \<Rightarrow> Inl e
             | Inr major \<Rightarrow> Inr (version_new major 0 0))
        | [a, b] \<Rightarrow>
            (case parse_component a of Inl e \<Rightarrow> Inl e
             | Inr major \<Rightarrow>
                 (case parse_component b of Inl e \<Rightarrow> Inl e
                  | Inr minor \<Rightarrow> Inr (version_new major minor 0)))
        | [a, b, c] \<Rightarrow>
            (case parse_component a of Inl e \<Rightarrow> Inl e
             | Inr major \<Rightarrow>
                 (case parse_component b of Inl e \<Rightarrow> Inl e
                  | Inr minor \<Rightarrow>
                      (case parse_component c of Inl e \<Rightarrow> Inl e
                       | Inr patch \<Rightarrow> Inr (version_new major minor patch))))
        | _ \<Rightarrow> Inl InvalidFormat))"

definition version_to_string :: "php_version \<Rightarrow> string" where
  "version_to_string self =
     show_nat (unat (version_major self)) @ ''.'' @ show_nat (unat (version_minor self)) @ ''.'' @
     show_nat (unat (version_patch self))"

section \<open>Packing\<close>

definition components :: "php_version \<Rightarrow> nat \<times> nat \<times> nat" where
  "components v = (unat (version_major v), unat (version_minor v), unat (version_patch v))"

definition components_in_range :: "u32 \<Rightarrow> u32 \<Rightarrow> u32 \<Rightarrow> bool" where
  "components_in_range major minor patch \<longleftrightarrow>
     unat major < 2 ^ 16 \<and> unat minor < 2 ^ 8 \<and> unat patch < 2 ^ 8"

lemma unat_u32_bound: "unat (w :: u32) < 2 ^ 32"
  by (rule order_less_le_trans[OF unsigned_less]) simp

lemma low_byte: "w AND 0xff = take_bit 8 w" for w :: u32
  by (simp add: take_bit_eq_mask mask_eq_exp_minus_1)

lemma component_values:
  "unat (version_major v) = unat (to_version_id v) div 2 ^ 16"
  "unat (version_minor v) = unat (to_version_id v) div 2 ^ 8 mod 2 ^ 8"
  "unat (version_patch v) = unat (to_version_id v) mod 2 ^ 8"
  by (simp_all only: version_major_def version_minor_def version_patch_def low_byte unat_drop_bit_eq
      unsigned_take_bit_eq take_bit_eq_mod[where 'a = nat] drop_bit_eq_div[where 'a = nat])

lemma version_value:
  "unat (to_version_id v) =
     unat (version_major v) * 2 ^ 16 + unat (version_minor v) * 2 ^ 8 + unat (version_patch v)"
proof -
  have "n = n div 65536 * 65536 + n div 256 mod 256 * 256 + n mod 256" for n :: nat
    using div_mult2_eq[of n 256 256, simplified] div_mult_mod_eq[of n 256]
      div_mult_mod_eq[of "n div 256" 256] by linarith
  then show ?thesis unfolding component_values by simp
qed

lemma component_bounds: "unat (version_minor v) < 2 ^ 8" "unat (version_patch v) < 2 ^ 8"
  by (simp_all add: component_values)

lemma bit_high: "unat w < 2 ^ k \<Longrightarrow> k \<le> n \<Longrightarrow> \<not> bit w n" for w :: u32
  by (metis bit_take_bit_iff linorder_not_less take_bit_nat_eq_self unsigned_take_bit_eq unsigned_word_eqI)

lemma new_components:
  assumes "components_in_range major minor patch"
  shows "version_major (version_new major minor patch) = major"
    "version_minor (version_new major minor patch) = minor"
    "version_patch (version_new major minor patch) = patch"
proof -
  have h: "bit major n \<Longrightarrow> n < 16" "bit minor n \<Longrightarrow> n < 8" "bit patch n \<Longrightarrow> n < 8" for n
    using assms bit_high[of major 16 n] bit_high[of minor 8 n] bit_high[of patch 8 n]
    by (auto simp: components_in_range_def not_less[symmetric])
  show "version_major (version_new major minor patch) = major"
    "version_minor (version_new major minor patch) = minor"
    "version_patch (version_new major minor patch) = patch"
    by (rule bit_word_eqI, auto simp: version_new_def pack_def version_major_def version_minor_def
          version_patch_def low_byte bit_drop_bit_eq bit_take_bit_iff bit_or_iff bit_push_bit_iff
          dest: h)+
qed

lemma version_components [simp]:
  assumes "components_in_range major minor patch"
  shows "components (version_new major minor patch) = (unat major, unat minor, unat patch)"
  by (simp add: components_def new_components[OF assms])

lemma components_inject: "components v = components w \<longleftrightarrow> v = w"
proof
  assume "components v = components w"
  then have "unat (to_version_id v) = unat (to_version_id w)"
    by (simp add: components_def version_value)
  then show "v = w" by (simp add: php_version.expand word_unat_eq_iff)
qed simp

lemma in_range_components:
  "components_in_range (version_major v) (version_minor v) (version_patch v)"
proof -
  have "unat (version_major v) < 2 ^ 16"
    using unat_u32_bound[of "to_version_id v"] by (simp add: component_values less_mult_imp_div_less)
  then show ?thesis using component_bounds by (simp add: components_in_range_def)
qed

lemma unpack_pack: "version_new (version_major v) (version_minor v) (version_patch v) = v"
  by (simp add: components_inject[symmetric] in_range_components) (simp add: components_def)

text \<open>Numbers written in a base compare like their digits.\<close>

lemma two_digits_less:
  fixes a b m :: nat
  assumes "b < m" "a < a'"
  shows "a * m + b < a' * m + b'"
proof -
  have "Suc a * m \<le> a' * m" using assms(2) by (intro mult_le_mono1) simp
  then show ?thesis using assms(1) by simp
qed

lemma two_digits_le:
  fixes a b m :: nat
  assumes "b < m" "b' < m"
  shows "a * m + b \<le> a' * m + b' \<longleftrightarrow> (a, b) \<le> (a', b')"
  using two_digits_less[OF assms(1), of a a' b'] two_digits_less[OF assms(2), of a' a b]
  by (cases "a = a'") (auto simp: less_eq_prod_def)

lemma version_order: "v \<le> w \<longleftrightarrow> components v \<le> components w"
proof -
  have "unat (to_version_id v) \<le> unat (to_version_id w) \<longleftrightarrow>
      (unat (version_major v) * 2 ^ 8 + unat (version_minor v)) * 2 ^ 8 + unat (version_patch v) \<le>
      (unat (version_major w) * 2 ^ 8 + unat (version_minor w)) * 2 ^ 8 + unat (version_patch w)"
    using version_value[of v] version_value[of w] by (simp add: algebra_simps)
  also have "\<dots> \<longleftrightarrow> (unat (version_major v) * 2 ^ 8 + unat (version_minor v), unat (version_patch v)) \<le>
      (unat (version_major w) * 2 ^ 8 + unat (version_minor w), unat (version_patch w))"
    using component_bounds by (intro two_digits_le)
  also have "\<dots> \<longleftrightarrow> components v \<le> components w"
    using two_digits_le[OF component_bounds(1)[of v] component_bounds(1)[of w], of "unat (version_major v)" "unat (version_major w)"]
      two_digits_le[OF component_bounds(1)[of w] component_bounds(1)[of v], of "unat (version_major w)" "unat (version_major v)"]
    by (auto simp: components_def less_eq_prod_def)
  finally show ?thesis by (simp add: less_eq_php_version_def word_order)
qed

section \<open>Parsing and printing\<close>

lemma split_on_none: "c \<notin> set xs \<Longrightarrow> split_on c xs = [xs]"
  by (induction xs) auto

lemma split_on_append: "c \<notin> set xs \<Longrightarrow> split_on c (xs @ c # ys) = xs # split_on c ys"
  by (induction xs) auto

lemma split_on_length: "length (split_on c s) = Suc (count_list s c)"
  by (induction s) (auto split: list.splits)

lemma split_on_join: "concat (map (\<lambda>p. p @ [c]) (split_on c s)) = s @ [c]"
  by (induction s) (auto split: list.splits)

lemma parse_component_show: "parse_component (show_nat (unat w)) = Inr w"
  using unat_u32_bound[of w] by (simp add: parse_component_def parse_uint_show)

lemma no_dot: "CHR ''.'' \<notin> set (show_nat n)"
  using show_nat_no_sign by blast

lemma version_from_str_parts:
  "version_from_str (show_nat (unat a)) = Inr (version_new a 0 0)"
  "version_from_str (show_nat (unat a) @ ''.'' @ show_nat (unat b)) = Inr (version_new a b 0)"
  "version_from_str (show_nat (unat a) @ ''.'' @ show_nat (unat b) @ ''.'' @ show_nat (unat c)) =
     Inr (version_new a b c)"
  by (simp_all add: version_from_str_def split_on_none split_on_append no_dot parse_component_show)

section \<open>Thresholds\<close>

text \<open>A condition on versions that holds from some version on, or up to some version.\<close>

definition threshold :: "(php_version \<Rightarrow> bool) \<Rightarrow> bool" where
  "threshold P \<longleftrightarrow> (\<exists>t. \<forall>v. P v \<longleftrightarrow> to_version_id v \<ge> t) \<or> (\<exists>t. \<forall>v. P v \<longleftrightarrow> to_version_id v < t)"

lemma threshold_at_least: "threshold (\<lambda>v. to_version_id v \<ge> t)"
  and threshold_below: "threshold (\<lambda>v. to_version_id v < t)"
  and threshold_True: "threshold (\<lambda>v. True)"
  and threshold_if: "threshold P \<Longrightarrow> threshold Q \<Longrightarrow> threshold (\<lambda>v. if c then P v else Q v)"
  unfolding threshold_def by (blast, blast, metis word_zero_le, cases c, simp_all)

lemmas thresholds = threshold_at_least threshold_below threshold_True threshold_if

lemma is_supported_threshold: "threshold (\<lambda>v. is_supported v f)"
  unfolding is_supported_def by (intro thresholds)

lemma threshold_monotone:
  "threshold P \<Longrightarrow> (\<forall>v w. v \<le> w \<longrightarrow> P v \<longrightarrow> P w) \<or> (\<forall>v w. v \<le> w \<longrightarrow> P w \<longrightarrow> P v)"
  unfolding threshold_def less_eq_php_version_def by (meson order.trans order.strict_trans1)

lemma is_deprecated_upward: "v \<le> w \<Longrightarrow> is_deprecated v f \<Longrightarrow> is_deprecated w f"
  unfolding is_deprecated_def less_eq_php_version_def
  by (auto split: if_splits intro: order.trans)

lemma range_includes_bounds:
  "range_includes r v \<longleftrightarrow>
     (case range_min r of Some lo \<Rightarrow> lo \<le> v | None \<Rightarrow> True) \<and>
     (case range_max r of Some hi \<Rightarrow> v \<le> hi | None \<Rightarrow> True)"
  by (auto simp: range_includes_def less_eq_php_version_def split: option.splits)

section \<open>Properties\<close>

text \<open>Every version, whatever its packed number, is read back from its printed text, and the
  shorter texts stand for versions with zeros in the missing places.\<close>

theorem version_text_roundtrip:
  "version_from_str (version_to_string v) = Inr v \<and>
   version_from_str (show_nat (unat a)) = Inr (version_new a 0 0) \<and>
   version_from_str (show_nat (unat a) @ ''.'' @ show_nat (unat b)) = Inr (version_new a b 0)"
  using version_from_str_parts(3)[of "version_major v" "version_minor v" "version_patch v"]
  unfolding version_to_string_def unpack_pack using version_from_str_parts(1,2) by blast

text \<open>The order of versions, which compares packed numbers, is the order of their major, minor
  and patch numbers read left to right, and packing components in range loses nothing.\<close>

theorem version_order_lexicographic:
  "(v \<le> w \<longleftrightarrow> components v \<le> components w) \<and> (components v = components w \<longleftrightarrow> v = w) \<and>
   version_new (version_major v) (version_minor v) (version_patch v) = v"
  by (simp add: version_order components_inject unpack_pack)

text \<open>\<open>is_at_least\<close> compares the components with the given ones when these are in range.\<close>

theorem is_at_least_components:
  assumes "components_in_range major minor patch"
  shows "is_at_least v major minor patch \<longleftrightarrow> (unat major, unat minor, unat patch) \<le> components v"
proof -
  have "is_at_least v major minor patch \<longleftrightarrow> version_new major minor patch \<le> v"
    by (simp add: is_at_least_def version_new_def less_eq_php_version_def)
  then show ?thesis using assms by (simp add: version_order)
qed

theorem is_at_least_components_witness: "is_at_least (version_new 8 0 0) 7 4 30"
  using is_at_least_components[of 7 4 30 "version_new 8 0 0"]
  by (simp add: components_in_range_def less_eq_prod_def)

text \<open>Components out of range are not rejected but leak into their neighbours: the text
  \<open>8.256.0\<close> is read as version \<open>9.0.0\<close> and \<open>65544.0.0\<close> as \<open>8.0.0\<close>.\<close>

theorem version_components_leak:
  "version_from_str ''8.256.0'' = Inr (version_new 9 0 0) \<and>
   version_from_str ''65544.0.0'' = Inr (version_new 8 0 0)"
  by (simp add: version_from_str_def parse_component_def parse_uint_def char_digit_def
      version_new_def pack_def push_bit_eq_mult)

text \<open>Support of a feature changes at most once as versions ascend: each is supported from
  some version on or up to one, and a deprecated feature stays deprecated. One feature is
  missing from the table: \<open>new\<close> in initializers counts as supported by every version.\<close>

theorem feature_support_monotone:
  "((\<forall>v w. v \<le> w \<longrightarrow> is_supported v f \<longrightarrow> is_supported w f) \<or>
    (\<forall>v w. v \<le> w \<longrightarrow> is_supported w f \<longrightarrow> is_supported v f)) \<and>
   (\<forall>v w. v \<le> w \<longrightarrow> is_deprecated v f \<longrightarrow> is_deprecated w f) \<and>
   is_supported v NewInInitializers"
  using threshold_monotone[OF is_supported_threshold[of f]] is_deprecated_upward[of _ _ f]
  by (auto simp: is_supported_def)

theorem feature_support_monotone_witness:
  "is_supported PHP74 ArrowFunctions \<and> is_supported PHP81 ArrowFunctions \<and>
   is_supported PHP70 NewInInitializers"
  using feature_support_monotone[of ArrowFunctions PHP70]
  by (simp add: PHP74_def PHP81_def is_supported_def version_new_def pack_def push_bit_eq_mult)

text \<open>A range includes exactly the versions between its bounds, and the ranges of the major
  versions 7 and 8 include exactly the versions whose components lie between theirs.\<close>

theorem range_includes_exact:
  "(range_includes r v \<longleftrightarrow>
     (case range_min r of Some lo \<Rightarrow> lo \<le> v | None \<Rightarrow> True) \<and>
     (case range_max r of Some hi \<Rightarrow> v \<le> hi | None \<Rightarrow> True)) \<and>
   (range_includes PHP7 v \<longleftrightarrow> (7, 0, 0) \<le> components v \<and> components v \<le> (7, 99, 99)) \<and>
   (range_includes PHP8 v \<longleftrightarrow> (8, 0, 0) \<le> components v \<and> components v \<le> (8, 99, 99))"
  by (simp add: range_includes_bounds PHP7_def PHP8_def range_between_def version_order
      components_in_range_def)

end
