(* ===== verification/Source_File.thy ===== *)
theory Source_File
  imports Mago_Prelude
begin

text \<open>
  Source files and locations: positions and spans (crate \<open>span\<close>) and the line index of a
  file (crate \<open>database\<close>, \<open>file.rs\<close>). The hash that makes a file id is a parameter.

  The lemmas show the line index of every file well formed, and line and column numbers the
  coordinates of an offset in it.
\<close>

section \<open>Positions and spans\<close>

type_synonym file_id = u64

datatype position = Position (offset: u32)

record span =
  span_file_id :: file_id
  span_start :: position
  span_end :: position

definition file_id_zero :: file_id where "file_id_zero = 0"

definition position_zero :: position where "position_zero = Position 0"

definition position_is_zero :: "position \<Rightarrow> bool" where
  "position_is_zero self \<longleftrightarrow> offset self = 0"

definition forward :: "position \<Rightarrow> u32 \<Rightarrow> position" where
  "forward self n = Position (sat_add_u32 (offset self) n)"

definition backward :: "position \<Rightarrow> u32 \<Rightarrow> position" where
  "backward self n = Position (sat_sub_u32 (offset self) n)"

definition range_for :: "position \<Rightarrow> u32 \<Rightarrow> u32 \<times> u32" where
  "range_for self n = (offset self, sat_add_u32 (offset self) n)"

definition span_new :: "file_id \<Rightarrow> position \<Rightarrow> position \<Rightarrow> span" where
  "span_new fid s e = \<lparr>span_file_id = fid, span_start = s, span_end = e\<rparr>"

definition span_zero :: span where
  "span_zero = span_new file_id_zero position_zero position_zero"

definition span_dummy :: "u32 \<Rightarrow> u32 \<Rightarrow> span" where
  "span_dummy s e = span_new file_id_zero (Position s) (Position e)"

definition span_join :: "span \<Rightarrow> span \<Rightarrow> span" where
  "span_join self other = span_new (span_file_id self) (span_start self) (span_end other)"

definition span_between :: "span \<Rightarrow> span \<Rightarrow> span" where
  "span_between s e = span_join s e"

definition span_is_zero :: "span \<Rightarrow> bool" where
  "span_is_zero self \<longleftrightarrow> position_is_zero (span_start self) \<and> position_is_zero (span_end self)"

definition span_to_end :: "span \<Rightarrow> position \<Rightarrow> span" where
  "span_to_end self e = span_new (span_file_id self) (span_start self) e"

definition span_from_start :: "span \<Rightarrow> position \<Rightarrow> span" where
  "span_from_start self s = span_new (span_file_id self) s (span_end self)"

definition subspan :: "span \<Rightarrow> u32 \<Rightarrow> u32 \<Rightarrow> span" where
  "subspan self s e =
     span_new (span_file_id self) (forward (span_start self) s) (forward (span_start self) e)"

definition has_offset :: "span \<Rightarrow> u32 \<Rightarrow> bool" where
  "has_offset self n \<longleftrightarrow> offset (span_start self) \<le> n \<and> n \<le> offset (span_end self)"

definition span_to_range :: "span \<Rightarrow> u32 \<times> u32" where
  "span_to_range self = (offset (span_start self), offset (span_end self))"

definition span_length :: "span \<Rightarrow> u32" where
  "span_length self = sat_sub_u32 (offset (span_end self)) (offset (span_start self))"

text \<open>A span in place of a position stands for its start.\<close>

definition span_position :: "span \<Rightarrow> position" where
  "span_position self = span_start self"

definition span_contains :: "span \<Rightarrow> position \<Rightarrow> bool" where
  "span_contains self p = has_offset self (offset p)"

definition is_before :: "span \<Rightarrow> position \<Rightarrow> bool" where
  "is_before self p \<longleftrightarrow> offset (span_end self) \<le> offset p"

definition is_after :: "span \<Rightarrow> position \<Rightarrow> bool" where
  "is_after self p \<longleftrightarrow> offset (span_start self) \<ge> offset p"

section \<open>Files\<close>

datatype file_type = Host | Vendored | Builtin | Patch | External

record source_file =
  file_file_id :: file_id
  file_name :: bytes
  file_path :: "bytes option"
  file_type :: file_type
  contents :: bytes
  file_size :: u32
  file_lines :: "u32 list"

text \<open>
  \<open>memchr_iter\<close> gives the positions of a byte, \<open>memchr2\<close> the first position of either of
  two.
\<close>

fun positions_from :: "nat \<Rightarrow> u8 \<Rightarrow> bytes \<Rightarrow> nat list" where
  "positions_from i b [] = []"
| "positions_from i b (x # xs) =
     (if x = b then i # positions_from (Suc i) b xs else positions_from (Suc i) b xs)"

definition memchr_iter :: "u8 \<Rightarrow> bytes \<Rightarrow> nat list" where
  "memchr_iter b src = positions_from 0 b src"

definition memchr2 :: "u8 \<Rightarrow> u8 \<Rightarrow> bytes \<Rightarrow> nat option" where
  "memchr2 a b src =
     (let n = length (takeWhile (\<lambda>x. x \<noteq> a \<and> x \<noteq> b) src) in
      if n < length src then Some n else None)"

abbreviation CR :: u8 where "CR \<equiv> 13"
abbreviation LF :: u8 where "LF \<equiv> 10"

definition line_break :: "bytes \<Rightarrow> u8 option" where
  "line_break src = (case memchr2 CR LF src of
     None \<Rightarrow> None
   | Some cr \<Rightarrow>
       if src ! cr = CR \<and> \<not> (cr + 1 < length src \<and> src ! (cr + 1) = LF) then Some CR
       else Some LF)"

definition line_starts :: "bytes \<Rightarrow> u32 list" where
  "line_starts src = 0 # (case line_break src of
     None \<Rightarrow> []
   | Some b \<Rightarrow> map (\<lambda>pos. of_nat (pos + 1)) (memchr_iter b src))"

definition file_new ::
  "(bytes \<Rightarrow> u64) \<Rightarrow> bytes \<Rightarrow> file_type \<Rightarrow> bytes option \<Rightarrow> bytes \<Rightarrow> source_file" where
  "file_new hash name ty path src =
     \<lparr>file_file_id = hash name, file_name = name, file_path = path, file_type = ty,
      contents = src, file_size = of_nat (length src), file_lines = line_starts src\<rparr>"

definition file_ephemeral :: "(bytes \<Rightarrow> u64) \<Rightarrow> bytes \<Rightarrow> bytes \<Rightarrow> source_file" where
  "file_ephemeral hash name src = file_new hash name Host None src"

text \<open>
  \<open>binary_search\<close> on a sorted vector: the index of the value, or the index at which it would
  be inserted.
\<close>

definition binary_search :: "u32 list \<Rightarrow> u32 \<Rightarrow> nat + nat" where
  "binary_search xs x =
     (let n = partition_point (\<lambda>y. y < x) xs in
      if n < length xs \<and> xs ! n = x then Inr n else Inl n)"

definition line_number :: "source_file \<Rightarrow> u32 \<Rightarrow> u32 option" where
  "line_number self n = (case binary_search (file_lines self) n of
     Inr i \<Rightarrow> Some (of_nat i)
   | Inl next_line \<Rightarrow> if next_line = 0 then None else Some (of_nat (next_line - 1)))"

definition get_line_start_offset :: "source_file \<Rightarrow> u32 \<Rightarrow> u32 option" where
  "get_line_start_offset self l =
     (if unat l < length (file_lines self) then Some (file_lines self ! unat l) else None)"

definition get_line_end_offset :: "source_file \<Rightarrow> u32 \<Rightarrow> u32 option" where
  "get_line_end_offset self l =
     (if unat l + 1 < length (file_lines self) then Some (file_lines self ! (unat l + 1) - 1)
      else if unat l = length (file_lines self) - 1 then Some (file_size self)
      else None)"

definition column_number :: "source_file \<Rightarrow> u32 \<Rightarrow> u32 option" where
  "column_number self n = (case line_number self n of
     None \<Rightarrow> None
   | Some l \<Rightarrow>
       if unat l < length (file_lines self) \<and> file_lines self ! unat l \<le> n
       then Some (n - file_lines self ! unat l) else None)"

section \<open>The line index\<close>

definition line_index :: "u32 list \<Rightarrow> bool" where
  "line_index ls \<longleftrightarrow> ls \<noteq> [] \<and> ls ! 0 = 0 \<and> sorted_wrt (<) ls \<and> length ls \<le> 2 ^ 32"

lemma positions_from_set:
  "set (positions_from i b xs) = {i + k | k. k < length xs \<and> xs ! k = b}"
proof (induction xs arbitrary: i)
  case (Cons x xs)
  have "{i + k | k. k < length (x # xs) \<and> (x # xs) ! k = b} =
      (if x = b then {i} else {}) \<union> {Suc i + k | k. k < length xs \<and> xs ! k = b}"
  proof (rule set_eqI)
    fix n
    show "n \<in> {i + k | k. k < length (x # xs) \<and> (x # xs) ! k = b} \<longleftrightarrow>
        n \<in> (if x = b then {i} else {}) \<union> {Suc i + k | k. k < length xs \<and> xs ! k = b}"
    proof
      assume "n \<in> {i + k | k. k < length (x # xs) \<and> (x # xs) ! k = b}"
      then obtain k where "n = i + k" "k < length (x # xs)" "(x # xs) ! k = b" by blast
      then show "n \<in> (if x = b then {i} else {}) \<union> {Suc i + k | k. k < length xs \<and> xs ! k = b}"
        by (cases k) auto
    next
      assume "n \<in> (if x = b then {i} else {}) \<union> {Suc i + k | k. k < length xs \<and> xs ! k = b}"
      then consider "x = b" "n = i" | k where "n = Suc i + k" "k < length xs" "xs ! k = b"
        by (auto split: if_splits)
      then show "n \<in> {i + k | k. k < length (x # xs) \<and> (x # xs) ! k = b}"
      proof cases
        case 1
        then show ?thesis by (intro CollectI exI[of _ 0]) simp
      next
        case 2
        then show ?thesis by (intro CollectI exI[of _ "Suc k"]) simp
      qed
    qed
  qed
  then show ?case using Cons.IH[of "Suc i"] by auto
qed simp

lemma positions_from_ge: "p \<in> set (positions_from i b xs) \<Longrightarrow> i \<le> p"
  by (auto simp: positions_from_set)

lemma positions_from_sorted: "sorted_wrt (<) (positions_from i b xs)"
  by (induction i b xs rule: positions_from.induct) (auto dest: positions_from_ge)

lemma positions_from_length: "length (positions_from i b xs) = count_list xs b"
  by (induction i b xs rule: positions_from.induct) auto

lemma memchr_iter_bound: "p \<in> set (memchr_iter b src) \<Longrightarrow> p < length src \<and> src ! p = b"
  by (auto simp: memchr_iter_def positions_from_set)

lemma line_starts_index:
  assumes "length src < 2 ^ 32"
  shows "line_index (line_starts src)" "x \<in> set (line_starts src) \<Longrightarrow> unat x \<le> length src"
proof -
  have u: "unat (of_nat (pos + 1) :: u32) = pos + 1" if "pos \<in> set (memchr_iter b src)" for b pos
    using memchr_iter_bound[OF that] assms by (intro unat_of_nat_u32) simp
  have s: "sorted_wrt (<) (map (\<lambda>pos. of_nat (pos + 1) :: u32) (memchr_iter b src))" for b
    unfolding sorted_wrt_map
  proof (rule sorted_wrt_mono_rel[of _ "(<)"])
    show "sorted_wrt (<) (memchr_iter b src)"
      using positions_from_sorted by (simp add: memchr_iter_def)
    show "(of_nat (x + 1) :: u32) < of_nat (y + 1)"
      if "x \<in> set (memchr_iter b src)" "y \<in> set (memchr_iter b src)" "x < y" for x y
      using that u[OF that(1)] u[OF that(2)] by (simp only: word_order)
  qed
  have p: "(0::u32) < of_nat (pos + 1)" if "pos \<in> set (memchr_iter b src)" for b pos
    using u[OF that] by (simp only: word_order unat_0)
  have "length (memchr_iter b src) \<le> length src" for b
    by (simp add: memchr_iter_def positions_from_length count_le_length)
  then have "length (line_starts src) \<le> Suc (length src)"
    by (auto simp: line_starts_def split: option.splits)
  then show "line_index (line_starts src)"
    using assms s p by (auto simp: line_index_def line_starts_def split: option.splits)
  show "x \<in> set (line_starts src) \<Longrightarrow> unat x \<le> length src"
    using u memchr_iter_bound by (fastforce simp: line_starts_def split: option.splits)
qed

section \<open>Lines and columns\<close>

lemma binary_search_line:
  assumes "line_index ls"
  shows "\<exists>i. (binary_search ls n = Inr i \<or> binary_search ls n = Inl (Suc i)) \<and> i < length ls \<and>
    ls ! i \<le> n \<and> (\<forall>j. i < j \<longrightarrow> j < length ls \<longrightarrow> n < ls ! j)"
proof -
  let ?p = "partition_point (\<lambda>y. y < n) ls"
  have before: "ls ! k < n" if "k < ?p" for k
    using that by (metis nth_mem set_takeWhileD takeWhile_nth partition_point_def)
  have at: "\<not> ls ! ?p < n" if "?p < length ls"
    using that nth_length_takeWhile[of "\<lambda>y. y < n" ls] by (simp add: partition_point_def)
  have up: "ls ! j < ls ! k" if "j < k" "k < length ls" for j k
    using assms that by (auto simp: line_index_def sorted_wrt_iff_nth_less)
  have len: "?p \<le> length ls" by (rule partition_point_le)
  show ?thesis
  proof (cases "?p < length ls \<and> ls ! ?p = n")
    case True
    then show ?thesis using up[of ?p] by (intro exI[of _ ?p]) (simp add: binary_search_def Let_def)
  next
    case False
    have "?p \<noteq> 0"
    proof
      assume "?p = 0"
      moreover have "0 < length ls" "ls ! 0 = 0" using assms by (auto simp: line_index_def)
      ultimately show False using False at by (simp add: word_gt_0)
    qed
    then obtain i where i: "?p = Suc i" by (cases ?p) auto
    have "n < ls ! j" if "i < j" "j < length ls" for j
    proof -
      have "n < ls ! ?p" using at False that i by (metis Suc_leI linorder_neqE order_le_less_trans)
      moreover have "ls ! ?p \<le> ls ! j" using up[of ?p j] that i by (cases "j = ?p") auto
      ultimately show ?thesis by simp
    qed
    then show ?thesis using i before[of i] len False
      by (intro exI[of _ i]) (auto simp: binary_search_def Let_def)
  qed
qed

lemma line_number_index:
  assumes "line_index (file_lines f)"
  obtains l where "line_number f n = Some l" "unat l < length (file_lines f)"
    "file_lines f ! unat l \<le> n"
    "\<And>j. unat l < j \<Longrightarrow> j < length (file_lines f) \<Longrightarrow> n < file_lines f ! j"
proof -
  obtain i where i: "binary_search (file_lines f) n = Inr i \<or> binary_search (file_lines f) n = Inl (Suc i)"
    "i < length (file_lines f)" "file_lines f ! i \<le> n"
    "\<forall>j. i < j \<longrightarrow> j < length (file_lines f) \<longrightarrow> n < file_lines f ! j"
    using binary_search_line[OF assms] by blast
  have "i < 2 ^ 32" using i(2) assms by (auto simp: line_index_def)
  then have u: "unat (of_nat i :: u32) = i" by (rule unat_of_nat_u32)
  have "line_number f n = Some (of_nat i)" using i(1) by (auto simp: line_number_def)
  then show ?thesis using that[of "of_nat i"] i u by simp
qed

lemma count_up_to:
  fixes ls :: "u32 list"
  assumes "sorted_wrt (<) ls" "i < length ls" "ls ! i \<le> n"
    "\<And>j. i < j \<Longrightarrow> j < length ls \<Longrightarrow> n < ls ! j"
  shows "length (filter (\<lambda>x. x \<le> n) ls) = Suc i"
proof -
  have "filter (\<lambda>x. x \<le> n) ls = filter (\<lambda>x. x \<le> n) (take (Suc i) ls) @ filter (\<lambda>x. x \<le> n) (drop (Suc i) ls)"
    by (metis append_take_drop_id filter_append)
  moreover have "x \<le> n" if x: "x \<in> set (take (Suc i) ls)" for x
  proof -
    obtain k where "k \<le> i" "x = ls ! k" using x assms(2) by (auto simp: in_set_conv_nth less_Suc_eq_le)
    then have "x \<le> ls ! i"
      using assms(1,2) by (cases "k = i") (auto simp: sorted_wrt_iff_nth_less intro: less_imp_le)
    then show ?thesis using assms(3) by simp
  qed
  moreover have "\<not> x \<le> n" if "x \<in> set (drop (Suc i) ls)" for x
    using that assms(4) by (auto simp: in_set_conv_nth not_le)
  ultimately have "filter (\<lambda>x. x \<le> n) ls = take (Suc i) ls" by (simp add: filter_id_conv)
  then show ?thesis using assms(2) by simp
qed

lemma positions_before:
  "length (filter (\<lambda>p. p < i + n) (positions_from i b xs)) = count_list (take n xs) b"
proof (induction i b xs arbitrary: n rule: positions_from.induct)
  case (2 i b x xs)
  show ?case
  proof (cases n)
    case 0
    have "filter (\<lambda>p. p < i) (positions_from (Suc i) b xs) = []"
      by (auto simp: filter_empty_conv dest: positions_from_ge)
    then show ?thesis using 0 by simp
  next
    case (Suc m)
    then show ?thesis using 2(1)[of m] 2(2)[of m] by auto
  qed
qed simp

text \<open>The breaks before an offset are the lines that start at or before it, but the first.\<close>

lemma breaks_before:
  assumes "length src < 2 ^ 32" "line_break src = Some b"
  shows "length (filter (\<lambda>x. x \<le> n) (line_starts src)) = Suc (count_list (take (unat n) src) b)"
proof -
  have "(of_nat (p + 1) \<le> n) = (p < unat n)" if "p \<in> set (memchr_iter b src)" for p
  proof -
    have "unat (of_nat (p + 1) :: u32) = p + 1"
      using memchr_iter_bound[OF that] assms(1) by (intro unat_of_nat_u32) simp
    then show ?thesis by (simp only: word_order Suc_eq_plus1[symmetric] Suc_le_eq)
  qed
  then have "length (filter (\<lambda>p. of_nat (p + 1) \<le> n) (memchr_iter b src)) =
      count_list (take (unat n) src) b"
    using positions_before[of 0 "unat n" b src] by (simp add: memchr_iter_def cong: filter_cong)
  then show ?thesis using assms(2) by (simp add: line_starts_def filter_map comp_def)
qed

lemma breaks_none: "line_break src = None \<Longrightarrow> line_starts src = [0]"
  by (simp add: line_starts_def)

section \<open>Properties\<close>

text \<open>C35. In every file below four gigabytes, each offset has a line and a column; they are its
  coordinates: the start of the line plus the column is the offset, the next line starts later,
  and the number of the line is the number of line breaks before the offset.\<close>

theorem line_and_column_exact:
  assumes "length src < 2 ^ 32" "f = file_new hash name ty path src"
  shows "\<exists>l c s. line_number f n = Some l \<and> column_number f n = Some c \<and>
    get_line_start_offset f l = Some s \<and> s \<le> n \<and> s + c = n \<and>
    (unat l + 1 < length (file_lines f) \<longrightarrow> n < file_lines f ! (unat l + 1)) \<and>
    unat l = (case line_break src of None \<Rightarrow> 0 | Some b \<Rightarrow> count_list (take (unat n) src) b)"
proof -
  have ls: "file_lines f = line_starts src" using assms(2) by (simp add: file_new_def)
  have idx: "line_index (file_lines f)" unfolding ls by (rule line_starts_index[OF assms(1)])
  obtain l where l: "line_number f n = Some l" "unat l < length (file_lines f)"
    "file_lines f ! unat l \<le> n" "\<And>j. unat l < j \<Longrightarrow> j < length (file_lines f) \<Longrightarrow> n < file_lines f ! j"
    using line_number_index[OF idx] by blast
  have "length (filter (\<lambda>x. x \<le> n) (file_lines f)) = Suc (unat l)"
    using idx l(2-4) by (intro count_up_to) (auto simp: line_index_def)
  moreover have "file_lines f = [0] \<Longrightarrow> unat l = 0" using l(2) by simp
  ultimately have "unat l = (case line_break src of None \<Rightarrow> 0 | Some b \<Rightarrow> count_list (take (unat n) src) b)"
    using breaks_before[OF assms(1), of _ n] breaks_none[of src]
    by (auto simp: ls split: option.splits)
  then show ?thesis using l by (simp add: column_number_def get_line_start_offset_def)
qed

theorem line_and_column_exact_witness:
  "\<exists>l c s. line_number (file_new (\<lambda>_. 7) [] Host None [97, 10, 98, 99]) 3 = Some l \<and>
     column_number (file_new (\<lambda>_. 7) [] Host None [97, 10, 98, 99]) 3 = Some c \<and>
     s + c = 3 \<and> unat l = 1"
proof -
  have "line_break [97, 10, 98, 99] = Some LF" by (simp add: line_break_def memchr2_def Let_def)
  then show ?thesis
    using line_and_column_exact[of "[97, 10, 98, 99]" _ "\<lambda>_. 7" "[]" Host None 3] by auto
qed

text \<open>A line ends at the break byte before the next line, the last one at the end of the file;
  no other line has an end.\<close>

theorem line_end_exact:
  assumes "length src < 2 ^ 32" "f = file_new hash name ty path src" "line_break src = Some b"
  shows "(unat l + 1 < length (file_lines f) \<longrightarrow>
      (\<exists>e. get_line_end_offset f l = Some e \<and> unat e < length src \<and> src ! unat e = b \<and>
        get_line_start_offset f (l + 1) = Some (e + 1))) \<and>
    (unat l + 1 = length (file_lines f) \<longrightarrow> get_line_end_offset f l = Some (of_nat (length src))) \<and>
    (unat l \<ge> length (file_lines f) \<longrightarrow> get_line_end_offset f l = None)"
proof -
  have ls: "file_lines f = 0 # map (\<lambda>pos. of_nat (pos + 1)) (memchr_iter b src)"
    using assms(2,3) by (simp add: file_new_def line_starts_def)
  have "\<exists>e. get_line_end_offset f l = Some e \<and> unat e < length src \<and> src ! unat e = b \<and>
      get_line_start_offset f (l + 1) = Some (e + 1)" if n: "unat l + 1 < length (file_lines f)"
  proof -
    let ?p = "memchr_iter b src ! unat l"
    have m: "unat l < length (memchr_iter b src)" using n by (simp add: ls)
    then have p: "?p < length src" "src ! ?p = b" using memchr_iter_bound nth_mem by blast+
    then have u: "unat (of_nat ?p :: u32) = ?p" using assms(1) by (intro unat_of_nat_u32) simp
    have "length (memchr_iter b src) \<le> length src"
      by (simp add: memchr_iter_def positions_from_length count_le_length)
    then have "unat (l + 1) = unat l + 1"
      using m assms(1) by (simp add: unat_word_ariths)
    then have "get_line_start_offset f (l + 1) = Some (of_nat ?p + 1)"
      using n m by (simp add: get_line_start_offset_def ls add.commute)
    moreover have "get_line_end_offset f l = Some (of_nat ?p)"
      using n m by (simp add: get_line_end_offset_def ls)
    ultimately show ?thesis using u p by simp
  qed
  moreover have "line_starts src \<noteq> []" by (simp add: line_starts_def)
  then have "length (line_starts src) - 1 < length (line_starts src)" by simp
  ultimately show ?thesis using assms(2) by (auto simp: get_line_end_offset_def file_new_def)
qed

theorem line_end_exact_witness:
  "get_line_end_offset (file_new (\<lambda>_. 7) [] Host None [97, 10, 98, 99]) 1 = Some 4"
proof -
  have "line_break [97, 10, 98, 99] = Some LF" by (simp add: line_break_def memchr2_def Let_def)
  then show ?thesis
    using line_end_exact[of "[97, 10, 98, 99]" _ "\<lambda>_. 7" "[]" Host None LF 1]
    by (simp add: file_new_def line_starts_def memchr_iter_def)
qed

end
