(* ===== verification/Byte_Text.thy ===== *)
theory Byte_Text
  imports Mago_Prelude Decimal
begin

text \<open>
  Byte strings and the operations of Rust's \<open>[u8]\<close> and \<open>str\<close> that several crates use:
  trimming, splitting, prefixes, replacement and the validity check of \<open>str::from_utf8\<close>. A
  \<open>str\<close> is its UTF-8 bytes.
\<close>

definition byte_string :: "string \<Rightarrow> bytes" where
  "byte_string s = map of_char s"

lemma byte_string_Nil [simp]: "byte_string [] = []"
  by (simp add: byte_string_def)

lemma byte_string_Cons [simp]: "byte_string (c # s) = of_char c # byte_string s"
  by (simp add: byte_string_def)

section \<open>Bytes\<close>

definition is_ascii_whitespace :: "u8 \<Rightarrow> bool" where
  "is_ascii_whitespace b \<longleftrightarrow> b = 32 \<or> b = 9 \<or> b = 10 \<or> b = 12 \<or> b = 13"

definition trim_ascii_start :: "bytes \<Rightarrow> bytes" where
  "trim_ascii_start s = dropWhile is_ascii_whitespace s"

definition trim_ascii_end :: "bytes \<Rightarrow> bytes" where
  "trim_ascii_end s = rev (dropWhile is_ascii_whitespace (rev s))"

definition trim_ascii :: "bytes \<Rightarrow> bytes" where
  "trim_ascii s = trim_ascii_end (trim_ascii_start s)"

definition starts_with :: "bytes \<Rightarrow> bytes \<Rightarrow> bool" where
  "starts_with p s \<longleftrightarrow> take (length p) s = p"

definition strip_prefix :: "bytes \<Rightarrow> bytes \<Rightarrow> bytes option" where
  "strip_prefix p s = (if starts_with p s then Some (drop (length p) s) else None)"

definition strip_suffix :: "bytes \<Rightarrow> bytes \<Rightarrow> bytes option" where
  "strip_suffix p s = map_option rev (strip_prefix (rev p) (rev s))"

text \<open>\<open>iter().position(p)\<close> and \<open>iter().rposition(p)\<close>.\<close>

definition position_of :: "('a \<Rightarrow> bool) \<Rightarrow> 'a list \<Rightarrow> nat option" where
  "position_of p xs =
     (let n = length (takeWhile (\<lambda>x. \<not> p x) xs) in if n < length xs then Some n else None)"

definition rposition_of :: "('a \<Rightarrow> bool) \<Rightarrow> 'a list \<Rightarrow> nat option" where
  "rposition_of p xs = map_option (\<lambda>i. length xs - 1 - i) (position_of p (rev xs))"

lemma position_of_Some:
  "position_of p xs = Some n \<longleftrightarrow> n < length xs \<and> p (xs ! n) \<and> (\<forall>i < n. \<not> p (xs ! i))"
proof -
  have "p (xs ! length (takeWhile (\<lambda>x. \<not> p x) xs))" if "length (takeWhile (\<lambda>x. \<not> p x) xs) < length xs"
    using nth_length_takeWhile[OF that] by simp
  moreover have "\<not> p (xs ! i)" if "i < length (takeWhile (\<lambda>x. \<not> p x) xs)" for i
    using that by (metis nth_mem set_takeWhileD takeWhile_nth)
  ultimately show ?thesis
    unfolding position_of_def Let_def
    by (auto split: if_splits) (metis linorder_neqE_nat less_trans)+
qed

lemma position_of_None: "position_of p xs = None \<longleftrightarrow> (\<forall>x \<in> set xs. \<not> p x)"
proof -
  have "length (takeWhile (\<lambda>x. \<not> p x) xs) = length xs \<longleftrightarrow> (\<forall>x \<in> set xs. \<not> p x)"
    by (metis takeWhile_eq_all_conv takeWhile_eq_take take_all order_refl)
  then show ?thesis
    unfolding position_of_def Let_def
    by (metis length_takeWhile_le nat_less_le option.distinct(1))
qed

lemma position_of_append:
  "\<forall>x \<in> set xs. \<not> p x \<Longrightarrow> p y \<Longrightarrow> position_of p (xs @ y # ys) = Some (length xs)"
  by (auto simp: position_of_Some nth_append)

lemma rposition_of_append:
  assumes "\<forall>x \<in> set ys. \<not> p x" "p y"
  shows "rposition_of p (xs @ y # ys) = Some (length xs)"
  using position_of_append[of "rev ys" p y "rev xs"] assms by (simp add: rposition_of_def)

lemma rposition_of_SomeD:
  assumes "rposition_of p xs = Some n"
  shows "n < length xs" "p (xs ! n)"
proof -
  obtain i where i: "position_of p (rev xs) = Some i" "n = length xs - 1 - i"
    using assms by (auto simp: rposition_of_def)
  then show "n < length xs" "p (xs ! n)"
    by (auto simp: position_of_Some rev_nth)
qed

text \<open>A trimmed text is a suffix of the text.\<close>

lemma trim_ascii_start_drop:
  "trim_ascii_start s = drop (length s - length (trim_ascii_start s)) s"
  unfolding trim_ascii_start_def
  by (metis add_diff_cancel_right' append_eq_conv_conj length_append takeWhile_dropWhile_id)

lemma length_trim_ascii_start [simp]: "length (trim_ascii_start s) \<le> length s"
  by (simp add: trim_ascii_start_def length_dropWhile_le)

lemma trim_ascii_end_take: "trim_ascii_end s = take (length (trim_ascii_end s)) s"
proof -
  have "rev s = takeWhile is_ascii_whitespace (rev s) @ dropWhile is_ascii_whitespace (rev s)" by simp
  then have "s = rev (dropWhile is_ascii_whitespace (rev s)) @ rev (takeWhile is_ascii_whitespace (rev s))"
    by (metis rev_append rev_rev_ident)
  then show ?thesis unfolding trim_ascii_end_def by (metis append_eq_conv_conj)
qed

lemma trim_ascii_slice:
  "trim_ascii s = take (length (trim_ascii s)) (drop (length s - length (trim_ascii_start s)) s)"
  using trim_ascii_end_take[of "trim_ascii_start s"] trim_ascii_start_drop[of s]
  by (simp add: trim_ascii_def)

lemma length_trim_ascii: "length (trim_ascii s) \<le> length (trim_ascii_start s)"
  by (simp add: trim_ascii_def trim_ascii_end_def) (metis length_dropWhile_le length_rev)

section \<open>Text\<close>

text \<open>The well-formed sequences of UTF-8: no overlong forms, no surrogates, at most U+10FFFF.\<close>

definition continuation :: "u8 \<Rightarrow> bool" where
  "continuation b \<longleftrightarrow> 0x80 \<le> b \<and> b \<le> 0xBF"

definition starts_three :: "u8 \<Rightarrow> u8 \<Rightarrow> bool" where
  "starts_three a b \<longleftrightarrow>
     a = 0xE0 \<and> 0xA0 \<le> b \<and> b \<le> 0xBF \<or>
     0xE1 \<le> a \<and> a \<le> 0xEC \<and> continuation b \<or>
     a = 0xED \<and> 0x80 \<le> b \<and> b \<le> 0x9F \<or>
     0xEE \<le> a \<and> a \<le> 0xEF \<and> continuation b"

definition starts_four :: "u8 \<Rightarrow> u8 \<Rightarrow> bool" where
  "starts_four a b \<longleftrightarrow>
     a = 0xF0 \<and> 0x90 \<le> b \<and> b \<le> 0xBF \<or>
     0xF1 \<le> a \<and> a \<le> 0xF3 \<and> continuation b \<or>
     a = 0xF4 \<and> 0x80 \<le> b \<and> b \<le> 0x8F"

fun valid_utf8 :: "bytes \<Rightarrow> bool" where
  "valid_utf8 [] = True"
| "valid_utf8 (a # s) =
     (if a < 0x80 then valid_utf8 s
      else case s of
        [] \<Rightarrow> False
      | b # s1 \<Rightarrow>
          if 0xC2 \<le> a \<and> a \<le> 0xDF then continuation b \<and> valid_utf8 s1
          else (case s1 of
            [] \<Rightarrow> False
          | c # s2 \<Rightarrow>
              if starts_three a b then continuation c \<and> valid_utf8 s2
              else (case s2 of
                [] \<Rightarrow> False
              | d # s3 \<Rightarrow> starts_four a b \<and> continuation c \<and> continuation d \<and> valid_utf8 s3)))"

definition from_utf8 :: "bytes \<Rightarrow> bytes option" where
  "from_utf8 s = (if valid_utf8 s then Some s else None)"

text \<open>The characters with the property White_Space, which \<open>str::trim\<close> removes.\<close>

definition whitespace_chars :: "bytes list" where
  "whitespace_chars =
     [[9], [10], [11], [12], [13], [32], [0xC2, 0x85], [0xC2, 0xA0], [0xE1, 0x9A, 0x80],
      [0xE2, 0x80, 0x80], [0xE2, 0x80, 0x81], [0xE2, 0x80, 0x82], [0xE2, 0x80, 0x83],
      [0xE2, 0x80, 0x84], [0xE2, 0x80, 0x85], [0xE2, 0x80, 0x86], [0xE2, 0x80, 0x87],
      [0xE2, 0x80, 0x88], [0xE2, 0x80, 0x89], [0xE2, 0x80, 0x8A], [0xE2, 0x80, 0xA8],
      [0xE2, 0x80, 0xA9], [0xE2, 0x80, 0xAF], [0xE2, 0x81, 0x9F], [0xE3, 0x80, 0x80]]"

function strip_any :: "bytes list \<Rightarrow> bytes \<Rightarrow> bytes" where
  "strip_any ws s =
     (case find (\<lambda>w. w \<noteq> [] \<and> starts_with w s) ws of
        None \<Rightarrow> s
      | Some w \<Rightarrow> strip_any ws (drop (length w) s))"
  by pat_completeness auto

lemma starts_with_length: "starts_with w s \<Longrightarrow> length w \<le> length s"
  by (metis starts_with_def length_take min.cobounded1)

termination strip_any
  by (relation "measure (length \<circ> snd)")
     (auto simp: find_Some_iff dest!: starts_with_length, metis diff_less length_0_conv le_zero_eq
        neq0_conv)

declare strip_any.simps [simp del]

definition trim_start :: "bytes \<Rightarrow> bytes" where
  "trim_start s = strip_any whitespace_chars s"

definition trim_end :: "bytes \<Rightarrow> bytes" where
  "trim_end s = rev (strip_any (map rev whitespace_chars) (rev s))"

definition trim_str :: "bytes \<Rightarrow> bytes" where
  "trim_str s = trim_end (trim_start s)"

lemma strip_any_id: "\<forall>w \<in> set ws. \<not> starts_with w s \<Longrightarrow> strip_any ws s = s"
  by (subst strip_any.simps) (auto simp: find_Some_iff split: option.splits)

lemma strip_any_drop: "\<exists>n. strip_any ws s = drop n s"
proof (induction ws s rule: strip_any.induct)
  case (1 ws s)
  show ?case
  proof (cases "find (\<lambda>w. w \<noteq> [] \<and> starts_with w s) ws")
    case None
    then show ?thesis by (subst strip_any.simps) (auto intro: exI[of _ 0])
  next
    case (Some w)
    from 1[OF this] obtain n where "strip_any ws (drop (length w) s) = drop n (drop (length w) s)" by blast
    then show ?thesis using Some by (subst strip_any.simps) auto
  qed
qed

lemma trim_end_prefix: "\<exists>n. trim_end s = take n s"
proof -
  obtain n where "strip_any (map rev whitespace_chars) (rev s) = drop n (rev s)"
    using strip_any_drop by blast
  then show ?thesis by (metis rev_drop rev_rev_ident trim_end_def)
qed

text \<open>\<open>str::replace\<close> for a pattern that is not empty.\<close>

fun str_replace :: "bytes \<Rightarrow> bytes \<Rightarrow> bytes \<Rightarrow> bytes" where
  "str_replace pat new [] = []"
| "str_replace pat new (x # xs) =
     (if starts_with pat (x # xs) then new @ str_replace pat new (drop (length pat - 1) xs)
      else x # str_replace pat new xs)"

text \<open>\<open>u16::from_str\<close> on the bytes of a text.\<close>

definition parse_u16 :: "bytes \<Rightarrow> u16 option" where
  "parse_u16 s = (case parse_uint (2 ^ 16 - 1) (map (\<lambda>b. char_of (unat b)) s) of
     Inl _ \<Rightarrow> None
   | Inr n \<Rightarrow> Some (of_nat n))"

definition show_bytes :: "nat \<Rightarrow> bytes" where
  "show_bytes n = byte_string (show_nat n)"

lemma unat_of_char: "unat (of_char c :: u8) = of_char c"
proof -
  have "unat (of_nat (of_char c) :: u8) = of_char c"
    using nat_of_char_less_256[of c] by (simp add: unat_of_nat take_bit_nat_eq_self_iff)
  then show ?thesis by (simp add: of_nat_of_char)
qed

lemma char_of_byte [simp]: "char_of (unat (of_char c :: u8)) = c"
  by (simp add: unat_of_char)

lemma chars_of_byte_string [simp]: "map (\<lambda>b. char_of (unat b)) (byte_string s) = s"
  by (induction s) (simp_all)

lemma parse_u16_show:
  assumes "n < 2 ^ 16"
  shows "parse_u16 (show_bytes n) = Some (of_nat n)"
  using assms parse_uint_show[of n "2 ^ 16 - 1"] by (simp add: parse_u16_def show_bytes_def)

section \<open>Letter case\<close>

text \<open>The ASCII case functions of byte strings, which names are compared with.\<close>

definition ascii_lower :: "u8 \<Rightarrow> u8" where
  "ascii_lower b = (if 65 \<le> b \<and> b \<le> 90 then b + 32 else b)"

definition is_ascii_uppercase :: "u8 \<Rightarrow> bool" where
  "is_ascii_uppercase b \<longleftrightarrow> 65 \<le> b \<and> b \<le> 90"

definition to_ascii_lowercase :: "bytes \<Rightarrow> bytes" where
  "to_ascii_lowercase s = map ascii_lower s"

definition eq_ignore_ascii_case :: "bytes \<Rightarrow> bytes \<Rightarrow> bool" where
  "eq_ignore_ascii_case a b \<longleftrightarrow> to_ascii_lowercase a = to_ascii_lowercase b"

end
