(* ===== verification/Name_Resolution.thy ===== *)
theory Name_Resolution
  imports Source_File Byte_Text
begin

text \<open>
  Name resolution (crate \<open>names\<close>): the scope of a namespace with its alias tables
  (\<open>scope.rs\<close>), the context that enters and leaves namespaces (\<open>internal/context.rs\<close>),
  the handlers of the tree walk (\<open>internal/walker.rs\<close>) and the table of resolved names
  (\<open>lib.rs\<close>).

  Names are byte strings. Of a syntax node a handler reads only identifiers with their spans,
  so a node is an event that carries these; the order of the events is that of the generic
  walk over the tree, which is a parameter.

  The alias tables are reached through the contract of the locale \<open>folded_table\<close>: a table
  whose keys are compared up to a folding.
\<close>

section \<open>Bytes\<close>

abbreviation backslash :: u8 where "backslash \<equiv> 92"

definition trim_start_byte :: "bytes \<Rightarrow> u8 \<Rightarrow> bytes" where
  "trim_start_byte s b = dropWhile (\<lambda>x. x = b) s"

text \<open>What follows the last occurrence of a byte, which \<open>rfind_byte\<close> finds.\<close>

definition after_last :: "u8 \<Rightarrow> bytes \<Rightarrow> bytes option" where
  "after_last b s = (if b \<in> set s then Some (rev (takeWhile (\<lambda>x. x \<noteq> b) (rev s))) else None)"

fun concat_with_sep :: "bytes list \<Rightarrow> u8 \<Rightarrow> bytes" where
  "concat_with_sep [] sep = []"
| "concat_with_sep [p] sep = p"
| "concat_with_sep (p # ps) sep = p @ sep # concat_with_sep ps sep"

section \<open>Kinds and parts of names\<close>

datatype name_kind = Default | Function | Constant

definition is_default :: "name_kind \<Rightarrow> bool" where "is_default k \<longleftrightarrow> k = Default"

definition is_function :: "name_kind \<Rightarrow> bool" where "is_function k \<longleftrightarrow> k = Function"

definition is_constant :: "name_kind \<Rightarrow> bool" where "is_constant k \<longleftrightarrow> k = Constant"

definition is_case_sensitive :: "name_kind \<Rightarrow> bool" where "is_case_sensitive k \<longleftrightarrow> is_constant k"

datatype name_parts = Input bytes | Alias bytes | Qualified bytes bytes

fun into_bytes :: "name_parts \<Rightarrow> bytes" where
  "into_bytes (Input name) = name"
| "into_bytes (Alias name) = name"
| "into_bytes (Qualified prefix name) = prefix @ backslash # name"

section \<open>Scopes\<close>

type_synonym alias_table = "bytes \<rightharpoonup> bytes"

record namespace_scope =
  namespace_name :: "bytes option"
  default_aliases :: alias_table
  function_aliases :: alias_table
  constant_aliases :: alias_table

definition scope_new :: "bytes option \<Rightarrow> namespace_scope" where
  "scope_new ns = \<lparr>namespace_name = ns, default_aliases = Map.empty, function_aliases = Map.empty,
     constant_aliases = Map.empty\<rparr>"

definition scope_global :: namespace_scope where "scope_global = scope_new None"

definition scope_for_namespace :: "bytes \<Rightarrow> namespace_scope" where
  "scope_for_namespace ns = scope_new (Some ns)"

definition has_aliases :: "namespace_scope \<Rightarrow> bool" where
  "has_aliases s \<longleftrightarrow> default_aliases s \<noteq> Map.empty \<or> function_aliases s \<noteq> Map.empty \<or>
     constant_aliases s \<noteq> Map.empty"

definition table_insert :: "bytes \<Rightarrow> bytes \<Rightarrow> alias_table \<Rightarrow> alias_table" where
  "table_insert k v t = t(to_ascii_lowercase k \<mapsto> v)"

definition scope_add :: "name_kind \<Rightarrow> bytes \<Rightarrow> bytes option \<Rightarrow> namespace_scope \<Rightarrow> namespace_scope" where
  "scope_add kind name alias s =
     (let alias_name = (case alias of
            Some a \<Rightarrow> a
          | None \<Rightarrow> (case after_last backslash name of Some l \<Rightarrow> l | None \<Rightarrow> name))
      in case kind of
           Default \<Rightarrow> s\<lparr>default_aliases := table_insert alias_name name (default_aliases s)\<rparr>
         | Function \<Rightarrow> s\<lparr>function_aliases := table_insert alias_name name (function_aliases s)\<rparr>
         | Constant \<Rightarrow> s\<lparr>constant_aliases := table_insert alias_name name (constant_aliases s)\<rparr>)"

definition qualify_name_parts :: "namespace_scope \<Rightarrow> bytes \<Rightarrow> name_parts" where
  "qualify_name_parts s name = (case namespace_name s of
     Some ns \<Rightarrow> if ns \<noteq> [] then Qualified ns name else Input name
   | None \<Rightarrow> Input name)"

definition qualify_name :: "namespace_scope \<Rightarrow> bytes \<Rightarrow> bytes" where
  "qualify_name s name = into_bytes (qualify_name_parts s name)"

definition is_never_namespaced_function :: "bytes \<Rightarrow> bool" where
  "is_never_namespaced_function name \<longleftrightarrow>
     eq_ignore_ascii_case name (byte_string ''clone'') \<or>
     eq_ignore_ascii_case name (byte_string ''exit'') \<or>
     eq_ignore_ascii_case name (byte_string ''die'')"

text \<open>The part before the first backslash and, if there is one, the rest after it.\<close>

definition split_first :: "bytes \<Rightarrow> bytes \<times> bytes option" where
  "split_first name =
     (if backslash \<in> set name
      then (takeWhile (\<lambda>x. x \<noteq> backslash) name, Some (tl (dropWhile (\<lambda>x. x \<noteq> backslash) name)))
      else (name, None))"

definition aliases_of :: "namespace_scope \<Rightarrow> name_kind \<Rightarrow> alias_table" where
  "aliases_of s kind = (case kind of
     Default \<Rightarrow> default_aliases s
   | Function \<Rightarrow> function_aliases s
   | Constant \<Rightarrow> constant_aliases s)"

text \<open>
  The key is folded only when it has upper case letters. A buffer on the stack or the heap
  holds the copy, depending on its length; both hold the same key.
\<close>

definition table_lookup :: "alias_table \<Rightarrow> bytes \<Rightarrow> bytes option" where
  "table_lookup t k =
     t (if \<not> list_ex is_ascii_uppercase k then k else to_ascii_lowercase k)"

definition resolve_alias_parts :: "namespace_scope \<Rightarrow> name_kind \<Rightarrow> bytes \<Rightarrow> name_parts option" where
  "resolve_alias_parts s kind name =
     (if name = [] then None
      else if hd name = backslash then Some (Input (tl name))
      else
        let (first_part, suffix) = split_first name in
        if suffix \<noteq> None \<and> eq_ignore_ascii_case first_part (byte_string ''namespace'')
        then Some (case namespace_name s of
               Some namespace \<Rightarrow> Qualified namespace (the suffix)
             | None \<Rightarrow> Input (the suffix))
        else
          let aliases = (if suffix \<noteq> None then default_aliases s else aliases_of s kind) in
          if aliases = Map.empty then None
          else (case table_lookup aliases first_part of
              None \<Rightarrow> None
            | Some resolved \<Rightarrow>
                Some (case suffix of
                    Some suffix \<Rightarrow> Qualified resolved suffix
                  | None \<Rightarrow> Alias resolved)))"

definition resolve_alias :: "namespace_scope \<Rightarrow> name_kind \<Rightarrow> bytes \<Rightarrow> bytes option" where
  "resolve_alias s kind name = map_option into_bytes (resolve_alias_parts s kind name)"

definition resolve_parts :: "namespace_scope \<Rightarrow> name_kind \<Rightarrow> bytes \<Rightarrow> name_parts \<times> bool" where
  "resolve_parts s kind name = (case resolve_alias_parts s kind name of
     Some resolved \<Rightarrow> (resolved, True)
   | None \<Rightarrow>
       if is_function kind \<and> is_never_namespaced_function name then (Input name, True)
       else (qualify_name_parts s name, False))"

definition resolve :: "namespace_scope \<Rightarrow> name_kind \<Rightarrow> bytes \<Rightarrow> bytes \<times> bool" where
  "resolve s kind name = (case resolve_parts s kind name of (p, imported) \<Rightarrow> (into_bytes p, imported))"

section \<open>Imports\<close>

record ident =
  ident_value :: bytes
  ident_span :: span

record use_item =
  item_name :: ident
  item_alias :: "bytes option"

datatype use_type = UseFunction | UseConst

datatype use_items =
  Sequence "use_item list"
| TypedSequence use_type "use_item list"
| TypedList use_type ident "use_item list"
| MixedList ident "(use_type option \<times> use_item) list"

fun type_kind :: "use_type option \<Rightarrow> name_kind" where
  "type_kind None = Default"
| "type_kind (Some UseFunction) = Function"
| "type_kind (Some UseConst) = Constant"

definition add_plain :: "name_kind \<Rightarrow> use_item \<Rightarrow> namespace_scope \<Rightarrow> namespace_scope" where
  "add_plain kind item s =
     scope_add kind (trim_start_byte (ident_value (item_name item)) backslash) (item_alias item) s"

definition add_prefixed :: "name_kind \<Rightarrow> bytes \<Rightarrow> use_item \<Rightarrow> namespace_scope \<Rightarrow> namespace_scope" where
  "add_prefixed kind prefix item s =
     scope_add kind (concat_with_sep [prefix, ident_value (item_name item)] backslash) (item_alias item) s"

fun populate_from_use :: "use_items \<Rightarrow> namespace_scope \<Rightarrow> namespace_scope" where
  "populate_from_use (Sequence items) s = fold (add_plain Default) items s"
| "populate_from_use (TypedSequence ty items) s = fold (add_plain (type_kind (Some ty))) items s"
| "populate_from_use (TypedList ty namespace items) s =
     (let prefix = trim_start_byte (ident_value namespace) backslash
      in fold (add_prefixed (type_kind (Some ty)) prefix) items s)"
| "populate_from_use (MixedList namespace items) s =
     (let prefix = trim_start_byte (ident_value namespace) backslash
      in fold (\<lambda>(ty, item). add_prefixed (type_kind ty) prefix item) items s)"

section \<open>The table of resolved names\<close>

type_synonym resolved_names = "u32 \<rightharpoonup> u32 \<times> bytes \<times> bool"

definition names_contains :: "resolved_names \<Rightarrow> u32 \<Rightarrow> bool" where
  "names_contains names n \<longleftrightarrow> names n \<noteq> None"

definition names_resolve :: "resolved_names \<Rightarrow> u32 \<Rightarrow> bytes option" where
  "names_resolve names n = (case names n of None \<Rightarrow> None | Some (_, name, _) \<Rightarrow> Some name)"

definition is_imported :: "resolved_names \<Rightarrow> u32 \<Rightarrow> bool" where
  "is_imported names n = (case names n of None \<Rightarrow> False | Some (_, _, imported) \<Rightarrow> imported)"

definition insert_at_span :: "span \<Rightarrow> bytes \<Rightarrow> bool \<Rightarrow> resolved_names \<Rightarrow> resolved_names" where
  "insert_at_span sp name imported names =
     names(offset (span_start sp) \<mapsto> (offset (span_end sp), name, imported))"

section \<open>The walk\<close>

record name_walker =
  scope :: namespace_scope
  names :: resolved_names

definition walker_init :: name_walker where
  "walker_init = \<lparr>scope = scope_global, names = Map.empty\<rparr>"

definition enter_namespace :: "bytes option \<Rightarrow> name_walker \<Rightarrow> name_walker" where
  "enter_namespace ns w = (case ns of
     Some n \<Rightarrow> w\<lparr>scope := scope_for_namespace n\<rparr>
   | None \<Rightarrow> w\<lparr>scope := scope_global\<rparr>)"

definition exit_namespace :: "name_walker \<Rightarrow> name_walker" where
  "exit_namespace w = w\<lparr>scope := scope_global\<rparr>"

definition record_name :: "ident \<Rightarrow> bytes \<Rightarrow> bool \<Rightarrow> name_walker \<Rightarrow> name_walker" where
  "record_name i name imported w = w\<lparr>names := insert_at_span (ident_span i) name imported (names w)\<rparr>"

text \<open>The two things the handlers do with an identifier: declare it, or resolve a reference.\<close>

definition declare_name :: "ident \<Rightarrow> name_walker \<Rightarrow> name_walker" where
  "declare_name i w = record_name i (qualify_name (scope w) (ident_value i)) False w"

definition reference_name :: "name_kind \<Rightarrow> ident \<Rightarrow> name_walker \<Rightarrow> name_walker" where
  "reference_name kind i w =
     (case resolve (scope w) kind (ident_value i) of (name, imported) \<Rightarrow> record_name i name imported w)"

text \<open>
  The nodes the walk visits. An optional identifier is that of the expression or the hint of the
  node, when it is one, and of the right side of \<open>instanceof\<close> for a binary expression.
\<close>

datatype event =
  InNamespace "ident option"
| OutNamespace
| InUse use_items
| InConstant "ident list"
| InFunction ident
| InClass ident
| InInterface ident
| InTrait ident
| InEnum ident
| InTraitUse "ident list"
| InExtends "ident list"
| InImplements "ident list"
| InHint "ident option"
| InAttribute ident
| InFunctionCall "ident option"
| InFunctionPartialApplication "ident option"
| InInstantiation "ident option"
| InStaticMethodCall "ident option"
| InStaticMethodPartialApplication "ident option"
| InStaticPropertyAccess "ident option"
| InClassConstantAccess "ident option"
| InBinary "ident option"
| InConstantAccess ident

definition reference_opt :: "name_kind \<Rightarrow> ident option \<Rightarrow> name_walker \<Rightarrow> name_walker" where
  "reference_opt kind i w = (case i of None \<Rightarrow> w | Some i \<Rightarrow> reference_name kind i w)"

definition record_plain :: "use_item \<Rightarrow> name_walker \<Rightarrow> name_walker" where
  "record_plain item w =
     record_name (item_name item) (trim_start_byte (ident_value (item_name item)) backslash) True w"

definition record_prefixed :: "bytes \<Rightarrow> use_item \<Rightarrow> name_walker \<Rightarrow> name_walker" where
  "record_prefixed prefix item w =
     record_name (item_name item)
       (concat_with_sep [prefix, ident_value (item_name item)] backslash) True w"

definition walk_in_namespace :: "ident option \<Rightarrow> name_walker \<Rightarrow> name_walker" where
  "walk_in_namespace name w =
     (let w = exit_namespace w;
          w = (case name of Some ns \<Rightarrow> record_name ns (ident_value ns) False w | None \<Rightarrow> w)
      in enter_namespace (map_option ident_value name) w)"

definition walk_in_use :: "use_items \<Rightarrow> name_walker \<Rightarrow> name_walker" where
  "walk_in_use u w =
     (let w = w\<lparr>scope := populate_from_use u (scope w)\<rparr> in
      case u of
        Sequence items \<Rightarrow> fold record_plain items w
      | TypedSequence _ items \<Rightarrow> fold record_plain items w
      | TypedList _ namespace items \<Rightarrow>
          let prefix = trim_start_byte (ident_value namespace) backslash
          in fold (record_prefixed prefix) items (record_name namespace prefix True w)
      | MixedList namespace items \<Rightarrow>
          let prefix = trim_start_byte (ident_value namespace) backslash
          in fold (\<lambda>(_, item). record_prefixed prefix item) items (record_name namespace prefix True w))"

definition walk_in_constant_access :: "ident \<Rightarrow> name_walker \<Rightarrow> name_walker" where
  "walk_in_constant_access i w =
     (if \<not> names_contains (names w) (offset (span_start (ident_span i)))
      then reference_name Constant i w else w)"

fun walk_step :: "event \<Rightarrow> name_walker \<Rightarrow> name_walker" where
  "walk_step (InNamespace name) w = walk_in_namespace name w"
| "walk_step OutNamespace w = exit_namespace w"
| "walk_step (InUse u) w = walk_in_use u w"
| "walk_step (InConstant items) w = fold declare_name items w"
| "walk_step (InFunction i) w = declare_name i w"
| "walk_step (InClass i) w = declare_name i w"
| "walk_step (InInterface i) w = declare_name i w"
| "walk_step (InTrait i) w = declare_name i w"
| "walk_step (InEnum i) w = declare_name i w"
| "walk_step (InTraitUse is) w = fold (reference_name Default) is w"
| "walk_step (InExtends is) w = fold (reference_name Default) is w"
| "walk_step (InImplements is) w = fold (reference_name Default) is w"
| "walk_step (InHint i) w = reference_opt Default i w"
| "walk_step (InAttribute i) w = reference_name Default i w"
| "walk_step (InFunctionCall i) w = reference_opt Function i w"
| "walk_step (InFunctionPartialApplication i) w = reference_opt Function i w"
| "walk_step (InInstantiation i) w = reference_opt Default i w"
| "walk_step (InStaticMethodCall i) w = reference_opt Default i w"
| "walk_step (InStaticMethodPartialApplication i) w = reference_opt Default i w"
| "walk_step (InStaticPropertyAccess i) w = reference_opt Default i w"
| "walk_step (InClassConstantAccess i) w = reference_opt Default i w"
| "walk_step (InBinary i) w = reference_opt Default i w"
| "walk_step (InConstantAccess i) w = walk_in_constant_access i w"

definition resolve_program :: "event list \<Rightarrow> resolved_names" where
  "resolve_program events = names (fold walk_step events walker_init)"

section \<open>Alias tables\<close>

text \<open>The contract of a table whose keys are compared up to a folding.\<close>

locale folded_table =
  fixes empty :: 't
    and ins :: "'k \<Rightarrow> 'v \<Rightarrow> 't \<Rightarrow> 't"
    and look :: "'t \<Rightarrow> 'k \<Rightarrow> 'v option"
    and key :: "'k \<Rightarrow> 'k"
  assumes look_empty: "look empty k = None"
    and look_ins: "look (ins k v t) k' = (if key k = key k' then Some v else look t k')"
begin

text \<open>Of several insertions the last one of a key is found.\<close>

lemma look_fold:
  "look (fold (\<lambda>(k, v). ins k v) kvs t) k =
     (case map_of (rev (map (\<lambda>(k, v). (key k, v)) kvs)) (key k) of
        Some v \<Rightarrow> Some v
      | None \<Rightarrow> look t k)"
proof (induction kvs rule: rev_induct)
  case (snoc kv kvs)
  then show ?case by (cases kv) (auto simp: look_ins)
qed simp

end

lemma ascii_lower_fixed: "\<not> is_ascii_uppercase (ascii_lower b)"
proof -
  have "65 + 32 \<le> b + 32" if "65 \<le> b" "b \<le> 90" for b :: u8
    using that by (simp add: word_le_nat_alt unat_word_ariths)
  then show ?thesis
    by (fastforce simp: ascii_lower_def is_ascii_uppercase_def word_le_nat_alt unat_word_ariths split: if_splits)
qed

lemma ascii_lower_id: "\<not> is_ascii_uppercase b \<Longrightarrow> ascii_lower b = b"
  by (auto simp: ascii_lower_def is_ascii_uppercase_def)

lemma to_ascii_lowercase_id: "\<not> list_ex is_ascii_uppercase k \<Longrightarrow> to_ascii_lowercase k = k"
  by (induction k) (auto simp: to_ascii_lowercase_def ascii_lower_id)

lemma to_ascii_lowercase_idem [simp]: "to_ascii_lowercase (to_ascii_lowercase k) = to_ascii_lowercase k"
  by (simp add: to_ascii_lowercase_def ascii_lower_fixed ascii_lower_id comp_def)

lemma table_lookup_folds: "table_lookup t k = t (to_ascii_lowercase k)"
  by (simp add: table_lookup_def to_ascii_lowercase_id)

interpretation aliases: folded_table Map.empty table_insert table_lookup to_ascii_lowercase
  by unfold_locales (auto simp: table_lookup_folds table_insert_def)

section \<open>Resolution of each form of name\<close>

lemma split_first_simple: "backslash \<notin> set name \<Longrightarrow> split_first name = (name, None)"
  by (simp add: split_first_def)

lemma split_first_qualified:
  assumes "backslash \<notin> set a"
  shows "split_first (a @ backslash # b) = (a, Some b)"
proof -
  have "takeWhile (\<lambda>x. x \<noteq> backslash) (a @ backslash # b) = a \<and>
    dropWhile (\<lambda>x. x \<noteq> backslash) (a @ backslash # b) = backslash # b"
    using assms by (induction a) auto
  then show ?thesis by (simp add: split_first_def)
qed

lemma lower_backslash: "ascii_lower b = backslash \<longleftrightarrow> b = backslash"
proof -
  have "b + 32 \<noteq> backslash" if "65 \<le> b" "b \<le> 90"
  proof
    assume "b + 32 = backslash"
    then have "b = backslash - 32" by (metis add_diff_cancel)
    then show False using that by simp
  qed
  then show ?thesis by (auto simp: ascii_lower_def)
qed

lemma lower_backslash_set: "backslash \<in> set (to_ascii_lowercase s) \<longleftrightarrow> backslash \<in> set s"
  using lower_backslash by (auto simp: to_ascii_lowercase_def image_iff)

lemma never_namespaced_simple: "is_never_namespaced_function name \<Longrightarrow> backslash \<notin> set name"
proof -
  assume n: "is_never_namespaced_function name"
  have "backslash \<notin> set (to_ascii_lowercase (byte_string w))" if "w \<in> {''clone'', ''exit'', ''die''}" for w
    using that by (auto simp: to_ascii_lowercase_def byte_string_def ascii_lower_def)
  then show "backslash \<notin> set name"
    using n lower_backslash_set unfolding is_never_namespaced_function_def eq_ignore_ascii_case_def
    by (metis insertCI)
qed

lemma resolve_fully_qualified: "resolve s kind (backslash # rest) = (rest, True)"
  by (simp add: resolve_def resolve_parts_def resolve_alias_parts_def)

lemma resolve_namespace_relative:
  assumes "eq_ignore_ascii_case kw (byte_string ''namespace'')"
  shows "resolve s kind (kw @ backslash # suffix) =
    ((case namespace_name s of Some ns \<Rightarrow> ns @ backslash # suffix | None \<Rightarrow> suffix), True)"
proof -
  have "backslash \<notin> set (to_ascii_lowercase (byte_string ''namespace''))"
    by (simp add: to_ascii_lowercase_def byte_string_def ascii_lower_def)
  then have kw: "backslash \<notin> set kw"
    using assms lower_backslash_set by (metis eq_ignore_ascii_case_def)
  have "kw \<noteq> []"
    using assms by (auto simp: eq_ignore_ascii_case_def to_ascii_lowercase_def byte_string_def)
  then have "hd (kw @ backslash # suffix) \<noteq> backslash" using kw by (metis hd_append2 list.set_sel(1))
  then show ?thesis
    using assms split_first_qualified[OF kw, of suffix]
    by (simp add: resolve_def resolve_parts_def resolve_alias_parts_def split: option.splits)
qed

lemma table_lookup_empty [simp]: "table_lookup Map.empty k = None"
  by (simp add: table_lookup_def)

lemma resolve_alias_parts_lookup:
  assumes "name \<noteq> []" "hd name \<noteq> backslash" "split_first name = (first, suffix)"
    "\<not> (suffix \<noteq> None \<and> eq_ignore_ascii_case first (byte_string ''namespace''))"
  shows "resolve_alias_parts s kind name =
    (case table_lookup (if suffix \<noteq> None then default_aliases s else aliases_of s kind) first of
       None \<Rightarrow> None
     | Some r \<Rightarrow> Some (case suffix of Some suffix \<Rightarrow> Qualified r suffix | None \<Rightarrow> Alias r))"
  using assms by (auto simp: resolve_alias_parts_def Let_def split: option.splits)

lemma resolve_qualified:
  assumes "first \<noteq> []" "backslash \<notin> set first"
    "\<not> eq_ignore_ascii_case first (byte_string ''namespace'')"
  shows "resolve s kind (first @ backslash # suffix) =
    (case default_aliases s (to_ascii_lowercase first) of
       Some r \<Rightarrow> (r @ backslash # suffix, True)
     | None \<Rightarrow> (qualify_name s (first @ backslash # suffix), False))"
proof -
  have "hd (first @ backslash # suffix) \<noteq> backslash"
    using assms(1,2) by (metis hd_append2 list.set_sel(1))
  moreover have "\<not> is_never_namespaced_function (first @ backslash # suffix)"
    using never_namespaced_simple[of "first @ backslash # suffix"] by auto
  ultimately show ?thesis
    using resolve_alias_parts_lookup[of "first @ backslash # suffix" first "Some suffix" s kind]
      split_first_qualified[OF assms(2), of suffix] assms(3)
    by (auto simp: resolve_def resolve_parts_def qualify_name_def table_lookup_folds split: option.splits)
qed

lemma resolve_simple:
  assumes "name \<noteq> []" "backslash \<notin> set name"
  shows "resolve s kind name =
    (case aliases_of s kind (to_ascii_lowercase name) of
       Some r \<Rightarrow> (r, True)
     | None \<Rightarrow>
         if kind = Function \<and> is_never_namespaced_function name then (name, True)
         else (qualify_name s name, False))"
proof -
  have "hd name \<noteq> backslash" using assms by (metis list.set_sel(1))
  then show ?thesis
    using resolve_alias_parts_lookup[of name name None s kind] split_first_simple[OF assms(2)] assms(1)
    by (auto simp: resolve_def resolve_parts_def qualify_name_def table_lookup_folds is_function_def
        split: option.splits)
qed

section \<open>Invariants of the walk\<close>

text \<open>
  An identifier as the parser makes it: not empty, and no part of it but a leading one is empty.
  A trailing backslash is excluded as well.
\<close>

definition valid_name :: "bytes \<Rightarrow> bool" where
  "valid_name v \<longleftrightarrow> v \<noteq> [] \<and> last v \<noteq> backslash \<and>
     (\<forall>i. Suc i < length v \<longrightarrow> \<not> (v ! i = backslash \<and> v ! Suc i = backslash))"

text \<open>A fully qualified name as the tables hold it.\<close>

definition bare :: "bytes \<Rightarrow> bool" where
  "bare v \<longleftrightarrow> v \<noteq> [] \<and> hd v \<noteq> backslash"

lemma valid_name_tl: "valid_name (b # v) \<Longrightarrow> v \<noteq> [] \<Longrightarrow> valid_name v"
  unfolding valid_name_def by (auto dest!: spec[of _ "Suc _"])

lemma valid_name_rest:
  assumes "valid_name (a @ backslash # b)"
  shows "bare b"
proof -
  have "b \<noteq> []" using assms by (auto simp: valid_name_def)
  moreover have "hd b \<noteq> backslash"
    using assms \<open>b \<noteq> []\<close>
    by (auto simp: valid_name_def nth_append hd_conv_nth dest!: spec[of _ "length a"])
  ultimately show ?thesis by (simp add: bare_def)
qed

lemma bare_append: "bare a \<Longrightarrow> bare (a @ b)"
  by (cases a) (auto simp: bare_def)

lemma trim_valid: "valid_name v \<Longrightarrow> bare (trim_start_byte v backslash)"
proof (cases v)
  case (Cons b w)
  assume v: "valid_name v"
  show ?thesis
  proof (cases "b = backslash")
    case True
    then have "bare w" using valid_name_rest[of "[]" w] v Cons by simp
    then show ?thesis using Cons True by (cases w) (auto simp: trim_start_byte_def bare_def)
  qed (simp add: Cons trim_start_byte_def bare_def)
qed (simp add: valid_name_def)

definition scope_ok :: "namespace_scope \<Rightarrow> bool" where
  "scope_ok s \<longleftrightarrow> (\<forall>ns. namespace_name s = Some ns \<longrightarrow> bare ns) \<and>
     (\<forall>kind k v. aliases_of s kind k = Some v \<longrightarrow> bare v)"

definition walker_ok :: "name_walker \<Rightarrow> bool" where
  "walker_ok w \<longleftrightarrow> scope_ok (scope w) \<and> (\<forall>n e v i. names w n = Some (e, v, i) \<longrightarrow> bare v)"

text \<open>The identifiers of an event are valid; those of a declaration and a namespace are bare.\<close>

definition items_ok :: "use_item list \<Rightarrow> bool" where
  "items_ok items \<longleftrightarrow> (\<forall>i \<in> set items. valid_name (ident_value (item_name i)))"

fun use_ok :: "use_items \<Rightarrow> bool" where
  "use_ok (Sequence items) = items_ok items"
| "use_ok (TypedSequence _ items) = items_ok items"
| "use_ok (TypedList _ namespace items) = valid_name (ident_value namespace)"
| "use_ok (MixedList namespace items) = valid_name (ident_value namespace)"

definition idents_of :: "ident option \<Rightarrow> ident list" where
  "idents_of i = (case i of None \<Rightarrow> [] | Some i \<Rightarrow> [i])"

fun declared :: "event \<Rightarrow> ident list" where
  "declared (InNamespace i) = idents_of i"
| "declared (InConstant is) = is"
| "declared (InFunction i) = [i]"
| "declared (InClass i) = [i]"
| "declared (InInterface i) = [i]"
| "declared (InTrait i) = [i]"
| "declared (InEnum i) = [i]"
| "declared _ = []"

fun referenced :: "event \<Rightarrow> ident list" where
  "referenced (InTraitUse is) = is"
| "referenced (InExtends is) = is"
| "referenced (InImplements is) = is"
| "referenced (InHint i) = idents_of i"
| "referenced (InAttribute i) = [i]"
| "referenced (InFunctionCall i) = idents_of i"
| "referenced (InFunctionPartialApplication i) = idents_of i"
| "referenced (InInstantiation i) = idents_of i"
| "referenced (InStaticMethodCall i) = idents_of i"
| "referenced (InStaticMethodPartialApplication i) = idents_of i"
| "referenced (InStaticPropertyAccess i) = idents_of i"
| "referenced (InClassConstantAccess i) = idents_of i"
| "referenced (InBinary i) = idents_of i"
| "referenced (InConstantAccess i) = [i]"
| "referenced _ = []"

definition event_ok :: "event \<Rightarrow> bool" where
  "event_ok e \<longleftrightarrow> (\<forall>i \<in> set (declared e). bare (ident_value i)) \<and>
     (\<forall>i \<in> set (referenced e). valid_name (ident_value i)) \<and>
     (case e of InUse u \<Rightarrow> use_ok u | _ \<Rightarrow> True)"

lemma scope_new_ok: "(\<forall>n. ns = Some n \<longrightarrow> bare n) \<Longrightarrow> scope_ok (scope_new ns)"
  by (auto simp: scope_ok_def scope_new_def aliases_of_def split: name_kind.splits)

lemma scope_add_ok: "scope_ok s \<Longrightarrow> bare name \<Longrightarrow> scope_ok (scope_add kind name alias s)"
  unfolding scope_ok_def scope_add_def Let_def
  by (cases kind) (auto simp: aliases_of_def table_insert_def split: name_kind.splits if_splits)

lemma fold_invariant_mem:
  assumes "P s" "\<And>x s. x \<in> set xs \<Longrightarrow> P s \<Longrightarrow> P (f x s)"
  shows "P (fold f xs s)"
  using assms by (induction xs arbitrary: s) auto

lemmas fold_scope_ok = fold_invariant_mem[where P = scope_ok]

lemma add_plain_ok: "scope_ok s \<Longrightarrow> valid_name (ident_value (item_name i)) \<Longrightarrow> scope_ok (add_plain kind i s)"
  by (simp add: add_plain_def scope_add_ok trim_valid)

lemma add_prefixed_ok: "scope_ok s \<Longrightarrow> bare prefix \<Longrightarrow> scope_ok (add_prefixed kind prefix i s)"
  by (simp add: add_prefixed_def scope_add_ok bare_append)

lemma populate_ok: "scope_ok s \<Longrightarrow> use_ok u \<Longrightarrow> scope_ok (populate_from_use u s)"
  by (cases u)
     (auto simp: items_ok_def Let_def add_plain_ok add_prefixed_ok trim_valid intro: fold_scope_ok)

lemma qualify_ok: "scope_ok s \<Longrightarrow> bare name \<Longrightarrow> bare (qualify_name s name)"
  by (auto simp: qualify_name_def qualify_name_parts_def scope_ok_def bare_append split: option.splits)

lemma resolve_ok:
  assumes "scope_ok s" "valid_name name"
  shows "bare (fst (resolve s kind name))"
proof -
  have al: "aliases_of s kind k = Some v \<Longrightarrow> bare v" for kind k v
    using assms(1) by (auto simp: scope_ok_def)
  consider rest where "name = backslash # rest"
    | "backslash \<notin> set name" "bare name"
    | first suffix where "name = first @ backslash # suffix" "first \<noteq> []" "backslash \<notin> set first" "bare name"
  proof (cases "hd name = backslash")
    case True
    then show ?thesis using that(1) assms(2) by (cases name) (auto simp: valid_name_def)
  next
    case False
    then have b: "bare name" using assms(2) by (simp add: bare_def valid_name_def)
    show ?thesis
    proof (cases "backslash \<in> set name")
      case True
      then obtain first suffix where "name = first @ backslash # suffix" "backslash \<notin> set first"
        by (meson split_list_first)
      moreover from this have "first \<noteq> []" using b by (auto simp: bare_def)
      ultimately show ?thesis using that(3) b by blast
    qed (use that(2) b in blast)
  qed
  then show ?thesis
  proof cases
    case 1
    then show ?thesis using valid_name_rest[of "[]"] assms(2) by (simp add: resolve_fully_qualified)
  next
    case 2
    then show ?thesis using al qualify_ok[OF assms(1)]
      by (auto simp: resolve_simple bare_def split: option.splits)
  next
    case 3
    show ?thesis
    proof (cases "eq_ignore_ascii_case first (byte_string ''namespace'')")
      case True
      have "bare suffix" using valid_name_rest 3(1) assms(2) by blast
      then show ?thesis using True 3 assms(1)
        by (auto simp: resolve_namespace_relative scope_ok_def bare_append split: option.splits)
    next
      case False
      then show ?thesis using 3 al[of Default] qualify_ok[OF assms(1)]
        by (auto simp: resolve_qualified aliases_of_def bare_append split: option.splits)
    qed
  qed
qed

subsection \<open>The handlers keep the invariant\<close>

lemma record_name_ok: "walker_ok w \<Longrightarrow> bare v \<Longrightarrow> walker_ok (record_name i v imported w)"
  by (auto simp: walker_ok_def record_name_def insert_at_span_def)

lemma declare_name_ok: "walker_ok w \<Longrightarrow> bare (ident_value i) \<Longrightarrow> walker_ok (declare_name i w)"
  unfolding declare_name_def by (rule record_name_ok) (auto simp: walker_ok_def qualify_ok)

lemma reference_name_ok:
  "walker_ok w \<Longrightarrow> valid_name (ident_value i) \<Longrightarrow> walker_ok (reference_name kind i w)"
  using resolve_ok[of "scope w" "ident_value i" kind]
  by (auto simp: reference_name_def walker_ok_def record_name_def insert_at_span_def split: prod.splits)

lemma reference_opt_ok:
  "walker_ok w \<Longrightarrow> \<forall>j \<in> set (idents_of i). valid_name (ident_value j) \<Longrightarrow> walker_ok (reference_opt kind i w)"
  by (auto simp: reference_opt_def idents_of_def reference_name_ok split: option.splits)

lemmas fold_walker_ok = fold_invariant_mem[where P = walker_ok]

lemma walk_in_use_ok: "walker_ok w \<Longrightarrow> use_ok u \<Longrightarrow> walker_ok (walk_in_use u w)"
proof -
  assume w: "walker_ok w" and u: "use_ok u"
  have "walker_ok (w\<lparr>scope := populate_from_use u (scope w)\<rparr>)"
    using w populate_ok[OF _ u] by (auto simp: walker_ok_def)
  moreover have plain: "walker_ok w \<Longrightarrow> valid_name (ident_value (item_name i)) \<Longrightarrow> walker_ok (record_plain i w)"
    for i w by (simp add: record_plain_def record_name_ok trim_valid)
  moreover have prefixed: "walker_ok w \<Longrightarrow> bare p \<Longrightarrow> walker_ok (record_prefixed p i w)" for p i w
    by (simp add: record_prefixed_def record_name_ok bare_append)
  ultimately show ?thesis using u
    by (cases u)
       (auto simp: walk_in_use_def Let_def items_ok_def trim_valid record_name_ok intro!: fold_walker_ok)
qed

lemma scope_global_ok: "scope_ok scope_global"
  by (simp add: scope_global_def scope_new_ok)

lemma walk_in_namespace_ok:
  "walker_ok w \<Longrightarrow> \<forall>i \<in> set (idents_of name). bare (ident_value i) \<Longrightarrow> walker_ok (walk_in_namespace name w)"
  by (cases name)
     (auto simp: walk_in_namespace_def enter_namespace_def exit_namespace_def walker_ok_def Let_def
       record_name_def insert_at_span_def idents_of_def scope_for_namespace_def scope_new_ok scope_global_ok)

lemma walk_step_ok:
  assumes "walker_ok w" "event_ok e"
  shows "walker_ok (walk_step e w)"
proof (cases e)
  case (InNamespace i)
  then show ?thesis using assms walk_in_namespace_ok by (simp add: event_ok_def)
next
  case OutNamespace
  then show ?thesis using assms(1) by (simp add: exit_namespace_def walker_ok_def scope_global_ok)
next
  case (InUse u)
  then show ?thesis using assms walk_in_use_ok by (simp add: event_ok_def)
next
  case (InConstant items)
  then show ?thesis using assms by (auto simp: event_ok_def declare_name_ok intro: fold_walker_ok)
next
  case (InTraitUse items)
  then show ?thesis using assms by (auto simp: event_ok_def reference_name_ok intro: fold_walker_ok)
next
  case (InExtends items)
  then show ?thesis using assms by (auto simp: event_ok_def reference_name_ok intro: fold_walker_ok)
next
  case (InImplements items)
  then show ?thesis using assms by (auto simp: event_ok_def reference_name_ok intro: fold_walker_ok)
next
  case (InConstantAccess i)
  then show ?thesis using assms by (simp add: event_ok_def walk_in_constant_access_def reference_name_ok)
qed (use assms in \<open>simp_all add: event_ok_def declare_name_ok reference_name_ok reference_opt_ok\<close>)

subsection \<open>No entry is lost\<close>

lemma fold_dom:
  assumes "\<And>x (w :: name_walker). dom (names w) \<subseteq> dom (names (f x w))"
  shows "dom (names w) \<subseteq> dom (names (fold f xs w))"
proof (induction xs arbitrary: w)
  case (Cons x xs)
  show ?case using order_trans[OF assms Cons.IH[of "f x w"]] by simp
qed simp

lemma record_dom: "dom (names w) \<subseteq> dom (names (record_name i v b w))"
  by (auto simp: record_name_def insert_at_span_def)

lemma handler_dom:
  "dom (names w) \<subseteq> dom (names (declare_name i w))" "dom (names w) \<subseteq> dom (names (reference_name kind i w))"
  "dom (names w) \<subseteq> dom (names (record_plain it w))" "dom (names w) \<subseteq> dom (names (record_prefixed p it w))"
  unfolding declare_name_def reference_name_def record_plain_def record_prefixed_def
  by (rule record_dom, cases "resolve (scope w) kind (ident_value i)", simp add: record_dom, rule record_dom,
      rule record_dom)

lemma reference_opt_dom: "dom (names w) \<subseteq> dom (names (reference_opt kind i w))"
  by (cases i) (simp_all only: reference_opt_def option.case handler_dom(2) subset_refl)

lemma walk_in_use_dom: "dom (names w) \<subseteq> dom (names (walk_in_use u w))"
proof -
  let ?w = "w\<lparr>scope := populate_from_use u (scope w)\<rparr>"
  have "dom (names ?w) \<subseteq> dom (names (fold record_plain items ?w))" for items
    by (rule fold_dom) (rule handler_dom)
  moreover have "dom (names ?w) \<subseteq> dom (names (fold (record_prefixed p) items (record_name i p True ?w)))"
    for p i and items :: "use_item list"
    by (rule order_trans[OF record_dom fold_dom]) (rule handler_dom)
  moreover have "dom (names ?w) \<subseteq> dom (names (fold (\<lambda>(_, item). record_prefixed p item) items (record_name i p True ?w)))"
    for p i and items :: "(use_type option \<times> use_item) list"
    by (rule order_trans[OF record_dom fold_dom]) (simp only: split_beta handler_dom(4))
  ultimately show ?thesis by (cases u) (simp_all add: walk_in_use_def Let_def)
qed

lemma walk_in_namespace_dom: "dom (names w) \<subseteq> dom (names (walk_in_namespace i w))"
  by (cases i)
     (auto simp: walk_in_namespace_def enter_namespace_def exit_namespace_def record_name_def
       insert_at_span_def Let_def)

lemma walk_step_dom: "dom (names w) \<subseteq> dom (names (walk_step e w))"
proof (cases e)
  case (InNamespace i)
  then show ?thesis using walk_in_namespace_dom by simp
next
  case (InUse u)
  then show ?thesis using walk_in_use_dom by simp
next
  case (InConstantAccess i)
  then show ?thesis using handler_dom(2) by (simp add: walk_in_constant_access_def)
qed (simp_all add: exit_namespace_def handler_dom reference_opt_dom fold_dom)

subsection \<open>The scope of a position\<close>

fun is_boundary :: "event \<Rightarrow> bool" where
  "is_boundary (InNamespace _) = True"
| "is_boundary OutNamespace = True"
| "is_boundary _ = False"

definition import_step :: "event \<Rightarrow> namespace_scope \<Rightarrow> namespace_scope" where
  "import_step e s = (case e of InUse u \<Rightarrow> populate_from_use u s | _ \<Rightarrow> s)"

lemma scope_record [simp]:
  "scope (record_name i v b w) = scope w" "scope (declare_name i w) = scope w"
  "scope (reference_name kind i w) = scope w" "scope (record_plain it w) = scope w"
  "scope (record_prefixed p it w) = scope w"
  by (simp_all add: record_name_def declare_name_def reference_name_def record_plain_def
      record_prefixed_def split: prod.splits)

lemma fold_scope:
  assumes "\<And>x (w :: name_walker). scope (f x w) = scope w"
  shows "scope (fold f xs w) = scope w"
  by (induction xs arbitrary: w) (simp_all add: assms)

lemma scope_walk_step: "\<not> is_boundary e \<Longrightarrow> scope (walk_step e w) = import_step e (scope w)"
proof (cases e)
  case (InUse u)
  then show ?thesis
    by (cases u) (simp_all add: import_step_def walk_in_use_def Let_def fold_scope split_def)
qed (auto simp: import_step_def fold_scope reference_opt_def walk_in_constant_access_def split: option.splits)

lemma scope_fold:
  "\<forall>e \<in> set es. \<not> is_boundary e \<Longrightarrow> scope (fold walk_step es w) = fold import_step es (scope w)"
  by (induction es arbitrary: w) (simp_all add: scope_walk_step)

section \<open>Properties\<close>

text \<open>C3. What a name of each form resolves to: a leading backslash is dropped; the keyword
  \<open>namespace\<close>, in any case, stands for the current namespace; the first part of a qualified
  name is looked up among the class aliases; a simple name is looked up among the aliases of its
  kind; \<open>clone\<close>, \<open>exit\<close> and \<open>die\<close> are global functions; everything else is qualified
  with the current namespace and marked as not imported. Aliases are looked up in lower case for
  every kind of name, also for constants, whose aliases PHP tells apart by case.\<close>

theorem resolution_rules:
  "resolve s kind (backslash # rest) = (rest, True) \<and>
   (eq_ignore_ascii_case kw (byte_string ''namespace'') \<longrightarrow>
     resolve s kind (kw @ backslash # suffix) =
       ((case namespace_name s of Some ns \<Rightarrow> ns @ backslash # suffix | None \<Rightarrow> suffix), True)) \<and>
   (first \<noteq> [] \<and> backslash \<notin> set first \<longrightarrow>
     resolve s kind first =
       (case aliases_of s kind (to_ascii_lowercase first) of
          Some r \<Rightarrow> (r, True)
        | None \<Rightarrow>
            if kind = Function \<and> is_never_namespaced_function first then (first, True)
            else (qualify_name s first, False)) \<and>
     (\<not> eq_ignore_ascii_case first (byte_string ''namespace'') \<longrightarrow>
       resolve s kind (first @ backslash # suffix) =
         (case default_aliases s (to_ascii_lowercase first) of
            Some r \<Rightarrow> (r @ backslash # suffix, True)
          | None \<Rightarrow> (qualify_name s (first @ backslash # suffix), False))))"
  using resolve_fully_qualified resolve_namespace_relative[of kw s kind suffix] resolve_simple[of first s kind]
    resolve_qualified[of first s kind suffix] by blast

theorem resolution_rules_witness:
  "resolve (scope_for_namespace (byte_string ''App'')) Function (byte_string ''Exit'') =
     (byte_string ''Exit'', True)"
proof -
  have f: "byte_string ''Exit'' \<noteq> [] \<and> backslash \<notin> set (byte_string ''Exit'')"
    by (simp add: byte_string_def)
  then show ?thesis
    using resolution_rules[of _ Function _ _ _ "byte_string ''Exit''"]
    by (simp add: scope_for_namespace_def scope_new_def aliases_of_def is_never_namespaced_function_def
        eq_ignore_ascii_case_def byte_string_def to_ascii_lowercase_def ascii_lower_def)
qed

text \<open>After an import, every spelling of the alias that differs only in the case of letters
  resolves to the imported name; other names, and the names of other kinds, resolve as before.
  This holds for constants as well, although constants count as case-sensitive.\<close>

theorem import_then_resolve:
  assumes "name \<noteq> []" "backslash \<notin> set name" "s' = scope_add kind target (Some alias) s"
  shows "(eq_ignore_ascii_case name alias \<longrightarrow> resolve s' kind name = (target, True)) \<and>
    (\<not> eq_ignore_ascii_case name alias \<or> kind' \<noteq> kind \<longrightarrow> resolve s' kind' name = resolve s kind' name) \<and>
    is_case_sensitive Constant"
proof -
  have look: "aliases_of s' k (to_ascii_lowercase name) =
      (if k = kind \<and> eq_ignore_ascii_case name alias then Some target
       else aliases_of s k (to_ascii_lowercase name))" for k
    using assms(3) aliases.look_ins[of "alias" target _ name, unfolded table_lookup_folds]
    by (cases kind; cases k)
       (auto simp: scope_add_def Let_def aliases_of_def eq_ignore_ascii_case_def)
  have "namespace_name s' = namespace_name s"
    using assms(3) by (cases kind) (auto simp: scope_add_def Let_def)
  then have q: "qualify_name s' n = qualify_name s n" for n
    by (simp add: qualify_name_def qualify_name_parts_def)
  show ?thesis
    unfolding resolve_simple[OF assms(1,2)] look q
    by (auto simp: is_case_sensitive_def is_constant_def)
qed

theorem import_then_resolve_witness:
  "resolve (scope_add Constant (byte_string ''A/FOO'') (Some (byte_string ''FOO'')) scope_global) Constant
     (byte_string ''foo'') = (byte_string ''A/FOO'', True)"
proof -
  have "byte_string ''foo'' \<noteq> []" "backslash \<notin> set (byte_string ''foo'')"
    "eq_ignore_ascii_case (byte_string ''foo'') (byte_string ''FOO'')"
    by (simp_all add: byte_string_def eq_ignore_ascii_case_def to_ascii_lowercase_def ascii_lower_def)
  then show ?thesis using import_then_resolve[of "byte_string ''foo''"] by blast
qed



text \<open>The scope at a node is determined by the last namespace boundary before it and the
  imports since: nothing leaks from one namespace into the next.\<close>

theorem scope_of_position:
  assumes "\<forall>e \<in> set since. \<not> is_boundary e"
  shows "scope (fold walk_step (before @ InNamespace name # since) w) =
      fold import_step since (scope_new (map_option ident_value name)) \<and>
    scope (fold walk_step (before @ OutNamespace # since) w) = fold import_step since scope_global \<and>
    scope (fold walk_step since walker_init) = fold import_step since scope_global"
  using assms
  by (cases name)
     (simp_all add: scope_fold walk_in_namespace_def enter_namespace_def exit_namespace_def Let_def
       scope_global_def scope_for_namespace_def walker_init_def)

theorem scope_of_position_witness:
  "let class = InClass \<lparr>ident_value = byte_string ''A'', ident_span = span_dummy 4 5\<rparr>;
       app = InNamespace (Some \<lparr>ident_value = byte_string ''App'', ident_span = span_dummy 0 3\<rparr>)
   in namespace_name (scope (fold walk_step ([class] @ app # [class]) walker_init)) = Some (byte_string ''App'')"
  unfolding Let_def
  by (subst scope_of_position[THEN conjunct1]) (simp_all add: import_step_def scope_new_def)

end
