(* ===== verification/Pragma.thy ===== *)
theory Pragma
  imports Source_File Byte_Text "HOL-Library.Monad_Syntax" "HOL-Library.Sublist"
begin

text \<open>
  Pragmas in comments: the lines of a comment (crate \<open>syntax\<close>, \<open>comments/mod.rs\<close> and
  \<open>cst/trivia.rs\<close>) and the pragmas parsed from them (crate \<open>collector\<close>, \<open>pragma.rs\<close>).
  \<open>None\<close> stands for a panic of a slice. Offsets of subslices, which the source takes as
  differences of pointers, are differences of lengths; where the source mixes a pointer into an
  offset, the low half of the address is a parameter.

  The lemmas give the meaning of a count suffix and locate the parsed codes in the comment.
\<close>

section \<open>Trivia\<close>

datatype trivia_kind = WhiteSpace | SingleLineComment | MultiLineComment | HashComment | DocBlockComment

record trivia =
  trivia_kind :: trivia_kind
  trivia_position :: span
  trivia_value :: bytes

definition is_comment :: "trivia_kind \<Rightarrow> bool" where
  "is_comment k \<longleftrightarrow> k = SingleLineComment \<or> k = MultiLineComment \<or> k = HashComment \<or> k = DocBlockComment"

definition is_block_comment :: "trivia_kind \<Rightarrow> bool" where
  "is_block_comment k \<longleftrightarrow> k = MultiLineComment \<or> k = DocBlockComment"

text \<open>
  \<open>byte_lines\<close> with the offset of each line: lines end at a line feed, lose a final carriage
  return, and there is no empty line after the last line feed.
\<close>

function byte_lines :: "nat \<Rightarrow> bytes \<Rightarrow> (nat \<times> bytes) list" where
  "byte_lines i rest =
     (if rest = [] then []
      else case position_of (\<lambda>b. b = LF) rest of
        Some pos \<Rightarrow>
          (let line = take pos rest in
           (i, if line \<noteq> [] \<and> last line = CR then butlast line else line)
             # byte_lines (i + pos + 1) (drop (pos + 1) rest))
      | None \<Rightarrow> [(i, rest)])"
  by pat_completeness auto
termination by (relation "measure (length \<circ> snd)") auto

declare byte_lines.simps [simp del]

definition clean_line :: "trivia_kind \<Rightarrow> bytes \<Rightarrow> bytes" where
  "clean_line k line =
     (if is_block_comment k then
        (case strip_prefix [42] (trim_ascii_start line) of
           Some stripped \<Rightarrow> trim_ascii_start stripped
         | None \<Rightarrow> line)
      else line)"

text \<open>The subtraction fails for a block comment shorter than its terminator.\<close>

definition content_bounds :: "trivia_kind \<Rightarrow> bytes \<Rightarrow> (nat \<times> nat) option option" where
  "content_bounds k full_text = (case k of
     MultiLineComment \<Rightarrow> if length full_text < 2 then None else Some (Some (2, length full_text - 2))
   | DocBlockComment \<Rightarrow> if length full_text < 2 then None else Some (Some (3, length full_text - 2))
   | SingleLineComment \<Rightarrow> Some (Some (2, length full_text))
   | HashComment \<Rightarrow> Some (Some (1, length full_text))
   | WhiteSpace \<Rightarrow> Some None)"

definition comment_lines :: "trivia \<Rightarrow> (u32 \<times> bytes) list option" where
  "comment_lines t =
     (case content_bounds (trivia_kind t) (trivia_value t) of
        None \<Rightarrow> None
      | Some None \<Rightarrow> Some []
      | Some (Some (s, e)) \<Rightarrow>
          if s \<ge> e then Some []
          else do {
            content \<leftarrow> subslice (trivia_value t) s e;
            Some (map (\<lambda>(i, line).
                let cleaned_line = clean_line (trivia_kind t) line in
                (of_nat s + of_nat i + of_nat (length line - length cleaned_line), cleaned_line))
              (byte_lines 0 content))
          })"

section \<open>Pragmas\<close>

datatype pragma_kind = Ignore | Expect

record pragma =
  pragma_kind :: pragma_kind
  pragma_span :: span
  trivia_span :: span
  scope_span :: "span option"
  start_line :: u32
  end_line :: u32
  own_line :: bool
  category :: bytes
  code :: bytes
  code_span :: span
  count_span :: "span option"
  expected_matches :: u16
  matches :: u16
  description :: bytes

definition is_ignore :: "pragma_kind \<Rightarrow> bool" where "is_ignore k \<longleftrightarrow> k = Ignore"

definition is_expect :: "pragma_kind \<Rightarrow> bool" where "is_expect k \<longleftrightarrow> k = Expect"

definition as_str :: "pragma_kind \<Rightarrow> bytes" where
  "as_str k = (case k of Ignore \<Rightarrow> byte_string ''ignore'' | Expect \<Rightarrow> byte_string ''expect'')"

definition is_fulfilled :: "pragma \<Rightarrow> bool" where
  "is_fulfilled self \<longleftrightarrow> matches self \<ge> expected_matches self"

definition is_consumed :: "pragma \<Rightarrow> bool" where
  "is_consumed self =
     (if scope_span self \<noteq> None \<and> count_span self = None then False
      else matches self \<ge> expected_matches self)"

section \<open>Splitting the text of a pragma\<close>

definition split_once_byte :: "bytes \<Rightarrow> u8 \<Rightarrow> (bytes \<times> bytes) option" where
  "split_once_byte s b = map_option (\<lambda>i. (take i s, drop (i + 1) s)) (position_of (\<lambda>x. x = b) s)"

definition splitn_whitespace_2 :: "bytes \<Rightarrow> bytes \<times> bytes" where
  "splitn_whitespace_2 s = (case position_of is_ascii_whitespace s of
     Some i \<Rightarrow> (take i s, drop (i + 1) s)
   | None \<Rightarrow> (s, []))"

definition contains_ascii_whitespace :: "bytes \<Rightarrow> bool" where
  "contains_ascii_whitespace s \<longleftrightarrow> list_ex is_ascii_whitespace s"

abbreviation comma :: u8 where "comma \<equiv> 44"
abbreviation colon :: u8 where "colon \<equiv> 58"

function split_codes_loop :: "bytes \<Rightarrow> nat \<Rightarrow> bytes \<times> bytes" where
  "split_codes_loop s cursor =
     (case position_of is_ascii_whitespace (drop cursor s) of
        None \<Rightarrow> (s, [])
      | Some ofs \<Rightarrow>
          (let end = cursor + ofs; rest = trim_ascii_start (drop end s) in
           if take end s \<noteq> [] \<and> last (take end s) \<in> {comma, colon} \<or> starts_with [comma] rest
           then split_codes_loop s (length s - length rest)
           else (take end s, rest)))"
  by pat_completeness auto

lemma trim_after_whitespace:
  assumes "position_of is_ascii_whitespace (drop c s) = Some k"
  shows "length (trim_ascii_start (drop (c + k) s)) < length (drop (c + k) s)"
proof -
  have k: "k < length (drop c s)" "is_ascii_whitespace (drop c s ! k)"
    using assms by (auto simp: position_of_Some)
  then have "drop k (drop c s) = (drop c s ! k) # drop (Suc k) (drop c s)"
    by (intro Cons_nth_drop_Suc[symmetric])
  then have "drop (c + k) s = (drop c s ! k) # drop (Suc k) (drop c s)" by (simp add: add.commute)
  then show ?thesis
    using k(2) length_dropWhile_le[of is_ascii_whitespace "drop (Suc k) (drop c s)"]
    by (simp add: trim_ascii_start_def)
qed

termination split_codes_loop
proof (relation "measure (\<lambda>(s, c). length s - c)")
  fix s c k e r
  assume "position_of is_ascii_whitespace (drop c s) = Some k" and e: "e = c + k"
    and r: "r = trim_ascii_start (drop e s)"
  then have "length r < length (drop e s)" using trim_after_whitespace by blast
  then show "((s, length s - length r), (s, c)) \<in> measure (\<lambda>(s, c). length s - c)"
    using e by simp
qed simp

declare split_codes_loop.simps [simp del]

definition split_codes_and_description :: "bytes \<Rightarrow> bytes \<times> bytes" where
  "split_codes_and_description s = split_codes_loop s 0"

text \<open>
  The optional count of a code, \<open>code(3)\<close>: the code without it, the count and the offset of
  the parenthesis.
\<close>

abbreviation open_paren :: u8 where "open_paren \<equiv> 40"
abbreviation close_paren :: u8 where "close_paren \<equiv> 41"

definition parse_count_suffix :: "bytes \<Rightarrow> (bytes \<times> u16 \<times> nat) option" where
  "parse_count_suffix c =
     (if c = [] \<or> last c \<noteq> close_paren then None
      else do {
        paren_start \<leftarrow> rposition_of (\<lambda>b. b = open_paren) c;
        if paren_start = 0 then None
        else do {
          let base = trim_end (take paren_start c);
          if base = [] then None
          else do {
            let count_str = trim_str (take (length c - 1 - (paren_start + 1)) (drop (paren_start + 1) c));
            count \<leftarrow> parse_u16 count_str;
            if count = 0 then None else Some (base, count, paren_start)
          }
        }
      })"

section \<open>Extracting pragmas\<close>

definition kind_of_line :: "bytes \<Rightarrow> (pragma_kind \<times> bytes) option" where
  "kind_of_line trimmed =
     (if starts_with (byte_string ''@mago-ignore'') trimmed then Some (Ignore, byte_string ''@mago-ignore'')
      else if starts_with (byte_string ''@mago-expect'') trimmed then Some (Expect, byte_string ''@mago-expect'')
      else None)"

text \<open>
  The lines of the comment and whether nothing but whitespace shares them, as computed for every
  pragma.
\<close>

definition comment_placement :: "source_file \<Rightarrow> span \<Rightarrow> (u32 \<times> u32 \<times> bool) option" where
  "comment_placement file sp = do {
     start \<leftarrow> line_number file (offset (span_start sp));
     end \<leftarrow> line_number file (offset (span_end sp));
     let line_start_offset = (case get_line_start_offset file start of Some n \<Rightarrow> n | None \<Rightarrow> 0);
     let line_end_offset =
       (case get_line_end_offset file end of Some n \<Rightarrow> n | None \<Rightarrow> of_nat (length (contents file)));
     prefix_text \<leftarrow> subslice (contents file) (unat line_start_offset) (unat (offset (span_start sp)));
     postfix_text \<leftarrow> subslice (contents file) (unat (offset (span_end sp))) (unat line_end_offset);
     Some (start, end, trim_ascii prefix_text = [] \<and> trim_ascii postfix_text = [])
   }"

text \<open>The chunks between the commas of a list of codes, with their offsets.\<close>

function comma_chunks :: "nat \<Rightarrow> bytes \<Rightarrow> (nat \<times> bytes) list" where
  "comma_chunks i s =
     (case position_of (\<lambda>b. b = comma) s of
        None \<Rightarrow> [(i, s)]
      | Some n \<Rightarrow> (i, take n s) # comma_chunks (i + n + 1) (drop (n + 1) s))"
  by pat_completeness auto
termination
  by (relation "measure (length \<circ> snd)") (auto simp: position_of_Some)

declare comma_chunks.simps [simp del]

text \<open>\<open>code.split_once(':')\<close>, kept when the part before the colon is a category.\<close>

definition without_category :: "bytes list \<Rightarrow> bytes \<Rightarrow> bytes" where
  "without_category categories c = (case split_once_byte c colon of
     Some (cat, rest) \<Rightarrow> if cat \<in> set categories then trim_ascii_start rest else c
   | None \<Rightarrow> c)"

definition parse_code_chunk ::
  "source_file \<Rightarrow> trivia \<Rightarrow> bytes list \<Rightarrow> pragma_kind \<Rightarrow> span \<Rightarrow> bytes \<Rightarrow> bytes \<Rightarrow> position \<Rightarrow> position
     \<Rightarrow> nat \<times> bytes \<Rightarrow> pragma list option" where
  "parse_code_chunk file t categories kind sp cat desc entry_start codes_start_offset chunk =
     (case chunk of (chunk_start, raw_chunk) \<Rightarrow>
      let code_bytes = trim_ascii raw_chunk in
      if code_bytes = [] then Some []
      else case from_utf8 code_bytes of
        None \<Rightarrow> Some []
      | Some c \<Rightarrow>
          let code_start_in_codes_part =
                chunk_start + (length raw_chunk - length (trim_ascii_start raw_chunk));
              code_start_offset = forward codes_start_offset (of_nat code_start_in_codes_part);
              entry_start_offset = (if chunk_start = 0 then entry_start else code_start_offset);
              cspan = span_new (file_file_id file) entry_start_offset
                        (forward code_start_offset (of_nat (length c)));
              c = without_category categories c;
              (base_code, expected, counted) =
                (case parse_count_suffix c of
                   Some (base, cnt, count_start_in_code) \<Rightarrow>
                     (base, cnt,
                      Some (span_new (file_file_id file)
                              (backward (span_end cspan) (of_nat (length c - count_start_in_code)))
                              (span_end cspan)))
                 | None \<Rightarrow> (c, 1, None))
          in do {
            (start, end, own) \<leftarrow> comment_placement file (trivia_position t);
            Some [\<lparr>pragma_kind = kind, pragma_span = sp, trivia_span = trivia_position t,
                   scope_span = None, start_line = start, end_line = end, own_line = own,
                   category = cat, code = base_code, code_span = cspan, count_span = counted,
                   expected_matches = expected, matches = 0, description = desc\<rparr>]
          })"

text \<open>
  One line of a comment. The offset of the codes adds the address of the codes to the position
  of the line, in saturating arithmetic, before it subtracts the address of the line;
  \<open>address\<close> is the low half of the address of the comment's text.
\<close>

definition parse_pragma_line ::
  "u32 \<Rightarrow> source_file \<Rightarrow> trivia \<Rightarrow> bytes list \<Rightarrow> u32 \<times> bytes \<Rightarrow> pragma list option" where
  "parse_pragma_line address file t categories entry =
     (case entry of (line_offset_in_trivia, line) \<Rightarrow>
      let line_address = address + line_offset_in_trivia;
          absolute_line_start = forward (span_start (trivia_position t)) line_offset_in_trivia;
          trimmed = trim_ascii_start line;
          pragma_start_offset = forward absolute_line_start (of_nat (length line - length trimmed))
      in case kind_of_line trimmed of
        None \<Rightarrow> Some []
      | Some (kind, marker) \<Rightarrow>
          let content_with_leading_space = drop (length marker) trimmed;
              content = trim_ascii_start content_with_leading_space;
              content_start = forward absolute_line_start (of_nat (length line - length content));
              pragma_end_offset = forward (forward pragma_start_offset (of_nat (length marker)))
                                    (of_nat (length content_with_leading_space));
              sp = span_new (file_file_id file) pragma_start_offset pragma_end_offset
          in case split_once_byte content colon of
            None \<Rightarrow>
              (let (code_part, rest) = splitn_whitespace_2 content in
               if code_part \<noteq> byte_string ''all'' then Some []
               else case from_utf8 (trim_ascii rest) of
                 None \<Rightarrow> Some []
               | Some desc \<Rightarrow> (case categories of
                   [] \<Rightarrow> Some []
                 | default_category # _ \<Rightarrow> do {
                     (start, end, own) \<leftarrow> comment_placement file (trivia_position t);
                     Some [\<lparr>pragma_kind = kind, pragma_span = sp, trivia_span = trivia_position t,
                            scope_span = None, start_line = start, end_line = end, own_line = own,
                            category = default_category, code = byte_string ''all'',
                            code_span = span_new (file_file_id file) content_start (forward content_start 3),
                            count_span = None, expected_matches = 1, matches = 0,
                            description = desc\<rparr>]
                   }))
          | Some (category_bytes, rest) \<Rightarrow>
              if contains_ascii_whitespace category_bytes then Some []
              else case from_utf8 category_bytes of
                None \<Rightarrow> Some []
              | Some cat \<Rightarrow>
                  if cat \<notin> set categories then Some []
                  else let codes_text = trim_ascii_start rest;
                           (codes_part, after_codes) = split_codes_and_description codes_text in
                    if codes_part = [] then Some []
                    else case from_utf8 (trim_ascii after_codes) of
                      None \<Rightarrow> Some []
                    | Some desc \<Rightarrow>
                        let codes_address = line_address + of_nat (length line - length codes_text);
                            codes_start_offset =
                              backward (forward absolute_line_start codes_address) line_address
                        in map_option concat (those (map
                             (parse_code_chunk file t categories kind sp cat desc content_start
                                codes_start_offset)
                             (comma_chunks 0 codes_part))))"

definition parse_pragmas_in_trivia ::
  "u32 \<Rightarrow> source_file \<Rightarrow> bytes list \<Rightarrow> trivia \<Rightarrow> pragma list option" where
  "parse_pragmas_in_trivia address file categories t = do {
     ls \<leftarrow> comment_lines t;
     map_option concat (those (map (parse_pragma_line address file t categories) ls))
   }"

definition extract_pragmas :: "(trivia \<Rightarrow> u32) \<Rightarrow> source_file \<Rightarrow> trivia list \<Rightarrow> bytes list \<Rightarrow> pragma list option" where
  "extract_pragmas address file trivias categories =
     map_option concat (those (map (\<lambda>t. parse_pragmas_in_trivia (address t) file categories t)
       (filter (\<lambda>t. is_comment (trivia_kind t)) trivias)))"

section \<open>Where texts lie\<close>

text \<open>\<open>lies c n s\<close>: the text \<open>s\<close> stands at offset \<open>n\<close> of \<open>c\<close>.\<close>

definition lies :: "bytes \<Rightarrow> nat \<Rightarrow> bytes \<Rightarrow> bool" where
  "lies c n s \<longleftrightarrow> n + length s \<le> length c \<and> take (length s) (drop n c) = s"

lemma liesD:
  assumes "lies c n s"
  shows "n + length s \<le> length c" "subslice c n (n + length s) = Some s"
  using assms by (auto simp: lies_def)

lemma lies_refl: "lies s 0 s"
  by (simp add: lies_def)

lemma lies_append: "lies c n (xs @ ys) \<Longrightarrow> lies c n xs \<and> lies c (n + length xs) ys"
proof -
  assume l: "lies c n (xs @ ys)"
  have "take (length ys) (drop (length xs) (drop n c)) = drop (length xs) (take (length (xs @ ys)) (drop n c))"
    by (simp add: drop_take)
  also have "\<dots> = ys" using l by (simp add: lies_def)
  finally have "take (length ys) (drop (length xs) (drop n c)) = ys" .
  moreover have "take (length xs) (drop n c) = take (length xs) (take (length (xs @ ys)) (drop n c))"
    by (simp add: min_def)
  then have "take (length xs) (drop n c) = take (length xs) (xs @ ys)"
    using l unfolding lies_def by (simp only:)
  ultimately show ?thesis using l by (simp add: lies_def add.commute)
qed

lemma lies_trans:
  assumes "lies c n s" "lies s m r"
  shows "lies c (n + m) r"
proof -
  have "s = take m s @ r @ drop (m + length r) s"
    using assms(2) unfolding lies_def by (metis append_take_drop_id drop_drop add.commute)
  then have "lies c n (take m s @ r @ drop (m + length r) s)" using assms(1) by simp
  then have "lies c (n + length (take m s)) r" using lies_append by blast
  then show ?thesis using assms(2) by (simp add: lies_def)
qed

lemma lies_take: "lies s 0 (take n s)"
  by (simp add: lies_def min_def)

lemma lies_drop: "n \<le> length s \<Longrightarrow> lies s n (drop n s)"
  by (simp add: lies_def)

lemma lies_take_drop: "n \<le> length s \<Longrightarrow> lies s n (take m (drop n s))"
  using lies_trans[OF lies_drop lies_take, of n s m] by simp

lemma lies_trim_start: "lies s (length s - length (trim_ascii_start s)) (trim_ascii_start s)"
  using lies_drop[of "length s - length (trim_ascii_start s)" s] trim_ascii_start_drop[of s] by simp

lemma lies_trim: "lies s (length s - length (trim_ascii_start s)) (trim_ascii s)"
  using lies_take_drop[of "length s - length (trim_ascii_start s)" s "length (trim_ascii s)"]
    trim_ascii_slice[of s] by simp

lemma lies_subslice: "subslice c s e = Some t \<Longrightarrow> lies c s t \<and> length t = e - s"
  by (auto simp: subslice_def lies_def min_def split: if_splits)

lemma lies_byte_lines:
  "(i, l) \<in> set (byte_lines b rest) \<Longrightarrow> b \<le> i \<and> lies rest (i - b) l"
proof (induction b rest rule: byte_lines.induct)
  case (1 b rest)
  show ?case
  proof (cases "rest = []")
    case True
    then show ?thesis using "1.prems" by (simp add: byte_lines.simps)
  next
    case False
    show ?thesis
    proof (cases "position_of (\<lambda>b. b = LF) rest")
      case None
      then show ?thesis using "1.prems" False by (simp add: byte_lines.simps lies_refl)
    next
      case (Some pos)
      then have pos: "pos < length rest" by (simp add: position_of_Some)
      let ?line = "take pos rest"
      have line: "lies rest 0 (if ?line \<noteq> [] \<and> last ?line = CR then butlast ?line else ?line)"
        using lies_trans[OF lies_take lies_take, of rest pos "length ?line - 1"] lies_take[of rest pos]
        by (simp add: butlast_conv_take)
      consider "i = b" "l = (if ?line \<noteq> [] \<and> last ?line = CR then butlast ?line else ?line)"
        | "(i, l) \<in> set (byte_lines (b + pos + 1) (drop (pos + 1) rest))"
        using "1.prems" False Some by (subst (asm) byte_lines.simps) (auto simp: Let_def)
      then show ?thesis
      proof cases
        case 1
        then show ?thesis using line by simp
      next
        case 2
        then have "b + pos + 1 \<le> i \<and> lies (drop (pos + 1) rest) (i - (b + pos + 1)) l"
          using "1.IH"[OF False Some refl] by blast
        then have le: "b + pos + 1 \<le> i" and "lies rest (pos + 1 + (i - (b + pos + 1))) l"
          using lies_trans[OF lies_drop, of "pos + 1" rest "i - (b + pos + 1)" l] pos by simp_all
        moreover have "pos + 1 + (i - (b + pos + 1)) = i - b" using le by linarith
        ultimately show ?thesis by simp
      qed
    qed
  qed
qed

lemma lies_comma_chunks:
  "(i, l) \<in> set (comma_chunks b s) \<Longrightarrow> b \<le> i \<and> lies s (i - b) l"
proof (induction b s rule: comma_chunks.induct)
  case (1 b s)
  show ?case
  proof (cases "position_of (\<lambda>b. b = comma) s")
    case None
    then show ?thesis using "1.prems" by (simp add: comma_chunks.simps lies_refl)
  next
    case (Some n)
    then have n: "n < length s" by (simp add: position_of_Some)
    consider "i = b" "l = take n s" | "(i, l) \<in> set (comma_chunks (b + n + 1) (drop (n + 1) s))"
      using "1.prems" Some by (subst (asm) comma_chunks.simps) auto
    then show ?thesis
    proof cases
      case 1
      then show ?thesis by (simp add: lies_take)
    next
      case 2
      then have "b + n + 1 \<le> i \<and> lies (drop (n + 1) s) (i - (b + n + 1)) l"
        using "1.IH"[OF Some] by blast
      then have le: "b + n + 1 \<le> i" and "lies s (n + 1 + (i - (b + n + 1))) l"
        using lies_trans[OF lies_drop, of "n + 1" s "i - (b + n + 1)" l] n by simp_all
      moreover have "n + 1 + (i - (b + n + 1)) = i - b" using le by linarith
      ultimately show ?thesis by simp
    qed
  qed
qed

lemma clean_line_suffix:
  "length (clean_line k line) \<le> length line \<and>
   lies line (length line - length (clean_line k line)) (clean_line k line)"
proof (cases "is_block_comment k \<and> starts_with [42] (trim_ascii_start line)")
  case True
  obtain r where r: "trim_ascii_start line = 42 # r"
    using True by (cases "trim_ascii_start line") (auto simp: starts_with_def)
  have eq: "clean_line k line = trim_ascii_start r"
    using True by (simp add: clean_line_def strip_prefix_def r)
  have le: "Suc (length r) \<le> length line" "length (trim_ascii_start r) \<le> length r"
    using length_trim_ascii_start[of line] by (simp_all add: r)
  have "lies line (length line - Suc (length r)) (42 # r)" using lies_trim_start[of line] by (simp add: r)
  moreover have "lies (42 # r) 1 r" using lies_drop[of 1 "42 # r"] by simp
  ultimately have "lies line (length line - Suc (length r) + 1 + (length r - length (trim_ascii_start r)))
      (trim_ascii_start r)"
    using lies_trans lies_trim_start by blast
  moreover have "length line - Suc (length r) + 1 + (length r - length (trim_ascii_start r)) =
      length line - length (trim_ascii_start r)"
    using le by linarith
  ultimately show ?thesis using le by (simp add: eq)
next
  case False
  then have "clean_line k line = line" by (auto simp: clean_line_def strip_prefix_def)
  then show ?thesis by (simp add: lies_refl)
qed

lemma lies_comment_lines:
  assumes "comment_lines t = Some ls" "(n, l) \<in> set ls" "length (trivia_value t) < 2 ^ 32"
  shows "lies (trivia_value t) (unat n) l"
proof -
  obtain s e content where b: "subslice (trivia_value t) s e = Some content"
    and ls: "ls = map (\<lambda>(i, line). let cleaned_line = clean_line (trivia_kind t) line in
        (of_nat s + of_nat i + of_nat (length line - length cleaned_line), cleaned_line)) (byte_lines 0 content)"
    using assms(1,2) unfolding comment_lines_def
    by (auto split: option.splits prod.splits if_splits bind_splits simp: Let_def)
  then obtain i line where i: "(i, line) \<in> set (byte_lines 0 content)" "l = clean_line (trivia_kind t) line"
    "n = of_nat s + of_nat i + of_nat (length line - length l)"
    using assms(2) by (auto simp: Let_def)
  have "lies content i line" using lies_byte_lines[OF i(1)] by simp
  from lies_trans[OF lies_trans[OF conjunct1[OF lies_subslice[OF b]] this]
      conjunct2[OF clean_line_suffix[of "trivia_kind t" line]]]
  have l: "lies (trivia_value t) (s + i + (length line - length l)) l" by (simp add: i(2))
  have "unat n = s + i + (length line - length l)"
    unfolding i(3) using liesD(1)[OF l] assms(3)
    by (simp flip: of_nat_add add: unat_of_nat_u32)
  then show ?thesis using l by simp
qed

section \<open>The count suffix\<close>

lemma digit_byte_no_whitespace:
  assumes "d < 10" "w \<in> set whitespace_chars"
  shows "hd w \<noteq> of_char (digit_char d)" "last w \<noteq> of_char (digit_char d)"
proof -
  have "unat (of_char (digit_char d) :: u8) = 48 + d"
    using assms(1) of_char_digit[of d] by (simp add: unat_of_char)
  then have "(of_char (digit_char d) :: u8) \<noteq> x" if "unat x < 48 \<or> 57 < unat x" for x
    using that assms(1) by auto
  then show "hd w \<noteq> of_char (digit_char d)" "last w \<noteq> of_char (digit_char d)"
    using assms(2) by (auto simp: whitespace_chars_def)
qed

lemma whitespace_not_Nil: "w \<in> set whitespace_chars \<Longrightarrow> w \<noteq> []"
  by (auto simp: whitespace_chars_def)

lemma trim_str_show [simp]: "trim_str (show_bytes n) = show_bytes n"
proof -
  have digits: "\<exists>d < 10. b = of_char (digit_char d)" if "b \<in> set (show_bytes n)" for b
    using that show_nat_digits[of _ n] by (auto simp: show_bytes_def byte_string_def)
  have ne: "show_bytes n \<noteq> []" by (simp add: show_bytes_def byte_string_def)
  have "\<not> starts_with w (show_bytes n)" "\<not> starts_with (rev w) (rev (show_bytes n))"
    if "w \<in> set whitespace_chars" for w
  proof -
    obtain d where "d < 10" "hd (show_bytes n) = of_char (digit_char d)" using digits[OF hd_in_set[OF ne]] by blast
    moreover have "hd w = hd (show_bytes n)" if "starts_with w (show_bytes n)"
      using that whitespace_not_Nil[OF \<open>w \<in> _\<close>] unfolding starts_with_def
      by (metis hd_take length_greater_0_conv)
    ultimately show "\<not> starts_with w (show_bytes n)" using digit_byte_no_whitespace(1) that by metis
    obtain d where "d < 10" "last (show_bytes n) = of_char (digit_char d)" using digits[OF last_in_set[OF ne]] by blast
    moreover have "hd (rev w) = hd (rev (show_bytes n))" if "starts_with (rev w) (rev (show_bytes n))"
      using that whitespace_not_Nil[OF \<open>w \<in> _\<close>] unfolding starts_with_def
      by (metis hd_take length_greater_0_conv length_rev)
    ultimately show "\<not> starts_with (rev w) (rev (show_bytes n))"
      using digit_byte_no_whitespace(2) that ne whitespace_not_Nil by (metis hd_rev)
  qed
  then show ?thesis
    by (simp add: trim_str_def trim_start_def trim_end_def strip_any_id)
qed

lemma show_bytes_no_paren: "open_paren \<notin> set (show_bytes n)"
proof
  assume "open_paren \<in> set (show_bytes n)"
  then obtain c where c: "c \<in> set (show_nat n)" "open_paren = of_char c"
    by (auto simp: show_bytes_def byte_string_def)
  then obtain d where "d < 10" "open_paren = of_char (digit_char d)" using show_nat_digits by blast
  then have "unat (40 :: u8) = 48 + d" using of_char_digit[of d] by (metis unat_of_char)
  then show False by simp
qed

text \<open>
  A count written after a code is read back: for every count from 1 to 65535 the code, the
  count and the offset of its parenthesis are recovered.
\<close>

theorem count_suffix_roundtrip:
  assumes "base \<noteq> []" "trim_end base = base" "0 < n" "n < 2 ^ 16"
  shows "parse_count_suffix (base @ [open_paren] @ show_bytes n @ [close_paren]) =
    Some (base, of_nat n, length base)"
proof -
  let ?c = "base @ open_paren # (show_bytes n @ [close_paren])"
  have "rposition_of (\<lambda>b. b = open_paren) ?c = Some (length base)"
    using show_bytes_no_paren by (intro rposition_of_append) auto
  moreover have "(of_nat n :: u16) \<noteq> 0"
    using assms(3,4) by (simp add: word_of_nat_eq_0_iff) (metis nat_dvd_not_less)
  ultimately show ?thesis
    using assms parse_u16_show[of n] by (simp add: parse_count_suffix_def Let_def)
qed

theorem count_suffix_roundtrip_witness:
  "parse_count_suffix (byte_string ''rule'' @ [open_paren] @ show_bytes 3 @ [close_paren]) =
    Some (byte_string ''rule'', 3, 4)"
proof -
  have "trim_end (byte_string ''rule'') = byte_string ''rule''"
    unfolding trim_end_def by (subst strip_any_id) (auto simp: whitespace_chars_def starts_with_def)
  then show ?thesis using count_suffix_roundtrip[of "byte_string ''rule''" 3] by simp
qed

lemma parse_count_suffixD:
  assumes "parse_count_suffix c = Some (b, n, k)"
  shows "0 < n" "0 < k" "k + 1 < length c" "c ! k = open_paren" "last c = close_paren" "b \<noteq> []"
    "b = trim_end (take k c)"
proof -
  have d: "c \<noteq> [] \<and> last c = close_paren \<and> rposition_of (\<lambda>b. b = open_paren) c = Some k \<and> k \<noteq> 0 \<and>
      b = trim_end (take k c) \<and> b \<noteq> [] \<and> n \<noteq> 0"
    using assms unfolding parse_count_suffix_def
    by (auto simp: Let_def split: if_splits bind_splits)
  then have k: "k < length c" "c ! k = open_paren" using rposition_of_SomeD by fast+
  moreover have "k \<noteq> length c - 1"
    using d k(2) by (auto simp: last_conv_nth)
  ultimately show "0 < n" "0 < k" "k + 1 < length c" "c ! k = open_paren" "last c = close_paren"
    "b \<noteq> []" "b = trim_end (take k c)"
    using d by (auto simp: word_gt_0)
qed

section \<open>Where codes lie in the file\<close>

text \<open>
  The code of a pragma stands inside its code span, up to the end of the span or up to the count
  suffix, whose span holds the parentheses.
\<close>

definition code_located :: "bytes \<Rightarrow> pragma \<Rightarrow> bool" where
  "code_located src p \<longleftrightarrow>
     (let s = unat (offset (span_start (code_span p))); e = unat (offset (span_end (code_span p))) in
      s \<le> e \<and> e \<le> length src \<and>
      (\<exists>k. lies (take (e - s) (drop s src)) k (code p) \<and>
        (case count_span p of
           None \<Rightarrow> s + k + length (code p) = e
         | Some c \<Rightarrow> span_end c = span_end (code_span p) \<and> unat (offset (span_start c)) \<le> e \<and>
             s + k + length (code p) \<le> unat (offset (span_start c)) \<and>
             (\<exists>u. subslice src (unat (offset (span_start c))) e = Some (open_paren # u @ [close_paren])))))"

lemma offset_forward:
  "unat (offset p) + k < 2 ^ 32 \<Longrightarrow> unat (offset (forward p (of_nat k))) = unat (offset p) + k"
  by (simp add: forward_def unat_sat_add_u32 unat_of_nat_u32)

lemma offset_backward: "unat (offset (backward p n)) = unat (offset p) - unat n"
  by (simp add: backward_def unat_sat_sub_u32)

lemma lies_within:
  assumes "lies src b r" "s \<le> b" "b + length r \<le> e" "e \<le> length src"
  shows "lies (take (e - s) (drop s src)) (b - s) r"
proof -
  have "take (length r) (drop (b - s) (take (e - s) (drop s src))) = take (length r) (drop b src)"
    using assms(2,3) by (simp add: drop_take min_def)
  then show ?thesis using assms by (simp add: lies_def)
qed

lemma without_category_suffix:
  "\<exists>j. lies c j (without_category categories c) \<and> j + length (without_category categories c) = length c"
proof (cases "\<exists>i. position_of (\<lambda>x. x = colon) c = Some i \<and> take i c \<in> set categories")
  case True
  then obtain i where i: "position_of (\<lambda>x. x = colon) c = Some i" "take i c \<in> set categories" by blast
  let ?r = "trim_ascii_start (drop (i + 1) c)"
  have "i < length c" using i(1) by (simp add: position_of_Some)
  then have "lies c (i + 1 + (length (drop (i + 1) c) - length ?r)) ?r"
    by (intro lies_trans[OF lies_drop lies_trim_start]) simp
  moreover have "i + 1 + (length (drop (i + 1) c) - length ?r) + length ?r = length c"
    using length_trim_ascii_start[of "drop (i + 1) c"] \<open>i < length c\<close> by (simp del: length_trim_ascii_start)
  moreover have "without_category categories c = ?r"
    using i by (simp add: without_category_def split_once_byte_def)
  ultimately show ?thesis by metis
next
  case False
  then have "without_category categories c = c"
    by (auto simp: without_category_def split_once_byte_def split: option.splits)
  then show ?thesis by (intro exI[of _ 0]) (simp add: lies_refl)
qed

lemma trim_end_lies: "lies s 0 (trim_end s)"
  using trim_end_prefix[of s] lies_take by metis

lemma code_chunk_located:
  assumes chunk: "parse_code_chunk file t cats kind sp cat desc es cs (i, raw) = Some ps" "p \<in> set ps"
    and raw: "lies src (unat (offset cs) + i) raw"
    and bound: "length src < 2 ^ 32" and es: "unat (offset es) \<le> unat (offset cs)"
  shows "code_located src p"
proof -
  define c0 where "c0 = trim_ascii raw"
  define b where "b = unat (offset cs) + (i + (length raw - length (trim_ascii_start raw)))"
  define c where "c = without_category cats c0"
  define start where "start = (if i = 0 then es else forward cs (of_nat (i + (length raw - length (trim_ascii_start raw)))))"
  have c0: "lies src b c0"
    using lies_trans[OF raw lies_trim] by (simp add: b_def c0_def add.assoc)
  then have le: "b + length c0 \<le> length src" by (rule liesD)
  have unat_b: "unat (offset (forward cs (of_nat (i + (length raw - length (trim_ascii_start raw)))))) = b"
    using le bound unfolding b_def by (intro offset_forward) linarith
  have unat_e: "unat (offset (forward (forward cs (of_nat (i + (length raw - length (trim_ascii_start raw)))))
      (of_nat (length c0)))) = b + length c0"
    using le bound unat_b by (subst offset_forward) simp_all
  define e where "e = forward (forward cs (of_nat (i + (length raw - length (trim_ascii_start raw))))) (of_nat (length c0))"
  have e: "unat (offset e) = b + length c0" using unat_e by (simp add: e_def)
  have "unat (offset cs) \<le> b" by (simp only: b_def)
  then have start: "unat (offset start) \<le> b" using es unat_b by (simp add: start_def)
  have p: "code_span p = span_new (file_file_id file) start e \<and>
      (case parse_count_suffix c of
         None \<Rightarrow> code p = c \<and> count_span p = None
       | Some (base, n, k) \<Rightarrow> code p = base \<and>
           count_span p = Some (span_new (file_file_id file) (backward e (of_nat (length c - k))) e))"
    using chunk unfolding parse_code_chunk_def c_def e_def start_def c0_def
    by (auto simp: Let_def from_utf8_def span_new_def split: if_splits option.splits prod.splits bind_splits)
  obtain j where j: "lies c0 j c" "j + length c = length c0"
    using without_category_suffix c_def by blast
  have c: "lies src (b + j) c" by (rule lies_trans[OF c0 j(1)])
  have in_span: "lies (take (unat (offset e) - unat (offset start)) (drop (unat (offset start)) src))
      (b + j - unat (offset start)) r" if "lies c 0 r" for r
    using lies_trans[OF c that] liesD(1)[OF that] start le j(2) e
    by (intro lies_within) simp_all
  show ?thesis
  proof (cases "parse_count_suffix c")
    case None
    then have "code p = c" "count_span p = None" "code_span p = span_new (file_file_id file) start e"
      using p by simp_all
    then show ?thesis
      using in_span[OF lies_refl] start le e j(2)
      unfolding code_located_def Let_def by (auto simp: span_new_def intro!: exI[of _ "b + j - unat (offset start)"])
  next
    case (Some a)
    then obtain base n k where s: "parse_count_suffix c = Some (base, n, k)" by (cases a) auto
    note d = parse_count_suffixD[OF s]
    have base: "lies c 0 base" "length base \<le> k"
      using lies_trans[OF lies_take[of c k] trim_end_lies] liesD(1)[OF trim_end_lies[of "take k c"]] d(3,7)
      by simp_all
    have off: "unat (offset (backward e (of_nat (length c - k)))) = b + j + k"
      using d(3) e j(2) le bound
      by (simp add: offset_backward unat_of_nat_u32 del: of_nat_diff)
    obtain u where u: "drop k c = open_paren # u @ [close_paren]"
    proof -
      have "drop k c = open_paren # drop (Suc k) c"
        using d(3,4) by (simp flip: Cons_nth_drop_Suc)
      moreover have "drop (Suc k) c \<noteq> []" "last (drop (Suc k) c) = close_paren" using d(3,5) by simp_all
      ultimately show thesis using that append_butlast_last_id by metis
    qed
    have "lies src (b + j + k) (drop k c)"
      using lies_trans[OF c lies_drop[of k c]] d(3) by simp
    then have "subslice src (b + j + k) (unat (offset e)) = Some (open_paren # u @ [close_paren])"
      using liesD(2)[of src "b + j + k" "drop k c"] d(3) e j(2) unfolding u[symmetric] by simp
    moreover have "code p = base" "code_span p = span_new (file_file_id file) start e"
      "count_span p = Some (span_new (file_file_id file) (backward e (of_nat (length c - k))) e)"
      using p s by simp_all
    ultimately show ?thesis
      using in_span[OF base(1)] base(2) start le e off d(3) j(2)
      unfolding code_located_def Let_def
      by (auto simp: span_new_def intro!: exI[of _ "b + j - unat (offset start)"])
  qed
qed

lemma lies_suffix: "suffix r s \<Longrightarrow> lies s (length s - length r) r"
  by (auto simp: suffix_def lies_def)

lemma suffix_trim_start: "suffix (trim_ascii_start s) s"
  unfolding trim_ascii_start_def by (rule suffix_dropWhile)

lemma split_codes_prefix: "\<exists>n. fst (split_codes_loop s c) = take n s"
proof (induction s c rule: split_codes_loop.induct)
  case (1 s c)
  show ?case
  proof (cases "position_of is_ascii_whitespace (drop c s)")
    case None
    then show ?thesis by (subst split_codes_loop.simps) (auto intro: exI[of _ "length s"])
  next
    case (Some k)
    let ?stop = "c + k"
    let ?rest = "trim_ascii_start (drop ?stop s)"
    show ?thesis
    proof (cases "take ?stop s \<noteq> [] \<and> last (take ?stop s) \<in> {comma, colon} \<or> starts_with [comma] ?rest")
      case True
      then have "split_codes_loop s c = split_codes_loop s (length s - length ?rest)"
        using Some by (subst split_codes_loop.simps) (simp add: Let_def)
      then show ?thesis using "1.IH"[OF Some refl refl True] by simp
    next
      case False
      then have "split_codes_loop s c = (take ?stop s, ?rest)"
        using Some by (subst split_codes_loop.simps) (simp only: option.case Let_def False if_False)
      then show ?thesis by auto
    qed
  qed
qed

lemma codes_prefix:
  assumes "split_codes_and_description s = (codes, desc)"
  shows "lies s 0 codes"
  using split_codes_prefix[of s 0] assms lies_take by (auto simp: split_codes_and_description_def)

lemma splitn_prefix: "splitn_whitespace_2 s = (a, b) \<Longrightarrow> lies s 0 a"
  using lies_take lies_refl by (auto simp: splitn_whitespace_2_def split: option.splits)

lemma those_concatD:
  assumes "map_option concat (those (map f xs)) = Some ys" "y \<in> set ys"
  obtains x zs where "x \<in> set xs" "f x = Some zs" "y \<in> set zs"
proof -
  obtain zss where "those (map f xs) = Some zss" "\<exists>zs \<in> set zss. y \<in> set zs"
    using assms by auto
  then have "\<exists>x \<in> set xs. \<exists>zs. f x = Some zs \<and> y \<in> set zs"
    by (induction xs arbitrary: zss) (fastforce split: option.splits)+
  then show thesis using that by blast
qed

text \<open>The positions a line of a comment computes, when the address does not saturate.\<close>

lemma line_positions:
  assumes line: "lies src (unat (offset start) + unat n) line" and r: "suffix r line"
    and bound: "unat address + 2 * length src < 2 ^ 32"
  shows "unat (offset (forward (forward start n) (of_nat (length line - length r)))) =
      unat (offset start) + unat n + (length line - length r)"
    "unat (offset (backward (forward (forward start n)
        (address + n + of_nat (length line - length r))) (address + n))) =
      unat (offset start) + unat n + (length line - length r)"
    "lies src (unat (offset start) + unat n + (length line - length r)) r"
proof -
  have le: "unat (offset start) + unat n + length line \<le> length src" using line by (rule liesD)
  have a: "unat (offset (forward start n)) = unat (offset start) + unat n"
    using offset_forward[of start "unat n"] le bound by simp
  then show "unat (offset (forward (forward start n) (of_nat (length line - length r)))) =
      unat (offset start) + unat n + (length line - length r)"
    using le bound by (subst offset_forward) simp_all
  have an: "unat (address + n) = unat address + unat n"
    using le bound by (simp add: unat_word_ariths)
  then have "unat (address + n + of_nat (length line - length r)) = unat address + unat n + (length line - length r)"
    using le bound by (simp add: unat_word_ariths unat_of_nat_u32)
  then show "unat (offset (backward (forward (forward start n)
        (address + n + of_nat (length line - length r))) (address + n))) =
      unat (offset start) + unat n + (length line - length r)"
    using a an le bound by (simp add: offset_backward forward_def[of "forward start n"] unat_sat_add_u32)
  show "lies src (unat (offset start) + unat n + (length line - length r)) r"
    by (rule lies_trans[OF line lies_suffix[OF r]])
qed

lemma pragma_line_located:
  assumes res: "parse_pragma_line address file t cats (n, line) = Some ps" "p \<in> set ps"
    and line: "lies src (unat (offset (span_start (trivia_position t))) + unat n) line"
    and bound: "unat address + 2 * length src < 2 ^ 32"
  shows "code_located src p"
proof -
  let ?start = "span_start (trivia_position t)"
  obtain kind marker where k: "kind_of_line (trim_ascii_start line) = Some (kind, marker)"
    using res unfolding parse_pragma_line_def by (auto simp: Let_def split: option.splits)
  define content where "content = trim_ascii_start (drop (length marker) (trim_ascii_start line))"
  define cstart where "cstart = forward (forward ?start n) (of_nat (length line - length content))"
  have content: "suffix content line"
    unfolding content_def by (meson suffix_drop suffix_order.trans suffix_trim_start)
  note cpos = line_positions[OF line content bound, folded cstart_def]
  have len: "length src < 2 ^ 32" using bound by simp
  show ?thesis
  proof (cases "split_once_byte content colon")
    case None
    then obtain rest where all: "splitn_whitespace_2 content = (byte_string ''all'', rest)"
      and p: "code p = byte_string ''all''" "count_span p = None"
        "code_span p = span_new (file_file_id file) cstart (forward cstart 3)"
      using res k unfolding parse_pragma_line_def content_def cstart_def
      by (auto simp: Let_def split: option.splits prod.splits if_splits list.splits bind_splits)
    have a: "lies src (unat (offset cstart)) (byte_string ''all'')"
      using lies_trans[OF cpos(3) splitn_prefix[OF all]] cpos(1) by simp
    then have le: "unat (offset cstart) + 3 \<le> length src" using liesD(1) by fastforce
    then have "unat (offset (forward cstart 3)) = unat (offset cstart) + 3"
      using offset_forward[of cstart 3] len by simp
    then show ?thesis
      using lies_within[OF a, of "unat (offset cstart)" "unat (offset cstart) + 3"] le
      unfolding code_located_def Let_def by (auto simp: p span_new_def intro!: exI[of _ 0])
  next
    case (Some a)
    then obtain cat rest where s: "split_once_byte content colon = Some (cat, rest)" by (cases a) auto
    define codes_text where "codes_text = trim_ascii_start rest"
    obtain codes_part after_codes where sp: "split_codes_and_description codes_text = (codes_part, after_codes)"
      by (cases "split_codes_and_description codes_text") auto
    define cs where "cs = backward (forward (forward ?start n) (address + n + of_nat (length line - length codes_text)))
        (address + n)"
    obtain sps desc where "map_option concat (those (map
        (parse_code_chunk file t cats kind sps cat desc cstart cs) (comma_chunks 0 codes_part))) = Some ps"
      using res k s sp unfolding parse_pragma_line_def content_def[symmetric] cstart_def cs_def
      by (auto simp: Let_def content_def[symmetric] codes_text_def[symmetric] from_utf8_def
          split: option.splits prod.splits if_splits)
    then obtain i raw zs where chunk: "(i, raw) \<in> set (comma_chunks 0 codes_part)"
      "parse_code_chunk file t cats kind sps cat desc cstart cs (i, raw) = Some zs" "p \<in> set zs"
      using res(2) by (metis those_concatD surj_pair)
    have "suffix rest content" using s by (auto simp: split_once_byte_def suffix_drop)
    then have ct: "suffix codes_text line" "length codes_text \<le> length content"
      using content unfolding codes_text_def
      by (meson suffix_order.trans suffix_trim_start, meson suffix_length_le suffix_order.trans suffix_trim_start)
    note spos = line_positions[OF line ct(1) bound, folded cs_def]
    have "lies src (unat (offset cs) + i) raw"
      using lies_trans[OF lies_trans[OF spos(3) codes_prefix[OF sp]]] lies_comma_chunks[OF chunk(1)] spos(2)
      by fastforce
    then show ?thesis
      using code_chunk_located[OF chunk(2,3) _ len] cpos(1) spos(2) ct(2) by simp
  qed
qed

text \<open>
  C39. For a comment that stands in its file at its span, every pragma's code lies in the code
  span, up to the end or up to the parenthesised count, provided that the address of the comment
  leaves room for the offsets below \<open>2\<^sup>3\<^sup>2\<close>.
\<close>

theorem code_spans_exact:
  assumes "subslice (contents file) (unat (offset (span_start (trivia_position t))))
      (unat (offset (span_end (trivia_position t)))) = Some (trivia_value t)"
    and "unat address + 2 * length (contents file) < 2 ^ 32"
    and "parse_pragmas_in_trivia address file cats t = Some ps" and "p \<in> set ps"
  shows "code_located (contents file) p"
proof -
  obtain ls where ls: "comment_lines t = Some ls"
    "map_option concat (those (map (parse_pragma_line address file t cats) ls)) = Some ps"
    using assms(3) by (auto simp: parse_pragmas_in_trivia_def split: bind_splits)
  from those_concatD[OF ls(2) assms(4)] obtain n line zs where
    line: "(n, line) \<in> set ls" "parse_pragma_line address file t cats (n, line) = Some zs" "p \<in> set zs"
    by (metis surj_pair)
  have v: "lies (contents file) (unat (offset (span_start (trivia_position t)))) (trivia_value t)"
    using lies_subslice[OF assms(1)] by blast
  moreover have "length (trivia_value t) < 2 ^ 32" using liesD(1)[OF v] assms(2) by simp
  ultimately have "lies (contents file) (unat (offset (span_start (trivia_position t))) + unat n) line"
    using lies_trans[OF v lies_comment_lines[OF ls(1) line(1)]] by blast
  then show ?thesis using pragma_line_located[OF line(2,3)] assms(2) by blast
qed

section \<open>A comment with two codes\<close>

definition sample_text :: bytes where
  "sample_text = byte_string ''//@mago-expect lint:a,b''"

definition sample_file :: source_file where
  "sample_file = file_new (\<lambda>_. 1) (byte_string ''a.php'') Host None sample_text"

definition sample_comment :: trivia where
  "sample_comment = \<lparr>trivia_kind = SingleLineComment,
     trivia_position = span_new 1 (Position 0) (Position 23), trivia_value = sample_text\<rparr>"

definition sample_pragmas :: "u32 \<Rightarrow> pragma list" where
  "sample_pragmas address =
     (case parse_pragmas_in_trivia address sample_file [byte_string ''lint''] sample_comment of
        None \<Rightarrow> [] | Some ps \<Rightarrow> ps)"

lemma sample_parses:
  "parse_pragmas_in_trivia 0 sample_file [byte_string ''lint''] sample_comment = Some (sample_pragmas 0)"
  "length (sample_pragmas 0) = 2"
  by code_simp+

theorem code_spans_exact_witness:
  "code_located (contents sample_file) (sample_pragmas 0 ! 0) \<and>
   code_located (contents sample_file) (sample_pragmas 0 ! 1)"
proof -
  have "subslice (contents sample_file) (unat (offset (span_start (trivia_position sample_comment))))
      (unat (offset (span_end (trivia_position sample_comment)))) = Some (trivia_value sample_comment)"
    "length (contents sample_file) = 23"
    by code_simp+
  moreover have "sample_pragmas 0 ! 0 \<in> set (sample_pragmas 0)" "sample_pragmas 0 ! 1 \<in> set (sample_pragmas 0)"
    using sample_parses(2) by (auto intro: nth_mem)
  ultimately show ?thesis
    using code_spans_exact[OF _ _ sample_parses(1)] by simp
qed

text \<open>
  Where the address leaves no room, the saturating addition shifts the codes: for a comment at
  the address \<open>2\<^sup>3\<^sup>2 - 10\<close> the span of the second code, \<open>b\<close> at offset 22, becomes 2 to 3, and the
  first code's span ends before it starts.
\<close>

theorem code_spans_saturate:
  "map (\<lambda>p. span_to_range (code_span p)) (sample_pragmas (-10)) = [(15, 1), (2, 3)] \<and>
   map (\<lambda>p. span_to_range (code_span p)) (sample_pragmas 0) = [(15, 21), (22, 23)]"
  by code_simp

end
