(* ===== verification/Issues.thy ===== *)
theory Issues
  imports Source_File Text_Edit Byte_Text
    "HOL-Library.Option_ord" "HOL-Library.List_Lexorder" "HOL-Library.Product_Lexorder"
begin

text \<open>
  Issues and collections of issues (crate \<open>reporting\<close>, \<open>lib.rs\<close>): levels, annotations, the
  builder functions of an issue, the filters and the order of a collection, and the ignore
  entries of the configuration. A \<open>String\<close> is its bytes. Compiled regular expressions and path
  matchers, which come from other crates, are predicates on texts.
\<close>

section \<open>Levels and annotations\<close>

datatype level = Note | Help | Warning | Error

fun level_rank :: "level \<Rightarrow> nat" where
  "level_rank Note = 0"
| "level_rank Help = 1"
| "level_rank Warning = 2"
| "level_rank Error = 3"

lemma level_rank_inject: "level_rank a = level_rank b \<Longrightarrow> a = b"
  by (cases a; cases b) simp_all

text \<open>The derived order: from notes up to errors.\<close>

instantiation level :: linorder
begin

definition less_eq_level :: "level \<Rightarrow> level \<Rightarrow> bool" where
  "less_eq_level a b \<longleftrightarrow> level_rank a \<le> level_rank b"

definition less_level :: "level \<Rightarrow> level \<Rightarrow> bool" where
  "less_level a b \<longleftrightarrow> level_rank a < level_rank b"

instance
  by standard (auto simp: less_eq_level_def less_level_def intro: level_rank_inject)

end

definition downgrade :: "level \<Rightarrow> level" where
  "downgrade l = (case l of Error \<Rightarrow> Warning | Warning \<Rightarrow> Help | Help \<Rightarrow> Note | Note \<Rightarrow> Note)"

datatype annotation_kind = Primary | Secondary

record annotation =
  annotation_message :: "bytes option"
  annotation_kind :: annotation_kind
  annotation_span :: span

definition annotation_new :: "annotation_kind \<Rightarrow> span \<Rightarrow> annotation" where
  "annotation_new k sp = \<lparr>annotation_message = None, annotation_kind = k, annotation_span = sp\<rparr>"

definition annotation_primary :: "span \<Rightarrow> annotation" where
  "annotation_primary sp = annotation_new Primary sp"

definition annotation_secondary :: "span \<Rightarrow> annotation" where
  "annotation_secondary sp = annotation_new Secondary sp"

definition with_message :: "annotation \<Rightarrow> bytes \<Rightarrow> annotation" where
  "with_message self m = self\<lparr>annotation_message := Some m\<rparr>"

definition is_primary :: "annotation \<Rightarrow> bool" where
  "is_primary self \<longleftrightarrow> annotation_kind self = Primary"

section \<open>Issues\<close>

record issue =
  issue_level :: level
  issue_code :: "bytes option"
  issue_message :: bytes
  issue_notes :: "bytes list"
  issue_help :: "bytes option"
  issue_link :: "bytes option"
  annotations :: "annotation list"
  issue_edits :: "file_id \<Rightarrow> text_edit list option"

definition issue_new :: "level \<Rightarrow> bytes \<Rightarrow> issue" where
  "issue_new l m = \<lparr>issue_level = l, issue_code = None, issue_message = m, issue_notes = [],
     issue_help = None, issue_link = None, annotations = [], issue_edits = Map.empty\<rparr>"

definition issue_error_new :: "bytes \<Rightarrow> issue" where "issue_error_new m = issue_new Error m"
definition issue_warning_new :: "bytes \<Rightarrow> issue" where "issue_warning_new m = issue_new Warning m"
definition issue_help_new :: "bytes \<Rightarrow> issue" where "issue_help_new m = issue_new Help m"
definition issue_note_new :: "bytes \<Rightarrow> issue" where "issue_note_new m = issue_new Note m"

definition with_code :: "issue \<Rightarrow> bytes \<Rightarrow> issue" where
  "with_code self c = self\<lparr>issue_code := Some c\<rparr>"

definition with_annotation :: "issue \<Rightarrow> annotation \<Rightarrow> issue" where
  "with_annotation self a = self\<lparr>annotations := annotations self @ [a]\<rparr>"

definition with_annotations :: "issue \<Rightarrow> annotation list \<Rightarrow> issue" where
  "with_annotations self as = self\<lparr>annotations := annotations self @ as\<rparr>"

definition with_note :: "issue \<Rightarrow> bytes \<Rightarrow> issue" where
  "with_note self n = self\<lparr>issue_notes := issue_notes self @ [n]\<rparr>"

definition with_help :: "issue \<Rightarrow> bytes \<Rightarrow> issue" where
  "with_help self h = self\<lparr>issue_help := Some h\<rparr>"

definition with_link :: "issue \<Rightarrow> bytes \<Rightarrow> issue" where
  "with_link self l = self\<lparr>issue_link := Some l\<rparr>"

text \<open>\<open>entry(file_id).or_default()\<close>.\<close>

definition edits_at :: "issue \<Rightarrow> file_id \<Rightarrow> text_edit list" where
  "edits_at self f = (case issue_edits self f of None \<Rightarrow> [] | Some es \<Rightarrow> es)"

definition issue_with_edit :: "issue \<Rightarrow> file_id \<Rightarrow> text_edit \<Rightarrow> issue" where
  "issue_with_edit self f e = self\<lparr>issue_edits := (issue_edits self)(f \<mapsto> edits_at self f @ [e])\<rparr>"

definition with_file_edits :: "issue \<Rightarrow> file_id \<Rightarrow> text_edit list \<Rightarrow> issue" where
  "with_file_edits self f es =
     (if es = [] then self
      else self\<lparr>issue_edits := (issue_edits self)(f \<mapsto> edits_at self f @ es)\<rparr>)"

definition issue_take_edits :: "issue \<Rightarrow> (file_id \<Rightarrow> text_edit list option) \<times> issue" where
  "issue_take_edits self = (issue_edits self, self\<lparr>issue_edits := Map.empty\<rparr>)"

text \<open>
  The order of spans is lexicographic: file, start, end. \<open>min_by_key\<close> gives the first of the
  smallest elements.
\<close>

definition span_key :: "span \<Rightarrow> u64 \<times> u32 \<times> u32" where
  "span_key s = (span_file_id s, offset (span_start s), offset (span_end s))"

fun min_by :: "('a \<Rightarrow> 'b::linorder) \<Rightarrow> 'a list \<Rightarrow> 'a option" where
  "min_by f [] = None"
| "min_by f (x # xs) = (case min_by f xs of
     None \<Rightarrow> Some x
   | Some y \<Rightarrow> if f y < f x then Some y else Some x)"

definition primary_annotation :: "issue \<Rightarrow> annotation option" where
  "primary_annotation self =
     min_by (\<lambda>a. span_key (annotation_span a)) (filter is_primary (annotations self))"

definition primary_span :: "issue \<Rightarrow> span option" where
  "primary_span self = map_option annotation_span (primary_annotation self)"

section \<open>Collections\<close>

type_synonym issue_collection = "issue list"

definition with_maximum_level :: "issue_collection \<Rightarrow> level \<Rightarrow> issue_collection" where
  "with_maximum_level self l = filter (\<lambda>i. issue_level i \<le> l) self"

definition with_minimum_level :: "issue_collection \<Rightarrow> level \<Rightarrow> issue_collection" where
  "with_minimum_level self l = filter (\<lambda>i. issue_level i \<ge> l) self"

definition has_minimum_level :: "issue_collection \<Rightarrow> level \<Rightarrow> bool" where
  "has_minimum_level self l \<longleftrightarrow> list_ex (\<lambda>i. issue_level i \<ge> l) self"

definition get_level_count :: "issue_collection \<Rightarrow> level \<Rightarrow> nat" where
  "get_level_count self l = length (filter (\<lambda>i. issue_level i = l) self)"

definition get_highest_level :: "issue_collection \<Rightarrow> level option" where
  "get_highest_level self = (case map issue_level self of [] \<Rightarrow> None | l # ls \<Rightarrow> Some (fold max ls l))"

definition get_lowest_level :: "issue_collection \<Rightarrow> level option" where
  "get_lowest_level self = (case map issue_level self of [] \<Rightarrow> None | l # ls \<Rightarrow> Some (fold min ls l))"

definition filter_retain_codes :: "issue_collection \<Rightarrow> bytes list \<Rightarrow> issue_collection" where
  "filter_retain_codes self codes =
     filter (\<lambda>i. case issue_code i of Some c \<Rightarrow> c \<in> set codes | None \<Rightarrow> False) self"

text \<open>
  The comparison of \<open>sorted\<close> as a key: level, code (no code first), primary span (no span last).
  \<open>sort_by\<close> is stable.
\<close>

definition issue_key :: "issue \<Rightarrow> level \<times> bytes option \<times> bool \<times> u64 \<times> u32 \<times> u32" where
  "issue_key i = (issue_level i, issue_code i,
     (case primary_span i of None \<Rightarrow> (True, 0, 0, 0) | Some s \<Rightarrow> (False, span_key s)))"

definition issues_sorted :: "issue_collection \<Rightarrow> issue_collection" where
  "issues_sorted self = sort_key issue_key self"

definition to_edit_batches ::
  "issue_collection \<Rightarrow> file_id \<Rightarrow> (bytes option \<times> text_edit list) list option" where
  "to_edit_batches self f =
     (let batches = concat (map (\<lambda>i. case issue_edits i f of
          None \<Rightarrow> [] | Some es \<Rightarrow> [(issue_code i, es)]) self)
      in if batches = [] then None else Some batches)"

section \<open>Ignore entries\<close>

type_synonym matcher = "bytes \<Rightarrow> bool"

datatype ignore_entry =
  Code bytes
| Pattern bytes "bytes option" "bytes list option"
| Scoped bytes "bytes list"

datatype compiled_ignore_entry =
  CompiledCode bytes
| CompiledScoped bytes matcher
| CompiledPattern matcher "bytes option" "matcher option"

text \<open>An entry whose expression or paths do not compile is dropped.\<close>

definition compile_entry ::
  "(bytes \<Rightarrow> matcher option) \<Rightarrow> (bytes list \<Rightarrow> matcher option) \<Rightarrow> ignore_entry
     \<Rightarrow> compiled_ignore_entry list" where
  "compile_entry regex_new compile_paths e = (case e of
     Code c \<Rightarrow> [CompiledCode c]
   | Scoped c paths \<Rightarrow> (case compile_paths paths of
       Some m \<Rightarrow> [CompiledScoped c m]
     | None \<Rightarrow> [])
   | Pattern pat c paths \<Rightarrow> (case regex_new pat of
       None \<Rightarrow> []
     | Some regex \<Rightarrow> (case paths of
         Some ps \<Rightarrow> (case compile_paths ps of
           Some m \<Rightarrow> [CompiledPattern regex c (Some m)]
         | None \<Rightarrow> [])
       | None \<Rightarrow> [CompiledPattern regex c None])))"

definition compile_ignores ::
  "(bytes \<Rightarrow> matcher option) \<Rightarrow> (bytes list \<Rightarrow> matcher option) \<Rightarrow> ignore_entry list
     \<Rightarrow> compiled_ignore_entry list" where
  "compile_ignores regex_new compile_paths entries = concat (map (compile_entry regex_new compile_paths) entries)"

definition issue_text_matches :: "issue \<Rightarrow> matcher \<Rightarrow> bool" where
  "issue_text_matches i regex \<longleftrightarrow>
     regex (issue_message i) \<or>
     list_ex (\<lambda>a. case annotation_message a of Some m \<Rightarrow> regex m | None \<Rightarrow> False) (annotations i) \<or>
     list_ex regex (issue_notes i) \<or>
     (case issue_help i of Some h \<Rightarrow> regex h | None \<Rightarrow> False)"

definition entry_ignores :: "(file_id \<Rightarrow> bytes option) \<Rightarrow> issue \<Rightarrow> compiled_ignore_entry \<Rightarrow> bool" where
  "entry_ignores resolve_file_name i entry =
     (let resolved = (case primary_span i of
            None \<Rightarrow> None | Some s \<Rightarrow> resolve_file_name (span_file_id s)) in
      case entry of
        CompiledCode c \<Rightarrow> (case issue_code i of Some ic \<Rightarrow> c = ic | None \<Rightarrow> False)
      | CompiledScoped c m \<Rightarrow> (case issue_code i of
          None \<Rightarrow> False
        | Some ic \<Rightarrow> if c \<noteq> ic then False else (case resolved of Some name \<Rightarrow> m name | None \<Rightarrow> False))
      | CompiledPattern regex c m \<Rightarrow>
          if (case c of
                None \<Rightarrow> False
              | Some ignored \<Rightarrow> (case issue_code i of None \<Rightarrow> True | Some ic \<Rightarrow> ignored \<noteq> ic))
          then False
          else if (case m of
                None \<Rightarrow> False
              | Some mt \<Rightarrow> (case resolved of None \<Rightarrow> True | Some name \<Rightarrow> \<not> mt name))
          then False
          else issue_text_matches i regex)"

definition set_ignores ::
  "(file_id \<Rightarrow> bytes option) \<Rightarrow> compiled_ignore_entry list \<Rightarrow> issue \<Rightarrow> bool" where
  "set_ignores resolve_file_name entries i \<longleftrightarrow> list_ex (entry_ignores resolve_file_name i) entries"

definition filter_out_ignored ::
  "(file_id \<Rightarrow> bytes option) \<Rightarrow> compiled_ignore_entry list \<Rightarrow> issue_collection \<Rightarrow> issue_collection" where
  "filter_out_ignored resolve_file_name entries self =
     (if entries = [] then self
      else filter (\<lambda>i. \<not> set_ignores resolve_file_name entries i) self)"

end
