(* ===== verification/Issue_Collector.thy ===== *)
theory Issue_Collector
  imports Pragma Issues
begin

text \<open>
  The collector of issues (crate \<open>collector\<close>, \<open>lib.rs\<close> and \<open>walk.rs\<close>): suppression of issues by
  pragmas, speculative recordings, the report of unused pragmas with their fixes, and the deferral
  of a collector between phases. \<open>None\<close> stands for a panic. Whether debug assertions are compiled
  in is the parameter \<open>debug\<close>.

  The lemmas show which pragma suppresses an issue, that recordings leave no trace, how counters
  are bounded, what \<open>finish\<close> reports, and that deferring and reconciling continue one collector.
\<close>

section \<open>State\<close>

record collector =
  collector_file :: source_file
  pragmas :: "pragma list"
  collected :: issue_collection
  recordings :: "issue_collection list"
  disabled_codes :: "bytes list"
  active_codes :: "bytes list option"
  aliases :: "bytes \<Rightarrow> bytes option"
  link_template :: "bytes option"
  skip_unfulfilled_expect :: bool

record deferred_pragmas =
  deferred_file_id :: file_id
  deferred_list :: "pragma list"
  deferred_disabled_codes :: "bytes list"
  deferred_active_codes :: "bytes list option"
  deferred_aliases :: "bytes \<Rightarrow> bytes option"
  deferred_link_template :: "bytes option"
  deferred_skip :: bool

text \<open>The pragmas are those \<open>extract\<close> finds, with their scopes attached afterwards.\<close>

definition collector_init :: "source_file \<Rightarrow> pragma list \<Rightarrow> collector" where
  "collector_init file ps = \<lparr>collector_file = file, pragmas = ps, collected = [], recordings = [],
     disabled_codes = [], active_codes = None, aliases = Map.empty, link_template = None,
     skip_unfulfilled_expect = False\<rparr>"

definition set_aliases :: "collector \<Rightarrow> (bytes \<times> bytes) list \<Rightarrow> collector" where
  "set_aliases self as = self\<lparr>aliases := fold (\<lambda>(k, v) m. m(k \<mapsto> v)) as Map.empty\<rparr>"

definition set_link_template :: "collector \<Rightarrow> bytes \<Rightarrow> collector" where
  "set_link_template self t = self\<lparr>link_template := Some t\<rparr>"

definition set_skip_unfulfilled_expect :: "collector \<Rightarrow> bool \<Rightarrow> collector" where
  "set_skip_unfulfilled_expect self b = self\<lparr>skip_unfulfilled_expect := b\<rparr>"

definition set_disabled_codes :: "collector \<Rightarrow> bytes list \<Rightarrow> collector" where
  "set_disabled_codes self cs = self\<lparr>disabled_codes := cs\<rparr>"

definition add_disabled_codes :: "collector \<Rightarrow> bytes list \<Rightarrow> collector" where
  "add_disabled_codes self cs = self\<lparr>disabled_codes := disabled_codes self @ cs\<rparr>"

definition set_active_codes :: "collector \<Rightarrow> bytes list \<Rightarrow> collector" where
  "set_active_codes self cs = self\<lparr>active_codes := Some cs\<rparr>"

section \<open>Scopes\<close>

text \<open>
  The scope of a pragma: the declaration that follows its comment with only whitespace in between.
  Every unscoped pragma that fits gets the scope.
\<close>

definition precedes :: "source_file \<Rightarrow> pragma \<Rightarrow> span \<Rightarrow> bool option" where
  "precedes file p node =
     (if offset (span_end (trivia_span p)) \<le> offset (span_start node) then do {
        between \<leftarrow> subslice (contents file) (unat (offset (span_end (trivia_span p))))
                     (unat (offset (span_start node)));
        Some (trim_ascii between = [])
      } else Some False)"

definition assign_scope :: "source_file \<Rightarrow> span \<Rightarrow> pragma \<Rightarrow> pragma option" where
  "assign_scope file node p =
     (if scope_span p \<noteq> None then Some p
      else do {
        is_applicable \<leftarrow> precedes file p node;
        Some (if is_applicable then p\<lparr>scope_span := Some node\<rparr> else p)
      })"

definition assign_scope_for_node :: "span \<Rightarrow> collector \<Rightarrow> collector option" where
  "assign_scope_for_node node self =
     map_option (\<lambda>ps. self\<lparr>pragmas := ps\<rparr>) (those (map (assign_scope (collector_file self) node) (pragmas self)))"

text \<open>
  The tree the walker sees: statements and class members with their spans, whether they are
  declarations, and the statements and members inside.
\<close>

datatype scope_node = Statement span bool "scope_node list" | Member span "scope_node list"

definition pending_inside :: "span \<Rightarrow> collector \<Rightarrow> bool" where
  "pending_inside node self \<longleftrightarrow>
     list_ex (\<lambda>p. scope_span p = None \<and> span_contains node (span_position (pragma_span p))) (pragmas self)"

fun walk_node :: "scope_node \<Rightarrow> collector \<Rightarrow> collector option"
  and walk_nodes :: "scope_node list \<Rightarrow> collector \<Rightarrow> collector option" where
  "walk_node (Statement node declaration inner) self = do {
     self \<leftarrow> (if declaration then assign_scope_for_node node self else Some self);
     if pending_inside node self then walk_nodes inner self else Some self
   }"
| "walk_node (Member node inner) self = do {
     self \<leftarrow> assign_scope_for_node node self;
     if pending_inside node self then walk_nodes inner self else Some self
   }"
| "walk_nodes [] self = Some self"
| "walk_nodes (n # ns) self = do { self \<leftarrow> walk_node n self; walk_nodes ns self }"

definition collector_new ::
  "(trivia \<Rightarrow> u32) \<Rightarrow> source_file \<Rightarrow> trivia list \<Rightarrow> scope_node list \<Rightarrow> bytes list \<Rightarrow> collector option" where
  "collector_new address file trivias program categories = do {
     ps \<leftarrow> extract_pragmas address file trivias categories;
     walk_nodes program (collector_init file ps)
   }"

section \<open>Recordings\<close>

definition start_recording :: "collector \<Rightarrow> collector" where
  "start_recording self = self\<lparr>recordings := recordings self @ [[]]\<rparr>"

definition is_recording :: "collector \<Rightarrow> bool" where
  "is_recording self \<longleftrightarrow> recordings self \<noteq> []"

definition finish_recording :: "collector \<Rightarrow> issue_collection option \<times> collector" where
  "finish_recording self =
     (if recordings self = [] then (None, self)
      else (Some (last (recordings self)), self\<lparr>recordings := butlast (recordings self)\<rparr>))"

section \<open>Suppression\<close>

definition resolved_code :: "collector \<Rightarrow> pragma \<Rightarrow> bytes" where
  "resolved_code self p = (case aliases self (code p) of Some c \<Rightarrow> c | None \<Rightarrow> code p)"

abbreviation all_codes :: bytes where "all_codes \<equiv> byte_string ''all''"

definition pragma_applies ::
  "collector \<Rightarrow> span \<Rightarrow> u32 \<Rightarrow> pragma_kind \<Rightarrow> bytes \<Rightarrow> pragma \<Rightarrow> bool option" where
  "pragma_applies self issue_span issue_start_line kind icode p =
     (if pragma_kind p \<noteq> kind then Some False
      else let resolved = resolved_code self p in
        if resolved \<noteq> all_codes \<and> resolved \<noteq> icode then Some False
        else if is_consumed p \<and> resolved \<noteq> all_codes then Some False
        else case scope_span p of
          Some scope \<Rightarrow>
            Some (span_contains scope (span_position issue_span) \<or> span_contains issue_span (span_position scope))
        | None \<Rightarrow>
            if span_contains (trivia_span p) (span_position issue_span) \<or>
               span_contains issue_span (span_position (trivia_span p)) then Some True
            else if own_line p then Some (start_line p < issue_start_line)
            else map_option (\<lambda>l. l = issue_start_line)
                   (line_number (collector_file self) (offset (span_start (pragma_span p)))))"

text \<open>Whether a pragma replaces the current best: inline pragmas first, then later lines.\<close>

definition better :: "pragma \<Rightarrow> pragma \<Rightarrow> bool" where
  "better p current =
     (if \<not> own_line current \<and> own_line p then False
      else if own_line current \<and> \<not> own_line p then True
      else start_line p > start_line current)"

fun best_loop :: "(pragma \<Rightarrow> bool option) \<Rightarrow> pragma list \<Rightarrow> nat \<Rightarrow> nat option \<Rightarrow> pragma list \<Rightarrow> nat option option" where
  "best_loop applies ps i best [] = Some best"
| "best_loop applies ps i best (p # rest) = (case applies p of
     None \<Rightarrow> None
   | Some False \<Rightarrow> best_loop applies ps (Suc i) best rest
   | Some True \<Rightarrow> best_loop applies ps (Suc i)
       (case best of None \<Rightarrow> Some i | Some b \<Rightarrow> if better p (ps ! b) then Some i else Some b) rest)"

definition find_best_applicable_pragma :: "collector \<Rightarrow> span \<Rightarrow> pragma_kind \<Rightarrow> bytes \<Rightarrow> nat option option" where
  "find_best_applicable_pragma self issue_span kind icode =
     (if pragmas self = [] then Some None
      else do {
        issue_start_line \<leftarrow> line_number (collector_file self) (offset (span_start issue_span));
        best_loop (pragma_applies self issue_span issue_start_line kind icode) (pragmas self) 0 None
          (pragmas self)
      })"

definition sat_inc_u16 :: "u16 \<Rightarrow> u16" where
  "sat_inc_u16 n = (if n = -1 then -1 else n + 1)"

text \<open>\<open>is_ignored\<close> and \<open>is_expected\<close>, which differ in the kind of pragma.\<close>

definition is_suppressed :: "pragma_kind \<Rightarrow> collector \<Rightarrow> span \<Rightarrow> bytes \<Rightarrow> (bool \<times> collector) option" where
  "is_suppressed kind self issue_span icode = do {
     best \<leftarrow> find_best_applicable_pragma self issue_span kind icode;
     Some (case best of
        None \<Rightarrow> (False, self)
      | Some i \<Rightarrow>
          let p = pragmas self ! i in
          (True, self\<lparr>pragmas := (pragmas self)[i := p\<lparr>matches := sat_inc_u16 (matches p)\<rparr>]\<rparr>))
   }"

definition is_ignored :: "collector \<Rightarrow> span \<Rightarrow> bytes \<Rightarrow> (bool \<times> collector) option" where
  "is_ignored = is_suppressed Ignore"

definition is_expected :: "collector \<Rightarrow> span \<Rightarrow> bytes \<Rightarrow> (bool \<times> collector) option" where
  "is_expected = is_suppressed Expect"

section \<open>Reporting\<close>

definition prepare_issue :: "collector \<Rightarrow> issue \<Rightarrow> issue" where
  "prepare_issue self i =
     (let i = i\<lparr>annotations := filter (\<lambda>a. span_file_id (annotation_span a) \<noteq> file_id_zero) (annotations i)\<rparr> in
      case (link_template self, issue_code i) of
        (Some template, Some c) \<Rightarrow> with_link i (str_replace (byte_string ''{code}'') c template)
      | _ \<Rightarrow> i)"

definition force_report :: "collector \<Rightarrow> issue \<Rightarrow> collector" where
  "force_report self i =
     (let i = prepare_issue self i in
      if recordings self \<noteq> [] then
        self\<lparr>recordings := butlast (recordings self) @ [last (recordings self) @ [i]]\<rparr>
      else self\<lparr>collected := collected self @ [i]\<rparr>)"

definition missing_code_issue :: "span option \<Rightarrow> issue" where
  "missing_code_issue primary =
     (let i = with_link (with_help (with_note (with_code
            (issue_error_new (byte_string ''Internal: Diagnostic is missing a code.''))
            (byte_string ''missing-code''))
          (byte_string ''This diagnostic was reported without a unique code, which is required by the collector.''))
          (byte_string ''Please report this issue to the Mago team.''))
          (byte_string ''https://github.com/carthage-software/mago'') in
      case primary of
        None \<Rightarrow> i
      | Some s \<Rightarrow> with_annotation i (with_message (annotation_primary s)
          (byte_string ''This diagnostic was reported without a unique code.'')))"

text \<open>The span of the first primary annotation.\<close>

definition first_primary_span :: "issue \<Rightarrow> span option" where
  "first_primary_span i = map_option annotation_span (find is_primary (annotations i))"

definition report :: "bool \<Rightarrow> collector \<Rightarrow> issue \<Rightarrow> (bool \<times> collector) option" where
  "report debug self i =
     (let primary = first_primary_span i in
      case issue_code i of
        None \<Rightarrow>
          if debug then Some (False, force_report self (missing_code_issue primary))
          else Some (True, force_report self i)
      | Some c \<Rightarrow>
          if c \<in> set (disabled_codes self) then Some (False, self)
          else case primary of
            Some s \<Rightarrow>
              if is_recording self then Some (True, force_report self i)
              else do {
                (ignored, self) \<leftarrow> is_ignored self s c;
                if ignored then Some (False, self)
                else do {
                  (expected, self) \<leftarrow> is_expected self s c;
                  if expected then Some (False, self)
                  else Some (True, force_report self i)
                }
              }
          | None \<Rightarrow> Some (True, force_report self i))"

definition report_with_code :: "bool \<Rightarrow> collector \<Rightarrow> bytes \<Rightarrow> issue \<Rightarrow> (bool \<times> collector) option" where
  "report_with_code debug self c i = report debug self (with_code i c)"

fun collector_extend :: "bool \<Rightarrow> collector \<Rightarrow> issue list \<Rightarrow> collector option" where
  "collector_extend debug self [] = Some self"
| "collector_extend debug self (i # is) = do {
     (_, self) \<leftarrow> report debug self i;
     collector_extend debug self is
   }"

definition propose :: "bool \<Rightarrow> collector \<Rightarrow> issue \<Rightarrow> text_edit list \<Rightarrow> (bool \<times> collector) option" where
  "propose debug self i es =
     report debug self
       (if es \<noteq> [] then with_file_edits i (file_file_id (collector_file self)) es else i)"

definition propose_with_code ::
  "bool \<Rightarrow> collector \<Rightarrow> bytes \<Rightarrow> issue \<Rightarrow> text_edit list \<Rightarrow> (bool \<times> collector) option" where
  "propose_with_code debug self c i es = propose debug self (with_code i c) es"

text \<open>The callback of \<open>record\<close> is a function on the collector.\<close>

definition record_issues ::
  "collector \<Rightarrow> (collector \<Rightarrow> ('t \<times> collector) option) \<Rightarrow> (('t \<times> issue_collection) \<times> collector) option" where
  "record_issues self f = do {
     (result, self) \<leftarrow> f (start_recording self);
     let (recorded, self) = finish_recording self;
     Some ((result, case recorded of Some is \<Rightarrow> is | None \<Rightarrow> []), self)
   }"

section \<open>Fixes for unused pragmas\<close>

abbreviation is_blank :: "u8 \<Rightarrow> bool" where "is_blank b \<equiv> b = 32 \<or> b = 9"

text \<open>The comma before a code, and the first position after blanks.\<close>

fun leading_comma :: "bytes \<Rightarrow> nat \<Rightarrow> nat option option" where
  "leading_comma src 0 = Some None"
| "leading_comma src (Suc n) =
     (if n \<ge> length src then None
      else if src ! n = comma then Some (Some n)
      else if is_blank (src ! n) then leading_comma src n
      else Some None)"

definition skip_blanks :: "bytes \<Rightarrow> nat \<Rightarrow> nat" where
  "skip_blanks src n = n + length (takeWhile is_blank (drop n src))"

definition compute_code_deletion :: "collector \<Rightarrow> pragma \<Rightarrow> text_edit option" where
  "compute_code_deletion self p =
     (let src = contents (collector_file self);
          code_start = unat (offset (span_start (code_span p)));
          code_end = unat (offset (span_end (code_span p))) in
      case leading_comma src code_start of
        None \<Rightarrow> None
      | Some (Some scan) \<Rightarrow> Some (edit_delete (text_range_new (of_nat scan) (of_nat code_end)))
      | Some None \<Rightarrow>
          let scan = skip_blanks src code_end in
          if scan < length src \<and> src ! scan = comma then
            let scan = skip_blanks src (scan + 1);
                next_code = takeWhile (\<lambda>b. \<not> (is_ascii_whitespace b \<or> b = comma)) (drop scan src);
                replacement = (if colon \<in> set next_code then [] else category p @ [colon])
            in Some (edit_replace (text_range_new (of_nat code_start) (of_nat scan)) replacement)
          else Some (edit_delete (text_range_new (of_nat code_start) (of_nat code_end))))"

fun blanks_before :: "bytes \<Rightarrow> nat \<Rightarrow> nat option" where
  "blanks_before src 0 = Some 0"
| "blanks_before src (Suc n) =
     (if n \<ge> length src then None
      else if is_blank (src ! n) then blanks_before src n
      else Some (Suc n))"

definition compute_comment_deletion :: "collector \<Rightarrow> pragma \<Rightarrow> text_edit option" where
  "compute_comment_deletion self p =
     (let file = collector_file self in
      if own_line p then
        let line_start = (case get_line_start_offset file (start_line p) of
              Some n \<Rightarrow> n | None \<Rightarrow> offset (span_start (trivia_span p)));
            delete_end = (case get_line_start_offset file (end_line p + 1) of
              Some n \<Rightarrow> n | None \<Rightarrow> offset (span_end (trivia_span p)))
        in Some (edit_delete (text_range_new line_start delete_end))
      else do {
        start \<leftarrow> blanks_before (contents file) (unat (offset (span_start (trivia_span p))));
        Some (edit_delete (text_range_new (of_nat start) (offset (span_end (trivia_span p)))))
      })"

definition compute_directive_deletion :: "collector \<Rightarrow> pragma \<Rightarrow> text_edit option" where
  "compute_directive_deletion self p = do {
     let file = collector_file self;
     pragma_line \<leftarrow> line_number file (offset (span_start (pragma_span p)));
     let line_start = (case get_line_start_offset file pragma_line of
           Some n \<Rightarrow> n | None \<Rightarrow> offset (span_start (pragma_span p)));
     let delete_end = (case get_line_start_offset file (pragma_line + 1) of
           Some n \<Rightarrow> n | None \<Rightarrow> offset (span_end (pragma_span p)));
     Some (edit_delete (text_range_new line_start delete_end))
   }"

definition check_non_pragma_line :: "bytes \<Rightarrow> bool" where
  "check_non_pragma_line line =
     (let without_marker = trim_ascii (dropWhile (\<lambda>b. b = 42) (trim_ascii line)) in
      if without_marker = [] then False
      else if starts_with (byte_string ''@mago-ignore'') without_marker \<or>
              starts_with (byte_string ''@mago-expect'') without_marker then False
      else True)"

function lines_of :: "bytes \<Rightarrow> bytes list" where
  "lines_of s = (case position_of (\<lambda>b. b = LF) s of
     Some n \<Rightarrow> take n s # lines_of (drop (n + 1) s)
   | None \<Rightarrow> if s = [] then [] else [s])"
  by pat_completeness auto
termination by (relation "measure length") (auto simp: position_of_Some)

declare lines_of.simps [simp del]

text \<open>The first of several prefixes that strips.\<close>

definition strip_comment_start :: "bytes \<Rightarrow> bytes" where
  "strip_comment_start s =
     (case strip_prefix (byte_string ''/**'') s of Some r \<Rightarrow> r | None \<Rightarrow>
      case strip_prefix (byte_string ''/*'') s of Some r \<Rightarrow> r | None \<Rightarrow>
      case strip_prefix (byte_string ''//'') s of Some r \<Rightarrow> r | None \<Rightarrow>
      case strip_prefix [35] s of Some r \<Rightarrow> r | None \<Rightarrow> s)"

definition trivia_has_non_pragma_content :: "collector \<Rightarrow> pragma \<Rightarrow> bool option" where
  "trivia_has_non_pragma_content self p = do {
     trivia_text \<leftarrow> subslice (contents (collector_file self)) (unat (offset (span_start (trivia_span p))))
       (unat (offset (span_end (trivia_span p))));
     let inner = strip_comment_start trivia_text;
     let inner = (case strip_suffix (byte_string ''*/'') inner of Some r \<Rightarrow> r | None \<Rightarrow> inner);
     Some (list_ex check_non_pragma_line (lines_of inner))
   }"

section \<open>Finishing\<close>

definition is_pragma_skipped :: "collector \<Rightarrow> pragma \<Rightarrow> bool" where
  "is_pragma_skipped self p \<longleftrightarrow>
     pragma_kind p = Expect \<and> code p \<noteq> all_codes \<and>
     (case active_codes self of None \<Rightarrow> False | Some codes \<Rightarrow> code p \<notin> set codes)"

definition has_match :: "collector \<Rightarrow> pragma \<Rightarrow> bool" where
  "has_match self p \<longleftrightarrow> matches p > 0 \<or> is_pragma_skipped self p"

definition note_use :: "span \<Rightarrow> bool \<Rightarrow> (span \<Rightarrow> bool option) \<Rightarrow> span \<Rightarrow> bool option" where
  "note_use s used m = (let entry = (case m s of None \<Rightarrow> False | Some b \<Rightarrow> b) in
     m(s \<mapsto> (if used then True else entry)))"

text \<open>Which directives, or with \<open>f = trivia_span\<close> which comments, have a used pragma.\<close>

definition used_spans :: "collector \<Rightarrow> (pragma \<Rightarrow> span) \<Rightarrow> span \<Rightarrow> bool option" where
  "used_spans self f = fold (\<lambda>p. note_use (f p) (has_match self p)) (pragmas self) Map.empty"

definition span_used :: "(span \<Rightarrow> bool option) \<Rightarrow> span \<Rightarrow> bool" where
  "span_used m s = (case m s of None \<Rightarrow> False | Some b \<Rightarrow> b)"

definition partial_count_edit :: "pragma \<Rightarrow> text_edit option" where
  "partial_count_edit p =
     (if matches p > 0 \<and> expected_matches p > 1 then
        (case count_span p of
           Some cspan \<Rightarrow> Some (edit_replace
             (text_range_new (offset (span_start cspan)) (offset (span_end cspan)))
             (if matches p = 1 then [] else [open_paren] @ show_bytes (unat (matches p)) @ [close_paren]))
         | None \<Rightarrow> None)
      else None)"

definition primary_message :: "pragma \<Rightarrow> bytes" where
  "primary_message p =
     (if expected_matches p > 1 then
        byte_string ''This expect pragma was fulfilled '' @ show_bytes (unat (matches p)) @
        byte_string '' of '' @ show_bytes (unat (expected_matches p)) @ byte_string '' times.''
      else case pragma_kind p of
        Ignore \<Rightarrow> byte_string ''This ignore pragma does not match any reported issue.''
      | Expect \<Rightarrow> byte_string ''This expect pragma was not fulfilled.'')"

definition unused_pragma_issue :: "pragma \<Rightarrow> issue" where
  "unused_pragma_issue p =
     (let annotate = (\<lambda>i. with_annotation (with_annotation (with_annotation i
            (with_message (annotation_primary (pragma_span p)) (primary_message p)))
            (with_message (annotation_secondary (code_span p)) (byte_string ''...for this code'')))
            (with_message (annotation_secondary (trivia_span p)) (byte_string ''...within this comment.''))) in
      case pragma_kind p of
        Ignore \<Rightarrow> annotate (with_code
          (issue_note_new (byte_string ''This pragma was not used and may be removed.''))
          (byte_string ''unused-pragma''))
      | Expect \<Rightarrow> annotate (with_code
          (issue_warning_new (if expected_matches p > 1
             then byte_string ''This expect pragma was only partially fulfilled.''
             else byte_string ''This pragma was not used and may be removed.''))
          (byte_string ''unfulfilled-expect'')))"

record finish_state =
  handled_directives :: "span set"
  handled_trivias :: "span set"
  finished :: issue_collection

text \<open>The fix for one pragma and the comments and directives it deletes.\<close>

definition pragma_edit ::
  "collector \<Rightarrow> (span \<Rightarrow> bool option) \<Rightarrow> (span \<Rightarrow> bool option) \<Rightarrow> pragma \<Rightarrow> finish_state
     \<Rightarrow> (text_edit option \<times> finish_state) option" where
  "pragma_edit self directive_has_used trivia_has_used p st =
     (case partial_count_edit p of
        Some e \<Rightarrow> Some (Some e, st)
      | None \<Rightarrow>
          if span_used directive_has_used (pragma_span p) then
            map_option (\<lambda>e. (Some e, st)) (compute_code_deletion self p)
          else do {
            whole \<leftarrow> (if \<not> span_used trivia_has_used (trivia_span p) \<and> trivia_span p \<notin> handled_trivias st
                      then map_option Not (trivia_has_non_pragma_content self p) else Some False);
            if whole then
              map_option (\<lambda>e. (Some e, st\<lparr>handled_trivias := insert (trivia_span p) (handled_trivias st),
                  handled_directives := insert (pragma_span p) (handled_directives st)\<rparr>))
                (compute_comment_deletion self p)
            else if pragma_span p \<notin> handled_directives st \<and> trivia_span p \<notin> handled_trivias st then
              map_option (\<lambda>e. (Some e, st\<lparr>handled_directives := insert (pragma_span p) (handled_directives st)\<rparr>))
                (compute_directive_deletion self p)
            else Some (None, st)
          })"

definition finish_step ::
  "collector \<Rightarrow> (span \<Rightarrow> bool option) \<Rightarrow> (span \<Rightarrow> bool option) \<Rightarrow> pragma \<Rightarrow> finish_state
     \<Rightarrow> finish_state option" where
  "finish_step self directive_has_used trivia_has_used p st =
     (if is_fulfilled p \<or> is_pragma_skipped self p then Some st
      else do {
        (edit, st) \<leftarrow> pragma_edit self directive_has_used trivia_has_used p st;
        let i = unused_pragma_issue p;
        let i = (case edit of
              Some e \<Rightarrow> issue_with_edit i (file_file_id (collector_file self)) e
            | None \<Rightarrow> i);
        Some (st\<lparr>finished := finished st @ [i]\<rparr>)
      })"

fun finish_loop ::
  "collector \<Rightarrow> (span \<Rightarrow> bool option) \<Rightarrow> (span \<Rightarrow> bool option) \<Rightarrow> pragma list \<Rightarrow> finish_state
     \<Rightarrow> finish_state option" where
  "finish_loop self d t [] st = Some st"
| "finish_loop self d t (p # ps) st = do {
     st \<leftarrow> finish_step self d t p st;
     finish_loop self d t ps st
   }"

definition collector_finish :: "collector \<Rightarrow> issue_collection option" where
  "collector_finish self =
     (if skip_unfulfilled_expect self then Some (collected self)
      else map_option finished (finish_loop self (used_spans self pragma_span) (used_spans self trivia_span)
             (pragmas self) \<lparr>handled_directives = {}, handled_trivias = {}, finished = collected self\<rparr>))"

section \<open>Deferral\<close>

text \<open>An owned pragma has the fields of a pragma; copying into and out of the arena is the identity.\<close>

definition defer_pragmas :: "collector \<Rightarrow> issue_collection \<times> deferred_pragmas option" where
  "defer_pragmas self =
     (if pragmas self = [] then (collected self, None)
      else (collected self, Some \<lparr>deferred_file_id = file_file_id (collector_file self),
        deferred_list = pragmas self, deferred_disabled_codes = disabled_codes self,
        deferred_active_codes = active_codes self, deferred_aliases = aliases self,
        deferred_link_template = link_template self,
        deferred_skip = skip_unfulfilled_expect self\<rparr>))"

definition into_collector :: "source_file \<Rightarrow> deferred_pragmas \<Rightarrow> collector" where
  "into_collector file d = \<lparr>collector_file = file, pragmas = deferred_list d, collected = [],
     recordings = [], disabled_codes = deferred_disabled_codes d, active_codes = deferred_active_codes d,
     aliases = deferred_aliases d, link_template = deferred_link_template d,
     skip_unfulfilled_expect = deferred_skip d\<rparr>"

text \<open>The debug assertion compares the file ids.\<close>

definition reconcile ::
  "bool \<Rightarrow> source_file \<Rightarrow> deferred_pragmas \<Rightarrow> issue list \<Rightarrow> (issue_collection \<times> deferred_pragmas) option" where
  "reconcile debug file d is =
     (if debug \<and> file_file_id file \<noteq> deferred_file_id d then None
      else do {
        c \<leftarrow> collector_extend debug (into_collector file d) is;
        let (out, state) = defer_pragmas c;
        Some (out, case state of Some s \<Rightarrow> s | None \<Rightarrow> d)
      })"

definition deferred_finish :: "bool \<Rightarrow> source_file \<Rightarrow> deferred_pragmas \<Rightarrow> issue_collection option" where
  "deferred_finish debug file d =
     (if debug \<and> file_file_id file \<noteq> deferred_file_id d then None
      else collector_finish (into_collector file d))"

section \<open>The suppressing pragma\<close>

text \<open>Inline pragmas rank above pragmas on a line of their own, then later lines above earlier.\<close>

definition rank :: "pragma \<Rightarrow> bool \<times> u32" where
  "rank p = (\<not> own_line p, start_line p)"

lemma better_rank: "better p q \<longleftrightarrow> rank q < rank p"
  by (auto simp: better_def rank_def less_prod_def)

definition best_among :: "(pragma \<Rightarrow> bool option) \<Rightarrow> pragma list \<Rightarrow> nat \<Rightarrow> nat option \<Rightarrow> bool" where
  "best_among applies ps n best = (case best of
     None \<Rightarrow> \<forall>j < n. applies (ps ! j) = Some False
   | Some b \<Rightarrow> b < n \<and> applies (ps ! b) = Some True \<and>
       (\<forall>j < n. applies (ps ! j) = Some False \<or>
          applies (ps ! j) = Some True \<and> rank (ps ! j) \<le> rank (ps ! b) \<and>
          (rank (ps ! j) = rank (ps ! b) \<longrightarrow> b \<le> j)))"

lemma best_among_skip:
  "best_among applies ps n best \<Longrightarrow> applies (ps ! n) = Some False \<Longrightarrow> best_among applies ps (Suc n) best"
  by (auto simp: best_among_def less_Suc_eq split: option.splits)

lemma best_among_take:
  assumes "best_among applies ps n best" "applies (ps ! n) = Some True"
  shows "best_among applies ps (Suc n)
    (case best of None \<Rightarrow> Some n | Some b \<Rightarrow> if better (ps ! n) (ps ! b) then Some n else Some b)"
proof (cases best)
  case None
  then show ?thesis using assms by (auto simp: best_among_def less_Suc_eq)
next
  case (Some b)
  show ?thesis
  proof (cases "better (ps ! n) (ps ! b)")
    case True
    then have lt: "rank (ps ! b) < rank (ps ! n)" by (simp add: better_rank)
    have "rank (ps ! j) \<le> rank (ps ! n) \<and> rank (ps ! j) \<noteq> rank (ps ! n)"
      if "rank (ps ! j) \<le> rank (ps ! b)" for j
      using le_less_trans[OF that lt] by auto
    then show ?thesis using assms Some True by (auto simp: best_among_def less_Suc_eq)
  next
    case False
    then have "rank (ps ! n) \<le> rank (ps ! b)" by (simp add: better_rank)
    then show ?thesis using assms Some False by (auto simp: best_among_def less_Suc_eq)
  qed
qed

lemma best_loop_spec:
  assumes "best_loop applies (pre @ rest) (length pre) best rest = Some r"
    "best_among applies (pre @ rest) (length pre) best"
  shows "best_among applies (pre @ rest) (length (pre @ rest)) r"
  using assms
proof (induction rest arbitrary: pre best)
  case (Cons p rest)
  have p: "(pre @ p # rest) ! length pre = p" by simp
  obtain a where a: "applies p = Some a" using Cons.prems(1) by (auto split: option.splits)
  define best' where "best' = (if a then (case best of None \<Rightarrow> Some (length pre) | Some b \<Rightarrow>
      if better p ((pre @ p # rest) ! b) then Some (length pre) else Some b) else best)"
  have "best_loop applies ((pre @ [p]) @ rest) (length (pre @ [p])) best' rest = Some r"
    using Cons.prems(1) a by (cases a) (simp_all add: best'_def)
  moreover have "best_among applies ((pre @ [p]) @ rest) (length (pre @ [p])) best'"
    using best_among_skip[OF Cons.prems(2)] best_among_take[OF Cons.prems(2), unfolded p] a p
    by (cases a) (simp_all add: best'_def)
  ultimately show ?case using Cons.IH[of "pre @ [p]" best'] by simp
qed simp

text \<open>
  C22. The pragma that suppresses an issue applies to it and ranks highest among all that apply,
  the first of them on a tie; none is chosen only when none applies.
\<close>

theorem best_pragma_chosen:
  assumes "find_best_applicable_pragma self s kind c = Some r"
    and "line_number (collector_file self) (offset (span_start s)) = Some l"
  shows "best_among (pragma_applies self s l kind c) (pragmas self) (length (pragmas self)) r"
proof (cases "pragmas self = []")
  case True
  then show ?thesis using assms by (simp add: find_best_applicable_pragma_def best_among_def)
next
  case False
  then have "best_loop (pragma_applies self s l kind c) ([] @ pragmas self) (length ([] :: pragma list)) None (pragmas self) = Some r"
    using assms by (simp add: find_best_applicable_pragma_def)
  from best_loop_spec[OF this] show ?thesis by (simp add: best_among_def)
qed

section \<open>What a report changes\<close>

lemma find_bestD:
  assumes "find_best_applicable_pragma self s kind c = Some (Some i)"
  obtains l where "i < length (pragmas self)" "pragma_applies self s l kind c (pragmas self ! i) = Some True"
proof -
  have "pragmas self \<noteq> []" using assms by (auto simp: find_best_applicable_pragma_def)
  then obtain l where "line_number (collector_file self) (offset (span_start s)) = Some l"
    "best_loop (pragma_applies self s l kind c) ([] @ pragmas self) (length ([] :: pragma list)) None (pragmas self) = Some (Some i)"
    using assms by (auto simp: find_best_applicable_pragma_def split: bind_splits)
  from best_loop_spec[OF this(2)]
  have "i < length (pragmas self)" "pragma_applies self s l kind c (pragmas self ! i) = Some True"
    by (simp_all add: best_among_def)
  then show thesis by (rule that)
qed

text \<open>The counter of the pragma at an index is advanced.\<close>

definition count_match :: "collector \<Rightarrow> nat \<Rightarrow> collector" where
  "count_match self i = self\<lparr>pragmas :=
     (pragmas self)[i := (pragmas self ! i)\<lparr>matches := sat_inc_u16 (matches (pragmas self ! i))\<rparr>]\<rparr>"

lemma is_suppressed_cases:
  assumes "is_suppressed kind self s c = Some (b, self')"
  obtains "\<not> b" "self' = self"
  | i l where "b" "self' = count_match self i" "i < length (pragmas self)"
      "pragma_applies self s l kind c (pragmas self ! i) = Some True"
  using assms find_bestD unfolding is_suppressed_def count_match_def
  by (auto simp: Let_def split: bind_splits option.splits elim: find_bestD) 

lemma report_cases:
  assumes "report debug self i = Some (b, self')"
  obtains (missing) "issue_code i = None" "debug" "\<not> b"
      "self' = force_report self (missing_code_issue (first_primary_span i))"
  | (forced) "b" "self' = force_report self i" "\<forall>c. issue_code i = Some c \<longrightarrow> c \<notin> set (disabled_codes self)"
  | (disabled) c where "issue_code i = Some c" "c \<in> set (disabled_codes self)" "\<not> b" "self' = self"
  | (suppressed) c s kind k l where "issue_code i = Some c" "c \<notin> set (disabled_codes self)"
      "first_primary_span i = Some s" "\<not> is_recording self" "\<not> b"
      "k < length (pragmas self)" "pragma_applies self s l kind c (pragmas self ! k) = Some True"
      "self' = count_match self k"
proof (cases "issue_code i")
  case None
  then show thesis using assms missing forced by (auto simp: report_def Let_def split: if_splits)
next
  case (Some c)
  show thesis
  proof (cases "c \<in> set (disabled_codes self) \<or> first_primary_span i = None \<or> is_recording self")
    case True
    then show thesis using assms Some disabled forced
      by (auto simp: report_def Let_def split: if_splits option.splits)
  next
    case False
    then obtain s where s: "first_primary_span i = Some s" "c \<notin> set (disabled_codes self)" "\<not> is_recording self"
      by auto
    then obtain b1 c1 where ignored: "is_suppressed Ignore self s c = Some (b1, c1)"
      and rest: "(if b1 then Some (False, c1) else do {
          (expected, self) \<leftarrow> is_expected c1 s c;
          if expected then Some (False, self) else Some (True, force_report self i) }) = Some (b, self')"
      using assms Some by (auto simp: report_def Let_def is_ignored_def split: bind_splits)
    from ignored show thesis
    proof (cases rule: is_suppressed_cases)
      case 1
      then obtain b2 c2 where expected: "is_suppressed Expect self s c = Some (b2, c2)"
        "(if b2 then Some (False, c2) else Some (True, force_report c2 i)) = Some (b, self')"
        using rest by (auto simp: is_expected_def split: bind_splits)
      from expected(1) show thesis
      proof (cases rule: is_suppressed_cases)
        case 1
        then show thesis using forced expected(2) Some s by simp
      next
        case (2 k l)
        then show thesis using suppressed expected(2) Some s by simp
      qed
    next
      case (2 k l)
      then show thesis using suppressed rest Some s by simp
    qed
  qed
qed

section \<open>Runs of a collector\<close>

text \<open>One call on a collector: a report, a report without checks, the start or end of a recording.\<close>

inductive collector_step :: "bool \<Rightarrow> collector \<Rightarrow> collector \<Rightarrow> bool" for debug where
  reporting: "report debug c i = Some (b, c') \<Longrightarrow> collector_step debug c c'"
| forcing: "collector_step debug c (force_report c i)"
| starting: "collector_step debug c (start_recording c)"
| finishing: "finish_recording c = (r, c') \<Longrightarrow> collector_step debug c c'"

text \<open>Everything but the counters, the collected issues and the recordings stays as it is.\<close>

definition same_setup :: "collector \<Rightarrow> collector \<Rightarrow> bool" where
  "same_setup c c' \<longleftrightarrow>
     map (\<lambda>p. p\<lparr>matches := 0\<rparr>) (pragmas c') = map (\<lambda>p. p\<lparr>matches := 0\<rparr>) (pragmas c) \<and>
     c'\<lparr>pragmas := [], collected := [], recordings := []\<rparr> = c\<lparr>pragmas := [], collected := [], recordings := []\<rparr>"

text \<open>
  A pragma with a limit: it has no scope or an explicit count, and does not stand for all codes.
\<close>

definition has_limit :: "collector \<Rightarrow> pragma \<Rightarrow> bool" where
  "has_limit c p \<longleftrightarrow> (scope_span p = None \<or> count_span p \<noteq> None) \<and> resolved_code c p \<noteq> all_codes"

definition counters_ok :: "collector \<Rightarrow> bool" where
  "counters_ok c \<longleftrightarrow> (\<forall>p \<in> set (pragmas c). has_limit c p \<longrightarrow> matches p \<le> expected_matches p)"

lemma same_setup_refl: "same_setup c c"
  by (simp add: same_setup_def)

lemma same_setup_trans: "same_setup a b \<Longrightarrow> same_setup b c \<Longrightarrow> same_setup a c"
  by (simp add: same_setup_def)

lemma same_setup_resolved: "same_setup c c' \<Longrightarrow> resolved_code c' = resolved_code c"
  by (rule ext) (cases c, cases c', simp add: same_setup_def resolved_code_def)

lemma force_report_frame [simp]:
  "pragmas (force_report c i) = pragmas c" "same_setup c (force_report c i)"
  by (cases c, simp_all add: force_report_def same_setup_def Let_def)

lemma start_recording_frame [simp]:
  "pragmas (start_recording c) = pragmas c" "same_setup c (start_recording c)"
  by (cases c, simp_all add: start_recording_def same_setup_def)

lemma finish_recording_frame:
  "finish_recording c = (r, c') \<Longrightarrow> pragmas c' = pragmas c \<and> same_setup c c'"
  by (cases c) (auto simp: finish_recording_def same_setup_def split: if_splits)

lemma count_match_frame: "same_setup c (count_match c i)"
proof -
  have "map f (xs[i := y]) = map f xs" if "f y = f (xs ! i)" for f :: "pragma \<Rightarrow> pragma" and xs y
    using that by (cases "i < length xs") (simp_all add: map_update list_update_beyond list_update_same_conv)
  then show ?thesis by (cases c) (simp add: same_setup_def count_match_def)
qed

lemma sat_inc_le: "m < e \<Longrightarrow> sat_inc_u16 m \<le> e"
  by (auto simp: sat_inc_u16_def inc_le)

lemma counters_same:
  "counters_ok c \<Longrightarrow> same_setup c c' \<Longrightarrow> pragmas c' = pragmas c \<Longrightarrow> counters_ok c'"
  using same_setup_resolved by (simp add: counters_ok_def has_limit_def)

lemma applies_below_limit:
  "pragma_applies c s l kind d p = Some True \<Longrightarrow> has_limit c p \<Longrightarrow> matches p < expected_matches p"
  by (auto simp: pragma_applies_def has_limit_def is_consumed_def Let_def not_le split: if_splits)

lemma counters_count_match:
  assumes "counters_ok c" "k < length (pragmas c)"
    "pragma_applies c s l kind d (pragmas c ! k) = Some True"
  shows "counters_ok (count_match c k)"
proof -
  have "resolved_code (count_match c k) = resolved_code c"
    by (rule same_setup_resolved[OF count_match_frame])
  then have limit: "has_limit (count_match c k) p = has_limit c p" for p
    by (simp add: has_limit_def)
  have upd: "has_limit c (p\<lparr>matches := n\<rparr>) = has_limit c p" for p n
    by (simp add: has_limit_def resolved_code_def split: option.split)
  have "matches p \<le> expected_matches p" if "p \<in> set (pragmas (count_match c k))" "has_limit c p" for p
  proof -
    from that(1) have "p \<in> insert ((pragmas c ! k)\<lparr>matches := sat_inc_u16 (matches (pragmas c ! k))\<rparr>) (set (pragmas c))"
      using set_update_subset_insert by (fastforce simp: count_match_def)
    then show ?thesis
    proof (cases "p \<in> set (pragmas c)")
      case True
      then show ?thesis using assms(1) that(2) by (simp add: counters_ok_def)
    next
      case False
      then show ?thesis
        using \<open>p \<in> insert _ _\<close> that(2) sat_inc_le[OF applies_below_limit[OF assms(3)]] by (auto simp: upd)
    qed
  qed
  then show ?thesis by (simp add: counters_ok_def limit)
qed

lemma step_keeps:
  "collector_step debug c c' \<Longrightarrow> same_setup c c' \<and> (counters_ok c \<longrightarrow> counters_ok c')"
proof (induction rule: collector_step.induct)
  case (reporting c i b c')
  from reporting show ?case
  proof (cases rule: report_cases)
    case (suppressed d s kind k l)
    then show ?thesis using counters_count_match count_match_frame by blast
  qed (auto intro: counters_same same_setup_refl)
next
  case (forcing c i)
  show ?case by (auto intro: counters_same)
next
  case (starting c)
  show ?case by (auto intro: counters_same)
next
  case (finishing c r c')
  then show ?case using finish_recording_frame counters_same by blast
qed

text \<open>
  In every run of a collector, a pragma with a limit never counts more matches than it
  expects, and nothing but counters, issues and recordings ever changes.
\<close>

theorem counters_bounded:
  assumes "(collector_step debug)\<^sup>*\<^sup>* c c'" and "counters_ok c"
  shows "counters_ok c' \<and> same_setup c c'"
  using assms
  by (induction rule: rtranclp_induct) (auto intro: same_setup_refl same_setup_trans dest: step_keeps)

section \<open>Recordings leave no trace\<close>

text \<open>
  The calls a callback of \<open>record\<close> makes: reports, reports without checks, and recordings of its
  own that it also finishes.
\<close>

inductive speculative :: "bool \<Rightarrow> collector \<Rightarrow> collector \<Rightarrow> bool" for debug where
  nothing: "speculative debug c c"
| reported: "speculative debug c c1 \<Longrightarrow> report debug c1 i = Some (b, c2) \<Longrightarrow> speculative debug c c2"
| forced: "speculative debug c c1 \<Longrightarrow> speculative debug c (force_report c1 i)"
| nested: "speculative debug c c1 \<Longrightarrow> speculative debug (start_recording c1) c2 \<Longrightarrow>
    finish_recording c2 = (r, c3) \<Longrightarrow> speculative debug c c3"

text \<open>Two collectors that differ in the issues of the innermost recording only.\<close>

definition differ_in_last :: "collector \<Rightarrow> collector \<Rightarrow> bool" where
  "differ_in_last c c' \<longleftrightarrow> recordings c \<noteq> [] \<and> recordings c' \<noteq> [] \<and>
     c'\<lparr>recordings := butlast (recordings c')\<rparr> = c\<lparr>recordings := butlast (recordings c)\<rparr>"

lemma differ_refl: "recordings c \<noteq> [] \<Longrightarrow> differ_in_last c c"
  by (simp add: differ_in_last_def)

lemma differ_trans: "differ_in_last a b \<Longrightarrow> differ_in_last b c \<Longrightarrow> differ_in_last a c"
  by (simp add: differ_in_last_def)

lemma differ_force: "recordings c \<noteq> [] \<Longrightarrow> differ_in_last c (force_report c i)"
  by (cases c) (simp add: differ_in_last_def force_report_def Let_def)

lemma differ_report:
  "recordings c \<noteq> [] \<Longrightarrow> report debug c i = Some (b, c') \<Longrightarrow> differ_in_last c c'"
  by (erule report_cases) (auto simp: differ_force differ_refl is_recording_def)

lemma finish_after_start:
  assumes "differ_in_last (start_recording c) c'"
  shows "finish_recording c' = (Some (last (recordings c')), c)"
  using assms by (cases c, cases c') (auto simp: differ_in_last_def start_recording_def finish_recording_def)

lemma speculative_differ:
  "speculative debug c c' \<Longrightarrow> recordings c \<noteq> [] \<Longrightarrow> differ_in_last c c'"
proof (induction rule: speculative.induct)
  case (nothing c)
  then show ?case by (rule differ_refl)
next
  case (reported c c1 i b c2)
  then show ?case by (metis differ_in_last_def differ_report differ_trans)
next
  case (forced c c1 i)
  then show ?case by (metis differ_in_last_def differ_force differ_trans)
next
  case (nested c c1 c2 r c3)
  then have "differ_in_last (start_recording c1) c2" by (simp add: start_recording_def)
  then have "c3 = c1" using finish_after_start nested.hyps(3) by simp
  then show ?case using nested by simp
qed

text \<open>
  Speculative analysis leaves no trace: whatever a callback reports and records, \<open>record\<close>
  returns its issues and gives back the collector it was called on, every pragma counter included.
\<close>

theorem record_leaves_no_trace:
  assumes "record_issues c f = Some ((t, is), c')"
    and "\<And>d x d'. f d = Some (x, d') \<Longrightarrow> speculative debug d d'"
  shows "c' = c"
proof -
  obtain d where d: "f (start_recording c) = Some (t, d)" "snd (finish_recording d) = c'"
    using assms(1) by (auto simp: record_issues_def Let_def split: bind_splits prod.splits)
  have "differ_in_last (start_recording c) d"
    by (rule speculative_differ[OF assms(2)[OF d(1)]]) (simp add: start_recording_def)
  from finish_after_start[OF this] show ?thesis using d(2) by simp
qed

section \<open>No issue is lost\<close>

definition total_matches :: "collector \<Rightarrow> nat" where
  "total_matches c = sum_list (map (\<lambda>p. unat (matches p)) (pragmas c))"

definition disabled_issue :: "collector \<Rightarrow> issue \<Rightarrow> bool" where
  "disabled_issue c i \<longleftrightarrow> (case issue_code i of Some d \<Rightarrow> d \<in> set (disabled_codes c) | None \<Rightarrow> False)"

definition room_for :: "nat \<Rightarrow> collector \<Rightarrow> bool" where
  "room_for n c \<longleftrightarrow> (\<forall>p \<in> set (pragmas c). unat (matches p) + n < 2 ^ 16)"

lemma unat_sat_inc: "unat n + 1 < 2 ^ 16 \<Longrightarrow> unat (sat_inc_u16 n) = unat n + 1"
  by (auto simp: sat_inc_u16_def unat_word_ariths unsigned_minus_1_eq_mask mask_eq_exp_minus_1)

lemma total_count_match:
  assumes "k < length (pragmas c)" "room_for (Suc n) c"
  shows "total_matches (count_match c k) = Suc (total_matches c)" "room_for n (count_match c k)"
proof -
  have k: "unat (matches (pragmas c ! k)) + Suc n < 2 ^ 16"
    using assms nth_mem by (fastforce simp: room_for_def)
  then have inc: "unat (sat_inc_u16 (matches (pragmas c ! k))) = unat (matches (pragmas c ! k)) + 1"
    by (intro unat_sat_inc) simp
  have "sum_list (xs[k := xs ! k + 1]) = Suc (sum_list xs)" if "k < length xs" for xs :: "nat list"
    using that elem_le_sum_list[OF that] by (simp add: sum_list_update)
  from this[of "map (\<lambda>p. unat (matches p)) (pragmas c)"]
  show "total_matches (count_match c k) = Suc (total_matches c)"
    using assms(1) inc by (simp add: total_matches_def count_match_def map_update)
  have "unat (matches p) + n < 2 ^ 16"
    if "p \<in> insert ((pragmas c ! k)\<lparr>matches := sat_inc_u16 (matches (pragmas c ! k))\<rparr>) (set (pragmas c))" for p
    using that k inc assms(2) by (fastforce simp: room_for_def)
  then show "room_for n (count_match c k)"
    unfolding room_for_def count_match_def using set_update_subset_insert by fastforce
qed

lemma room_for_less: "room_for (Suc n) c \<Longrightarrow> room_for n c"
  by (auto simp: room_for_def)

lemma force_report_not_recording:
  "\<not> is_recording c \<Longrightarrow> collected (force_report c i) = collected c @ [prepare_issue c i] \<and>
     \<not> is_recording (force_report c i)"
  by (simp add: force_report_def is_recording_def Let_def)

lemma same_setup_prepare: "same_setup c c' \<Longrightarrow> prepare_issue c' = prepare_issue c"
  by (rule ext) (cases c, cases c', simp add: same_setup_def prepare_issue_def)

lemma same_setup_disabled: "same_setup c c' \<Longrightarrow> disabled_issue c' = disabled_issue c"
  by (rule ext) (cases c, cases c', simp add: same_setup_def disabled_issue_def split: option.split)

text \<open>One report puts the issue into exactly one of three accounts.\<close>

lemma report_account:
  assumes "report debug c i = Some (b, c')" "\<not> is_recording c" "issue_code i \<noteq> None" "room_for (Suc n) c"
  obtains js where "subseq js [i]" "collected c' = collected c @ map (prepare_issue c) js"
    "total_matches c + 1 = length js + length (filter (disabled_issue c) [i]) + total_matches c'"
    "\<not> is_recording c'" "room_for n c'" "same_setup c c'"
  using assms(1)
proof (cases rule: report_cases)
  case missing
  then show thesis using assms(3) by simp
next
  case forced
  then have "\<not> disabled_issue c i" using assms(3) by (auto simp: disabled_issue_def)
  then show thesis
    using that[of "[i]"] forced force_report_not_recording[OF assms(2)] room_for_less[OF assms(4)]
    by (simp add: total_matches_def room_for_def)
next
  case (disabled d)
  then show thesis
    using that[of "[]"] assms(2) room_for_less[OF assms(4)] same_setup_refl by (simp add: disabled_issue_def)
next
  case (suppressed d s kind k l)
  moreover have "collected (count_match c k) = collected c" "\<not> is_recording (count_match c k)"
    using assms(2) by (simp_all add: count_match_def is_recording_def)
  ultimately show thesis
    using that[of "[]"] total_count_match[OF _ assms(4), of k] count_match_frame[of c k]
    by (simp add: disabled_issue_def)
qed


section \<open>Deferring and continuing\<close>

definition prefixed :: "issue list \<Rightarrow> collector \<Rightarrow> collector" where
  "prefixed xs c = c\<lparr>collected := xs @ collected c\<rparr>"

lemma prefixed_sel [simp]:
  "collector_file (prefixed xs c) = collector_file c" "pragmas (prefixed xs c) = pragmas c"
  "collected (prefixed xs c) = xs @ collected c" "recordings (prefixed xs c) = recordings c"
  "disabled_codes (prefixed xs c) = disabled_codes c" "active_codes (prefixed xs c) = active_codes c"
  "aliases (prefixed xs c) = aliases c" "link_template (prefixed xs c) = link_template c"
  "skip_unfulfilled_expect (prefixed xs c) = skip_unfulfilled_expect c"
  by (simp_all add: prefixed_def)

lemma prefixed_applies [simp]: "pragma_applies (prefixed xs c) = pragma_applies c"
  by (intro ext) (simp only: pragma_applies_def resolved_code_def prefixed_sel)

lemma prefixed_find [simp]: "find_best_applicable_pragma (prefixed xs c) = find_best_applicable_pragma c"
  by (intro ext) (simp add: find_best_applicable_pragma_def)

lemma prefixed_force [simp]: "force_report (prefixed xs c) i = prefixed xs (force_report c i)"
proof -
  have "prepare_issue (prefixed xs c) i = prepare_issue c i" by (simp add: prepare_issue_def)
  then show ?thesis
    unfolding force_report_def Let_def prefixed_sel by (simp add: prefixed_def)
qed

lemma prefixed_count [simp]: "count_match (prefixed xs c) i = prefixed xs (count_match c i)"
  by (cases c) (simp add: count_match_def prefixed_def)

lemma is_suppressed_count:
  "is_suppressed kind c s d = map_option
     (\<lambda>best. case best of None \<Rightarrow> (False, c) | Some i \<Rightarrow> (True, count_match c i))
     (find_best_applicable_pragma c s kind d)"
  by (auto simp: is_suppressed_def count_match_def Let_def split: bind_split option.split)

lemma prefixed_suppressed [simp]:
  "is_suppressed kind (prefixed xs c) s d = map_option (map_prod id (prefixed xs)) (is_suppressed kind c s d)"
  by (auto simp: is_suppressed_count option.map_comp o_def split: option.split intro!: map_option_cong)

lemma prefixed_report [simp]:
  "report debug (prefixed xs c) i = map_option (map_prod id (prefixed xs)) (report debug c i)"
proof -
  have "is_recording (prefixed xs c) = is_recording c" by (simp add: is_recording_def)
  then show ?thesis
    by (auto simp: report_def Let_def is_ignored_def is_expected_def split: option.split bind_split)
qed

lemma prefixed_extend:
  "collector_extend debug (prefixed xs c) is = map_option (prefixed xs) (collector_extend debug c is)"
  by (induction "is" arbitrary: c) (auto split: bind_split)

text \<open>The result of finishing does not depend on the issues collected so far.\<close>

definition prefixed_state :: "issue list \<Rightarrow> finish_state \<Rightarrow> finish_state" where
  "prefixed_state xs st = st\<lparr>finished := xs @ finished st\<rparr>"

lemma prefixed_state_sel [simp]:
  "handled_directives (prefixed_state xs st) = handled_directives st"
  "handled_trivias (prefixed_state xs st) = handled_trivias st"
  by (simp_all add: prefixed_state_def)

lemma prefixed_edits [simp]:
  "compute_code_deletion (prefixed xs c) = compute_code_deletion c"
  "compute_comment_deletion (prefixed xs c) = compute_comment_deletion c"
  "compute_directive_deletion (prefixed xs c) = compute_directive_deletion c"
  "trivia_has_non_pragma_content (prefixed xs c) = trivia_has_non_pragma_content c"
  "is_pragma_skipped (prefixed xs c) = is_pragma_skipped c"
  by (intro ext, simp only: compute_code_deletion_def compute_comment_deletion_def
      compute_directive_deletion_def trivia_has_non_pragma_content_def is_pragma_skipped_def prefixed_sel)+

lemma prefixed_used [simp]: "used_spans (prefixed xs c) f = used_spans c f"
  by (simp add: used_spans_def has_match_def[abs_def])

lemma pragma_edit_prefixed:
  "pragma_edit (prefixed xs c) d t p (prefixed_state ys st) =
     map_option (map_prod id (prefixed_state ys)) (pragma_edit c d t p st)"
  by (cases st; cases "partial_count_edit p"; cases "trivia_has_non_pragma_content c p")
     (simp_all add: pragma_edit_def option.map_comp o_def prefixed_state_def)

lemma pragma_edit_finished:
  "pragma_edit c d t p st = Some (e, st') \<Longrightarrow> finished st' = finished st"
  by (auto simp: pragma_edit_def split: option.splits bind_splits if_splits)

lemma finish_step_prefixed:
  "finish_step (prefixed xs c) d t p (prefixed_state ys st) =
     map_option (prefixed_state ys) (finish_step c d t p st)"
  by (auto simp: finish_step_def pragma_edit_prefixed Let_def split: bind_split option.split)
     (simp_all add: prefixed_state_def)

lemma finish_loop_prefixed:
  "finish_loop (prefixed xs c) d t ps (prefixed_state ys st) =
     map_option (prefixed_state ys) (finish_loop c d t ps st)"
  by (induction ps arbitrary: st) (auto simp: finish_step_prefixed split: bind_split)

lemma finish_prefixed: "collector_finish (prefixed xs c) = map_option ((@) xs) (collector_finish c)"
proof (cases "skip_unfulfilled_expect c")
  case False
  have "\<lparr>handled_directives = {}, handled_trivias = {}, finished = xs @ collected c\<rparr> =
      prefixed_state xs \<lparr>handled_directives = {}, handled_trivias = {}, finished = collected c\<rparr>"
    by (simp add: prefixed_state_def)
  then show ?thesis
    using False by (simp add: collector_finish_def finish_loop_prefixed option.map_comp o_def)
       (simp add: prefixed_state_def)
qed (simp add: collector_finish_def)

lemma extend_keeps:
  "collector_extend debug c is = Some c' \<Longrightarrow> (collector_step debug)\<^sup>*\<^sup>* c c'"
proof (induction "is" arbitrary: c)
  case (Cons i rest)
  then obtain b c1 where "report debug c i = Some (b, c1)" "collector_extend debug c1 rest = Some c'"
    by (auto split: bind_splits)
  then show ?case using Cons.IH by (meson converse_rtranclp_into_rtranclp reporting)
qed simp

lemma steps_setup: "(collector_step debug)\<^sup>*\<^sup>* c c' \<Longrightarrow> same_setup c c'"
  by (induction rule: rtranclp_induct) (auto intro: same_setup_refl same_setup_trans dest: step_keeps)

lemma report_not_recording:
  "report debug c i = Some (b, c') \<Longrightarrow> \<not> is_recording c \<Longrightarrow> \<not> is_recording c'"
  by (erule report_cases) (auto simp: force_report_not_recording, simp add: count_match_def is_recording_def)

lemma extend_not_recording:
  "collector_extend debug c is = Some c' \<Longrightarrow> \<not> is_recording c \<Longrightarrow> \<not> is_recording c'"
  by (induction "is" arbitrary: c) (auto split: bind_splits dest: report_not_recording)

lemma same_setup_fields:
  assumes "same_setup c c'"
  shows "collector_file c' = collector_file c" "length (pragmas c') = length (pragmas c)"
  using assms by (cases c; cases c'; simp add: same_setup_def; metis length_map)+

text \<open>
  Deferring continues the same collector: reconciling issues against the deferred pragmas and
  finishing them gives what the collector would have given had it received the issues itself, and
  the deferred state is the one that collector would defer.
\<close>

theorem reconcile_continues:
  assumes "defer_pragmas c = (out0, Some d)" and "\<not> is_recording c"
    and "reconcile debug (collector_file c) d is = Some (out1, d')"
    and "deferred_finish debug (collector_file c) d' = Some out2"
  shows "\<exists>c'. collector_extend debug c is = Some c' \<and> defer_pragmas c' = (out0 @ out1, Some d') \<and>
    collector_finish c' = Some (out0 @ out1 @ out2)"
proof -
  let ?file = "collector_file c"
  have ne: "pragmas c \<noteq> []" and out0: "out0 = collected c"
    using assms(1) by (auto simp: defer_pragmas_def split: if_splits)
  have c: "c = prefixed out0 (into_collector ?file d)"
    using assms(1,2) by (cases c) (auto simp: defer_pragmas_def into_collector_def prefixed_def
        is_recording_def split: if_splits)
  obtain c1 where c1: "collector_extend debug (into_collector ?file d) is = Some c1"
    "defer_pragmas c1 = (out1, Some d')"
  proof -
    obtain c1 state where x: "collector_extend debug (into_collector ?file d) is = Some c1"
      "defer_pragmas c1 = (out1, state)" "d' = (case state of Some s \<Rightarrow> s | None \<Rightarrow> d)"
      using assms(3) by (auto simp: reconcile_def Let_def split: if_splits bind_splits prod.splits)
    have "length (pragmas c1) = length (pragmas (into_collector ?file d))"
      using same_setup_fields(2)[OF steps_setup[OF extend_keeps[OF x(1)]]] .
    then have "pragmas c1 \<noteq> []" using ne c by (metis length_0_conv prefixed_sel(2))
    then show thesis using that x by (auto simp: defer_pragmas_def)
  qed
  have "\<not> is_recording (into_collector ?file d)" by (simp add: into_collector_def is_recording_def)
  then have rec: "recordings c1 = []" using extend_not_recording[OF c1(1)] by (simp add: is_recording_def)
  have same_file: "collector_file c1 = ?file"
    using same_setup_fields(1)[OF steps_setup[OF extend_keeps[OF c1(1)]]] by (simp add: into_collector_def)
  have again: "c1 = prefixed out1 (into_collector ?file d')"
    using c1(2) rec same_file by (cases c1) (auto simp: defer_pragmas_def into_collector_def prefixed_def split: if_splits)
  have "collector_extend debug c is = Some (prefixed out0 c1)"
    using prefixed_extend[of debug out0 "into_collector ?file d" "is"] c1(1) c by simp
  moreover have "defer_pragmas (prefixed out0 c1) = (out0 @ out1, Some d')"
    using c1(2) by (auto simp: defer_pragmas_def split: if_splits)
  moreover have "collector_finish (into_collector ?file d') = Some out2"
    using assms(4) by (auto simp: deferred_finish_def split: if_splits)
  then have "collector_finish (prefixed out0 c1) = Some (out0 @ out1 @ out2)"
    using again finish_prefixed by simp
  ultimately show ?thesis by blast
qed

section \<open>What finishing reports\<close>

lemma note_use_used: "span_used (note_use s b m) s' \<longleftrightarrow> span_used m s' \<or> (s = s' \<and> b)"
  by (auto simp: span_used_def note_use_def Let_def split: option.splits)

lemma span_used_fold:
  "span_used (fold (\<lambda>p. note_use (f p) (g p)) ps m) s \<longleftrightarrow> span_used m s \<or> (\<exists>p \<in> set ps. f p = s \<and> g p)"
  by (induction ps arbitrary: m) (auto simp: note_use_used)

lemma used_spans_iff:
  "span_used (used_spans c f) s \<longleftrightarrow> (\<exists>p \<in> set (pragmas c). f p = s \<and> has_match c p)"
  unfolding used_spans_def span_used_fold by (simp add: span_used_def)

text \<open>
  The admissible fixes for an unused pragma: a new count, the removal of its code where its
  directive has another use, of the comment where nothing in the comment is used and nothing but
  pragmas is in it, of the directive where no code of it is used, or none.
\<close>

definition fix_ok :: "collector \<Rightarrow> pragma \<Rightarrow> text_edit option \<Rightarrow> bool" where
  "fix_ok c p fix \<longleftrightarrow> (case fix of
     None \<Rightarrow> True
   | Some e \<Rightarrow>
       partial_count_edit p = Some e \<or>
       (\<exists>q \<in> set (pragmas c). pragma_span q = pragma_span p \<and> has_match c q) \<and>
         compute_code_deletion c p = Some e \<or>
       \<not> (\<exists>q \<in> set (pragmas c). trivia_span q = trivia_span p \<and> has_match c q) \<and>
         trivia_has_non_pragma_content c p = Some False \<and> compute_comment_deletion c p = Some e \<or>
       \<not> (\<exists>q \<in> set (pragmas c). pragma_span q = pragma_span p \<and> has_match c q) \<and>
         compute_directive_deletion c p = Some e)"

definition with_fix :: "collector \<Rightarrow> pragma \<Rightarrow> text_edit option \<Rightarrow> issue" where
  "with_fix c p fix = (case fix of
     None \<Rightarrow> unused_pragma_issue p
   | Some e \<Rightarrow> issue_with_edit (unused_pragma_issue p) (file_file_id (collector_file c)) e)"

lemma pragma_edit_ok:
  "pragma_edit c (used_spans c pragma_span) (used_spans c trivia_span) p st = Some (fix, st') \<Longrightarrow> fix_ok c p fix"
  unfolding pragma_edit_def fix_ok_def used_spans_iff
  by (auto split: option.splits bind_splits if_splits)

lemma finish_loop_reports:
  assumes "finish_loop c (used_spans c pragma_span) (used_spans c trivia_span) ps st = Some st'"
  shows "\<exists>fixes. list_all2 (fix_ok c) (filter (\<lambda>p. \<not> is_fulfilled p \<and> \<not> is_pragma_skipped c p) ps) fixes \<and>
    finished st' = finished st @
      map2 (with_fix c) (filter (\<lambda>p. \<not> is_fulfilled p \<and> \<not> is_pragma_skipped c p) ps) fixes"
  using assms
proof (induction ps arbitrary: st)
  case (Cons p ps)
  then obtain st1 where s1: "finish_step c (used_spans c pragma_span) (used_spans c trivia_span) p st = Some st1"
    and s2: "finish_loop c (used_spans c pragma_span) (used_spans c trivia_span) ps st1 = Some st'"
    by (auto split: bind_splits)
  from Cons.IH[OF s2] obtain fs where f:
    "list_all2 (fix_ok c) (filter (\<lambda>p. \<not> is_fulfilled p \<and> \<not> is_pragma_skipped c p) ps) fs"
    "finished st' = finished st1 @
      map2 (with_fix c) (filter (\<lambda>p. \<not> is_fulfilled p \<and> \<not> is_pragma_skipped c p) ps) fs" by blast
  show ?case
  proof (cases "is_fulfilled p \<or> is_pragma_skipped c p")
    case True
    then have "st1 = st" using s1 by (simp add: finish_step_def)
    then show ?thesis using f True by auto
  next
    case False
    then obtain fx st2 where e: "pragma_edit c (used_spans c pragma_span) (used_spans c trivia_span) p st = Some (fx, st2)"
      "st1 = st2\<lparr>finished := finished st2 @ [with_fix c p fx]\<rparr>"
      using s1 by (auto simp: finish_step_def with_fix_def Let_def split: bind_splits)
    then show ?thesis
      using f False pragma_edit_ok[OF e(1)] pragma_edit_finished[OF e(1)]
      by (intro exI[of _ "fx # fs"]) auto
  qed
qed simp

text \<open>
  Finishing adds one issue for each pragma that is neither fulfilled nor skipped, in order and
  after the collected issues, and every fix it offers is admissible.
\<close>

theorem finish_reports_unfulfilled:
  assumes "collector_finish c = Some out" and "\<not> skip_unfulfilled_expect c"
  shows "\<exists>fixes. list_all2 (fix_ok c) (filter (\<lambda>p. \<not> is_fulfilled p \<and> \<not> is_pragma_skipped c p) (pragmas c)) fixes \<and>
    out = collected c @
      map2 (with_fix c) (filter (\<lambda>p. \<not> is_fulfilled p \<and> \<not> is_pragma_skipped c p) (pragmas c)) fixes"
proof -
  obtain st where st: "finish_loop c (used_spans c pragma_span) (used_spans c trivia_span) (pragmas c)
      \<lparr>handled_directives = {}, handled_trivias = {}, finished = collected c\<rparr> = Some st" "out = finished st"
    using assms by (auto simp: collector_finish_def)
  from finish_loop_reports[OF st(1)] st(2) show ?thesis by simp
qed

section \<open>A comment with text and a pragma\<close>

definition doc_text :: bytes where
  "doc_text = byte_string ''<?php'' @ [LF] @ byte_string ''/** Doc'' @ [LF] @
     byte_string '' * @mago-expect lint:a */'' @ [LF] @ byte_string ''f();''"

definition doc_file :: source_file where
  "doc_file = file_new (\<lambda>_. 1) (byte_string ''a.php'') Host None doc_text"

definition doc_trivia :: trivia where
  "doc_trivia = \<lparr>trivia_kind = DocBlockComment, trivia_position = span_new 1 (Position 6) (Position 39),
     trivia_value = take 33 (drop 6 doc_text)\<rparr>"

definition call_span :: span where "call_span = span_new 1 (Position 40) (Position 44)"

definition doc_result :: "collector option" where
  "doc_result = collector_new (\<lambda>_. 0) doc_file [doc_trivia] [Statement call_span False []] [byte_string ''lint'']"

definition doc_collector :: collector where "doc_collector = the doc_result"

definition call_issue :: issue where
  "call_issue = with_code (with_annotation (issue_error_new (byte_string ''unused'')) (annotation_primary call_span))
     (byte_string ''a'')"

lemma doc_facts:
  "\<not> is_recording doc_collector" "length (pragmas doc_collector) = 1" "room_for 1 doc_collector"
  "\<not> skip_unfulfilled_expect doc_collector" "issue_code call_issue \<noteq> None"
proof -
  have "length (recordings doc_collector) = 0" by code_simp
  then show "\<not> is_recording doc_collector" by (simp add: is_recording_def)
  show "length (pragmas doc_collector) = 1" by code_simp
  have "list_all (\<lambda>p. matches p = 0) (pragmas doc_collector)" by code_simp
  then show "room_for 1 doc_collector" by (simp add: room_for_def list_all_iff)
  show "\<not> skip_unfulfilled_expect doc_collector" by code_simp
  show "issue_code call_issue \<noteq> None" by (simp add: call_issue_def with_code_def)
qed

lemma the_Some: "\<not> Option.is_none x \<Longrightarrow> x = Some (the x)"
  by (cases x) (simp_all add: Option.is_none_def)

theorem best_pragma_chosen_witness:
  "best_among (pragma_applies doc_collector call_span 3 Expect (byte_string ''a'')) (pragmas doc_collector)
     (length (pragmas doc_collector)) (Some 0)"
proof -
  have "find_best_applicable_pragma doc_collector call_span Expect (byte_string ''a'') = Some (Some 0)"
    "line_number (collector_file doc_collector) (offset (span_start call_span)) = Some 3"
    by code_simp+
  then show ?thesis by (rule best_pragma_chosen)
qed

theorem counters_bounded_witness:
  "counters_ok (snd (the (report True doc_collector call_issue))) \<and>
   total_matches (snd (the (report True doc_collector call_issue))) = 1"
proof -
  have "report True doc_collector call_issue = Some (the (report True doc_collector call_issue))"
    by (rule the_Some) code_simp
  then have "collector_step True doc_collector (snd (the (report True doc_collector call_issue)))"
    by (metis prod.collapse reporting)
  moreover have "counters_ok doc_collector" by code_simp
  ultimately have "counters_ok (snd (the (report True doc_collector call_issue)))"
    using counters_bounded[OF r_into_rtranclp] by blast
  moreover have "total_matches (snd (the (report True doc_collector call_issue))) = 1" by code_simp
  ultimately show ?thesis by blast
qed

theorem record_leaves_no_trace_witness:
  "snd (the (record_issues doc_collector (\<lambda>d. report True d call_issue))) = doc_collector"
proof -
  let ?r = "record_issues doc_collector (\<lambda>d. report True d call_issue)"
  have "?r = Some (the ?r)" by (rule the_Some) code_simp
  then have r: "?r = Some ((fst (fst (the ?r)), snd (fst (the ?r))), snd (the ?r))" by (metis prod.collapse)
  have "speculative True d d'" if "report True d call_issue = Some (x, d')" for d x d'
    using that by (metis speculative.nothing speculative.reported)
  then show ?thesis by (rule record_leaves_no_trace[OF r])
qed


theorem reconcile_continues_witness:
  "\<exists>c'. collector_extend True doc_collector [call_issue] = Some c' \<and>
     collector_finish c' = Some (collected doc_collector @
       fst (the (reconcile True doc_file (the (snd (defer_pragmas doc_collector))) [call_issue])) @
       the (deferred_finish True doc_file
         (snd (the (reconcile True doc_file (the (snd (defer_pragmas doc_collector))) [call_issue])))))"
proof -
  let ?d = "the (snd (defer_pragmas doc_collector))"
  let ?r = "reconcile True doc_file ?d [call_issue]"
  have "pragmas doc_collector \<noteq> []" using doc_facts(2) by auto
  then have d: "defer_pragmas doc_collector = (collected doc_collector, Some ?d)"
    by (simp add: defer_pragmas_def)
  have f: "collector_file doc_collector = doc_file"
    by code_simp
  have "?r = Some (the ?r)" by (rule the_Some) code_simp
  then have r: "?r = Some (fst (the ?r), snd (the ?r))" by simp
  have "deferred_finish True doc_file (snd (the ?r)) = Some (the (deferred_finish True doc_file (snd (the ?r))))"
    by (rule the_Some) code_simp
  from reconcile_continues[OF d doc_facts(1), unfolded f, OF r this] show ?thesis by blast
qed

theorem finish_reports_unfulfilled_witness:
  "\<exists>fixes. the (collector_finish doc_collector) = collected doc_collector @
     map2 (with_fix doc_collector)
       (filter (\<lambda>p. \<not> is_fulfilled p \<and> \<not> is_pragma_skipped doc_collector p) (pragmas doc_collector)) fixes"
proof -
  have "collector_finish doc_collector = Some (the (collector_finish doc_collector))"
    by (rule the_Some) code_simp
  from finish_reports_unfulfilled[OF this doc_facts(4)] show ?thesis by blast
qed

text \<open>
  The fix that removes a directive from a comment with other text deletes the whole line, so a
  terminator on that line goes with it: the fix for the unused pragma of the sample comment leaves
  the comment open and the call inside it.
\<close>

theorem directive_fix_opens_comment:
  "map_option (map (\<lambda>i. case issue_edits i 1 of Some es \<Rightarrow> stitch doc_text es | None \<Rightarrow> None))
     (collector_finish doc_collector) =
   Some [Some (byte_string ''<?php'' @ [LF] @ byte_string ''/** Doc'' @ [LF] @ byte_string ''f();'')]"
  by code_simp

end
