(* ===== verification/Assertions.thy ===== *)
theory Assertions
  imports Byte_Text
begin

text \<open>
  Assertions about expressions (crate \<open>codex\<close>, \<open>assertion.rs\<close>): the facts a condition implies,
  their names and hashes, and their negations. The types of atomics, unions and array keys and the
  names they print are parameters: assertions only compare and print them. An i64 is an
  \<open>int\<close>, a usize a \<open>nat\<close>.

  The lemmas relate the negation of an assertion to the test for being opposite and to hashes.
\<close>

datatype ('a, 'u, 'k) assertion =
  Any
| IsType 'a
| IsNotType 'a
| Falsy
| Truthy
| IsIdentical 'a
| IsNotIdentical 'a
| IsEqual 'a
| IsNotEqual 'a
| IsEqualIsset
| IsIsset
| IsNotIsset
| HasStringArrayAccess
| HasIntOrStringArrayAccess
| ArrayKeyExists
| ArrayKeyDoesNotExist
| InArray 'u
| NotInArray 'u
| HasArrayKey 'k
| DoesNotHaveArrayKey 'k
| HasNonnullEntryForKey 'k
| DoesNotHaveNonnullEntryForKey 'k
| Empty
| NonEmpty
| NonEmptyCountable bool
| EmptyCountable
| HasExactCount nat
| HasAtLeastCount nat
| DoesNotHaveExactCount nat
| DoesNotHasAtLeastCount nat
| IsLessThan int
| IsLessThanOrEqual int
| IsGreaterThan int
| IsGreaterThanOrEqual int
| IsLessThanFromBound int
| IsLessThanOrEqualFromBound int
| IsGreaterThanFromBound int
| IsGreaterThanOrEqualFromBound int
| IsLessThanVariable bytes
| IsLessThanOrEqualVariable bytes
| IsGreaterThanVariable bytes
| IsGreaterThanOrEqualVariable bytes
| StringLengthLessThan int
| StringLengthGreaterThanOrEqual int
| Countable
| NotCountable bool

record ('a, 'u, 'k) type_names =
  atomic_id :: "'a \<Rightarrow> bytes"
  union_id :: "'u \<Rightarrow> bytes"
  key_atom :: "'k \<Rightarrow> bytes"

definition to_atom :: "('a, 'u, 'k) type_names \<Rightarrow> ('a, 'u, 'k) assertion \<Rightarrow> bytes" where
  "to_atom ids self = (case self of
     Any \<Rightarrow> byte_string ''any''
   | IsType x \<Rightarrow> atomic_id ids x
   | IsNotType x \<Rightarrow> byte_string ''!'' @ atomic_id ids x
   | Falsy \<Rightarrow> byte_string ''falsy''
   | Truthy \<Rightarrow> byte_string ''truthy''
   | IsIdentical x \<Rightarrow> byte_string ''='' @ atomic_id ids x
   | IsNotIdentical x \<Rightarrow> byte_string ''!='' @ atomic_id ids x
   | IsEqual x \<Rightarrow> byte_string ''~'' @ atomic_id ids x
   | IsNotEqual x \<Rightarrow> byte_string ''!~'' @ atomic_id ids x
   | IsEqualIsset \<Rightarrow> byte_string ''=isset''
   | IsIsset \<Rightarrow> byte_string ''isset''
   | IsNotIsset \<Rightarrow> byte_string ''!isset''
   | HasStringArrayAccess \<Rightarrow> byte_string ''=string-array-access''
   | HasIntOrStringArrayAccess \<Rightarrow> byte_string ''=int-or-string-array-access''
   | ArrayKeyExists \<Rightarrow> byte_string ''array-key-exists''
   | ArrayKeyDoesNotExist \<Rightarrow> byte_string ''!array-key-exists''
   | InArray x \<Rightarrow> byte_string ''=in-array-'' @ union_id ids x
   | NotInArray x \<Rightarrow> byte_string ''!=in-array-'' @ union_id ids x
   | HasArrayKey x \<Rightarrow> byte_string ''=has-array-key-'' @ key_atom ids x
   | DoesNotHaveArrayKey x \<Rightarrow> byte_string ''!=has-array-key-'' @ key_atom ids x
   | HasNonnullEntryForKey x \<Rightarrow> byte_string ''=has-nonnull-entry-for-'' @ key_atom ids x
   | DoesNotHaveNonnullEntryForKey x \<Rightarrow> byte_string ''!=has-nonnull-entry-for-'' @ key_atom ids x
   | Empty \<Rightarrow> byte_string ''empty''
   | NonEmpty \<Rightarrow> byte_string ''non-empty''
   | NonEmptyCountable negatable \<Rightarrow> (if negatable then byte_string ''non-empty-countable'' else byte_string ''=non-empty-countable'')
   | EmptyCountable \<Rightarrow> byte_string ''empty-countable''
   | HasExactCount x \<Rightarrow> byte_string ''has-exactly-'' @ byte_string (show_nat x)
   | HasAtLeastCount x \<Rightarrow> byte_string ''has-at-least-'' @ byte_string (show_nat x)
   | DoesNotHaveExactCount x \<Rightarrow> byte_string ''!has-exactly-'' @ byte_string (show_nat x)
   | DoesNotHasAtLeastCount x \<Rightarrow> byte_string ''has-at-most-'' @ byte_string (show_nat x)
   | IsLessThan x \<Rightarrow> byte_string ''is-less-than-'' @ byte_string (show_int x)
   | IsLessThanOrEqual x \<Rightarrow> byte_string ''is-less-than-or-equal-'' @ byte_string (show_int x)
   | IsGreaterThan x \<Rightarrow> byte_string ''is-greater-than-'' @ byte_string (show_int x)
   | IsGreaterThanOrEqual x \<Rightarrow> byte_string ''is-greater-than-or-equal-'' @ byte_string (show_int x)
   | IsLessThanFromBound x \<Rightarrow> byte_string ''is-less-than-from-bound-'' @ byte_string (show_int x)
   | IsLessThanOrEqualFromBound x \<Rightarrow> byte_string ''is-less-than-or-equal-from-bound-'' @ byte_string (show_int x)
   | IsGreaterThanFromBound x \<Rightarrow> byte_string ''is-greater-than-from-bound-'' @ byte_string (show_int x)
   | IsGreaterThanOrEqualFromBound x \<Rightarrow> byte_string ''is-greater-than-or-equal-from-bound-'' @ byte_string (show_int x)
   | IsLessThanVariable x \<Rightarrow> byte_string ''is-less-than-variable-'' @ x
   | IsLessThanOrEqualVariable x \<Rightarrow> byte_string ''is-less-than-or-equal-variable-'' @ x
   | IsGreaterThanVariable x \<Rightarrow> byte_string ''is-greater-than-variable-'' @ x
   | IsGreaterThanOrEqualVariable x \<Rightarrow> byte_string ''is-greater-than-or-equal-variable-'' @ x
   | StringLengthLessThan x \<Rightarrow> byte_string ''string-length-is-less-than-'' @ byte_string (show_int x)
   | StringLengthGreaterThanOrEqual x \<Rightarrow> byte_string ''string-length-is-greater-than-or-equal-'' @ byte_string (show_int x)
   | Countable \<Rightarrow> byte_string ''countable''
   | NotCountable _ \<Rightarrow> byte_string ''!countable'')"

text \<open>The hash of a name is a parameter.\<close>

definition to_hash :: "(bytes \<Rightarrow> u64) \<Rightarrow> ('a, 'u, 'k) type_names \<Rightarrow> ('a, 'u, 'k) assertion \<Rightarrow> u64" where
  "to_hash hash_one ids self = hash_one (to_atom ids self)"

definition get_negation :: "('a, 'u, 'k) assertion \<Rightarrow> ('a, 'u, 'k) assertion" where
  "get_negation self = (case self of
     Any \<Rightarrow> Any
   | IsType x \<Rightarrow> IsNotType x
   | IsNotType x \<Rightarrow> IsType x
   | Falsy \<Rightarrow> Truthy
   | Truthy \<Rightarrow> Falsy
   | IsIdentical x \<Rightarrow> IsNotIdentical x
   | IsNotIdentical x \<Rightarrow> IsIdentical x
   | IsEqual x \<Rightarrow> IsNotEqual x
   | IsNotEqual x \<Rightarrow> IsEqual x
   | IsEqualIsset \<Rightarrow> Any
   | IsIsset \<Rightarrow> IsNotIsset
   | IsNotIsset \<Rightarrow> IsIsset
   | HasStringArrayAccess \<Rightarrow> Any
   | HasIntOrStringArrayAccess \<Rightarrow> Any
   | ArrayKeyExists \<Rightarrow> ArrayKeyDoesNotExist
   | ArrayKeyDoesNotExist \<Rightarrow> ArrayKeyExists
   | InArray x \<Rightarrow> NotInArray x
   | NotInArray x \<Rightarrow> InArray x
   | HasArrayKey x \<Rightarrow> DoesNotHaveArrayKey x
   | DoesNotHaveArrayKey x \<Rightarrow> HasArrayKey x
   | HasNonnullEntryForKey x \<Rightarrow> DoesNotHaveNonnullEntryForKey x
   | DoesNotHaveNonnullEntryForKey x \<Rightarrow> HasNonnullEntryForKey x
   | Empty \<Rightarrow> NonEmpty
   | NonEmpty \<Rightarrow> Empty
   | NonEmptyCountable negatable \<Rightarrow> (if negatable then EmptyCountable else Any)
   | EmptyCountable \<Rightarrow> NonEmptyCountable True
   | HasExactCount x \<Rightarrow> DoesNotHaveExactCount x
   | HasAtLeastCount x \<Rightarrow> DoesNotHasAtLeastCount x
   | DoesNotHaveExactCount x \<Rightarrow> HasExactCount x
   | DoesNotHasAtLeastCount x \<Rightarrow> HasAtLeastCount x
   | IsLessThan x \<Rightarrow> IsGreaterThanOrEqual x
   | IsLessThanOrEqual x \<Rightarrow> IsGreaterThan x
   | IsGreaterThan x \<Rightarrow> IsLessThanOrEqual x
   | IsGreaterThanOrEqual x \<Rightarrow> IsLessThan x
   | IsLessThanFromBound _ \<Rightarrow> Any
   | IsLessThanOrEqualFromBound _ \<Rightarrow> Any
   | IsGreaterThanFromBound _ \<Rightarrow> Any
   | IsGreaterThanOrEqualFromBound _ \<Rightarrow> Any
   | IsLessThanVariable x \<Rightarrow> IsGreaterThanOrEqualVariable x
   | IsLessThanOrEqualVariable x \<Rightarrow> IsGreaterThanVariable x
   | IsGreaterThanVariable x \<Rightarrow> IsLessThanOrEqualVariable x
   | IsGreaterThanOrEqualVariable x \<Rightarrow> IsLessThanVariable x
   | StringLengthLessThan x \<Rightarrow> StringLengthGreaterThanOrEqual x
   | StringLengthGreaterThanOrEqual x \<Rightarrow> StringLengthLessThan x
   | Countable \<Rightarrow> NotCountable True
   | NotCountable _ \<Rightarrow> Countable)"

definition is_negation_of :: "('a, 'u, 'k) assertion \<Rightarrow> ('a, 'u, 'k) assertion \<Rightarrow> bool" where
  "is_negation_of self other = (case self of
     Any \<Rightarrow> False
   | IsType x \<Rightarrow> other = IsNotType x
   | IsNotType x \<Rightarrow> other = IsType x
   | Falsy \<Rightarrow> other = Truthy
   | Truthy \<Rightarrow> other = Falsy
   | IsIdentical x \<Rightarrow> other = IsNotIdentical x
   | IsNotIdentical x \<Rightarrow> other = IsIdentical x
   | IsEqual x \<Rightarrow> other = IsNotEqual x
   | IsNotEqual x \<Rightarrow> other = IsEqual x
   | IsEqualIsset \<Rightarrow> False
   | IsIsset \<Rightarrow> other = IsNotIsset
   | IsNotIsset \<Rightarrow> other = IsIsset
   | HasStringArrayAccess \<Rightarrow> False
   | HasIntOrStringArrayAccess \<Rightarrow> False
   | ArrayKeyExists \<Rightarrow> other = ArrayKeyDoesNotExist
   | ArrayKeyDoesNotExist \<Rightarrow> other = ArrayKeyExists
   | InArray x \<Rightarrow> other = NotInArray x
   | NotInArray x \<Rightarrow> other = InArray x
   | HasArrayKey x \<Rightarrow> other = DoesNotHaveArrayKey x
   | DoesNotHaveArrayKey x \<Rightarrow> other = HasArrayKey x
   | HasNonnullEntryForKey x \<Rightarrow> other = DoesNotHaveNonnullEntryForKey x
   | DoesNotHaveNonnullEntryForKey x \<Rightarrow> other = HasNonnullEntryForKey x
   | Empty \<Rightarrow> other = NonEmpty
   | NonEmpty \<Rightarrow> other = Empty
   | NonEmptyCountable negatable \<Rightarrow> (if negatable then other = EmptyCountable else False)
   | EmptyCountable \<Rightarrow> other = NonEmptyCountable True
   | HasExactCount x \<Rightarrow> other = DoesNotHaveExactCount x
   | HasAtLeastCount x \<Rightarrow> other = DoesNotHasAtLeastCount x
   | DoesNotHaveExactCount x \<Rightarrow> other = HasExactCount x
   | DoesNotHasAtLeastCount x \<Rightarrow> other = HasAtLeastCount x
   | IsLessThan x \<Rightarrow> other = IsGreaterThanOrEqual x
   | IsLessThanOrEqual x \<Rightarrow> other = IsGreaterThan x
   | IsGreaterThan x \<Rightarrow> other = IsLessThanOrEqual x
   | IsGreaterThanOrEqual x \<Rightarrow> other = IsLessThan x
   | IsLessThanFromBound _ \<Rightarrow> False
   | IsLessThanOrEqualFromBound _ \<Rightarrow> False
   | IsGreaterThanFromBound _ \<Rightarrow> False
   | IsGreaterThanOrEqualFromBound _ \<Rightarrow> False
   | IsLessThanVariable x \<Rightarrow> other = IsGreaterThanOrEqualVariable x
   | IsLessThanOrEqualVariable x \<Rightarrow> other = IsGreaterThanVariable x
   | IsGreaterThanVariable x \<Rightarrow> other = IsLessThanOrEqualVariable x
   | IsGreaterThanOrEqualVariable x \<Rightarrow> other = IsLessThanVariable x
   | StringLengthLessThan x \<Rightarrow> other = StringLengthGreaterThanOrEqual x
   | StringLengthGreaterThanOrEqual x \<Rightarrow> other = StringLengthLessThan x
   | Countable \<Rightarrow> other = NotCountable True
   | NotCountable _ \<Rightarrow> other = Countable)"

definition negated_hash :: "(bytes \<Rightarrow> u64) \<Rightarrow> ('a, 'u, 'k) type_names \<Rightarrow> ('a, 'u, 'k) assertion \<Rightarrow> u64" where
  "negated_hash hash_one ids self = hash_one (case self of
     IsType x \<Rightarrow> byte_string ''!'' @ atomic_id ids x
   | IsNotType x \<Rightarrow> atomic_id ids x
   | IsIdentical x \<Rightarrow> byte_string ''!='' @ atomic_id ids x
   | IsNotIdentical x \<Rightarrow> byte_string ''='' @ atomic_id ids x
   | IsEqual x \<Rightarrow> byte_string ''!~'' @ atomic_id ids x
   | IsNotEqual x \<Rightarrow> byte_string ''~'' @ atomic_id ids x
   | InArray x \<Rightarrow> byte_string ''!=in-array-'' @ union_id ids x
   | NotInArray x \<Rightarrow> byte_string ''=in-array-'' @ union_id ids x
   | _ \<Rightarrow> to_atom ids (get_negation self))"

definition is_negation :: "('a, 'u, 'k) assertion \<Rightarrow> bool" where
  "is_negation self = (case self of
     Falsy \<Rightarrow> True
   | IsNotType _ \<Rightarrow> True
   | IsNotEqual _ \<Rightarrow> True
   | IsNotIdentical _ \<Rightarrow> True
   | IsNotIsset \<Rightarrow> True
   | NotInArray _ \<Rightarrow> True
   | ArrayKeyDoesNotExist \<Rightarrow> True
   | DoesNotHaveArrayKey _ \<Rightarrow> True
   | DoesNotHaveExactCount _ \<Rightarrow> True
   | DoesNotHaveNonnullEntryForKey _ \<Rightarrow> True
   | DoesNotHasAtLeastCount _ \<Rightarrow> True
   | EmptyCountable \<Rightarrow> True
   | Empty \<Rightarrow> True
   | NotCountable _ \<Rightarrow> True
   | _ \<Rightarrow> False)"

definition has_isset :: "('a, 'u, 'k) assertion \<Rightarrow> bool" where
  "has_isset self = (case self of
     IsIsset \<Rightarrow> True
   | ArrayKeyExists \<Rightarrow> True
   | HasStringArrayAccess \<Rightarrow> True
   | IsEqualIsset \<Rightarrow> True
   | _ \<Rightarrow> False)"

definition has_equality :: "('a, 'u, 'k) assertion \<Rightarrow> bool" where
  "has_equality self = (case self of
     InArray _ \<Rightarrow> True
   | HasIntOrStringArrayAccess \<Rightarrow> True
   | HasStringArrayAccess \<Rightarrow> True
   | IsEqualIsset \<Rightarrow> True
   | IsIdentical _ \<Rightarrow> True
   | IsNotIdentical _ \<Rightarrow> True
   | IsEqual _ \<Rightarrow> True
   | IsNotEqual _ \<Rightarrow> True
   | HasExactCount _ \<Rightarrow> True
   | _ \<Rightarrow> False)"

definition get_type :: "('a, 'u, 'k) assertion \<Rightarrow> 'a option" where
  "get_type self = (case self of
     IsIdentical atomic \<Rightarrow> Some atomic
   | IsNotIdentical atomic \<Rightarrow> Some atomic
   | IsType atomic \<Rightarrow> Some atomic
   | IsNotType atomic \<Rightarrow> Some atomic
   | IsEqual atomic \<Rightarrow> Some atomic
   | IsNotEqual atomic \<Rightarrow> Some atomic
   | _ \<Rightarrow> None)"

text \<open>Which atomics are literals is a parameter.\<close>

definition has_literal_value :: "('a \<Rightarrow> bool) \<Rightarrow> ('a, 'u, 'k) assertion \<Rightarrow> bool" where
  "has_literal_value is_literal self = (case get_type self of Some a \<Rightarrow> is_literal a | None \<Rightarrow> False)"

definition with_type :: "('a, 'u, 'k) assertion \<Rightarrow> 'a \<Rightarrow> ('a, 'u, 'k) assertion" where
  "with_type self atomic = (case self of
     IsType _ \<Rightarrow> IsType atomic
   | IsNotType _ \<Rightarrow> IsNotType atomic
   | IsIdentical _ \<Rightarrow> IsIdentical atomic
   | IsNotIdentical _ \<Rightarrow> IsNotIdentical atomic
   | IsEqual _ \<Rightarrow> IsEqual atomic
   | IsNotEqual _ \<Rightarrow> IsNotEqual atomic
   | _ \<Rightarrow> self)"

text \<open>
  The replacement of templates in a union is a parameter; \<open>never\<close> is the empty type, and
  \<open>single\<close> and \<open>members\<close> convert between atomics and unions.
\<close>

definition resolve_templates ::
  "('a \<Rightarrow> 'u) \<Rightarrow> ('u \<Rightarrow> 'a list) \<Rightarrow> 'a \<Rightarrow> ('u \<Rightarrow> 'u) \<Rightarrow> ('a, 'u, 'k) assertion
     \<Rightarrow> ('a, 'u, 'k) assertion list" where
  "resolve_templates single members never replace self = (case self of
     IsType a \<Rightarrow> (let result = map IsType (members (replace (single a))) in
       if result = [] then [IsType never] else result)
   | IsNotType a \<Rightarrow> (let result = map IsNotType (members (replace (single a))) in
       if result = [] then [IsNotType never] else result)
   | InArray u \<Rightarrow> [InArray (replace u)]
   | NotInArray u \<Rightarrow> [NotInArray (replace u)]
   | _ \<Rightarrow> [self])"

definition is_negatable :: "('a, 'u, 'k) assertion \<Rightarrow> bool" where
  "is_negatable self \<longleftrightarrow> \<not> (case self of
     IsLessThanFromBound _ \<Rightarrow> True
   | IsLessThanOrEqualFromBound _ \<Rightarrow> True
   | IsGreaterThanFromBound _ \<Rightarrow> True
   | IsGreaterThanOrEqualFromBound _ \<Rightarrow> True
   | _ \<Rightarrow> False)"

definition referenced_variable :: "('a, 'u, 'k) assertion \<Rightarrow> bytes option" where
  "referenced_variable self = (case self of
     IsLessThanVariable variable \<Rightarrow> Some variable
   | IsLessThanOrEqualVariable variable \<Rightarrow> Some variable
   | IsGreaterThanVariable variable \<Rightarrow> Some variable
   | IsGreaterThanOrEqualVariable variable \<Rightarrow> Some variable
   | _ \<Rightarrow> None)"

section \<open>Negation\<close>

text \<open>An assertion whose negation is again an assertion, and not the uninformative \<open>Any\<close>.\<close>

definition invertible :: "('a, 'u, 'k) assertion \<Rightarrow> bool" where
  "invertible a \<longleftrightarrow> get_negation a \<noteq> Any"

lemma is_negation_of_iff:
  "is_negation_of a b \<longleftrightarrow> b = get_negation a \<and> invertible a"
  by (cases a) (auto simp: is_negation_of_def get_negation_def invertible_def)

lemma invertible_negation: "invertible a \<Longrightarrow> invertible (get_negation a)"
  by (cases a) (auto simp: get_negation_def invertible_def split: if_splits)

text \<open>
  Negating an assertion gives its opposite, where it has one, and negating twice gives the
  assertion back except that \<open>NotCountable\<close> forgets that it was not negatable; the hash computed
  for the negation without building it is the hash of the negation.
\<close>

theorem negation_laws:
  "is_negation_of a b = (b = get_negation a \<and> invertible a) \<and>
   (invertible a \<longrightarrow> get_negation (get_negation a) = (case a of NotCountable _ \<Rightarrow> NotCountable True | _ \<Rightarrow> a)) \<and>
   negated_hash hash_one ids a = to_hash hash_one ids (get_negation a)"
proof (intro conjI impI)
  show "is_negation_of a b = (b = get_negation a \<and> invertible a)" by (rule is_negation_of_iff)
  show "get_negation (get_negation a) = (case a of NotCountable _ \<Rightarrow> NotCountable True | _ \<Rightarrow> a)" if "invertible a"
    using that by (cases a) (auto simp: get_negation_def invertible_def split: if_splits)
  show "negated_hash hash_one ids a = to_hash hash_one ids (get_negation a)"
    by (cases a) (simp_all add: negated_hash_def to_hash_def to_atom_def get_negation_def)
qed

theorem negation_laws_witness:
  "get_negation (get_negation (NotCountable False :: (unit, unit, unit) assertion)) = NotCountable True"
  using negation_laws[of "NotCountable False"] by (simp add: invertible_def get_negation_def)

end
