(* ===== verification/Clauses.thy ===== *)
theory Clauses
  imports Assertions Source_File "HOL-Library.AList"
begin

text \<open>
  Clauses and sets of assertions (crate \<open>algebra\<close>, \<open>clause.rs\<close> and \<open>assertion_set.rs\<close>). An index map
  is an association list with distinct keys: inserting updates in place or appends. Variables are
  interned words, that is, byte strings. The hash functions are parameters, collected in a record
  with the names of types.

  The lemmas give clauses and sets of assertions their meaning under a valuation.
\<close>

section \<open>Clauses\<close>

record ('a, 'u, 'k) setting =
  names :: "('a, 'u, 'k) type_names"
  hash_one :: "bytes \<Rightarrow> u64"
  hash_hashes :: "u64 list \<Rightarrow> u64"
  hash_possibilities :: "(bytes \<times> u64 list) list \<Rightarrow> u64"

type_synonym ('a, 'u, 'k) alternatives = "(u64 \<times> ('a, 'u, 'k) assertion) list"

type_synonym ('a, 'u, 'k) possibilities = "(bytes \<times> ('a, 'u, 'k) alternatives) list"

record ('a, 'u, 'k) clause =
  condition_span :: span
  clause_span :: span
  clause_hash :: u32
  possibilities :: "('a, 'u, 'k) possibilities"
  wedge :: bool
  reconcilable :: bool
  generated :: bool

abbreviation literal_hash :: "('a, 'u, 'k) setting \<Rightarrow> ('a, 'u, 'k) assertion \<Rightarrow> u64" where
  "literal_hash S a \<equiv> to_hash (hash_one S) (names S) a"

definition get_hash :: "('a, 'u, 'k) setting \<Rightarrow> ('a, 'u, 'k) possibilities \<Rightarrow> span \<Rightarrow> bool \<Rightarrow> bool \<Rightarrow> u32" where
  "get_hash S ps sp is_wedge is_reconcilable =
     (if is_wedge \<or> \<not> is_reconcilable then
        offset (span_start sp) + offset (span_end sp) + (if is_wedge then 100000 else 0)
      else ucast (hash_possibilities S (map (\<lambda>(v, as). (v, map fst as)) ps)))"

definition unwrap_or :: "'x option \<Rightarrow> 'x \<Rightarrow> 'x" where
  "unwrap_or x d = (case x of Some y \<Rightarrow> y | None \<Rightarrow> d)"

definition clause_new ::
  "('a, 'u, 'k) setting \<Rightarrow> ('a, 'u, 'k) possibilities \<Rightarrow> span \<Rightarrow> span \<Rightarrow> bool option \<Rightarrow> bool option
     \<Rightarrow> bool option \<Rightarrow> ('a, 'u, 'k) clause" where
  "clause_new S ps cspan sp w r g =
     \<lparr>condition_span = cspan, clause_span = sp,
      clause_hash = get_hash S ps sp (unwrap_or w False) (unwrap_or r True), possibilities = ps,
      wedge = unwrap_or w False, reconcilable = unwrap_or r True, generated = unwrap_or g False\<rparr>"

definition rebuild :: "('a, 'u, 'k) setting \<Rightarrow> ('a, 'u, 'k) clause \<Rightarrow> ('a, 'u, 'k) possibilities \<Rightarrow> ('a, 'u, 'k) clause" where
  "rebuild S self ps = clause_new S ps (condition_span self) (clause_span self)
     (Some (wedge self)) (Some (reconcilable self)) (Some (generated self))"

definition remove_possibilities ::
  "('a, 'u, 'k) setting \<Rightarrow> ('a, 'u, 'k) clause \<Rightarrow> bytes \<Rightarrow> ('a, 'u, 'k) clause option" where
  "remove_possibilities S self var_id =
     (let ps = filter (\<lambda>(key, _). key \<noteq> var_id) (possibilities self) in
      if ps = [] then None else Some (rebuild S self ps))"

definition add_possibility ::
  "('a, 'u, 'k) setting \<Rightarrow> ('a, 'u, 'k) clause \<Rightarrow> bytes \<Rightarrow> ('a, 'u, 'k) alternatives \<Rightarrow> ('a, 'u, 'k) clause" where
  "add_possibility S self var_id new_possibility =
     rebuild S self (AList.update var_id new_possibility (possibilities self))"

text \<open>A lookup that tries the same position first.\<close>

definition lookup_at :: "nat \<Rightarrow> 'x \<Rightarrow> ('x \<times> 'y) list \<Rightarrow> 'y option" where
  "lookup_at i k m = (if i < length m \<and> fst (m ! i) = k then Some (snd (m ! i)) else map_of m k)"

definition clause_contains :: "('a, 'u, 'k) clause \<Rightarrow> ('a, 'u, 'k) clause \<Rightarrow> bool" where
  "clause_contains self other =
     (if length (possibilities other) > length (possibilities self) then False
      else list_all (\<lambda>(i, var, possible_types). case lookup_at i var (possibilities self) of
          None \<Rightarrow> False
        | Some local_possibilities \<Rightarrow>
            list_all (\<lambda>(j, key). lookup_at j key local_possibilities \<noteq> None)
              (enumerate 0 (map fst possible_types)))
        (enumerate 0 (possibilities other)))"

definition get_impossibilities :: "('a, 'u, 'k) clause \<Rightarrow> bytes \<Rightarrow> ('a, 'u, 'k) assertion list option" where
  "get_impossibilities self = map_of (concat (map (\<lambda>(var, possibility).
     let negations = map (\<lambda>(_, a). get_negation a) possibility in
     if negations = [] then [] else [(var, negations)]) (possibilities self)))"

definition atom_of_literal :: "('a, 'u, 'k) type_names \<Rightarrow> bytes \<Rightarrow> ('a, 'u, 'k) assertion \<Rightarrow> bytes" where
  "atom_of_literal ids var_name a = (case a of
     Any \<Rightarrow> var_name @ byte_string '' is any''
   | Falsy \<Rightarrow> byte_string ''!'' @ var_name
   | Truthy \<Rightarrow> var_name
   | IsType v \<Rightarrow> var_name @ byte_string '' is '' @ atomic_id ids v
   | IsIdentical v \<Rightarrow> var_name @ byte_string '' is '' @ atomic_id ids v
   | IsNotType v \<Rightarrow> var_name @ byte_string '' is not '' @ atomic_id ids v
   | IsNotIdentical v \<Rightarrow> var_name @ byte_string '' is not '' @ atomic_id ids v
   | _ \<Rightarrow> to_atom ids a)"

fun join_bytes :: "bytes \<Rightarrow> bytes list \<Rightarrow> bytes" where
  "join_bytes sep [] = []"
| "join_bytes sep [x] = x"
| "join_bytes sep (x # xs) = x @ sep @ join_bytes sep xs"

definition clause_to_atom :: "('a, 'u, 'k) type_names \<Rightarrow> ('a, 'u, 'k) clause \<Rightarrow> bytes" where
  "clause_to_atom ids self =
     (if possibilities self = [] then byte_string ''<empty>''
      else join_bytes (byte_string '' && '') (map (\<lambda>(var_id, vs).
        let var_name = (if starts_with [42] var_id then byte_string ''<expr>'' else var_id);
            clause_result = join_bytes (byte_string '' || '') (map (\<lambda>(_, a). atom_of_literal ids var_name a) vs)
        in if length vs > 1 then byte_string ''('' @ clause_result @ byte_string '')'' else clause_result)
      (possibilities self)))"

section \<open>Meaning\<close>

text \<open>
  A valuation says which assertions hold of which variable. A consistent one makes \<open>Any\<close> true and
  an invertible assertion and its negation opposite.
\<close>

type_synonym ('a, 'u, 'k) valuation = "bytes \<Rightarrow> ('a, 'u, 'k) assertion \<Rightarrow> bool"

definition consistent :: "('a, 'u, 'k) valuation \<Rightarrow> bool" where
  "consistent val \<longleftrightarrow> (\<forall>v. val v Any) \<and> (\<forall>v a. invertible a \<longrightarrow> val v (get_negation a) = (\<not> val v a))"

definition alternatives_hold :: "(('a, 'u, 'k) assertion \<Rightarrow> bool) \<Rightarrow> ('a, 'u, 'k) alternatives \<Rightarrow> bool" where
  "alternatives_hold p as \<longleftrightarrow> (\<exists>(h, a) \<in> set as. p a)"

definition possibilities_hold :: "('a, 'u, 'k) valuation \<Rightarrow> ('a, 'u, 'k) possibilities \<Rightarrow> bool" where
  "possibilities_hold val ps \<longleftrightarrow> (\<exists>(v, as) \<in> set ps. alternatives_hold (val v) as)"

abbreviation clause_holds :: "('a, 'u, 'k) valuation \<Rightarrow> ('a, 'u, 'k) clause \<Rightarrow> bool" where
  "clause_holds val c \<equiv> possibilities_hold val (possibilities c)"

text \<open>Only reconcilable clauses that are no wedges state a fact.\<close>

definition binding :: "('a, 'u, 'k) clause \<Rightarrow> bool" where
  "binding c \<longleftrightarrow> reconcilable c \<and> \<not> wedge c"

definition models :: "('a, 'u, 'k) valuation \<Rightarrow> ('a, 'u, 'k) clause list \<Rightarrow> bool" where
  "models val cs \<longleftrightarrow> (\<forall>c \<in> set cs. binding c \<longrightarrow> clause_holds val c)"

text \<open>A clause is well formed when its keys are distinct and its assertions stand at their hashes.\<close>

definition possibilities_ok :: "('a, 'u, 'k) setting \<Rightarrow> ('a, 'u, 'k) possibilities \<Rightarrow> bool" where
  "possibilities_ok S ps \<longleftrightarrow> distinct (map fst ps) \<and>
     (\<forall>(v, as) \<in> set ps. distinct (map fst as) \<and> (\<forall>(h, a) \<in> set as. h = literal_hash S a))"

definition assertions_of :: "('a, 'u, 'k) clause \<Rightarrow> ('a, 'u, 'k) assertion set" where
  "assertions_of c = (\<Union>(v, as) \<in> set (possibilities c). snd ` set as)"

definition literals :: "('a, 'u, 'k) clause list \<Rightarrow> ('a, 'u, 'k) assertion set" where
  "literals cs = (\<Union>c \<in> set cs. assertions_of c)"

text \<open>
  Two assertions state the same fact when they are equal or both \<open>NotCountable\<close>, whose flag no
  name shows. Hashes are faithful on a set when assertions with one hash, among the set and the
  negations of its members, state the same fact.
\<close>

definition same_fact :: "('a, 'u, 'k) assertion \<Rightarrow> ('a, 'u, 'k) assertion \<Rightarrow> bool" where
  "same_fact a b \<longleftrightarrow> a = b \<or> (case (a, b) of (NotCountable _, NotCountable _) \<Rightarrow> True | _ \<Rightarrow> False)"

lemma same_fact_iff: "same_fact a b \<longleftrightarrow> a = b \<or> (\<exists>m n. a = NotCountable m \<and> b = NotCountable n)"
  by (simp add: same_fact_def split: assertion.splits)

definition universe :: "('a, 'u, 'k) assertion set \<Rightarrow> ('a, 'u, 'k) assertion set" where
  "universe A = A \<union> get_negation ` A \<union> get_negation ` get_negation ` A"

definition faithful :: "('a, 'u, 'k) setting \<Rightarrow> ('a, 'u, 'k) assertion set \<Rightarrow> bool" where
  "faithful S A \<longleftrightarrow> (\<forall>a \<in> universe A. \<forall>b \<in> universe A. literal_hash S a = literal_hash S b \<longrightarrow> same_fact a b)"

text \<open>A valuation for examples: everything but the negative forms holds.\<close>

definition plain :: "('a, 'u, 'k) assertion \<Rightarrow> bool" where
  "plain a \<longleftrightarrow> \<not> (is_negation a \<or> (case a of
     IsGreaterThan _ \<Rightarrow> True
   | IsGreaterThanOrEqual _ \<Rightarrow> True
   | IsGreaterThanVariable _ \<Rightarrow> True
   | IsGreaterThanOrEqualVariable _ \<Rightarrow> True
   | StringLengthGreaterThanOrEqual _ \<Rightarrow> True
   | _ \<Rightarrow> False))"

lemma plain_negation:
  "invertible a \<Longrightarrow> plain (get_negation a) = (\<not> plain a)"
  by (cases a) (auto simp: plain_def is_negation_def get_negation_def invertible_def split: if_splits)

lemma consistent_plain: "consistent (\<lambda>_. plain)"
proof -
  have "plain Any" by (simp add: plain_def is_negation_def)
  then show ?thesis unfolding consistent_def using plain_negation by blast
qed

lemma consistent_negation:
  assumes "consistent val" "\<not> val v a"
  shows "val v (get_negation a)"
  using assms by (cases "invertible a") (auto simp: consistent_def invertible_def)

lemma consistent_opposite:
  "consistent val \<Longrightarrow> is_negation_of a b \<Longrightarrow> val v b = (\<not> val v a)"
  by (auto simp: consistent_def is_negation_of_iff)

lemma consistent_negation_iff:
  "consistent val \<Longrightarrow> invertible a \<Longrightarrow> val v (get_negation a) = (\<not> val v a)"
  by (simp add: consistent_def)

lemma consistent_countable:
  fixes val :: "('a, 'u, 'k) valuation"
  assumes "consistent val"
  shows "val v (NotCountable m) = (\<not> val v Countable)"
proof -
  have "invertible (NotCountable m :: ('a, 'u, 'k) assertion)"
    by (simp add: invertible_def get_negation_def)
  then have "val v (get_negation (NotCountable m)) = (\<not> val v (NotCountable m))"
    using assms unfolding consistent_def by blast
  then show ?thesis by (simp add: get_negation_def)
qed

lemma same_fact_value: "same_fact a b \<Longrightarrow> consistent val \<Longrightarrow> val v a = val v b"
  by (auto simp: same_fact_iff consistent_countable)

lemma same_fact_negation: "same_fact a b \<Longrightarrow> get_negation a = get_negation b"
  by (auto simp: same_fact_iff get_negation_def)

lemma double_negation: "invertible a \<Longrightarrow> same_fact (get_negation (get_negation a)) a"
  by (cases a) (auto simp: same_fact_iff get_negation_def invertible_def split: if_splits)

lemma triple_negation: "get_negation (get_negation (get_negation a)) = get_negation a"
  by (cases a) (simp_all add: get_negation_def)

lemma universe_mono: "A \<subseteq> B \<Longrightarrow> universe A \<subseteq> universe B"
  by (auto simp: universe_def)

lemma universe_negation: "universe (get_negation ` A) \<subseteq> universe A"
  by (auto simp: universe_def triple_negation)

lemma universe_negated: "A \<subseteq> universe A" "a \<in> A \<Longrightarrow> get_negation a \<in> universe A"
  by (auto simp: universe_def)

lemma faithful_mono: "faithful S B \<Longrightarrow> universe A \<subseteq> universe B \<Longrightarrow> faithful S A"
  unfolding faithful_def by blast

lemma faithfulD:
  "faithful S A \<Longrightarrow> a \<in> A \<Longrightarrow> b \<in> A \<Longrightarrow> literal_hash S a = literal_hash S b \<Longrightarrow> same_fact a b"
  "faithful S A \<Longrightarrow> a \<in> A \<Longrightarrow> b \<in> A \<Longrightarrow> literal_hash S (get_negation a) = literal_hash S b \<Longrightarrow>
     same_fact (get_negation a) b"
  unfolding faithful_def universe_def by blast+

lemma lookup_at_in: "lookup_at i k m = Some x \<Longrightarrow> (k, x) \<in> set m"
  by (auto simp: lookup_at_def map_of_SomeD split: if_splits intro: nth_mem)

lemma clause_new_sel [simp]:
  "possibilities (clause_new S ps cspan sp w r g) = ps"
  "wedge (clause_new S ps cspan sp w r g) = unwrap_or w False"
  "reconcilable (clause_new S ps cspan sp w r g) = unwrap_or r True"
  by (simp_all add: clause_new_def)

lemma rebuild_sel [simp]: "possibilities (rebuild S c ps) = ps"
  by (simp add: rebuild_def)

lemma possibilities_holdI:
  "(v, as) \<in> set ps \<Longrightarrow> (h, a) \<in> set as \<Longrightarrow> val v a \<Longrightarrow> possibilities_hold val ps"
  by (auto simp: possibilities_hold_def alternatives_hold_def)

lemma possibilities_holdE:
  assumes "possibilities_hold val ps"
  obtains v as h a where "(v, as) \<in> set ps" "(h, a) \<in> set as" "val v a"
  using assms by (auto simp: possibilities_hold_def alternatives_hold_def)

lemma assertions_ofI: "(v, as) \<in> set (possibilities c) \<Longrightarrow> (h, a) \<in> set as \<Longrightarrow> a \<in> assertions_of c"
  by (force simp: assertions_of_def)

lemma possibilities_okD:
  assumes "possibilities_ok S ps"
  shows "distinct (map fst ps)" "(v, as) \<in> set ps \<Longrightarrow> distinct (map fst as)"
    "(v, as) \<in> set ps \<Longrightarrow> (h, a) \<in> set as \<Longrightarrow> h = literal_hash S a"
  using assms by (auto simp: possibilities_ok_def)

lemma possibilities_okI:
  "distinct (map fst ps) \<Longrightarrow> (\<And>v as. (v, as) \<in> set ps \<Longrightarrow> distinct (map fst as)) \<Longrightarrow>
   (\<And>v as h a. (v, as) \<in> set ps \<Longrightarrow> (h, a) \<in> set as \<Longrightarrow> h = literal_hash S a) \<Longrightarrow> possibilities_ok S ps"
  by (auto simp: possibilities_ok_def)

lemma literals_iff: "a \<in> literals cs \<longleftrightarrow> (\<exists>c \<in> set cs. \<exists>v as h. (v, as) \<in> set (possibilities c) \<and> (h, a) \<in> set as)"
  by (force simp: literals_def assertions_of_def)

lemma literalsI: "c \<in> set cs \<Longrightarrow> (v, as) \<in> set (possibilities c) \<Longrightarrow> (h, a) \<in> set as \<Longrightarrow> a \<in> literals cs"
  by (auto simp: literals_iff)

lemma models_cong: "set cs = set ds \<Longrightarrow> models val cs = models val ds"
  by (simp add: models_def)

lemma models_append [simp]: "models val (cs @ ds) \<longleftrightarrow> models val cs \<and> models val ds"
  by (auto simp: models_def)

lemma models_subset: "models val ds \<Longrightarrow> set cs \<subseteq> set ds \<Longrightarrow> models val cs"
  by (auto simp: models_def)

text \<open>The two ways a new clause is made from an old one, and the subset test.\<close>

lemma lookup_at_distinct: "distinct (map fst m) \<Longrightarrow> lookup_at i k m = map_of m k"
  by (auto simp: lookup_at_def split: if_splits)

lemma set_update: "distinct (map fst m) \<Longrightarrow>
    set (AList.update k x m) = insert (k, x) {p \<in> set m. fst p \<noteq> k}"
  by (induction m) (auto simp: rev_image_eqI)

lemma removed_variable:
  assumes "remove_possibilities S c v = Some d"
  shows "possibilities d = filter (\<lambda>p. fst p \<noteq> v) (possibilities c)" "binding d = binding c"
  using assms by (auto simp: remove_possibilities_def Let_def rebuild_def binding_def unwrap_or_def
      case_prod_beta' split: if_splits)

lemma removed_variable_None:
  "remove_possibilities S c v = None \<Longrightarrow> p \<in> set (possibilities c) \<Longrightarrow> fst p = v"
  by (auto simp: remove_possibilities_def Let_def filter_empty_conv split: if_splits)

lemma replaced_variable:
  "possibilities (add_possibility S c v as) = AList.update v as (possibilities c)"
  "binding (add_possibility S c v as) = binding c"
  by (simp_all add: add_possibility_def rebuild_def binding_def unwrap_or_def)

lemma enumerate_member: "x \<in> set xs \<Longrightarrow> \<exists>i. (i, x) \<in> set (enumerate n xs)"
  by (induction xs arbitrary: n) auto

lemma contains_implies:
  assumes "clause_contains c d" "clause_holds val d" "consistent val" "faithful S A"
    and "possibilities_ok S (possibilities c)" "possibilities_ok S (possibilities d)"
    and "assertions_of c \<subseteq> A" "assertions_of d \<subseteq> A"
  shows "clause_holds val c"
proof -
  obtain v as h a where d: "(v, as) \<in> set (possibilities d)" "(h, a) \<in> set as" "val v a"
    using assms(2) by (rule possibilities_holdE)
  obtain i where i: "(i, v, as) \<in> set (enumerate 0 (possibilities d))"
    using enumerate_member[OF d(1)] by blast
  obtain j where j: "(j, h) \<in> set (enumerate 0 (map fst as))"
    using enumerate_member[of h "map fst as"] d(2) by force
  have all: "\<forall>x \<in> set (enumerate 0 (possibilities d)). case x of (i, var, types) \<Rightarrow>
      (case lookup_at i var (possibilities c) of None \<Rightarrow> False
       | Some bs \<Rightarrow> list_all (\<lambda>(j, key). lookup_at j key bs \<noteq> None) (enumerate 0 (map fst types)))"
    using assms(1) by (simp only: clause_contains_def list_all_iff split: if_splits)
  then obtain bs where bs: "lookup_at i v (possibilities c) = Some bs"
      "\<forall>(j, key) \<in> set (enumerate 0 (map fst as)). lookup_at j key bs \<noteq> None"
    using bspec[OF all i] by (cases "lookup_at i v (possibilities c)") (simp_all add: list_all_iff)
  then have "lookup_at j h bs \<noteq> None" using j by blast
  then have "\<exists>bs. lookup_at i v (possibilities c) = Some bs \<and> lookup_at j h bs \<noteq> None"
    using bs(1) by blast
  then obtain bs b where bs: "(v, bs) \<in> set (possibilities c)" "(h, b) \<in> set bs"
    by (auto dest!: lookup_at_in)
  have "h = literal_hash S a" "h = literal_hash S b"
    using assms(5,6) d bs by (auto dest: possibilities_okD(3))
  moreover have "a \<in> A" "b \<in> A"
    using assms(7,8) d bs by (auto dest: assertions_ofI)
  ultimately have "val v b"
    using faithfulD(1)[OF assms(4)] same_fact_value assms(3) d(3) by metis
  then show ?thesis using bs by (rule possibilities_holdI[rotated 2])
qed

end
