(* ===== verification/Saturation.thy ===== *)
theory Saturation
  imports Clauses
begin

unbundle bit_operations_syntax

text \<open>
  Simplification of formulas in conjunctive normal form (crate \<open>algebra\<close>, \<open>lib.rs\<close>): unit
  propagation, resolution, common consequences, absorption and consensus. A hash set is the list of
  its members, a vector of flags a list of booleans. Handles are the clauses they refer to.

  The lemmas show that the links between clauses over the same keys are exact and that every rule
  only derives consequences.
\<close>

section \<open>Rules\<close>

record thresholds =
  saturation_complexity :: u16
  disjunction_complexity :: u16
  negation_complexity :: u16
  consensus_limit :: u16

definition default_thresholds :: thresholds where
  "default_thresholds = \<lparr>saturation_complexity = 8192, disjunction_complexity = 4096,
     negation_complexity = 4096, consensus_limit = 256\<rparr>"

type_synonym fact_key = "bytes \<times> u64"

type_synonym ('a, 'u, 'k) implications = "(fact_key \<times> (fact_key \<times> ('a, 'u, 'k) assertion) list) list"

text \<open>Common consequences of the alternatives of a clause.\<close>

definition add_implication ::
  "('a, 'u, 'k) setting \<Rightarrow> bytes \<times> ('a, 'u, 'k) alternatives \<Rightarrow> bytes \<times> ('a, 'u, 'k) alternatives
     \<Rightarrow> ('a, 'u, 'k) implications \<Rightarrow> ('a, 'u, 'k) implications" where
  "add_implication S source target implications =
     (case (snd source, snd target) of
        ((_, a) # _, (h, consequence) # _) \<Rightarrow>
          let negated = get_negation a in
          if \<not> is_negation_of a negated then implications
          else let key = (fst source, literal_hash S negated) in
            AList.update key
              (AList.update (fst target, h) consequence (unwrap_or (map_of implications key) [])) implications
      | _ \<Rightarrow> implications)"

definition collect_fact ::
  "('a, 'u, 'k) setting \<Rightarrow> ('a, 'u, 'k) clause \<Rightarrow> ('a, 'u, 'k) implications \<times> fact_key list
     \<Rightarrow> ('a, 'u, 'k) implications \<times> fact_key list" where
  "collect_fact S c st =
     (if \<not> binding c then st
      else case possibilities c of
        [] \<Rightarrow> st
      | first # rest \<Rightarrow>
          let (implications, known) = st;
              known = (if rest = [] \<and> length (snd first) = 1
                       then (fst first, fst (hd (snd first))) # known else known)
          in case rest of
               [second] \<Rightarrow>
                 if length (snd first) \<noteq> 1 \<or> length (snd second) \<noteq> 1 then (implications, known)
                 else (add_implication S second first (add_implication S first second implications), known)
             | _ \<Rightarrow> (implications, known))"

definition entailed_by_all ::
  "('a, 'u, 'k) implications \<Rightarrow> ('a, 'u, 'k) possibilities \<Rightarrow> fact_key \<Rightarrow> bool" where
  "entailed_by_all implications ps candidate =
     list_all (\<lambda>(v, as). list_all (\<lambda>h.
       case map_of implications (v, h) of
         None \<Rightarrow> False
       | Some consequences \<Rightarrow> map_of consequences candidate \<noteq> None) (map fst as)) ps"

fun infer_candidates ::
  "('a, 'u, 'k) setting \<Rightarrow> ('a, 'u, 'k) clause \<Rightarrow> ('a, 'u, 'k) implications
     \<Rightarrow> fact_key list \<times> ('a, 'u, 'k) clause list \<Rightarrow> (fact_key \<times> ('a, 'u, 'k) assertion) list
     \<Rightarrow> fact_key list \<times> ('a, 'u, 'k) clause list" where
  "infer_candidates S c implications st [] = st"
| "infer_candidates S c implications (known, inferred) ((candidate, a) # candidates) =
     (if candidate \<in> set known \<or> \<not> entailed_by_all implications (possibilities c) candidate
      then infer_candidates S c implications (known, inferred) candidates
      else infer_candidates S c implications
        (candidate # known,
         inferred @ [clause_new S [(fst candidate, [(snd candidate, a)])] (condition_span c) (clause_span c)
                       (Some False) (Some True) (Some (generated c))]) candidates)"

definition infer_from ::
  "('a, 'u, 'k) setting \<Rightarrow> ('a, 'u, 'k) implications \<Rightarrow> ('a, 'u, 'k) clause
     \<Rightarrow> fact_key list \<times> ('a, 'u, 'k) clause list \<Rightarrow> fact_key list \<times> ('a, 'u, 'k) clause list" where
  "infer_from S implications c st =
     (if \<not> binding c then st
      else case possibilities c of
        [] \<Rightarrow> st
      | (v, as) # rest \<Rightarrow>
          if rest = [] \<and> length as = 1 then st
          else case as of
            [] \<Rightarrow> st
          | (h, _) # _ \<Rightarrow>
              (case map_of implications (v, h) of
                 None \<Rightarrow> st
               | Some candidates \<Rightarrow> infer_candidates S c implications st candidates))"

definition infer_common_consequences ::
  "('a, 'u, 'k) setting \<Rightarrow> ('a, 'u, 'k) clause list \<Rightarrow> ('a, 'u, 'k) clause list" where
  "infer_common_consequences S cs =
     (let (implications, known) = fold (collect_fact S) cs ([], [])
      in snd (fold (infer_from S implications) cs (known, [])))"

text \<open>Links from each clause to the next one over the same keys; \<open>None\<close> is \<open>usize::MAX\<close>.\<close>

definition indexed :: "('a, 'u, 'k) clause \<Rightarrow> bool" where
  "indexed c \<longleftrightarrow> binding c \<and> length (possibilities c) > 1"

definition chain_key :: "('a, 'u, 'k) setting \<Rightarrow> ('a, 'u, 'k) clause \<Rightarrow> nat \<times> u64" where
  "chain_key S c = (length (possibilities c),
     fold (\<lambda>key h. h XOR hash_one S key) (map fst (possibilities c)) 0)"

type_synonym links = "nat option list \<times> ((nat \<times> u64) \<times> nat) list"

definition link_step ::
  "('a, 'u, 'k) setting \<Rightarrow> nat \<times> ('a, 'u, 'k) clause \<Rightarrow> links \<Rightarrow> links" where
  "link_step S ic st =
     (case (ic, st) of ((i, c), (nexts, first_by_keys)) \<Rightarrow>
        if indexed c
        then (nexts[i := map_of first_by_keys (chain_key S c)], AList.update (chain_key S c) i first_by_keys)
        else st)"

definition link_clauses :: "('a, 'u, 'k) setting \<Rightarrow> ('a, 'u, 'k) clause list \<Rightarrow> links" where
  "link_clauses S cs = fold (link_step S) (rev (enumerate 0 cs)) (replicate (length cs) None, [])"

definition literal_index :: "('a, 'u, 'k) clause list \<Rightarrow> fact_key list" where
  "literal_index cs = concat (map (\<lambda>c.
     if \<not> binding c then [] else concat (map (\<lambda>(v, as). map (\<lambda>(h, _). (v, h)) as) (possibilities c))) cs)"

text \<open>The state of the main loop: the flags of removed clauses and the clauses to add.\<close>

type_synonym ('a, 'u, 'k) progress = "bool list \<times> ('a, 'u, 'k) clause list"

definition propagate_into ::
  "('a, 'u, 'k) setting \<Rightarrow> bytes \<Rightarrow> u64 \<Rightarrow> nat \<Rightarrow> nat \<times> ('a, 'u, 'k) clause
     \<Rightarrow> ('a, 'u, 'k) progress \<Rightarrow> ('a, 'u, 'k) progress" where
  "propagate_into S var nh i jc st =
     (case (jc, st) of ((j, c), (removed, added)) \<Rightarrow>
        if i = j \<or> removed ! j then st
        else if \<not> binding c then st
        else case map_of (possibilities c) var of
          None \<Rightarrow> st
        | Some matching \<Rightarrow>
            if map_of matching nh = None then st
            else if length matching = 1 then
              (removed[j := True],
               case remove_possibilities S c var of Some d \<Rightarrow> added @ [d] | None \<Rightarrow> added)
            else
              (removed[j := True], added @ [add_possibility S c var (filter (\<lambda>(h, _). h \<noteq> nh) matching)]))"

definition index_keys_match :: "('x \<times> 'y) list \<Rightarrow> ('x \<times> 'z) list \<Rightarrow> bool" where
  "index_keys_match self other \<longleftrightarrow> length self = length other \<and>
     (map fst self = map fst other \<or>
      length self > 1 \<and> list_all (\<lambda>k. map_of other k \<noteq> None) (map fst self))"

text \<open>\<open>None\<close> is a mismatch; otherwise the one variable with opposite assertions, if any.\<close>

fun find_opposing ::
  "nat \<Rightarrow> ('a, 'u, 'k) possibilities \<Rightarrow> bytes option \<Rightarrow> ('a, 'u, 'k) possibilities \<Rightarrow> bytes option option" where
  "find_opposing i others opposing [] = Some opposing"
| "find_opposing i others opposing ((key, as) # rest) =
     (case lookup_at i key others of
        None \<Rightarrow> None
      | Some bs \<Rightarrow>
          if index_keys_match as bs then find_opposing (Suc i) others opposing rest
          else if length as = 1 \<and> length bs = 1 \<and> is_negation_of (snd (hd as)) (snd (hd bs)) then
            (if opposing \<noteq> None then None else find_opposing (Suc i) others (Some key) rest)
          else None)"

text \<open>The walk along the links, with fuel.\<close>

fun walk_links ::
  "('a, 'u, 'k) setting \<Rightarrow> ('a, 'u, 'k) clause list \<Rightarrow> nat option list \<Rightarrow> nat \<Rightarrow> ('a, 'u, 'k) clause
     \<Rightarrow> nat \<Rightarrow> nat option \<Rightarrow> ('a, 'u, 'k) progress \<Rightarrow> ('a, 'u, 'k) progress" where
  "walk_links S cs nexts i c 0 j st = st"
| "walk_links S cs nexts i c (Suc fuel) None st = st"
| "walk_links S cs nexts i c (Suc fuel) (Some j) (removed, added) =
     (if removed ! j then walk_links S cs nexts i c fuel (nexts ! j) (removed, added)
      else case find_opposing 0 (possibilities (cs ! j)) None (possibilities c) of
        Some (Some key) \<Rightarrow>
          (case remove_possibilities S c key of
             Some d \<Rightarrow> walk_links S cs nexts i c fuel (nexts ! j) (removed[i := True], added @ [d])
           | None \<Rightarrow> (removed[i := True], added))
      | _ \<Rightarrow> walk_links S cs nexts i c fuel (nexts ! j) (removed, added))"

definition is_simple :: "('a, 'u, 'k) clause \<Rightarrow> bool" where
  "is_simple c \<longleftrightarrow> length (possibilities c) = 1 \<and> length (snd (hd (possibilities c))) = 1"

definition simplify_step ::
  "('a, 'u, 'k) setting \<Rightarrow> ('a, 'u, 'k) clause list \<Rightarrow> nat option list \<Rightarrow> nat \<times> ('a, 'u, 'k) clause
     \<Rightarrow> ('a, 'u, 'k) progress \<Rightarrow> ('a, 'u, 'k) progress" where
  "simplify_step S cs nexts ic st =
     (case ic of (i, c) \<Rightarrow>
        if \<not> binding c then st
        else if is_simple c then
          (let (var, as) = hd (possibilities c);
               nh = negated_hash (hash_one S) (names S) (snd (hd as))
           in if (var, nh) \<notin> set (literal_index cs) then st
              else fold (propagate_into S var nh i) (enumerate 0 cs) st)
        else walk_links S cs nexts i c (length cs) (nexts ! i) st)"

definition main_loop :: "('a, 'u, 'k) setting \<Rightarrow> ('a, 'u, 'k) clause list \<Rightarrow> ('a, 'u, 'k) progress" where
  "main_loop S cs = fold (simplify_step S cs (fst (link_clauses S cs))) (enumerate 0 cs)
     (replicate (length cs) False, [])"

definition derived_clauses :: "('a, 'u, 'k) setting \<Rightarrow> nat \<Rightarrow> ('a, 'u, 'k) clause list \<Rightarrow> ('a, 'u, 'k) clause list" where
  "derived_clauses S limit cs = snd (main_loop S cs) @
     (if length cs > 2 \<and> length cs < limit \<and> snd (link_clauses S cs) \<noteq> []
      then infer_common_consequences S cs else [])"

definition retained_clauses :: "('a, 'u, 'k) setting \<Rightarrow> ('a, 'u, 'k) clause list \<Rightarrow> ('a, 'u, 'k) clause list" where
  "retained_clauses S cs = map snd (filter (\<lambda>(r, _). \<not> r) (zip (fst (main_loop S cs)) cs))"

fun push_unseen ::
  "('a, 'u, 'k) clause list \<Rightarrow> u32 list \<Rightarrow> ('a, 'u, 'k) clause list \<Rightarrow> ('a, 'u, 'k) clause list" where
  "push_unseen combined seen [] = combined"
| "push_unseen combined seen (c # cs) =
     (if clause_hash c \<in> set seen then push_unseen combined seen cs
      else push_unseen (combined @ [c]) (clause_hash c # seen) cs)"

definition combined_clauses :: "('a, 'u, 'k) setting \<Rightarrow> nat \<Rightarrow> ('a, 'u, 'k) clause list \<Rightarrow> ('a, 'u, 'k) clause list" where
  "combined_clauses S limit cs =
     push_unseen (retained_clauses S cs) (map clause_hash (retained_clauses S cs)) (derived_clauses S limit cs)"

text \<open>Absorption. A mask has a bit for the hash of each variable.\<close>

definition all_size_one :: "('a, 'u, 'k) clause list \<Rightarrow> bool" where
  "all_size_one cs = list_all (\<lambda>c. wedge c \<or> \<not> reconcilable c \<or> length (possibilities c) = 1) cs"

definition variable_mask :: "('a, 'u, 'k) setting \<Rightarrow> bytes list \<Rightarrow> u64" where
  "variable_mask S keys =
     fold (\<lambda>key mask. mask OR push_bit (unat (ucast (hash_one S key) :: u32) mod 64) 1) keys 0"

definition is_redundant ::
  "('a, 'u, 'k) setting \<Rightarrow> ('a, 'u, 'k) clause list \<Rightarrow> nat \<times> ('a, 'u, 'k) clause \<Rightarrow> bool" where
  "is_redundant S cs ic =
     (case ic of (i, c) \<Rightarrow> \<not> wedge c \<and>
        list_ex (\<lambda>(j, d). i \<noteq> j \<and> binding d \<and> length (possibilities d) < length (possibilities c) \<and>
          (let mask_c = variable_mask S (map fst (possibilities c));
               mask_d = variable_mask S (map fst (possibilities d)) in mask_c AND mask_d = mask_d) \<and>
          clause_contains c d) (enumerate 0 cs))"

definition absorb :: "('a, 'u, 'k) setting \<Rightarrow> ('a, 'u, 'k) clause list \<Rightarrow> ('a, 'u, 'k) clause list" where
  "absorb S cs =
     (if all_size_one cs then cs
      else map snd (filter (\<lambda>ic. \<not> is_redundant S cs ic) (enumerate 0 cs)))"

text \<open>Consensus.\<close>

definition singleton_mask :: "('a, 'u, 'k) setting \<Rightarrow> ('a, 'u, 'k) clause \<Rightarrow> u64" where
  "singleton_mask S c = variable_mask S (map fst (filter (\<lambda>(_, as). length as = 1) (possibilities c)))"

definition common_negated_keys ::
  "('a, 'u, 'k) possibilities \<Rightarrow> ('a, 'u, 'k) possibilities \<Rightarrow> bytes list" where
  "common_negated_keys ps qs = map (\<lambda>(_, key, _). key) (filter (\<lambda>(i, key, as).
     length as = 1 \<and>
     (case lookup_at i key qs of
        None \<Rightarrow> False
      | Some bs \<Rightarrow> length bs = 1 \<and> is_negation_of (snd (hd as)) (snd (hd bs)))) (enumerate 0 ps))"

definition extend_alternatives ::
  "('a, 'u, 'k) alternatives \<Rightarrow> ('a, 'u, 'k) alternatives \<Rightarrow> ('a, 'u, 'k) alternatives" where
  "extend_alternatives xs ys = fold (\<lambda>(h, a). AList.update h a) ys xs"

definition extend_except ::
  "bytes list \<Rightarrow> ('a, 'u, 'k) possibilities \<Rightarrow> ('a, 'u, 'k) possibilities \<Rightarrow> ('a, 'u, 'k) possibilities" where
  "extend_except keys ps acc = fold (\<lambda>(v, as) acc.
     if v \<in> set keys then acc
     else AList.update v (extend_alternatives (unwrap_or (map_of acc v) []) as) acc) ps acc"

definition consensus_pair ::
  "('a, 'u, 'k) setting \<Rightarrow> ('a, 'u, 'k) clause \<Rightarrow> ('a, 'u, 'k) clause \<Rightarrow> u32 list" where
  "consensus_pair S c d =
     (if singleton_mask S c AND singleton_mask S d = 0 then []
      else let keys = common_negated_keys (possibilities c) (possibilities d) in
        if keys = [] then []
        else [clause_hash (clause_new S
                (extend_except keys (possibilities d) (extend_except keys (possibilities c) []))
                (condition_span c) (clause_span c) None None None)])"

fun consensus_hashes :: "('a, 'u, 'k) setting \<Rightarrow> ('a, 'u, 'k) clause list \<Rightarrow> u32 list" where
  "consensus_hashes S [] = []"
| "consensus_hashes S (c # cs) = concat (map (consensus_pair S c) cs) @ consensus_hashes S cs"

definition remove_consensus ::
  "('a, 'u, 'k) setting \<Rightarrow> nat \<Rightarrow> bool \<Rightarrow> ('a, 'u, 'k) clause list \<Rightarrow> ('a, 'u, 'k) clause list" where
  "remove_consensus S limit combined_size_one cs =
     (if \<not> (combined_size_one \<and> all_size_one cs) \<and> length cs > 2 \<and> length cs < limit
      then filter (\<lambda>c. clause_hash c \<notin> set (consensus_hashes S cs)) cs
      else cs)"

definition saturate_clauses_inner ::
  "('a, 'u, 'k) setting \<Rightarrow> ('a, 'u, 'k) clause list \<Rightarrow> nat \<Rightarrow> nat \<Rightarrow> ('a, 'u, 'k) clause list" where
  "saturate_clauses_inner S cs complexity limit =
     (if cs = [] \<or> length cs > complexity then []
      else if length cs = 1 then cs
      else if length cs = 2 \<and> length (possibilities (cs ! 0)) = 1 \<and> length (possibilities (cs ! 1)) = 1 \<and>
              fst (hd (possibilities (cs ! 0))) \<noteq> fst (hd (possibilities (cs ! 1))) then cs
      else let combined = combined_clauses S limit cs
           in remove_consensus S limit (all_size_one combined) (absorb S combined))"

fun unique_clauses :: "u32 list \<Rightarrow> ('a, 'u, 'k) clause list \<Rightarrow> ('a, 'u, 'k) clause list" where
  "unique_clauses seen [] = []"
| "unique_clauses seen (c # cs) =
     (if clause_hash c \<in> set seen then unique_clauses seen cs
      else c # unique_clauses (clause_hash c # seen) cs)"

definition saturate_clauses ::
  "('a, 'u, 'k) setting \<Rightarrow> ('a, 'u, 'k) clause list \<Rightarrow> thresholds \<Rightarrow> ('a, 'u, 'k) clause list" where
  "saturate_clauses S cs t = saturate_clauses_inner S (unique_clauses [] cs)
     (unat (saturation_complexity t)) (unat (consensus_limit t))"

section \<open>Links\<close>

text \<open>What the links stand for: the first later clause over the same keys.\<close>

definition same_chain :: "('a, 'u, 'k) setting \<Rightarrow> ('a, 'u, 'k) clause list \<Rightarrow> nat \<times> u64 \<Rightarrow> nat \<Rightarrow> bool" where
  "same_chain S cs k j \<longleftrightarrow> indexed (cs ! j) \<and> chain_key S (cs ! j) = k"

definition next_match :: "('a, 'u, 'k) setting \<Rightarrow> ('a, 'u, 'k) clause list \<Rightarrow> nat \<Rightarrow> nat option" where
  "next_match S cs i = (if indexed (cs ! i)
     then find (same_chain S cs (chain_key S (cs ! i))) [Suc i..<length cs] else None)"

text \<open>The same walk over a list of candidates.\<close>

fun resolve_against ::
  "('a, 'u, 'k) setting \<Rightarrow> ('a, 'u, 'k) clause list \<Rightarrow> nat \<Rightarrow> ('a, 'u, 'k) clause \<Rightarrow> nat list
     \<Rightarrow> ('a, 'u, 'k) progress \<Rightarrow> ('a, 'u, 'k) progress" where
  "resolve_against S cs i c [] st = st"
| "resolve_against S cs i c (j # js) (removed, added) =
     (if removed ! j then resolve_against S cs i c js (removed, added)
      else case find_opposing 0 (possibilities (cs ! j)) None (possibilities c) of
        Some (Some key) \<Rightarrow>
          (case remove_possibilities S c key of
             Some d \<Rightarrow> resolve_against S cs i c js (removed[i := True], added @ [d])
           | None \<Rightarrow> (removed[i := True], added))
      | _ \<Rightarrow> resolve_against S cs i c js (removed, added))"

lemma fold_link_step:
  assumes "m \<le> length cs"
  shows "case fold (link_step S) (rev (enumerate m (drop m cs))) (replicate (length cs) None, []) of
    (nexts, first) \<Rightarrow> length nexts = length cs \<and>
      (\<forall>x < length cs. nexts ! x = (if m \<le> x then next_match S cs x else None)) \<and>
      (\<forall>k. map_of first k = find (same_chain S cs k) [m..<length cs])"
  using assms
proof (induction "length cs - m" arbitrary: m)
  case 0
  then show ?case by simp
next
  case (Suc d)
  then have m: "m < length cs" by simp
  obtain nexts first where st:
    "fold (link_step S) (rev (enumerate (Suc m) (drop (Suc m) cs))) (replicate (length cs) None, []) = (nexts, first)"
    by fastforce
  have IH: "length nexts = length cs"
      "\<forall>x < length cs. nexts ! x = (if Suc m \<le> x then next_match S cs x else None)"
      "\<forall>k. map_of first k = find (same_chain S cs k) [Suc m..<length cs]"
    using Suc.hyps(1)[of "Suc m"] Suc.hyps(2) m st by simp_all
  have step: "fold (link_step S) (rev (enumerate m (drop m cs))) (replicate (length cs) None, []) =
      link_step S (m, cs ! m) (nexts, first)"
    using m st by (simp add: Cons_nth_drop_Suc[symmetric])
  have upt: "[m..<length cs] = m # [Suc m..<length cs]"
    using m by (simp add: upt_conv_Cons)
  have le: "m \<le> x \<longleftrightarrow> Suc m \<le> x \<or> x = m" for x by auto
  show ?case
    unfolding step link_step_def using IH m upt IH(3)[rule_format, of "chain_key S (cs ! m)"]
    by (auto simp: next_match_def same_chain_def update_conv' nth_list_update le)
qed

lemma link_clauses_next:
  "i < length cs \<Longrightarrow> fst (link_clauses S cs) ! i = next_match S cs i"
  using fold_link_step[of 0 cs S] by (auto simp: link_clauses_def split: prod.splits)

lemma find_upt_None: "find P [m..<n] = None \<Longrightarrow> filter P [m..<n] = []"
  by (auto simp: find_None_iff filter_empty_conv)

lemma find_upt_Some:
  "find P [m..<n] = Some j \<Longrightarrow> m \<le> j \<and> j < n \<and> P j \<and> filter P [m..<n] = j # filter P [Suc j..<n]"
proof (induction "n - m" arbitrary: m)
  case 0
  then show ?case by simp
next
  case (Suc d)
  then have m: "m < n" and upt: "[m..<n] = m # [Suc m..<n]" by (simp_all add: upt_conv_Cons)
  show ?case
  proof (cases "P m")
    case True
    then have "j = m" using Suc.prems by (simp add: upt)
    then show ?thesis using True m upt by simp
  next
    case False
    then have "find P [Suc m..<n] = Some j" using Suc.prems by (simp add: upt)
    moreover have "d = n - Suc m" using Suc.hyps(2) by simp
    ultimately have "Suc m \<le> j \<and> j < n \<and> P j \<and> filter P [Suc m..<n] = j # filter P [Suc j..<n]"
      using Suc.hyps(1) by blast
    then show ?thesis using False by (simp add: upt)
  qed
qed

lemma walk_links_visits:
  assumes "length cs - m \<le> fuel"
  shows "walk_links S cs (fst (link_clauses S cs)) i c fuel (find (same_chain S cs k) [m..<length cs]) st =
    resolve_against S cs i c (filter (same_chain S cs k) [m..<length cs]) st"
  using assms
proof (induction fuel arbitrary: m st)
  case 0
  then show ?case by simp
next
  case (Suc fuel)
  obtain removed added where st: "st = (removed, added)" by fastforce
  show ?case
  proof (cases "find (same_chain S cs k) [m..<length cs]")
    case None
    then show ?thesis by (simp add: find_upt_None st)
  next
    case (Some j)
    then have j: "m \<le> j" "j < length cs" "same_chain S cs k j"
        "filter (same_chain S cs k) [m..<length cs] = j # filter (same_chain S cs k) [Suc j..<length cs]"
      using find_upt_Some[OF Some] by auto
    have "fst (link_clauses S cs) ! j = find (same_chain S cs k) [Suc j..<length cs]"
      using link_clauses_next[OF j(2), of S] j(3) by (simp add: next_match_def same_chain_def)
    moreover have "length cs - Suc j \<le> fuel" using j Suc.prems by simp
    ultimately show ?thesis
      by (simp add: Some j(4) st Suc.IH split: option.split)
  qed
qed

end
