(* ===== verification/Saturation_Sound.thy ===== *)
theory Saturation_Sound
  imports Saturation
begin

text \<open>
  The meaning of saturation: every clause the rules derive holds wherever the formula holds, and a
  clause they remove follows from one they keep or add. Hence the result is a consequence of the
  formula, and before the consensus rule it is equivalent to a satisfiable formula. The last section
  shows where that ends: contradictory units are both dropped, mutual consensus loses a fact, and
  \<open>Any\<close> is taken for the negation of an assertion without one.
\<close>

section \<open>Well-formed formulas\<close>

definition well_formed :: "('a, 'u, 'k) setting \<Rightarrow> ('a, 'u, 'k) clause list \<Rightarrow> bool" where
  "well_formed S cs \<longleftrightarrow> (\<forall>c \<in> set cs. possibilities_ok S (possibilities c)) \<and>
     faithful S (literals cs) \<and> Any \<notin> literals cs"

text \<open>A clause with some of the literals of another is the stronger one.\<close>

definition stronger :: "('a, 'u, 'k) clause \<Rightarrow> ('a, 'u, 'k) clause \<Rightarrow> bool" where
  "stronger d c \<longleftrightarrow> (\<forall>val. clause_holds val d \<longrightarrow> clause_holds val c)"

definition derived_ok :: "('a, 'u, 'k) setting \<Rightarrow> ('a, 'u, 'k) clause list \<Rightarrow> ('a, 'u, 'k) valuation \<Rightarrow> ('a, 'u, 'k) clause \<Rightarrow> bool" where
  "derived_ok S cs val d \<longleftrightarrow> binding d \<and> clause_holds val d \<and> possibilities_ok S (possibilities d) \<and>
     assertions_of d \<subseteq> literals cs"

definition progress_inv ::
  "('a, 'u, 'k) setting \<Rightarrow> ('a, 'u, 'k) clause list \<Rightarrow> ('a, 'u, 'k) valuation \<Rightarrow> ('a, 'u, 'k) progress \<Rightarrow> bool" where
  "progress_inv S cs val st \<longleftrightarrow> length (fst st) = length cs \<and> (\<forall>d \<in> set (snd st). derived_ok S cs val d) \<and>
     (\<forall>i < length cs. fst st ! i \<longrightarrow> (\<exists>d \<in> set (snd st). stronger d (cs ! i)))"

lemma well_formedD:
  assumes "well_formed S cs"
  shows "c \<in> set cs \<Longrightarrow> possibilities_ok S (possibilities c)" "faithful S (literals cs)" "Any \<notin> literals cs"
  using assms by (auto simp: well_formed_def)

lemma assertions_of_literals: "c \<in> set cs \<Longrightarrow> assertions_of c \<subseteq> literals cs"
  by (auto simp: literals_def)

lemma possibilities_ok_filter: "possibilities_ok S ps \<Longrightarrow> possibilities_ok S (filter P ps)"
  unfolding possibilities_ok_def by (auto intro: distinct_map_filter)

lemma possibilities_ok_update:
  assumes "possibilities_ok S ps" "(v, m) \<in> set ps"
  shows "possibilities_ok S (AList.update v (filter P m) ps)"
proof -
  have "distinct (map fst ps)" "distinct (map fst m)" "\<forall>(h, a) \<in> set m. h = literal_hash S a"
    using assms by (auto simp: possibilities_ok_def)
  then show ?thesis
    using assms(1) unfolding possibilities_ok_def
    by (auto simp: set_update distinct_update intro: distinct_map_filter)
qed

lemma stronger_subset:
  assumes "\<And>v bs. (v, bs) \<in> set (possibilities d) \<Longrightarrow> \<exists>as. (v, as) \<in> set (possibilities c) \<and> set bs \<subseteq> set as"
  shows "stronger d c" "assertions_of d \<subseteq> assertions_of c"
  using assms unfolding stronger_def possibilities_hold_def alternatives_hold_def assertions_of_def
  by (fastforce, fastforce)

lemma progress_add:
  assumes "progress_inv S cs val (removed, added)" "derived_ok S cs val d" "stronger d (cs ! j)"
  shows "progress_inv S cs val (removed[j := True], added @ [d])"
proof -
  have "removed[j := True] ! i \<longleftrightarrow> removed ! i \<or> i = j" if "i < length removed" for i
    using that by (cases "i = j") simp_all
  then show ?thesis using assms unfolding progress_inv_def by auto
qed

section \<open>Unit propagation\<close>

lemma opposite_literal_false:
  assumes "well_formed S cs" "consistent val" "a \<in> literals cs" "x \<in> literals cs" "val v a"
    and "literal_hash S x = literal_hash S (get_negation a)"
  shows "\<not> val v x"
proof -
  have same: "same_fact (get_negation a) x"
    using faithfulD(2)[OF well_formedD(2)[OF assms(1)]] assms(3,4,6) by metis
  have "invertible a"
  proof (rule ccontr)
    assume "\<not> invertible a"
    then have "x = Any" using same by (auto simp: invertible_def same_fact_iff)
    then show False using well_formedD(3)[OF assms(1)] assms(4) by simp
  qed
  then have "\<not> val v (get_negation a)"
    using assms(2,5) consistent_negation_iff by blast
  then show ?thesis using same_fact_value[OF same assms(2)] by blast
qed

lemma distinct_value: "distinct (map fst ps) \<Longrightarrow> (k, x) \<in> set ps \<Longrightarrow> (k, y) \<in> set ps \<Longrightarrow> x = y"
  by (metis map_of_is_SomeI option.inject)

lemma propagate_into_inv:
  assumes wf: "well_formed S cs" and val: "consistent val" "models val cs"
    and unit: "a \<in> literals cs" "val v a" "nh = literal_hash S (get_negation a)"
    and j: "j < length cs" and inv: "progress_inv S cs val st"
  shows "progress_inv S cs val (propagate_into S v nh i (j, cs ! j) st)"
proof -
  obtain removed added where st: "st = (removed, added)" by fastforce
  let ?b = "cs ! j"
  show ?thesis
  proof (cases "i = j \<or> removed ! j \<or> \<not> binding ?b \<or> map_of (possibilities ?b) v = None \<or>
      map_of (the (map_of (possibilities ?b) v)) nh = None")
    case True
    then show ?thesis using inv by (auto simp: propagate_into_def st split: option.splits)
  next
    case False
    then obtain m x where m: "map_of (possibilities ?b) v = Some m" "map_of m nh = Some x" "binding ?b" by auto
    have b: "?b \<in> set cs" "possibilities_ok S (possibilities ?b)" using j wf by (simp_all add: well_formedD)
    have mem: "(v, m) \<in> set (possibilities ?b)" "(nh, x) \<in> set m" using m by (auto dest: map_of_SomeD)
    have keys: "distinct (map fst (possibilities ?b))" "distinct (map fst m)"
      using b(2) mem by (auto dest: possibilities_okD)
    have "\<not> val v x"
      using opposite_literal_false[OF wf val(1) unit(1) literalsI[OF b(1) mem] unit(2)]
        possibilities_okD(3)[OF b(2) mem] unit(3) by simp
    moreover have "clause_holds val ?b" using val(2) b(1) m(3) by (simp add: models_def)
    then obtain u as h y where y: "(u, as) \<in> set (possibilities ?b)" "(h, y) \<in> set as" "val u y"
      by (rule possibilities_holdE)
    ultimately have other: "u \<noteq> v \<or> as = m \<and> h \<noteq> nh"
      using distinct_value[OF keys(1) y(1)] distinct_value[OF keys(2) _ mem(2)] mem(1) y by metis
    show ?thesis
    proof (cases "length m = 1")
      case True
      then have "m = [(nh, x)]" using mem(2) by (auto simp: length_Suc_conv)
      then have u: "u \<noteq> v" using other y(2) by auto
      then obtain d where d: "remove_possibilities S ?b v = Some d"
        using removed_variable_None[of S ?b v "(u, as)"] y(1) by (cases "remove_possibilities S ?b v") auto
      have ps: "possibilities d = filter (\<lambda>p. fst p \<noteq> v) (possibilities ?b)" "binding d"
        using removed_variable[OF d] m(3) by simp_all
      have sub: "stronger d ?b" "assertions_of d \<subseteq> assertions_of ?b"
        using ps(1) by (auto intro!: stronger_subset)
      have "derived_ok S cs val d"
        unfolding derived_ok_def using ps possibilities_ok_filter[OF b(2)] sub(2) assertions_of_literals[OF b(1)] u y
        by (auto intro!: possibilities_holdI[of u as _ h y])
      then show ?thesis
        using progress_add[OF inv[unfolded st] _ sub(1)] False True m d by (simp add: propagate_into_def st)
    next
      case long: False
      define d where "d = add_possibility S ?b v (filter (\<lambda>(h, _). h \<noteq> nh) m)"
      have ps: "possibilities d = AList.update v (filter (\<lambda>(h, _). h \<noteq> nh) m) (possibilities ?b)" "binding d"
        using m(3) by (simp_all add: d_def replaced_variable)
      have "(u, if u = v then filter (\<lambda>(h, _). h \<noteq> nh) m else as) \<in> set (possibilities d)"
        using y(1) by (auto simp: ps(1) set_update[OF keys(1)])
      moreover have "(h, y) \<in> set (if u = v then filter (\<lambda>(h, _). h \<noteq> nh) m else as)"
        using y(2) other by auto
      ultimately have holds: "clause_holds val d" using y(3) by (rule possibilities_holdI)
      have sub: "stronger d ?b" "assertions_of d \<subseteq> assertions_of ?b"
        by (intro stronger_subset; use mem(1) in \<open>auto simp: ps(1) set_update[OF keys(1)]\<close>)+
      have "derived_ok S cs val d"
        unfolding derived_ok_def using ps holds possibilities_ok_update[OF b(2) mem(1)] sub(2) assertions_of_literals[OF b(1)]
        by auto
      then show ?thesis
        using progress_add[OF inv[unfolded st] _ sub(1)] False long m by (simp add: propagate_into_def st d_def)
    qed
  qed
qed

section \<open>Resolution\<close>

definition opposite_singles :: "('a, 'u, 'k) alternatives \<Rightarrow> ('a, 'u, 'k) alternatives \<Rightarrow> bool" where
  "opposite_singles as bs \<longleftrightarrow> (\<exists>h a k b. as = [(h, a)] \<and> bs = [(k, b)] \<and> is_negation_of a b)"

lemma find_opposing_matches:
  assumes "find_opposing i others opp ps = Some r" "distinct (map fst others)" "distinct (map fst ps)"
    and "\<forall>key. opp = Some key \<longrightarrow> key \<notin> fst ` set ps"
  shows "(opp \<noteq> None \<longrightarrow> r = opp) \<and>
    (\<forall>(key, as) \<in> set ps. \<exists>bs. map_of others key = Some bs \<and>
       (index_keys_match as bs \<or> opposite_singles as bs \<and> r = Some key)) \<and>
    (r \<noteq> opp \<longrightarrow> (\<exists>key as bs. r = Some key \<and> (key, as) \<in> set ps \<and> map_of others key = Some bs \<and>
       opposite_singles as bs))"
  using assms
proof (induction i others opp ps rule: find_opposing.induct)
  case (2 i others opp key as rest)
  obtain bs where bs: "map_of others key = Some bs"
    using "2.prems"(1,2) by (auto simp: lookup_at_distinct split: option.splits)
  have look: "lookup_at i key others = Some bs" using bs "2.prems"(2) by (simp add: lookup_at_distinct)
  show ?case
  proof (cases "index_keys_match as bs")
    case True
    then have "find_opposing (Suc i) others opp rest = Some r" using "2.prems"(1) look by simp
    then show ?thesis using "2.IH"(1)[OF look True] "2.prems" True bs by auto
  next
    case False
    then have opp: "length as = 1 \<and> length bs = 1 \<and> is_negation_of (snd (hd as)) (snd (hd bs))" "opp = None"
      and rest: "find_opposing (Suc i) others (Some key) rest = Some r"
      using "2.prems"(1) look by (auto split: if_splits)
    have "opposite_singles as bs"
      using opp(1) by (auto simp: opposite_singles_def length_Suc_conv)
    moreover have "key \<notin> fst ` set rest" using "2.prems"(3) by simp
    ultimately show ?thesis
      using "2.IH"(2)[OF look False opp(1) _ rest] "2.prems"(2,3) bs opp(2) by auto
  qed
qed simp

lemma index_keys_same:
  assumes "index_keys_match as bs" "distinct (map fst as)" "distinct (map fst bs)"
  shows "fst ` set as = fst ` set bs"
proof -
  have len: "length as = length bs" using assms(1) by (simp add: index_keys_match_def)
  have sub: "fst ` set as \<subseteq> fst ` set bs"
  proof (cases "map fst as = map fst bs")
    case True
    then show ?thesis by (metis set_map subset_refl)
  next
    case False
    then have "fst ` set as \<subseteq> dom (map_of bs)"
      using assms(1) by (auto simp: index_keys_match_def list_all_iff)
    then show ?thesis by (simp add: dom_map_of_conv_image_fst)
  qed
  have "card (fst ` set as) = length as" "card (fst ` set bs) = length bs"
    using assms(2,3) by (metis distinct_card length_map set_map)+
  then show ?thesis using card_subset_eq[OF _ sub] len by simp
qed

lemma resolution_holds:
  assumes val: "consistent val" and wf: "well_formed S cs"
    and c: "c \<in> set cs" "clause_holds val c" and b: "b \<in> set cs" "clause_holds val b"
    and len: "length (possibilities b) = length (possibilities c)"
    and opp: "find_opposing 0 (possibilities b) None (possibilities c) = Some (Some key)"
  shows "possibilities_hold val (filter (\<lambda>p. fst p \<noteq> key) (possibilities c))"
proof -
  have ok: "possibilities_ok S (possibilities c)" "possibilities_ok S (possibilities b)"
    using wf b c by (simp_all add: well_formedD)
  have keys: "distinct (map fst (possibilities c))" "distinct (map fst (possibilities b))"
    using ok by (auto dest: possibilities_okD)
  have match: "\<forall>(k, as) \<in> set (possibilities c). \<exists>bs. map_of (possibilities b) k = Some bs \<and>
       (index_keys_match as bs \<or> opposite_singles as bs \<and> Some key = Some k)"
    and at_key: "\<exists>as bs. (key, as) \<in> set (possibilities c) \<and> map_of (possibilities b) key = Some bs \<and>
       opposite_singles as bs"
    using find_opposing_matches[OF opp keys(2,1)] by auto
  have "fst ` set (possibilities c) \<subseteq> fst ` set (possibilities b)"
    using match by (force dest: map_of_SomeD)
  moreover have "card (fst ` set (possibilities c)) = length (possibilities c)"
      "card (fst ` set (possibilities b)) = length (possibilities b)"
    using keys by (metis distinct_card length_map set_map)+
  ultimately have same: "fst ` set (possibilities c) = fst ` set (possibilities b)"
    using card_subset_eq len by (metis List.finite_set finite_imageI)
  obtain u as h y where y: "(u, as) \<in> set (possibilities c)" "(h, y) \<in> set as" "val u y"
    using c(2) by (rule possibilities_holdE)
  show ?thesis
  proof (cases "u = key")
    case False
    then show ?thesis using y by (auto intro: possibilities_holdI)
  next
    case True
    obtain ha a kb b0 where ab: "(key, [(ha, a)]) \<in> set (possibilities c)"
        "map_of (possibilities b) key = Some [(kb, b0)]" "is_negation_of a b0"
      using at_key unfolding opposite_singles_def by blast
    have "as = [(ha, a)]" using distinct_value[OF keys(1) ab(1)] y(1) True by simp
    then have "val key a" using y True by simp
    then have false: "\<not> val key b0" using consistent_opposite[OF val ab(3)] by simp
    obtain w bs k z where z: "(w, bs) \<in> set (possibilities b)" "(k, z) \<in> set bs" "val w z"
      using b(2) by (rule possibilities_holdE)
    have wk: "w \<noteq> key"
    proof
      assume "w = key"
      then have "bs = [(kb, b0)]" using z(1) ab(2) keys(2) by (simp add: map_of_is_SomeI)
      then show False using z false \<open>w = key\<close> by simp
    qed
    obtain as' where as': "(w, as') \<in> set (possibilities c)" using same z(1) by force
    then have "index_keys_match as' bs"
      using match wk z(1) keys(2) by fastforce
    then have "fst ` set as' = fst ` set bs"
      using index_keys_same possibilities_okD(2)[OF ok(1) as'] possibilities_okD(2)[OF ok(2) z(1)] by blast
    then obtain z' where z': "(k, z') \<in> set as'" using z(2) by force
    have "literal_hash S z' = literal_hash S z"
      using possibilities_okD(3)[OF ok(1) as' z'] possibilities_okD(3)[OF ok(2) z(1,2)] by simp
    then have "same_fact z' z"
      using faithfulD(1)[OF well_formedD(2)[OF wf]] literalsI[OF c(1) as' z'] literalsI[OF b(1) z(1,2)] by blast
    then have "val w z'" using same_fact_value val z(3) by blast
    then show ?thesis using as' z' wk by (auto intro: possibilities_holdI)
  qed
qed

lemma resolve_against_inv:
  assumes wf: "well_formed S cs" and val: "consistent val" "models val cs"
    and c: "i < length cs" "binding (cs ! i)"
    and js: "\<forall>j \<in> set js. j < length cs \<and> binding (cs ! j) \<and>
        length (possibilities (cs ! j)) = length (possibilities (cs ! i))"
    and inv: "progress_inv S cs val st"
  shows "progress_inv S cs val (resolve_against S cs i (cs ! i) js st)"
  using js inv
proof (induction js arbitrary: st)
  case (Cons j js)
  obtain removed added where st: "st = (removed, added)" by fastforce
  show ?case
  proof (cases "\<not> removed ! j \<and> (\<exists>key. find_opposing 0 (possibilities (cs ! j)) None (possibilities (cs ! i)) = Some (Some key))")
    case False
    then show ?thesis using Cons by (auto simp: st split: option.split)
  next
    case True
    then obtain key where key: "find_opposing 0 (possibilities (cs ! j)) None (possibilities (cs ! i)) = Some (Some key)"
      by blast
    have mem: "cs ! i \<in> set cs" "cs ! j \<in> set cs" "binding (cs ! j)"
        "length (possibilities (cs ! j)) = length (possibilities (cs ! i))"
      using c(1) Cons.prems(1) by simp_all
    have holds: "possibilities_hold val (filter (\<lambda>p. fst p \<noteq> key) (possibilities (cs ! i)))"
      using resolution_holds[OF val(1) wf mem(1) _ mem(2) _ mem(4) key] val(2) c(2) mem by (simp add: models_def)
    then obtain d where d: "remove_possibilities S (cs ! i) key = Some d"
      by (cases "remove_possibilities S (cs ! i) key")
         (force dest: removed_variable_None elim!: possibilities_holdE, blast)
    have ps: "possibilities d = filter (\<lambda>p. fst p \<noteq> key) (possibilities (cs ! i))" "binding d"
      using removed_variable[OF d] c(2) by simp_all
    have sub: "stronger d (cs ! i)" "assertions_of d \<subseteq> assertions_of (cs ! i)"
      using ps(1) by (auto intro!: stronger_subset)
    have "derived_ok S cs val d"
      using ps holds sub(2) assertions_of_literals[OF mem(1)] possibilities_ok_filter[OF well_formedD(1)[OF wf mem(1)]]
      unfolding derived_ok_def by auto
    then have "progress_inv S cs val (removed[i := True], added @ [d])"
      using progress_add[OF Cons.prems(2)[unfolded st] _ sub(1)] by simp
    then show ?thesis using Cons True key d by (simp add: st)
  qed
qed simp

section \<open>The main loop\<close>

lemma negated_hash_literal: "negated_hash (hash_one S) (names S) a = literal_hash S (get_negation a)"
  by (cases a) (simp_all add: negated_hash_def to_hash_def to_atom_def get_negation_def)

lemma enumerated: "p \<in> set (enumerate 0 xs) \<longleftrightarrow> (\<exists>i < length xs. p = (i, xs ! i))"
  by (cases p) (auto simp: in_set_enumerate_eq)

lemma simplify_step_inv:
  assumes wf: "well_formed S cs" and val: "consistent val" "models val cs" and i: "i < length cs"
    and inv: "progress_inv S cs val st"
  shows "progress_inv S cs val (simplify_step S cs (fst (link_clauses S cs)) (i, cs ! i) st)"
proof (cases "binding (cs ! i)")
  case b: True
  have mem: "cs ! i \<in> set cs" using i by simp
  show ?thesis
  proof (cases "is_simple (cs ! i)")
    case True
    then obtain v h a where c: "possibilities (cs ! i) = [(v, [(h, a)])]"
      unfolding is_simple_def by (auto simp: length_Suc_conv)
    have a: "a \<in> literals cs" using literalsI[OF mem, of v "[(h, a)]" h a] c by simp
    have "clause_holds val (cs ! i)" using val(2) mem b by (simp add: models_def)
    then have va: "val v a" by (simp add: c possibilities_hold_def alternatives_hold_def)
    have "progress_inv S cs val (fold (propagate_into S v (literal_hash S (get_negation a)) i) (enumerate 0 cs) st)"
    proof (rule fold_invariant[where Q = "\<lambda>p. p \<in> set (enumerate 0 cs)"])
      show "progress_inv S cs val (propagate_into S v (literal_hash S (get_negation a)) i p st)"
        if "p \<in> set (enumerate 0 cs)" "progress_inv S cs val st" for p st
        using that propagate_into_inv[OF wf val a va refl] unfolding enumerated by blast
    qed (use inv in simp_all)
    then show ?thesis using b True c inv by (simp add: simplify_step_def negated_hash_literal Let_def)
  next
    case False
    have step: "simplify_step S cs (fst (link_clauses S cs)) (i, cs ! i) st =
        walk_links S cs (fst (link_clauses S cs)) i (cs ! i) (length cs) (next_match S cs i) st"
      using False b i by (simp add: simplify_step_def link_clauses_next)
    show ?thesis
    proof (cases "indexed (cs ! i)")
      case False
      then show ?thesis using inv step by (cases "length cs") (simp_all add: next_match_def)
    next
      case True
      have "progress_inv S cs val (resolve_against S cs i (cs ! i)
          (filter (same_chain S cs (chain_key S (cs ! i))) [Suc i..<length cs]) st)"
        by (rule resolve_against_inv[OF wf val i b _ inv])
           (auto simp: same_chain_def indexed_def chain_key_def)
      then show ?thesis
        using True step walk_links_visits[of cs "Suc i" "length cs"] by (simp add: next_match_def)
    qed
  qed
qed (simp add: simplify_step_def inv)

lemma main_loop_inv:
  assumes "well_formed S cs" "consistent val" "models val cs"
  shows "progress_inv S cs val (main_loop S cs)"
  unfolding main_loop_def
proof (rule fold_invariant[where Q = "\<lambda>p. p \<in> set (enumerate 0 cs)"])
  show "progress_inv S cs val (simplify_step S cs (fst (link_clauses S cs)) p st)"
    if "p \<in> set (enumerate 0 cs)" "progress_inv S cs val st" for p st
    using that simplify_step_inv[OF assms] unfolding enumerated by blast
qed (simp_all add: progress_inv_def)

section \<open>Common consequences\<close>

definition consequence_ok ::
  "('a, 'u, 'k) setting \<Rightarrow> ('a, 'u, 'k) clause list \<Rightarrow> ('a, 'u, 'k) valuation \<Rightarrow> fact_key
     \<Rightarrow> fact_key \<times> ('a, 'u, 'k) assertion \<Rightarrow> bool" where
  "consequence_ok S cs val source t \<longleftrightarrow>
     snd t \<in> literals cs \<and> snd (fst t) = literal_hash S (snd t) \<and>
     (\<forall>x \<in> literals cs. literal_hash S x = snd source \<longrightarrow> val (fst source) x \<longrightarrow> val (fst (fst t)) (snd t))"

definition implications_ok ::
  "('a, 'u, 'k) setting \<Rightarrow> ('a, 'u, 'k) clause list \<Rightarrow> ('a, 'u, 'k) valuation \<Rightarrow> ('a, 'u, 'k) implications \<Rightarrow> bool" where
  "implications_ok S cs val imps \<longleftrightarrow> (\<forall>i \<in> set imps. \<forall>t \<in> set (snd i). consequence_ok S cs val (fst i) t)"

lemma set_updateD: "p \<in> set (AList.update k x m) \<Longrightarrow> p = (k, x) \<or> p \<in> set m"
  by (induction m) (auto split: if_splits)

lemma implications_ok_lookup:
  "implications_ok S cs val imps \<Longrightarrow> map_of imps source = Some targets \<Longrightarrow> t \<in> set targets \<Longrightarrow>
     consequence_ok S cs val source t"
  unfolding implications_ok_def by (auto dest!: map_of_SomeD)

lemma implications_ok_update:
  assumes imps: "implications_ok S cs val imps" and t: "consequence_ok S cs val source (target, b)"
  shows "implications_ok S cs val
    (AList.update source (AList.update target b (unwrap_or (map_of imps source) [])) imps)"
proof -
  have "consequence_ok S cs val source u" if "u \<in> set (AList.update target b (unwrap_or (map_of imps source) []))" for u
  proof (cases "map_of imps source")
    case None
    then show ?thesis using that t by (simp add: unwrap_or_def)
  next
    case (Some targets)
    then have "u = (target, b) \<or> u \<in> set targets" using set_updateD[OF that] by (simp add: unwrap_or_def)
    then show ?thesis using t implications_ok_lookup[OF imps Some] by blast
  qed
  then show ?thesis
    using imps unfolding implications_ok_def by (auto dest!: set_updateD)
qed

lemma add_implication_ok:
  assumes wf: "well_formed S cs" and val: "consistent val"
    and imps: "implications_ok S cs val imps"
    and lits: "a \<in> literals cs" "b \<in> literals cs" "h = literal_hash S b"
    and clause: "val v a \<or> val w b"
  shows "implications_ok S cs val (add_implication S (v, [(ha, a)]) (w, [(h, b)]) imps)"
proof (cases "invertible a")
  case True
  let ?key = "(v, literal_hash S (get_negation a))"
  have "val w b" if "x \<in> literals cs" "literal_hash S x = literal_hash S (get_negation a)" "val v x" for x
  proof -
    have "same_fact (get_negation a) x"
      using faithfulD(2)[OF well_formedD(2)[OF wf] lits(1) that(1)] that(2) by simp
    then have "val v (get_negation a)" using same_fact_value val that(3) by blast
    then show ?thesis using consistent_negation_iff[OF val True] clause by blast
  qed
  then have "consequence_ok S cs val ?key ((w, h), b)"
    using lits(2,3) by (simp add: consequence_ok_def)
  then show ?thesis
    using implications_ok_update[OF imps] True by (simp add: add_implication_def is_negation_of_iff Let_def)
qed (simp add: add_implication_def is_negation_of_iff imps)

lemma collect_fact_ok:
  assumes wf: "well_formed S cs" and val: "consistent val" "models val cs" and c: "c \<in> set cs"
    and imps: "implications_ok S cs val (fst st)"
  shows "implications_ok S cs val (fst (collect_fact S c st))"
proof (cases "binding c \<and> (\<exists>v ha a w hb b. possibilities c = [(v, [(ha, a)]), (w, [(hb, b)])])")
  case True
  then obtain v ha a w hb b where ps: "binding c" "possibilities c = [(v, [(ha, a)]), (w, [(hb, b)])]" by blast
  have "clause_holds val c" using val(2) c ps(1) by (simp add: models_def)
  then have "val v a \<or> val w b" by (auto simp: ps(2) possibilities_hold_def alternatives_hold_def)
  moreover have "a \<in> literals cs" "b \<in> literals cs"
    using ps(2) c literalsI[OF c, of v "[(ha, a)]" ha a] literalsI[OF c, of w "[(hb, b)]" hb b] by simp_all
  moreover have "ha = literal_hash S a" "hb = literal_hash S b"
    using well_formedD(1)[OF wf c] ps(2) by (simp_all add: possibilities_ok_def)
  ultimately show ?thesis
    using ps imps add_implication_ok[OF wf val(1)] by (cases st) (auto simp: collect_fact_def Let_def)
next
  case False
  then show ?thesis
    using imps by (cases st) (auto simp: collect_fact_def Let_def length_Suc_conv split: list.split)
qed

lemma inferred_holds:
  assumes wf: "well_formed S cs" and val: "consistent val" "models val cs" and c: "c \<in> set cs" "binding c"
    and imps: "implications_ok S cs val imps"
    and all: "entailed_by_all imps (possibilities c) (w, k)" and a: "a \<in> literals cs" "k = literal_hash S a"
  shows "val w a"
proof -
  have "clause_holds val c" using val(2) c by (simp add: models_def)
  then obtain v as h x where x: "(v, as) \<in> set (possibilities c)" "(h, x) \<in> set as" "val v x"
    by (rule possibilities_holdE)
  obtain targets b where targets: "map_of imps (v, h) = Some targets" "((w, k), b) \<in> set targets"
    using all x(1,2) unfolding entailed_by_all_def list_all_iff
    by (fastforce split: option.splits dest: map_of_SomeD)
  have "b \<in> literals cs" "k = literal_hash S b" "val w b"
    using implications_ok_lookup[OF imps targets] x literalsI[OF c(1) x(1,2)]
      possibilities_okD(3)[OF well_formedD(1)[OF wf c(1)] x(1,2)]
    by (auto simp: consequence_ok_def)
  then show ?thesis
    using faithfulD(1)[OF well_formedD(2)[OF wf] a(1)] a(2) same_fact_value val(1) by metis
qed

lemma infer_candidates_ok:
  assumes wf: "well_formed S cs" and val: "consistent val" "models val cs" and c: "c \<in> set cs" "binding c"
    and imps: "implications_ok S cs val imps"
    and candidates: "\<forall>(target, a) \<in> set candidates. a \<in> literals cs \<and> snd target = literal_hash S a"
    and st: "\<forall>d \<in> set (snd st). derived_ok S cs val d"
  shows "\<forall>d \<in> set (snd (infer_candidates S c imps st candidates)). derived_ok S cs val d"
  using candidates st
proof (induction candidates arbitrary: st)
  case (Cons target candidates)
  obtain w k a known inferred where split: "target = ((w, k), a)" "st = (known, inferred)"
    by (metis prod.exhaust)
  show ?case
  proof (cases "(w, k) \<in> set known \<or> \<not> entailed_by_all imps (possibilities c) (w, k)")
    case True
    then have "infer_candidates S c imps st (target # candidates) = infer_candidates S c imps st candidates"
      by (auto simp add: split)
    then show ?thesis using Cons by simp
  next
    case False
    let ?d = "clause_new S [(w, [(k, a)])] (condition_span c) (clause_span c) (Some False) (Some True) (Some (generated c))"
    have "val w a"
      using inferred_holds[OF wf val c imps, of w k a] False Cons.prems(1) split by simp
    then have "derived_ok S cs val ?d"
      using Cons.prems(1) split
      by (auto simp: derived_ok_def binding_def unwrap_or_def possibilities_hold_def alternatives_hold_def
          possibilities_ok_def assertions_of_def)
    then have st': "\<forall>d \<in> set (snd ((w, k) # known, inferred @ [?d])). derived_ok S cs val d"
      using Cons.prems(2) split by simp
    have step: "infer_candidates S c imps st (target # candidates) =
        infer_candidates S c imps ((w, k) # known, inferred @ [?d]) candidates"
      using False by (simp add: split)
    have "\<forall>(target, a) \<in> set candidates. a \<in> literals cs \<and> snd target = literal_hash S a"
      using Cons.prems(1) by simp
    then show ?thesis unfolding step using st' by (rule Cons.IH)
  qed
qed simp

lemma infer_from_ok:
  assumes wf: "well_formed S cs" and val: "consistent val" "models val cs" and c: "c \<in> set cs"
    and imps: "implications_ok S cs val imps"
    and st: "\<forall>d \<in> set (snd st). derived_ok S cs val d"
  shows "\<forall>d \<in> set (snd (infer_from S imps c st)). derived_ok S cs val d"
proof (cases "infer_from S imps c st = st")
  case False
  then obtain v h candidates where cand: "binding c" "map_of imps (v, h) = Some candidates"
      "infer_from S imps c st = infer_candidates S c imps st candidates"
    unfolding infer_from_def by (auto split: list.splits if_splits option.splits)
  have "\<forall>(target, a) \<in> set candidates. a \<in> literals cs \<and> snd target = literal_hash S a"
    using implications_ok_lookup[OF imps cand(2)] unfolding consequence_ok_def by fastforce
  then show ?thesis using infer_candidates_ok[OF wf val c cand(1) imps _ st] cand(3) by simp
qed (use st in simp)

lemma infer_common_consequences_ok:
  assumes "well_formed S cs" "consistent val" "models val cs"
  shows "\<forall>d \<in> set (infer_common_consequences S cs). derived_ok S cs val d"
proof -
  have "implications_ok S cs val (fst (fold (collect_fact S) cs ([], [])))"
  proof (rule fold_invariant[where Q = "\<lambda>c. c \<in> set cs"])
    show "implications_ok S cs val (fst ([], []))" by (simp add: implications_ok_def)
  qed (use assms collect_fact_ok in blast)+
  then have "\<forall>d \<in> set (snd (fold (infer_from S (fst (fold (collect_fact S) cs ([], [])))) cs
      (snd (fold (collect_fact S) cs ([], [])), []))). derived_ok S cs val d"
    using infer_from_ok[OF assms]
    by (intro fold_invariant[where Q = "\<lambda>c. c \<in> set cs" and P = "\<lambda>st. \<forall>d \<in> set (snd st). derived_ok S cs val d"])
       simp_all
  then show ?thesis by (simp add: infer_common_consequences_def split_beta)
qed

lemma derived_clauses_ok:
  assumes "well_formed S cs" "consistent val" "models val cs"
  shows "\<forall>d \<in> set (derived_clauses S limit cs). derived_ok S cs val d"
  using main_loop_inv[OF assms] infer_common_consequences_ok[OF assms]
  by (auto simp: derived_clauses_def progress_inv_def)

section \<open>Combination, absorption and consensus\<close>

text \<open>Clauses with one hash are interchangeable.\<close>

definition hash_exact :: "('a, 'u, 'k) clause list \<Rightarrow> bool" where
  "hash_exact cs \<longleftrightarrow> (\<forall>c \<in> set cs. \<forall>d \<in> set cs. clause_hash c = clause_hash d \<longrightarrow>
     binding c = binding d \<and> (\<forall>val. clause_holds val c = clause_holds val d))"

lemma hash_exactD:
  "hash_exact cs \<Longrightarrow> c \<in> set cs \<Longrightarrow> d \<in> set cs \<Longrightarrow> clause_hash c = clause_hash d \<Longrightarrow>
     binding c = binding d \<and> clause_holds val c = clause_holds val d"
  unfolding hash_exact_def by blast

lemma hash_exact_subset: "hash_exact ds \<Longrightarrow> set cs \<subseteq> set ds \<Longrightarrow> hash_exact cs"
  unfolding hash_exact_def by blast

lemma unique_clauses_set: "set (unique_clauses seen cs) \<subseteq> set cs"
  by (induction seen cs rule: unique_clauses.induct) auto

lemma unique_clauses_hash:
  "c \<in> set cs \<Longrightarrow> clause_hash c \<in> set seen \<union> clause_hash ` set (unique_clauses seen cs)"
  by (induction seen cs rule: unique_clauses.induct) auto

lemma push_unseen_set: "set (push_unseen combined seen cs) \<subseteq> set combined \<union> set cs"
  by (induction combined seen cs rule: push_unseen.induct) auto

lemma push_unseen_keeps: "set combined \<subseteq> set (push_unseen combined seen cs)"
  by (induction combined seen cs rule: push_unseen.induct) auto

lemma push_unseen_hash:
  "set seen = clause_hash ` set combined \<Longrightarrow> c \<in> set cs \<Longrightarrow>
     clause_hash c \<in> clause_hash ` set (push_unseen combined seen cs)"
proof (induction combined seen cs rule: push_unseen.induct)
  case (2 combined seen d cs)
  have kept: "clause_hash ` set c \<subseteq> clause_hash ` set (push_unseen c s e)" for c s and e :: "('a, 'b, 'c) clause list"
    using push_unseen_keeps by (intro image_mono)
  show ?case
  proof (cases "clause_hash d \<in> set seen")
    case True
    then have "clause_hash d \<in> clause_hash ` set (push_unseen combined seen cs)"
      using kept[of combined seen cs] "2.prems"(1) by blast
    then show ?thesis using "2.IH"(1)[OF True "2.prems"(1)] "2.prems"(2) True by auto
  next
    case False
    have "clause_hash d \<in> clause_hash ` set (push_unseen (combined @ [d]) (clause_hash d # seen) cs)"
      using kept[of "combined @ [d]" "clause_hash d # seen" cs] by auto
    then show ?thesis using "2.IH"(2)[OF False] "2.prems" False by auto
  qed
qed simp

lemma retained_set: "set (retained_clauses S cs) \<subseteq> set cs"
  by (auto simp: retained_clauses_def dest: set_zip_rightD)

lemma retained_member:
  assumes "i < length cs" "length (fst (main_loop S cs)) = length cs" "\<not> fst (main_loop S cs) ! i"
  shows "cs ! i \<in> set (retained_clauses S cs)"
proof -
  have "(False, cs ! i) \<in> set (zip (fst (main_loop S cs)) cs)"
    using assms by (auto simp: in_set_zip intro!: exI[of _ i])
  then show ?thesis by (force simp: retained_clauses_def)
qed

lemma combined_set: "set (combined_clauses S limit cs) \<subseteq> set cs \<union> set (derived_clauses S limit cs)"
  using push_unseen_set retained_set by (fastforce simp: combined_clauses_def)

lemma combined_sound:
  assumes "well_formed S cs" "consistent val" "models val cs"
  shows "models val (combined_clauses S limit cs)"
proof -
  have "models val (derived_clauses S limit cs)"
    using derived_clauses_ok[OF assms, of limit] by (simp add: models_def derived_ok_def)
  then have "models val (cs @ derived_clauses S limit cs)" using assms(3) by simp
  then show ?thesis by (rule models_subset) (use combined_set in simp)
qed

lemma enumerated_member: "(i, x) \<in> set (enumerate 0 xs) \<Longrightarrow> x \<in> set xs"
  unfolding enumerated by auto

lemma absorb_set: "set (absorb S cs) \<subseteq> set cs"
  by (auto simp: absorb_def dest: enumerated_member)

lemma remove_consensus_set: "set (remove_consensus S limit flag cs) \<subseteq> set cs"
  by (auto simp: remove_consensus_def)

lemma well_formed_subset:
  assumes "well_formed S ds" "set cs \<subseteq> set ds"
  shows "well_formed S cs"
proof -
  have "literals cs \<subseteq> literals ds" using assms(2) by (auto simp: literals_def)
  then show ?thesis
    using assms faithful_mono[OF _ universe_mono] by (fastforce simp: well_formed_def)
qed

text \<open>
  C9. For a formula whose clauses keep every assertion once, at its hash, saturation derives nothing
  new: its result holds in every consistent valuation in which the formula holds, for all thresholds
  and any hash of clauses, provided that the hashes of assertions tell the facts of the formula apart
  and no clause carries the uninformative \<open>Any\<close>.
\<close>

theorem saturation_sound:
  assumes "well_formed S cs" "consistent val" "models val cs"
  shows "models val (saturate_clauses S cs t)"
proof -
  let ?u = "unique_clauses [] cs"
  have u: "well_formed S ?u" "models val ?u"
    using well_formed_subset[OF assms(1) unique_clauses_set] models_subset[OF assms(3) unique_clauses_set] by auto
  have "models val (remove_consensus S limit flag (absorb S (combined_clauses S limit ?u)))" for limit flag
    by (rule models_subset[OF combined_sound[OF u(1) assms(2) u(2)]])
       (rule subset_trans[OF remove_consensus_set absorb_set])
  then show ?thesis
    using u(2) by (auto simp: saturate_clauses_def saturate_clauses_inner_def Let_def models_def)
qed

section \<open>Equivalence before the consensus rule\<close>

lemma combined_implies:
  assumes wf: "well_formed S cs" and sat: "consistent val0" "models val0 cs"
    and hashes: "hash_exact (cs @ derived_clauses S limit cs)"
    and holds: "models val (combined_clauses S limit cs)"
  shows "models val cs"
  unfolding models_def
proof (intro ballI impI)
  fix c assume c: "c \<in> set cs" "binding c"
  then obtain i where i: "i < length cs" "c = cs ! i" by (metis in_set_conv_nth)
  note inv = main_loop_inv[OF wf sat, unfolded progress_inv_def]
  have member: "clause_holds val d" if "d \<in> set (combined_clauses S limit cs)" "binding d" for d
    using holds that by (simp add: models_def)
  show "clause_holds val c"
  proof (cases "fst (main_loop S cs) ! i")
    case False
    then have "c \<in> set (retained_clauses S cs)" using retained_member i inv by metis
    then have "c \<in> set (combined_clauses S limit cs)"
      using push_unseen_keeps unfolding combined_clauses_def by blast
    then show ?thesis using member c(2) by blast
  next
    case True
    then obtain d where d: "d \<in> set (snd (main_loop S cs))" "stronger d c" "derived_ok S cs val0 d"
      using inv i by auto
    then have der: "d \<in> set (derived_clauses S limit cs)" by (simp add: derived_clauses_def)
    have "clause_hash d \<in> clause_hash ` set (combined_clauses S limit cs)"
      unfolding combined_clauses_def by (rule push_unseen_hash[OF _ der]) simp
    then obtain e where e: "e \<in> set (combined_clauses S limit cs)" "clause_hash e = clause_hash d"
      by (metis imageE)
    have "e \<in> set (cs @ derived_clauses S limit cs)" "d \<in> set (cs @ derived_clauses S limit cs)"
      using e(1) der combined_set[of S limit cs] by auto
    then have "binding e = binding d" "clause_holds val e = clause_holds val d"
      using hash_exactD[OF hashes _ _ e(2)] by blast+
    then have "clause_holds val d" using member e(1) d(3) by (simp add: derived_ok_def)
    then show ?thesis using d(2) by (simp add: stronger_def)
  qed
qed

lemma absorb_implies:
  assumes ok: "\<forall>c \<in> set cs. possibilities_ok S (possibilities c) \<and> assertions_of c \<subseteq> A"
    and A: "faithful S A" and val: "consistent val" "models val (absorb S cs)"
  shows "models val cs"
proof (cases "all_size_one cs")
  case False
  have "clause_holds val c" if "c \<in> set cs" "binding c" for c
    using that
  proof (induction "length (possibilities c)" arbitrary: c rule: less_induct)
    case less
    then obtain i where i: "i < length cs" "c = cs ! i" by (metis in_set_conv_nth)
    show ?case
    proof (cases "is_redundant S cs (i, c)")
      case redundant: False
      have "(i, c) \<in> set (enumerate 0 cs)" using i by (auto simp: enumerated)
      then have "c \<in> set (absorb S cs)" using False redundant by (force simp: absorb_def)
      then show ?thesis using val(2) less.prems(2) by (simp add: models_def)
    next
      case True
      then obtain d where d: "d \<in> set cs" "binding d" "length (possibilities d) < length (possibilities c)"
          "clause_contains c d"
        unfolding is_redundant_def list_ex_iff by (auto dest: enumerated_member)
      then have "clause_holds val d" using less.hyps by blast
      then show ?thesis
        using contains_implies[OF d(4) _ val(1) A] ok d(1) less.prems(1) by blast
    qed
  qed
  then show ?thesis by (simp add: models_def)
qed (use val in \<open>simp add: absorb_def\<close>)

lemma derived_literals:
  assumes "well_formed S cs" "consistent val0" "models val0 cs"
  shows "\<forall>c \<in> set (combined_clauses S limit cs). possibilities_ok S (possibilities c) \<and> assertions_of c \<subseteq> literals cs"
proof
  fix c assume "c \<in> set (combined_clauses S limit cs)"
  then have "c \<in> set cs \<or> c \<in> set (derived_clauses S limit cs)" using combined_set by fastforce
  then show "possibilities_ok S (possibilities c) \<and> assertions_of c \<subseteq> literals cs"
    using derived_clauses_ok[OF assms, of limit] assms(1) assertions_of_literals
    by (auto simp: well_formed_def derived_ok_def)
qed


section \<open>What absorption leaves\<close>

lemma bit_variable_mask:
  "bit (fold (\<lambda>key mask. mask OR push_bit (f key) (1 :: u64)) keys m) i \<longleftrightarrow>
     bit m i \<or> (\<exists>key \<in> set keys. bit (push_bit (f key) (1 :: u64)) i)"
  by (induction keys arbitrary: m) (auto simp: bit_or_iff)

lemma variable_mask_mono:
  assumes "set keys \<subseteq> set others"
  shows "variable_mask S others AND variable_mask S keys = variable_mask S keys"
proof (rule bit_word_eqI)
  show "bit (variable_mask S others AND variable_mask S keys) i = bit (variable_mask S keys) i" for i
    using assms unfolding variable_mask_def bit_and_iff bit_variable_mask by auto
qed

lemma contains_variables:
  assumes "clause_contains c d"
  shows "set (map fst (possibilities d)) \<subseteq> set (map fst (possibilities c))"
proof
  fix v assume "v \<in> set (map fst (possibilities d))"
  then obtain as where "(v, as) \<in> set (possibilities d)" by auto
  then obtain i where i: "(i, v, as) \<in> set (enumerate 0 (possibilities d))" using enumerate_member by fast
  have "lookup_at i v (possibilities c) \<noteq> None"
    using assms i by (auto simp only: clause_contains_def list_all_iff split: if_splits option.splits)
  then show "v \<in> set (map fst (possibilities c))" by (force dest: lookup_at_in)
qed

text \<open>
  The masks of absorption only save comparisons: no binding clause that absorption keeps
  contains a smaller one that it keeps.
\<close>

theorem absorption_complete:
  assumes "c \<in> set (absorb S cs)" "binding c" "d \<in> set (absorb S cs)" "binding d"
    and "length (possibilities d) < length (possibilities c)"
  shows "\<not> clause_contains c d"
proof
  assume contains: "clause_contains c d"
  show False
  proof (cases "all_size_one cs")
    case True
    then have "length (possibilities c) = 1" "length (possibilities d) = 1"
      using assms(1-4) by (auto simp: absorb_def all_size_one_def list_all_iff binding_def)
    then show ?thesis using assms(5) by simp
  next
    case False
    obtain i where i: "i < length cs" "c = cs ! i" "\<not> is_redundant S cs (i, c)"
      using assms(1) False by (auto simp: absorb_def enumerated)
    obtain j where j: "j < length cs" "d = cs ! j" using assms(3) absorb_set by (metis in_set_conv_nth subsetD)
    have "i \<noteq> j" using assms(5) i(2) j(2) by auto
    moreover have "(j, d) \<in> set (enumerate 0 cs)" using j by (auto simp: enumerated)
    ultimately have "is_redundant S cs (i, c)"
      using assms(2,4,5) contains variable_mask_mono[OF contains_variables[OF contains]]
      unfolding is_redundant_def by (auto simp: list_ex_iff binding_def Let_def)
    then show ?thesis using i(3) by simp
  qed
qed

section \<open>Examples and limits\<close>

text \<open>Types named by byte strings, and hashes that mix all bytes.\<close>

definition mix :: "u64 \<Rightarrow> bytes \<Rightarrow> u64" where
  "mix = foldl (\<lambda>h b. h + h + ucast b)"

definition sample_setting :: "(bytes, unit, unit) setting" where
  "sample_setting =
     \<lparr>names = \<lparr>atomic_id = \<lambda>x. x, union_id = \<lambda>_. [], key_atom = \<lambda>_. []\<rparr>, hash_one = mix 7,
      hash_hashes = foldl (\<lambda>h x. h + h + x) 5,
      hash_possibilities = foldl (\<lambda>h (v, hs). foldl (\<lambda>h x. h + h + x) (mix (h + h) v) hs) 3\<rparr>"

definition sample_clause :: "(string \<times> (bytes, unit, unit) assertion) list \<Rightarrow> (bytes, unit, unit) clause" where
  "sample_clause ls = clause_new sample_setting
     (map (\<lambda>(v, a). (byte_string v, [(literal_hash sample_setting a, a)])) ls)
     (span_dummy 0 1) (span_dummy 0 1) None None None"

definition sample_formula :: "(bytes, unit, unit) clause list" where
  "sample_formula = [sample_clause [(''x'', Truthy)], sample_clause [(''x'', Falsy), (''y'', Truthy)]]"

lemma sample_formula_ok: "well_formed sample_setting sample_formula"
  unfolding well_formed_def faithful_def possibilities_ok_def by code_simp

lemma sample_formula_holds: "models (\<lambda>_. plain) sample_formula"
  by code_simp

lemma hash_exact_distinct: "distinct (map clause_hash cs) \<Longrightarrow> hash_exact cs"
  unfolding hash_exact_def by (auto simp: distinct_map dest: inj_onD)

theorem saturation_sound_witness:
  "models (\<lambda>_. plain) (saturate_clauses sample_setting sample_formula default_thresholds) \<and>
   map possibilities (saturate_clauses sample_setting sample_formula default_thresholds) =
     map possibilities [sample_clause [(''x'', Truthy)], sample_clause [(''y'', Truthy)]]"
proof
  show "models (\<lambda>_. plain) (saturate_clauses sample_setting sample_formula default_thresholds)"
    by (rule saturation_sound[OF sample_formula_ok consistent_plain sample_formula_holds])
qed code_simp


theorem absorption_complete_witness:
  "\<not> clause_contains (sample_clause [(''x'', Falsy), (''y'', Truthy)]) (sample_clause [(''x'', Truthy)])"
proof (rule absorption_complete[of _ sample_setting sample_formula])
  show "sample_clause [(''x'', Falsy), (''y'', Truthy)] \<in> set (absorb sample_setting sample_formula)"
    by code_simp
qed code_simp+

text \<open>The valuation where every invertible assertion has the other value.\<close>

definition opposite :: "('a, 'u, 'k) assertion \<Rightarrow> bool" where
  "opposite a \<longleftrightarrow> a = Any \<or> \<not> plain a"

lemma opposite_negation: "invertible a \<Longrightarrow> opposite (get_negation a) = (\<not> opposite a)"
  using plain_negation[of a] by (auto simp: opposite_def invertible_def get_negation_def)

lemma consistent_by_variable:
  assumes "\<And>v. val v = plain \<or> val v = opposite"
  shows "consistent val"
  unfolding consistent_def
proof (intro conjI allI impI)
  show "val v Any" for v using assms[of v] by (auto simp: opposite_def plain_def is_negation_def)
  show "val v (get_negation a) = (\<not> val v a)" if "invertible a" for v a
    using assms[of v] plain_negation[OF that] opposite_negation[OF that] by auto
qed

text \<open>
  Saturation does not keep the meaning in general: two contradictory units leave nothing; two
  clauses that are each the consensus of others are both removed, which loses a fact; and a clause
  with the uninformative \<open>Any\<close> loses it to a unit whose assertion has no negation, so that a clause
  is derived that does not follow.
\<close>

theorem saturation_limits:
  "saturate_clauses sample_setting
     [sample_clause [(''x'', Truthy)], sample_clause [(''x'', Falsy)]] default_thresholds = [] \<and>
   (\<exists>val. consistent val \<and>
     (let cs = [sample_clause [(''x'', Truthy), (''a'', Truthy)], sample_clause [(''a'', Falsy), (''y'', Truthy)],
                sample_clause [(''x'', Truthy), (''y'', Truthy)], sample_clause [(''y'', Falsy), (''a'', Truthy)]]
      in models val (saturate_clauses sample_setting cs default_thresholds) \<and> \<not> models val cs)) \<and>
   (\<exists>val. consistent val \<and>
     (let cs = [sample_clause [(''x'', HasStringArrayAccess)], sample_clause [(''x'', Any), (''y'', Truthy)]]
      in models val cs \<and> \<not> models val (saturate_clauses sample_setting cs default_thresholds)))"
proof (intro conjI)
  show "saturate_clauses sample_setting
      [sample_clause [(''x'', Truthy)], sample_clause [(''x'', Falsy)]] default_thresholds = []"
    by code_simp
  show "\<exists>val. consistent val \<and>
     (let cs = [sample_clause [(''x'', Truthy), (''a'', Truthy)], sample_clause [(''a'', Falsy), (''y'', Truthy)],
                sample_clause [(''x'', Truthy), (''y'', Truthy)], sample_clause [(''y'', Falsy), (''a'', Truthy)]]
      in models val (saturate_clauses sample_setting cs default_thresholds) \<and> \<not> models val cs)"
    by (rule exI[of _ "\<lambda>_. opposite"], rule conjI, rule consistent_by_variable, simp) code_simp
  show "\<exists>val. consistent val \<and>
     (let cs = [sample_clause [(''x'', HasStringArrayAccess)], sample_clause [(''x'', Any), (''y'', Truthy)]]
      in models val cs \<and> \<not> models val (saturate_clauses sample_setting cs default_thresholds))"
    by (rule exI[of _ "\<lambda>v. if v = byte_string ''x'' then plain else opposite"], rule conjI,
        rule consistent_by_variable, simp) code_simp
qed

end
