(* ===== verification/Assertion_Sets.thy ===== *)
theory Assertion_Sets
  imports Clauses
begin

text \<open>
  Sets of assertions about one expression (crate \<open>algebra\<close>, \<open>assertion_set.rs\<close>): a conjunction
  of disjunctions, as nested lists, with the operations that combine and negate them.

  The lemmas say what each operation does to the meaning of a set.
\<close>

type_synonym ('a, 'u, 'k) assertion_set = "('a, 'u, 'k) assertion list list"

definition add_or_assertion ::
  "('a, 'u, 'k) assertion_set \<Rightarrow> ('a, 'u, 'k) assertion \<Rightarrow> ('a, 'u, 'k) assertion_set" where
  "add_or_assertion ps a = (if ps = [] then [[a]] else map (\<lambda>c. c @ [a]) ps)"

definition add_and_assertion ::
  "('a, 'u, 'k) assertion_set \<Rightarrow> ('a, 'u, 'k) assertion \<Rightarrow> ('a, 'u, 'k) assertion_set" where
  "add_and_assertion ps a = ps @ [[a]]"

definition add_and_clause ::
  "('a, 'u, 'k) assertion_set \<Rightarrow> ('a, 'u, 'k) assertion list \<Rightarrow> ('a, 'u, 'k) assertion_set" where
  "add_and_clause s or_assertions = (if or_assertions = [] then [[]] else s @ [or_assertions])"

text \<open>One step of the conversion back to conjunctions: \<open>cnf\<close> or all the literals of a clause.\<close>

definition distribute ::
  "('a, 'u, 'k) assertion list \<Rightarrow> ('a, 'u, 'k) assertion_set \<Rightarrow> ('a, 'u, 'k) assertion_set" where
  "distribute and_clause cnf = concat (map (\<lambda>l. map (\<lambda>c. c @ [l]) cnf) and_clause)"

definition negate_assertion_set :: "('a, 'u, 'k) assertion_set \<Rightarrow> ('a, 'u, 'k) assertion_set" where
  "negate_assertion_set s =
     (case filter (\<lambda>c. c \<noteq> []) (map (map get_negation) (filter (list_all is_negatable) s)) of
        [] \<Rightarrow> [[]]
      | first # rest \<Rightarrow> fold distribute rest (map (\<lambda>l. [l]) first))"

definition hash_disjunction :: "('a, 'u, 'k) setting \<Rightarrow> ('a, 'u, 'k) assertion list \<Rightarrow> u64" where
  "hash_disjunction S d = hash_hashes S (sort (map (literal_hash S) d))"

text \<open>The loop over the second set, with the hashes seen so far.\<close>

fun append_unseen ::
  "('a, 'u, 'k) setting \<Rightarrow> ('a, 'u, 'k) assertion_set \<Rightarrow> u64 list \<Rightarrow> ('a, 'u, 'k) assertion_set
     \<Rightarrow> ('a, 'u, 'k) assertion_set" where
  "append_unseen S result seen [] = result"
| "append_unseen S result seen (d # ds) =
     (if hash_disjunction S d \<in> set seen then append_unseen S result seen ds
      else append_unseen S (result @ [d]) (hash_disjunction S d # seen) ds)"

definition and_assertion_sets ::
  "('a, 'u, 'k) setting \<Rightarrow> ('a, 'u, 'k) assertion_set \<Rightarrow> ('a, 'u, 'k) assertion_set
     \<Rightarrow> ('a, 'u, 'k) assertion_set" where
  "and_assertion_sets S set_a set_b =
     (if length set_a = 1 \<and> hd set_a = [] \<or> length set_b = 1 \<and> hd set_b = [] then [[]]
      else append_unseen S set_a (map (hash_disjunction S) set_a) set_b)"

section \<open>Meaning\<close>

definition set_holds :: "(('a, 'u, 'k) assertion \<Rightarrow> bool) \<Rightarrow> ('a, 'u, 'k) assertion_set \<Rightarrow> bool" where
  "set_holds p s \<longleftrightarrow> (\<forall>d \<in> set s. \<exists>a \<in> set d. p a)"

text \<open>Disjunctions with one hash hold together.\<close>

definition disjunctions_faithful ::
  "('a, 'u, 'k) setting \<Rightarrow> (('a, 'u, 'k) assertion \<Rightarrow> bool) \<Rightarrow> ('a, 'u, 'k) assertion_set \<Rightarrow> bool" where
  "disjunctions_faithful S p s \<longleftrightarrow> (\<forall>d \<in> set s. \<forall>e \<in> set s.
     hash_disjunction S d = hash_disjunction S e \<longrightarrow> (\<exists>a \<in> set d. p a) = (\<exists>a \<in> set e. p a))"

lemma set_holds_simps [simp]:
  "set_holds p []"
  "set_holds p (d # s) \<longleftrightarrow> (\<exists>a \<in> set d. p a) \<and> set_holds p s"
  "set_holds p (s @ t) \<longleftrightarrow> set_holds p s \<and> set_holds p t"
  by (auto simp: set_holds_def)

lemma set_holds_units: "set_holds p (map (\<lambda>l. [l]) c) \<longleftrightarrow> (\<forall>l \<in> set c. p l)"
  by (auto simp: set_holds_def)

lemma set_holds_distribute:
  "set_holds p (distribute c cnf) \<longleftrightarrow> set_holds p cnf \<or> (\<forall>l \<in> set c. p l)"
  by (auto simp: set_holds_def distribute_def)

lemma set_holds_fold_distribute:
  "set_holds p (fold distribute cs cnf) \<longleftrightarrow> set_holds p cnf \<or> (\<exists>c \<in> set cs. \<forall>l \<in> set c. p l)"
  by (induction cs arbitrary: cnf) (auto simp: set_holds_distribute)

lemma disjunctions_faithfulD:
  "disjunctions_faithful S p s \<Longrightarrow> d \<in> set s \<Longrightarrow> e \<in> set s \<Longrightarrow>
     hash_disjunction S d = hash_disjunction S e \<Longrightarrow> (\<exists>a \<in> set d. p a) = (\<exists>a \<in> set e. p a)"
  unfolding disjunctions_faithful_def by blast

lemma disjunctions_faithful_mono:
  "disjunctions_faithful S p t \<Longrightarrow> set s \<subseteq> set t \<Longrightarrow> disjunctions_faithful S p s"
  unfolding disjunctions_faithful_def by blast

lemma append_unseen_holds:
  assumes "disjunctions_faithful S p (result @ ds)" "set seen = hash_disjunction S ` set result"
  shows "set_holds p (append_unseen S result seen ds) \<longleftrightarrow> set_holds p result \<and> set_holds p ds"
  using assms
proof (induction S result seen ds rule: append_unseen.induct)
  case (2 S result seen d ds)
  show ?case
  proof (cases "hash_disjunction S d \<in> set seen")
    case True
    then obtain e where e: "e \<in> set result" "hash_disjunction S d = hash_disjunction S e"
      using "2.prems"(2) by auto
    then have same: "(\<exists>a \<in> set d. p a) = (\<exists>a \<in> set e. p a)"
      using disjunctions_faithfulD[OF "2.prems"(1), of d e] by simp
    have rest: "disjunctions_faithful S p (result @ ds)"
      using "2.prems"(1) by (rule disjunctions_faithful_mono) auto
    have "set_holds p result \<Longrightarrow> \<exists>a \<in> set e. p a"
      using e(1) unfolding set_holds_def by blast
    then show ?thesis
      using "2.IH"(1)[OF True rest "2.prems"(2)] True same by auto
  next
    case False
    then show ?thesis using "2.IH"(2)[OF False] "2.prems" by auto
  qed
qed simp

text \<open>
  Negating a set of assertions: the result holds exactly when some nonempty disjunction of the
  set, all of whose assertions can be negated, has all its negations hold. So for a set of nonempty
  disjunctions whose assertions have opposites, the result is the negation.
\<close>

theorem negated_set_meaning:
  "(set_holds p (negate_assertion_set s) \<longleftrightarrow>
     (\<exists>d \<in> set s. d \<noteq> [] \<and> (\<forall>a \<in> set d. is_negatable a \<and> p (get_negation a)))) \<and>
   (consistent val \<and> [] \<notin> set s \<and> (\<forall>d \<in> set s. \<forall>a \<in> set d. is_negatable a \<and> invertible a) \<longrightarrow>
     set_holds (val v) (negate_assertion_set s) = (\<not> set_holds (val v) s))"
proof -
  have meaning: "set_holds q (negate_assertion_set s) \<longleftrightarrow>
      (\<exists>d \<in> set s. d \<noteq> [] \<and> (\<forall>a \<in> set d. is_negatable a \<and> q (get_negation a)))" for q
  proof (cases "filter (\<lambda>c. c \<noteq> []) (map (map get_negation) (filter (list_all is_negatable) s))")
    case Nil
    then have "set_holds q (negate_assertion_set s) = False"
      by (simp add: negate_assertion_set_def)
    moreover have "\<not> (\<exists>d \<in> set s. d \<noteq> [] \<and> list_all is_negatable d)"
      using Nil by (auto simp: filter_empty_conv)
    ultimately show ?thesis by (auto simp: list_all_iff)
  next
    case (Cons first rest)
    have "set_holds q (negate_assertion_set s) \<longleftrightarrow> (\<exists>c \<in> set (first # rest). \<forall>l \<in> set c. q l)"
      using Cons by (simp add: negate_assertion_set_def set_holds_fold_distribute set_holds_units)
    then show ?thesis unfolding Cons[symmetric] by (auto simp: list_all_iff)
  qed
  then show ?thesis
    by (auto simp: set_holds_def consistent_negation_iff) (metis list.set_sel(1))+
qed

theorem negated_set_meaning_witness:
  "set_holds plain (negate_assertion_set ([[IsType (), Falsy], [Truthy]] :: (unit, unit, unit) assertion_set)) =
     (\<not> set_holds plain ([[IsType (), Falsy], [Truthy]] :: (unit, unit, unit) assertion_set))"
  using negated_set_meaning[of plain "[[IsType (), Falsy], [Truthy]] :: (unit, unit, unit) assertion_set"
      "\<lambda>_. plain" "[]", THEN conjunct2]
  by (simp add: consistent_plain is_negatable_def invertible_def get_negation_def)

text \<open>
  Adding an assertion or a clause conjoins or disjoins it to the meaning, except that disjoining
  an assertion to the empty set, which holds always, gives the assertion alone. The conjunction of
  two sets without hash collisions means both.
\<close>

theorem assertion_set_connectives:
  "set_holds p (add_and_assertion s a) = (set_holds p s \<and> p a) \<and>
   set_holds p (add_and_clause s d) = (set_holds p s \<and> (\<exists>a \<in> set d. p a)) \<and>
   set_holds p (add_or_assertion s a) = (s \<noteq> [] \<and> set_holds p s \<or> p a) \<and>
   (disjunctions_faithful S p (s @ t) \<longrightarrow>
      set_holds p (and_assertion_sets S s t) = (set_holds p s \<and> set_holds p t))"
proof (intro conjI impI)
  show "set_holds p (add_and_assertion s a) = (set_holds p s \<and> p a)"
    by (simp add: add_and_assertion_def)
  show "set_holds p (add_and_clause s d) = (set_holds p s \<and> (\<exists>a \<in> set d. p a))"
    by (simp add: add_and_clause_def)
  show "set_holds p (add_or_assertion s a) = (s \<noteq> [] \<and> set_holds p s \<or> p a)"
    by (auto simp: add_or_assertion_def set_holds_def)
  show "set_holds p (and_assertion_sets S s t) = (set_holds p s \<and> set_holds p t)"
    if "disjunctions_faithful S p (s @ t)"
    using append_unseen_holds[OF that, of "map (hash_disjunction S) s"]
    by (auto simp: and_assertion_sets_def length_Suc_conv)
qed

theorem assertion_set_connectives_witness:
  "set_holds plain (and_assertion_sets
     \<lparr>names = \<lparr>atomic_id = \<lambda>_. [], union_id = \<lambda>_. [], key_atom = \<lambda>_. []\<rparr>,
      hash_one = \<lambda>n. of_nat (length n), hash_hashes = (\<lambda>hs. of_nat (length hs)),
      hash_possibilities = \<lambda>_. 0\<rparr>
     [[Truthy], [Falsy, Truthy]] ([[Truthy]] :: (unit, unit, unit) assertion_set))"
  using assertion_set_connectives[of plain "[[Truthy], [Falsy, Truthy]]" Truthy "[]" _ "[[Truthy]]"]
  by (auto simp: disjunctions_faithful_def plain_def is_negation_def)

end
