(* ===== verification/Formula_Algebra.thy ===== *)
theory Formula_Algebra
  imports Saturation_Sound Assertion_Sets
begin

text \<open>
  Operations on formulas (crate \<open>algebra\<close>, \<open>lib.rs\<close>): the facts a formula states about single
  variables, disjunction and negation. A hash set of words or indices is the list of its members.

  A formula holds when its reconcilable clauses hold; a wedge has no possibilities and stands for a
  contradiction. The lemmas relate each operation to this meaning.
\<close>

section \<open>Facts about single variables\<close>

type_synonym ('a, 'u, 'k) truths = "(bytes \<times> ('a, 'u, 'k) assertion list list) list"

type_synonym active_truths = "(bytes \<times> nat list) list"

definition is_placeholder :: "bytes \<Rightarrow> bool" where
  "is_placeholder v = starts_with [42] v"

definition assignment_step ::
  "span option \<Rightarrow> ('a, 'u, 'k) clause \<Rightarrow> ('a, 'u, 'k) truths \<times> active_truths \<times> bytes list
     \<Rightarrow> ('a, 'u, 'k) truths \<times> active_truths \<times> bytes list" where
  "assignment_step creating c st =
     (let (truths, active, referenced) = st;
          referenced = (if generated c then referenced
            else referenced @ filter (\<lambda>v. \<not> is_placeholder v) (map fst (possibilities c)))
      in if \<not> reconcilable c \<or> length (possibilities c) \<noteq> 1 then (truths, active, referenced)
         else let (variable, types) = hd (possibilities c) in
           if is_placeholder variable then (truths, active, referenced)
           else let entry = unwrap_or (map_of truths variable) [] in
             (AList.update variable (entry @ [map snd types]) truths,
              (if creating = Some (condition_span c)
               then AList.update variable (length entry # unwrap_or (map_of active variable) []) active
               else active),
              referenced))"

definition find_satisfying_assignments ::
  "('a, 'u, 'k) clause list \<Rightarrow> span option \<Rightarrow> bytes list
     \<Rightarrow> ('a, 'u, 'k) truths \<times> active_truths \<times> bytes list" where
  "find_satisfying_assignments cs creating referenced =
     fold (assignment_step creating) cs ([], [], referenced)"

section \<open>Disjunction\<close>

definition merge_possibilities ::
  "('a, 'u, 'k) possibilities \<Rightarrow> ('a, 'u, 'k) possibilities \<Rightarrow> ('a, 'u, 'k) possibilities" where
  "merge_possibilities left right = fold (\<lambda>(v, as) ps.
     case map_of ps v of
       Some existing \<Rightarrow> AList.update v (extend_alternatives existing as) ps
     | None \<Rightarrow> AList.update v as ps) right left"

fun has_opposites :: "('a, 'u, 'k) assertion list \<Rightarrow> bool" where
  "has_opposites [] = False"
| "has_opposites (a # as) = (list_ex (is_negation_of a) as \<or> has_opposites as)"

definition is_tautology :: "('a, 'u, 'k) possibilities \<Rightarrow> bool" where
  "is_tautology ps = list_ex (\<lambda>(_, as). length as > 1 \<and> has_opposites (map snd as)) ps"

definition disjoin_pair ::
  "('a, 'u, 'k) setting \<Rightarrow> span \<Rightarrow> ('a, 'u, 'k) clause \<Rightarrow> ('a, 'u, 'k) clause \<Rightarrow> ('a, 'u, 'k) clause list" where
  "disjoin_pair S object_id l r =
     (if wedge l \<and> wedge r then []
      else if wedge l then [r]
      else if wedge r then [l]
      else let ps = merge_possibilities (possibilities l) (possibilities r) in
        if is_tautology ps then []
        else [clause_new S ps object_id object_id (Some False) (Some (reconcilable l \<and> reconcilable r)) (Some True)])"

definition disjoin_clauses ::
  "('a, 'u, 'k) setting \<Rightarrow> ('a, 'u, 'k) clause list \<Rightarrow> ('a, 'u, 'k) clause list \<Rightarrow> span \<Rightarrow> thresholds
     \<Rightarrow> ('a, 'u, 'k) clause list" where
  "disjoin_clauses S left right object_id t =
     (if left = [] then right
      else if right = [] then left
      else if length left > unat (disjunction_complexity t) \<or> length right > unat (disjunction_complexity t) then []
      else concat (map (\<lambda>l. concat (map (\<lambda>r. disjoin_pair S object_id l r) right)) left))"

section \<open>Negation\<close>

definition seed_clauses :: "('a, 'u, 'k) setting \<Rightarrow> ('a, 'u, 'k) clause \<Rightarrow> ('a, 'u, 'k) clause list" where
  "seed_clauses S c = concat (map (\<lambda>(v, as). map (\<lambda>(_, a).
     clause_new S [(v, [(literal_hash S (get_negation a), get_negation a)])] (condition_span c) (clause_span c)
       None None (Some (generated c))) as) (possibilities c))"

definition clause_negations ::
  "('a, 'u, 'k) setting \<Rightarrow> ('a, 'u, 'k) clause \<Rightarrow> ('a, 'u, 'k) possibilities" where
  "clause_negations S c = map (\<lambda>(v, as).
     (v, map (\<lambda>(_, a). (literal_hash S (get_negation a), get_negation a)) as)) (possibilities c)"

text \<open>The counter of steps and the new clauses; \<open>None\<close> when the counter passes the limit.\<close>

type_synonym ('a, 'u, 'k) grouping = "nat \<times> ('a, 'u, 'k) clause list"

definition insert_literal ::
  "bytes \<Rightarrow> u64 \<Rightarrow> ('a, 'u, 'k) assertion \<Rightarrow> ('a, 'u, 'k) possibilities \<Rightarrow> ('a, 'u, 'k) possibilities" where
  "insert_literal v h a ps = AList.update v (AList.update h a (unwrap_or (map_of ps v) [])) ps"

definition extended_clause ::
  "('a, 'u, 'k) setting \<Rightarrow> ('a, 'u, 'k) clause \<Rightarrow> ('a, 'u, 'k) clause \<Rightarrow> bytes \<Rightarrow> u64 \<Rightarrow> ('a, 'u, 'k) assertion
     \<Rightarrow> ('a, 'u, 'k) clause" where
  "extended_clause S c g v h a = clause_new S (insert_literal v h a (possibilities g)) (condition_span g)
     (clause_span c) (Some False) (Some True) (Some True)"

text \<open>The loop over the negations for one variable, which stops at the first that makes a tautology.\<close>

fun extend_negations ::
  "('a, 'u, 'k) setting \<Rightarrow> nat \<Rightarrow> ('a, 'u, 'k) clause \<Rightarrow> ('a, 'u, 'k) clause \<Rightarrow> bytes
     \<Rightarrow> ('a, 'u, 'k) alternatives \<Rightarrow> ('a, 'u, 'k) grouping \<Rightarrow> ('a, 'u, 'k) grouping option" where
  "extend_negations S max_complexity c g v [] st = Some st"
| "extend_negations S max_complexity c g v ((h, n) # negations) (complexity, out) =
     (if Suc complexity > max_complexity then None
      else if (case map_of (possibilities g) v of
                 Some as \<Rightarrow> list_ex (\<lambda>(_, a). is_negation_of a n) as
               | None \<Rightarrow> False)
      then Some (Suc complexity, out)
      else extend_negations S max_complexity c g v negations
             (Suc complexity, out @ [extended_clause S c g v h n]))"

fun extend_variables ::
  "('a, 'u, 'k) setting \<Rightarrow> nat \<Rightarrow> ('a, 'u, 'k) clause \<Rightarrow> ('a, 'u, 'k) clause \<Rightarrow> ('a, 'u, 'k) possibilities
     \<Rightarrow> ('a, 'u, 'k) grouping \<Rightarrow> ('a, 'u, 'k) grouping option" where
  "extend_variables S max_complexity c g [] st = Some st"
| "extend_variables S max_complexity c g ((v, negations) # rest) st =
     (case extend_negations S max_complexity c g v negations st of
        None \<Rightarrow> None
      | Some st \<Rightarrow> extend_variables S max_complexity c g rest st)"

fun extend_groups ::
  "('a, 'u, 'k) setting \<Rightarrow> nat \<Rightarrow> ('a, 'u, 'k) clause \<Rightarrow> ('a, 'u, 'k) clause list
     \<Rightarrow> ('a, 'u, 'k) grouping \<Rightarrow> ('a, 'u, 'k) grouping option" where
  "extend_groups S max_complexity c [] st = Some st"
| "extend_groups S max_complexity c (g # gs) st =
     (case extend_variables S max_complexity c g (clause_negations S c) st of
        None \<Rightarrow> None
      | Some st \<Rightarrow> extend_groups S max_complexity c gs st)"

text \<open>The loop that pops the remaining clauses, from the last to the first.\<close>

fun group_loop ::
  "('a, 'u, 'k) setting \<Rightarrow> nat \<Rightarrow> ('a, 'u, 'k) clause list \<Rightarrow> ('a, 'u, 'k) grouping
     \<Rightarrow> ('a, 'u, 'k) clause list option" where
  "group_loop S max_complexity [] (complexity, seeds) = Some (rev seeds)"
| "group_loop S max_complexity (c # popped) (complexity, seeds) =
     (case extend_groups S max_complexity c seeds (complexity, []) of
        None \<Rightarrow> None
      | Some st \<Rightarrow> group_loop S max_complexity popped st)"

definition literal_count :: "('a, 'u, 'k) clause \<Rightarrow> nat" where
  "literal_count c = sum_list (map (\<lambda>(_, as). length as) (possibilities c))"

fun exceeds_bound :: "nat \<Rightarrow> nat \<Rightarrow> ('a, 'u, 'k) clause list \<Rightarrow> bool" where
  "exceeds_bound max_complexity n [] = False"
| "exceeds_bound max_complexity n (c # cs) =
     (n * literal_count c > max_complexity \<or> exceeds_bound max_complexity (n * literal_count c) cs)"

definition group_impossibilities ::
  "('a, 'u, 'k) setting \<Rightarrow> ('a, 'u, 'k) clause list \<Rightarrow> nat \<Rightarrow> ('a, 'u, 'k) clause list option" where
  "group_impossibilities S cs max_complexity =
     (case rev cs of
        [] \<Rightarrow> Some []
      | c # popped \<Rightarrow>
          let seeds = (if wedge c then [] else seed_clauses S c) in
          if popped = [] \<or> seeds = [] then Some seeds
          else if exceeds_bound max_complexity (length seeds) (rev popped) then None
          else group_loop S max_complexity popped (1, seeds))"

definition negatable_clauses :: "('a, 'u, 'k) clause list \<Rightarrow> ('a, 'u, 'k) clause list" where
  "negatable_clauses cs = filter (\<lambda>c. reconcilable c \<and>
     (wedge c \<or> list_all (\<lambda>(_, as). list_all (\<lambda>(_, a). is_negatable a) as) (possibilities c))) cs"

definition negate_formula ::
  "('a, 'u, 'k) setting \<Rightarrow> ('a, 'u, 'k) clause list \<Rightarrow> thresholds \<Rightarrow> ('a, 'u, 'k) clause list option" where
  "negate_formula S cs t =
     (if negatable_clauses cs = [] then Some []
      else case group_impossibilities S (negatable_clauses cs) (unat (negation_complexity t)) of
        None \<Rightarrow> None
      | Some impossible \<Rightarrow> if impossible = [] then Some [] else Some (saturate_clauses S impossible t))"

section \<open>Meaning of formulas\<close>

definition formula_holds :: "('a, 'u, 'k) valuation \<Rightarrow> ('a, 'u, 'k) clause list \<Rightarrow> bool" where
  "formula_holds val cs \<longleftrightarrow> (\<forall>c \<in> set cs. reconcilable c \<longrightarrow> clause_holds val c)"

definition wedges_empty :: "('a, 'u, 'k) clause list \<Rightarrow> bool" where
  "wedges_empty cs \<longleftrightarrow> (\<forall>c \<in> set cs. wedge c \<longrightarrow> possibilities c = [] \<and> reconcilable c)"

text \<open>Possibilities whose assertions stand at their hashes and lie in a set.\<close>

definition alternatives_within ::
  "('a, 'u, 'k) setting \<Rightarrow> ('a, 'u, 'k) assertion set \<Rightarrow> ('a, 'u, 'k) alternatives \<Rightarrow> bool" where
  "alternatives_within S A as \<longleftrightarrow> distinct (map fst as) \<and> (\<forall>(h, a) \<in> set as. h = literal_hash S a \<and> a \<in> A)"

definition possibilities_within ::
  "('a, 'u, 'k) setting \<Rightarrow> ('a, 'u, 'k) assertion set \<Rightarrow> ('a, 'u, 'k) possibilities \<Rightarrow> bool" where
  "possibilities_within S A ps \<longleftrightarrow> distinct (map fst ps) \<and> (\<forall>p \<in> set ps. alternatives_within S A (snd p))"

lemma within_iff:
  "possibilities_within S A (possibilities c) \<longleftrightarrow> possibilities_ok S (possibilities c) \<and> assertions_of c \<subseteq> A"
proof -
  have "assertions_of c \<subseteq> A \<longleftrightarrow> (\<forall>p \<in> set (possibilities c). \<forall>q \<in> set (snd p). snd q \<in> A)"
    by (simp add: assertions_of_def split_beta UN_subset_iff image_subset_iff)
  then show ?thesis
    by (auto simp: possibilities_within_def alternatives_within_def possibilities_ok_def split_beta ball_conj_distrib)
qed

lemma alternatives_hold_simps [simp]:
  "alternatives_hold p [] = False"
  "alternatives_hold p ((h, a) # as) \<longleftrightarrow> p a \<or> alternatives_hold p as"
  by (auto simp: alternatives_hold_def)

lemma possibilities_hold_simps [simp]:
  "possibilities_hold val [] = False"
  "possibilities_hold val ((v, as) # ps) \<longleftrightarrow> alternatives_hold (val v) as \<or> possibilities_hold val ps"
  by (auto simp: possibilities_hold_def)

lemma unwrap_or_simps [simp]: "unwrap_or None d = d" "unwrap_or (Some x) d = x"
  by (simp_all add: unwrap_or_def)

lemma alternatives_update:
  assumes "alternatives_within S A as" "faithful S A" "consistent val" "a \<in> A" "h = literal_hash S a"
  shows "alternatives_hold (val v) (AList.update h a as) \<longleftrightarrow> alternatives_hold (val v) as \<or> val v a"
    and "alternatives_within S A (AList.update h a as)"
proof -
  have "val v b = val v a" if "(h, b) \<in> set as" for b
  proof -
    have "b \<in> A" "h = literal_hash S b" using assms(1) that by (auto simp: alternatives_within_def)
    then show ?thesis using faithfulD(1)[OF assms(2) _ assms(4)] assms(3,5) same_fact_value by metis
  qed
  then show "alternatives_hold (val v) (AList.update h a as) \<longleftrightarrow> alternatives_hold (val v) as \<or> val v a"
    using assms(1) unfolding alternatives_hold_def alternatives_within_def by (auto simp: set_update)
  show "alternatives_within S A (AList.update h a as)"
    using assms(1,4,5) unfolding alternatives_within_def by (auto simp: set_update distinct_update)
qed

lemma extend_alternatives_meaning:
  assumes "alternatives_within S A as" "\<forall>(h, a) \<in> set bs. h = literal_hash S a \<and> a \<in> A"
    and "faithful S A" "consistent val"
  shows "(alternatives_hold (val v) (extend_alternatives as bs) \<longleftrightarrow>
      alternatives_hold (val v) as \<or> alternatives_hold (val v) bs) \<and>
    alternatives_within S A (extend_alternatives as bs)"
  using assms(1,2)
proof (induction bs arbitrary: as)
  case Nil
  then show ?case by (simp add: extend_alternatives_def)
next
  case (Cons b bs)
  obtain h a where b: "b = (h, a)" by fastforce
  have step: "extend_alternatives as (b # bs) = extend_alternatives (AList.update h a as) bs"
    by (simp add: extend_alternatives_def b)
  show ?case
    unfolding step
    using Cons.IH[OF alternatives_update(2)[OF Cons.prems(1) assms(3,4)]] Cons.prems(2) b
      alternatives_update(1)[OF Cons.prems(1) assms(3,4)]
    by auto
qed

lemma possibilities_update:
  assumes "distinct (map fst ps)"
    and "alternatives_hold (val v) new \<longleftrightarrow> alternatives_hold (val v) (unwrap_or (map_of ps v) []) \<or> extra"
  shows "possibilities_hold val (AList.update v new ps) \<longleftrightarrow> possibilities_hold val ps \<or> extra"
  using assms by (induction ps) (auto split: if_splits)

lemma within_lookup:
  "possibilities_within S A ps \<Longrightarrow> alternatives_within S A (unwrap_or (map_of ps v) [])"
  unfolding possibilities_within_def
  by (cases "map_of ps v") (auto simp: alternatives_within_def dest!: map_of_SomeD)

lemma within_update:
  "possibilities_within S A ps \<Longrightarrow> alternatives_within S A new \<Longrightarrow> possibilities_within S A (AList.update v new ps)"
  unfolding possibilities_within_def by (auto simp: set_update distinct_update)

lemma insert_literal_meaning:
  assumes "possibilities_within S A ps" "faithful S A" "consistent val" "a \<in> A" "h = literal_hash S a"
  shows "possibilities_hold val (insert_literal v h a ps) \<longleftrightarrow> possibilities_hold val ps \<or> val v a"
    and "possibilities_within S A (insert_literal v h a ps)"
proof -
  note new = alternatives_update[OF within_lookup[OF assms(1)] assms(2-5)]
  have "distinct (map fst ps)" using assms(1) by (simp add: possibilities_within_def)
  then show "possibilities_hold val (insert_literal v h a ps) \<longleftrightarrow> possibilities_hold val ps \<or> val v a"
    unfolding insert_literal_def by (rule possibilities_update) (rule new(1))
  show "possibilities_within S A (insert_literal v h a ps)"
    unfolding insert_literal_def by (rule within_update[OF assms(1) new(2)])
qed

lemma merge_possibilities_meaning:
  assumes "possibilities_within S A left" "\<forall>p \<in> set right. alternatives_within S A (snd p)"
    and "faithful S A" "consistent val"
  shows "(possibilities_hold val (merge_possibilities left right) \<longleftrightarrow>
      possibilities_hold val left \<or> possibilities_hold val right) \<and>
    possibilities_within S A (merge_possibilities left right)"
  using assms(1,2)
proof (induction right arbitrary: left)
  case Nil
  then show ?case by (simp add: merge_possibilities_def)
next
  case (Cons p right)
  obtain v as where p: "p = (v, as)" by fastforce
  have as: "alternatives_within S A as" using Cons.prems(2) p by simp
  define new where "new = (case map_of left v of Some existing \<Rightarrow> extend_alternatives existing as | None \<Rightarrow> as)"
  have step: "merge_possibilities left (p # right) = merge_possibilities (AList.update v new left) right"
    by (simp add: merge_possibilities_def p new_def split: option.split)
  have new: "(alternatives_hold (val v) new \<longleftrightarrow>
        alternatives_hold (val v) (unwrap_or (map_of left v) []) \<or> alternatives_hold (val v) as) \<and>
      alternatives_within S A new"
  proof (cases "map_of left v")
    case None
    then show ?thesis using as by (simp add: new_def)
  next
    case (Some existing)
    have "alternatives_within S A existing" using within_lookup[OF Cons.prems(1), of v] Some by simp
    then show ?thesis
      using extend_alternatives_meaning[OF _ _ assms(3,4), of existing as v] as Some
      by (simp add: new_def alternatives_within_def)
  qed
  then have "possibilities_hold val (AList.update v new left) \<longleftrightarrow>
      possibilities_hold val left \<or> alternatives_hold (val v) as"
    using possibilities_update[of left val v new] Cons.prems(1) by (simp add: possibilities_within_def)
  moreover have "possibilities_within S A (AList.update v new left)"
    using within_update[OF Cons.prems(1)] new by blast
  ultimately show ?case
    unfolding step using Cons.IH[of "AList.update v new left"] Cons.prems(2) p by auto
qed

lemma tautology_holds:
  assumes "is_tautology ps" "consistent val"
  shows "possibilities_hold val ps"
proof -
  obtain v as where as: "(v, as) \<in> set ps" "has_opposites (map snd as)"
    using assms(1) by (auto simp: is_tautology_def list_ex_iff)
  have "\<exists>a \<in> set xs. \<exists>b \<in> set xs. is_negation_of a b" if "has_opposites xs" for xs :: "('a, 'b, 'c) assertion list"
    using that by (induction xs) (auto simp: list_ex_iff)
  then obtain a b where ab: "a \<in> snd ` set as" "b \<in> snd ` set as" "is_negation_of a b"
    using as(2) by fastforce
  have "alternatives_hold (val v) as"
    using ab consistent_opposite[OF assms(2) ab(3), of v] by (cases "val v a") (force simp: alternatives_hold_def)+
  then show ?thesis using as(1) by (auto simp: possibilities_hold_def)
qed

section \<open>Facts\<close>

definition states_fact :: "('a, 'u, 'k) clause \<Rightarrow> bool" where
  "states_fact c \<longleftrightarrow> reconcilable c \<and> length (possibilities c) = 1 \<and>
     \<not> is_placeholder (fst (hd (possibilities c)))"

definition fact_clauses :: "bytes \<Rightarrow> ('a, 'u, 'k) clause list \<Rightarrow> ('a, 'u, 'k) clause list" where
  "fact_clauses v = filter (\<lambda>c. states_fact c \<and> fst (hd (possibilities c)) = v)"

definition fact_of :: "('a, 'u, 'k) clause \<Rightarrow> ('a, 'u, 'k) assertion list" where
  "fact_of c = map snd (snd (hd (possibilities c)))"

definition assignments_ok ::
  "span option \<Rightarrow> ('a, 'u, 'k) clause list \<Rightarrow> bytes list \<Rightarrow> ('a, 'u, 'k) truths \<times> active_truths \<times> bytes list \<Rightarrow> bool" where
  "assignments_ok creating cs referenced st \<longleftrightarrow>
    (\<forall>v. map_of (fst st) v = (if fact_clauses v cs = [] then None else Some (map fact_of (fact_clauses v cs)))) \<and>
    (\<forall>v. set (unwrap_or (map_of (fst (snd st)) v) []) =
       {i. i < length (fact_clauses v cs) \<and> creating = Some (condition_span (fact_clauses v cs ! i))}) \<and>
    set (snd (snd st)) = set referenced \<union>
      {v. \<exists>c \<in> set cs. \<not> generated c \<and> v \<in> fst ` set (possibilities c) \<and> \<not> is_placeholder v}"

lemma assignment_step_eq:
  "assignment_step creating c (truths, active, ref) =
    (let v = fst (hd (possibilities c)); entry = unwrap_or (map_of truths v) [] in
     (if states_fact c then AList.update v (entry @ [fact_of c]) truths else truths,
      if states_fact c \<and> creating = Some (condition_span c)
      then AList.update v (length entry # unwrap_or (map_of active v) []) active else active,
      if generated c then ref else ref @ filter (\<lambda>v. \<not> is_placeholder v) (map fst (possibilities c))))"
  by (simp add: assignment_step_def states_fact_def fact_of_def split_beta Let_def)

lemma nth_append_last:
  "i < length (xs @ [x]) \<and> P ((xs @ [x]) ! i) \<longleftrightarrow> i < length xs \<and> P (xs ! i) \<or> i = length xs \<and> P x"
  by (auto simp: nth_append less_Suc_eq)

lemma assignment_step_ok:
  assumes "assignments_ok creating cs referenced st"
  shows "assignments_ok creating (cs @ [c]) referenced (assignment_step creating c st)"
proof -
  obtain truths active ref where st: "st = (truths, active, ref)" by (metis prod_cases3)
  let ?x = "fst (hd (possibilities c))"
  have truths: "map_of truths v = (if fact_clauses v cs = [] then None else Some (map fact_of (fact_clauses v cs)))" for v
    using assms by (simp add: assignments_ok_def st)
  have active: "set (unwrap_or (map_of active v) []) =
      {i. i < length (fact_clauses v cs) \<and> creating = Some (condition_span (fact_clauses v cs ! i))}" for v
    using assms by (simp add: assignments_ok_def st)
  have ref: "set ref = set referenced \<union>
      {v. \<exists>c \<in> set cs. \<not> generated c \<and> v \<in> fst ` set (possibilities c) \<and> \<not> is_placeholder v}"
    using assms by (simp add: assignments_ok_def st)
  have facts: "fact_clauses v (cs @ [c]) = fact_clauses v cs @ (if states_fact c \<and> v = ?x then [c] else [])" for v
    by (auto simp: fact_clauses_def)
  have entry: "unwrap_or (map_of truths ?x) [] = map fact_of (fact_clauses ?x cs)"
    by (simp add: truths)
  have 1: "map_of (if states_fact c then AList.update ?x (map fact_of (fact_clauses ?x cs) @ [fact_of c]) truths else truths) v =
      (if fact_clauses v (cs @ [c]) = [] then None else Some (map fact_of (fact_clauses v (cs @ [c]))))" for v
    unfolding facts by (simp add: update_conv' truths)
  have 2: "set (unwrap_or (map_of (if states_fact c \<and> creating = Some (condition_span c)
        then AList.update ?x (length (fact_clauses ?x cs) # unwrap_or (map_of active ?x) []) active else active) v) []) =
      {i. i < length (fact_clauses v (cs @ [c])) \<and> creating = Some (condition_span (fact_clauses v (cs @ [c]) ! i))}" for v
    unfolding facts
    using nth_append_last[of _ "fact_clauses v cs" c "\<lambda>c. creating = Some (condition_span c)"] active[of v]
    by (auto simp: update_conv')
  have 3: "set (if generated c then ref else ref @ filter (\<lambda>v. \<not> is_placeholder v) (map fst (possibilities c))) =
      set referenced \<union> {v. \<exists>c \<in> set (cs @ [c]). \<not> generated c \<and> v \<in> fst ` set (possibilities c) \<and> \<not> is_placeholder v}"
    by (auto simp: ref)
  show ?thesis
    unfolding st assignment_step_eq assignments_ok_def Let_def entry fst_conv snd_conv length_map
    using 1 2 3 by blast
qed

lemma assignment_fold: "assignments_ok creating cs referenced (find_satisfying_assignments cs creating referenced)"
  unfolding find_satisfying_assignments_def
proof (induction cs rule: rev_induct)
  case Nil
  then show ?case by (simp add: assignments_ok_def fact_clauses_def)
next
  case (snoc c cs)
  then show ?case using assignment_step_ok by simp
qed

text \<open>
  The facts found for a variable are, in order, the assertions of the reconcilable clauses about
  that variable alone; the active ones are those of the given condition, and the referenced
  variables those of clauses that were not generated. The facts hold wherever the formula does.
\<close>

theorem assignments_exact:
  assumes "find_satisfying_assignments cs creating referenced = (truths, active, ref)"
  shows "map_of truths v = (if fact_clauses v cs = [] then None else Some (map fact_of (fact_clauses v cs))) \<and>
    set (unwrap_or (map_of active v) []) =
       {i. i < length (fact_clauses v cs) \<and> creating = Some (condition_span (fact_clauses v cs ! i))} \<and>
    set ref = set referenced \<union>
      {v. \<exists>c \<in> set cs. \<not> generated c \<and> v \<in> fst ` set (possibilities c) \<and> \<not> is_placeholder v} \<and>
    (formula_holds val cs \<longrightarrow> set_holds (val v) (unwrap_or (map_of truths v) []))"
proof -
  note exact = assignment_fold[of creating cs referenced, unfolded assms assignments_ok_def fst_conv snd_conv]
  have truths: "map_of truths v = (if fact_clauses v cs = [] then None else Some (map fact_of (fact_clauses v cs)))"
    using exact by blast
  have fact: "\<exists>a \<in> set (fact_of c). val v a" if "c \<in> set (fact_clauses v cs)" "formula_holds val cs" for c
  proof -
    have c: "c \<in> set cs" "reconcilable c" "length (possibilities c) = 1" "fst (hd (possibilities c)) = v"
      using that(1) by (auto simp: fact_clauses_def states_fact_def)
    then obtain as where "possibilities c = [(v, as)]" by (cases "possibilities c") auto
    moreover have "clause_holds val c" using that(2) c by (simp add: formula_holds_def)
    ultimately show ?thesis by (force simp: fact_of_def alternatives_hold_def)
  qed
  have "formula_holds val cs \<longrightarrow> set_holds (val v) (unwrap_or (map_of truths v) [])"
    using truths fact by (simp add: set_holds_def)
  then show ?thesis using exact by blast
qed

theorem assignments_exact_witness:
  "set_holds plain (unwrap_or (map_of (fst (find_satisfying_assignments sample_formula None [])) (byte_string ''x'')) []) \<and>
   fst (find_satisfying_assignments sample_formula None []) = [(byte_string ''x'', [[Truthy]])]"
proof -
  obtain truths active ref where st: "find_satisfying_assignments sample_formula None [] = (truths, active, ref)"
    by (metis prod_cases3)
  have "formula_holds (\<lambda>_. plain) sample_formula" unfolding formula_holds_def by code_simp
  then have "set_holds plain (unwrap_or (map_of truths (byte_string ''x'')) [])"
    using assignments_exact[OF st, of "byte_string ''x''" "\<lambda>_. plain"] by blast
  moreover have "fst (find_satisfying_assignments sample_formula None []) = [(byte_string ''x'', [[Truthy]])]"
    by code_simp
  ultimately show ?thesis by (simp add: st)
qed

section \<open>Disjunction of formulas\<close>

lemma literals_append [simp]: "literals (cs @ ds) = literals cs \<union> literals ds"
  by (auto simp: literals_def)

lemma well_formed_within:
  assumes "\<forall>c \<in> set cs. possibilities_ok S (possibilities c)" "c \<in> set cs" "literals cs \<subseteq> A"
  shows "possibilities_within S A (possibilities c)"
  using assms assertions_of_literals[OF assms(2)] unfolding within_iff by auto

definition formula_ok :: "('a, 'u, 'k) setting \<Rightarrow> ('a, 'u, 'k) clause list \<Rightarrow> bool" where
  "formula_ok S cs \<longleftrightarrow> (\<forall>c \<in> set cs. possibilities_ok S (possibilities c)) \<and> wedges_empty cs"

lemma disjoin_pair_meaning:
  assumes "consistent val" "faithful S A"
    and "possibilities_within S A (possibilities l)" "possibilities_within S A (possibilities r)"
    and "wedge l \<longrightarrow> possibilities l = [] \<and> reconcilable l" "wedge r \<longrightarrow> possibilities r = [] \<and> reconcilable r"
    and "\<not> (wedge l \<and> wedge r)"
  shows "formula_holds val (disjoin_pair S object_id l r) \<longleftrightarrow>
    (reconcilable l \<and> reconcilable r \<longrightarrow> clause_holds val l \<or> clause_holds val r)"
proof (cases "wedge l \<or> wedge r")
  case True
  then show ?thesis using assms(5-7) by (auto simp: disjoin_pair_def formula_holds_def)
next
  case False
  have "\<forall>p \<in> set (possibilities r). alternatives_within S A (snd p)"
    using assms(4) by (simp add: possibilities_within_def)
  then have "possibilities_hold val (merge_possibilities (possibilities l) (possibilities r)) \<longleftrightarrow>
      clause_holds val l \<or> clause_holds val r"
    using merge_possibilities_meaning[OF assms(3) _ assms(2,1)] by blast
  then show ?thesis
    using False tautology_holds[OF _ assms(1)] by (auto simp: disjoin_pair_def formula_holds_def Let_def)
qed

lemma disjoin_wedges: "wedge l \<Longrightarrow> wedge r \<Longrightarrow> formula_holds val (disjoin_pair S object_id l r)"
  by (simp add: disjoin_pair_def formula_holds_def)

lemma formula_holds_Nil [simp]: "formula_holds val []"
  by (simp add: formula_holds_def)

lemma formula_holds_concat: "formula_holds val (concat css) \<longleftrightarrow> (\<forall>cs \<in> set css. formula_holds val cs)"
  by (auto simp: formula_holds_def)

text \<open>
  The disjunction of two nonempty formulas holds where one of them holds, for all thresholds;
  within the threshold, for reconcilable clauses with wedges on one side at most, it holds nowhere
  else. An empty side is dropped: the disjunction with a formula that always holds is the other one.
\<close>

theorem disjunction_meaning:
  assumes "consistent val" "formula_ok S left" "formula_ok S right" "faithful S (literals (left @ right))"
  shows "(left \<noteq> [] \<and> right \<noteq> [] \<and> (formula_holds val left \<or> formula_holds val right) \<longrightarrow>
      formula_holds val (disjoin_clauses S left right object_id t)) \<and>
    (left \<noteq> [] \<and> right \<noteq> [] \<and>
      length left \<le> unat (disjunction_complexity t) \<and> length right \<le> unat (disjunction_complexity t) \<and>
      (\<forall>c \<in> set (left @ right). reconcilable c) \<and> (\<forall>l \<in> set left. \<forall>r \<in> set right. \<not> (wedge l \<and> wedge r)) \<and>
      formula_holds val (disjoin_clauses S left right object_id t) \<longrightarrow>
      formula_holds val left \<or> formula_holds val right) \<and>
    disjoin_clauses S [] right object_id t = right \<and> disjoin_clauses S left [] object_id t = left"
proof -
  have pair: "formula_holds val (disjoin_pair S object_id l r) \<longleftrightarrow>
      (reconcilable l \<and> reconcilable r \<longrightarrow> clause_holds val l \<or> clause_holds val r)"
    if "l \<in> set left" "r \<in> set right" "\<not> (wedge l \<and> wedge r)" for l r
    using that assms
    by (intro disjoin_pair_meaning[OF assms(1,4)])
       (auto simp: formula_ok_def wedges_empty_def intro: well_formed_within)
  have sound: "formula_holds val (disjoin_clauses S left right object_id t)"
    if sides: "left \<noteq> []" "right \<noteq> []" "formula_holds val left \<or> formula_holds val right"
  proof -
    have "formula_holds val (disjoin_pair S object_id l r)" if lr: "l \<in> set left" "r \<in> set right" for l r
    proof (cases "wedge l \<and> wedge r")
      case True
      then show ?thesis by (simp add: disjoin_wedges)
    next
      case False
      then show ?thesis using pair[OF lr False] lr sides(3) by (auto simp: formula_holds_def)
    qed
    then show ?thesis using sides(1,2) by (auto simp: disjoin_clauses_def formula_holds_concat)
  qed
  have exact: "formula_holds val left \<or> formula_holds val right"
    if sides: "left \<noteq> []" "right \<noteq> []"
      and len: "length left \<le> unat (disjunction_complexity t)" "length right \<le> unat (disjunction_complexity t)"
      and rec: "\<forall>c \<in> set (left @ right). reconcilable c"
      and wedges: "\<forall>l \<in> set left. \<forall>r \<in> set right. \<not> (wedge l \<and> wedge r)"
      and holds: "formula_holds val (disjoin_clauses S left right object_id t)"
  proof -
    have "clause_holds val l \<or> clause_holds val r" if lr: "l \<in> set left" "r \<in> set right" for l r
    proof -
      have "formula_holds val (disjoin_pair S object_id l r)"
        using holds sides len lr by (simp add: disjoin_clauses_def formula_holds_concat)
      then show ?thesis using pair[OF lr] wedges rec lr by auto
    qed
    then show ?thesis by (auto simp: formula_holds_def)
  qed
  show ?thesis using sound exact by (simp add: disjoin_clauses_def)
qed

theorem disjunction_meaning_witness:
  "formula_holds (\<lambda>_. plain) (disjoin_clauses sample_setting sample_formula
     [sample_clause [(''x'', Falsy)]] (span_dummy 0 1) default_thresholds)"
proof -
  have "formula_ok sample_setting sample_formula" "formula_ok sample_setting [sample_clause [(''x'', Falsy)]]"
    "faithful sample_setting (literals (sample_formula @ [sample_clause [(''x'', Falsy)]]))"
    "formula_holds (\<lambda>_. plain) sample_formula" "sample_formula \<noteq> []"
    unfolding formula_ok_def wedges_empty_def possibilities_ok_def faithful_def formula_holds_def by code_simp+
  then show ?thesis using disjunction_meaning[OF consistent_plain] by blast
qed

section \<open>Negation of formulas\<close>

definition literal_pairs :: "('a, 'u, 'k) clause \<Rightarrow> (bytes \<times> ('a, 'u, 'k) assertion) set" where
  "literal_pairs c = (\<Union>(v, as) \<in> set (possibilities c). (\<lambda>p. (v, snd p)) ` set as)"

lemma literal_pairs_iff: "(v, a) \<in> literal_pairs c \<longleftrightarrow> (\<exists>as h. (v, as) \<in> set (possibilities c) \<and> (h, a) \<in> set as)"
  by (force simp: literal_pairs_def)

lemma clause_holds_pairs: "clause_holds val c \<longleftrightarrow> (\<exists>v a. (v, a) \<in> literal_pairs c \<and> val v a)"
  unfolding literal_pairs_iff by (metis possibilities_holdE possibilities_holdI)

lemma literal_pairs_literals: "(v, a) \<in> literal_pairs c \<Longrightarrow> c \<in> set cs \<Longrightarrow> a \<in> literals cs"
  by (force simp: literal_pairs_def literals_def assertions_of_def)

text \<open>The new clauses extend an old one by one negated literal of the clause.\<close>

lemma clause_negations_member:
  "(v, ns) \<in> set (clause_negations S c) \<Longrightarrow> (h, n) \<in> set ns \<Longrightarrow>
     \<exists>a. (v, a) \<in> literal_pairs c \<and> n = get_negation a \<and> h = literal_hash S n"
  by (force simp: clause_negations_def literal_pairs_def)

lemma clause_negations_all:
  assumes "(v, a) \<in> literal_pairs c"
  shows "\<exists>ns. (v, ns) \<in> set (clause_negations S c) \<and> (literal_hash S (get_negation a), get_negation a) \<in> set ns"
  using assms by (force simp: clause_negations_def literal_pairs_def)

definition extensions ::
  "('a, 'u, 'k) setting \<Rightarrow> ('a, 'u, 'k) clause \<Rightarrow> ('a, 'u, 'k) clause \<Rightarrow> ('a, 'u, 'k) possibilities
     \<Rightarrow> ('a, 'u, 'k) clause set" where
  "extensions S c g ps = (\<Union>(v, ns) \<in> set ps. (\<lambda>(h, n). extended_clause S c g v h n) ` set ns)"

lemma extensions_simps [simp]:
  "extensions S c g [] = {}"
  "extensions S c g ((v, ns) # ps) = (\<lambda>(h, n). extended_clause S c g v h n) ` set ns \<union> extensions S c g ps"
  by (simp_all add: extensions_def)

lemma extend_negations_out:
  "extend_negations S m c g v ns st = Some st' \<Longrightarrow>
     set (snd st) \<subseteq> set (snd st') \<and> set (snd st') \<subseteq> set (snd st) \<union> (\<lambda>(h, n). extended_clause S c g v h n) ` set ns"
proof (induction S m c g v ns st rule: extend_negations.induct)
  case (2 S m c g v h n ns complexity out)
  show ?case
  proof (cases "case map_of (possibilities g) v of Some as \<Rightarrow> list_ex (\<lambda>(_, a). is_negation_of a n) as | None \<Rightarrow> False")
    case True
    then have "snd st' = out" using "2.prems" by (simp split: if_splits) auto
    then show ?thesis by auto
  next
    case False
    have "\<not> Suc complexity > m" using "2.prems" by (auto split: if_splits)
    then show ?thesis using "2.prems" "2.IH"[OF _ False] False by auto
  qed
qed simp

lemma extend_variables_out:
  "extend_variables S m c g ps st = Some st' \<Longrightarrow>
     set (snd st) \<subseteq> set (snd st') \<and> set (snd st') \<subseteq> set (snd st) \<union> extensions S c g ps"
proof (induction ps arbitrary: st)
  case (Cons p ps)
  obtain v ns where p: "p = (v, ns)" by fastforce
  obtain st1 where st1: "extend_negations S m c g v ns st = Some st1" "extend_variables S m c g ps st1 = Some st'"
    using Cons.prems p by (auto split: option.splits)
  show ?case using extend_negations_out[OF st1(1)] Cons.IH[OF st1(2)] unfolding p extensions_simps by blast
qed simp

lemma extend_groups_out:
  "extend_groups S m c gs st = Some st' \<Longrightarrow>
     set (snd st) \<subseteq> set (snd st') \<and>
     set (snd st') \<subseteq> set (snd st) \<union> (\<Union>g \<in> set gs. extensions S c g (clause_negations S c))"
proof (induction gs arbitrary: st)
  case (Cons g gs)
  obtain st1 where st1: "extend_variables S m c g (clause_negations S c) st = Some st1" "extend_groups S m c gs st1 = Some st'"
    using Cons.prems by (auto split: option.splits)
  have "set (snd st) \<subseteq> set (snd st1)" "set (snd st1) \<subseteq> set (snd st) \<union> extensions S c g (clause_negations S c)"
    using extend_variables_out[OF st1(1)] by blast+
  then show ?case using Cons.IH[OF st1(2)] by auto
qed simp

definition makes_tautology :: "('a, 'u, 'k) clause \<Rightarrow> bytes \<Rightarrow> ('a, 'u, 'k) assertion \<Rightarrow> bool" where
  "makes_tautology g v n \<longleftrightarrow> (case map_of (possibilities g) v of
     Some as \<Rightarrow> list_ex (\<lambda>(_, a). is_negation_of a n) as | None \<Rightarrow> False)"

lemma extend_negations_all:
  "extend_negations S m c g v ns st = Some st' \<Longrightarrow> \<forall>(h, n) \<in> set ns. \<not> makes_tautology g v n \<Longrightarrow>
     (\<lambda>(h, n). extended_clause S c g v h n) ` set ns \<subseteq> set (snd st')"
proof (induction S m c g v ns st rule: extend_negations.induct)
  case (2 S m c g v h n ns complexity out)
  have free: "\<not> (case map_of (possibilities g) v of Some as \<Rightarrow> list_ex (\<lambda>(_, a). is_negation_of a n) as | None \<Rightarrow> False)"
    using "2.prems"(2) by (simp add: makes_tautology_def)
  have small: "\<not> Suc complexity > m" using "2.prems"(1) by (auto split: if_splits)
  have step: "extend_negations S m c g v ns (Suc complexity, out @ [extended_clause S c g v h n]) = Some st'"
    using "2.prems"(1) free small by simp
  show ?case
    using "2.IH"[OF small free step] "2.prems"(2) extend_negations_out[OF step] by auto
qed simp

lemma extend_variables_all:
  "extend_variables S m c g ps st = Some st' \<Longrightarrow> \<forall>(v, ns) \<in> set ps. \<forall>(h, n) \<in> set ns. \<not> makes_tautology g v n \<Longrightarrow>
     extensions S c g ps \<subseteq> set (snd st')"
proof (induction ps arbitrary: st)
  case (Cons p ps)
  obtain v ns where p: "p = (v, ns)" by fastforce
  obtain st1 where st1: "extend_negations S m c g v ns st = Some st1" "extend_variables S m c g ps st1 = Some st'"
    using Cons.prems p by (auto split: option.splits)
  have "(\<lambda>(h, n). extended_clause S c g v h n) ` set ns \<subseteq> set (snd st1)"
    using extend_negations_all[OF st1(1)] Cons.prems(2) p by simp
  moreover have "extensions S c g ps \<subseteq> set (snd st')"
    using Cons.IH[OF st1(2)] Cons.prems(2) by simp
  ultimately show ?case using extend_variables_out[OF st1(2)] unfolding p extensions_simps by blast
qed simp

lemma extend_groups_all:
  "extend_groups S m c gs st = Some st' \<Longrightarrow>
     \<forall>g \<in> set gs. \<forall>(v, ns) \<in> set (clause_negations S c). \<forall>(h, n) \<in> set ns. \<not> makes_tautology g v n \<Longrightarrow>
     (\<Union>g \<in> set gs. extensions S c g (clause_negations S c)) \<subseteq> set (snd st')"
proof (induction gs arbitrary: st)
  case (Cons g gs)
  obtain st1 where st1: "extend_variables S m c g (clause_negations S c) st = Some st1" "extend_groups S m c gs st1 = Some st'"
    using Cons.prems by (auto split: option.splits)
  have "extensions S c g (clause_negations S c) \<subseteq> set (snd st1)"
    using extend_variables_all[OF st1(1)] Cons.prems(2) by simp
  moreover have "(\<Union>g \<in> set gs. extensions S c g (clause_negations S c)) \<subseteq> set (snd st')"
    using Cons.IH[OF st1(2)] Cons.prems(2) by simp
  ultimately show ?case using extend_groups_out[OF st1(2)] by auto
qed simp

text \<open>No two negated literals of one variable are opposites.\<close>

definition no_opposites :: "('a, 'u, 'k) clause list \<Rightarrow> bool" where
  "no_opposites cs \<longleftrightarrow> (\<forall>c \<in> set cs. \<forall>d \<in> set cs. \<forall>(v, a) \<in> literal_pairs c. \<forall>(w, b) \<in> literal_pairs d.
     v = w \<longrightarrow> \<not> is_negation_of (get_negation a) (get_negation b))"

definition groups_ok ::
  "('a, 'u, 'k) setting \<Rightarrow> ('a, 'u, 'k) valuation \<Rightarrow> ('a, 'u, 'k) clause list \<Rightarrow> ('a, 'u, 'k) clause set
     \<Rightarrow> ('a, 'u, 'k) clause set \<Rightarrow> bool" where
  "groups_ok S val cs done_clauses seeds \<longleftrightarrow>
     (\<forall>g \<in> seeds. binding g \<and> possibilities_within S (get_negation ` literals cs) (possibilities g) \<and>
        (\<forall>(v, b) \<in> literal_pairs g. \<exists>c \<in> set cs. \<exists>a. (v, a) \<in> literal_pairs c \<and> b = get_negation a)) \<and>
     ((\<exists>c \<in> done_clauses. \<not> clause_holds val c) \<longrightarrow> (\<forall>g \<in> seeds. clause_holds val g)) \<and>
     (no_opposites cs \<and> (\<forall>c \<in> done_clauses. clause_holds val c) \<longrightarrow> (\<exists>g \<in> seeds. \<not> clause_holds val g))"

lemma literal_pairs_extended:
  assumes "(u, b) \<in> literal_pairs (extended_clause S c g v h n)"
  shows "(u, b) \<in> insert (v, n) (literal_pairs g)"
proof -
  obtain bs k where bs: "(u, bs) \<in> set (insert_literal v h n (possibilities g))" "(k, b) \<in> set bs"
    using assms by (auto simp: literal_pairs_iff extended_clause_def)
  have "(u, bs) = (v, AList.update h n (unwrap_or (map_of (possibilities g) v) [])) \<or> (u, bs) \<in> set (possibilities g)"
    using set_updateD[OF bs(1)[unfolded insert_literal_def]] .
  then show ?thesis
  proof
    assume new: "(u, bs) = (v, AList.update h n (unwrap_or (map_of (possibilities g) v) []))"
    then have "(k, b) = (h, n) \<or> (k, b) \<in> set (unwrap_or (map_of (possibilities g) v) [])"
      using set_updateD[of "(k, b)" h n] bs(2) by blast
    then show ?thesis
      using new by (cases "map_of (possibilities g) v") (auto simp: literal_pairs_iff dest!: map_of_SomeD)
  next
    assume "(u, bs) \<in> set (possibilities g)"
    then show ?thesis using bs(2) by (auto simp: literal_pairs_iff)
  qed
qed

lemma binding_extended: "binding (extended_clause S c g v h n)"
  by (simp add: binding_def extended_clause_def)

lemma negation_value:
  "consistent val \<Longrightarrow> invertible a \<Longrightarrow> val v (get_negation a) = (\<not> val v a)"
  by (rule consistent_negation_iff)

lemma groups_extend:
  assumes val: "consistent val" and inv: "\<forall>a \<in> literals cs. invertible a" and faithful: "faithful S (literals cs)"
    and c: "c \<in> set cs" and ok: "groups_ok S val cs done_clauses (set seeds)"
    and step: "extend_groups S m c seeds (k, []) = Some (k', out)"
  shows "groups_ok S val cs (insert c done_clauses) (set out)"
proof -
  let ?N = "get_negation ` literals cs"
  have N: "faithful S ?N" using faithful_mono[OF faithful universe_negation] .
  have member: "\<exists>g v a. g \<in> set seeds \<and> (v, a) \<in> literal_pairs c \<and>
      e = extended_clause S c g v (literal_hash S (get_negation a)) (get_negation a)" if "e \<in> set out" for e
  proof -
    obtain g where g: "g \<in> set seeds" "e \<in> extensions S c g (clause_negations S c)"
      using extend_groups_out[OF step] \<open>e \<in> set out\<close> by auto
    then obtain v ns h n where "(v, ns) \<in> set (clause_negations S c)" "(h, n) \<in> set ns" "e = extended_clause S c g v h n"
      by (auto simp: extensions_def)
    then show ?thesis using clause_negations_member[of v ns S c h n] g(1) by blast
  qed
  have extended: "(clause_holds val (extended_clause S c g v (literal_hash S (get_negation a)) (get_negation a)) \<longleftrightarrow>
        clause_holds val g \<or> \<not> val v a) \<and>
      possibilities_within S ?N (possibilities (extended_clause S c g v (literal_hash S (get_negation a)) (get_negation a)))"
    if g: "g \<in> set seeds" and a: "(v, a) \<in> literal_pairs c" for g v a
  proof -
    have lit: "a \<in> literals cs" using literal_pairs_literals[OF a c] .
    have "possibilities_within S ?N (possibilities g)" using ok g by (auto simp: groups_ok_def)
    note meaning = insert_literal_meaning[OF this N val _ refl, of "get_negation a" v]
    show ?thesis using meaning lit consistent_negation_iff[OF val] inv by (simp add: extended_clause_def)
  qed
  have pairs: "\<exists>d \<in> set cs. \<exists>a. (u, a) \<in> literal_pairs d \<and> b = get_negation a" if e: "e \<in> set out" and b: "(u, b) \<in> literal_pairs e" for e u b
  proof -
    obtain g v a where g: "g \<in> set seeds" "(v, a) \<in> literal_pairs c"
        "e = extended_clause S c g v (literal_hash S (get_negation a)) (get_negation a)" using member[OF e] by blast
    have "(u, b) = (v, get_negation a) \<or> (u, b) \<in> literal_pairs g"
      using literal_pairs_extended b unfolding g(3) by blast
    then show ?thesis using ok g(1,2) c unfolding groups_ok_def by blast
  qed
  have sound: "clause_holds val e" if e: "e \<in> set out" and fails: "\<not> clause_holds val d" "d \<in> insert c done_clauses" for e d
  proof -
    obtain g v a where g: "g \<in> set seeds" "(v, a) \<in> literal_pairs c"
        "e = extended_clause S c g v (literal_hash S (get_negation a)) (get_negation a)" using member[OF e] by blast
    show ?thesis
    proof (cases "d = c")
      case True
      then have "\<not> val v a" using fails(1) g(2) by (auto simp: clause_holds_pairs)
      then show ?thesis using extended[OF g(1,2)] g(3) by simp
    next
      case False
      then have "clause_holds val g" using ok fails g(1) unfolding groups_ok_def by blast
      then show ?thesis using extended[OF g(1,2)] g(3) by simp
    qed
  qed
  have exact: "\<exists>e \<in> set out. \<not> clause_holds val e"
    if opp: "no_opposites cs" and all: "\<forall>d \<in> insert c done_clauses. clause_holds val d"
  proof -
    obtain g where g: "g \<in> set seeds" "\<not> clause_holds val g" using ok opp all unfolding groups_ok_def by blast
    obtain v a where a: "(v, a) \<in> literal_pairs c" "val v a" using all by (auto simp: clause_holds_pairs)
    have "\<not> makes_tautology h w n"
      if h: "h \<in> set seeds" and n: "(w, ns) \<in> set (clause_negations S c)" "(k, n) \<in> set ns" for h w ns k n
    proof
      assume "makes_tautology h w n"
      then obtain as j b where b: "map_of (possibilities h) w = Some as" "(j, b) \<in> set as" "is_negation_of b n"
        by (auto simp: makes_tautology_def list_ex_iff split: option.splits)
      then have "(w, b) \<in> literal_pairs h" by (auto simp: literal_pairs_iff dest: map_of_SomeD)
      then obtain d x where "d \<in> set cs" "(w, x) \<in> literal_pairs d" "b = get_negation x"
        using ok h unfolding groups_ok_def by blast
      moreover obtain y where "(w, y) \<in> literal_pairs c" "n = get_negation y"
        using clause_negations_member[OF n] by blast
      ultimately show False using opp c b(3) unfolding no_opposites_def by blast
    qed
    then have "extensions S c g (clause_negations S c) \<subseteq> set out"
      using extend_groups_all[OF step] g(1) by fastforce
    moreover obtain ns where "(v, ns) \<in> set (clause_negations S c)"
        "(literal_hash S (get_negation a), get_negation a) \<in> set ns"
      using clause_negations_all[OF a(1)] by blast
    ultimately have "extended_clause S c g v (literal_hash S (get_negation a)) (get_negation a) \<in> set out"
      by (force simp: extensions_def)
    then show ?thesis using extended[OF g(1) a(1)] g(2) a(2) by blast
  qed
  show ?thesis
    unfolding groups_ok_def
  proof (intro conjI ballI impI)
    fix e assume e: "e \<in> set out"
    then show "binding e" using member binding_extended by blast
    show "possibilities_within S ?N (possibilities e)" using member[OF e] extended by blast
    show "case p of (v, b) \<Rightarrow> \<exists>c \<in> set cs. \<exists>a. (v, a) \<in> literal_pairs c \<and> b = get_negation a"
      if "p \<in> literal_pairs e" for p using pairs[OF e] that by (cases p) blast
  next
    fix e assume "\<exists>c \<in> insert c done_clauses. \<not> clause_holds val c" "e \<in> set out"
    then show "clause_holds val e" using sound by blast
  next
    assume "no_opposites cs \<and> (\<forall>c \<in> insert c done_clauses. clause_holds val c)"
    then show "\<exists>g \<in> set out. \<not> clause_holds val g" using exact by blast
  qed
qed

lemma seed_clauses_pairs:
  "g \<in> set (seed_clauses S c) \<Longrightarrow> \<exists>v a. (v, a) \<in> literal_pairs c \<and> binding g \<and>
     possibilities g = [(v, [(literal_hash S (get_negation a), get_negation a)])]"
  by (force simp: seed_clauses_def literal_pairs_iff binding_def)

lemma seed_clauses_all:
  "(v, a) \<in> literal_pairs c \<Longrightarrow> \<exists>g \<in> set (seed_clauses S c).
     possibilities g = [(v, [(literal_hash S (get_negation a), get_negation a)])]"
  by (force simp: seed_clauses_def literal_pairs_iff)

lemma groups_seed:
  assumes val: "consistent val" and inv: "\<forall>a \<in> literals cs. invertible a" and c: "c \<in> set cs"
  shows "groups_ok S val cs {c} (set (seed_clauses S c))"
  unfolding groups_ok_def
proof (intro conjI ballI impI)
  fix g assume "g \<in> set (seed_clauses S c)"
  then obtain v a where a: "(v, a) \<in> literal_pairs c" "binding g"
      "possibilities g = [(v, [(literal_hash S (get_negation a), get_negation a)])]"
    using seed_clauses_pairs by blast
  show "binding g" by (rule a(2))
  show "possibilities_within S (get_negation ` literals cs) (possibilities g)"
    using literal_pairs_literals[OF a(1) c] by (simp add: a(3) possibilities_within_def alternatives_within_def)
  show "case p of (v, b) \<Rightarrow> \<exists>c \<in> set cs. \<exists>a. (v, a) \<in> literal_pairs c \<and> b = get_negation a"
    if "p \<in> literal_pairs g" for p
  proof -
    have "p = (v, get_negation a)" using that by (auto simp: literal_pairs_def a(3))
    then show ?thesis using a(1) c by blast
  qed
next
  fix g assume fails: "\<exists>d \<in> {c}. \<not> clause_holds val d" "g \<in> set (seed_clauses S c)"
  then obtain v a where a: "(v, a) \<in> literal_pairs c"
      "possibilities g = [(v, [(literal_hash S (get_negation a), get_negation a)])]"
    using seed_clauses_pairs by blast
  then have "\<not> val v a" using fails(1) by (auto simp: clause_holds_pairs)
  then show "clause_holds val g" using consistent_negation[OF val] by (simp add: a(2))
next
  assume "no_opposites cs \<and> (\<forall>d \<in> {c}. clause_holds val d)"
  then obtain v a where a: "(v, a) \<in> literal_pairs c" "val v a" by (auto simp: clause_holds_pairs)
  then obtain g where "g \<in> set (seed_clauses S c)"
      "possibilities g = [(v, [(literal_hash S (get_negation a), get_negation a)])]"
    using seed_clauses_all by blast
  moreover have "invertible a" using literal_pairs_literals[OF a(1) c] inv by blast
  ultimately show "\<exists>g \<in> set (seed_clauses S c). \<not> clause_holds val g"
    using consistent_negation_iff[OF val] a(2) by (intro bexI[of _ g]) auto
qed

lemma group_loop_ok:
  assumes val: "consistent val" and inv: "\<forall>a \<in> literals cs. invertible a" and faithful: "faithful S (literals cs)"
    and ok: "groups_ok S val cs done_clauses (set seeds)" and cs: "set popped \<subseteq> set cs"
    and loop: "group_loop S m popped (k, seeds) = Some out"
  shows "groups_ok S val cs (set popped \<union> done_clauses) (set out)"
  using ok cs loop
proof (induction popped arbitrary: k seeds done_clauses)
  case (Cons c popped)
  obtain k' seeds' where st: "extend_groups S m c seeds (k, []) = Some (k', seeds')"
      "group_loop S m popped (k', seeds') = Some out"
    using Cons.prems(3) by (auto split: option.splits)
  have step: "groups_ok S val cs (insert c done_clauses) (set seeds')"
    using groups_extend[OF val inv faithful _ Cons.prems(1) st(1)] Cons.prems(2) by simp
  show ?case
    using Cons.IH[OF step _ st(2)] Cons.prems(2) by simp
qed auto

lemma groups_empty: "groups_ok S val cs D {} \<Longrightarrow> D \<subseteq> E \<Longrightarrow> groups_ok S val cs E {}"
  unfolding groups_ok_def by blast

lemma group_impossibilities_ok:
  assumes val: "consistent val" and inv: "\<forall>a \<in> literals cs. invertible a" and faithful: "faithful S (literals cs)"
    and wedges: "wedges_empty cs" and some: "group_impossibilities S cs m = Some out"
    and ne: "cs \<noteq> []"
  shows "groups_ok S val cs (set cs) (set out)"
proof -
  obtain c popped where rev: "rev cs = c # popped" using ne by (metis list.exhaust rev_is_Nil_conv)
  have set: "set cs = insert c (set popped)" using rev by (metis list.simps(15) set_rev)
  define seeds where "seeds = (if wedge c then [] else seed_clauses S c)"
  have seeds: "seeds = seed_clauses S c"
    using wedges set by (auto simp: seeds_def wedges_empty_def seed_clauses_def)
  have ok: "groups_ok S val cs {c} (set seeds)"
    unfolding seeds using groups_seed[OF val inv] set by blast
  have out: "(popped = [] \<or> seeds = []) \<and> out = seeds \<or> group_loop S m popped (1, seeds) = Some out"
    using some rev by (auto simp: group_impossibilities_def seeds_def Let_def split: if_splits)
  show ?thesis
  proof (cases "group_loop S m popped (1, seeds) = Some out")
    case True
    then show ?thesis using group_loop_ok[OF val inv faithful ok _ True] set by (auto simp: Un_commute)
  next
    case False
    then have o: "popped = [] \<or> seeds = []" "out = seeds" using out by auto
    show ?thesis
    proof (cases "popped = []")
      case True
      then show ?thesis using ok o set by simp
    next
      case False
      then have "seeds = []" using o by simp
      moreover have "groups_ok S val cs (set cs) {}"
        using groups_empty[of S val cs "{c}" "set cs"] ok \<open>seeds = []\<close> set by simp
      ultimately show ?thesis using o by simp
    qed
  qed
qed


lemma group_impossibilities_not_Nil: "group_impossibilities S [] m = Some []"
  by (simp add: group_impossibilities_def)

lemma literals_of_groups:
  assumes "groups_ok S val cs D (set out)"
  shows "literals out \<subseteq> get_negation ` literals cs" "\<forall>g \<in> set out. possibilities_ok S (possibilities g) \<and> binding g"
  using assms unfolding groups_ok_def within_iff by (auto simp: literals_def)

lemma invertible_get_negation: "invertible a \<Longrightarrow> get_negation a \<noteq> Any"
  by (simp add: invertible_def)

text \<open>
  C33. For well-formed clauses whose assertions have opposites and are negatable, with wedges empty
  and the hashes of assertions faithful, the computed negation of a formula holds wherever a
  reconcilable clause of the formula fails. Before it is simplified, when the formula has clauses to
  negate and no two negated literals of one variable are opposites, it holds nowhere else.
\<close>

theorem negation_meaning:
  assumes "consistent val" "\<forall>a \<in> literals cs. invertible a \<and> is_negatable a"
    and "\<forall>c \<in> set cs. possibilities_ok S (possibilities c)" "faithful S (literals cs)" "wedges_empty cs"
  shows "(negate_formula S cs t = Some ds \<and> \<not> formula_holds val cs \<longrightarrow> models val ds) \<and>
    (group_impossibilities S (negatable_clauses cs) m = Some ds \<and> no_opposites cs \<and>
      negatable_clauses cs \<noteq> [] \<longrightarrow> models val ds = (\<not> formula_holds val cs))"
proof -
  let ?k = "negatable_clauses cs"
  have kept: "set ?k = {c \<in> set cs. reconcilable c}"
    using assms(2) by (auto simp: negatable_clauses_def list_all_iff literals_def assertions_of_def split: prod.splits) force
  have fails: "\<not> formula_holds val cs \<longleftrightarrow> (\<exists>c \<in> set ?k. \<not> clause_holds val c)"
    unfolding kept by (auto simp: formula_holds_def)
  have lits: "literals ?k \<subseteq> literals cs" by (auto simp: literals_def kept)
  have faithful: "faithful S (literals ?k)" using assms(4) universe_mono[OF lits] by (rule faithful_mono)
  have ok: "groups_ok S val ?k (set ?k) (set out)" if "group_impossibilities S ?k n = Some out" "?k \<noteq> []" for n out
    by (rule group_impossibilities_ok[OF assms(1) _ faithful _ that])
       (use assms(2,5) lits kept in \<open>auto simp: wedges_empty_def\<close>)
  have sound: "models val ds" if neg: "negate_formula S cs t = Some ds" and fail: "\<not> formula_holds val cs"
  proof (cases "ds = []")
    case False
    then obtain out where out: "group_impossibilities S ?k (unat (negation_complexity t)) = Some out"
        "?k \<noteq> []" "ds = saturate_clauses S out t"
      using neg by (auto simp: negate_formula_def split: if_splits option.splits)
    note groups = ok[OF out(1,2)]
    have "well_formed S out"
    proof -
      have "faithful S (literals out)"
        using faithful_mono[OF faithful_mono[OF faithful universe_negation] universe_mono] literals_of_groups(1)[OF groups] by blast
      moreover have "Any \<notin> literals out"
      proof
        assume "Any \<in> literals out"
        then obtain a where "a \<in> literals cs" "get_negation a = Any"
          using literals_of_groups(1)[OF groups] lits by (metis imageE subsetD)
        then show False using assms(2) by (auto simp: invertible_def)
      qed
      ultimately show ?thesis using literals_of_groups(2)[OF groups] by (simp add: well_formed_def)
    qed
    moreover have "models val out"
      using groups fail fails by (auto simp: groups_ok_def models_def)
    ultimately show ?thesis unfolding out(3) using saturation_sound assms(1) by blast
  qed (simp add: models_def)
  have exact: "models val ds = (\<not> formula_holds val cs)"
    if "group_impossibilities S ?k m = Some ds" "no_opposites cs" "?k \<noteq> []"
  proof -
    note groups = ok[OF that(1,3)]
    have "no_opposites ?k" using that(2) unfolding no_opposites_def kept by blast
    then show ?thesis
      using groups fails literals_of_groups(2)[OF groups] unfolding groups_ok_def models_def by blast
  qed
  show ?thesis using sound exact by blast
qed

theorem negation_meaning_witness:
  "models (\<lambda>_. plain) (the (negate_formula sample_setting [sample_clause [(''x'', Falsy), (''y'', Falsy)]] default_thresholds)) \<and>
   map possibilities (the (negate_formula sample_setting [sample_clause [(''x'', Falsy), (''y'', Falsy)]] default_thresholds)) =
     map possibilities [sample_clause [(''x'', Truthy)], sample_clause [(''y'', Truthy)]]"
proof -
  let ?cs = "[sample_clause [(''x'', Falsy), (''y'', Falsy)]]"
  have ok: "\<forall>a \<in> literals ?cs. invertible a \<and> is_negatable a"
    "\<forall>c \<in> set ?cs. possibilities_ok sample_setting (possibilities c)" "faithful sample_setting (literals ?cs)"
    "wedges_empty ?cs" "\<not> formula_holds (\<lambda>_. plain) ?cs"
    unfolding invertible_def wedges_empty_def possibilities_ok_def faithful_def formula_holds_def by code_simp+
  have result: "map_option (map possibilities) (negate_formula sample_setting ?cs default_thresholds) =
      Some (map possibilities [sample_clause [(''x'', Truthy)], sample_clause [(''y'', Truthy)]])"
    by code_simp
  then obtain ds where ds: "negate_formula sample_setting ?cs default_thresholds = Some ds" by auto
  then have "models (\<lambda>_. plain) ds" using negation_meaning[OF consistent_plain ok(1-4)] ok(5) by blast
  then show ?thesis using result ds by simp
qed

definition alternatives_clause :: "(bytes, unit, unit) assertion list \<Rightarrow> (bytes, unit, unit) clause" where
  "alternatives_clause as = clause_new sample_setting
     [(byte_string ''x'', map (\<lambda>a. (literal_hash sample_setting a, a)) as)] (span_dummy 0 1) (span_dummy 0 1) None None None"

text \<open>
  The negation of a formula depends on the order of the alternatives of a clause: where a negated
  literal would make a tautology with one already chosen, the remaining alternatives of the variable
  are skipped as well. Negating (x is falsy or a string) and (x is truthy) gives nothing, while with
  the alternatives swapped it gives the clause (x is falsy or not a string), which is what the
  negation means. Two wedges also have no disjunction.
\<close>

theorem negation_depends_on_order:
  "let string = IsType (byte_string ''string'') in
   negate_formula sample_setting [alternatives_clause [Falsy, string], alternatives_clause [Truthy]] default_thresholds = Some [] \<and>
   map_option (map possibilities)
     (negate_formula sample_setting [alternatives_clause [string, Falsy], alternatives_clause [Truthy]] default_thresholds) =
     Some [possibilities (alternatives_clause [Falsy, get_negation string])] \<and>
   disjoin_clauses sample_setting
     [clause_new sample_setting [] (span_dummy 0 1) (span_dummy 0 1) (Some True) None None]
     [clause_new sample_setting [] (span_dummy 0 1) (span_dummy 0 1) (Some True) None None]
     (span_dummy 0 1) default_thresholds = []"
  by code_simp+

end
