(* ===== verification/Signature_Diff.thy ===== *)
theory Signature_Diff
  imports Mago_Prelude "HOL-Library.Monad_Syntax"
begin

text \<open>
  The difference of two versions of a codebase (crate \<open>codex\<close>, \<open>signature.rs\<close>, \<open>differ.rs\<close>,
  \<open>diff.rs\<close>): the signature nodes of a file, the search of the shortest edit script after
  Myers, the script read back from its trace, and the sets of kept and changed symbols that
  incremental analysis starts from.

  A \<open>Word\<close> is its bytes. A hash set is the list of its elements without repetition, in the
  order an iteration visits them. Index and subtraction panics are \<open>None\<close>; an \<open>isize\<close> is an
  integer, since every position is bounded by the lengths of the two node lists.
\<close>

section \<open>Signatures\<close>

type_synonym symbol_identifier = "bytes \<times> bytes"
type_synonym 'a hash_set = "'a list"

abbreviation empty_word :: bytes where "empty_word \<equiv> []"

datatype def_signature_node =
  Def_Signature_Node (node_name: bytes) (node_is_function: bool)
    (node_children: "def_signature_node list") (node_hash: u64) (signature_hash: u64)

definition def_signature_node_new :: "bytes \<Rightarrow> bool \<Rightarrow> u64 \<Rightarrow> u64 \<Rightarrow> def_signature_node" where
  "def_signature_node_new name f h sh = Def_Signature_Node name f [] h sh"

record file_signature =
  signature_file_name :: bytes
  signature_file_hash :: u64
  ast_nodes :: "def_signature_node list"

definition file_signature_default :: file_signature where
  "file_signature_default = \<lparr>signature_file_name = empty_word, signature_file_hash = 0, ast_nodes = []\<rparr>"

record codebase_diff =
  diff_keep :: "symbol_identifier hash_set"
  diff_changed :: "symbol_identifier hash_set"

definition codebase_diff_new :: codebase_diff where
  "codebase_diff_new = \<lparr>diff_keep = [], diff_changed = []\<rparr>"

definition collect_set :: "'a list \<Rightarrow> 'a hash_set" where
  "collect_set xs = fold List.insert xs []"

definition with_keep :: "codebase_diff \<Rightarrow> symbol_identifier list \<Rightarrow> codebase_diff" where
  "with_keep self xs = self\<lparr>diff_keep := collect_set xs\<rparr>"

definition with_changed :: "codebase_diff \<Rightarrow> symbol_identifier list \<Rightarrow> codebase_diff" where
  "with_changed self xs = self\<lparr>diff_changed := collect_set xs\<rparr>"

definition add_keep_entry :: "codebase_diff \<Rightarrow> symbol_identifier \<Rightarrow> codebase_diff \<times> bool" where
  "add_keep_entry self e = (self\<lparr>diff_keep := List.insert e (diff_keep self)\<rparr>, e \<notin> set (diff_keep self))"

definition contains_changed_entry :: "codebase_diff \<Rightarrow> symbol_identifier \<Rightarrow> bool" where
  "contains_changed_entry self e \<longleftrightarrow> e \<in> set (diff_changed self)"

definition diff_extend :: "codebase_diff \<Rightarrow> codebase_diff \<Rightarrow> codebase_diff" where
  "diff_extend self other = \<lparr>diff_keep = fold List.insert (diff_keep other) (diff_keep self),
     diff_changed = fold List.insert (diff_changed other) (diff_changed self)\<rparr>"

section \<open>The search for the end of the two lists\<close>

text \<open>
  \<open>frontier\<close> is the hash map of the search: per diagonal \<open>k = x - y\<close> the position reached in
  the old list.
\<close>

type_synonym frontier = "int \<Rightarrow> nat option"

definition node_is_equal :: "def_signature_node \<Rightarrow> def_signature_node \<Rightarrow> bool" where
  "node_is_equal a b \<longleftrightarrow> node_name a = node_name b \<and> node_is_function a = node_is_function b"

definition as_usize :: "int \<Rightarrow> nat" where
  "as_usize i = nat (i mod 2 ^ 64)"

text \<open>\<open>k == -d || (k != d && v[&(k - 1)] < v[&(k + 1)])\<close>, where indexing an absent key panics.\<close>

definition comes_from_above :: "frontier \<Rightarrow> int \<Rightarrow> int \<Rightarrow> bool option" where
  "comes_from_above v d k =
     (if k = - d then Some True
      else if k = d then Some False
      else do { l \<leftarrow> v (k - 1); r \<leftarrow> v (k + 1); Some (l < r) })"

definition diagonal_start :: "frontier \<Rightarrow> int \<Rightarrow> int \<Rightarrow> nat option" where
  "diagonal_start v d k =
     do { down \<leftarrow> comes_from_above v d k;
          if down then v (k + 1) else do { l \<leftarrow> v (k - 1); Some (l + 1) } }"

function advance :: "def_signature_node list \<Rightarrow> def_signature_node list \<Rightarrow> nat \<Rightarrow> nat \<Rightarrow> nat \<times> nat" where
  "advance a b x y =
     (if x < length a \<and> y < length b \<and> node_is_equal (a ! x) (b ! y) then advance a b (x + 1) (y + 1)
      else (x, y))"
  by pat_completeness auto
termination
  by (relation "measure (\<lambda>(a, b, x, y). length a - x)") auto

declare advance.simps [simp del]

text \<open>The inner loop, over the diagonals of one round.\<close>

function diagonals :: "def_signature_node list \<Rightarrow> def_signature_node list \<Rightarrow> int \<Rightarrow> int \<Rightarrow> frontier
    \<Rightarrow> (frontier \<times> (nat \<times> nat) option) option" where
  "diagonals a b d k v =
     (if k \<le> d then
        do { x0 \<leftarrow> diagonal_start v d k;
             let (x, y) = advance a b x0 (as_usize (int x0 - k)) in
             let v' = v(k \<mapsto> x) in
             if length a \<le> x \<and> length b \<le> y then Some (v', Some (x, y))
             else diagonals a b d (k + 2) v' }
      else Some (v, None))"
  by pat_completeness auto
termination
  by (relation "measure (\<lambda>(a, b, d, k, v). nat (d + 1 - k))") auto

declare diagonals.simps [simp del]

type_synonym diff_trace = "frontier list \<times> nat \<times> nat"

datatype trace_error = Failed_To_Converge

function rounds :: "def_signature_node list \<Rightarrow> def_signature_node list \<Rightarrow> nat \<Rightarrow> nat \<Rightarrow> frontier \<Rightarrow> frontier list
    \<Rightarrow> (trace_error + diff_trace) option" where
  "rounds a b m d v trace =
     (if d \<le> m then
        do { r \<leftarrow> diagonals a b (int d) (- int d) v;
             case r of
               (v', Some (x, y)) \<Rightarrow> Some (Inr (trace @ [v], x, y))
             | (v', None) \<Rightarrow> rounds a b m (d + 1) v' (trace @ [v]) }
      else Some (Inl Failed_To_Converge))"
  by pat_completeness auto
termination
  by (relation "measure (\<lambda>(a, b, m, d, v, trace). m + 1 - d)") auto

declare rounds.simps [simp del]

definition calculate_trace ::
  "def_signature_node list \<Rightarrow> def_signature_node list \<Rightarrow> (trace_error + diff_trace) option" where
  "calculate_trace a b = rounds a b (length a + length b) 0 [1 \<mapsto> 0] []"

section \<open>The script read back from the trace\<close>

datatype ast_diff_elem =
  Keep def_signature_node def_signature_node
| Remove def_signature_node
| Add def_signature_node

definition node_before :: "def_signature_node list \<Rightarrow> nat \<Rightarrow> def_signature_node option" where
  "node_before ns i = (if 0 < i \<and> i \<le> length ns then Some (ns ! (i - 1)) else None)"

function walk_diagonal :: "def_signature_node list \<Rightarrow> def_signature_node list \<Rightarrow> nat \<Rightarrow> int \<Rightarrow> nat \<Rightarrow> nat
    \<Rightarrow> ast_diff_elem list \<Rightarrow> (ast_diff_elem list \<times> nat \<times> nat) option" where
  "walk_diagonal a b px py x y result =
     (if px < x \<and> py < int y then
        do { p \<leftarrow> node_before a x; q \<leftarrow> node_before b y;
             walk_diagonal a b px py (x - 1) (y - 1) (result @ [Keep p q]) }
      else Some (result, x, y))"
  by pat_completeness auto
termination
  by (relation "measure (\<lambda>(a, b, px, py, x, y, result). x)") auto

function walk_deletions :: "def_signature_node list \<Rightarrow> nat \<Rightarrow> nat \<Rightarrow> ast_diff_elem list
    \<Rightarrow> (ast_diff_elem list \<times> nat) option" where
  "walk_deletions a px x result =
     (if px < x then do { p \<leftarrow> node_before a x; walk_deletions a px (x - 1) (result @ [Remove p]) }
      else Some (result, x))"
  by pat_completeness auto
termination
  by (relation "measure (\<lambda>(a, px, x, result). x)") auto

function walk_additions :: "def_signature_node list \<Rightarrow> int \<Rightarrow> nat \<Rightarrow> ast_diff_elem list
    \<Rightarrow> (ast_diff_elem list \<times> nat) option" where
  "walk_additions b py y result =
     (if py < int y then do { q \<leftarrow> node_before b y; walk_additions b py (y - 1) (result @ [Add q]) }
      else Some (result, y))"
  by pat_completeness (auto simp: node_before_def)
termination
  by (relation "measure (\<lambda>(b, py, y, result). y)") (auto simp: node_before_def split: if_splits)

declare walk_diagonal.simps [simp del]
declare walk_deletions.simps [simp del]
declare walk_additions.simps [simp del]

text \<open>\<open>extract_rounds n\<close>: the loop of \<open>extract_diff\<close> with \<open>n = d + 1\<close>.\<close>

fun extract_rounds :: "frontier list \<Rightarrow> def_signature_node list \<Rightarrow> def_signature_node list \<Rightarrow> nat \<Rightarrow> nat \<Rightarrow> nat
    \<Rightarrow> ast_diff_elem list \<Rightarrow> ast_diff_elem list option" where
  "extract_rounds trace a b 0 x y result = Some result"
| "extract_rounds trace a b (Suc d) x y result =
     do { v \<leftarrow> (if d < length trace then Some (trace ! d) else None);
          let k = int x - int y in
          do { down \<leftarrow> comes_from_above v (int d) k;
               let prev_k = (if down then k + 1 else k - 1) in
               do { prev_x \<leftarrow> v prev_k;
                    let prev_y = int prev_x - prev_k in
                    do { (result, x, y) \<leftarrow> walk_diagonal a b prev_x prev_y x y result;
                         if d = 0 then Some result
                         else do { (result, x) \<leftarrow> walk_deletions a prev_x x result;
                                   (result, y) \<leftarrow> walk_additions b prev_y y result;
                                   extract_rounds trace a b d x y result } } } } }"

declare extract_rounds.simps(2) [simp del]

definition extract_diff :: "frontier list \<Rightarrow> nat \<Rightarrow> nat \<Rightarrow> def_signature_node list \<Rightarrow> def_signature_node list
    \<Rightarrow> ast_diff_elem list option" where
  "extract_diff trace x y a b = map_option rev (extract_rounds trace a b (length trace) x y [])"

section \<open>Kept and changed symbols\<close>

fun mark_children :: "bytes \<Rightarrow> def_signature_node list \<Rightarrow> symbol_identifier hash_set \<Rightarrow> symbol_identifier hash_set" where
  "mark_children n [] s = s"
| "mark_children n (c # cs) s = mark_children n cs (List.insert (n, node_name c) s)"

definition mark_node :: "def_signature_node \<Rightarrow> symbol_identifier hash_set \<Rightarrow> symbol_identifier hash_set" where
  "mark_node nd s = mark_children (node_name nd) (node_children nd) (List.insert (node_name nd, empty_word) s)"

definition mark_all_as_changed :: "file_signature \<Rightarrow> codebase_diff" where
  "mark_all_as_changed sig = with_changed codebase_diff_new (fold mark_node (ast_nodes sig) [])"

type_synonym diff_sets = "symbol_identifier hash_set \<times> symbol_identifier hash_set"

text \<open>The loop over the members: kept and changed symbols, and \<open>has_child_sig_change\<close>.\<close>

fun member_diff :: "bytes \<Rightarrow> ast_diff_elem list \<Rightarrow> diff_sets \<times> bool \<Rightarrow> diff_sets \<times> bool" where
  "member_diff n [] s = s"
| "member_diff n (Keep a b # es) ((keep, changed), child_change) =
     (if signature_hash a = signature_hash b
      then member_diff n es ((List.insert (n, node_name a) keep, changed), child_change)
      else member_diff n es ((keep, List.insert (n, node_name a) changed), True))"
| "member_diff n (Remove c # es) ((keep, changed), child_change) =
     member_diff n es ((keep, List.insert (n, node_name c) changed), True)"
| "member_diff n (Add c # es) ((keep, changed), child_change) =
     member_diff n es ((keep, List.insert (n, node_name c) changed), True)"

definition keep_diff :: "def_signature_node \<Rightarrow> def_signature_node \<Rightarrow> diff_sets \<Rightarrow> diff_sets option" where
  "keep_diff a b s = (case s of (keep, changed) \<Rightarrow>
     do { r \<leftarrow> calculate_trace (node_children a) (node_children b);
          case r of
            Inl _ \<Rightarrow> Some (keep, mark_children (node_name b) (node_children b) (mark_node a changed))
          | Inr (trace, x, y) \<Rightarrow>
              do { es \<leftarrow> extract_diff trace x y (node_children a) (node_children b);
                   case member_diff (node_name a) es ((keep, changed), False) of
                     ((keep, changed), child_change) \<Rightarrow>
                       if child_change \<or> signature_hash a \<noteq> signature_hash b
                       then Some (keep, List.insert (node_name a, empty_word) changed)
                       else Some (List.insert (node_name a, empty_word) keep, changed) } })"

fun top_diff :: "ast_diff_elem list \<Rightarrow> diff_sets \<Rightarrow> diff_sets option" where
  "top_diff [] s = Some s"
| "top_diff (Keep a b # es) s = do { s \<leftarrow> keep_diff a b s; top_diff es s }"
| "top_diff (Remove nd # es) (keep, changed) = top_diff es (keep, mark_node nd changed)"
| "top_diff (Add nd # es) (keep, changed) = top_diff es (keep, mark_node nd changed)"

definition myers_diff :: "file_signature \<Rightarrow> file_signature \<Rightarrow> codebase_diff option" where
  "myers_diff old new =
     do { r \<leftarrow> calculate_trace (ast_nodes old) (ast_nodes new);
          case r of
            Inl _ \<Rightarrow> Some (mark_all_as_changed new)
          | Inr (trace, x, y) \<Rightarrow>
              do { es \<leftarrow> extract_diff trace x y (ast_nodes old) (ast_nodes new);
                   (keep, changed) \<leftarrow> top_diff es ([], []);
                   Some (with_changed (with_keep codebase_diff_new keep) changed) } }"

fun compute_file_diff :: "file_signature option \<Rightarrow> file_signature option \<Rightarrow> codebase_diff option" where
  "compute_file_diff None None = Some codebase_diff_new"
| "compute_file_diff (Some old) None = Some (mark_all_as_changed old)"
| "compute_file_diff None (Some new) = Some (mark_all_as_changed new)"
| "compute_file_diff (Some old) (Some new) = myers_diff old new"

text \<open>
  \<open>between\<close>: the signatures of a codebase by file, the files in sorted order without
  repetition. Of the metadata only the signatures are read.
\<close>

type_synonym 'f file_signatures = "('f \<times> file_signature) list"

definition get_all_file_ids :: "'f file_signatures \<Rightarrow> 'f list" where
  "get_all_file_ids md = map fst md"

definition get_file_signature :: "'f file_signatures \<Rightarrow> 'f \<Rightarrow> file_signature option" where
  "get_file_signature md f = map_of md f"

fun diff_files :: "'f file_signatures \<Rightarrow> 'f file_signatures \<Rightarrow> 'f list \<Rightarrow> codebase_diff \<Rightarrow> codebase_diff option" where
  "diff_files old new [] acc = Some acc"
| "diff_files old new (f # fs) acc =
     do { d \<leftarrow> compute_file_diff (get_file_signature old f) (get_file_signature new f);
          diff_files old new fs (diff_extend acc d) }"

definition between :: "('f :: linorder) file_signatures \<Rightarrow> 'f file_signatures \<Rightarrow> codebase_diff option" where
  "between old new =
     diff_files old new (remdups_adj (sort (get_all_file_ids old @ get_all_file_ids new))) codebase_diff_new"

section \<open>The furthest reaching positions\<close>

text \<open>The specification of the frontier: the position each round reaches on a diagonal.\<close>

definition matches_at :: "def_signature_node list \<Rightarrow> def_signature_node list \<Rightarrow> nat \<Rightarrow> nat \<Rightarrow> bool" where
  "matches_at a b x y \<longleftrightarrow> x < length a \<and> y < length b \<and> node_is_equal (a ! x) (b ! y)"

lemma advance_step:
  "advance a b x y = (if matches_at a b x y then advance a b (x + 1) (y + 1) else (x, y))"
  by (subst advance.simps) (simp add: matches_at_def)

lemma advance_spec:
  obtains i where "advance a b x y = (x + i, y + i)" "\<And>j. j < i \<Longrightarrow> matches_at a b (x + j) (y + j)"
    "\<not> matches_at a b (x + i) (y + i)"
proof -
  have "\<exists>i. advance a b x y = (x + i, y + i) \<and> (\<forall>j<i. matches_at a b (x + j) (y + j))
      \<and> \<not> matches_at a b (x + i) (y + i)"
  proof (induction a b x y rule: advance.induct)
    case (1 a b x y)
    show ?case
    proof (cases "matches_at a b x y")
      case True
      obtain i where i: "advance a b (x + 1) (y + 1) = (x + 1 + i, y + 1 + i)"
        "\<forall>j<i. matches_at a b (x + 1 + j) (y + 1 + j)" "\<not> matches_at a b (x + 1 + i) (y + 1 + i)"
        using 1 True unfolding matches_at_def by blast
      show ?thesis
        by (rule exI[of _ "Suc i"]) (use i True in \<open>auto simp: advance_step[of a b x y] less_Suc_eq_0_disj\<close>)
    qed (auto simp: advance_step[of a b x y] intro: exI[of _ 0])
  qed
  then show thesis using that by blast
qed

fun reach :: "def_signature_node list \<Rightarrow> def_signature_node list \<Rightarrow> nat \<Rightarrow> int \<Rightarrow> nat" where
  "reach a b 0 k = fst (advance a b 0 0)"
| "reach a b (Suc d) k =
     (let x0 = (if k = - int (Suc d) \<or> (k \<noteq> int (Suc d) \<and> reach a b d (k - 1) < reach a b d (k + 1))
                then reach a b d (k + 1) else reach a b d (k - 1) + 1)
      in fst (advance a b x0 (nat (int x0 - k))))"

declare reach.simps [simp del]

definition on_diag :: "nat \<Rightarrow> int \<Rightarrow> bool" where
  "on_diag d k \<longleftrightarrow> - int d \<le> k \<and> k \<le> int d \<and> even (int d + k)"

definition from_above :: "def_signature_node list \<Rightarrow> def_signature_node list \<Rightarrow> nat \<Rightarrow> int \<Rightarrow> bool" where
  "from_above a b d k \<longleftrightarrow> k = - int (Suc d) \<or> (k \<noteq> int (Suc d) \<and> reach a b d (k - 1) < reach a b d (k + 1))"

definition start_at :: "def_signature_node list \<Rightarrow> def_signature_node list \<Rightarrow> nat \<Rightarrow> int \<Rightarrow> nat" where
  "start_at a b d k = (if from_above a b d k then reach a b d (k + 1) else reach a b d (k - 1) + 1)"

lemma reach_Suc: "reach a b (Suc d) k = fst (advance a b (start_at a b d k) (nat (int (start_at a b d k) - k)))"
  by (simp add: reach.simps(2) start_at_def from_above_def Let_def)

lemma on_diag_Suc:
  assumes "on_diag (Suc d) k"
  shows "k \<noteq> - int (Suc d) \<Longrightarrow> on_diag d (k - 1)" "k \<noteq> int (Suc d) \<Longrightarrow> on_diag d (k + 1)"
  using assms by (auto simp: on_diag_def) presburger+

lemma on_diag_cases:
  assumes "on_diag (Suc d) k"
  obtains (above) "from_above a b d k" "on_diag d (k + 1)" "start_at a b d k = reach a b d (k + 1)"
      "k = - int (Suc d) \<or> on_diag d (k - 1) \<and> reach a b d (k - 1) < reach a b d (k + 1)"
  | (left) "\<not> from_above a b d k" "on_diag d (k - 1)" "start_at a b d k = reach a b d (k - 1) + 1"
      "k = int (Suc d) \<or> on_diag d (k + 1) \<and> reach a b d (k + 1) \<le> reach a b d (k - 1)"
proof (cases "from_above a b d k")
  case True
  then have "k \<noteq> int (Suc d)" by (auto simp: from_above_def)
  with True show ?thesis
    using on_diag_Suc[OF assms] that(1) by (auto simp: from_above_def start_at_def)
next
  case False
  then have k: "k \<noteq> - int (Suc d)" by (auto simp: from_above_def)
  have "k = int (Suc d) \<or> on_diag d (k + 1) \<and> reach a b d (k + 1) \<le> reach a b d (k - 1)"
    using False k on_diag_Suc(2)[OF assms] by (auto simp: from_above_def)
  with False k show ?thesis
    using on_diag_Suc(1)[OF assms] that(2) by (simp add: start_at_def)
qed

text \<open>The positions of a round lie at or right of their diagonal and advance with the rounds.\<close>

lemma reach_ge_start: "start_at a b d k \<le> reach a b (Suc d) k"
  unfolding reach_Suc by (rule advance_spec[of a b "start_at a b d k" "nat (int (start_at a b d k) - k)"]) simp

lemma reach_ge_diag: "on_diag d k \<Longrightarrow> k \<le> int (reach a b d k)"
proof (induction d arbitrary: k)
  case (Suc d)
  have "k \<le> int (start_at a b d k)"
  proof (rule on_diag_cases[OF Suc.prems, of a b])
    assume "on_diag d (k + 1)" "start_at a b d k = reach a b d (k + 1)"
    then show ?thesis using Suc.IH[of "k + 1"] by simp
  next
    assume "on_diag d (k - 1)" "start_at a b d k = reach a b d (k - 1) + 1"
    then show ?thesis using Suc.IH[of "k - 1"] by simp
  qed
  then show ?case using reach_ge_start[of a b d k] by linarith
qed (simp add: on_diag_def)

lemma start_ge_diag: "on_diag (Suc d) k \<Longrightarrow> k \<le> int (start_at a b d k)"
  by (erule on_diag_cases[of d k a b]) (use reach_ge_diag[of d "k + 1" a b] reach_ge_diag[of d "k - 1" a b] in auto)

lemma reach_right: "on_diag (Suc d) k \<Longrightarrow> on_diag d (k - 1) \<Longrightarrow> reach a b d (k - 1) + 1 \<le> reach a b (Suc d) k"
  by (erule on_diag_cases[of d k a b]) (use reach_ge_start[of a b d k] in \<open>auto simp: on_diag_def\<close>)

lemma reach_down: "on_diag (Suc d) k \<Longrightarrow> on_diag d (k + 1) \<Longrightarrow> reach a b d (k + 1) \<le> reach a b (Suc d) k"
  by (erule on_diag_cases[of d k a b]) (use reach_ge_start[of a b d k] in \<open>auto simp: on_diag_def\<close>)

lemma reach_progress: "on_diag d k \<Longrightarrow> int d \<le> 2 * int (reach a b d k) - k"
proof (induction d arbitrary: k)
  case (Suc d)
  have "int (Suc d) \<le> 2 * int (start_at a b d k) - k"
  proof (rule on_diag_cases[OF Suc.prems, of a b])
    assume "on_diag d (k + 1)" "start_at a b d k = reach a b d (k + 1)"
    then show ?thesis using Suc.IH[of "k + 1"] by simp
  next
    assume "on_diag d (k - 1)" "start_at a b d k = reach a b d (k - 1) + 1"
    then show ?thesis using Suc.IH[of "k - 1"] by simp
  qed
  then show ?case using reach_ge_start[of a b d k] by linarith
qed (simp add: on_diag_def)

text \<open>The run of matches from the start of a diagonal to its furthest position.\<close>

lemma reach_run:
  assumes "on_diag (Suc d) k"
  obtains i where "reach a b (Suc d) k = start_at a b d k + i"
    "\<And>j. j < i \<Longrightarrow> matches_at a b (start_at a b d k + j) (nat (int (start_at a b d k) - k) + j)"
proof -
  let ?x = "start_at a b d k"
  obtain i where "advance a b ?x (nat (int ?x - k)) = (?x + i, nat (int ?x - k) + i)"
    "\<And>j. j < i \<Longrightarrow> matches_at a b (?x + j) (nat (int ?x - k) + j)"
    by (rule advance_spec[of a b ?x "nat (int ?x - k)"]) blast
  then show thesis using that[of i] by (simp add: reach_Suc)
qed

lemma reach_blocked:
  assumes "on_diag d k"
  shows "\<not> matches_at a b (reach a b d k) (nat (int (reach a b d k) - k))"
proof (cases d)
  case 0
  then have "k = 0" using assms by (simp add: on_diag_def)
  then show ?thesis using 0 by (cases rule: advance_spec[of a b 0 0]) (simp add: reach.simps(1))
next
  case (Suc c)
  let ?x = "start_at a b c k"
  have "k \<le> int ?x" using start_ge_diag assms Suc by blast
  then show ?thesis
  proof (cases rule: advance_spec[of a b ?x "nat (int ?x - k)"])
    case (1 i)
    moreover have "nat (int (?x + i) - k) = nat (int ?x - k) + i" using \<open>k \<le> int ?x\<close> by simp
    ultimately show ?thesis unfolding Suc reach_Suc by simp
  qed
qed

text \<open>Outside the grid there are no matches, so a position there is the start of its diagonal.\<close>

lemma reach_outside:
  assumes "on_diag (Suc d) k"
    and "length a < reach a b (Suc d) k \<or> int (length b) < int (reach a b (Suc d) k) - k"
  shows "reach a b (Suc d) k = start_at a b d k"
proof -
  let ?x = "start_at a b d k"
  obtain i where i: "reach a b (Suc d) k = ?x + i"
    "\<And>j. j < i \<Longrightarrow> matches_at a b (?x + j) (nat (int ?x - k) + j)"
    using reach_run[OF assms(1), of a b] by metis
  have k: "k \<le> int ?x" using start_ge_diag assms by blast
  have "i = 0"
  proof (rule ccontr)
    assume "i \<noteq> 0"
    then have "matches_at a b (?x + (i - 1)) (nat (int ?x - k) + (i - 1))" using i(2)[of "i - 1"] by linarith
    then show False using assms(2) i(1) k \<open>i \<noteq> 0\<close> by (auto simp: matches_at_def)
  qed
  then show ?thesis using i(1) by simp
qed

lemma reach_start_round:
  "reach a b 0 k \<le> length a" "reach a b 0 k \<le> length b"
proof -
  obtain i where i: "advance a b 0 0 = (0 + i, 0 + i)" "\<And>j. j < i \<Longrightarrow> matches_at a b (0 + j) (0 + j)"
    by (rule advance_spec[of a b 0 0]) blast
  have "i = 0 \<or> matches_at a b (i - 1) (i - 1)" using i(2)[of "i - 1"] by (cases i) auto
  then show "reach a b 0 k \<le> length a" "reach a b 0 k \<le> length b" using i(1) by (auto simp: matches_at_def reach.simps(1))
qed

lemma reach_bottom: "reach a b d (- int d) \<le> length a"
proof (induction d)
  case (Suc d)
  have k: "on_diag (Suc d) (- int (Suc d))" by (simp add: on_diag_def)
  have "start_at a b d (- int (Suc d)) = reach a b d (- int d)"
    by (simp add: start_at_def from_above_def)
  then show ?case using Suc reach_outside[OF k, of a b] by fastforce
qed (simp add: reach_start_round)

lemma reach_top: "int (reach a b d (int d)) - int d \<le> int (length b)"
proof (induction d)
  case (Suc d)
  have k: "on_diag (Suc d) (int (Suc d))" by (simp add: on_diag_def)
  have "start_at a b d (int (Suc d)) = reach a b d (int d) + 1"
    by (simp add: start_at_def from_above_def)
  then show ?case using Suc reach_outside[OF k, of a b] by fastforce
qed (simp add: reach_start_round)

text \<open>Past the right edge the neighbour to the left is at most one behind; likewise below.\<close>

lemma past_right:
  "on_diag d k \<Longrightarrow> on_diag d (k - 2) \<Longrightarrow> length a < reach a b d k \<Longrightarrow> reach a b d k \<le> reach a b d (k - 2) + 1"
proof (induction d arbitrary: k)
  case (Suc d)
  have s: "reach a b (Suc d) k = start_at a b d k" using reach_outside Suc.prems by blast
  have o: "on_diag d (k - 1)" using Suc.prems(1,2) by (auto simp: on_diag_def)
  have d: "reach a b d (k - 1) \<le> reach a b (Suc d) (k - 2)"
    using reach_down[OF Suc.prems(2)] o by simp
  show ?case
  proof (rule on_diag_cases[OF Suc.prems(1), of a b])
    assume a: "on_diag d (k + 1)" "start_at a b d k = reach a b d (k + 1)"
    then have "reach a b d (k + 1) \<le> reach a b d (k + 1 - 2) + 1"
      using Suc.IH[of "k + 1"] Suc.prems s o by simp
    then show ?thesis using a s d by simp
  next
    assume "start_at a b d k = reach a b d (k - 1) + 1"
    then show ?thesis using s d by simp
  qed
qed (simp add: on_diag_def)

lemma past_below:
  "on_diag d k \<Longrightarrow> on_diag d (k + 2) \<Longrightarrow> int (length b) < int (reach a b d k) - k
   \<Longrightarrow> reach a b d k + 1 \<le> reach a b d (k + 2)"
proof (induction d arbitrary: k)
  case (Suc d)
  have s: "reach a b (Suc d) k = start_at a b d k" using reach_outside Suc.prems by blast
  have o: "on_diag d (k + 1)" using Suc.prems(1,2) by (auto simp: on_diag_def)
  have d: "reach a b d (k + 1) + 1 \<le> reach a b (Suc d) (k + 2)"
    using reach_right[OF Suc.prems(2), of a b] o by (simp add: algebra_simps)
  show ?case
  proof (rule on_diag_cases[OF Suc.prems(1), of a b])
    assume "start_at a b d k = reach a b d (k + 1)"
    then show ?thesis using s d by simp
  next
    assume a: "on_diag d (k - 1)" "start_at a b d k = reach a b d (k - 1) + 1"
    have e: "k - 1 + 2 = k + 1" by simp
    then have "reach a b d (k - 1) + 1 \<le> reach a b d (k + 1)"
      using Suc.IH[of "k - 1", unfolded e] Suc.prems a s o by simp
    then show ?thesis using a s d by simp
  qed
qed (simp add: on_diag_def)

text \<open>The first round that reaches the end of both lists reaches exactly the end.\<close>

definition finished :: "def_signature_node list \<Rightarrow> def_signature_node list \<Rightarrow> nat \<Rightarrow> int \<Rightarrow> bool" where
  "finished a b d k \<longleftrightarrow> length a \<le> reach a b d k \<and> int (length b) \<le> int (reach a b d k) - k"

lemma finished_exact:
  assumes "on_diag d k" "finished a b d k" and earlier: "\<And>c j. c < d \<Longrightarrow> on_diag c j \<Longrightarrow> \<not> finished a b c j"
  shows "reach a b d k = length a \<and> k = int (length a) - int (length b)"
proof (cases d)
  case 0
  then show ?thesis
    using assms(1,2) reach_start_round[of a b k] by (auto simp: finished_def on_diag_def)
next
  case (Suc c)
  have o: "on_diag (Suc c) k" using assms Suc by simp
  have nf: "\<not> finished a b c j" if "on_diag c j" for j using earlier Suc that by simp
  have "\<not> length a < reach a b d k"
  proof
    assume x: "length a < reach a b d k"
    then have s: "reach a b d k = start_at a b c k" using reach_outside o Suc by blast
    show False
    proof (rule on_diag_cases[OF o, of a b])
      assume a: "on_diag c (k + 1)" "start_at a b c k = reach a b c (k + 1)"
        "k = - int (Suc c) \<or> on_diag c (k - 1) \<and> reach a b c (k - 1) < reach a b c (k + 1)"
      have "k \<noteq> - int (Suc c)" using x reach_bottom[of a b d] Suc by auto
      with a(3) have l: "on_diag c (k - 1)" by simp
      then have "reach a b d k \<le> reach a b c (k - 1) + 1"
        using past_right[of c "k + 1" a b] a s x by simp
      then show False using nf[OF l] x assms(2) by (auto simp: finished_def)
    next
      assume "on_diag c (k - 1)" "start_at a b c k = reach a b c (k - 1) + 1"
      then show False using nf[of "k - 1"] x s assms(2) by (auto simp: finished_def)
    qed
  qed
  moreover have "\<not> int (length b) < int (reach a b d k) - k"
  proof
    assume y: "int (length b) < int (reach a b d k) - k"
    then have s: "reach a b d k = start_at a b c k" using reach_outside o Suc by blast
    show False
    proof (rule on_diag_cases[OF o, of a b])
      assume "on_diag c (k + 1)" "start_at a b c k = reach a b c (k + 1)"
      then show False using nf[of "k + 1"] y s assms(2) by (auto simp: finished_def)
    next
      assume a: "on_diag c (k - 1)" "start_at a b c k = reach a b c (k - 1) + 1"
        "k = int (Suc c) \<or> on_diag c (k + 1) \<and> reach a b c (k + 1) \<le> reach a b c (k - 1)"
      have "k \<noteq> int (Suc c)" using y reach_top[of a b d] Suc by auto
      with a(3) have l: "on_diag c (k + 1)" by simp
      then have "reach a b c (k - 1) + 1 \<le> reach a b c (k - 1 + 2)"
        using past_below[of c "k - 1" b a] a s y by (simp add: algebra_simps)
      then have "reach a b c (k - 1) + 1 \<le> reach a b c (k + 1)" by (simp add: algebra_simps)
      with a(3) \<open>k \<noteq> int (Suc c)\<close> show False by simp
    qed
  qed
  ultimately show ?thesis using assms(2) by (auto simp: finished_def)
qed

lemma some_round_finishes: "finished a b (length a + length b) (int (length a) - int (length b))"
  using reach_progress[of "length a + length b" "int (length a) - int (length b)" a b]
  by (auto simp: finished_def on_diag_def)

section \<open>Edit scripts\<close>

text \<open>What the two theorems on the search speak of: a script that turns one list into the other.\<close>

fun old_nodes :: "ast_diff_elem list \<Rightarrow> def_signature_node list" where
  "old_nodes [] = []"
| "old_nodes (Keep p q # es) = p # old_nodes es"
| "old_nodes (Remove p # es) = p # old_nodes es"
| "old_nodes (Add q # es) = old_nodes es"

fun new_nodes :: "ast_diff_elem list \<Rightarrow> def_signature_node list" where
  "new_nodes [] = []"
| "new_nodes (Keep p q # es) = q # new_nodes es"
| "new_nodes (Remove p # es) = new_nodes es"
| "new_nodes (Add q # es) = q # new_nodes es"

fun edits :: "ast_diff_elem list \<Rightarrow> nat" where
  "edits [] = 0"
| "edits (Keep p q # es) = edits es"
| "edits (Remove p # es) = Suc (edits es)"
| "edits (Add q # es) = Suc (edits es)"

definition edit_script :: "def_signature_node list \<Rightarrow> def_signature_node list \<Rightarrow> ast_diff_elem list \<Rightarrow> bool" where
  "edit_script a b es \<longleftrightarrow> old_nodes es = a \<and> new_nodes es = b \<and> (\<forall>p q. Keep p q \<in> set es \<longrightarrow> node_is_equal p q)"

lemma old_nodes_append [simp]: "old_nodes (es @ fs) = old_nodes es @ old_nodes fs"
  by (induction es rule: old_nodes.induct) auto

lemma new_nodes_append [simp]: "new_nodes (es @ fs) = new_nodes es @ new_nodes fs"
  by (induction es rule: new_nodes.induct) auto

lemma edits_append [simp]: "edits (es @ fs) = edits es + edits fs"
  by (induction es rule: edits.induct) auto

lemma edits_rev [simp]: "edits (rev es) = edits es"
  by (induction es rule: edits.induct) auto

lemma edit_script_Nil: "edit_script [] [] []"
  by (simp add: edit_script_def)

text \<open>A run of kept nodes.\<close>

definition kept_run :: "def_signature_node list \<Rightarrow> def_signature_node list \<Rightarrow> nat \<Rightarrow> nat \<Rightarrow> nat \<Rightarrow> ast_diff_elem list" where
  "kept_run a b x y i = map (\<lambda>j. Keep (a ! (x + j)) (b ! (y + j))) [0..<i]"

lemma kept_run_simps [simp]:
  "kept_run a b x y 0 = []"
  "kept_run a b x y (Suc i) = kept_run a b x y i @ [Keep (a ! (x + i)) (b ! (y + i))]"
  by (simp_all add: kept_run_def)

lemma edits_kept_run [simp]: "edits (kept_run a b x y i) = 0"
  by (induction i) auto

lemma edit_script_kept_run:
  assumes "edit_script (take x a) (take y b) es" "\<And>j. j < i \<Longrightarrow> matches_at a b (x + j) (y + j)"
  shows "edit_script (take (x + i) a) (take (y + i) b) (es @ kept_run a b x y i)"
  using assms(2)
proof (induction i)
  case (Suc i)
  have "matches_at a b (x + i) (y + i)" using Suc.prems by simp
  moreover have "edit_script (take (x + i) a) (take (y + i) b) (es @ kept_run a b x y i)"
    using Suc by simp
  ultimately show ?case
    by (auto simp: edit_script_def matches_at_def take_Suc_conv_app_nth)
qed (use assms(1) in simp)

lemma edit_script_Remove:
  "edit_script (take x a) b es \<Longrightarrow> x < length a \<Longrightarrow> edit_script (take (Suc x) a) b (es @ [Remove (a ! x)])"
  by (auto simp: edit_script_def take_Suc_conv_app_nth)

lemma edit_script_Add:
  "edit_script a (take y b) es \<Longrightarrow> y < length b \<Longrightarrow> edit_script a (take (Suc y) b) (es @ [Add (b ! y)])"
  by (auto simp: edit_script_def take_Suc_conv_app_nth)

text \<open>A script of \<open>e\<close> edits ends no further than the search after \<open>e\<close> rounds.\<close>

lemma matches_at_from_script:
  assumes "old_nodes es @ p # u = a" "new_nodes es @ q # v = b" "node_is_equal p q"
  shows "matches_at a b (length (old_nodes es)) (length (new_nodes es))"
  using assms(3) by (auto simp: matches_at_def nth_append simp flip: assms(1,2))

lemma script_within_reach:
  assumes "old_nodes es @ u = a" "new_nodes es @ v = b" "\<And>p q. Keep p q \<in> set es \<Longrightarrow> node_is_equal p q"
  shows "on_diag (edits es) (int (length (old_nodes es)) - int (length (new_nodes es))) \<and>
    length (old_nodes es) \<le> reach a b (edits es) (int (length (old_nodes es)) - int (length (new_nodes es)))"
  using assms
proof (induction es arbitrary: u v rule: rev_induct)
  case (snoc e es)
  let ?x = "length (old_nodes es)" and ?y = "length (new_nodes es)"
  let ?k = "int ?x - int ?y" and ?d = "edits es"
  obtain u' v' where uv: "old_nodes es @ u' = a" "new_nodes es @ v' = b" using snoc.prems(1,2) by auto
  have IH: "on_diag ?d ?k" "?x \<le> reach a b ?d ?k" using snoc.IH[OF uv] snoc.prems(3) by auto
  show ?case
  proof (cases e)
    case (Keep p q)
    have m: "matches_at a b ?x ?y"
      using matches_at_from_script[of es p u a q v b] snoc.prems Keep by simp
    have "?x \<noteq> reach a b ?d ?k"
      using m reach_blocked[OF IH(1), of a b] by (metis add_diff_cancel_left' diff_add_cancel diff_diff_eq2 nat_int)
    then show ?thesis using IH Keep by simp
  next
    case (Remove p)
    have k: "on_diag (Suc ?d) (?k + 1)" using IH(1) by (auto simp: on_diag_def)
    have "?k + 1 - 1 = ?k" by simp
    then have "?x + 1 \<le> reach a b (Suc ?d) (?k + 1)"
      using reach_right[OF k, of a b] IH by simp
    moreover have e: "int (length (old_nodes (es @ [e]))) - int (length (new_nodes (es @ [e]))) = ?k + 1"
      using Remove by simp
    ultimately show ?thesis unfolding e using Remove k by simp
  next
    case (Add q)
    have k: "on_diag (Suc ?d) (?k - 1)" using IH(1) by (auto simp: on_diag_def)
    have "?x \<le> reach a b (Suc ?d) (?k - 1)"
      using reach_down[OF k, of a b] IH by simp
    moreover have e: "int (length (old_nodes (es @ [e]))) - int (length (new_nodes (es @ [e]))) = ?k - 1"
      using Add by simp
    ultimately show ?thesis unfolding e using Add k by simp
  qed
qed (simp add: on_diag_def)

lemma script_finishes:
  assumes "edit_script a b es"
  shows "on_diag (edits es) (int (length a) - int (length b)) \<and> finished a b (edits es) (int (length a) - int (length b))"
  using script_within_reach[of es "[]" a "[]" b] assms by (auto simp: edit_script_def finished_def)

section \<open>The search follows the specification\<close>

fun ready :: "def_signature_node list \<Rightarrow> def_signature_node list \<Rightarrow> nat \<Rightarrow> frontier \<Rightarrow> bool" where
  "ready a b 0 v \<longleftrightarrow> v 1 = Some 0"
| "ready a b (Suc d) v \<longleftrightarrow> (\<forall>k. on_diag d k \<longrightarrow> v k = Some (reach a b d k))"

definition small :: "'a list \<Rightarrow> bool" where
  "small xs \<longleftrightarrow> length xs < 2 ^ 60"

lemma reach_height: "on_diag d k \<Longrightarrow> int (reach a b d k) - k \<le> int (length b + d)"
proof (induction d arbitrary: k)
  case 0
  then show ?case using reach_start_round(2)[of a b k] by (simp add: on_diag_def)
next
  case (Suc d)
  let ?x = "start_at a b d k"
  have s: "int ?x - k \<le> int (length b + Suc d)"
    by (rule on_diag_cases[OF Suc.prems, of a b]) (use Suc.IH[of "k + 1"] Suc.IH[of "k - 1"] in auto)
  show ?case
  proof (cases "int (length b) < int (reach a b (Suc d) k) - k")
    case True
    then show ?thesis using reach_outside[OF Suc.prems, of a b] s by simp
  qed simp
qed

lemma start_height: "on_diag (Suc d) k \<Longrightarrow> int (start_at a b d k) - k \<le> int (length b + Suc d)"
  using reach_height[of "Suc d" k a b] reach_ge_start[of a b d k] by linarith

lemma as_usize_id: "0 \<le> i \<Longrightarrow> i < 2 ^ 64 \<Longrightarrow> as_usize i = nat i"
  by (simp add: as_usize_def)

lemma comes_from_above_ready:
  assumes "ready a b (Suc d) v" "on_diag (Suc d) k"
  shows "comes_from_above v (int (Suc d)) k = Some (from_above a b d k)"
proof -
  have "k \<noteq> - int (Suc d) \<Longrightarrow> v (k - 1) = Some (reach a b d (k - 1))"
    "k \<noteq> int (Suc d) \<Longrightarrow> v (k + 1) = Some (reach a b d (k + 1))"
    using assms on_diag_Suc[OF assms(2)] by simp_all
  then show ?thesis by (auto simp: comes_from_above_def from_above_def)
qed

lemma diagonal_start_ready:
  assumes "ready a b (Suc d) v" "on_diag (Suc d) k"
  shows "diagonal_start v (int (Suc d)) k = Some (start_at a b d k)"
  using on_diag_cases[OF assms(2), of a b] assms
  unfolding diagonal_start_def comes_from_above_ready[OF assms] by fastforce

lemma advance_reach:
  assumes "on_diag (Suc d) k"
  shows "advance a b (start_at a b d k) (nat (int (start_at a b d k) - k))
    = (reach a b (Suc d) k, nat (int (reach a b (Suc d) k) - k))"
proof -
  let ?x = "start_at a b d k"
  have "k \<le> int ?x" using start_ge_diag[OF assms] .
  then show ?thesis
    unfolding reach_Suc by (cases rule: advance_spec[of a b ?x "nat (int ?x - k)"]) auto
qed

lemma diagonal_ready:
  assumes "ready a b d v" "on_diag d k" "small a" "small b" "d \<le> length a + length b"
  shows "\<exists>x0. diagonal_start v (int d) k = Some x0 \<and>
    advance a b x0 (as_usize (int x0 - k)) = (reach a b d k, nat (int (reach a b d k) - k))"
proof (cases d)
  case 0
  then have "k = 0" using assms by (simp add: on_diag_def)
  moreover obtain i where "advance a b 0 0 = (0 + i, 0 + i)" by (rule advance_spec[of a b 0 0]) blast
  ultimately show ?thesis using 0 assms(1)
    by (simp add: diagonal_start_def comes_from_above_def as_usize_def reach.simps(1))
next
  case (Suc c)
  let ?x = "start_at a b c k"
  have "int ?x - k < 2 ^ 64" "0 \<le> int ?x - k"
    using start_height[of c k a b] start_ge_diag[of c k a b] assms Suc by (auto simp: small_def)
  then have "as_usize (int ?x - k) = nat (int ?x - k)" by (rule as_usize_id[rotated])
  then show ?thesis
    using diagonal_start_ready[of a b c v k] advance_reach[of c k a b] assms(1,2) Suc by auto
qed

lemma ready_update:
  assumes "ready a b d v" "on_diag d k"
  shows "ready a b d (v(k \<mapsto> x))"
proof (cases d)
  case (Suc c)
  have "j \<noteq> k" if "on_diag c j" for j using that assms(2) Suc by (auto simp: on_diag_def)
  then show ?thesis using assms Suc by auto
qed (use assms in \<open>auto simp: on_diag_def\<close>)

definition round_end :: "def_signature_node list \<Rightarrow> def_signature_node list \<Rightarrow> nat
    \<Rightarrow> (frontier \<times> (nat \<times> nat) option) option \<Rightarrow> bool" where
  "round_end a b d r \<longleftrightarrow>
     (\<exists>v k. r = Some (v, Some (reach a b d k, nat (int (reach a b d k) - k))) \<and> on_diag d k \<and> finished a b d k)
   \<or> (\<exists>v. r = Some (v, None) \<and> ready a b (Suc d) v \<and> (\<forall>k. on_diag d k \<longrightarrow> \<not> finished a b d k))"

lemma diagonals_round:
  assumes "ready a b d v" "- int d \<le> k" "even (int d + k)" "small a" "small b" "d \<le> length a + length b"
    and "\<And>j. on_diag d j \<Longrightarrow> j < k \<Longrightarrow> v j = Some (reach a b d j) \<and> \<not> finished a b d j"
  shows "round_end a b d (diagonals a b (int d) k v)"
  using assms
proof (induction a b "int d" k v rule: diagonals.induct)
  case (1 a b k v)
  show ?case
  proof (cases "k \<le> int d")
    case True
    then have k: "on_diag d k" using 1 by (simp add: on_diag_def)
    obtain x0 where x0: "diagonal_start v (int d) k = Some x0"
      "advance a b x0 (as_usize (int x0 - k)) = (reach a b d k, nat (int (reach a b d k) - k))"
      using diagonal_ready[OF _ k, of a b v] 1 by blast
    let ?x = "reach a b d k" and ?y = "nat (int (reach a b d k) - k)"
    have fin: "finished a b d k \<longleftrightarrow> length a \<le> ?x \<and> length b \<le> ?y"
      using reach_ge_diag[OF k, of a b] by (auto simp: finished_def)
    show ?thesis
    proof (cases "finished a b d k")
      case f: True
      then have "diagonals a b (int d) k v = Some (v(k \<mapsto> ?x), Some (?x, ?y))"
        using x0 True fin by (subst diagonals.simps) simp
      then show ?thesis using f k unfolding round_end_def by blast
    next
      case False
      then have eq: "diagonals a b (int d) k v = diagonals a b (int d) (k + 2) (v(k \<mapsto> ?x))"
        by (subst diagonals.simps) (use x0 True fin False in \<open>auto simp: Let_def\<close>)
      have "round_end a b d (diagonals a b (int d) (k + 2) (v(k \<mapsto> ?x)))"
      proof (rule 1(1)[OF True])
        show "(v(k \<mapsto> ?x)) j = Some (reach a b d j) \<and> \<not> finished a b d j" if "on_diag d j" "j < k + 2" for j
        proof (cases "j = k")
          case False
          have "j \<noteq> k + 1" using that k by (auto simp: on_diag_def)
          then show ?thesis using 1(8)[of j] that False by simp
        qed (use \<open>\<not> finished a b d k\<close> in simp)
      qed (use 1 x0 False fin ready_update[OF _ k] in auto)
      then show ?thesis using eq by simp
    qed
  next
    case False
    then have eq: "diagonals a b (int d) k v = Some (v, None)" by (subst diagonals.simps) simp
    have "v j = Some (reach a b d j) \<and> \<not> finished a b d j" if "on_diag d j" for j
      using 1(8)[of j] that False by (simp add: on_diag_def)
    then show ?thesis using eq unfolding round_end_def by auto
  qed
qed

definition trace_spec :: "def_signature_node list \<Rightarrow> def_signature_node list \<Rightarrow> frontier list \<Rightarrow> nat \<Rightarrow> bool" where
  "trace_spec a b tr d \<longleftrightarrow> length tr = Suc d \<and> (\<forall>c\<le>d. ready a b c (tr ! c))
     \<and> on_diag d (int (length a) - int (length b)) \<and> finished a b d (int (length a) - int (length b))
     \<and> (\<forall>c<d. \<forall>k. on_diag c k \<longrightarrow> \<not> finished a b c k)"

lemma rounds_trace:
  assumes "ready a b d v" "length tr = d" "\<And>c. c < d \<Longrightarrow> ready a b c (tr ! c)" "small a" "small b"
    and "\<And>c k. c < d \<Longrightarrow> on_diag c k \<Longrightarrow> \<not> finished a b c k"
  shows "\<exists>tr' d'. rounds a b (length a + length b) d v tr = Some (Inr (tr', length a, length b)) \<and> trace_spec a b tr' d'"
  using assms
proof (induction a b "length a + length b" d v tr rule: rounds.induct)
  case (1 a b d v tr)
  have le: "d \<le> length a + length b"
  proof (rule ccontr)
    assume "\<not> d \<le> length a + length b"
    then have "length a + length b < d" by simp
    moreover have "on_diag (length a + length b) (int (length a) - int (length b))" by (auto simp: on_diag_def)
    ultimately show False using 1(7) some_round_finishes[of a b] by blast
  qed
  have trace: "ready a b c ((tr @ [v]) ! c)" if "c < Suc d" for c
    using that 1(2-4) by (auto simp: nth_append less_Suc_eq)
  have "round_end a b d (diagonals a b (int d) (- int d) v)"
    by (rule diagonals_round) (use 1 le in \<open>auto simp: on_diag_def\<close>)
  then consider (ended) v' k where "diagonals a b (int d) (- int d) v = Some (v', Some (reach a b d k, nat (int (reach a b d k) - k)))"
      "on_diag d k" "finished a b d k"
    | (running) v' where "diagonals a b (int d) (- int d) v = Some (v', None)" "ready a b (Suc d) v'"
      "\<And>k. on_diag d k \<Longrightarrow> \<not> finished a b d k"
    unfolding round_end_def by blast
  then show ?case
  proof cases
    case ended
    have e: "reach a b d k = length a" "k = int (length a) - int (length b)"
      using finished_exact[OF ended(2,3)] 1(7) by blast+
    have "rounds a b (length a + length b) d v tr = Some (Inr (tr @ [v], length a, length b))"
      using ended(1) e le by (subst rounds.simps) simp
    moreover have "trace_spec a b (tr @ [v]) d"
      using trace 1(3,7) ended(2,3) e unfolding trace_spec_def by auto
    ultimately show ?thesis by blast
  next
    case running
    have "\<exists>tr' d'. rounds a b (length a + length b) (d + 1) v' (tr @ [v]) = Some (Inr (tr', length a, length b)) \<and> trace_spec a b tr' d'"
      by (rule 1(1)[OF le running(1) refl refl]) (use running 1 trace in \<open>auto simp: less_Suc_eq\<close>)
    moreover have "rounds a b (length a + length b) d v tr = rounds a b (length a + length b) (d + 1) v' (tr @ [v])"
      using running(1) le by (subst rounds.simps) simp
    ultimately show ?thesis by simp
  qed
qed

lemma calculate_trace_spec:
  assumes "small a" "small b"
  shows "\<exists>tr d. calculate_trace a b = Some (Inr (tr, length a, length b)) \<and> trace_spec a b tr d"
  unfolding calculate_trace_def by (rule rounds_trace) (use assms in auto)

section \<open>The script read back\<close>

lemma node_before_nth: "i < length ns \<Longrightarrow> node_before ns (Suc i) = Some (ns ! i)"
  by (simp add: node_before_def)

lemma walk_diagonal_run:
  assumes "\<And>j. j < i \<Longrightarrow> matches_at a b (x + j) (y + j)" "px \<le> x" "py \<le> int y" "px = x \<or> py = int y"
  shows "walk_diagonal a b px py (x + i) (y + i) res = Some (res @ rev (kept_run a b x y i), x, y)"
  using assms(1)
proof (induction i arbitrary: res)
  case 0
  then show ?case using assms(2-4) by (subst walk_diagonal.simps) auto
next
  case (Suc i)
  have m: "matches_at a b (x + i) (y + i)" using Suc.prems by simp
  have "walk_diagonal a b px py (x + Suc i) (y + Suc i) res
      = walk_diagonal a b px py (x + i) (y + i) (res @ [Keep (a ! (x + i)) (b ! (y + i))])"
    using assms(2,3) m by (subst walk_diagonal.simps) (auto simp: node_before_nth matches_at_def)
  then show ?case using Suc by simp
qed

lemma walk_deletions_none [simp]: "walk_deletions a x x res = Some (res, x)"
  by (subst walk_deletions.simps) simp

lemma walk_deletions_one: "x < length a \<Longrightarrow> walk_deletions a x (Suc x) res = Some (res @ [Remove (a ! x)], x)"
  by (subst walk_deletions.simps) (simp add: node_before_nth)

lemma walk_additions_none [simp]: "walk_additions b (int y) y res = Some (res, y)"
  by (subst walk_additions.simps) simp

lemma walk_additions_one: "y < length b \<Longrightarrow> walk_additions b (int y) (Suc y) res = Some (res @ [Add (b ! y)], y)"
  by (subst walk_additions.simps) (simp add: node_before_nth)

lemma extract_rounds_script:
  assumes "\<And>c. c \<le> d \<Longrightarrow> ready a b c (tr ! c)" "d < length tr" "on_diag d k"
    and "reach a b d k \<le> length a" "int (reach a b d k) - k \<le> int (length b)"
  shows "\<exists>es. extract_rounds tr a b (Suc d) (reach a b d k) (nat (int (reach a b d k) - k)) res = Some (res @ rev es)
    \<and> edit_script (take (reach a b d k) a) (take (nat (int (reach a b d k) - k)) b) es \<and> edits es = d"
  using assms
proof (induction d arbitrary: k res)
  case 0
  have k: "k = 0" using 0 by (simp add: on_diag_def)
  obtain i where i: "advance a b 0 0 = (0 + i, 0 + i)" "\<And>j. j < i \<Longrightarrow> matches_at a b (0 + j) (0 + j)"
    by (rule advance_spec[of a b 0 0]) blast
  have "walk_diagonal a b 0 (-1) i i res = Some (res @ rev (kept_run a b 0 0 i), 0, 0)"
    using walk_diagonal_run[of i a b 0 0 0 "-1" res] i(2) by simp
  moreover have "edit_script (take i a) (take i b) (kept_run a b 0 0 i)"
    using edit_script_kept_run[of 0 a 0 b "[]" i] i(2) by (simp add: edit_script_Nil)
  moreover have "tr ! 0 \<noteq> tr ! 0 \<or> (tr ! 0) 1 = Some 0" using 0(1)[of 0] by simp
  ultimately show ?case
    using 0(2) i(1) k by (auto simp: extract_rounds.simps(2) comes_from_above_def reach.simps(1) intro!: exI[of _ "kept_run a b 0 0 i"])
next
  case (Suc d)
  let ?v = "tr ! Suc d" and ?x = "reach a b (Suc d) k" and ?s = "start_at a b d k"
  let ?y = "nat (int ?x - k)" and ?t = "nat (int ?s - k)"
  have rv: "ready a b (Suc d) ?v" using Suc.prems(1) by blast
  have ks: "k \<le> int ?s" using start_ge_diag[OF Suc.prems(3)] .
  obtain i where i: "?x = ?s + i" "\<And>j. j < i \<Longrightarrow> matches_at a b (?s + j) (?t + j)"
    using reach_run[OF Suc.prems(3), of a b] by metis
  have y: "?y = ?t + i" "int ?y = int ?x - k" "int ?t = int ?s - k" using i(1) ks by auto
  have in_grid: "?s \<le> length a" "?t \<le> length b" using Suc.prems(4,5) i(1) y by auto
  have from_prev: "\<exists>es. extract_rounds tr a b (Suc d) (reach a b d j) (nat (int (reach a b d j) - j)) r = Some (r @ rev es)
      \<and> edit_script (take (reach a b d j) a) (take (nat (int (reach a b d j) - j)) b) es \<and> edits es = d"
    if "on_diag d j" "reach a b d j \<le> length a" "int (reach a b d j) - j \<le> int (length b)" for j r
    using Suc.IH[of j r] Suc.prems(1,2) that by auto
  show ?case
  proof (rule on_diag_cases[OF Suc.prems(3), of a b])
    assume a: "from_above a b d k" "on_diag d (k + 1)" "?s = reach a b d (k + 1)"
    let ?r = "res @ rev (kept_run a b ?s ?t i)"
    have pk: "k + 1 \<le> int ?s" using reach_ge_diag[OF a(2), of a b] a(3) by simp
    define u where "u = nat (int ?s - (k + 1))"
    have t: "?t = Suc u" "int u = int ?s - (k + 1)" using pk unfolding u_def by linarith+
    have "walk_diagonal a b ?s (int ?s - (k + 1)) (?s + i) (?t + i) res = Some (?r, ?s, ?t)"
      by (rule walk_diagonal_run) (use i(2) y(3) in auto)
    then have w: "walk_diagonal a b ?s (int ?s - (k + 1)) ?x ?y res = Some (?r, ?s, Suc u)"
      unfolding i(1)[symmetric] y(1)[symmetric] by (simp only: t(1))
    have vk: "?v (k + 1) = Some ?s" using rv a by simp
    have ub: "u < length b" using in_grid t by simp
    obtain es where es: "extract_rounds tr a b (Suc d) ?s u (?r @ [Add (b ! u)]) = Some ((?r @ [Add (b ! u)]) @ rev es)"
        "edit_script (take ?s a) (take u b) es" "edits es = d"
      using from_prev[OF a(2), of "?r @ [Add (b ! u)]"] a(3) in_grid t ub unfolding u_def
      by auto
    have ex: "extract_rounds tr a b (Suc (Suc d)) ?x ?y res = Some (res @ rev (es @ [Add (b ! u)] @ kept_run a b ?s ?t i))"
      using Suc.prems(2) comes_from_above_ready[OF rv Suc.prems(3)] a(1) vk w es(1) ub y(2)
        walk_additions_one[OF ub, of ?r]
      by (subst extract_rounds.simps) (simp add: Let_def flip: t(2))
    have "edit_script (take (?s + i) a) (take (?t + i) b) ((es @ [Add (b ! u)]) @ kept_run a b ?s ?t i)"
      by (rule edit_script_kept_run) (use edit_script_Add[OF es(2) ub] t(1) i(2) in simp_all)
    then have "edit_script (take ?x a) (take ?y b) ((es @ [Add (b ! u)]) @ kept_run a b ?s ?t i)"
      unfolding y(1)[symmetric] i(1)[symmetric] .
    then show ?thesis using ex es(3) by (intro exI[of _ "es @ [Add (b ! u)] @ kept_run a b ?s ?t i"]) simp
  next
    assume a: "\<not> from_above a b d k" "on_diag d (k - 1)" "?s = reach a b d (k - 1) + 1"
    let ?p = "reach a b d (k - 1)"
    let ?r = "res @ rev (kept_run a b ?s ?t i)"
    have "walk_diagonal a b ?p (int ?p - (k - 1)) (?s + i) (?t + i) res = Some (?r, ?s, ?t)"
      by (rule walk_diagonal_run) (use i(2) y(3) a(3) in auto)
    then have w: "walk_diagonal a b ?p (int ?p - (k - 1)) ?x ?y res = Some (?r, Suc ?p, ?t)"
      unfolding i(1)[symmetric] y(1)[symmetric] using a(3) by simp
    have vk: "?v (k - 1) = Some ?p" using rv a by simp
    have pb: "?p < length a" using in_grid a(3) by simp
    have t: "int ?p - (k - 1) = int ?t" using y(3) a(3) by simp
    then have tt: "nat (int ?p - (k - 1)) = ?t" by (metis nat_int)
    have le: "int ?p - (k - 1) \<le> int (length b)" using in_grid(2) t by linarith
    obtain es where es: "extract_rounds tr a b (Suc d) ?p ?t (?r @ [Remove (a ! ?p)]) = Some ((?r @ [Remove (a ! ?p)]) @ rev es)"
        "edit_script (take ?p a) (take ?t b) es" "edits es = d"
      using from_prev[OF a(2), of "?r @ [Remove (a ! ?p)]", unfolded tt] le pb by auto
    have ex: "extract_rounds tr a b (Suc (Suc d)) ?x ?y res = Some (res @ rev (es @ [Remove (a ! ?p)] @ kept_run a b ?s ?t i))"
      using Suc.prems(2) comes_from_above_ready[OF rv Suc.prems(3)] a(1) vk w es(1) y(2)
        walk_deletions_one[OF pb, of ?r]
      by (subst extract_rounds.simps) (simp add: Let_def t del: int_nat_eq)
    have "edit_script (take (?s + i) a) (take (?t + i) b) ((es @ [Remove (a ! ?p)]) @ kept_run a b ?s ?t i)"
      by (rule edit_script_kept_run) (use edit_script_Remove[OF es(2) pb] a(3) i(2) in simp_all)
    then have "edit_script (take ?x a) (take ?y b) ((es @ [Remove (a ! ?p)]) @ kept_run a b ?s ?t i)"
      unfolding y(1)[symmetric] i(1)[symmetric] .
    then show ?thesis using ex es(3) by (intro exI[of _ "es @ [Remove (a ! ?p)] @ kept_run a b ?s ?t i"]) simp
  qed
qed

lemma myers_script:
  assumes "small a" "small b"
  obtains tr es where "calculate_trace a b = Some (Inr (tr, length a, length b))"
    "extract_diff tr (length a) (length b) a b = Some es" "edit_script a b es"
    "\<And>fs. edit_script a b fs \<Longrightarrow> edits es \<le> edits fs"
proof -
  let ?k = "int (length a) - int (length b)"
  obtain tr d where t: "calculate_trace a b = Some (Inr (tr, length a, length b))" "trace_spec a b tr d"
    using calculate_trace_spec[OF assms] by blast
  have r: "reach a b d ?k = length a"
    using finished_exact[of d ?k a b] t(2) unfolding trace_spec_def by blast
  have y: "nat (int (length a) - ?k) = length b" by simp
  obtain es where es: "extract_rounds tr a b (Suc d) (length a) (length b) [] = Some (rev es)"
      "edit_script a b es" "edits es = d"
    using extract_rounds_script[of d a b tr ?k "[]", unfolded r y] t(2) unfolding trace_spec_def by auto
  have "edits es \<le> edits fs" if "edit_script a b fs" for fs
  proof (rule ccontr)
    assume "\<not> edits es \<le> edits fs"
    then have "edits fs < d" using es(3) by simp
    then show False using script_finishes[OF that] t(2) unfolding trace_spec_def by blast
  qed
  moreover have "extract_diff tr (length a) (length b) a b = Some es"
    using es(1) t(2) by (simp add: extract_diff_def trace_spec_def)
  ultimately show thesis using that t(1) es(2) by blast
qed

text \<open>
  C16. The search always converges, without a panic, and what is read back from its trace is a
  shortest script that turns the old nodes into the new ones, kept pairs having equal name and kind.
\<close>

theorem myers_shortest_script:
  assumes "small a" "small b"
  shows "\<exists>tr es. calculate_trace a b = Some (Inr (tr, length a, length b))
    \<and> extract_diff tr (length a) (length b) a b = Some es
    \<and> edit_script a b es \<and> (\<forall>fs. edit_script a b fs \<longrightarrow> edits es \<le> edits fs)"
  using myers_script[OF assms] by metis

definition example_node :: "u8 list \<Rightarrow> u64 \<Rightarrow> def_signature_node" where
  "example_node n h = def_signature_node_new n True h h"

lemma myers_shortest_script_witness:
  "\<exists>tr es. calculate_trace [example_node [1] 0, example_node [2] 0, example_node [3] 0]
      [example_node [2] 0, example_node [3] 1, example_node [1] 0] = Some (Inr (tr, 3, 3))
    \<and> extract_diff tr 3 3 [example_node [1] 0, example_node [2] 0, example_node [3] 0]
        [example_node [2] 0, example_node [3] 1, example_node [1] 0] = Some es
    \<and> edits es \<le> 2"
proof -
  let ?a = "[example_node [1] 0, example_node [2] 0, example_node [3] 0]"
  let ?b = "[example_node [2] 0, example_node [3] 1, example_node [1] 0]"
  let ?f = "[Remove (example_node [1] 0), Keep (example_node [2] 0) (example_node [2] 0),
    Keep (example_node [3] 0) (example_node [3] 1), Add (example_node [1] 0)]"
  obtain tr es where "calculate_trace ?a ?b = Some (Inr (tr, length ?a, length ?b))"
    "extract_diff tr (length ?a) (length ?b) ?a ?b = Some es"
    "\<forall>fs. edit_script ?a ?b fs \<longrightarrow> edits es \<le> edits fs"
    using myers_shortest_script[of ?a ?b] by (auto simp: small_def)
  moreover have "edit_script ?a ?b ?f"
    by (simp add: edit_script_def example_node_def def_signature_node_new_def node_is_equal_def)
  moreover have "edits ?f = 2" by simp
  ultimately show ?thesis by (metis list.size(3,4) One_nat_def add_Suc add_0 numeral_3_eq_3 plus_1_eq_Suc Suc_eq_plus1)
qed

section \<open>Kept and changed symbols\<close>

definition same_member :: "def_signature_node \<Rightarrow> def_signature_node \<Rightarrow> bool" where
  "same_member p q \<longleftrightarrow> node_is_equal p q \<and> signature_hash p = signature_hash q"

text \<open>Two declarations with one signature: name, kind, own hash and the members in order.\<close>

definition same_signature :: "def_signature_node \<Rightarrow> def_signature_node \<Rightarrow> bool" where
  "same_signature a b \<longleftrightarrow> same_member a b \<and> list_all2 same_member (node_children a) (node_children b)"

definition node_symbols :: "def_signature_node \<Rightarrow> symbol_identifier set" where
  "node_symbols nd = insert (node_name nd, empty_word) (Pair (node_name nd) ` node_name ` set (node_children nd))"

lemma set_mark_children [simp]: "set (mark_children n cs s) = Pair n ` node_name ` set cs \<union> set s"
  by (induction cs arbitrary: s) auto

lemma set_mark_node [simp]: "set (mark_node nd s) = node_symbols nd \<union> set s"
  by (auto simp: mark_node_def node_symbols_def)

lemma set_fold_insert [simp]: "set (fold List.insert xs s) = set xs \<union> set s"
  by (induction xs arbitrary: s) auto

lemma set_collect_set [simp]: "set (collect_set xs) = set xs"
  by (simp add: collect_set_def)

lemma set_fold_mark_node [simp]: "set (fold mark_node ns s) = (\<Union>nd\<in>set ns. node_symbols nd) \<union> set s"
  by (induction ns arbitrary: s) auto

lemma with_simps [simp]:
  "diff_keep (with_keep d xs) = collect_set xs" "diff_changed (with_keep d xs) = diff_changed d"
  "diff_keep (with_changed d xs) = diff_keep d" "diff_changed (with_changed d xs) = collect_set xs"
  "diff_keep codebase_diff_new = []" "diff_changed codebase_diff_new = []"
  by (simp_all add: with_keep_def with_changed_def codebase_diff_new_def)

definition kept_members :: "bytes \<Rightarrow> ast_diff_elem list \<Rightarrow> symbol_identifier set" where
  "kept_members n es = {(n, node_name p) |p q. Keep p q \<in> set es \<and> signature_hash p = signature_hash q}"

definition changed_members :: "bytes \<Rightarrow> ast_diff_elem list \<Rightarrow> symbol_identifier set" where
  "changed_members n es = {(n, node_name p) |p q. Keep p q \<in> set es \<and> signature_hash p \<noteq> signature_hash q}
     \<union> {(n, node_name c) |c. Remove c \<in> set es \<or> Add c \<in> set es}"

lemma members_Nil: "kept_members n [] = {}" "changed_members n [] = {}"
  by (auto simp: kept_members_def changed_members_def)

lemma members_Cons:
  "kept_members n (Keep p q # es) = (if signature_hash p = signature_hash q then {(n, node_name p)} else {}) \<union> kept_members n es"
  "kept_members n (Remove c # es) = kept_members n es"
  "kept_members n (Add c # es) = kept_members n es"
  "changed_members n (Keep p q # es) = (if signature_hash p = signature_hash q then {} else {(n, node_name p)}) \<union> changed_members n es"
  "changed_members n (Remove c # es) = insert (n, node_name c) (changed_members n es)"
  "changed_members n (Add c # es) = insert (n, node_name c) (changed_members n es)"
  by (auto simp: kept_members_def changed_members_def)

lemma member_diff_sets:
  obtains k c where "member_diff n es ((keep, changed), f) = ((k, c), f \<or> changed_members n es \<noteq> {})"
    "set k = set keep \<union> kept_members n es" "set c = set changed \<union> changed_members n es"
proof -
  have "\<exists>k c. member_diff n es ((keep, changed), f) = ((k, c), f \<or> changed_members n es \<noteq> {})
      \<and> set k = set keep \<union> kept_members n es \<and> set c = set changed \<union> changed_members n es"
    by (induction n es "((keep, changed), f)" arbitrary: keep changed f rule: member_diff.induct)
      (auto simp: members_Nil members_Cons)
  then show thesis using that by blast
qed

lemma edit_script_members:
  assumes "edit_script a b es"
  shows "kept_members n es \<union> changed_members n es = Pair n ` node_name ` (set a \<union> set b)"
proof -
  have "kept_members n es \<union> changed_members n es = Pair n ` node_name ` (set (old_nodes es) \<union> set (new_nodes es))"
    using assms unfolding edit_script_def
  proof (induction es arbitrary: a b)
    case (Cons e es)
    then have "kept_members n es \<union> changed_members n es = Pair n ` node_name ` (set (old_nodes es) \<union> set (new_nodes es))"
      by auto
    then show ?case
      using Cons.prems by (cases e) (auto simp: members_Cons node_is_equal_def)
  qed (simp add: members_Nil)
  then show ?thesis using assms by (simp add: edit_script_def)
qed

text \<open>A script without edits pairs the two lists up.\<close>

lemma edits_zero_pairs:
  assumes "edits es = 0" "edit_script a b es"
  shows "list_all2 (\<lambda>p q. Keep p q \<in> set es) a b"
proof -
  have "list_all2 (\<lambda>p q. Keep p q \<in> set es) (old_nodes es) (new_nodes es)"
    using assms(1) by (induction es rule: edits.induct) (auto elim: list_all2_mono)
  then show ?thesis using assms(2) by (simp add: edit_script_def)
qed

lemma pairs_script:
  "list_all2 node_is_equal a b \<Longrightarrow> edit_script a b (map2 Keep a b) \<and> edits (map2 Keep a b) = 0"
  by (induction a b rule: list_all2_induct) (auto simp: edit_script_def)

lemma shortest_pairs:
  assumes "edit_script a b es" "\<And>fs. edit_script a b fs \<Longrightarrow> edits es \<le> edits fs" "list_all2 node_is_equal a b"
  shows "edits es = 0" "list_all2 (\<lambda>p q. Keep p q \<in> set es) a b"
proof -
  show "edits es = 0" using assms(2)[of "map2 Keep a b"] pairs_script[OF assms(3)] by simp
  then show "list_all2 (\<lambda>p q. Keep p q \<in> set es) a b" using edits_zero_pairs assms(1) by blast
qed

lemma edits_zero_iff: "edits es = 0 \<longleftrightarrow> (\<forall>e\<in>set es. \<exists>p q. e = Keep p q)"
  by (induction es rule: edits.induct) auto

lemma zip_of_keeps: "edits es = 0 \<Longrightarrow> es = map2 Keep (old_nodes es) (new_nodes es)"
  by (induction es rule: edits.induct) auto

lemma no_member_changed:
  assumes "edit_script a b es" "\<And>fs. edit_script a b fs \<Longrightarrow> edits es \<le> edits fs"
  shows "changed_members n es = {} \<longleftrightarrow> list_all2 same_member a b"
proof
  assume "changed_members n es = {}"
  then have "\<forall>e\<in>set es. \<exists>p q. e = Keep p q \<and> signature_hash p = signature_hash q"
    by (auto simp: changed_members_def) (metis ast_diff_elem.exhaust)
  then have k: "edits es = 0" "\<And>p q. Keep p q \<in> set es \<Longrightarrow> signature_hash p = signature_hash q"
    by (auto simp: edits_zero_iff)
  then show "list_all2 same_member a b"
    using edits_zero_pairs[OF k(1) assms(1)] assms(1)
    by (auto simp: edit_script_def same_member_def elim!: list_all2_mono)
next
  assume s: "list_all2 same_member a b"
  then have e: "list_all2 node_is_equal a b" by (auto simp: same_member_def elim: list_all2_mono)
  have z: "edits es = 0" using shortest_pairs(1)[OF assms e] by simp
  have m: "es = map2 Keep a b" using zip_of_keeps[OF z] assms(1) by (simp add: edit_script_def)
  show "changed_members n es = {}"
    using s unfolding m by (induction a b rule: list_all2_induct) (auto simp: members_Nil members_Cons same_member_def)
qed

lemma keep_diff_sets:
  assumes "small (node_children a)" "small (node_children b)" "node_is_equal a b"
  obtains es where "edit_script (node_children a) (node_children b) es"
    "same_signature a b \<Longrightarrow> changed_members (node_name a) es = {}"
    "\<And>k c. \<exists>k' c'. keep_diff a b (k, c) = Some (k', c')
      \<and> set k' = set k \<union> (kept_members (node_name a) es \<union> (if same_signature a b then {(node_name a, empty_word)} else {}))
      \<and> set c' = set c \<union> (changed_members (node_name a) es \<union> (if same_signature a b then {} else {(node_name a, empty_word)}))"
proof -
  let ?n = "node_name a"
  obtain tr es where es: "calculate_trace (node_children a) (node_children b)
      = Some (Inr (tr, length (node_children a), length (node_children b)))"
    "extract_diff tr (length (node_children a)) (length (node_children b)) (node_children a) (node_children b) = Some es"
    "edit_script (node_children a) (node_children b) es"
    "\<And>fs. edit_script (node_children a) (node_children b) fs \<Longrightarrow> edits es \<le> edits fs"
    using myers_script[OF assms(1,2)] by metis
  have same: "same_signature a b \<longleftrightarrow> changed_members ?n es = {} \<and> signature_hash a = signature_hash b"
    using no_member_changed[OF es(3,4)] assms(3) by (auto simp: same_signature_def same_member_def)
  have "\<exists>k' c'. keep_diff a b (k, c) = Some (k', c')
      \<and> set k' = set k \<union> (kept_members ?n es \<union> (if same_signature a b then {(?n, empty_word)} else {}))
      \<and> set c' = set c \<union> (changed_members ?n es \<union> (if same_signature a b then {} else {(?n, empty_word)}))" for k c
  proof -
    obtain k1 c1 where m: "member_diff ?n es ((k, c), False) = ((k1, c1), False \<or> changed_members ?n es \<noteq> {})"
      "set k1 = set k \<union> kept_members ?n es" "set c1 = set c \<union> changed_members ?n es"
      using member_diff_sets[of ?n es k c False] by metis
    have "keep_diff a b (k, c) = (if same_signature a b then Some (List.insert (?n, empty_word) k1, c1)
        else Some (k1, List.insert (?n, empty_word) c1))"
      using es(1,2) m(1) unfolding same by (simp add: keep_diff_def)
    then show ?thesis using m(2,3) by auto
  qed
  then show thesis using that es(3) same by blast
qed

text \<open>What an element of the script adds to the two sets.\<close>

definition node_diff :: "def_signature_node \<Rightarrow> def_signature_node \<Rightarrow> diff_sets" where
  "node_diff a b = the (keep_diff a b ([], []))"

fun elem_kept :: "ast_diff_elem \<Rightarrow> symbol_identifier set" where
  "elem_kept (Keep a b) = set (fst (node_diff a b))"
| "elem_kept (Remove nd) = {}"
| "elem_kept (Add nd) = {}"

fun elem_changed :: "ast_diff_elem \<Rightarrow> symbol_identifier set" where
  "elem_changed (Keep a b) = set (snd (node_diff a b))"
| "elem_changed (Remove nd) = node_symbols nd"
| "elem_changed (Add nd) = node_symbols nd"

lemma kept_elem_sets:
  assumes "small (node_children a)" "small (node_children b)" "node_is_equal a b"
  obtains es where "edit_script (node_children a) (node_children b) es"
    "elem_kept (Keep a b) = kept_members (node_name a) es \<union> (if same_signature a b then {(node_name a, empty_word)} else {})"
    "elem_changed (Keep a b) = changed_members (node_name a) es \<union> (if same_signature a b then {} else {(node_name a, empty_word)})"
    "same_signature a b \<Longrightarrow> changed_members (node_name a) es = {}"
    "\<And>k c. \<exists>k' c'. keep_diff a b (k, c) = Some (k', c') \<and> set k' = set k \<union> elem_kept (Keep a b)
       \<and> set c' = set c \<union> elem_changed (Keep a b)"
proof -
  obtain es where es: "edit_script (node_children a) (node_children b) es"
    "same_signature a b \<Longrightarrow> changed_members (node_name a) es = {}"
    "\<And>k c. \<exists>k' c'. keep_diff a b (k, c) = Some (k', c')
      \<and> set k' = set k \<union> (kept_members (node_name a) es \<union> (if same_signature a b then {(node_name a, empty_word)} else {}))
      \<and> set c' = set c \<union> (changed_members (node_name a) es \<union> (if same_signature a b then {} else {(node_name a, empty_word)}))"
    by (rule keep_diff_sets[OF assms]) blast
  have "elem_kept (Keep a b) = kept_members (node_name a) es \<union> (if same_signature a b then {(node_name a, empty_word)} else {})"
    "elem_changed (Keep a b) = changed_members (node_name a) es \<union> (if same_signature a b then {} else {(node_name a, empty_word)})"
    using es(3)[of "[]" "[]"] by (auto simp: node_diff_def)
  then show thesis using that[OF es(1) _ _ es(2)] es(3) by simp
qed

lemma keep_elem_covers:
  assumes "small (node_children a)" "small (node_children b)" "node_is_equal a b"
  shows "elem_kept (Keep a b) \<union> elem_changed (Keep a b) = node_symbols a \<union> node_symbols b"
proof -
  obtain es where es: "edit_script (node_children a) (node_children b) es"
    "elem_kept (Keep a b) = kept_members (node_name a) es \<union> (if same_signature a b then {(node_name a, empty_word)} else {})"
    "elem_changed (Keep a b) = changed_members (node_name a) es \<union> (if same_signature a b then {} else {(node_name a, empty_word)})"
    by (rule kept_elem_sets[OF assms]) blast
  have "kept_members (node_name a) es \<union> changed_members (node_name a) es
      = Pair (node_name a) ` node_name ` (set (node_children a) \<union> set (node_children b))"
    using edit_script_members[OF es(1)] .
  then have "elem_kept (Keep a b) \<union> elem_changed (Keep a b)
      = insert (node_name a, empty_word) (Pair (node_name a) ` node_name ` (set (node_children a) \<union> set (node_children b)))"
    unfolding es(2,3) by auto
  also have "\<dots> = node_symbols a \<union> node_symbols b"
    using assms(3) by (auto simp: node_symbols_def node_is_equal_def)
  finally show ?thesis .
qed

lemma keep_elem_changed:
  assumes "small (node_children a)" "small (node_children b)" "node_is_equal a b"
  shows "elem_changed (Keep a b) = {} \<longleftrightarrow> same_signature a b"
    "(node_name a, empty_word) \<in> elem_changed (Keep a b) \<or> same_signature a b"
proof -
  obtain es where es:
    "elem_changed (Keep a b) = changed_members (node_name a) es \<union> (if same_signature a b then {} else {(node_name a, empty_word)})"
    "same_signature a b \<Longrightarrow> changed_members (node_name a) es = {}"
    by (rule kept_elem_sets[OF assms]) blast
  then show "elem_changed (Keep a b) = {} \<longleftrightarrow> same_signature a b"
    "(node_name a, empty_word) \<in> elem_changed (Keep a b) \<or> same_signature a b"
    by auto
qed

text \<open>The part of a symbol's declaration that its signature hash stands for is the same in both.\<close>

definition unchanged_between :: "symbol_identifier \<Rightarrow> def_signature_node \<Rightarrow> def_signature_node \<Rightarrow> bool" where
  "unchanged_between s a b \<longleftrightarrow> fst s = node_name a \<and> node_is_equal a b \<and>
     (snd s = empty_word \<and> same_signature a b
      \<or> (\<exists>p\<in>set (node_children a). \<exists>q\<in>set (node_children b). node_name p = snd s \<and> same_member p q))"

lemma script_nodes:
  "Keep p q \<in> set es \<Longrightarrow> p \<in> set (old_nodes es) \<and> q \<in> set (new_nodes es)"
  "Remove p \<in> set es \<Longrightarrow> p \<in> set (old_nodes es)" "Add q \<in> set es \<Longrightarrow> q \<in> set (new_nodes es)"
  by (induction es rule: old_nodes.induct) auto

lemma edit_script_mem:
  assumes "edit_script a b es"
  shows "Keep p q \<in> set es \<Longrightarrow> p \<in> set a \<and> q \<in> set b \<and> node_is_equal p q"
    "Remove p \<in> set es \<Longrightarrow> p \<in> set a" "Add q \<in> set es \<Longrightarrow> q \<in> set b"
  using assms script_nodes by (auto simp: edit_script_def)

lemma edit_script_origin:
  assumes "edit_script a b es"
  shows "p \<in> set a \<Longrightarrow> Remove p \<in> set es \<or> (\<exists>q. Keep p q \<in> set es)"
    "q \<in> set b \<Longrightarrow> Add q \<in> set es \<or> (\<exists>p. Keep p q \<in> set es)"
proof -
  have "(p \<in> set (old_nodes es) \<longrightarrow> Remove p \<in> set es \<or> (\<exists>q. Keep p q \<in> set es))
      \<and> (q \<in> set (new_nodes es) \<longrightarrow> Add q \<in> set es \<or> (\<exists>p. Keep p q \<in> set es))"
    by (induction es rule: old_nodes.induct) auto
  then show "p \<in> set a \<Longrightarrow> Remove p \<in> set es \<or> (\<exists>q. Keep p q \<in> set es)"
    "q \<in> set b \<Longrightarrow> Add q \<in> set es \<or> (\<exists>p. Keep p q \<in> set es)"
    using assms by (auto simp: edit_script_def)
qed

lemma keep_elem_kept:
  assumes "small (node_children a)" "small (node_children b)" "node_is_equal a b" "s \<in> elem_kept (Keep a b)"
  shows "unchanged_between s a b"
proof -
  obtain es where es: "edit_script (node_children a) (node_children b) es"
    "elem_kept (Keep a b) = kept_members (node_name a) es \<union> (if same_signature a b then {(node_name a, empty_word)} else {})"
    by (rule kept_elem_sets[OF assms(1-3)]) blast
  consider (member) "s \<in> kept_members (node_name a) es" | (whole) "s = (node_name a, empty_word)" "same_signature a b"
    using assms(4) unfolding es(2) by (auto split: if_splits)
  then show ?thesis
  proof cases
    case member
    then obtain p q where pq: "s = (node_name a, node_name p)" "Keep p q \<in> set es" "signature_hash p = signature_hash q"
      by (auto simp: kept_members_def)
    then show ?thesis
      using edit_script_mem(1)[OF es(1) pq(2)] assms(3) by (auto simp: unchanged_between_def same_member_def)
  qed (auto simp: unchanged_between_def assms(3))
qed

definition small_nodes :: "def_signature_node list \<Rightarrow> bool" where
  "small_nodes ns \<longleftrightarrow> small ns \<and> (\<forall>nd\<in>set ns. small (node_children nd))"

lemma top_diff_sets:
  assumes "\<And>a b. Keep a b \<in> set es \<Longrightarrow> node_is_equal a b \<and> small (node_children a) \<and> small (node_children b)"
  shows "\<exists>k' c'. top_diff es (k, c) = Some (k', c') \<and> set k' = set k \<union> (\<Union>e\<in>set es. elem_kept e)
    \<and> set c' = set c \<union> (\<Union>e\<in>set es. elem_changed e)"
  using assms
proof (induction es arbitrary: k c)
  case (Cons e es)
  have IH: "\<exists>k' c'. top_diff es (k, c) = Some (k', c') \<and> set k' = set k \<union> (\<Union>e\<in>set es. elem_kept e)
    \<and> set c' = set c \<union> (\<Union>e\<in>set es. elem_changed e)" for k c
    by (rule Cons.IH, rule Cons.prems) simp
  show ?case
  proof (cases e)
    case (Keep a b)
    then have p: "node_is_equal a b" "small (node_children a)" "small (node_children b)" using Cons.prems by auto
    obtain k1 c1 where k1: "keep_diff a b (k, c) = Some (k1, c1)" "set k1 = set k \<union> elem_kept e"
      "set c1 = set c \<union> elem_changed e"
      using Keep by (cases rule: kept_elem_sets[OF p(2,3,1)]) metis
    obtain k2 c2 where "top_diff es (k1, c1) = Some (k2, c2)" "set k2 = set k1 \<union> (\<Union>e\<in>set es. elem_kept e)"
      "set c2 = set c1 \<union> (\<Union>e\<in>set es. elem_changed e)"
      using IH by blast
    then show ?thesis using k1 Keep by (auto simp del: elem_kept.simps elem_changed.simps)
  next
    case (Remove nd)
    then show ?thesis using IH[of k "mark_node nd c"] by auto
  next
    case (Add nd)
    then show ?thesis using IH[of k "mark_node nd c"] by auto
  qed
qed auto

lemma myers_diff_sets:
  assumes "small_nodes (ast_nodes old)" "small_nodes (ast_nodes new)"
  obtains es d where "edit_script (ast_nodes old) (ast_nodes new) es"
    "\<And>fs. edit_script (ast_nodes old) (ast_nodes new) fs \<Longrightarrow> edits es \<le> edits fs"
    "myers_diff old new = Some d" "set (diff_keep d) = (\<Union>e\<in>set es. elem_kept e)"
    "set (diff_changed d) = (\<Union>e\<in>set es. elem_changed e)"
proof -
  have sm: "small (ast_nodes old)" "small (ast_nodes new)" using assms by (auto simp: small_nodes_def)
  obtain tr es where es: "calculate_trace (ast_nodes old) (ast_nodes new)
      = Some (Inr (tr, length (ast_nodes old), length (ast_nodes new)))"
    "extract_diff tr (length (ast_nodes old)) (length (ast_nodes new)) (ast_nodes old) (ast_nodes new) = Some es"
    "edit_script (ast_nodes old) (ast_nodes new) es"
    "\<And>fs. edit_script (ast_nodes old) (ast_nodes new) fs \<Longrightarrow> edits es \<le> edits fs"
    by (rule myers_script[OF sm]) blast
  have "node_is_equal a b \<and> small (node_children a) \<and> small (node_children b)" if "Keep a b \<in> set es" for a b
    using edit_script_mem(1)[OF es(3) that] assms by (auto simp: small_nodes_def)
  from top_diff_sets[of es "[]" "[]", OF this] obtain k c where kc: "top_diff es ([], []) = Some (k, c)"
    "set k = set [] \<union> (\<Union>e\<in>set es. elem_kept e)" "set c = set [] \<union> (\<Union>e\<in>set es. elem_changed e)" by blast
  have "myers_diff old new = Some (with_changed (with_keep codebase_diff_new k) c)"
    using es(1,2) kc(1) by (simp add: myers_diff_def)
  then show thesis using that[OF es(3,4)] kc(2,3) by simp
qed

lemma script_covers:
  assumes "edit_script a b es" "small_nodes a" "small_nodes b"
  shows "(\<Union>e\<in>set es. elem_kept e \<union> elem_changed e) = (\<Union>nd\<in>set a \<union> set b. node_symbols nd)"
proof -
  have cover: "elem_kept e \<union> elem_changed e = (case e of Keep p q \<Rightarrow> node_symbols p \<union> node_symbols q
      | Remove p \<Rightarrow> node_symbols p | Add q \<Rightarrow> node_symbols q)" if "e \<in> set es" for e
  proof (cases e)
    case (Keep p q)
    then show ?thesis
      using keep_elem_covers[of p q] edit_script_mem(1)[OF assms(1), of p q] that assms(2,3)
      by (simp del: elem_kept.simps elem_changed.simps add: small_nodes_def)
  qed simp_all
  have "elem_kept e \<union> elem_changed e \<subseteq> (\<Union>nd\<in>set a \<union> set b. node_symbols nd)" if "e \<in> set es" for e
  proof (cases e)
    case (Keep p q)
    then show ?thesis using cover[OF that] edit_script_mem(1)[OF assms(1), of p q] that by simp blast
  next
    case (Remove p)
    then show ?thesis using edit_script_mem(2)[OF assms(1), of p] that by auto
  next
    case (Add q)
    then show ?thesis using edit_script_mem(3)[OF assms(1), of q] that by auto
  qed
  then have "(\<Union>e\<in>set es. elem_kept e \<union> elem_changed e) \<subseteq> (\<Union>nd\<in>set a \<union> set b. node_symbols nd)" by blast
  moreover have "node_symbols nd \<subseteq> (\<Union>e\<in>set es. elem_kept e \<union> elem_changed e)" if nd: "nd \<in> set a \<union> set b" for nd
  proof -
    have "\<exists>e\<in>set es. node_symbols nd \<subseteq> (case e of Keep p q \<Rightarrow> node_symbols p \<union> node_symbols q
        | Remove p \<Rightarrow> node_symbols p | Add q \<Rightarrow> node_symbols q)"
    proof -
      consider "Remove nd \<in> set es" | "Add nd \<in> set es" | q where "Keep nd q \<in> set es" | p where "Keep p nd \<in> set es"
        using edit_script_origin(1)[OF assms(1), of nd] edit_script_origin(2)[OF assms(1), of nd] nd by blast
      then show ?thesis by cases (auto intro: bexI[rotated])
    qed
    then obtain e where "e \<in> set es" "node_symbols nd \<subseteq> elem_kept e \<union> elem_changed e"
      using cover by (metis (no_types, lifting))
    then show ?thesis by blast
  qed
  ultimately show ?thesis by blast
qed

lemma script_unchanged:
  assumes "edit_script a b es" "\<And>fs. edit_script a b fs \<Longrightarrow> edits es \<le> edits fs" "small_nodes a" "small_nodes b"
  shows "(\<forall>e\<in>set es. elem_changed e = {}) \<longleftrightarrow> list_all2 same_signature a b"
proof
  have k: "node_is_equal p q" "small (node_children p)" "small (node_children q)" if "Keep p q \<in> set es" for p q
    using edit_script_mem(1)[OF assms(1) that] assms(3,4) by (auto simp: small_nodes_def)
  {
    assume n: "\<forall>e\<in>set es. elem_changed e = {}"
    have "\<exists>p q. e = Keep p q" if "e \<in> set es" for e
      using n that by (cases e) (auto simp: node_symbols_def)
    then have "edits es = 0" unfolding edits_zero_iff by blast
    then have "list_all2 (\<lambda>p q. Keep p q \<in> set es) a b" by (rule edits_zero_pairs[OF _ assms(1)])
    then show "list_all2 same_signature a b"
      by (rule list_all2_mono) (use n keep_elem_changed(1) k in blast)
  next
    assume s: "list_all2 same_signature a b"
    then have e: "list_all2 node_is_equal a b"
      by (rule list_all2_mono) (simp add: same_signature_def same_member_def)
    have m: "es = map2 Keep a b"
      using zip_of_keeps[OF shortest_pairs(1)[OF assms(1,2) e]] assms(1) by (simp add: edit_script_def)
    show "\<forall>e\<in>set es. elem_changed e = {}"
    proof
      fix e assume "e \<in> set es"
      then obtain p q where pq: "e = Keep p q" "same_signature p q"
        using s unfolding m by (auto simp: list_all2_iff)
      then show "elem_changed e = {}" using keep_elem_changed(1)[of p q] k \<open>e \<in> set es\<close> by blast
    qed
  }
qed

definition file_symbols :: "file_signature \<Rightarrow> symbol_identifier set" where
  "file_symbols sig = (\<Union>nd\<in>set (ast_nodes sig). node_symbols nd)"

text \<open>
  C7. The difference of two versions of a file: it is always computed, covers exactly the symbols
  of the two versions, keeps a symbol only when its declaration is unchanged, and reports no
  change exactly when the two versions have the same signatures in the same order.
\<close>

theorem file_diff_contract:
  assumes "small_nodes (ast_nodes old)" "small_nodes (ast_nodes new)"
  shows "\<exists>d. compute_file_diff (Some old) (Some new) = Some d
    \<and> set (diff_keep d) \<union> set (diff_changed d) = file_symbols old \<union> file_symbols new
    \<and> (\<forall>s\<in>set (diff_keep d). \<exists>a\<in>set (ast_nodes old). \<exists>b\<in>set (ast_nodes new). unchanged_between s a b)
    \<and> (\<forall>a\<in>set (ast_nodes old). (node_name a, empty_word) \<notin> set (diff_changed d)
         \<longrightarrow> (\<exists>b\<in>set (ast_nodes new). same_signature a b))
    \<and> (diff_changed d = [] \<longleftrightarrow> list_all2 same_signature (ast_nodes old) (ast_nodes new))"
proof -
  let ?a = "ast_nodes old" and ?b = "ast_nodes new"
  obtain es d where es: "edit_script ?a ?b es" "\<And>fs. edit_script ?a ?b fs \<Longrightarrow> edits es \<le> edits fs"
    and d: "myers_diff old new = Some d" "set (diff_keep d) = (\<Union>e\<in>set es. elem_kept e)"
      "set (diff_changed d) = (\<Union>e\<in>set es. elem_changed e)"
    by (rule myers_diff_sets[OF assms]) blast
  have k: "p \<in> set ?a" "q \<in> set ?b" "node_is_equal p q" "small (node_children p)" "small (node_children q)"
    if "Keep p q \<in> set es" for p q
    using edit_script_mem(1)[OF es(1) that] assms by (auto simp: small_nodes_def)
  have c1: "set (diff_keep d) \<union> set (diff_changed d) = file_symbols old \<union> file_symbols new"
    using script_covers[OF es(1) assms] unfolding d(2,3) file_symbols_def by blast
  have c2: "\<forall>s\<in>set (diff_keep d). \<exists>a\<in>set ?a. \<exists>b\<in>set ?b. unchanged_between s a b"
  proof
    fix s assume "s \<in> set (diff_keep d)"
    then obtain e where e: "e \<in> set es" "s \<in> elem_kept e" using d(2) by auto
    obtain p q where "e = Keep p q" using e(2) by (cases e) auto
    with e show "\<exists>a\<in>set ?a. \<exists>b\<in>set ?b. unchanged_between s a b"
      using keep_elem_kept[of p q s] k[of p q] e by blast
  qed
  have c3: "\<forall>a\<in>set ?a. (node_name a, empty_word) \<notin> set (diff_changed d) \<longrightarrow> (\<exists>b\<in>set ?b. same_signature a b)"
  proof (intro ballI impI)
    fix a assume a: "a \<in> set ?a" "(node_name a, empty_word) \<notin> set (diff_changed d)"
    have "Remove a \<notin> set es"
      using a(2) unfolding d(3) by (auto simp: node_symbols_def)
    then obtain q where q: "Keep a q \<in> set es" using edit_script_origin(1)[OF es(1) a(1)] by blast
    then have "(node_name a, empty_word) \<notin> elem_changed (Keep a q)" using a(2) unfolding d(3) by blast
    then show "\<exists>b\<in>set ?b. same_signature a b" using keep_elem_changed(2)[of a q] k[OF q] by blast
  qed
  have "(\<forall>e\<in>set es. elem_changed e = {}) \<longleftrightarrow> list_all2 same_signature ?a ?b"
    by (rule script_unchanged[OF es assms])
  moreover have "diff_changed d = [] \<longleftrightarrow> (\<forall>e\<in>set es. elem_changed e = {})"
    using d(3) by (metis (no_types, lifting) SUP_bot_conv(1) set_empty)
  ultimately show ?thesis using d(1) c1 c2 c3 by simp
qed

lemma example_small: "length a < 100 \<Longrightarrow> small a"
  by (simp add: small_def)

definition example_file :: "u64 \<Rightarrow> file_signature" where
  "example_file h = \<lparr>signature_file_name = [], signature_file_hash = h,
     ast_nodes = [Def_Signature_Node [65] False [example_node [1] h] 0 0, example_node [66] 0]\<rparr>"

lemma example_file_small: "small_nodes (ast_nodes (example_file h))"
  by (simp add: small_nodes_def example_small example_file_def example_node_def def_signature_node_new_def)

lemma example_files_differ: "list_all2 same_signature (ast_nodes (example_file h)) (ast_nodes (example_file k)) \<longleftrightarrow> h = k"
  by (simp add: example_file_def same_signature_def same_member_def node_is_equal_def example_node_def
      def_signature_node_new_def)

lemma file_diff_contract_witness:
  "\<exists>d. compute_file_diff (Some (example_file 3)) (Some (example_file 4)) = Some d
    \<and> set (diff_keep d) \<union> set (diff_changed d) = file_symbols (example_file 3) \<union> file_symbols (example_file 4)
    \<and> diff_changed d \<noteq> []"
  using file_diff_contract[OF example_file_small example_file_small, of 3 4] unfolding example_files_differ by auto

text \<open>The two sets of a computed difference do not meet when every name is declared once.\<close>

definition declared_once :: "file_signature \<Rightarrow> bool" where
  "declared_once sig \<longleftrightarrow> distinct (map node_name (ast_nodes sig))
     \<and> (\<forall>nd\<in>set (ast_nodes sig). distinct (map node_name (node_children nd)) \<and> [] \<notin> node_name ` set (node_children nd))"

lemma distinct_script:
  assumes "edit_script a b es" "distinct (map node_name a)" "distinct (map node_name b)" "Keep p q \<in> set es"
  shows "Remove r \<in> set es \<Longrightarrow> node_name r \<noteq> node_name p" "Add r \<in> set es \<Longrightarrow> node_name r \<noteq> node_name p"
    "Keep r t \<in> set es \<Longrightarrow> node_name r = node_name p \<Longrightarrow> r = p \<and> t = q"
proof -
  have n: "node_name p = node_name q" if "Keep p q \<in> set es" for p q
    using assms(1) that by (auto simp: edit_script_def node_is_equal_def)
  obtain e1 e2 where es: "es = e1 @ Keep p q # e2" using assms(4) by (meson split_list)
  have d: "distinct (map node_name (old_nodes e1 @ p # old_nodes e2))" "distinct (map node_name (new_nodes e1 @ q # new_nodes e2))"
    using assms(1-3) es by (simp_all add: edit_script_def)
  have o: "node_name p \<noteq> node_name x" if "x \<in> set (old_nodes e1) \<union> set (old_nodes e2)" for x
    using that d(1) by auto
  have w: "node_name q \<noteq> node_name x" if "x \<in> set (new_nodes e1) \<union> set (new_nodes e2)" for x
    using that d(2) by auto
  have "Remove r \<in> set es \<longrightarrow> r \<in> set (old_nodes e1) \<union> set (old_nodes e2)"
    "Add r \<in> set es \<longrightarrow> r \<in> set (new_nodes e1) \<union> set (new_nodes e2)"
    "Keep r t \<in> set es \<longrightarrow> r = p \<and> t = q \<or> r \<in> set (old_nodes e1) \<union> set (old_nodes e2)"
    using script_nodes unfolding es by auto
  then show "Remove r \<in> set es \<Longrightarrow> node_name r \<noteq> node_name p" "Add r \<in> set es \<Longrightarrow> node_name r \<noteq> node_name p"
    "Keep r t \<in> set es \<Longrightarrow> node_name r = node_name p \<Longrightarrow> r = p \<and> t = q"
    using n[OF assms(4)] o w by metis+
qed

lemma disjoint_members:
  assumes "edit_script a b es" "distinct (map node_name a)" "distinct (map node_name b)"
  shows "kept_members n es \<inter> changed_members n es = {}"
proof -
  have False if s: "s \<in> kept_members n es" "s \<in> changed_members n es" for s
  proof -
    obtain p q where pq: "s = (n, node_name p)" "Keep p q \<in> set es" "signature_hash p = signature_hash q"
      using s(1) by (auto simp: kept_members_def)
    note d = distinct_script[OF assms pq(2)]
    show False using s(2) pq(1,3) d by (fastforce simp: changed_members_def)
  qed
  then show ?thesis by blast
qed

lemma elem_changed_name: "small (node_children a) \<Longrightarrow> small (node_children b) \<Longrightarrow> node_is_equal a b
    \<Longrightarrow> s \<in> elem_changed (Keep a b) \<Longrightarrow> fst s = node_name a"
proof -
  assume "small (node_children a)" "small (node_children b)" "node_is_equal a b" "s \<in> elem_changed (Keep a b)"
  then have "s \<in> node_symbols a \<union> node_symbols b" "node_name a = node_name b"
    using keep_elem_covers[of a b] by (blast, simp add: node_is_equal_def)
  then show "fst s = node_name a" by (auto simp: node_symbols_def)
qed

lemma disjoint_elem:
  assumes "small (node_children a)" "small (node_children b)" "node_is_equal a b"
    and "distinct (map node_name (node_children a))" "distinct (map node_name (node_children b))"
    and "[] \<notin> node_name ` set (node_children a)" "[] \<notin> node_name ` set (node_children b)"
  shows "elem_kept (Keep a b) \<inter> elem_changed (Keep a b) = {}"
proof -
  obtain es where es: "edit_script (node_children a) (node_children b) es"
    "elem_kept (Keep a b) = kept_members (node_name a) es \<union> (if same_signature a b then {(node_name a, empty_word)} else {})"
    "elem_changed (Keep a b) = changed_members (node_name a) es \<union> (if same_signature a b then {} else {(node_name a, empty_word)})"
    "same_signature a b \<Longrightarrow> changed_members (node_name a) es = {}"
    by (rule kept_elem_sets[OF assms(1-3)]) blast
  have "(node_name a, empty_word) \<notin> kept_members (node_name a) es"
  proof -
    have "(node_name a, empty_word) \<notin> Pair (node_name a) ` node_name ` (set (node_children a) \<union> set (node_children b))"
      using assms(6,7) by (auto simp: image_Un)
    then show ?thesis using edit_script_members[OF es(1), of "node_name a"] by blast
  qed
  then show ?thesis
    using disjoint_members[OF es(1) assms(4,5), of "node_name a"] es(4) unfolding es(2,3) by auto
qed

theorem diff_disjoint:
  assumes "small_nodes (ast_nodes old)" "small_nodes (ast_nodes new)" "declared_once old" "declared_once new"
    and "compute_file_diff (Some old) (Some new) = Some d"
  shows "set (diff_keep d) \<inter> set (diff_changed d) = {}"
proof -
  let ?a = "ast_nodes old" and ?b = "ast_nodes new"
  obtain es where es: "edit_script ?a ?b es"
    and d: "set (diff_keep d) = (\<Union>e\<in>set es. elem_kept e)" "set (diff_changed d) = (\<Union>e\<in>set es. elem_changed e)"
    by (rule myers_diff_sets[OF assms(1,2)]) (use assms(5) in auto)
  have dn: "distinct (map node_name ?a)" "distinct (map node_name ?b)" using assms(3,4) by (auto simp: declared_once_def)
  have False if e: "e \<in> set es" "s \<in> elem_kept e" and f: "f \<in> set es" "s \<in> elem_changed f" for e f s
  proof -
    obtain a b where ab: "e = Keep a b" using e(2) by (cases e) auto
    have k: "small (node_children p) \<and> small (node_children q) \<and> node_is_equal p q" if "Keep p q \<in> set es" for p q
      using edit_script_mem(1)[OF es that] assms(1,2) by (auto simp: small_nodes_def)
    have kab: "a \<in> set ?a" "b \<in> set ?b" using edit_script_mem(1)[OF es, of a b] e(1) ab by auto
    have name: "fst s = node_name a" using keep_elem_kept[of a b s] k e ab by (auto simp: unchanged_between_def)
    note uniq = distinct_script[OF es dn, of a b]
    show False
    proof (cases f)
      case (Keep r t)
      then have "node_name r = node_name a" using elem_changed_name[of r t s] k f name by simp
      then have "f = Keep a b" using uniq(3)[of r t] f(1) e(1) ab Keep by simp
      then have "elem_kept (Keep a b) \<inter> elem_changed (Keep a b) \<noteq> {}" using e(2) f(2) ab by blast
      then show False
        using disjoint_elem[of a b] k[of a b] e(1) ab kab assms(3,4) by (simp add: declared_once_def del: elem_kept.simps elem_changed.simps)
    next
      case (Remove r)
      then show False using uniq(1)[of r] f name e(1) ab by (auto simp: node_symbols_def)
    next
      case (Add r)
      then show False using uniq(2)[of r] f name e(1) ab by (auto simp: node_symbols_def)
    qed
  qed
  then show ?thesis unfolding d by blast
qed

lemma example_file_once: "declared_once (example_file h)"
  by (simp add: declared_once_def example_file_def example_node_def def_signature_node_new_def)

lemma diff_disjoint_witness:
  "\<exists>d. compute_file_diff (Some (example_file 3)) (Some (example_file 4)) = Some d
    \<and> set (diff_keep d) \<inter> set (diff_changed d) = {}"
  using file_diff_contract[OF example_file_small example_file_small, of 3 4]
    diff_disjoint[OF example_file_small example_file_small example_file_once example_file_once, of 3 4] by blast

section \<open>The difference of two codebases\<close>

lemma diff_extend_sets [simp]:
  "set (diff_keep (diff_extend d e)) = set (diff_keep d) \<union> set (diff_keep e)"
  "set (diff_changed (diff_extend d e)) = set (diff_changed d) \<union> set (diff_changed e)"
  by (auto simp: diff_extend_def)

definition small_codebase :: "'f file_signatures \<Rightarrow> bool" where
  "small_codebase md \<longleftrightarrow> (\<forall>f sig. map_of md f = Some sig \<longrightarrow> small_nodes (ast_nodes sig))"

lemma compute_file_diff_total:
  assumes "\<And>sig. old = Some sig \<Longrightarrow> small_nodes (ast_nodes sig)" "\<And>sig. new = Some sig \<Longrightarrow> small_nodes (ast_nodes sig)"
  shows "\<exists>d. compute_file_diff old new = Some d"
  using assms file_diff_contract
  by (cases "(old, new)" rule: compute_file_diff.cases) (simp_all, blast)

lemma diff_files_sets:
  assumes "\<And>f. f \<in> set fs \<Longrightarrow> compute_file_diff (map_of old f) (map_of new f) = Some (g f)"
  shows "\<exists>d. diff_files old new fs acc = Some d
    \<and> set (diff_keep d) = set (diff_keep acc) \<union> (\<Union>f\<in>set fs. set (diff_keep (g f)))
    \<and> set (diff_changed d) = set (diff_changed acc) \<union> (\<Union>f\<in>set fs. set (diff_changed (g f)))"
  using assms
proof (induction fs arbitrary: acc)
  case (Cons f fs)
  have "\<exists>d. diff_files old new fs (diff_extend acc (g f)) = Some d
    \<and> set (diff_keep d) = set (diff_keep (diff_extend acc (g f))) \<union> (\<Union>f\<in>set fs. set (diff_keep (g f)))
    \<and> set (diff_changed d) = set (diff_changed (diff_extend acc (g f))) \<union> (\<Union>f\<in>set fs. set (diff_changed (g f)))"
    by (rule Cons.IH) (use Cons.prems in simp)
  then show ?case using Cons.prems[of f] by (auto simp: get_file_signature_def)
qed simp

lemma between_sets:
  assumes "small_codebase old" "small_codebase new"
  obtains d where "between old new = Some d"
    "set (diff_keep d) = (\<Union>f\<in>fst ` set old \<union> fst ` set new. set (diff_keep (the (compute_file_diff (map_of old f) (map_of new f)))))"
    "set (diff_changed d) = (\<Union>f\<in>fst ` set old \<union> fst ` set new. set (diff_changed (the (compute_file_diff (map_of old f) (map_of new f)))))"
proof -
  let ?g = "\<lambda>f. the (compute_file_diff (map_of old f) (map_of new f))"
  let ?fs = "remdups_adj (sort (map fst old @ map fst new))"
  have "compute_file_diff (map_of old f) (map_of new f) = Some (?g f)" for f
    using compute_file_diff_total[of "map_of old f" "map_of new f"] assms by (auto simp: small_codebase_def)
  then have "\<exists>d. diff_files old new ?fs codebase_diff_new = Some d
    \<and> set (diff_keep d) = set (diff_keep codebase_diff_new) \<union> (\<Union>f\<in>set ?fs. set (diff_keep (?g f)))
    \<and> set (diff_changed d) = set (diff_changed codebase_diff_new) \<union> (\<Union>f\<in>set ?fs. set (diff_changed (?g f)))"
    by (rule diff_files_sets)
  moreover have "set ?fs = fst ` set old \<union> fst ` set new" by simp
  ultimately show thesis using that by (simp add: between_def get_all_file_ids_def) blast
qed

text \<open>
  The difference of two codebases: always computed, and a declaration whose symbol it does not
  report as changed stands, with the same signature, in the new version of its file, while a
  declaration that only one version of the file has is reported.
\<close>

theorem between_complete:
  assumes "small_codebase old" "small_codebase new"
  shows "\<exists>d. between old new = Some d \<and>
    (\<forall>f sig. get_file_signature old f = Some sig \<longrightarrow> (\<forall>a\<in>set (ast_nodes sig).
       \<not> contains_changed_entry d (node_name a, empty_word) \<longrightarrow>
         (\<exists>sig' b. get_file_signature new f = Some sig' \<and> b \<in> set (ast_nodes sig') \<and> same_signature a b)))"
proof -
  obtain d where d: "between old new = Some d"
    "set (diff_changed d) = (\<Union>f\<in>fst ` set old \<union> fst ` set new. set (diff_changed (the (compute_file_diff (map_of old f) (map_of new f)))))"
    by (rule between_sets[OF assms]) blast
  have "\<exists>sig' b. map_of new f = Some sig' \<and> b \<in> set (ast_nodes sig') \<and> same_signature a b"
    if f: "map_of old f = Some sig" and a: "a \<in> set (ast_nodes sig)" "(node_name a, empty_word) \<notin> set (diff_changed d)"
    for f sig a
  proof -
    have "f \<in> fst ` set old" using f by (metis domI dom_map_of_conv_image_fst)
    then have nc: "(node_name a, empty_word) \<notin> set (diff_changed (the (compute_file_diff (map_of old f) (map_of new f))))"
      using a(2) unfolding d(2) by blast
    show ?thesis
    proof (cases "map_of new f")
      case None
      then show ?thesis using nc f a(1) by (auto simp: mark_all_as_changed_def node_symbols_def)
    next
      case (Some sig')
      have "small_nodes (ast_nodes sig)" "small_nodes (ast_nodes sig')"
        using assms f Some by (auto simp: small_codebase_def)
      from file_diff_contract[OF this] nc f a(1) Some show ?thesis by auto
    qed
  qed
  then show ?thesis using d(1) by (auto simp: get_file_signature_def contains_changed_entry_def)
qed

lemma between_complete_witness:
  "\<exists>d. between [(7 :: nat, example_file 3)] [(7, example_file 4)] = Some d \<and>
    (\<not> contains_changed_entry d ([66], empty_word) \<longrightarrow>
       (\<exists>b\<in>set (ast_nodes (example_file 4)). same_signature (example_node [66] 0) b))"
proof -
  have "small_codebase [(7 :: nat, example_file h)]" for h
    by (simp add: small_codebase_def example_file_small)
  from between_complete[OF this this, of 3 4] obtain d where d: "between [(7 :: nat, example_file 3)] [(7, example_file 4)] = Some d"
    "\<forall>f sig. get_file_signature [(7 :: nat, example_file 3)] f = Some sig \<longrightarrow> (\<forall>a\<in>set (ast_nodes sig).
       \<not> contains_changed_entry d (node_name a, empty_word) \<longrightarrow>
         (\<exists>sig' b. get_file_signature [(7, example_file 4)] f = Some sig' \<and> b \<in> set (ast_nodes sig') \<and> same_signature a b))"
    by blast
  have "example_node [66] 0 \<in> set (ast_nodes (example_file 3))" "node_name (example_node [66] 0) = [66]"
    by (simp_all add: example_file_def example_node_def def_signature_node_new_def)
  then have "\<not> contains_changed_entry d ([66], empty_word) \<Longrightarrow>
      \<exists>sig' b. get_file_signature [(7 :: nat, example_file 4)] 7 = Some sig' \<and> b \<in> set (ast_nodes sig')
        \<and> same_signature (example_node [66] 0) b"
    using d(2)[rule_format, of 7 "example_file 3" "example_node [66] 0"] by (simp add: get_file_signature_def)
  then show ?thesis using d(1) by (auto simp: get_file_signature_def)
qed

end
