(* ===== verification/Reference_Graph.thy ===== *)
theory Reference_Graph
  imports Signature_Diff Byte_Text "HOL-Library.AList"
begin

text \<open>
  The graph of references between symbols (crate \<open>codex\<close>, \<open>reference.rs\<close>): ten hash maps from a
  referencing symbol, function or file to the set of what it references, the operations that
  record, merge, visit, restore and remove references.

  A hash map is the list of its entries with distinct keys, in the order an iteration visits
  them; results that depend on that order are only stated up to it. The guard of
  \<open>insert_reference\<close> on the capacity of a set only avoids a growth: both of its branches leave
  the set with the element.
\<close>

type_synonym ('k, 'v) hash_map = "('k \<times> 'v) list"
type_synonym word_set = "bytes hash_set"

section \<open>Identifiers and origins\<close>

datatype reference_source =
  Symbol_Source bool bytes
| Class_Like_Member_Source bool bytes bytes
| File_Source bool bytes

datatype reference_origin = Symbol_Origin symbol_identifier | File_Origin bytes

datatype symbol_reference_kind =
  Body | Signature | Overridden_Member | Function_Like_Return | Property_Read | Property_Write

datatype function_like_identifier = Function bytes | Method bytes bytes | Closure bytes

record method_identifier =
  class_name :: bytes
  method_name :: bytes

text \<open>Of the scope the graph reads only the origin.\<close>

record scope_context =
  scope_reference_origin :: reference_origin

definition get_reference_origin :: "scope_context \<Rightarrow> reference_origin" where
  "get_reference_origin self = scope_reference_origin self"

fun function_like_symbol_identifier :: "function_like_identifier \<Rightarrow> symbol_identifier option" where
  "function_like_symbol_identifier (Function n) = Some (n, empty_word)"
| "function_like_symbol_identifier (Method c m) = Some (c, m)"
| "function_like_symbol_identifier (Closure n) = None"

section \<open>Maps of references\<close>

definition insert_reference :: "('k, 'v hash_set) hash_map \<Rightarrow> 'k \<Rightarrow> 'v \<Rightarrow> ('k, 'v hash_set) hash_map" where
  "insert_reference refs k v =
     AList.update k (List.insert v (case map_of refs k of None \<Rightarrow> [] | Some vs \<Rightarrow> vs)) refs"

type_synonym 'k dependencies = "('k, symbol_identifier hash_set) hash_map"

definition insert_dependency :: "'k dependencies \<Rightarrow> 'k dependencies \<Rightarrow> 'k \<Rightarrow> symbol_identifier \<Rightarrow> bool
    \<Rightarrow> 'k dependencies \<times> 'k dependencies" where
  "insert_dependency body signature k t in_signature =
     (if in_signature then
        (case map_of body k of
           None \<Rightarrow> body
         | Some ts \<Rightarrow> (let ts = removeAll t ts in if ts = [] then AList.delete k body else AList.update k ts body),
         insert_reference signature k t)
      else if (case map_of signature k of None \<Rightarrow> True | Some ts \<Rightarrow> t \<notin> set ts)
      then (insert_reference body k t, signature)
      else (body, signature))"

fun extend_entries :: "('k, 'v hash_set) hash_map \<Rightarrow> ('k, 'v hash_set) hash_map \<Rightarrow> ('k, 'v hash_set) hash_map" where
  "extend_entries [] target = target"
| "extend_entries ((k, vs) # source) target =
     extend_entries source (case map_of target k of
       Some existing \<Rightarrow> AList.update k (fold List.insert vs existing) target
     | None \<Rightarrow> AList.update k vs target)"

definition extend_reference_map ::
  "('k, 'v hash_set) hash_map \<Rightarrow> ('k, 'v hash_set) hash_map \<Rightarrow> ('k, 'v hash_set) hash_map" where
  "extend_reference_map target source =
     (if source = [] then target else if target = [] then source else extend_entries source target)"

text \<open>The first loop of \<open>extend_dependencies\<close>: incoming signature edges leave the body map.\<close>

fun drop_signature_targets :: "'k dependencies \<Rightarrow> 'k dependencies \<Rightarrow> 'k dependencies" where
  "drop_signature_targets [] body = body"
| "drop_signature_targets ((k, ts) # signature) body =
     drop_signature_targets signature (case map_of body k of
       None \<Rightarrow> body
     | Some existing \<Rightarrow>
         (let existing = fold removeAll ts existing in
          if existing = [] then AList.delete k body else AList.update k existing body))"

text \<open>\<open>if let Some(signature) = signature.get(key) { refs.retain(|target| !signature.contains(target)) }\<close>\<close>

definition without_signature :: "('k, 'v hash_set) hash_map \<Rightarrow> 'k \<Rightarrow> 'v hash_set \<Rightarrow> 'v hash_set" where
  "without_signature signature k ts =
     (case map_of signature k of None \<Rightarrow> ts | Some sig \<Rightarrow> filter (\<lambda>t. t \<notin> set sig) ts)"

definition retain_outside :: "'k dependencies \<Rightarrow> 'k dependencies \<Rightarrow> 'k dependencies" where
  "retain_outside signature incoming =
     filter (\<lambda>(k, ts). ts \<noteq> [])
       (map (\<lambda>(k, ts). (k, without_signature signature k ts)) incoming)"

definition extend_dependencies :: "'k dependencies \<Rightarrow> 'k dependencies \<Rightarrow> 'k dependencies \<Rightarrow> 'k dependencies
    \<Rightarrow> 'k dependencies \<times> 'k dependencies" where
  "extend_dependencies body signature incoming_body incoming_signature =
     (let body = drop_signature_targets incoming_signature body;
          signature = extend_reference_map signature incoming_signature;
          incoming_body = retain_outside signature incoming_body
      in (extend_reference_map body incoming_body, signature))"

section \<open>The graph\<close>

record symbol_references =
  symbol_references_to_symbols :: "symbol_identifier dependencies"
  symbol_references_to_symbols_in_signature :: "symbol_identifier dependencies"
  symbol_references_to_overridden_members :: "symbol_identifier dependencies"
  functionlike_references_to_functionlike_returns ::
    "(function_like_identifier, function_like_identifier hash_set) hash_map"
  file_references_to_symbols :: "bytes dependencies"
  file_references_to_symbols_in_signature :: "bytes dependencies"
  property_write_references :: "symbol_identifier dependencies"
  property_read_references :: "symbol_identifier dependencies"
  file_property_write_references :: "bytes dependencies"
  file_property_read_references :: "bytes dependencies"

definition references_new :: symbol_references where
  "references_new = \<lparr>symbol_references_to_symbols = [], symbol_references_to_symbols_in_signature = [],
     symbol_references_to_overridden_members = [], functionlike_references_to_functionlike_returns = [],
     file_references_to_symbols = [], file_references_to_symbols_in_signature = [],
     property_write_references = [], property_read_references = [],
     file_property_write_references = [], file_property_read_references = []\<rparr>"

definition references_is_empty :: "symbol_references \<Rightarrow> bool" where
  "references_is_empty self \<longleftrightarrow>
     symbol_references_to_symbols self = [] \<and> symbol_references_to_symbols_in_signature self = []
     \<and> symbol_references_to_overridden_members self = []
     \<and> functionlike_references_to_functionlike_returns self = []
     \<and> file_references_to_symbols self = [] \<and> file_references_to_symbols_in_signature self = []
     \<and> property_write_references self = [] \<and> property_read_references self = []
     \<and> file_property_write_references self = [] \<and> file_property_read_references self = []"

definition sum_of_sizes :: "('k, 'v hash_set) hash_map \<Rightarrow> nat" where
  "sum_of_sizes m = sum_list (map (length \<circ> snd) m)"

definition count_body_references :: "symbol_references \<Rightarrow> nat" where
  "count_body_references self =
     sum_of_sizes (symbol_references_to_symbols self) + sum_of_sizes (file_references_to_symbols self)"

definition count_signature_references :: "symbol_references \<Rightarrow> nat" where
  "count_signature_references self =
     sum_of_sizes (symbol_references_to_symbols_in_signature self)
     + sum_of_sizes (file_references_to_symbols_in_signature self)"

definition total_map_entries :: "symbol_references \<Rightarrow> nat" where
  "total_map_entries self =
     length (symbol_references_to_symbols self) + length (symbol_references_to_symbols_in_signature self)
     + length (symbol_references_to_overridden_members self)
     + length (functionlike_references_to_functionlike_returns self)
     + length (file_references_to_symbols self) + length (file_references_to_symbols_in_signature self)
     + length (property_write_references self) + length (property_read_references self)
     + length (file_property_write_references self) + length (file_property_read_references self)"

text \<open>The number of keys whose set contains a target.\<close>

definition count_containing :: "('k, 'v hash_set) hash_map \<Rightarrow> 'v \<Rightarrow> nat" where
  "count_containing m v = length (filter (\<lambda>(k, vs). v \<in> set vs) m)"

definition any_containing :: "('k, 'v hash_set) hash_map \<Rightarrow> 'v \<Rightarrow> bool" where
  "any_containing m v \<longleftrightarrow> list_ex (\<lambda>(k, vs). v \<in> set vs) m"

definition count_referencing_symbols :: "symbol_references \<Rightarrow> symbol_identifier \<Rightarrow> bool \<Rightarrow> nat" where
  "count_referencing_symbols self s in_signature =
     (let m = (if in_signature then symbol_references_to_symbols_in_signature self else symbol_references_to_symbols self);
          files = (if in_signature then file_references_to_symbols_in_signature self else file_references_to_symbols self)
      in count_containing m s + count_containing files s)"

definition referencing_symbols :: "symbol_references \<Rightarrow> symbol_identifier \<Rightarrow> symbol_identifier list" where
  "referencing_symbols self s =
     map fst (filter (\<lambda>(k, ts). s \<in> set ts)
       (symbol_references_to_symbols self @ symbol_references_to_symbols_in_signature self))"

definition has_file_reference_to_symbol :: "symbol_references \<Rightarrow> symbol_identifier \<Rightarrow> bool" where
  "has_file_reference_to_symbol self s \<longleftrightarrow>
     any_containing (file_references_to_symbols self) s \<or> any_containing (file_references_to_symbols_in_signature self) s"

definition has_reference_to_symbol :: "symbol_references \<Rightarrow> symbol_identifier \<Rightarrow> bool" where
  "has_reference_to_symbol self s \<longleftrightarrow> referencing_symbols self s \<noteq> [] \<or> has_file_reference_to_symbol self s"

definition get_references_to_symbol :: "symbol_references \<Rightarrow> symbol_identifier \<Rightarrow> symbol_identifier hash_set" where
  "get_references_to_symbol self s = collect_set (referencing_symbols self s)"

definition count_property_reads :: "symbol_references \<Rightarrow> symbol_identifier \<Rightarrow> nat" where
  "count_property_reads self p =
     count_containing (property_read_references self) p + count_containing (file_property_read_references self) p"

definition has_property_read :: "symbol_references \<Rightarrow> symbol_identifier \<Rightarrow> bool" where
  "has_property_read self p \<longleftrightarrow>
     any_containing (property_read_references self) p \<or> any_containing (file_property_read_references self) p"

definition count_property_writes :: "symbol_references \<Rightarrow> symbol_identifier \<Rightarrow> nat" where
  "count_property_writes self p =
     count_containing (property_write_references self) p + count_containing (file_property_write_references self) p"

definition has_property_write :: "symbol_references \<Rightarrow> symbol_identifier \<Rightarrow> bool" where
  "has_property_write self p \<longleftrightarrow>
     any_containing (property_write_references self) p \<or> any_containing (file_property_write_references self) p"

section \<open>Recording references\<close>

definition insert_symbol_dependency ::
  "symbol_references \<Rightarrow> symbol_identifier \<Rightarrow> symbol_identifier \<Rightarrow> bool \<Rightarrow> symbol_references" where
  "insert_symbol_dependency self k t in_signature =
     (case insert_dependency (symbol_references_to_symbols self) (symbol_references_to_symbols_in_signature self) k t in_signature of
        (body, signature) \<Rightarrow> self\<lparr>symbol_references_to_symbols := body, symbol_references_to_symbols_in_signature := signature\<rparr>)"

definition insert_file_dependency :: "symbol_references \<Rightarrow> bytes \<Rightarrow> symbol_identifier \<Rightarrow> bool \<Rightarrow> symbol_references" where
  "insert_file_dependency self f t in_signature =
     (case insert_dependency (file_references_to_symbols self) (file_references_to_symbols_in_signature self) f t in_signature of
        (body, signature) \<Rightarrow> self\<lparr>file_references_to_symbols := body, file_references_to_symbols_in_signature := signature\<rparr>)"

definition add_symbol_reference_to_symbol :: "symbol_references \<Rightarrow> bytes \<Rightarrow> bytes \<Rightarrow> bool \<Rightarrow> symbol_references" where
  "add_symbol_reference_to_symbol self a b in_signature =
     (if a = b then self else insert_symbol_dependency self (a, empty_word) (b, empty_word) in_signature)"

definition add_symbol_reference_to_class_member ::
  "symbol_references \<Rightarrow> bytes \<Rightarrow> symbol_identifier \<Rightarrow> bool \<Rightarrow> symbol_references" where
  "add_symbol_reference_to_class_member self a m in_signature =
     (let self = add_symbol_reference_to_symbol self a (fst m) False
      in insert_symbol_dependency self (a, empty_word) m in_signature)"

definition add_class_member_reference_to_symbol ::
  "symbol_references \<Rightarrow> symbol_identifier \<Rightarrow> bytes \<Rightarrow> bool \<Rightarrow> symbol_references" where
  "add_class_member_reference_to_symbol self m b in_signature =
     (if fst m = b then self
      else let self = add_symbol_reference_to_symbol self (fst m) b False
           in insert_symbol_dependency self m (b, empty_word) in_signature)"

definition add_class_member_reference_to_class_member ::
  "symbol_references \<Rightarrow> symbol_identifier \<Rightarrow> symbol_identifier \<Rightarrow> bool \<Rightarrow> symbol_references" where
  "add_class_member_reference_to_class_member self m n in_signature =
     (if m = n then self
      else let self = add_symbol_reference_to_symbol self (fst m) (fst n) False;
               self = add_class_member_reference_to_symbol self m (fst n) False
           in insert_symbol_dependency self m n in_signature)"

definition add_symbol_reference ::
  "symbol_references \<Rightarrow> symbol_identifier \<Rightarrow> symbol_identifier \<Rightarrow> bool \<Rightarrow> symbol_references" where
  "add_symbol_reference self a b in_signature =
     (if snd a = empty_word then
        (if snd b = empty_word then add_symbol_reference_to_symbol self (fst a) (fst b) in_signature
         else add_symbol_reference_to_class_member self (fst a) b in_signature)
      else if snd b = empty_word then add_class_member_reference_to_symbol self a (fst b) in_signature
      else add_class_member_reference_to_class_member self a b in_signature)"

definition add_file_reference_to_class_member ::
  "symbol_references \<Rightarrow> bytes \<Rightarrow> symbol_identifier \<Rightarrow> bool \<Rightarrow> symbol_references" where
  "add_file_reference_to_class_member self f m in_signature =
     (let self = (if snd m = empty_word then self else insert_file_dependency self f (fst m, empty_word) False)
      in insert_file_dependency self f m in_signature)"

fun add_reference :: "symbol_references \<Rightarrow> reference_origin \<Rightarrow> symbol_identifier \<Rightarrow> bool \<Rightarrow> symbol_references" where
  "add_reference self (Symbol_Origin a) b in_signature = add_symbol_reference self a b in_signature"
| "add_reference self (File_Origin f) b in_signature = add_file_reference_to_class_member self f b in_signature"

definition add_property_read_reference ::
  "symbol_references \<Rightarrow> reference_origin \<Rightarrow> symbol_identifier \<Rightarrow> symbol_references" where
  "add_property_read_reference self origin p =
     (let self = add_reference self origin p False in
      case origin of
        Symbol_Origin s \<Rightarrow> self\<lparr>property_read_references := insert_reference (property_read_references self) s p\<rparr>
      | File_Origin f \<Rightarrow> self\<lparr>file_property_read_references := insert_reference (file_property_read_references self) f p\<rparr>)"

definition add_property_write_reference ::
  "symbol_references \<Rightarrow> reference_origin \<Rightarrow> symbol_identifier \<Rightarrow> symbol_references" where
  "add_property_write_reference self origin p =
     (let self = add_reference self origin p False in
      case origin of
        Symbol_Origin s \<Rightarrow> self\<lparr>property_write_references := insert_reference (property_write_references self) s p\<rparr>
      | File_Origin f \<Rightarrow> self\<lparr>file_property_write_references := insert_reference (file_property_write_references self) f p\<rparr>)"

definition add_overridden_member_reference ::
  "symbol_references \<Rightarrow> symbol_identifier \<Rightarrow> symbol_identifier \<Rightarrow> symbol_references" where
  "add_overridden_member_reference self a b =
     self\<lparr>symbol_references_to_overridden_members := insert_reference (symbol_references_to_overridden_members self) a b\<rparr>"

definition add_reference_to_functionlike_return ::
  "symbol_references \<Rightarrow> function_like_identifier \<Rightarrow> function_like_identifier \<Rightarrow> symbol_references" where
  "add_reference_to_functionlike_return self a b =
     (if a = b then self
      else self\<lparr>functionlike_references_to_functionlike_returns :=
             insert_reference (functionlike_references_to_functionlike_returns self) a b\<rparr>)"

definition function_like_of :: "symbol_identifier \<Rightarrow> function_like_identifier" where
  "function_like_of s = (if snd s = empty_word then Function (fst s) else Method (fst s) (snd s))"

definition add_functionlike_return_reference ::
  "symbol_references \<Rightarrow> symbol_identifier \<Rightarrow> symbol_identifier \<Rightarrow> symbol_references" where
  "add_functionlike_return_reference self a b =
     add_reference_to_functionlike_return self (function_like_of a) (function_like_of b)"

definition add_reference_to_class_member ::
  "symbol_references \<Rightarrow> scope_context \<Rightarrow> symbol_identifier \<Rightarrow> bool \<Rightarrow> symbol_references" where
  "add_reference_to_class_member self scope m in_signature = add_reference self (get_reference_origin scope) m in_signature"

definition add_reference_for_method_call ::
  "symbol_references \<Rightarrow> scope_context \<Rightarrow> method_identifier \<Rightarrow> symbol_references" where
  "add_reference_for_method_call self scope m =
     add_reference_to_class_member self scope (to_ascii_lowercase (class_name m), method_name m) False"

definition add_reference_for_property_read ::
  "symbol_references \<Rightarrow> scope_context \<Rightarrow> bytes \<Rightarrow> bytes \<Rightarrow> symbol_references" where
  "add_reference_for_property_read self scope c p =
     add_property_read_reference self (get_reference_origin scope) (to_ascii_lowercase c, p)"

definition add_reference_for_property_write ::
  "symbol_references \<Rightarrow> scope_context \<Rightarrow> bytes \<Rightarrow> bytes \<Rightarrow> symbol_references" where
  "add_reference_for_property_write self scope c p =
     add_property_write_reference self (get_reference_origin scope) (to_ascii_lowercase c, p)"

definition add_reference_to_overridden_class_member ::
  "symbol_references \<Rightarrow> scope_context \<Rightarrow> symbol_identifier \<Rightarrow> symbol_references" where
  "add_reference_to_overridden_class_member self scope m =
     (case get_reference_origin scope of
        Symbol_Origin a \<Rightarrow> add_overridden_member_reference self a m
      | File_Origin f \<Rightarrow> self)"

definition add_reference_to_symbol :: "symbol_references \<Rightarrow> scope_context \<Rightarrow> bytes \<Rightarrow> bool \<Rightarrow> symbol_references" where
  "add_reference_to_symbol self scope s in_signature =
     add_reference self (get_reference_origin scope) (s, empty_word) in_signature"

text \<open>\<open>populator/signatures.rs\<close>: a reference to an attribute's class.\<close>

definition add_attribute_reference ::
  "symbol_references \<Rightarrow> reference_source \<Rightarrow> bytes \<Rightarrow> bool option \<Rightarrow> symbol_references" where
  "add_attribute_reference self src n override =
     (case src of
        Symbol_Source sig a \<Rightarrow> add_symbol_reference_to_symbol self a n (case override of None \<Rightarrow> sig | Some o' \<Rightarrow> o')
      | Class_Like_Member_Source sig a b \<Rightarrow>
          add_class_member_reference_to_symbol self (a, b) n (case override of None \<Rightarrow> sig | Some o' \<Rightarrow> o')
      | File_Source sig f \<Rightarrow>
          add_file_reference_to_class_member self f (n, empty_word) (case override of None \<Rightarrow> sig | Some o' \<Rightarrow> o'))"

section \<open>Merging and visiting\<close>

definition references_extend :: "symbol_references \<Rightarrow> symbol_references \<Rightarrow> symbol_references" where
  "references_extend self other =
     (let (body, signature) = extend_dependencies (symbol_references_to_symbols self)
            (symbol_references_to_symbols_in_signature self)
            (symbol_references_to_symbols other) (symbol_references_to_symbols_in_signature other);
          (file_body, file_signature) = extend_dependencies (file_references_to_symbols self)
            (file_references_to_symbols_in_signature self)
            (file_references_to_symbols other) (file_references_to_symbols_in_signature other)
      in \<lparr>symbol_references_to_symbols = body,
          symbol_references_to_symbols_in_signature = signature,
          symbol_references_to_overridden_members = extend_reference_map
            (symbol_references_to_overridden_members self) (symbol_references_to_overridden_members other),
          functionlike_references_to_functionlike_returns = extend_reference_map
            (functionlike_references_to_functionlike_returns self) (functionlike_references_to_functionlike_returns other),
          file_references_to_symbols = file_body,
          file_references_to_symbols_in_signature = file_signature,
          property_write_references = extend_reference_map (property_write_references self) (property_write_references other),
          property_read_references = extend_reference_map (property_read_references self) (property_read_references other),
          file_property_write_references = extend_reference_map
            (file_property_write_references self) (file_property_write_references other),
          file_property_read_references = extend_reference_map
            (file_property_read_references self) (file_property_read_references other)\<rparr>)"

type_synonym visit = "reference_origin \<times> symbol_identifier \<times> symbol_reference_kind"

definition visits_of :: "('k \<Rightarrow> reference_origin) \<Rightarrow> symbol_reference_kind \<Rightarrow> 'k dependencies \<Rightarrow> visit list" where
  "visits_of origin kind m = concat (map (\<lambda>(k, ts). map (\<lambda>t. (origin k, t, kind)) ts) m)"

definition return_visits :: "(function_like_identifier, function_like_identifier hash_set) hash_map \<Rightarrow> visit list" where
  "return_visits m = concat (map (\<lambda>(k, ts).
     case function_like_symbol_identifier k of
       None \<Rightarrow> []
     | Some s \<Rightarrow> map (\<lambda>t. (Symbol_Origin s, t, Function_Like_Return)) (List.map_filter function_like_symbol_identifier ts)) m)"

text \<open>The calls of \<open>visit\<close> that \<open>for_each_reference\<close> makes, in order.\<close>

definition for_each_reference :: "symbol_references \<Rightarrow> visit list" where
  "for_each_reference self =
     visits_of Symbol_Origin Body (symbol_references_to_symbols self)
     @ visits_of Symbol_Origin Signature (symbol_references_to_symbols_in_signature self)
     @ visits_of Symbol_Origin Overridden_Member (symbol_references_to_overridden_members self)
     @ return_visits (functionlike_references_to_functionlike_returns self)
     @ visits_of File_Origin Body (file_references_to_symbols self)
     @ visits_of File_Origin Signature (file_references_to_symbols_in_signature self)
     @ visits_of Symbol_Origin Property_Read (property_read_references self)
     @ visits_of Symbol_Origin Property_Write (property_write_references self)
     @ visits_of File_Origin Property_Read (file_property_read_references self)
     @ visits_of File_Origin Property_Write (file_property_write_references self)"

section \<open>Restoring and removing references\<close>

definition is_safe :: "word_set \<Rightarrow> symbol_identifier hash_set \<Rightarrow> symbol_identifier \<Rightarrow> bool" where
  "is_safe safe_symbols safe_symbol_members k \<longleftrightarrow>
     (if snd k = empty_word then fst k \<in> set safe_symbols else k \<in> set safe_symbol_members)"

text \<open>The loop that restores one map whose entries are copied whole.\<close>

fun restore_entries :: "('k \<Rightarrow> bool) \<Rightarrow> ('k, 'v) hash_map \<Rightarrow> ('k, 'v) hash_map \<Rightarrow> ('k, 'v) hash_map" where
  "restore_entries safe [] current = current"
| "restore_entries safe ((k, refs) # previous) current =
     restore_entries safe previous
       (if safe k \<and> map_of current k = None then AList.update k refs current else current)"

fun restore_body :: "(symbol_identifier \<Rightarrow> bool) \<Rightarrow> symbol_identifier dependencies
    \<Rightarrow> symbol_identifier dependencies \<Rightarrow> symbol_identifier dependencies \<Rightarrow> symbol_identifier dependencies" where
  "restore_body safe signature [] current = current"
| "restore_body safe signature ((k, refs) # previous) current =
     restore_body safe signature previous
       (if safe k \<and> map_of current k = None then
          (let refs = without_signature signature k refs
           in if refs = [] then current else AList.update k refs current)
        else current)"

definition restore_references_for_safe_symbols ::
  "symbol_references \<Rightarrow> symbol_references \<Rightarrow> word_set \<Rightarrow> symbol_identifier hash_set \<Rightarrow> symbol_references" where
  "restore_references_for_safe_symbols self previous safe_symbols safe_symbol_members =
     (let safe = is_safe safe_symbols safe_symbol_members;
          safe_function = (\<lambda>f. case function_like_symbol_identifier f of None \<Rightarrow> False | Some s \<Rightarrow> safe s)
      in self\<lparr>symbol_references_to_symbols := restore_body safe (symbol_references_to_symbols_in_signature self)
                (symbol_references_to_symbols previous) (symbol_references_to_symbols self),
              symbol_references_to_overridden_members := restore_entries safe
                (symbol_references_to_overridden_members previous) (symbol_references_to_overridden_members self),
              functionlike_references_to_functionlike_returns := restore_entries safe_function
                (functionlike_references_to_functionlike_returns previous)
                (functionlike_references_to_functionlike_returns self),
              property_write_references := restore_entries safe
                (property_write_references previous) (property_write_references self),
              property_read_references := restore_entries safe
                (property_read_references previous) (property_read_references self)\<rparr>)"

definition remove_keys :: "'k list \<Rightarrow> ('k, 'v) hash_map \<Rightarrow> ('k, 'v) hash_map" where
  "remove_keys ks m = fold AList.delete ks m"

definition retain_keys :: "('k \<Rightarrow> bool) \<Rightarrow> ('k, 'v) hash_map \<Rightarrow> ('k, 'v) hash_map" where
  "retain_keys p m = filter (\<lambda>(k, v). p k) m"

definition remove_body_references_for_symbols ::
  "symbol_references \<Rightarrow> symbol_identifier hash_set \<Rightarrow> bytes list \<Rightarrow> symbol_references" where
  "remove_body_references_for_symbols self symbols files =
     self\<lparr>symbol_references_to_symbols := remove_keys symbols (symbol_references_to_symbols self),
          symbol_references_to_overridden_members := remove_keys symbols (symbol_references_to_overridden_members self),
          property_write_references := remove_keys symbols (property_write_references self),
          property_read_references := remove_keys symbols (property_read_references self),
          functionlike_references_to_functionlike_returns := retain_keys
            (\<lambda>f. case function_like_symbol_identifier f of None \<Rightarrow> True | Some s \<Rightarrow> s \<notin> set symbols)
            (functionlike_references_to_functionlike_returns self),
          file_references_to_symbols := remove_keys files (file_references_to_symbols self),
          file_property_write_references := remove_keys files (file_property_write_references self),
          file_property_read_references := remove_keys files (file_property_read_references self)\<rparr>"

definition remove_references_from_files :: "symbol_references \<Rightarrow> word_set \<Rightarrow> symbol_references" where
  "remove_references_from_files self files =
     self\<lparr>file_references_to_symbols := remove_keys files (file_references_to_symbols self),
          file_references_to_symbols_in_signature := remove_keys files (file_references_to_symbols_in_signature self),
          file_property_write_references := remove_keys files (file_property_write_references self),
          file_property_read_references := remove_keys files (file_property_read_references self)\<rparr>"

definition retain_references_from_files :: "symbol_references \<Rightarrow> word_set \<Rightarrow> symbol_references" where
  "retain_references_from_files self files =
     (let keep = (\<lambda>f. f \<in> set files)
      in self\<lparr>file_references_to_symbols := retain_keys keep (file_references_to_symbols self),
              file_references_to_symbols_in_signature := retain_keys keep (file_references_to_symbols_in_signature self),
              file_property_write_references := retain_keys keep (file_property_write_references self),
              file_property_read_references := retain_keys keep (file_property_read_references self)\<rparr>)"

definition remove_references_from_invalid_symbols ::
  "symbol_references \<Rightarrow> symbol_identifier hash_set \<Rightarrow> symbol_references" where
  "remove_references_from_invalid_symbols self invalid =
     (let keep = (\<lambda>s. s \<notin> set invalid)
      in self\<lparr>symbol_references_to_symbols := retain_keys keep (symbol_references_to_symbols self),
              symbol_references_to_symbols_in_signature := retain_keys keep (symbol_references_to_symbols_in_signature self),
              symbol_references_to_overridden_members := retain_keys keep (symbol_references_to_overridden_members self),
              property_write_references := retain_keys keep (property_write_references self),
              property_read_references := retain_keys keep (property_read_references self)\<rparr>)"

definition retain_safe_symbol_references ::
  "symbol_references \<Rightarrow> word_set \<Rightarrow> symbol_identifier hash_set \<Rightarrow> symbol_references" where
  "retain_safe_symbol_references self safe_symbols safe_symbol_members =
     (let safe = is_safe safe_symbols safe_symbol_members
      in self\<lparr>symbol_references_to_symbols := retain_keys safe (symbol_references_to_symbols self),
              symbol_references_to_symbols_in_signature := retain_keys safe (symbol_references_to_symbols_in_signature self),
              symbol_references_to_overridden_members := retain_keys safe (symbol_references_to_overridden_members self),
              property_write_references := retain_keys safe (property_write_references self),
              property_read_references := retain_keys safe (property_read_references self),
              functionlike_references_to_functionlike_returns := retain_keys
                (\<lambda>f. case function_like_symbol_identifier f of None \<Rightarrow> True | Some s \<Rightarrow> safe s)
                (functionlike_references_to_functionlike_returns self)\<rparr>)"

definition remove_dirty_symbol_references :: "symbol_references \<Rightarrow> symbol_identifier hash_set \<Rightarrow> symbol_references" where
  "remove_dirty_symbol_references self dirty =
     self\<lparr>symbol_references_to_symbols := remove_keys dirty (symbol_references_to_symbols self),
          symbol_references_to_symbols_in_signature := remove_keys dirty (symbol_references_to_symbols_in_signature self),
          symbol_references_to_overridden_members := remove_keys dirty (symbol_references_to_overridden_members self),
          property_write_references := remove_keys dirty (property_write_references self),
          property_read_references := remove_keys dirty (property_read_references self),
          functionlike_references_to_functionlike_returns :=
            remove_keys (map function_like_of dirty) (functionlike_references_to_functionlike_returns self)\<rparr>"

section \<open>Maps as relations\<close>

text \<open>
  What a map of references says: for a key the set of its targets, over all keys a relation.
  A well-formed map has distinct keys, and no set in it is empty or lists an element twice.
\<close>

definition targets :: "('k, 'v hash_set) hash_map \<Rightarrow> 'k \<Rightarrow> 'v set" where
  "targets m k = (case map_of m k of None \<Rightarrow> {} | Some vs \<Rightarrow> set vs)"

definition edges_of :: "('k, 'v hash_set) hash_map \<Rightarrow> ('k \<times> 'v) set" where
  "edges_of m = {(k, v). v \<in> targets m k}"

definition wf_map :: "('k, 'v hash_set) hash_map \<Rightarrow> bool" where
  "wf_map m \<longleftrightarrow> distinct (map fst m) \<and> (\<forall>vs\<in>snd ` set m. vs \<noteq> [] \<and> distinct vs)"

lemma mem_edges_of [simp]: "(k, v) \<in> edges_of m \<longleftrightarrow> v \<in> targets m k"
  by (simp add: edges_of_def)

lemma targets_Nil [simp]: "targets [] k = {}"
  by (simp add: targets_def)

lemma edges_of_Nil [simp]: "edges_of [] = {}"
  by (simp add: edges_of_def)

lemma edges_of_eqI: "(\<And>k. targets m k = targets n k) \<Longrightarrow> edges_of m = edges_of n"
  by (simp add: edges_of_def)

lemma edges_of_eq_iff: "edges_of m = edges_of n \<longleftrightarrow> (\<forall>k. targets m k = targets n k)"
  by (auto simp: edges_of_def set_eq_iff)

lemma targets_update [simp]: "targets (AList.update k vs m) j = (if j = k then set vs else targets m j)"
  by (simp add: targets_def update_conv')

lemma targets_delete [simp]: "targets (AList.delete k m) j = (if j = k then {} else targets m j)"
  by (simp add: targets_def delete_conv')

lemma wf_Nil [simp]: "wf_map []"
  by (simp add: wf_map_def)

lemma wf_Cons: "wf_map ((k, vs) # m) \<longleftrightarrow> k \<notin> fst ` set m \<and> vs \<noteq> [] \<and> distinct vs \<and> wf_map m"
  by (auto simp: wf_map_def)

lemma wf_map_distinct: "wf_map m \<Longrightarrow> distinct (map fst m)"
  by (simp add: wf_map_def)

lemma wf_map_get: "wf_map m \<Longrightarrow> map_of m k = Some vs \<Longrightarrow> vs \<noteq> [] \<and> distinct vs"
  by (force simp: wf_map_def dest: map_of_SomeD)

lemma snd_set_update: "snd ` set (AList.update k v m) \<subseteq> insert v (snd ` set m)"
  by (induction m) auto

lemma snd_set_delete: "snd ` set (AList.delete k m) \<subseteq> snd ` set m"
  by (induction m) auto

lemma wf_update [intro]: "wf_map m \<Longrightarrow> vs \<noteq> [] \<Longrightarrow> distinct vs \<Longrightarrow> wf_map (AList.update k vs m)"
  unfolding wf_map_def using snd_set_update[of k vs m] distinct_update[of m k vs] by blast

lemma wf_delete [intro]: "wf_map m \<Longrightarrow> wf_map (AList.delete k m)"
  unfolding wf_map_def using snd_set_delete[of k m] distinct_delete[of m k] by blast

lemma wf_targets_empty: "wf_map m \<Longrightarrow> targets m k = {} \<longleftrightarrow> map_of m k = None"
  using wf_map_get[of m k] by (auto simp: targets_def split: option.splits)

text \<open>A well-formed map is empty exactly when it says nothing.\<close>

lemma wf_edges_empty: "wf_map m \<Longrightarrow> edges_of m = {} \<longleftrightarrow> m = []"
proof
  assume m: "wf_map m" "edges_of m = {}"
  then have "map_of m k = None" for k using wf_targets_empty[OF m(1), of k] by (auto simp: edges_of_def)
  then have "map_of m = Map.empty" by blast
  then show "m = []" by simp
qed simp

section \<open>The operations on maps as operations on relations\<close>

lemma targets_insert_reference [simp]:
  "targets (insert_reference m k v) j = (if j = k then insert v (targets m k) else targets m j)"
  by (auto simp: insert_reference_def targets_def update_conv' split: option.splits)

lemma edges_insert_reference [simp]: "edges_of (insert_reference m k v) = insert (k, v) (edges_of m)"
  by (auto simp: edges_of_def split: if_splits)

lemma wf_insert_reference [intro]: "wf_map m \<Longrightarrow> wf_map (insert_reference m k v)"
  using wf_map_get[of m k] unfolding insert_reference_def
  by (intro wf_update) (auto simp: List.insert_def split: option.splits)

definition dependencies_ok :: "'k dependencies \<Rightarrow> 'k dependencies \<Rightarrow> bool" where
  "dependencies_ok body signature \<longleftrightarrow> wf_map body \<and> wf_map signature \<and> edges_of body \<inter> edges_of signature = {}"

lemma removeAll_empty_iff: "removeAll t ts = [] \<Longrightarrow> v \<in> set ts \<Longrightarrow> v = t"
  by (induction ts) (auto split: if_splits)

lemma insert_dependency_edges:
  assumes "insert_dependency body signature k t s = (body', signature')"
  shows "edges_of signature' = (if s then insert (k, t) (edges_of signature) else edges_of signature)"
    "edges_of body' = (if s then edges_of body - {(k, t)}
       else if (k, t) \<in> edges_of signature then edges_of body else insert (k, t) (edges_of body))"
proof -
  have "v \<in> targets (case map_of body k of None \<Rightarrow> body
      | Some ts \<Rightarrow> (let ts = removeAll t ts in if ts = [] then AList.delete k body else AList.update k ts body)) j
    \<longleftrightarrow> v \<in> targets body j \<and> \<not> (j = k \<and> v = t)" for j v
    using removeAll_empty_iff
    by (auto simp: targets_def delete_conv' update_conv' Let_def split: option.splits if_splits)
  then have e: "edges_of (case map_of body k of None \<Rightarrow> body
      | Some ts \<Rightarrow> (let ts = removeAll t ts in if ts = [] then AList.delete k body else AList.update k ts body))
    = edges_of body - {(k, t)}"
    by (auto simp: edges_of_def)
  have c: "(case map_of signature k of None \<Rightarrow> True | Some ts \<Rightarrow> t \<notin> set ts) \<longleftrightarrow> (k, t) \<notin> edges_of signature"
    by (auto simp: targets_def split: option.splits)
  consider "s" | "\<not> s" "(k, t) \<in> edges_of signature" "body' = body" "signature' = signature"
    | "\<not> s" "(k, t) \<notin> edges_of signature" "body' = insert_reference body k t" "signature' = signature"
    using assms unfolding insert_dependency_def c by (auto split: if_splits)
  then have "edges_of signature' = (if s then insert (k, t) (edges_of signature) else edges_of signature) \<and>
    edges_of body' = (if s then edges_of body - {(k, t)}
       else if (k, t) \<in> edges_of signature then edges_of body else insert (k, t) (edges_of body))"
  proof cases
    case 1
    then have "edges_of body' = edges_of body - {(k, t)}" "signature' = insert_reference signature k t"
      using assms unfolding insert_dependency_def if_P[OF 1] prod.inject e[symmetric] by (simp, simp)
    then show ?thesis using 1 by simp
  qed simp_all
  then show "edges_of signature' = (if s then insert (k, t) (edges_of signature) else edges_of signature)"
    "edges_of body' = (if s then edges_of body - {(k, t)}
       else if (k, t) \<in> edges_of signature then edges_of body else insert (k, t) (edges_of body))"
    by blast+
qed

lemma insert_dependency_wf:
  assumes "insert_dependency body signature k t s = (body', signature')" "wf_map body" "wf_map signature"
  shows "wf_map body' \<and> wf_map signature'"
  using assms wf_map_get[OF assms(2), of k] unfolding insert_dependency_def
  by (auto simp: Let_def distinct_removeAll split: if_splits option.splits)

lemma insert_dependency_ok:
  assumes "insert_dependency body signature k t s = (body', signature')" "dependencies_ok body signature"
  shows "dependencies_ok body' signature'"
  using insert_dependency_edges[OF assms(1)] insert_dependency_wf[OF assms(1)] assms(2)
  by (auto simp: dependencies_ok_def split: if_splits)

lemma extend_entries_targets:
  "distinct (map fst source) \<Longrightarrow> targets (extend_entries source target) k = targets target k \<union> targets source k"
proof (induction source target rule: extend_entries.induct)
  case (2 j vs source target)
  have n: "map_of source j = None" using 2(2) by (auto simp: map_of_eq_None_iff)
  show ?case using 2 n by (auto simp: targets_def update_conv' split: option.splits)
qed simp

lemma extend_entries_wf: "wf_map target \<Longrightarrow> wf_map source \<Longrightarrow> wf_map (extend_entries source target)"
proof (induction source target rule: extend_entries.induct)
  case (2 k vs source target)
  have "wf_map (case map_of target k of Some existing \<Rightarrow> AList.update k (fold List.insert vs existing) target
      | None \<Rightarrow> AList.update k vs target)"
  proof (cases "map_of target k")
    case (Some ex)
    have "distinct (fold List.insert vs ex)" if "distinct ex" for vs ex :: "'b list"
      using that by (induction vs arbitrary: ex) auto
    moreover have "fold List.insert vs ex \<noteq> []"
      using wf_map_get[OF 2(2) Some] by (metis set_fold_insert set_empty sup_eq_bot_iff)
    ultimately show ?thesis using Some 2(2) wf_map_get[OF 2(2) Some] by auto
  qed (use 2 in \<open>auto simp: wf_Cons\<close>)
  then show ?case using 2 by (auto simp: wf_Cons)
qed simp

lemma edges_extend_reference_map:
  assumes "wf_map source"
  shows "edges_of (extend_reference_map target source) = edges_of target \<union> edges_of source"
  using extend_entries_targets[OF wf_map_distinct[OF assms], of target]
  by (auto simp: extend_reference_map_def edges_of_def)

lemma wf_extend_reference_map [intro]: "wf_map target \<Longrightarrow> wf_map source \<Longrightarrow> wf_map (extend_reference_map target source)"
  by (simp add: extend_reference_map_def extend_entries_wf)

lemma set_fold_removeAll: "set (fold removeAll ts xs) = set xs - set ts"
  by (induction ts arbitrary: xs) auto

lemma distinct_fold_removeAll: "distinct xs \<Longrightarrow> distinct (fold removeAll ts xs)"
  by (induction ts arbitrary: xs) (auto simp: distinct_removeAll)

lemma drop_signature_targets_edges:
  "distinct (map fst signature) \<Longrightarrow> edges_of (drop_signature_targets signature body) = edges_of body - edges_of signature"
proof (induction signature body rule: drop_signature_targets.induct)
  case (2 k ts signature body)
  let ?body = "case map_of body k of None \<Rightarrow> body
    | Some existing \<Rightarrow> (let existing = fold removeAll ts existing in
        if existing = [] then AList.delete k body else AList.update k existing body)"
  have n: "map_of signature k = None" using 2(2) by (auto simp: map_of_eq_None_iff)
  have "targets ?body j = (if j = k then targets body k - set ts else targets body j)" for j
    using set_fold_removeAll[of ts, symmetric]
    by (auto simp: Let_def set_fold_removeAll[symmetric] targets_def update_conv' delete_conv' split: option.splits if_splits)
  then have "edges_of ?body = edges_of body - {k} \<times> set ts"
    by (auto simp: edges_of_def split: if_splits)
  moreover have "edges_of ((k, ts) # signature) = {k} \<times> set ts \<union> edges_of signature"
    using n by (auto simp: edges_of_def targets_def split: if_splits)
  ultimately show ?case using 2 by auto
qed simp

lemma drop_signature_targets_wf: "wf_map body \<Longrightarrow> wf_map (drop_signature_targets signature body)"
proof (induction signature body rule: drop_signature_targets.induct)
  case (2 k ts signature body)
  have "wf_map (case map_of body k of None \<Rightarrow> body
    | Some existing \<Rightarrow> (let existing = fold removeAll ts existing in
        if existing = [] then AList.delete k body else AList.update k existing body))"
    using 2(2) wf_map_get[OF 2(2), of k] by (auto simp: Let_def distinct_fold_removeAll split: option.splits)
  then show ?case using 2(1) by simp
qed simp

lemma map_of_filter_keyed:
  "distinct (map fst m) \<Longrightarrow> map_of (filter (\<lambda>(k, v). p k v) m) k = (case map_of m k of Some v \<Rightarrow> if p k v then Some v else None | None \<Rightarrow> None)"
  by (induction m) (auto simp: map_of_eq_None_iff split: option.splits)

lemma targets_filter_entries:
  assumes "distinct (map fst m)"
  shows "targets (filter (\<lambda>(k, ts). ts \<noteq> []) (map (\<lambda>(k, ts). (k, f k ts)) m)) k = (case map_of m k of None \<Rightarrow> {} | Some ts \<Rightarrow> set (f k ts))"
proof -
  have d: "distinct (map fst (map (\<lambda>(k, ts). (k, f k ts)) m))" using assms by (simp add: comp_def case_prod_beta)
  have "map_of (map (\<lambda>(k, ts). (k, f k ts)) m) k = map_option (f k) (map_of m k)"
    by (induction m) auto
  then show ?thesis
    unfolding targets_def map_of_filter_keyed[OF d, of "\<lambda>k ts. ts \<noteq> []"] by (auto split: option.splits)
qed

lemma set_without_signature: "set (without_signature signature k ts) = set ts - targets signature k"
  by (auto simp: without_signature_def targets_def split: option.splits)

lemma distinct_without_signature: "distinct ts \<Longrightarrow> distinct (without_signature signature k ts)"
  by (auto simp: without_signature_def split: option.splits)

lemma retain_outside_edges:
  "wf_map incoming \<Longrightarrow> edges_of (retain_outside signature incoming) = edges_of incoming - edges_of signature"
  unfolding retain_outside_def edges_of_def targets_filter_entries[OF wf_map_distinct] set_without_signature
  by (auto simp: targets_def[of incoming] set_without_signature split: option.splits)

lemma retain_outside_wf:
  assumes "wf_map incoming"
  shows "wf_map (retain_outside signature incoming)"
proof -
  have "distinct (map fst (filter p (map (\<lambda>(k, ts). (k, f k ts)) incoming)))" for p f
    using wf_map_distinct[OF assms] by (intro distinct_map_filter) (simp add: comp_def case_prod_beta)
  then show ?thesis
    using assms unfolding retain_outside_def wf_map_def
    by (fastforce intro: distinct_without_signature)
qed

lemma extend_dependencies_spec:
  assumes "extend_dependencies body signature ib is = (body', signature')"
    and "wf_map body" "wf_map signature" "wf_map ib" "wf_map is"
  shows "edges_of signature' = edges_of signature \<union> edges_of is"
    "edges_of body' = (edges_of body - edges_of is) \<union> (edges_of ib - (edges_of signature \<union> edges_of is))"
    "wf_map body'" "wf_map signature'"
proof -
  have e: "signature' = extend_reference_map signature is"
    "body' = extend_reference_map (drop_signature_targets is body) (retain_outside signature' ib)"
    using assms(1) by (auto simp: extend_dependencies_def Let_def)
  show sig: "edges_of signature' = edges_of signature \<union> edges_of is"
    using edges_extend_reference_map assms(5) e(1) by blast
  show "edges_of body' = (edges_of body - edges_of is) \<union> (edges_of ib - (edges_of signature \<union> edges_of is))"
    unfolding e(2) edges_extend_reference_map[OF retain_outside_wf[OF assms(4)]]
      drop_signature_targets_edges[OF wf_map_distinct[OF assms(5)]] retain_outside_edges[OF assms(4)] sig ..
  show "wf_map body'" "wf_map signature'"
    using e assms drop_signature_targets_wf retain_outside_wf by blast+
qed

lemma extend_dependencies_ok:
  assumes "extend_dependencies body signature ib is = (body', signature')"
    and "dependencies_ok body signature" "wf_map ib" "wf_map is"
  shows "dependencies_ok body' signature'"
  using extend_dependencies_spec[OF assms(1)] assms(2-4) by (auto simp: dependencies_ok_def)

section \<open>Well-formed graphs\<close>

definition references_ok :: "symbol_references \<Rightarrow> bool" where
  "references_ok r \<longleftrightarrow>
     dependencies_ok (symbol_references_to_symbols r) (symbol_references_to_symbols_in_signature r)
     \<and> dependencies_ok (file_references_to_symbols r) (file_references_to_symbols_in_signature r)
     \<and> wf_map (symbol_references_to_overridden_members r)
     \<and> wf_map (functionlike_references_to_functionlike_returns r)
     \<and> wf_map (property_write_references r) \<and> wf_map (property_read_references r)
     \<and> wf_map (file_property_write_references r) \<and> wf_map (file_property_read_references r)"

text \<open>The edges of either role: between symbols, and from files to symbols.\<close>

definition symbol_edges :: "symbol_references \<Rightarrow> (symbol_identifier \<times> symbol_identifier) set" where
  "symbol_edges r = edges_of (symbol_references_to_symbols r) \<union> edges_of (symbol_references_to_symbols_in_signature r)"

definition file_edges :: "symbol_references \<Rightarrow> (bytes \<times> symbol_identifier) set" where
  "file_edges r = edges_of (file_references_to_symbols r) \<union> edges_of (file_references_to_symbols_in_signature r)"

definition signature_edges :: "symbol_references \<Rightarrow> (symbol_identifier \<times> symbol_identifier) set" where
  "signature_edges r = edges_of (symbol_references_to_symbols_in_signature r)"

text \<open>
  No symbol refers to itself, and a reference between two classes or to a member of another
  class comes with the references between, and to, the classes.
\<close>

definition class_closed :: "symbol_references \<Rightarrow> bool" where
  "class_closed r \<longleftrightarrow>
     (\<forall>(s, t)\<in>symbol_edges r. s \<noteq> t \<and> (fst s \<noteq> fst t \<longrightarrow>
        ((fst s, empty_word), (fst t, empty_word)) \<in> symbol_edges r \<and> (s, (fst t, empty_word)) \<in> symbol_edges r))
   \<and> (\<forall>(f, t)\<in>file_edges r. (f, (fst t, empty_word)) \<in> file_edges r)"

lemma references_new_simps [simp]:
  "references_ok references_new" "symbol_edges references_new = {}" "file_edges references_new = {}"
  "class_closed references_new"
  by (simp_all add: references_ok_def references_new_def dependencies_ok_def symbol_edges_def file_edges_def class_closed_def)

lemma insert_symbol_dependency_spec:
  "symbol_edges (insert_symbol_dependency r k t s) = insert (k, t) (symbol_edges r)"
  "file_edges (insert_symbol_dependency r k t s) = file_edges r"
  "signature_edges (insert_symbol_dependency r k t s) = (if s then insert (k, t) (signature_edges r) else signature_edges r)"
  "references_ok r \<Longrightarrow> references_ok (insert_symbol_dependency r k t s)"
proof -
  obtain b g where bg: "insert_dependency (symbol_references_to_symbols r) (symbol_references_to_symbols_in_signature r) k t s = (b, g)"
    by (cases "insert_dependency (symbol_references_to_symbols r) (symbol_references_to_symbols_in_signature r) k t s")
  note e = insert_dependency_edges[OF bg]
  show "symbol_edges (insert_symbol_dependency r k t s) = insert (k, t) (symbol_edges r)"
    using e unfolding symbol_edges_def insert_symbol_dependency_def bg by auto
  show "file_edges (insert_symbol_dependency r k t s) = file_edges r"
    unfolding file_edges_def insert_symbol_dependency_def bg by simp
  show "signature_edges (insert_symbol_dependency r k t s) = (if s then insert (k, t) (signature_edges r) else signature_edges r)"
    using e unfolding signature_edges_def insert_symbol_dependency_def bg by simp
  show "references_ok r \<Longrightarrow> references_ok (insert_symbol_dependency r k t s)"
    using insert_dependency_ok[OF bg] unfolding references_ok_def insert_symbol_dependency_def bg by simp
qed

lemma insert_file_dependency_spec:
  "symbol_edges (insert_file_dependency r f t s) = symbol_edges r"
  "file_edges (insert_file_dependency r f t s) = insert (f, t) (file_edges r)"
  "signature_edges (insert_file_dependency r f t s) = signature_edges r"
  "references_ok r \<Longrightarrow> references_ok (insert_file_dependency r f t s)"
proof -
  obtain b g where bg: "insert_dependency (file_references_to_symbols r) (file_references_to_symbols_in_signature r) f t s = (b, g)"
    by (cases "insert_dependency (file_references_to_symbols r) (file_references_to_symbols_in_signature r) f t s")
  note e = insert_dependency_edges[OF bg]
  show "file_edges (insert_file_dependency r f t s) = insert (f, t) (file_edges r)"
    using e unfolding file_edges_def insert_file_dependency_def bg by auto
  show "symbol_edges (insert_file_dependency r f t s) = symbol_edges r"
    "signature_edges (insert_file_dependency r f t s) = signature_edges r"
    unfolding symbol_edges_def signature_edges_def insert_file_dependency_def bg by simp_all
  show "references_ok r \<Longrightarrow> references_ok (insert_file_dependency r f t s)"
    using insert_dependency_ok[OF bg] unfolding references_ok_def insert_file_dependency_def bg by simp
qed

lemmas dependency_spec = insert_symbol_dependency_spec insert_file_dependency_spec

text \<open>The edges that recording a reference adds.\<close>

definition implied_edges :: "symbol_identifier \<Rightarrow> symbol_identifier \<Rightarrow> (symbol_identifier \<times> symbol_identifier) set" where
  "implied_edges s t =
     (if s = t \<or> fst s = fst t \<and> snd t = empty_word then {}
      else insert (s, t) (if fst s = fst t then {} else {((fst s, empty_word), (fst t, empty_word)), (s, (fst t, empty_word))}))"

lemma add_symbol_reference_edges:
  "symbol_edges (add_symbol_reference r s t g) = symbol_edges r \<union> implied_edges s t"
  by (cases s; cases t)
    (auto simp: add_symbol_reference_def add_symbol_reference_to_symbol_def add_symbol_reference_to_class_member_def
      add_class_member_reference_to_symbol_def add_class_member_reference_to_class_member_def
      implied_edges_def dependency_spec Let_def)

lemma add_symbol_reference_frame:
  "file_edges (add_symbol_reference r s t g) = file_edges r"
  "references_ok r \<Longrightarrow> references_ok (add_symbol_reference r s t g)"
  by (auto simp: add_symbol_reference_def add_symbol_reference_to_symbol_def add_symbol_reference_to_class_member_def
      add_class_member_reference_to_symbol_def add_class_member_reference_to_class_member_def dependency_spec Let_def)

lemma add_symbol_reference_signature:
  "signature_edges (add_symbol_reference r s t g)
    = (if g \<and> s \<noteq> t \<and> \<not> (fst s = fst t \<and> snd t = empty_word) then insert (s, t) (signature_edges r) else signature_edges r)"
  by (cases s; cases t)
    (auto simp: add_symbol_reference_def add_symbol_reference_to_symbol_def add_symbol_reference_to_class_member_def
      add_class_member_reference_to_symbol_def add_class_member_reference_to_class_member_def
      dependency_spec Let_def)

lemma class_closed_add_edges:
  assumes "class_closed r" "symbol_edges r' = symbol_edges r \<union> implied_edges s t" "file_edges r' = file_edges r"
  shows "class_closed r'"
proof -
  have "a \<noteq> b \<and> (fst a \<noteq> fst b \<longrightarrow> ((fst a, empty_word), (fst b, empty_word)) \<in> symbol_edges r'
      \<and> (a, (fst b, empty_word)) \<in> symbol_edges r')" if "(a, b) \<in> symbol_edges r'" for a b
  proof (cases "(a, b) \<in> symbol_edges r")
    case True
    then show ?thesis using assms(1,2) by (auto simp: class_closed_def)
  next
    case False
    then have "(a, b) \<in> implied_edges s t" using that assms(2) by blast
    then show ?thesis unfolding assms(2) by (auto simp: implied_edges_def split: if_splits)
  qed
  then show ?thesis using assms(1,3) by (auto simp: class_closed_def)
qed

lemma add_file_reference_spec:
  "file_edges (add_file_reference_to_class_member r f t g) = file_edges r \<union> {(f, t), (f, (fst t, empty_word))}"
  "symbol_edges (add_file_reference_to_class_member r f t g) = symbol_edges r"
  "references_ok r \<Longrightarrow> references_ok (add_file_reference_to_class_member r f t g)"
  by (cases t) (auto simp: add_file_reference_to_class_member_def dependency_spec Let_def)

lemma add_reference_ok:
  "references_ok r \<Longrightarrow> references_ok (add_reference r origin t g)"
  "class_closed r \<Longrightarrow> class_closed (add_reference r origin t g)"
proof -
  show "references_ok r \<Longrightarrow> references_ok (add_reference r origin t g)"
    by (cases origin) (simp_all add: add_symbol_reference_frame add_file_reference_spec)
  show "class_closed (add_reference r origin t g)" if "class_closed r"
  proof (cases origin)
    case (Symbol_Origin s)
    then show ?thesis
      using class_closed_add_edges[OF that add_symbol_reference_edges add_symbol_reference_frame(1)] by simp
  next
    case (File_Origin f)
    then show ?thesis using that by (auto simp: class_closed_def add_file_reference_spec)
  qed
qed

text \<open>Property, override and return references leave the edges alone.\<close>

lemma class_closed_cong:
  "symbol_edges r' = symbol_edges r \<Longrightarrow> file_edges r' = file_edges r \<Longrightarrow> class_closed r' \<longleftrightarrow> class_closed r"
  by (simp add: class_closed_def)

lemma add_property_read_ok:
  "references_ok r \<Longrightarrow> references_ok (add_property_read_reference r origin p)"
  "class_closed r \<Longrightarrow> class_closed (add_property_read_reference r origin p)"
proof -
  let ?r = "add_reference r origin p False"
  show "references_ok r \<Longrightarrow> references_ok (add_property_read_reference r origin p)"
    using add_reference_ok(1)[of r origin p False]
    by (auto simp: add_property_read_reference_def Let_def references_ok_def split: reference_origin.splits)
  have "symbol_edges (add_property_read_reference r origin p) = symbol_edges ?r"
    "file_edges (add_property_read_reference r origin p) = file_edges ?r"
    by (auto simp: add_property_read_reference_def Let_def symbol_edges_def file_edges_def split: reference_origin.splits)
  then show "class_closed r \<Longrightarrow> class_closed (add_property_read_reference r origin p)"
    using add_reference_ok(2) class_closed_cong by blast
qed

lemma add_property_write_ok:
  "references_ok r \<Longrightarrow> references_ok (add_property_write_reference r origin p)"
  "class_closed r \<Longrightarrow> class_closed (add_property_write_reference r origin p)"
proof -
  let ?r = "add_reference r origin p False"
  show "references_ok r \<Longrightarrow> references_ok (add_property_write_reference r origin p)"
    using add_reference_ok(1)[of r origin p False]
    by (auto simp: add_property_write_reference_def Let_def references_ok_def split: reference_origin.splits)
  have "symbol_edges (add_property_write_reference r origin p) = symbol_edges ?r"
    "file_edges (add_property_write_reference r origin p) = file_edges ?r"
    by (auto simp: add_property_write_reference_def Let_def symbol_edges_def file_edges_def split: reference_origin.splits)
  then show "class_closed r \<Longrightarrow> class_closed (add_property_write_reference r origin p)"
    using add_reference_ok(2) class_closed_cong by blast
qed

lemma add_overridden_ok:
  "references_ok r \<Longrightarrow> references_ok (add_overridden_member_reference r a b)"
  "class_closed r \<Longrightarrow> class_closed (add_overridden_member_reference r a b)"
  by (auto simp: add_overridden_member_reference_def references_ok_def class_closed_def symbol_edges_def file_edges_def)

lemma add_return_ok:
  "references_ok r \<Longrightarrow> references_ok (add_reference_to_functionlike_return r a b)"
  "class_closed r \<Longrightarrow> class_closed (add_reference_to_functionlike_return r a b)"
  by (auto simp: add_reference_to_functionlike_return_def references_ok_def class_closed_def symbol_edges_def file_edges_def)

lemma add_symbol_to_symbol_eq:
  "add_symbol_reference_to_symbol r a b g = add_symbol_reference r (a, empty_word) (b, empty_word) g"
  by (simp add: add_symbol_reference_def)

lemma add_member_to_symbol_ok:
  "references_ok r \<Longrightarrow> references_ok (add_class_member_reference_to_symbol r m b g)"
  "class_closed r \<Longrightarrow> class_closed (add_class_member_reference_to_symbol r m b g)"
proof -
  show "references_ok r \<Longrightarrow> references_ok (add_class_member_reference_to_symbol r m b g)"
    by (auto simp: add_class_member_reference_to_symbol_def add_symbol_reference_to_symbol_def dependency_spec Let_def)
  have "symbol_edges (add_class_member_reference_to_symbol r m b g) = symbol_edges r \<union> implied_edges m (b, empty_word)"
    by (cases m) (auto simp: add_class_member_reference_to_symbol_def add_symbol_reference_to_symbol_def
      implied_edges_def dependency_spec Let_def)
  moreover have "file_edges (add_class_member_reference_to_symbol r m b g) = file_edges r"
    by (auto simp: add_class_member_reference_to_symbol_def add_symbol_reference_to_symbol_def dependency_spec Let_def)
  ultimately show "class_closed r \<Longrightarrow> class_closed (add_class_member_reference_to_symbol r m b g)"
    using class_closed_add_edges by blast
qed

lemma add_attribute_ok:
  "references_ok r \<Longrightarrow> references_ok (add_attribute_reference r src n over)"
  "class_closed r \<Longrightarrow> class_closed (add_attribute_reference r src n over)"
  using add_member_to_symbol_ok add_reference_ok[of r "Symbol_Origin _"] add_reference_ok[of r "File_Origin _"]
  by (cases src; simp add: add_attribute_reference_def add_symbol_to_symbol_eq)+

section \<open>Merging\<close>

text \<open>What a graph says, as ten relations.\<close>

record relations =
  body_rel :: "(symbol_identifier \<times> symbol_identifier) set"
  signature_rel :: "(symbol_identifier \<times> symbol_identifier) set"
  overridden_rel :: "(symbol_identifier \<times> symbol_identifier) set"
  return_rel :: "(function_like_identifier \<times> function_like_identifier) set"
  file_body_rel :: "(bytes \<times> symbol_identifier) set"
  file_signature_rel :: "(bytes \<times> symbol_identifier) set"
  write_rel :: "(symbol_identifier \<times> symbol_identifier) set"
  read_rel :: "(symbol_identifier \<times> symbol_identifier) set"
  file_write_rel :: "(bytes \<times> symbol_identifier) set"
  file_read_rel :: "(bytes \<times> symbol_identifier) set"

definition relations_of :: "symbol_references \<Rightarrow> relations" where
  "relations_of r = \<lparr>
     body_rel = edges_of (symbol_references_to_symbols r),
     signature_rel = edges_of (symbol_references_to_symbols_in_signature r),
     overridden_rel = edges_of (symbol_references_to_overridden_members r),
     return_rel = edges_of (functionlike_references_to_functionlike_returns r),
     file_body_rel = edges_of (file_references_to_symbols r),
     file_signature_rel = edges_of (file_references_to_symbols_in_signature r),
     write_rel = edges_of (property_write_references r),
     read_rel = edges_of (property_read_references r),
     file_write_rel = edges_of (file_property_write_references r),
     file_read_rel = edges_of (file_property_read_references r)\<rparr>"

text \<open>The union of a family of graphs, in which a signature edge of any of them hides the body edge.\<close>

definition union_relations :: "relations set \<Rightarrow> relations" where
  "union_relations R = \<lparr>
     body_rel = (\<Union>q\<in>R. body_rel q) - (\<Union>q\<in>R. signature_rel q),
     signature_rel = (\<Union>q\<in>R. signature_rel q),
     overridden_rel = (\<Union>q\<in>R. overridden_rel q),
     return_rel = (\<Union>q\<in>R. return_rel q),
     file_body_rel = (\<Union>q\<in>R. file_body_rel q) - (\<Union>q\<in>R. file_signature_rel q),
     file_signature_rel = (\<Union>q\<in>R. file_signature_rel q),
     write_rel = (\<Union>q\<in>R. write_rel q),
     read_rel = (\<Union>q\<in>R. read_rel q),
     file_write_rel = (\<Union>q\<in>R. file_write_rel q),
     file_read_rel = (\<Union>q\<in>R. file_read_rel q)\<rparr>"

lemma references_okD:
  assumes "references_ok r"
  shows "wf_map (symbol_references_to_symbols r)" "wf_map (symbol_references_to_symbols_in_signature r)"
    "wf_map (file_references_to_symbols r)" "wf_map (file_references_to_symbols_in_signature r)"
    "wf_map (symbol_references_to_overridden_members r)" "wf_map (functionlike_references_to_functionlike_returns r)"
    "wf_map (property_write_references r)" "wf_map (property_read_references r)"
    "wf_map (file_property_write_references r)" "wf_map (file_property_read_references r)"
    "edges_of (symbol_references_to_symbols r) \<inter> edges_of (symbol_references_to_symbols_in_signature r) = {}"
    "edges_of (file_references_to_symbols r) \<inter> edges_of (file_references_to_symbols_in_signature r) = {}"
  using assms by (simp_all add: references_ok_def dependencies_ok_def)

lemma references_extend_spec:
  assumes "references_ok r" "references_ok q"
  shows "references_ok (references_extend r q)"
    "relations_of (references_extend r q) = union_relations {relations_of r, relations_of q}"
proof -
  obtain b g where bg: "extend_dependencies (symbol_references_to_symbols r) (symbol_references_to_symbols_in_signature r)
      (symbol_references_to_symbols q) (symbol_references_to_symbols_in_signature q) = (b, g)" by fastforce
  obtain fb fg where fbg: "extend_dependencies (file_references_to_symbols r) (file_references_to_symbols_in_signature r)
      (file_references_to_symbols q) (file_references_to_symbols_in_signature q) = (fb, fg)" by fastforce
  note d = references_okD[OF assms(1)] and d' = references_okD[OF assms(2)]
  note e = extend_dependencies_spec[OF bg d(1,2) d'(1,2)] and fe = extend_dependencies_spec[OF fbg d(3,4) d'(3,4)]
  show "references_ok (references_extend r q)"
    using extend_dependencies_ok[OF bg] extend_dependencies_ok[OF fbg] assms d d'
    by (auto simp: references_ok_def references_extend_def bg fbg)
  show "relations_of (references_extend r q) = union_relations {relations_of r, relations_of q}"
    using d(11,12) d'(11,12)
    by (auto simp: relations_of_def union_relations_def references_extend_def bg fbg e fe
        edges_extend_reference_map d' simp del: mem_edges_of)
qed

lemma class_closed_relations:
  "class_closed r \<longleftrightarrow>
     (\<forall>(s, t)\<in>body_rel (relations_of r) \<union> signature_rel (relations_of r). s \<noteq> t \<and> (fst s \<noteq> fst t \<longrightarrow>
        ((fst s, empty_word), (fst t, empty_word)) \<in> body_rel (relations_of r) \<union> signature_rel (relations_of r)
        \<and> (s, (fst t, empty_word)) \<in> body_rel (relations_of r) \<union> signature_rel (relations_of r)))
   \<and> (\<forall>(f, t)\<in>file_body_rel (relations_of r) \<union> file_signature_rel (relations_of r).
        (f, (fst t, empty_word)) \<in> file_body_rel (relations_of r) \<union> file_signature_rel (relations_of r))"
  by (simp add: class_closed_def symbol_edges_def file_edges_def relations_of_def)

lemma references_extend_edges:
  assumes "references_ok r" "references_ok q"
  shows "symbol_edges (references_extend r q) = symbol_edges r \<union> symbol_edges q"
    "file_edges (references_extend r q) = file_edges r \<union> file_edges q"
proof -
  have "body_rel (relations_of (references_extend r q)) \<union> signature_rel (relations_of (references_extend r q))
      = symbol_edges r \<union> symbol_edges q"
    "file_body_rel (relations_of (references_extend r q)) \<union> file_signature_rel (relations_of (references_extend r q))
      = file_edges r \<union> file_edges q"
    unfolding references_extend_spec[OF assms]
    by (auto simp: union_relations_def relations_of_def symbol_edges_def file_edges_def simp del: mem_edges_of)
  then show "symbol_edges (references_extend r q) = symbol_edges r \<union> symbol_edges q"
    "file_edges (references_extend r q) = file_edges r \<union> file_edges q"
    by (simp_all add: relations_of_def symbol_edges_def file_edges_def)
qed

lemma references_extend_closed:
  assumes "references_ok r" "references_ok q" "class_closed r" "class_closed q"
  shows "class_closed (references_extend r q)"
  using assms(3,4) unfolding class_closed_def references_extend_edges[OF assms(1,2)] by blast

text \<open>The graphs that recording and merging build.\<close>

inductive recorded :: "symbol_references \<Rightarrow> bool" where
  initial: "recorded references_new"
| plain: "recorded r \<Longrightarrow> recorded (add_reference r origin t in_signature)"
| property_read: "recorded r \<Longrightarrow> recorded (add_property_read_reference r origin p)"
| property_write: "recorded r \<Longrightarrow> recorded (add_property_write_reference r origin p)"
| overridden: "recorded r \<Longrightarrow> recorded (add_overridden_member_reference r a b)"
| uses_return: "recorded r \<Longrightarrow> recorded (add_reference_to_functionlike_return r f g)"
| of_attribute: "recorded r \<Longrightarrow> recorded (add_attribute_reference r src n over)"
| merged: "recorded r \<Longrightarrow> recorded q \<Longrightarrow> recorded (references_extend r q)"


definition merge_all :: "symbol_references list \<Rightarrow> symbol_references" where
  "merge_all rs = fold (\<lambda>q acc. references_extend acc q) rs references_new"

lemma relations_of_new: "relations_of references_new = union_relations {}"
  by (simp add: relations_of_def references_new_def union_relations_def)

lemma union_relations_insert: "union_relations {union_relations R, q} = union_relations (insert q R)"
  by (auto simp: union_relations_def)

lemma merge_fold:
  assumes "\<And>r. r \<in> set rs \<Longrightarrow> references_ok r" "references_ok acc" "relations_of acc = union_relations R"
  shows "references_ok (fold (\<lambda>q acc. references_extend acc q) rs acc)
    \<and> relations_of (fold (\<lambda>q acc. references_extend acc q) rs acc) = union_relations (relations_of ` set rs \<union> R)"
  using assms
proof (induction rs arbitrary: acc R)
  case (Cons q rs)
  have q: "references_ok q" using Cons.prems(1) by simp
  have "relations_of (references_extend acc q) = union_relations (insert (relations_of q) R)"
    unfolding references_extend_spec(2)[OF Cons.prems(2) q] Cons.prems(3) union_relations_insert ..
  from Cons.IH[OF _ references_extend_spec(1)[OF Cons.prems(2) q] this] Cons.prems(1)
  show ?case by simp
qed simp

text \<open>
  Merging well-formed graphs gives the union of what they say, a signature edge of any of them
  hiding the body edge: neither the order nor a repetition of the graphs matters.
\<close>

theorem merge_is_union:
  assumes "\<forall>r\<in>set rs. references_ok r"
  shows "references_ok (merge_all rs) \<and> relations_of (merge_all rs) = union_relations (relations_of ` set rs)"
  using merge_fold[of rs references_new "{}"] assms relations_of_new by (simp add: merge_all_def)

definition example_graph :: "bool \<Rightarrow> symbol_references" where
  "example_graph g = add_symbol_reference references_new ([1], []) ([2], [3]) g"

lemma example_graph_ok: "references_ok (example_graph g)"
  by (simp add: example_graph_def add_symbol_reference_frame)

lemma merge_is_union_witness:
  "relations_of (merge_all [example_graph False, example_graph True]) = relations_of (merge_all [example_graph True, example_graph False])
   \<and> (([1], []), ([2], [3])) \<notin> body_rel (relations_of (merge_all [example_graph False, example_graph True]))"
proof -
  have u: "relations_of (merge_all [example_graph False, example_graph True]) = union_relations (relations_of ` set [example_graph False, example_graph True])"
    "relations_of (merge_all [example_graph True, example_graph False]) = union_relations (relations_of ` set [example_graph True, example_graph False])"
    using merge_is_union[of "[example_graph False, example_graph True]"]
      merge_is_union[of "[example_graph True, example_graph False]"] example_graph_ok by auto
  have "(([1], []), ([2], [3])) \<in> signature_rel (relations_of (example_graph True))"
    using add_symbol_reference_signature[of references_new "([1], [])" "([2], [3])" True]
    by (simp add: example_graph_def relations_of_def signature_edges_def del: mem_edges_of)
  then show ?thesis unfolding u by (auto simp: union_relations_def insert_commute)
qed

section \<open>Queries\<close>

lemma finite_edges: "finite (edges_of m)"
proof -
  have "edges_of m \<subseteq> fst ` set m \<times> (\<Union>vs\<in>snd ` set m. set vs)"
    by (force simp: edges_of_def targets_def split: option.splits dest: map_of_SomeD)
  then show ?thesis by (rule finite_subset) simp
qed

lemma edges_of_Cons:
  assumes "k \<notin> fst ` set m"
  shows "edges_of ((k, vs) # m) = {k} \<times> set vs \<union> edges_of m" "({k} \<times> set vs) \<inter> edges_of m = {}"
proof -
  have "map_of m k = None" using assms by (simp add: map_of_eq_None_iff)
  then show "edges_of ((k, vs) # m) = {k} \<times> set vs \<union> edges_of m" "({k} \<times> set vs) \<inter> edges_of m = {}"
    by (auto simp: edges_of_def targets_def split: if_splits)
qed

lemma sum_of_sizes_card: "wf_map m \<Longrightarrow> sum_of_sizes m = card (edges_of m)"
proof (induction m)
  case (Cons kv m)
  obtain k vs where kv: "kv = (k, vs)" by (cases kv)
  have w: "k \<notin> fst ` set m" "distinct vs" "wf_map m" using Cons.prems by (simp_all add: kv wf_Cons)
  have "card ({k} \<times> set vs) = length vs" using w(2) by (simp add: card_cartesian_product distinct_card)
  then have "card (edges_of (kv # m)) = length vs + card (edges_of m)"
    unfolding kv edges_of_Cons(1)[OF w(1)]
    using edges_of_Cons(2)[OF w(1), of vs] by (simp add: card_Un_disjoint finite_edges)
  then show ?case using Cons.IH w by (simp add: kv sum_of_sizes_def)
qed (simp add: sum_of_sizes_def)

lemma containing_keys:
  assumes "wf_map m"
  shows "fst ` set (filter (\<lambda>(k, vs). v \<in> set vs) m) = {k. (k, v) \<in> edges_of m}"
    "distinct (map fst (filter (\<lambda>(k, vs). v \<in> set vs) m))"
proof -
  have "(k, vs) \<in> set m \<longleftrightarrow> map_of m k = Some vs" for k vs
    using map_of_eq_Some_iff[OF wf_map_distinct[OF assms]] by simp
  then have "(\<exists>vs. (k, vs) \<in> set m \<and> v \<in> set vs) \<longleftrightarrow> v \<in> targets m k" for k
    by (auto simp: targets_def split: option.splits)
  moreover have "fst ` set (filter (\<lambda>(k, vs). v \<in> set vs) m) = {k. \<exists>vs. (k, vs) \<in> set m \<and> v \<in> set vs}"
    by (auto simp: image_iff)
  ultimately show "fst ` set (filter (\<lambda>(k, vs). v \<in> set vs) m) = {k. (k, v) \<in> edges_of m}" by simp
  show "distinct (map fst (filter (\<lambda>(k, vs). v \<in> set vs) m))"
    using wf_map_distinct[OF assms] by (rule distinct_map_filter)
qed

lemma count_containing_card: "wf_map m \<Longrightarrow> count_containing m v = card {k. (k, v) \<in> edges_of m}"
  using containing_keys[of m v] unfolding count_containing_def
  by (metis distinct_card length_map set_map)

lemma any_containing_iff: "wf_map m \<Longrightarrow> any_containing m v \<longleftrightarrow> (\<exists>k. (k, v) \<in> edges_of m)"
  using containing_keys(1)[of m v] unfolding any_containing_def list_ex_iff
  by (auto simp: set_eq_iff image_iff)

lemma referencing_symbols_set:
  assumes "references_ok r"
  shows "set (referencing_symbols r t) = {s. (s, t) \<in> symbol_edges r}"
  unfolding referencing_symbols_def filter_append map_append set_append set_map
    containing_keys(1)[OF references_okD(1)[OF assms]] containing_keys(1)[OF references_okD(2)[OF assms]] symbol_edges_def
  by blast

text \<open>
  The queries of a well-formed graph: the counts are numbers of edges and of referencing keys,
  and a symbol is referenced exactly when an edge of either role, from a symbol or a file, ends
  in it.
\<close>

theorem queries_exact:
  assumes "references_ok r"
  shows "count_body_references r = card (body_rel (relations_of r)) + card (file_body_rel (relations_of r))
    \<and> count_signature_references r = card (signature_rel (relations_of r)) + card (file_signature_rel (relations_of r))
    \<and> set (get_references_to_symbol r t) = {s. (s, t) \<in> symbol_edges r}
    \<and> (has_reference_to_symbol r t \<longleftrightarrow> (\<exists>s. (s, t) \<in> symbol_edges r) \<or> (\<exists>f. (f, t) \<in> file_edges r))
    \<and> count_referencing_symbols r t False = card {s. (s, t) \<in> body_rel (relations_of r)} + card {f. (f, t) \<in> file_body_rel (relations_of r)}
    \<and> count_referencing_symbols r t True = card {s. (s, t) \<in> signature_rel (relations_of r)} + card {f. (f, t) \<in> file_signature_rel (relations_of r)}
    \<and> count_property_reads r t = card {s. (s, t) \<in> read_rel (relations_of r)} + card {f. (f, t) \<in> file_read_rel (relations_of r)}
    \<and> (has_property_write r t \<longleftrightarrow> (\<exists>s. (s, t) \<in> write_rel (relations_of r)) \<or> (\<exists>f. (f, t) \<in> file_write_rel (relations_of r)))
    \<and> (references_is_empty r \<longleftrightarrow> relations_of r = relations_of references_new)"
proof -
  note d = references_okD[OF assms]
  have refs: "set (referencing_symbols r t) = {s. (s, t) \<in> symbol_edges r}" by (rule referencing_symbols_set[OF assms])
  have "has_file_reference_to_symbol r t \<longleftrightarrow> (\<exists>f. (f, t) \<in> file_edges r)"
    unfolding has_file_reference_to_symbol_def any_containing_iff[OF d(3)] any_containing_iff[OF d(4)] file_edges_def by blast
  then have has: "has_reference_to_symbol r t \<longleftrightarrow> (\<exists>s. (s, t) \<in> symbol_edges r) \<or> (\<exists>f. (f, t) \<in> file_edges r)"
    using refs by (auto simp: has_reference_to_symbol_def simp flip: set_empty)
  have empty: "references_is_empty r \<longleftrightarrow> relations_of r = relations_of references_new"
    using d(1-10)[THEN wf_edges_empty]
    by (simp add: references_is_empty_def relations_of_def references_new_def)
  show ?thesis
    using has empty refs
    by (simp add: count_body_references_def count_signature_references_def get_references_to_symbol_def
        count_referencing_symbols_def count_property_reads_def has_property_write_def relations_of_def
        sum_of_sizes_card count_containing_card any_containing_iff d del: mem_edges_of)
qed

lemma queries_exact_witness:
  "has_reference_to_symbol (example_graph True) ([2], [3]) \<and> count_referencing_symbols (example_graph True) ([2], [3]) False = 0"
proof -
  note q = queries_exact[OF example_graph_ok, of True "([2], [3])"]
  have sym: "symbol_edges (example_graph True) = {(([1], []), ([2], [3])), (([1], []), ([2], []))}"
    by (auto simp: example_graph_def add_symbol_reference_edges implied_edges_def)
  have sig: "(([1], []), ([2], [3])) \<in> signature_edges (example_graph True)"
    by (simp add: example_graph_def add_symbol_reference_signature)
  have files: "file_edges (example_graph True) = {}"
    by (simp add: example_graph_def add_symbol_reference_frame)
  have "(s, ([2], [3])) \<notin> body_rel (relations_of (example_graph True))" for s
  proof
    assume b: "(s, ([2], [3])) \<in> body_rel (relations_of (example_graph True))"
    then have "(s, ([2], [3])) \<in> symbol_edges (example_graph True)" by (simp add: relations_of_def symbol_edges_def)
    then have "s = ([1], [])" unfolding sym by simp
    then show False
      using b sig references_okD(11)[OF example_graph_ok, of True]
      by (auto simp: relations_of_def signature_edges_def simp del: mem_edges_of)
  qed
  moreover have "file_body_rel (relations_of (example_graph True)) = {}"
    using files by (simp add: relations_of_def file_edges_def)
  ultimately show ?thesis using q sym by simp
qed

section \<open>Maintenance\<close>

lemma map_of_remove_keys: "map_of (remove_keys ks m) k = (if k \<in> set ks then None else map_of m k)"
  unfolding remove_keys_def by (induction ks arbitrary: m) (auto simp: delete_conv')

lemma wf_remove_keys [intro]: "wf_map m \<Longrightarrow> wf_map (remove_keys ks m)"
  unfolding remove_keys_def by (induction ks arbitrary: m) auto

lemma targets_remove_keys: "targets (remove_keys ks m) k = (if k \<in> set ks then {} else targets m k)"
  by (simp add: targets_def map_of_remove_keys)

lemma map_of_retain_keys: "map_of (retain_keys p m) k = (if p k then map_of m k else None)"
  unfolding retain_keys_def by (induction m) auto

lemma wf_retain_keys [intro]: "wf_map m \<Longrightarrow> wf_map (retain_keys p m)"
  unfolding retain_keys_def by (induction m) (auto simp: wf_Cons)

lemma targets_retain_keys: "targets (retain_keys p m) k = (if p k then targets m k else {})"
  by (simp add: targets_def map_of_retain_keys)

lemma edges_remove_keys: "edges_of (remove_keys ks m) = {(k, v) \<in> edges_of m. k \<notin> set ks}"
  by (auto simp: targets_remove_keys split: if_splits)

lemma edges_retain_keys: "edges_of (retain_keys p m) = {(k, v) \<in> edges_of m. p k}"
  by (auto simp: targets_retain_keys split: if_splits)

lemma map_of_restore_entries:
  "distinct (map fst previous) \<Longrightarrow> map_of (restore_entries safe previous current) k =
    (case map_of current k of Some v \<Rightarrow> Some v | None \<Rightarrow> if safe k then map_of previous k else None)"
proof (induction safe previous current rule: restore_entries.induct)
  case (2 safe j refs previous current)
  then have "map_of previous j = None" by (simp add: map_of_eq_None_iff)
  then show ?case using 2 by (auto simp: update_conv' split: option.splits)
qed (simp split: option.splits)

lemma map_of_restore_body:
  "distinct (map fst previous) \<Longrightarrow> map_of (restore_body safe signature previous current) k =
    (case map_of current k of
       Some v \<Rightarrow> Some v
     | None \<Rightarrow> if safe k then Option.bind (map_of previous k) (\<lambda>refs.
         if without_signature signature k refs = [] then None else Some (without_signature signature k refs)) else None)"
proof (induction safe signature previous current rule: restore_body.induct)
  case (2 safe signature j refs previous current)
  then have "map_of previous j = None" by (simp add: map_of_eq_None_iff)
  then show ?case using 2 by (auto simp: update_conv' Let_def split: option.splits)
qed (simp split: option.splits)

lemma wf_restore_entries [intro]:
  "wf_map previous \<Longrightarrow> wf_map current \<Longrightarrow> wf_map (restore_entries safe previous current)"
proof (induction safe previous current rule: restore_entries.induct)
  case (2 safe j refs previous current)
  then have "wf_map (AList.update j refs current)" by (simp add: wf_Cons wf_update)
  then show ?case using 2 by (simp add: wf_Cons)
qed simp

lemma wf_restore_body [intro]:
  "wf_map previous \<Longrightarrow> wf_map current \<Longrightarrow> wf_map (restore_body safe signature previous current)"
proof (induction safe signature previous current rule: restore_body.induct)
  case (2 safe signature j refs previous current)
  have "without_signature signature j refs \<noteq> [] \<Longrightarrow> wf_map (AList.update j (without_signature signature j refs) current)"
    by (intro wf_update) (use 2(2,3) in \<open>auto simp: wf_Cons intro: distinct_without_signature\<close>)
  then show ?case using 2 by (simp add: wf_Cons Let_def)
qed simp

lemma targets_restore_body:
  assumes "wf_map previous"
  shows "targets (restore_body safe signature previous current) k =
    (if map_of current k = None \<and> safe k then targets previous k - targets signature k else targets current k)"
proof -
  have s: "without_signature signature k ts = [] \<longleftrightarrow> set ts - targets signature k = {}" for ts
    using set_without_signature[of signature k ts] by (metis set_empty)
  show ?thesis
    unfolding targets_def[of "restore_body safe signature previous current"] map_of_restore_body[OF wf_map_distinct[OF assms]]
    by (auto simp: targets_def[of previous] targets_def[of current] s set_without_signature split: option.splits)
qed

lemma dependencies_ok_maintained [intro]:
  "dependencies_ok b g \<Longrightarrow> dependencies_ok (remove_keys ks b) g"
  "dependencies_ok b g \<Longrightarrow> dependencies_ok (remove_keys ks b) (remove_keys ks g)"
  "dependencies_ok b g \<Longrightarrow> dependencies_ok (retain_keys p b) (retain_keys p g)"
  by (auto simp: dependencies_ok_def edges_remove_keys edges_retain_keys simp del: mem_edges_of)

text \<open>Every maintenance operation keeps a graph well formed.\<close>

theorem maintenance_preserves_ok:
  assumes "references_ok r"
  shows "references_ok (remove_body_references_for_symbols r symbols files)
    \<and> references_ok (remove_references_from_files r names)
    \<and> references_ok (retain_references_from_files r names)
    \<and> references_ok (remove_references_from_invalid_symbols r symbols)
    \<and> references_ok (retain_safe_symbol_references r names symbols)
    \<and> references_ok (remove_dirty_symbol_references r symbols)
    \<and> (\<forall>previous. references_ok previous \<longrightarrow>
         references_ok (restore_references_for_safe_symbols r previous names symbols))"
proof -
  note d = references_okD[OF assms]
  have restored: "references_ok (restore_references_for_safe_symbols r previous names symbols)" if p: "references_ok previous" for previous
  proof -
    note d' = references_okD[OF p]
    have "edges_of (restore_body safe (symbol_references_to_symbols_in_signature r)
        (symbol_references_to_symbols previous) (symbol_references_to_symbols r))
      \<inter> edges_of (symbol_references_to_symbols_in_signature r) = {}" for safe
      using d(11) by (auto simp: targets_restore_body[OF d'(1)] set_eq_iff split: if_splits)
    then show ?thesis
      using d d' by (auto simp: references_ok_def dependencies_ok_def restore_references_for_safe_symbols_def Let_def)
  qed
  show ?thesis
    using d restored assms
    by (auto simp: references_ok_def remove_body_references_for_symbols_def remove_references_from_files_def
        retain_references_from_files_def remove_references_from_invalid_symbols_def retain_safe_symbol_references_def
        remove_dirty_symbol_references_def Let_def)
qed

text \<open>
  C26. Removing the body references of symbols that are then found safe, and restoring them from the
  previous graph, gives the previous graph.
\<close>

theorem restore_after_remove:
  assumes "references_ok r" "\<forall>s\<in>set symbols. is_safe names members s"
  shows "relations_of (restore_references_for_safe_symbols (remove_body_references_for_symbols r symbols []) r names members)
    = relations_of r"
proof -
  note d = references_okD[OF assms(1)]
  let ?safe = "is_safe names members"
  have plain: "edges_of (restore_entries ?safe m (remove_keys symbols m)) = edges_of m" if "wf_map m" for m :: "symbol_identifier dependencies"
  proof (rule edges_of_eqI)
    show "targets (restore_entries ?safe m (remove_keys symbols m)) k = targets m k" for k
      using assms(2) by (auto simp: targets_def map_of_restore_entries[OF wf_map_distinct[OF that]] map_of_remove_keys split: option.splits)
  qed
  have body: "edges_of (restore_body ?safe (symbol_references_to_symbols_in_signature r) (symbol_references_to_symbols r)
      (remove_keys symbols (symbol_references_to_symbols r))) = edges_of (symbol_references_to_symbols r)"
  proof (rule edges_of_eqI)
    fix k
    have "targets (symbol_references_to_symbols r) k \<inter> targets (symbol_references_to_symbols_in_signature r) k = {}"
      using d(11) by (auto simp: edges_of_def)
    moreover have "map_of (symbol_references_to_symbols r) k = None \<Longrightarrow> targets (symbol_references_to_symbols r) k = {}"
      by (simp add: targets_def)
    ultimately show "targets (restore_body ?safe (symbol_references_to_symbols_in_signature r) (symbol_references_to_symbols r)
        (remove_keys symbols (symbol_references_to_symbols r))) k = targets (symbol_references_to_symbols r) k"
      using assms(2)
      unfolding targets_restore_body[OF d(1)] map_of_remove_keys targets_remove_keys by auto
  qed
  have returns: "edges_of (restore_entries (\<lambda>f. case function_like_symbol_identifier f of None \<Rightarrow> False | Some s \<Rightarrow> ?safe s) m
      (retain_keys (\<lambda>f. case function_like_symbol_identifier f of None \<Rightarrow> True | Some s \<Rightarrow> s \<notin> set symbols) m)) = edges_of m"
    if "wf_map m" for m :: "(function_like_identifier, function_like_identifier hash_set) hash_map"
  proof (rule edges_of_eqI)
    show "targets (restore_entries (\<lambda>f. case function_like_symbol_identifier f of None \<Rightarrow> False | Some s \<Rightarrow> ?safe s) m
      (retain_keys (\<lambda>f. case function_like_symbol_identifier f of None \<Rightarrow> True | Some s \<Rightarrow> s \<notin> set symbols) m)) k = targets m k" for k
      using assms(2)
      by (auto simp: targets_def map_of_restore_entries[OF wf_map_distinct[OF that]] map_of_retain_keys split: option.splits)
  qed
  have none: "remove_keys [] m = m" for m :: "bytes dependencies" by (simp add: remove_keys_def)
  show ?thesis
    by (simp add: relations_of_def restore_references_for_safe_symbols_def remove_body_references_for_symbols_def
        Let_def plain body returns none d)
qed

lemma restore_after_remove_witness:
  "relations_of (restore_references_for_safe_symbols (remove_body_references_for_symbols (example_graph False) [([1], [])] [])
     (example_graph False) [[1]] []) = relations_of (example_graph False)
   \<and> symbol_edges (remove_body_references_for_symbols (example_graph False) [([1], [])] []) = {}"
proof -
  have "(s, t) \<in> symbol_edges (example_graph False) \<Longrightarrow> s = ([1], [])" for s t
    by (auto simp: example_graph_def add_symbol_reference_edges implied_edges_def)
  moreover have "signature_edges (example_graph False) = {}"
    unfolding example_graph_def add_symbol_reference_signature by (simp add: signature_edges_def references_new_def)
  ultimately have "symbol_edges (remove_body_references_for_symbols (example_graph False) [([1], [])] []) = {}"
    unfolding symbol_edges_def signature_edges_def remove_body_references_for_symbols_def
    by (auto simp: edges_remove_keys simp del: mem_edges_of)
  then show ?thesis
    using restore_after_remove[OF example_graph_ok, of "[([1], [])]" "[[1]]" "[]" False] by (simp add: is_safe_def)
qed

text \<open>The symbols a graph has references from.\<close>

definition sources :: "symbol_references \<Rightarrow> symbol_identifier set" where
  "sources r = fst ` set (symbol_references_to_symbols r) \<union> fst ` set (symbol_references_to_symbols_in_signature r)
     \<union> fst ` set (symbol_references_to_overridden_members r)
     \<union> fst ` set (property_write_references r) \<union> fst ` set (property_read_references r)
     \<union> {s. \<exists>f\<in>fst ` set (functionlike_references_to_functionlike_returns r). function_like_symbol_identifier f = Some s}"

definition methods_named :: "symbol_references \<Rightarrow> bool" where
  "methods_named r \<longleftrightarrow> (\<forall>c. Method c empty_word \<notin> fst ` set (functionlike_references_to_functionlike_returns r))"

lemma remove_is_retain:
  assumes "\<And>k. k \<in> fst ` set m \<Longrightarrow> k \<in> set ks \<longleftrightarrow> \<not> p k"
  shows "edges_of (remove_keys ks m) = edges_of (retain_keys p m)"
proof (rule edges_of_eqI)
  fix k
  have "map_of m k = None \<or> (k \<in> set ks \<longleftrightarrow> \<not> p k)" using assms[of k] by (auto simp: map_of_eq_None_iff)
  then show "targets (remove_keys ks m) k = targets (retain_keys p m) k"
    by (auto simp: targets_def map_of_remove_keys map_of_retain_keys)
qed

text \<open>
  Removing the dirty symbols agrees with retaining the safe ones when the dirty among the
  referencing symbols are those that are not safe: the two describe one result.
\<close>

theorem dirty_is_not_safe:
  assumes "methods_named r" "\<forall>s\<in>sources r. s \<in> set dirty \<longleftrightarrow> \<not> is_safe names members s"
  shows "relations_of (remove_dirty_symbol_references r dirty) = relations_of (retain_safe_symbol_references r names members)"
proof -
  have plain: "edges_of (remove_keys dirty m) = edges_of (retain_keys (is_safe names members) m)"
    if "fst ` set m \<subseteq> sources r" for m :: "symbol_identifier dependencies"
    by (rule remove_is_retain) (use assms(2) that in blast)
  have keys: "fst ` set (symbol_references_to_symbols r) \<subseteq> sources r"
    "fst ` set (symbol_references_to_symbols_in_signature r) \<subseteq> sources r"
    "fst ` set (symbol_references_to_overridden_members r) \<subseteq> sources r"
    "fst ` set (property_write_references r) \<subseteq> sources r" "fst ` set (property_read_references r) \<subseteq> sources r"
    unfolding sources_def by blast+
  have returns: "edges_of (remove_keys (map function_like_of dirty) (functionlike_references_to_functionlike_returns r))
    = edges_of (retain_keys (\<lambda>f. case function_like_symbol_identifier f of None \<Rightarrow> True | Some s \<Rightarrow> is_safe names members s)
        (functionlike_references_to_functionlike_returns r))"
  proof (rule remove_is_retain)
    fix f assume f: "f \<in> fst ` set (functionlike_references_to_functionlike_returns r)"
    show "f \<in> set (map function_like_of dirty) \<longleftrightarrow>
      \<not> (case function_like_symbol_identifier f of None \<Rightarrow> True | Some s \<Rightarrow> is_safe names members s)"
    proof (cases "function_like_symbol_identifier f")
      case None
      then have "\<exists>n. f = Closure n" by (cases f) auto
      then show ?thesis using None by (auto simp: function_like_of_def)
    next
      case (Some s)
      have "f \<noteq> Method c empty_word" for c using f assms(1) unfolding methods_named_def by blast
      then have "f = function_like_of s"
        using Some by (cases f) (auto simp: function_like_of_def)
      moreover have "inj function_like_of"
        by (rule injI) (auto simp: function_like_of_def prod_eq_iff split: if_splits)
      moreover have "s \<in> sources r" using f Some by (auto simp: sources_def)
      ultimately show ?thesis using assms(2) Some by (simp add: inj_image_mem_iff)
    qed
  qed
  show ?thesis
    by (simp add: relations_of_def remove_dirty_symbol_references_def retain_safe_symbol_references_def Let_def
        returns plain[OF keys(1)] plain[OF keys(2)] plain[OF keys(3)] plain[OF keys(4)] plain[OF keys(5)])
qed

text \<open>Removing the references of invalid symbols leaves the uses of return values in place.\<close>

lemma invalid_returns_stay:
  "return_rel (relations_of (remove_references_from_invalid_symbols r invalid)) = return_rel (relations_of r)"
  by (simp add: relations_of_def remove_references_from_invalid_symbols_def Let_def)

section \<open>Instances of the theorems\<close>


lemma maintenance_preserves_ok_witness:
  "references_ok (remove_dirty_symbol_references (example_graph True) [([1], [])])"
  using maintenance_preserves_ok[OF example_graph_ok, of True] by blast

lemma dirty_is_not_safe_witness:
  "relations_of (remove_dirty_symbol_references (example_graph True) [([1], [])])
    = relations_of (retain_safe_symbol_references (example_graph True) [] [])"
proof (rule dirty_is_not_safe)
  have r: "functionlike_references_to_functionlike_returns (example_graph True) = []"
    "sources (example_graph True) = {([1], [])}"
    by (simp_all add: example_graph_def add_symbol_reference_def add_symbol_reference_to_class_member_def
        add_symbol_reference_to_symbol_def insert_symbol_dependency_def insert_dependency_def insert_reference_def
        references_new_def sources_def)
  show "methods_named (example_graph True)" by (simp add: methods_named_def r)
  show "\<forall>s\<in>sources (example_graph True). s \<in> set [([1], [])] \<longleftrightarrow> \<not> is_safe [] [] s"
    by (simp add: r is_safe_def)
qed

end
