(* ===== verification/Invalidation.thy ===== *)
theory Invalidation
  imports Reference_Graph
begin

text \<open>
  Incremental invalidation (crate \<open>codex\<close>, \<open>get_invalid_symbols\<close> of \<open>reference.rs\<close> and
  \<open>mark_safe_symbols\<close> of \<open>metadata/mod.rs\<close>; crate \<open>orchestrator\<close>, \<open>can_skip_file\<close> of
  \<open>incremental_analysis.rs\<close>): from the changed symbols and the graph of references, the symbols
  whose signature or body has to be checked again, the symbols that stay safe, and the files
  that are not analysed again.

  The propagation is exact: \<open>cascade\<close> is its specification, and the limit on its expense is
  reached exactly when the cascade is larger than the limit.
\<close>

section \<open>The propagation\<close>

definition expense_limit :: nat where
  "expense_limit = 5000"

type_synonym reverse_index = "(symbol_identifier \<times> symbol_identifier list) list"

definition push_index :: "symbol_identifier \<Rightarrow> symbol_identifier \<Rightarrow> reverse_index \<Rightarrow> reverse_index" where
  "push_index r t idx = AList.update t ((case map_of idx t of None \<Rightarrow> [] | Some rs \<Rightarrow> rs) @ [r]) idx"

text \<open>The first loop: members of changed symbols, and who references whom in a signature.\<close>

fun index_signatures :: "codebase_diff \<Rightarrow> symbol_identifier dependencies
    \<Rightarrow> symbol_identifier hash_set \<Rightarrow> word_set \<Rightarrow> reverse_index
    \<Rightarrow> symbol_identifier hash_set \<times> word_set \<times> reverse_index" where
  "index_signatures d [] invalid partial idx = (invalid, partial, idx)"
| "index_signatures d ((r, ts) # m) invalid partial idx =
     (let idx' = fold (push_index r) ts idx in
      if contains_changed_entry d (fst r, empty_word)
      then index_signatures d m (List.insert r invalid) (List.insert (fst r) partial) idx'
      else index_signatures d m invalid partial idx')"

text \<open>
  The work of one invalidated item on the items that reference it. The stack is listed from its
  top, so that a push is a cons.
\<close>

fun push_referencing :: "symbol_identifier list \<Rightarrow> symbol_identifier hash_set
    \<Rightarrow> symbol_identifier list \<times> symbol_identifier hash_set \<times> word_set
    \<Rightarrow> symbol_identifier list \<times> symbol_identifier hash_set \<times> word_set" where
  "push_referencing [] processed st = st"
| "push_referencing (r # rs) processed (stack, invalid, partial) =
     push_referencing rs processed
       (if r \<in> set processed then stack else r # stack,
        List.insert r invalid,
        if snd r = empty_word then partial else List.insert (fst r) partial)"

function propagate :: "reverse_index \<Rightarrow> symbol_identifier list \<Rightarrow> symbol_identifier hash_set \<Rightarrow> nat
    \<Rightarrow> symbol_identifier hash_set \<Rightarrow> word_set \<Rightarrow> (symbol_identifier hash_set \<times> word_set) option" where
  "propagate idx [] processed n invalid partial = Some (invalid, partial)"
| "propagate idx (x # stack) processed n invalid partial =
     (if x \<in> set processed then propagate idx stack processed n invalid partial
      else if expense_limit < n + 1 then None
      else
        let invalid = List.insert x invalid;
            processed = List.insert x processed;
            partial = (if snd x = empty_word then partial else List.insert (fst x) partial);
            stack = (if snd x \<noteq> empty_word \<and> (fst x, empty_word) \<notin> set processed then (fst x, empty_word) # stack else stack);
            (stack, invalid, partial) =
              (case map_of idx x of None \<Rightarrow> (stack, invalid, partial)
               | Some rs \<Rightarrow> push_referencing rs processed (stack, invalid, partial))
        in propagate idx stack processed (n + 1) invalid partial)"
  by pat_completeness auto
termination
  by (relation "measures [\<lambda>(idx, stack, processed, n, invalid, partial). expense_limit - n,
        \<lambda>(idx, stack, processed, n, invalid, partial). length stack]") auto

declare propagate.simps(2) [simp del]

text \<open>The passes over the body and the signature references.\<close>

fun mark_bodies :: "symbol_identifier hash_set \<Rightarrow> symbol_identifier dependencies
    \<Rightarrow> symbol_identifier hash_set \<Rightarrow> word_set \<Rightarrow> symbol_identifier hash_set \<times> word_set" where
  "mark_bodies invalid [] bodies partial = (bodies, partial)"
| "mark_bodies invalid ((r, ts) # m) bodies partial =
     (if list_ex (\<lambda>t. t \<in> set invalid) ts
      then mark_bodies invalid m (List.insert r bodies) (if snd r = empty_word then partial else List.insert (fst r) partial)
      else mark_bodies invalid m bodies partial)"

definition mark_files :: "symbol_identifier hash_set \<Rightarrow> bytes dependencies \<Rightarrow> word_set" where
  "mark_files invalid m = collect_set (map fst (filter (\<lambda>(f, ts). list_ex (\<lambda>t. t \<in> set invalid) ts) m))"

definition get_invalid_symbols ::
  "symbol_references \<Rightarrow> codebase_diff \<Rightarrow> (symbol_identifier hash_set \<times> word_set \<times> word_set) option" where
  "get_invalid_symbols self d =
     (let (invalid, partial, idx) = index_signatures d (symbol_references_to_symbols_in_signature self) [] [] [] in
      case propagate idx (rev (diff_changed d)) [] 0 invalid partial of
        None \<Rightarrow> None
      | Some (signatures, partial) \<Rightarrow>
          (let (bodies, partial) = mark_bodies signatures (symbol_references_to_symbols self) [] partial;
               (bodies, partial) = mark_bodies signatures (symbol_references_to_symbols_in_signature self) bodies partial;
               files = mark_files signatures (file_references_to_symbols self @ file_references_to_symbols_in_signature self)
           in Some (fold List.insert bodies signatures, partial, files)))"

section \<open>Safe symbols and files\<close>

text \<open>Of the metadata of the codebase: the symbols marked safe, and the signatures of the files.\<close>

record 'f codebase_metadata =
  safe_symbols :: word_set
  safe_symbol_members :: "symbol_identifier hash_set"
  metadata_file_signatures :: "'f file_signatures"

fun mark_kept :: "symbol_identifier hash_set \<Rightarrow> word_set \<Rightarrow> symbol_identifier list \<Rightarrow> 'f codebase_metadata \<Rightarrow> 'f codebase_metadata" where
  "mark_kept invalid partial [] md = md"
| "mark_kept invalid partial (s # ss) md =
     mark_kept invalid partial ss
       (if s \<in> set invalid then md
        else if snd s = empty_word then
          (if fst s \<in> set partial then md else md\<lparr>safe_symbols := List.insert (fst s) (safe_symbols md)\<rparr>)
        else md\<lparr>safe_symbol_members := List.insert s (safe_symbol_members md)\<rparr>)"

definition mark_safe_symbols ::
  "'f codebase_metadata \<Rightarrow> codebase_diff \<Rightarrow> symbol_references \<Rightarrow> ('f codebase_metadata \<times> word_set) option" where
  "mark_safe_symbols md d references =
     (case get_invalid_symbols references d of
        None \<Rightarrow> None
      | Some (invalid, partial, files) \<Rightarrow> Some (mark_kept invalid partial (diff_keep d) md, files))"

text \<open>\<open>database f\<close> is the name of a file of the database.\<close>

definition can_skip_file :: "('f \<Rightarrow> bytes option) \<Rightarrow> 'f codebase_metadata \<Rightarrow> 'f \<Rightarrow> word_set \<Rightarrow> bool" where
  "can_skip_file database md f invalid_files \<longleftrightarrow>
     (case database f of Some name \<Rightarrow> name \<notin> set invalid_files | None \<Rightarrow> True)
     \<and> (case get_file_signature (metadata_file_signatures md) f of
          None \<Rightarrow> False
        | Some sig \<Rightarrow> list_all (\<lambda>nd.
            (node_name nd = empty_word \<or> node_name nd \<in> set (safe_symbols md))
            \<and> list_all (\<lambda>child. node_name child = empty_word \<or> (node_name nd, node_name child) \<in> set (safe_symbol_members md))
                (node_children nd)) (ast_nodes sig))"

section \<open>The cascade\<close>

text \<open>What a change reaches: the symbol of a changed member, and who refers to it in a signature.\<close>

inductive_set cascade :: "symbol_identifier set \<Rightarrow> (symbol_identifier \<times> symbol_identifier) set \<Rightarrow> symbol_identifier set"
  for C and S where
  changed: "c \<in> C \<Longrightarrow> c \<in> cascade C S"
| container: "x \<in> cascade C S \<Longrightarrow> (fst x, empty_word) \<in> cascade C S"
| referencing: "t \<in> cascade C S \<Longrightarrow> (r, t) \<in> S \<Longrightarrow> r \<in> cascade C S"

text \<open>The members of changed symbols that have a signature reference of their own.\<close>

definition direct_members :: "symbol_identifier set \<Rightarrow> (symbol_identifier \<times> symbol_identifier) set \<Rightarrow> symbol_identifier set" where
  "direct_members C S = {r. (fst r, empty_word) \<in> C \<and> (\<exists>t. (r, t) \<in> S)}"

definition invalid_signatures :: "symbol_references \<Rightarrow> codebase_diff \<Rightarrow> symbol_identifier set" where
  "invalid_signatures r d =
     cascade (set (diff_changed d)) (signature_edges r) \<union> direct_members (set (diff_changed d)) (signature_edges r)"

definition invalid_bodies :: "symbol_references \<Rightarrow> codebase_diff \<Rightarrow> symbol_identifier set" where
  "invalid_bodies r d = {s. \<exists>t\<in>invalid_signatures r d. (s, t) \<in> symbol_edges r}"

lemma cascade_subset:
  "cascade C S \<subseteq> C \<union> fst ` S \<union> (\<lambda>x. (fst x, empty_word)) ` (C \<union> fst ` S)"
proof
  fix x assume "x \<in> cascade C S"
  then show "x \<in> C \<union> fst ` S \<union> (\<lambda>x. (fst x, empty_word)) ` (C \<union> fst ` S)"
    by induction (auto simp: image_iff, force+)
qed

lemma finite_cascade: "finite C \<Longrightarrow> finite S \<Longrightarrow> finite (cascade C S)"
  by (rule finite_subset[OF cascade_subset]) simp

text \<open>A set that holds the changed symbols and is closed under both rules contains the cascade.\<close>

lemma cascade_least:
  assumes "C \<subseteq> P" "\<And>x. x \<in> P \<Longrightarrow> (fst x, empty_word) \<in> P" "\<And>r t. t \<in> P \<Longrightarrow> (r, t) \<in> S \<Longrightarrow> r \<in> P"
  shows "cascade C S \<subseteq> P"
proof
  fix x assume "x \<in> cascade C S"
  then show "x \<in> P" by induction (use assms in auto)
qed

section \<open>The loops\<close>

lemma indexed_push: "targets (push_index r t idx) u = (if u = t then insert r (targets idx t) else targets idx u)"
  by (auto simp: push_index_def targets_def update_conv' split: option.splits)

lemma indexed_fold_push: "targets (fold (push_index r) ts idx) u = targets idx u \<union> (if u \<in> set ts then {r} else {})"
  by (induction ts arbitrary: idx) (auto simp: indexed_push)

lemma index_signatures_spec:
  assumes "wf_map m" "index_signatures d m invalid partial idx = (invalid', partial', idx')"
  shows "set invalid' = set invalid \<union> direct_members (set (diff_changed d)) (edges_of m)
    \<and> set partial' = set partial \<union> fst ` direct_members (set (diff_changed d)) (edges_of m)
    \<and> (\<forall>u. targets idx' u = targets idx u \<union> {r. (r, u) \<in> edges_of m})"
  using assms
proof (induction d m invalid partial idx rule: index_signatures.induct)
  case (2 d r ts m invalid partial idx)
  have w: "r \<notin> fst ` set m" "ts \<noteq> []" "wf_map m" using 2(3) by (simp_all add: wf_Cons)
  have e: "edges_of ((r, ts) # m) = {r} \<times> set ts \<union> edges_of m" by (rule edges_of_Cons(1)[OF w(1)])
  have dm: "direct_members C (edges_of ((r, ts) # m)) = (if (fst r, empty_word) \<in> C then {r} else {}) \<union> direct_members C (edges_of m)" for C
  proof -
    obtain t u where "(t, u) \<in> set ts" using w(2) by (cases ts) auto
    then show ?thesis unfolding e direct_members_def by (auto simp del: mem_edges_of)
  qed
  have idx: "targets (fold (push_index r) ts idx) u \<union> {s. (s, u) \<in> edges_of m} = targets idx u \<union> {s. (s, u) \<in> edges_of ((r, ts) # m)}" for u
    unfolding indexed_fold_push e by auto
  show ?case
  proof (cases "contains_changed_entry d (fst r, empty_word)")
    case True
    have "index_signatures d m (List.insert r invalid) (List.insert (fst r) partial) (fold (push_index r) ts idx) = (invalid', partial', idx')"
      using 2(4) True by simp
    then show ?thesis
      using 2(1)[OF refl True w(3)] True unfolding dm idx by (auto simp: contains_changed_entry_def)
  next
    case False
    have "index_signatures d m invalid partial (fold (push_index r) ts idx) = (invalid', partial', idx')"
      using 2(4) False by simp
    then show ?thesis
      using 2(2)[OF refl False w(3)] False unfolding dm idx by (auto simp: contains_changed_entry_def)
  qed
qed (auto simp: direct_members_def)

definition named_members :: "symbol_identifier set \<Rightarrow> bytes set" where
  "named_members X = fst ` {x \<in> X. snd x \<noteq> empty_word}"

lemma named_members_simps [simp]:
  "named_members {} = {}" "named_members (X \<union> Y) = named_members X \<union> named_members Y"
  "named_members (insert x X) = (if snd x = empty_word then {} else {fst x}) \<union> named_members X"
  by (auto simp: named_members_def)

lemma push_referencing_spec:
  assumes "push_referencing rs processed (stack, invalid, partial) = (stack', invalid', partial')"
  shows "set stack' = set stack \<union> (set rs - set processed) \<and> set invalid' = set invalid \<union> set rs
    \<and> set partial' = set partial \<union> named_members (set rs)"
  using assms
  by (induction rs processed "(stack, invalid, partial)" arbitrary: stack invalid partial rule: push_referencing.induct)
    (auto split: if_splits)

text \<open>
  The invariant of the worklist: what is processed or waiting lies in the cascade, and what is
  processed has its container and its referencing items processed or waiting.
\<close>

definition state_ok :: "symbol_identifier set \<Rightarrow> (symbol_identifier \<times> symbol_identifier) set \<Rightarrow> symbol_identifier set \<Rightarrow> bytes set
    \<Rightarrow> symbol_identifier list \<Rightarrow> symbol_identifier hash_set \<Rightarrow> nat \<Rightarrow> symbol_identifier hash_set \<Rightarrow> word_set \<Rightarrow> bool" where
  "state_ok C S I P stack processed n invalid partial \<longleftrightarrow>
     distinct processed \<and> length processed = n \<and> n \<le> expense_limit
     \<and> set processed \<union> set stack \<subseteq> cascade C S \<and> C \<subseteq> set processed \<union> set stack
     \<and> (\<forall>x\<in>set processed. (fst x, empty_word) \<in> set processed \<union> set stack)
     \<and> (\<forall>x\<in>set processed. {r. (r, x) \<in> S} \<subseteq> set processed \<union> set stack)
     \<and> set invalid = I \<union> set processed \<union> {r. \<exists>x\<in>set processed. (r, x) \<in> S}
     \<and> set partial = P \<union> named_members (set processed \<union> {r. \<exists>x\<in>set processed. (r, x) \<in> S})"

lemma state_ok_skip: "x \<in> set processed \<Longrightarrow> state_ok C S I P (x # stack) processed n invalid partial
    \<Longrightarrow> state_ok C S I P stack processed n invalid partial"
  by (auto simp: state_ok_def)

lemma state_ok_done:
  assumes "state_ok C S I P [] processed n invalid partial"
  shows "card (cascade C S) \<le> expense_limit \<and> set invalid = I \<union> cascade C S \<and> set partial = P \<union> named_members (cascade C S)"
proof -
  have "cascade C S \<subseteq> set processed"
    by (rule cascade_least) (use assms in \<open>auto simp: state_ok_def\<close>)
  then have p: "set processed = cascade C S" using assms by (auto simp: state_ok_def)
  have "{r. \<exists>x\<in>cascade C S. (r, x) \<in> S} \<subseteq> cascade C S" by (auto intro: cascade.referencing)
  then have u: "cascade C S \<union> {r. \<exists>x\<in>cascade C S. (r, x) \<in> S} = cascade C S" by blast
  have "card (cascade C S) = length processed" using assms p by (metis distinct_card state_ok_def)
  then show ?thesis using assms unfolding state_ok_def p Un_assoc u by simp
qed

lemma state_ok_limit:
  assumes "state_ok C S I P (x # stack) processed n invalid partial" "x \<notin> set processed" "expense_limit < n + 1"
    and "finite (cascade C S)"
  shows "expense_limit < card (cascade C S)"
proof -
  have "insert x (set processed) \<subseteq> cascade C S" "card (insert x (set processed)) = n + 1"
    using assms(1,2) by (auto simp: state_ok_def distinct_card)
  then have "n + 1 \<le> card (cascade C S)" using card_mono[OF assms(4)] by metis
  then show ?thesis using assms(3) by simp
qed

lemma state_ok_step:
  assumes ok: "state_ok C S I P (x # stack) processed n invalid partial" and new: "x \<notin> set processed" "n + 1 \<le> expense_limit"
    and stack: "set stack' = set stack \<union> ({(fst x, empty_word)} - insert x (set processed)) \<union> ({r. (r, x) \<in> S} - insert x (set processed))"
    and sets: "set invalid' = set invalid \<union> {x} \<union> {r. (r, x) \<in> S}" "set partial' = set partial \<union> named_members ({x} \<union> {r. (r, x) \<in> S})"
  shows "state_ok C S I P stack' (List.insert x processed) (n + 1) invalid' partial'"
proof -
  have o: "set processed \<union> set (x # stack) \<subseteq> cascade C S" "C \<subseteq> set processed \<union> set (x # stack)"
    "\<forall>y\<in>set processed. (fst y, empty_word) \<in> set processed \<union> set (x # stack)"
    "\<forall>y\<in>set processed. {r. (r, y) \<in> S} \<subseteq> set processed \<union> set (x # stack)"
    "set invalid = I \<union> set processed \<union> {r. \<exists>x\<in>set processed. (r, x) \<in> S}"
    "set partial = P \<union> named_members (set processed \<union> {r. \<exists>x\<in>set processed. (r, x) \<in> S})"
    using ok unfolding state_ok_def by blast+
  have x: "x \<in> cascade C S" using o(1) by simp
  then have "(fst x, empty_word) \<in> cascade C S" "{r. (r, x) \<in> S} \<subseteq> cascade C S"
    by (rule cascade.container, blast intro: cascade.referencing)
  have w: "insert x (set processed) \<union> set stack' = set processed \<union> set (x # stack) \<union> {(fst x, empty_word)} \<union> {r. (r, x) \<in> S}"
    unfolding stack by auto
  have sub: "set (List.insert x processed) \<union> set stack' \<subseteq> cascade C S"
    unfolding List.set_insert w using o(1) \<open>(fst x, empty_word) \<in> cascade C S\<close> \<open>{r. (r, x) \<in> S} \<subseteq> cascade C S\<close> by blast
  have refs: "{r. \<exists>y\<in>insert x (set processed). (r, y) \<in> S} = {r. \<exists>y\<in>set processed. (r, y) \<in> S} \<union> {r. (r, x) \<in> S}" by blast
  have i: "set invalid' = I \<union> set (List.insert x processed) \<union> {r. \<exists>y\<in>set (List.insert x processed). (r, y) \<in> S}"
    unfolding List.set_insert refs sets o(5) by blast
  have p: "set partial' = P \<union> named_members (set (List.insert x processed) \<union> {r. \<exists>y\<in>set (List.insert x processed). (r, y) \<in> S})"
    unfolding List.set_insert refs sets o(6) named_members_simps by blast
  have c: "\<forall>y\<in>set (List.insert x processed). (fst y, empty_word) \<in> set (List.insert x processed) \<union> set stack'"
    unfolding List.set_insert w using o(3) by blast
  have r: "\<forall>y\<in>set (List.insert x processed). {r. (r, y) \<in> S} \<subseteq> set (List.insert x processed) \<union> set stack'"
    unfolding List.set_insert w using o(4) by blast
  have b: "C \<subseteq> set (List.insert x processed) \<union> set stack'"
    unfolding List.set_insert w using o(2) by blast
  have d: "distinct (List.insert x processed)" "length (List.insert x processed) = n + 1"
    using ok new by (auto simp: state_ok_def)
  show ?thesis
    unfolding state_ok_def using d new(2) sub b c r i p by (intro conjI)
qed

lemma propagate_spec:
  assumes "state_ok C S I P stack processed n invalid partial" "\<And>u. targets idx u = {r. (r, u) \<in> S}"
    and "finite (cascade C S)"
  shows "case propagate idx stack processed n invalid partial of
      None \<Rightarrow> expense_limit < card (cascade C S)
    | Some (invalid', partial') \<Rightarrow> card (cascade C S) \<le> expense_limit
        \<and> set invalid' = I \<union> cascade C S \<and> set partial' = P \<union> named_members (cascade C S)"
  using assms
proof (induction idx stack processed n invalid partial rule: propagate.induct)
  case (1 idx processed n invalid partial)
  then show ?case using state_ok_done[of C S I P processed n invalid partial] by simp
next
  case (2 idx x stack processed n invalid partial)
  let ?stack = "if snd x \<noteq> empty_word \<and> (fst x, empty_word) \<notin> set (List.insert x processed) then (fst x, empty_word) # stack else stack"
  let ?partial = "if snd x = empty_word then partial else List.insert (fst x) partial"
  consider (seen) "x \<in> set processed" | (limit) "x \<notin> set processed" "expense_limit < n + 1"
    | (fresh) "x \<notin> set processed" "n + 1 \<le> expense_limit" by linarith
  then show ?case
  proof cases
    case seen
    then show ?thesis
      using 2(1)[OF seen state_ok_skip[OF seen 2(3)] 2(4,5)] by (simp add: propagate.simps(2))
  next
    case limit
    then show ?thesis using state_ok_limit[OF 2(3) limit 2(5)] by (simp add: propagate.simps(2))
  next
    case fresh
    obtain stack' invalid' partial' where st: "(case map_of idx x of None \<Rightarrow> (?stack, List.insert x invalid, ?partial)
        | Some rs \<Rightarrow> push_referencing rs (List.insert x processed) (?stack, List.insert x invalid, ?partial)) = (stack', invalid', partial')"
      by (metis prod_cases3)
    have "\<exists>rs. set rs = targets idx x \<and> (map_of idx x = None \<longrightarrow> rs = []) \<and> (\<forall>rs'. map_of idx x = Some rs' \<longrightarrow> rs' = rs)"
      by (cases "map_of idx x") (auto simp: targets_def)
    then obtain rs where rs: "set rs = {r. (r, x) \<in> S}" "map_of idx x = None \<longrightarrow> rs = []" "\<forall>rs'. map_of idx x = Some rs' \<longrightarrow> rs' = rs"
      using 2(4) by auto
    have p: "push_referencing rs (List.insert x processed) (?stack, List.insert x invalid, ?partial) = (stack', invalid', partial')"
      using st rs(2,3) by (cases "map_of idx x") auto
    note sp = push_referencing_spec[OF p]
    have ok: "state_ok C S I P stack' (List.insert x processed) (n + 1) invalid' partial'"
    proof (rule state_ok_step[OF 2(3) fresh])
      show "set stack' = set stack \<union> ({(fst x, empty_word)} - insert x (set processed)) \<union> ({r. (r, x) \<in> S} - insert x (set processed))"
        using sp unfolding rs(1) by (cases x) (auto split: if_splits)
      show "set invalid' = set invalid \<union> {x} \<union> {r. (r, x) \<in> S}"
        using sp unfolding rs(1) by auto
      show "set partial' = set partial \<union> named_members ({x} \<union> {r. (r, x) \<in> S})"
        using sp unfolding rs(1) by auto
    qed
    have nl: "\<not> expense_limit < n + 1" using fresh(2) by simp
    have eq: "propagate idx (x # stack) processed n invalid partial = propagate idx stack' (List.insert x processed) (n + 1) invalid' partial'"
      unfolding propagate.simps(2) if_not_P[OF fresh(1)] if_not_P[OF nl] Let_def st by simp
    from 2(2)[OF fresh(1) nl refl refl refl refl refl st[symmetric] refl ok 2(4,5)] show ?thesis unfolding eq .
  qed
qed

lemma mark_bodies_spec:
  assumes "wf_map m" "mark_bodies invalid m bodies partial = (bodies', partial')"
  shows "set bodies' = set bodies \<union> {r. \<exists>t\<in>set invalid. (r, t) \<in> edges_of m}
    \<and> set partial' = set partial \<union> named_members {r. \<exists>t\<in>set invalid. (r, t) \<in> edges_of m}"
  using assms
proof (induction invalid m bodies partial rule: mark_bodies.induct)
  case (2 invalid r ts m bodies partial)
  have w: "r \<notin> fst ` set m" "wf_map m" using 2(3) by (simp_all add: wf_Cons)
  have e: "{s. \<exists>t\<in>set invalid. (s, t) \<in> edges_of ((r, ts) # m)}
      = (if list_ex (\<lambda>t. t \<in> set invalid) ts then {r} else {}) \<union> {s. \<exists>t\<in>set invalid. (s, t) \<in> edges_of m}"
    unfolding edges_of_Cons(1)[OF w(1)] list_ex_iff by auto
  show ?case
  proof (cases "list_ex (\<lambda>t. t \<in> set invalid) ts")
    case True
    have eq: "mark_bodies invalid m (List.insert r bodies) (if snd r = empty_word then partial else List.insert (fst r) partial) = (bodies', partial')"
      using 2(4) True by simp
    show ?thesis using 2(1)[OF True w(2) eq] unfolding e if_P[OF True] by (auto split: if_splits)
  next
    case False
    have eq: "mark_bodies invalid m bodies partial = (bodies', partial')"
      using 2(4) False by simp
    show ?thesis using 2(2)[OF False w(2) eq] unfolding e if_not_P[OF False] by simp
  qed
qed simp

lemma mark_files_spec:
  assumes "wf_map m" "wf_map m'"
  shows "set (mark_files invalid (m @ m')) = {f. \<exists>t\<in>set invalid. (f, t) \<in> edges_of m \<union> edges_of m'}"
proof -
  have "fst ` {e \<in> set m. case e of (f, ts) \<Rightarrow> list_ex (\<lambda>t. t \<in> set invalid) ts} = {f. \<exists>t\<in>set invalid. (f, t) \<in> edges_of m}"
    if "wf_map m" for m :: "bytes dependencies"
  proof -
    have "(f, ts) \<in> set m \<longleftrightarrow> map_of m f = Some ts" for f ts
      using map_of_eq_Some_iff[OF wf_map_distinct[OF that]] by simp
    then have "(\<exists>ts. (f, ts) \<in> set m \<and> (\<exists>t\<in>set ts. t \<in> set invalid)) \<longleftrightarrow> (\<exists>t\<in>set invalid. t \<in> targets m f)" for f
      by (auto simp: targets_def split: option.splits)
    moreover have "fst ` {e \<in> set m. case e of (f, ts) \<Rightarrow> list_ex (\<lambda>t. t \<in> set invalid) ts}
        = {f. \<exists>ts. (f, ts) \<in> set m \<and> (\<exists>t\<in>set ts. t \<in> set invalid)}"
      by (force simp: list_ex_iff image_iff)
    ultimately show ?thesis by simp
  qed
  from this[OF assms(1)] this[OF assms(2)] show ?thesis
    unfolding mark_files_def set_collect_set set_map filter_append set_append image_Un set_filter by blast
qed

text \<open>
  C4. Invalidation is exact: it gives up exactly when the cascade is larger than the limit, and
  otherwise returns the cascade with the members of changed symbols and everything that refers
  to one of these, the symbols with such a member, and the files whose top-level code refers
  to one.
\<close>

theorem invalidation_exact:
  assumes "references_ok r"
  shows "case get_invalid_symbols r d of
      None \<Rightarrow> expense_limit < card (cascade (set (diff_changed d)) (signature_edges r))
    | Some (invalid, partial, files) \<Rightarrow>
        card (cascade (set (diff_changed d)) (signature_edges r)) \<le> expense_limit
        \<and> set invalid = invalid_signatures r d \<union> invalid_bodies r d
        \<and> set partial = fst ` direct_members (set (diff_changed d)) (signature_edges r)
            \<union> named_members (cascade (set (diff_changed d)) (signature_edges r) \<union> invalid_bodies r d)
        \<and> set files = {f. \<exists>t\<in>invalid_signatures r d. (f, t) \<in> file_edges r}"
proof -
  let ?C = "set (diff_changed d)" and ?S = "signature_edges r"
  note ok = references_okD[OF assms]
  obtain i p idx where ix: "index_signatures d (symbol_references_to_symbols_in_signature r) [] [] [] = (i, p, idx)"
    by (metis prod_cases3)
  from index_signatures_spec[OF ok(2) ix] have s: "set i = direct_members ?C ?S" "set p = fst ` direct_members ?C ?S"
    "\<And>u. targets idx u = {s. (s, u) \<in> ?S}"
    by (simp_all add: signature_edges_def del: mem_edges_of split_paired_All)
  have init: "state_ok ?C ?S (set i) (set p) (rev (diff_changed d)) [] 0 i p"
    by (auto simp: state_ok_def expense_limit_def intro: cascade.changed)
  have fin: "finite (cascade ?C ?S)" unfolding signature_edges_def by (intro finite_cascade finite_edges finite_set)
  note pr = propagate_spec[OF init s(3) fin]
  show ?thesis
  proof (cases "propagate idx (rev (diff_changed d)) [] 0 i p")
    case None
    then have "get_invalid_symbols r d = None" using ix by (simp add: get_invalid_symbols_def)
    then show ?thesis using pr None by simp
  next
    case (Some q)
    obtain sg pa where q: "q = (sg, pa)" by (cases q)
    have sp: "card (cascade ?C ?S) \<le> expense_limit" "set sg = invalid_signatures r d"
      "set pa = fst ` direct_members ?C ?S \<union> named_members (cascade ?C ?S)"
      using pr Some q s(1,2) by (auto simp: invalid_signatures_def)
    obtain b1 p1 where m1: "mark_bodies sg (symbol_references_to_symbols r) [] pa = (b1, p1)" by fastforce
    obtain b2 p2 where m2: "mark_bodies sg (symbol_references_to_symbols_in_signature r) b1 p1 = (b2, p2)" by fastforce
    have eq: "get_invalid_symbols r d = Some (fold List.insert b2 sg, p2,
        mark_files sg (file_references_to_symbols r @ file_references_to_symbols_in_signature r))"
      using ix Some q m1 m2 by (simp add: get_invalid_symbols_def)
    have body: "{u. \<exists>t\<in>set sg. (u, t) \<in> edges_of (symbol_references_to_symbols r)}
      \<union> {u. \<exists>t\<in>set sg. (u, t) \<in> edges_of (symbol_references_to_symbols_in_signature r)} = invalid_bodies r d"
      unfolding sp(2) invalid_bodies_def symbol_edges_def by blast
    have b: "set b2 = invalid_bodies r d"
      "set p2 = set pa \<union> named_members (invalid_bodies r d)"
      using mark_bodies_spec[OF ok(1) m1] mark_bodies_spec[OF ok(2) m2] unfolding body[symmetric] named_members_simps(2) by auto
    have f: "set (mark_files sg (file_references_to_symbols r @ file_references_to_symbols_in_signature r))
      = {f. \<exists>t\<in>invalid_signatures r d. (f, t) \<in> file_edges r}"
      unfolding mark_files_spec[OF ok(3,4)] sp(2) file_edges_def ..
    show ?thesis unfolding eq using sp b f by (auto simp: Un_ac)
  qed
qed

section \<open>What stays safe\<close>

lemma mark_kept_sets:
  "set (safe_symbols (mark_kept invalid partial ss md)) = set (safe_symbols md)
     \<union> {n. (n, empty_word) \<in> set ss \<and> (n, empty_word) \<notin> set invalid \<and> n \<notin> set partial}
   \<and> set (safe_symbol_members (mark_kept invalid partial ss md)) = set (safe_symbol_members md)
     \<union> {s. s \<in> set ss \<and> s \<notin> set invalid \<and> snd s \<noteq> empty_word}
   \<and> metadata_file_signatures (mark_kept invalid partial ss md) = metadata_file_signatures md"
proof (induction ss arbitrary: md)
  case (Cons s ss)
  obtain n m where s: "s = (n, m)" by (cases s)
  consider "s \<in> set invalid" | "s \<notin> set invalid" "m = empty_word" "n \<in> set partial"
    | "s \<notin> set invalid" "m = empty_word" "n \<notin> set partial" | "s \<notin> set invalid" "m \<noteq> empty_word" by blast
  then show ?case by cases (use Cons.IH in \<open>auto simp: s\<close>)
qed simp

lemmas mark_kept_spec = mark_kept_sets[THEN conjunct1] mark_kept_sets[THEN conjunct2, THEN conjunct1]
  mark_kept_sets[THEN conjunct2, THEN conjunct2]

definition no_safe_marks :: "'f codebase_metadata \<Rightarrow> bool" where
  "no_safe_marks md \<longleftrightarrow> safe_symbols md = [] \<and> safe_symbol_members md = []"

text \<open>A symbol marked safe is kept, is not reached by a change and refers to nothing that is.\<close>

lemma safe_is_untouched:
  assumes "references_ok r" "no_safe_marks md" "mark_safe_symbols md d r = Some (md', files)"
    and "is_safe (safe_symbols md') (safe_symbol_members md') s"
  shows "s \<in> set (diff_keep d)" "s \<notin> invalid_signatures r d" "\<And>t. (s, t) \<in> symbol_edges r \<Longrightarrow> t \<notin> invalid_signatures r d"
proof -
  obtain inv part fs where g: "get_invalid_symbols r d = Some (inv, part, fs)" "md' = mark_kept inv part (diff_keep d) md"
    using assms(3) by (auto simp: mark_safe_symbols_def split: option.splits)
  have inv: "set inv = invalid_signatures r d \<union> invalid_bodies r d"
    using invalidation_exact[OF assms(1), of d] g(1) by simp
  have n: "safe_symbols md = []" "safe_symbol_members md = []" using assms(2) by (simp_all add: no_safe_marks_def)
  have k: "s \<in> set (diff_keep d) \<and> s \<notin> set inv"
    using assms(4) by (cases s) (auto simp: is_safe_def g(2) mark_kept_spec n split: if_splits)
  then show "s \<in> set (diff_keep d)" "s \<notin> invalid_signatures r d" unfolding inv by auto
  show "t \<notin> invalid_signatures r d" if "(s, t) \<in> symbol_edges r" for t
    using k that unfolding inv by (auto simp: invalid_bodies_def)
qed

lemma changed_invalid: "set (diff_changed d) \<subseteq> invalid_signatures r d"
  by (auto simp: invalid_signatures_def intro: cascade.changed)

text \<open>The symbols that a file declares with a name.\<close>

definition named_symbols :: "file_signature \<Rightarrow> symbol_identifier set" where
  "named_symbols sig = {s \<in> file_symbols sig. fst s \<noteq> empty_word}"

lemma can_skip_safe:
  assumes "can_skip_file database md f files" "get_file_signature (metadata_file_signatures md) f = Some sig" "s \<in> named_symbols sig"
  shows "is_safe (safe_symbols md) (safe_symbol_members md) s"
proof -
  obtain nd where nd: "nd \<in> set (ast_nodes sig)" "s \<in> node_symbols nd" "fst s \<noteq> empty_word"
    using assms(3) by (auto simp: named_symbols_def file_symbols_def)
  have "node_name nd = empty_word \<or> node_name nd \<in> set (safe_symbols md)"
    "\<forall>child\<in>set (node_children nd). node_name child = empty_word \<or> (node_name nd, node_name child) \<in> set (safe_symbol_members md)"
    using assms(1,2) nd(1) by (auto simp: can_skip_file_def list_all_iff)
  then show ?thesis using nd(2,3) by (auto simp: node_symbols_def is_safe_def)
qed

text \<open>
  C23. A file that is not analysed again depends on nothing that the change reaches: none of its
  symbols has changed or lies in the cascade, and neither they nor its top-level code refer, in
  a body or a signature, to a symbol that does.
\<close>

theorem skipped_file_untouched:
  assumes "references_ok r" "no_safe_marks md" "mark_safe_symbols md d r = Some (md', files)"
    and "can_skip_file database md' f files"
  shows "\<exists>sig. get_file_signature (metadata_file_signatures md) f = Some sig
    \<and> (\<forall>s\<in>named_symbols sig. s \<notin> set (diff_changed d) \<and> s \<notin> invalid_signatures r d
         \<and> (\<forall>t. (s, t) \<in> symbol_edges r \<longrightarrow> t \<notin> invalid_signatures r d))
    \<and> (\<forall>name t. database f = Some name \<longrightarrow> (name, t) \<in> file_edges r \<longrightarrow> t \<notin> invalid_signatures r d)"
proof -
  obtain inv part fs where g: "get_invalid_symbols r d = Some (inv, part, files)" "md' = mark_kept inv part (diff_keep d) md"
    using assms(3) by (auto simp: mark_safe_symbols_def split: option.splits)
  have files: "set files = {f. \<exists>t\<in>invalid_signatures r d. (f, t) \<in> file_edges r}"
    using invalidation_exact[OF assms(1), of d] g(1) by simp
  obtain sig where sig: "get_file_signature (metadata_file_signatures md') f = Some sig"
    using assms(4) by (auto simp: can_skip_file_def split: option.splits)
  have "\<forall>s\<in>named_symbols sig. s \<notin> set (diff_changed d) \<and> s \<notin> invalid_signatures r d
       \<and> (\<forall>t. (s, t) \<in> symbol_edges r \<longrightarrow> t \<notin> invalid_signatures r d)"
  proof (intro ballI conjI allI impI)
    fix s assume "s \<in> named_symbols sig"
    then have safe: "is_safe (safe_symbols md') (safe_symbol_members md') s" by (rule can_skip_safe[OF assms(4) sig])
    note u = safe_is_untouched[OF assms(1-3) safe]
    show "s \<notin> set (diff_changed d)" using u(2) changed_invalid by blast
    show "s \<notin> invalid_signatures r d" by (rule u(2))
    show "t \<notin> invalid_signatures r d" if "(s, t) \<in> symbol_edges r" for t by (rule u(3)[OF that])
  qed
  moreover have "\<forall>name t. database f = Some name \<longrightarrow> (name, t) \<in> file_edges r \<longrightarrow> t \<notin> invalid_signatures r d"
    using assms(4) files by (auto simp: can_skip_file_def)
  moreover have "get_file_signature (metadata_file_signatures md) f = Some sig"
    using sig g(2) by (simp add: mark_kept_spec)
  ultimately show ?thesis by blast
qed

section \<open>Instances\<close>

definition example_references :: symbol_references where
  "example_references =
     add_reference (add_reference (add_reference references_new
       (Symbol_Origin ([3], [30])) ([4], [40]) True)
       (Symbol_Origin ([4], [40])) ([5], [50]) True)
       (Symbol_Origin ([5], [50])) ([6], [60]) True"

lemma example_references_ok: "references_ok example_references"
  by (simp add: example_references_def add_symbol_reference_frame)

text \<open>
  The members of a changed class that have a signature reference are reported, but the cascade
  does not go on from them: of a chain of signature references that ends in such a member, the
  member and the one that refers to it are invalid, and the next one is not.
\<close>

lemma members_of_changed_do_not_cascade:
  "map_option (\<lambda>(invalid, partial, files). (([5], [50]) \<in> set invalid, ([4], [40]) \<in> set invalid, ([3], [30]) \<in> set invalid))
     (get_invalid_symbols example_references (with_changed codebase_diff_new [([5], [])])) = Some (True, True, False)"
  by code_simp

definition example_diff :: codebase_diff where
  "example_diff = with_changed (with_keep codebase_diff_new [([8], [])]) [([5], [50])]"

definition example_metadata :: "nat codebase_metadata" where
  "example_metadata = \<lparr>safe_symbols = [], safe_symbol_members = [],
     metadata_file_signatures = [(7, \<lparr>signature_file_name = [9], signature_file_hash = 0, ast_nodes = [example_node [8] 0]\<rparr>)]\<rparr>"

lemma invalidation_exact_witness:
  "\<exists>invalid partial files. get_invalid_symbols example_references example_diff = Some (invalid, partial, files)
     \<and> ([3], [30]) \<in> set invalid \<and> ([5], []) \<in> set invalid"
proof -
  have "get_invalid_symbols example_references example_diff \<noteq> None" by code_simp
  then obtain invalid partial files where g: "get_invalid_symbols example_references example_diff = Some (invalid, partial, files)"
    by auto
  have "set invalid = invalid_signatures example_references example_diff \<union> invalid_bodies example_references example_diff"
    using invalidation_exact[OF example_references_ok, of example_diff] g by simp
  moreover have c: "([5], [50]) \<in> cascade (set (diff_changed example_diff)) (signature_edges example_references)"
    by (rule cascade.changed) (simp add: example_diff_def)
  have "([4], [40]) \<in> cascade (set (diff_changed example_diff)) (signature_edges example_references)"
    by (rule cascade.referencing[OF c]) (simp add: example_references_def add_symbol_reference_signature)
  then have "([3], [30]) \<in> cascade (set (diff_changed example_diff)) (signature_edges example_references)"
    by (rule cascade.referencing) (simp add: example_references_def add_symbol_reference_signature)
  moreover have "([5], []) \<in> cascade (set (diff_changed example_diff)) (signature_edges example_references)"
    using cascade.container[OF c] by simp
  ultimately show ?thesis using g by (auto simp: invalid_signatures_def)
qed

lemma skipped_file_untouched_witness:
  "\<exists>md files. mark_safe_symbols example_metadata example_diff example_references = Some (md, files)
     \<and> can_skip_file (\<lambda>f :: nat. Some [9]) md 7 files
     \<and> ([8], []) \<notin> invalid_signatures example_references example_diff"
proof -
  have "map_option (\<lambda>(md, files). can_skip_file (\<lambda>f :: nat. Some [9]) md 7 files)
      (mark_safe_symbols example_metadata example_diff example_references) = Some True"
    by code_simp
  then obtain md files where m: "mark_safe_symbols example_metadata example_diff example_references = Some (md, files)"
    "can_skip_file (\<lambda>f :: nat. Some [9]) md 7 files" by auto
  have n: "no_safe_marks example_metadata" by (simp add: no_safe_marks_def example_metadata_def)
  obtain sig where sig: "get_file_signature (metadata_file_signatures example_metadata) 7 = Some sig"
    "\<forall>s\<in>named_symbols sig. s \<notin> invalid_signatures example_references example_diff"
    using skipped_file_untouched[OF example_references_ok n m] by blast
  then have "([8], []) \<in> named_symbols sig"
    by (auto simp: example_metadata_def get_file_signature_def named_symbols_def file_symbols_def node_symbols_def
        example_node_def def_signature_node_new_def)
  then show ?thesis using m sig(2) by blast
qed

end
