(* ===== verification/Metadata_Flags.thy ===== *)
theory Metadata_Flags
  imports Mago_Prelude Source_File Php_Version
begin

unbundle bit_operations_syntax

text \<open>
  The flags of the metadata of a symbol (crate \<open>codex\<close>, \<open>metadata/flags.rs\<close>), a set of bits in a
  \<open>u64\<close>, and the PHP versions a symbol is available in (\<open>metadata/version_constraint.rs\<close>).
\<close>

section \<open>Flags\<close>

datatype metadata_flags = MetadataFlags (flag_bits: u64)

definition ABSTRACT :: metadata_flags where "ABSTRACT = MetadataFlags (push_bit 0 1)"
definition FINAL :: metadata_flags where "FINAL = MetadataFlags (push_bit 1 1)"
definition READONLY :: metadata_flags where "READONLY = MetadataFlags (push_bit 3 1)"
definition DEPRECATED :: metadata_flags where "DEPRECATED = MetadataFlags (push_bit 4 1)"
definition ENUM_INTERFACE :: metadata_flags where "ENUM_INTERFACE = MetadataFlags (push_bit 5 1)"
definition POPULATED :: metadata_flags where "POPULATED = MetadataFlags (push_bit 6 1)"
definition INTERNAL :: metadata_flags where "INTERNAL = MetadataFlags (push_bit 7 1)"
definition CONSISTENT_CONSTRUCTOR :: metadata_flags where "CONSISTENT_CONSTRUCTOR = MetadataFlags (push_bit 11 1)"
definition CONSISTENT_TEMPLATES :: metadata_flags where "CONSISTENT_TEMPLATES = MetadataFlags (push_bit 12 1)"
definition UNCHECKED :: metadata_flags where "UNCHECKED = MetadataFlags (push_bit 13 1)"
definition USER_DEFINED :: metadata_flags where "USER_DEFINED = MetadataFlags (push_bit 14 1)"
definition BUILTIN :: metadata_flags where "BUILTIN = MetadataFlags (push_bit 15 1)"
definition HAS_YIELD :: metadata_flags where "HAS_YIELD = MetadataFlags (push_bit 16 1)"
definition MUST_USE :: metadata_flags where "MUST_USE = MetadataFlags (push_bit 17 1)"
definition HAS_THROW :: metadata_flags where "HAS_THROW = MetadataFlags (push_bit 18 1)"
definition PURE :: metadata_flags where "PURE = MetadataFlags (push_bit 19 1)"
definition IGNORE_NULLABLE_RETURN :: metadata_flags where "IGNORE_NULLABLE_RETURN = MetadataFlags (push_bit 20 1)"
definition IGNORE_FALSABLE_RETURN :: metadata_flags where "IGNORE_FALSABLE_RETURN = MetadataFlags (push_bit 21 1)"
definition INHERITS_DOCS :: metadata_flags where "INHERITS_DOCS = MetadataFlags (push_bit 22 1)"
definition NO_NAMED_ARGUMENTS :: metadata_flags where "NO_NAMED_ARGUMENTS = MetadataFlags (push_bit 23 1)"
definition BACKED_ENUM_CASE :: metadata_flags where "BACKED_ENUM_CASE = MetadataFlags (push_bit 24 1)"
definition UNIT_ENUM_CASE :: metadata_flags where "UNIT_ENUM_CASE = MetadataFlags (push_bit 25 1)"
definition BY_REFERENCE :: metadata_flags where "BY_REFERENCE = MetadataFlags (push_bit 26 1)"
definition VARIADIC :: metadata_flags where "VARIADIC = MetadataFlags (push_bit 27 1)"
definition PROMOTED_PROPERTY :: metadata_flags where "PROMOTED_PROPERTY = MetadataFlags (push_bit 28 1)"
definition HAS_DEFAULT :: metadata_flags where "HAS_DEFAULT = MetadataFlags (push_bit 29 1)"
definition VIRTUAL_PROPERTY :: metadata_flags where "VIRTUAL_PROPERTY = MetadataFlags (push_bit 30 1)"
definition ASYMMETRIC_PROPERTY :: metadata_flags where "ASYMMETRIC_PROPERTY = MetadataFlags (push_bit 31 1)"
definition STATIC :: metadata_flags where "STATIC = MetadataFlags (push_bit 32 1)"
definition WRITEONLY :: metadata_flags where "WRITEONLY = MetadataFlags (push_bit 33 1)"
definition MAGIC_METHOD :: metadata_flags where "MAGIC_METHOD = MetadataFlags (push_bit 35 1)"
definition API :: metadata_flags where "API = MetadataFlags (push_bit 36 1)"
definition MUTATION_FREE :: metadata_flags where "MUTATION_FREE = MetadataFlags (push_bit 37 1)"
definition EXTERNAL_MUTATION_FREE :: metadata_flags where "EXTERNAL_MUTATION_FREE = MetadataFlags (push_bit 38 1)"
definition SUSPENDS_FIBER :: metadata_flags where "SUSPENDS_FIBER = MetadataFlags (push_bit 39 1)"
definition EXPERIMENTAL :: metadata_flags where "EXPERIMENTAL = MetadataFlags (push_bit 40 1)"
definition POLYFILL :: metadata_flags where "POLYFILL = MetadataFlags (push_bit 41 1)"
definition PATCH :: metadata_flags where "PATCH = MetadataFlags (push_bit 42 1)"
definition EXTERNAL :: metadata_flags where "EXTERNAL = MetadataFlags (push_bit 43 1)"
definition USES_FUNC_GET_ARGS :: metadata_flags where "USES_FUNC_GET_ARGS = MetadataFlags (push_bit 44 1)"
definition ALLOWS_DYNAMIC_PROPERTIES :: metadata_flags where "ALLOWS_DYNAMIC_PROPERTIES = MetadataFlags (push_bit 45 1)"

definition flags_from_bits :: "u64 \<Rightarrow> metadata_flags" where
  "flags_from_bits b = MetadataFlags b"

definition flags_empty :: metadata_flags where
  "flags_empty = MetadataFlags 0"

definition flags_insert :: "metadata_flags \<Rightarrow> metadata_flags \<Rightarrow> metadata_flags" where
  "flags_insert self other = MetadataFlags (flag_bits self OR flag_bits other)"

definition flags_remove :: "metadata_flags \<Rightarrow> metadata_flags \<Rightarrow> metadata_flags" where
  "flags_remove self other = MetadataFlags (flag_bits self AND NOT (flag_bits other))"

definition flags_set :: "metadata_flags \<Rightarrow> metadata_flags \<Rightarrow> bool \<Rightarrow> metadata_flags" where
  "flags_set self other v =
     (if v then flags_insert self other else MetadataFlags (flag_bits self AND NOT (flag_bits other)))"

definition flags_contains :: "metadata_flags \<Rightarrow> metadata_flags \<Rightarrow> bool" where
  "flags_contains self other \<longleftrightarrow> flag_bits self AND flag_bits other = flag_bits other"

definition flags_or :: "metadata_flags \<Rightarrow> metadata_flags \<Rightarrow> metadata_flags" where
  "flags_or a b = MetadataFlags (flag_bits a OR flag_bits b)"

definition flags_and :: "metadata_flags \<Rightarrow> metadata_flags \<Rightarrow> metadata_flags" where
  "flags_and a b = MetadataFlags (flag_bits a AND flag_bits b)"

definition flags_xor :: "metadata_flags \<Rightarrow> metadata_flags \<Rightarrow> metadata_flags" where
  "flags_xor a b = MetadataFlags (flag_bits a XOR flag_bits b)"

definition flags_not :: "metadata_flags \<Rightarrow> metadata_flags" where
  "flags_not a = MetadataFlags (NOT (flag_bits a))"

definition flag_is_deprecated :: "metadata_flags \<Rightarrow> bool" where "flag_is_deprecated self \<longleftrightarrow> flags_contains self DEPRECATED"
definition flag_allows_dynamic_properties :: "metadata_flags \<Rightarrow> bool" where "flag_allows_dynamic_properties self \<longleftrightarrow> flags_contains self ALLOWS_DYNAMIC_PROPERTIES"
definition flag_is_abstract :: "metadata_flags \<Rightarrow> bool" where "flag_is_abstract self \<longleftrightarrow> flags_contains self ABSTRACT"
definition flag_is_final :: "metadata_flags \<Rightarrow> bool" where "flag_is_final self \<longleftrightarrow> flags_contains self FINAL"
definition flag_has_yield :: "metadata_flags \<Rightarrow> bool" where "flag_has_yield self \<longleftrightarrow> flags_contains self HAS_YIELD"
definition flag_uses_func_get_args :: "metadata_flags \<Rightarrow> bool" where "flag_uses_func_get_args self \<longleftrightarrow> flags_contains self USES_FUNC_GET_ARGS"
definition flag_must_use :: "metadata_flags \<Rightarrow> bool" where "flag_must_use self \<longleftrightarrow> flags_contains self MUST_USE"
definition flag_is_pure :: "metadata_flags \<Rightarrow> bool" where "flag_is_pure self \<longleftrightarrow> flags_contains self PURE"
definition flag_has_consistent_constructor :: "metadata_flags \<Rightarrow> bool" where "flag_has_consistent_constructor self \<longleftrightarrow> flags_contains self CONSISTENT_CONSTRUCTOR"
definition flag_has_consistent_templates :: "metadata_flags \<Rightarrow> bool" where "flag_has_consistent_templates self \<longleftrightarrow> flags_contains self CONSISTENT_TEMPLATES"
definition flag_is_user_defined :: "metadata_flags \<Rightarrow> bool" where "flag_is_user_defined self \<longleftrightarrow> flags_contains self USER_DEFINED"
definition flag_is_built_in :: "metadata_flags \<Rightarrow> bool" where "flag_is_built_in self \<longleftrightarrow> flags_contains self BUILTIN"
definition flag_is_internal :: "metadata_flags \<Rightarrow> bool" where "flag_is_internal self \<longleftrightarrow> flags_contains self INTERNAL"
definition flag_is_populated :: "metadata_flags \<Rightarrow> bool" where "flag_is_populated self \<longleftrightarrow> flags_contains self POPULATED"
definition flag_is_readonly :: "metadata_flags \<Rightarrow> bool" where "flag_is_readonly self \<longleftrightarrow> flags_contains self READONLY"
definition flag_is_writeonly :: "metadata_flags \<Rightarrow> bool" where "flag_is_writeonly self \<longleftrightarrow> flags_contains self WRITEONLY"
definition flag_is_enum_interface :: "metadata_flags \<Rightarrow> bool" where "flag_is_enum_interface self \<longleftrightarrow> flags_contains self ENUM_INTERFACE"
definition flag_is_unchecked :: "metadata_flags \<Rightarrow> bool" where "flag_is_unchecked self \<longleftrightarrow> flags_contains self UNCHECKED"
definition flag_ignore_nullable_return :: "metadata_flags \<Rightarrow> bool" where "flag_ignore_nullable_return self \<longleftrightarrow> flags_contains self IGNORE_NULLABLE_RETURN"
definition flag_ignore_falsable_return :: "metadata_flags \<Rightarrow> bool" where "flag_ignore_falsable_return self \<longleftrightarrow> flags_contains self IGNORE_FALSABLE_RETURN"
definition flag_inherits_docs :: "metadata_flags \<Rightarrow> bool" where "flag_inherits_docs self \<longleftrightarrow> flags_contains self INHERITS_DOCS"
definition flag_forbids_named_arguments :: "metadata_flags \<Rightarrow> bool" where "flag_forbids_named_arguments self \<longleftrightarrow> flags_contains self NO_NAMED_ARGUMENTS"
definition flag_has_throw :: "metadata_flags \<Rightarrow> bool" where "flag_has_throw self \<longleftrightarrow> flags_contains self HAS_THROW"
definition flag_is_backed_enum_case :: "metadata_flags \<Rightarrow> bool" where "flag_is_backed_enum_case self \<longleftrightarrow> flags_contains self BACKED_ENUM_CASE"
definition flag_is_unit_enum_case :: "metadata_flags \<Rightarrow> bool" where "flag_is_unit_enum_case self \<longleftrightarrow> flags_contains self UNIT_ENUM_CASE"
definition flag_is_by_reference :: "metadata_flags \<Rightarrow> bool" where "flag_is_by_reference self \<longleftrightarrow> flags_contains self BY_REFERENCE"
definition flag_is_variadic :: "metadata_flags \<Rightarrow> bool" where "flag_is_variadic self \<longleftrightarrow> flags_contains self VARIADIC"
definition flag_is_promoted_property :: "metadata_flags \<Rightarrow> bool" where "flag_is_promoted_property self \<longleftrightarrow> flags_contains self PROMOTED_PROPERTY"
definition flag_has_default :: "metadata_flags \<Rightarrow> bool" where "flag_has_default self \<longleftrightarrow> flags_contains self HAS_DEFAULT"
definition flag_is_virtual_property :: "metadata_flags \<Rightarrow> bool" where "flag_is_virtual_property self \<longleftrightarrow> flags_contains self VIRTUAL_PROPERTY"
definition flag_is_magic_method :: "metadata_flags \<Rightarrow> bool" where "flag_is_magic_method self \<longleftrightarrow> flags_contains self MAGIC_METHOD"
definition flag_is_asymmetric_property :: "metadata_flags \<Rightarrow> bool" where "flag_is_asymmetric_property self \<longleftrightarrow> flags_contains self ASYMMETRIC_PROPERTY"
definition flag_is_static :: "metadata_flags \<Rightarrow> bool" where "flag_is_static self \<longleftrightarrow> flags_contains self STATIC"
definition flag_is_public_api :: "metadata_flags \<Rightarrow> bool" where "flag_is_public_api self \<longleftrightarrow> flags_contains self API"
definition flag_is_experimental :: "metadata_flags \<Rightarrow> bool" where "flag_is_experimental self \<longleftrightarrow> flags_contains self EXPERIMENTAL"
definition flag_is_mutation_free :: "metadata_flags \<Rightarrow> bool" where "flag_is_mutation_free self \<longleftrightarrow> flags_contains self MUTATION_FREE"
definition flag_is_external_mutation_free :: "metadata_flags \<Rightarrow> bool" where "flag_is_external_mutation_free self \<longleftrightarrow> flags_contains self EXTERNAL_MUTATION_FREE"
definition flag_suspends_fiber :: "metadata_flags \<Rightarrow> bool" where "flag_suspends_fiber self \<longleftrightarrow> flags_contains self SUSPENDS_FIBER"
definition flag_is_polyfill :: "metadata_flags \<Rightarrow> bool" where "flag_is_polyfill self \<longleftrightarrow> flags_contains self POLYFILL"
definition flag_is_patch :: "metadata_flags \<Rightarrow> bool" where "flag_is_patch self \<longleftrightarrow> flags_contains self PATCH"
definition flag_is_external :: "metadata_flags \<Rightarrow> bool" where "flag_is_external self \<longleftrightarrow> flags_contains self EXTERNAL"

fun origin_flags :: "file_type \<Rightarrow> metadata_flags" where
  "origin_flags Host = USER_DEFINED"
| "origin_flags Builtin = BUILTIN"
| "origin_flags Patch = PATCH"
| "origin_flags External = EXTERNAL"
| "origin_flags Vendored = flags_empty"

section \<open>Availability\<close>

record version_constraint =
  constraint_ranges :: "version_range list"

definition unconstrained :: version_constraint where
  "unconstrained = \<lparr>constraint_ranges = []\<rparr>"

definition is_unconstrained :: "version_constraint \<Rightarrow> bool" where
  "is_unconstrained self \<longleftrightarrow> constraint_ranges self = []"

definition push_since :: "version_constraint \<Rightarrow> php_version \<Rightarrow> version_constraint" where
  "push_since self v = self\<lparr>constraint_ranges := constraint_ranges self @ [range_from v]\<rparr>"

definition push_until :: "version_constraint \<Rightarrow> php_version \<Rightarrow> version_constraint" where
  "push_until self v =
     (let rs = constraint_ranges self in
      if rs \<noteq> [] \<and> range_max (rs ! (length rs - 1)) = None
      then self\<lparr>constraint_ranges := rs[length rs - 1 := (rs ! (length rs - 1))\<lparr>range_max := Some v\<rparr>]\<rparr>
      else self\<lparr>constraint_ranges := rs @ [range_until v]\<rparr>)"

definition constraint_merge :: "version_constraint \<Rightarrow> version_constraint \<Rightarrow> version_constraint" where
  "constraint_merge self other =
     (if is_unconstrained self \<or> is_unconstrained other then self\<lparr>constraint_ranges := []\<rparr>
      else self\<lparr>constraint_ranges := constraint_ranges self @ constraint_ranges other\<rparr>)"

definition allows_version :: "version_constraint \<Rightarrow> php_version \<Rightarrow> bool" where
  "allows_version self v \<longleftrightarrow>
     constraint_ranges self = [] \<or> list_ex (\<lambda>r. range_includes r v) (constraint_ranges self)"

definition lowest :: "version_range \<Rightarrow> php_version" where
  "lowest r = (case range_min r of Some v \<Rightarrow> v | None \<Rightarrow> from_version_id 0)"

definition highest :: "version_range \<Rightarrow> php_version" where
  "highest r = (case range_max r of Some v \<Rightarrow> v | None \<Rightarrow> from_version_id (-1))"

text \<open>The loop of \<open>allows_version_range\<close> over the ranges sorted by their lower bound.\<close>

fun covers_from :: "version_range list \<Rightarrow> php_version \<Rightarrow> php_version \<Rightarrow> bool" where
  "covers_from [] required hi = False"
| "covers_from (r # rs) required hi =
     (if highest r < required then covers_from rs required hi
      else if required < lowest r then False
      else if hi \<le> highest r then True
      else covers_from rs (from_version_id (sat_add_u32 (to_version_id (highest r)) 1)) hi)"

text \<open>The key of the sort: the order of \<open>Option\<close> puts \<open>None\<close> first.\<close>

definition min_key :: "version_range \<Rightarrow> bool \<times> u32" where
  "min_key r = (case range_min r of None \<Rightarrow> (False, 0) | Some v \<Rightarrow> (True, to_version_id v))"

definition allows_version_range :: "version_constraint \<Rightarrow> version_range \<Rightarrow> bool" where
  "allows_version_range self r =
     (if constraint_ranges self = [] then True
      else if highest r < lowest r then True
      else covers_from (sort_key min_key (constraint_ranges self)) (lowest r) (highest r))"

section \<open>The flags are independent\<close>

text \<open>Every flag of the source with its bit.\<close>

definition all_flags :: "metadata_flags list" where
  "all_flags = [ABSTRACT, FINAL, READONLY, DEPRECATED, ENUM_INTERFACE, POPULATED, INTERNAL, CONSISTENT_CONSTRUCTOR, CONSISTENT_TEMPLATES, UNCHECKED, USER_DEFINED, BUILTIN, HAS_YIELD, MUST_USE, HAS_THROW, PURE, IGNORE_NULLABLE_RETURN, IGNORE_FALSABLE_RETURN, INHERITS_DOCS, NO_NAMED_ARGUMENTS, BACKED_ENUM_CASE, UNIT_ENUM_CASE, BY_REFERENCE, VARIADIC, PROMOTED_PROPERTY, HAS_DEFAULT, VIRTUAL_PROPERTY, ASYMMETRIC_PROPERTY, STATIC, WRITEONLY, MAGIC_METHOD, API, MUTATION_FREE, EXTERNAL_MUTATION_FREE, SUSPENDS_FIBER, EXPERIMENTAL, POLYFILL, PATCH, EXTERNAL, USES_FUNC_GET_ARGS, ALLOWS_DYNAMIC_PROPERTIES]"

lemmas flag_defs = ABSTRACT_def FINAL_def READONLY_def DEPRECATED_def ENUM_INTERFACE_def POPULATED_def INTERNAL_def CONSISTENT_CONSTRUCTOR_def CONSISTENT_TEMPLATES_def UNCHECKED_def USER_DEFINED_def BUILTIN_def HAS_YIELD_def MUST_USE_def HAS_THROW_def PURE_def IGNORE_NULLABLE_RETURN_def IGNORE_FALSABLE_RETURN_def INHERITS_DOCS_def NO_NAMED_ARGUMENTS_def BACKED_ENUM_CASE_def UNIT_ENUM_CASE_def BY_REFERENCE_def VARIADIC_def PROMOTED_PROPERTY_def HAS_DEFAULT_def VIRTUAL_PROPERTY_def ASYMMETRIC_PROPERTY_def STATIC_def WRITEONLY_def MAGIC_METHOD_def API_def MUTATION_FREE_def EXTERNAL_MUTATION_FREE_def SUSPENDS_FIBER_def EXPERIMENTAL_def POLYFILL_def PATCH_def EXTERNAL_def USES_FUNC_GET_ARGS_def ALLOWS_DYNAMIC_PROPERTIES_def

definition one_flag :: "nat \<Rightarrow> metadata_flags" where
  "one_flag n = MetadataFlags (push_bit n 1)"

definition flag_indices :: "nat list" where
  "flag_indices = [0, 1, 3, 4, 5, 6, 7, 11, 12, 13, 14, 15, 16, 17, 18, 19, 20, 21, 22, 23, 24, 25, 26, 27, 28, 29, 30, 31, 32, 33, 35, 36, 37, 38, 39, 40, 41, 42, 43, 44, 45]"

lemma all_flags_bits: "all_flags = map one_flag flag_indices"
  by (simp add: all_flags_def flag_indices_def flag_defs one_flag_def)

lemma flag_indices_facts: "distinct flag_indices" "n \<in> set flag_indices \<Longrightarrow> n < 64"
  by (auto simp: flag_indices_def)

lemma one_flag_bit: "n < 64 \<Longrightarrow> bit (flag_bits (one_flag n)) m \<longleftrightarrow> m = n"
  unfolding one_flag_def metadata_flags.sel bit_push_bit_iff bit_1_iff by auto

lemma one_flag_inject: "m < 64 \<Longrightarrow> n < 64 \<Longrightarrow> one_flag m = one_flag n \<longleftrightarrow> m = n"
  using one_flag_bit by metis

lemma flags_contains_bit:
  assumes "n < 64"
  shows "flags_contains self (one_flag n) \<longleftrightarrow> bit (flag_bits self) n"
  using assms unfolding flags_contains_def
  by (subst bit_eq_iff) (auto simp: bit_and_iff one_flag_bit)

lemma flags_set_bit:
  assumes "n < 64"
  shows "bit (flag_bits (flags_set self (one_flag n) v)) m
     \<longleftrightarrow> (if m = n then v else bit (flag_bits self) m)"
proof (cases "m < 64")
  case True
  then show ?thesis
    by (auto simp: flags_set_def flags_insert_def one_flag_bit[OF assms] bit_or_iff bit_and_iff bit_not_iff)
next
  case False
  then have "\<not> bit (w :: u64) m" for w using bit_imp_le_length[of w m] by auto
  moreover have "m \<noteq> n" using False assms by simp
  ultimately show ?thesis by simp
qed

text \<open>
  C32. The 41 flags are 41 independent bits: setting or clearing one of them changes the answer for
  this one and for no other, and removing a flag is setting it to false.
\<close>

theorem flags_independent:
  assumes "f \<in> set all_flags" "g \<in> set all_flags"
  shows "distinct all_flags \<and> length all_flags = 41
    \<and> flags_contains (flags_set self f v) g = (if g = f then v else flags_contains self g)
    \<and> flags_insert self f = flags_set self f True \<and> flags_remove self f = flags_set self f False
    \<and> \<not> flags_contains flags_empty g
    \<and> flags_contains (flags_or self other) g = (flags_contains self g \<or> flags_contains other g)"
proof -
  obtain n where n: "f = one_flag n" "n \<in> set flag_indices"
    using assms(1) unfolding all_flags_bits by auto
  obtain m where m: "g = one_flag m" "m \<in> set flag_indices"
    using assms(2) unfolding all_flags_bits by auto
  have nm: "n < 64" "m < 64" using n(2) m(2) flag_indices_facts(2) by auto
  have "distinct all_flags"
    unfolding all_flags_bits using flag_indices_facts one_flag_inject by (auto simp: distinct_map inj_on_def)
  moreover have "length all_flags = 41" by (simp add: all_flags_def)
  moreover have "flags_contains (flags_set self f v) g = (if g = f then v else flags_contains self g)"
    using nm by (simp add: n(1) m(1) flags_contains_bit flags_set_bit one_flag_inject)
  moreover have "flags_insert self f = flags_set self f True" "flags_remove self f = flags_set self f False"
    by (simp_all add: flags_set_def flags_remove_def)
  moreover have "\<not> flags_contains flags_empty g"
    using nm by (simp add: m(1) flags_contains_bit flags_empty_def)
  moreover have "flags_contains (flags_or self other) g = (flags_contains self g \<or> flags_contains other g)"
    using nm by (simp add: m(1) flags_contains_bit flags_or_def bit_or_iff)
  ultimately show ?thesis by blast
qed

theorem flags_independent_witness:
  "flags_contains (flags_set (flags_or DEPRECATED FINAL) FINAL False) DEPRECATED
   \<and> \<not> flags_contains (flags_set (flags_or DEPRECATED FINAL) FINAL False) FINAL"
proof -
  have "DEPRECATED \<in> set all_flags" "FINAL \<in> set all_flags" by (simp_all add: all_flags_def)
  moreover have "DEPRECATED \<noteq> FINAL" by (simp add: DEPRECATED_def FINAL_def)
  moreover have "flags_contains (flags_or DEPRECATED FINAL) DEPRECATED" by code_simp
  ultimately show ?thesis
    using flags_independent[of FINAL DEPRECATED "flags_or DEPRECATED FINAL" False]
      flags_independent[of FINAL FINAL "flags_or DEPRECATED FINAL" False] by simp
qed

section \<open>A range of versions is allowed when all its versions are\<close>

lemma lowest_le: "lowest r \<le> v \<longleftrightarrow> (case range_min r of None \<Rightarrow> True | Some lo \<Rightarrow> lo \<le> v)"
  by (auto simp: lowest_def from_version_id_def less_eq_php_version_def split: option.splits)

lemma le_highest: "v \<le> highest r \<longleftrightarrow> (case range_max r of None \<Rightarrow> True | Some hi \<Rightarrow> v \<le> hi)"
  by (auto simp: highest_def from_version_id_def less_eq_php_version_def split: option.splits)

lemma range_includes_between: "range_includes r v \<longleftrightarrow> lowest r \<le> v \<and> v \<le> highest r"
  unfolding lowest_le le_highest range_includes_def
  by (auto simp: less_eq_php_version_def split: option.splits)

lemma lowest_mono: "min_key r \<le> min_key s \<Longrightarrow> lowest r \<le> lowest s"
  by (auto simp: min_key_def lowest_def from_version_id_def less_eq_php_version_def split: option.splits)

text \<open>The version after \<open>v\<close>.\<close>

lemma after_version:
  assumes "v < hi"
  defines "w \<equiv> from_version_id (sat_add_u32 (to_version_id v) 1)"
  shows "w \<le> hi" "w \<le> x \<longleftrightarrow> v < x"
proof -
  have lt: "unat (to_version_id v) < unat (to_version_id hi)"
    using assms(1) by (simp add: less_php_version_def word_less_nat_alt)
  have "unat (to_version_id hi) < 2 ^ 32" using unsigned_less[of "to_version_id hi"] by simp
  then have w: "unat (to_version_id w) = unat (to_version_id v) + 1"
    using lt by (simp add: w_def from_version_id_def unat_sat_add_u32)
  show "w \<le> hi" using lt w by (simp add: less_eq_php_version_def word_le_nat_alt)
  show "w \<le> x \<longleftrightarrow> v < x"
    using w by (auto simp: less_eq_php_version_def less_php_version_def word_le_nat_alt word_less_nat_alt)
qed

lemma covers_from_iff:
  "sorted (map lowest rs) \<Longrightarrow> required \<le> hi \<Longrightarrow>
   covers_from rs required hi \<longleftrightarrow>
     (\<forall>v. required \<le> v \<and> v \<le> hi \<longrightarrow> (\<exists>r\<in>set rs. lowest r \<le> v \<and> v \<le> highest r))"
proof (induction rs arbitrary: required)
  case Nil
  then show ?case by auto
next
  case (Cons r rs)
  note IH = Cons.IH and srt = Cons.prems(1) and le = Cons.prems(2)
  have low: "lowest r \<le> lowest s" if "s \<in> set rs" for s using srt that by simp
  consider (skip) "highest r < required" | (gap) "required \<le> highest r" "required < lowest r"
    | (full) "required \<le> highest r" "lowest r \<le> required" "hi \<le> highest r"
    | (more) "required \<le> highest r" "lowest r \<le> required" "highest r < hi"
    by fastforce
  then show ?case
  proof cases
    case skip
    have "\<not> (lowest r \<le> v \<and> v \<le> highest r)" if "required \<le> v" for v using skip that by auto
    then show ?thesis using skip IH[of required] srt le by auto
  next
    case gap
    have "\<not> (lowest s \<le> required \<and> required \<le> highest s)" if "s \<in> set (r # rs)" for s
      using gap low[of s] that by auto
    then show ?thesis using gap le by (auto simp: not_less)
  next
    case full
    then show ?thesis by (auto simp: not_less intro: order_trans)
  next
    case more
    define w where "w = from_version_id (sat_add_u32 (to_version_id (highest r)) 1)"
    note w = after_version[OF more(3), folded w_def]
    have "covers_from (r # rs) required hi = covers_from rs w hi"
      using more(1,2) leD[OF more(1)] leD[OF more(2)] leD[of "highest r" hi] not_le[of hi "highest r"] more(3)
      by (simp add: w_def)
    also have "\<dots> \<longleftrightarrow> (\<forall>v. w \<le> v \<and> v \<le> hi \<longrightarrow> (\<exists>s\<in>set rs. lowest s \<le> v \<and> v \<le> highest s))"
      using IH[of w] srt w(1) by auto
    also have "\<dots> \<longleftrightarrow> (\<forall>v. required \<le> v \<and> v \<le> hi \<longrightarrow> (\<exists>s\<in>set (r # rs). lowest s \<le> v \<and> v \<le> highest s))"
    proof (intro iffI allI impI, goal_cases)
      case (1 v)
      then show ?case
      proof (cases "highest r < v")
        case True
        then show ?thesis using 1 unfolding w(2) by auto
      next
        case False
        then have "lowest r \<le> v \<and> v \<le> highest r"
          using 1(2) more(2) order_trans[of "lowest r" required v] by (simp add: not_less)
        then show ?thesis by auto
      qed
    next
      case (2 v)
      then have v: "highest r < v" "v \<le> hi" unfolding w(2) by auto
      then have "required \<le> v" using more(1) by (meson less_imp_le order_trans)
      then obtain s where "s \<in> set (r # rs)" "lowest s \<le> v \<and> v \<le> highest s" using 2(1) v(2) by blast
      moreover have "s \<noteq> r" using calculation v(1) by auto
      ultimately show ?case by auto
    qed
    finally show ?thesis .
  qed
qed

text \<open>
  C31. The answer for a range of versions is the answer for all its versions: whatever the order, the
  overlaps and the open ends of the declared ranges, the scan over the ranges sorted by their
  lower bound finds a gap exactly when some version of the queried range falls into one.
\<close>

theorem range_allowed_exact:
  "allows_version_range self r \<longleftrightarrow> (\<forall>v. range_includes r v \<longrightarrow> allows_version self v)"
proof (cases "constraint_ranges self = [] \<or> highest r < lowest r")
  case True
  then show ?thesis by (auto simp: allows_version_range_def allows_version_def range_includes_between)
next
  case False
  define rs where "rs = sort_key min_key (constraint_ranges self)"
  have "sorted (map min_key rs)" by (simp add: rs_def)
  then have srt: "sorted (map lowest rs)"
    by (auto simp: sorted_map intro: sorted_wrt_mono_rel[rotated] lowest_mono)
  have "allows_version_range self r \<longleftrightarrow> covers_from rs (lowest r) (highest r)"
    using False by (simp add: allows_version_range_def rs_def)
  also have "\<dots> \<longleftrightarrow> (\<forall>v. lowest r \<le> v \<and> v \<le> highest r \<longrightarrow> (\<exists>s\<in>set rs. lowest s \<le> v \<and> v \<le> highest s))"
    using covers_from_iff[OF srt] False by (simp add: not_less)
  also have "\<dots> \<longleftrightarrow> (\<forall>v. range_includes r v \<longrightarrow> allows_version self v)"
    using False by (simp add: allows_version_def range_includes_between rs_def list_ex_iff)
  finally show ?thesis .
qed

theorem range_allowed_exact_witness:
  "allows_version_range \<lparr>constraint_ranges = [range_from (version_new 8 4 0), range_until (version_new 8 3 255)]\<rparr> range_any
   \<and> \<not> allows_version \<lparr>constraint_ranges = [range_between (version_new 8 1 0) (version_new 8 3 0)]\<rparr> (version_new 8 3 1)
   \<and> \<not> allows_version_range \<lparr>constraint_ranges = [range_between (version_new 8 1 0) (version_new 8 3 0)]\<rparr> range_any"
proof -
  have "\<not> allows_version \<lparr>constraint_ranges = [range_between (version_new 8 1 0) (version_new 8 3 0)]\<rparr> (version_new 8 3 1)"
    by code_simp
  moreover have "range_includes range_any (version_new 8 3 1)" by code_simp
  moreover have "allows_version_range \<lparr>constraint_ranges = [range_from (version_new 8 4 0), range_until (version_new 8 3 255)]\<rparr> range_any"
    by code_simp
  ultimately show ?thesis using range_allowed_exact by blast
qed

lemma allows_push_since:
  "allows_version (push_since self v) w \<longleftrightarrow> (\<not> is_unconstrained self \<and> allows_version self w) \<or> v \<le> w"
  by (auto simp: allows_version_def push_since_def is_unconstrained_def range_from_def range_includes_def
      less_eq_php_version_def)

lemma allows_merge: "allows_version (constraint_merge a b) w \<longleftrightarrow> allows_version a w \<or> allows_version b w"
  by (auto simp: allows_version_def constraint_merge_def is_unconstrained_def)

text \<open>The claims of a symbol, in the order of its attributes.\<close>

datatype claim = Since php_version | Until php_version

fun push_claim :: "version_constraint \<Rightarrow> claim \<Rightarrow> version_constraint" where
  "push_claim self (Since v) = push_since self v"
| "push_claim self (Until v) = push_until self v"

text \<open>Every closed range of a claim list, as pairs of the version it opens with and the one it closes with.\<close>

fun claim_pairs :: "(php_version \<times> php_version) list \<Rightarrow> claim list" where
  "claim_pairs [] = []"
| "claim_pairs ((a, b) # ps) = Since a # Until b # claim_pairs ps"

lemma push_pair: "push_claim (push_claim self (Since a)) (Until b)
    = self\<lparr>constraint_ranges := constraint_ranges self @ [range_between a b]\<rparr>"
  by (simp add: push_since_def push_until_def range_from_def range_between_def nth_append list_update_append)

lemma fold_claim_pairs: "foldl push_claim self (claim_pairs ps)
    = self\<lparr>constraint_ranges := constraint_ranges self @ map (\<lambda>(a, b). range_between a b) ps\<rparr>"
  by (induction ps arbitrary: self rule: claim_pairs.induct) (simp_all add: push_pair del: push_claim.simps)

text \<open>
  Claims that open and close ranges in turn, with a last one left open or not, allow exactly the
  versions of these ranges; a leading claim \<open>until\<close> allows all versions up to it; and merging the
  claims of two declarations of a symbol allows what either of them allows.
\<close>

theorem claims_meaning:
  "(ps \<noteq> [] \<longrightarrow>
     allows_version (foldl push_claim unconstrained (claim_pairs ps)) w = (\<exists>(a, b) \<in> set ps. a \<le> w \<and> w \<le> b))
   \<and> allows_version (foldl push_claim unconstrained (claim_pairs ps @ [Since v])) w
       = ((\<exists>(a, b) \<in> set ps. a \<le> w \<and> w \<le> b) \<or> v \<le> w)
   \<and> allows_version (foldl push_claim unconstrained (Until v # claim_pairs ps)) w
       = (w \<le> v \<or> (\<exists>(a, b) \<in> set ps. a \<le> w \<and> w \<le> b))
   \<and> allows_version (constraint_merge c d) w = (allows_version c w \<or> allows_version d w)"
proof -
  have between: "range_includes (range_between a b) w \<longleftrightarrow> a \<le> w \<and> w \<le> b" for a b
    by (auto simp: range_includes_def range_between_def less_eq_php_version_def)
  have pairs: "list_ex (\<lambda>r. range_includes r w) (map (\<lambda>(a, b). range_between a b) ps)
      \<longleftrightarrow> (\<exists>(a, b) \<in> set ps. a \<le> w \<and> w \<le> b)"
    by (auto simp: list_ex_iff between split: prod.splits)
  have "range_includes (range_from v) w \<longleftrightarrow> v \<le> w" "range_includes (range_until v) w \<longleftrightarrow> w \<le> v"
    by (auto simp: range_includes_def range_from_def range_until_def less_eq_php_version_def)
  then show ?thesis
    unfolding allows_merge
    by (simp add: fold_claim_pairs unconstrained_def allows_version_def pairs push_since_def push_until_def
        disj_commute)
qed

theorem claims_meaning_witness:
  "allows_version (foldl push_claim unconstrained (claim_pairs [(PHP70, PHP71), (PHP81, PHP83)])) PHP82
   \<and> \<not> allows_version (foldl push_claim unconstrained (claim_pairs [(PHP70, PHP71), (PHP81, PHP83)])) PHP80"
proof -
  have "PHP81 \<le> PHP82 \<and> PHP82 \<le> PHP83" "\<not> PHP80 \<le> PHP71" "\<not> PHP81 \<le> PHP80" by code_simp+
  then show ?thesis
    using claims_meaning[of "[(PHP70, PHP71), (PHP81, PHP83)]" PHP82]
      claims_meaning[of "[(PHP70, PHP71), (PHP81, PHP83)]" PHP80] by simp
qed

text \<open>
  A claim \<open>until\<close> closes the last range, not the most recent open one: after two \<open>since\<close> and two
  \<open>until\<close> the first range is still open.
\<close>

theorem until_closes_the_last_range_only:
  "constraint_ranges (foldl push_claim unconstrained [Since PHP70, Since PHP80, Until PHP81, Until PHP71])
     = [range_from PHP70, range_between PHP80 PHP81, range_until PHP71]
   \<and> allows_version (foldl push_claim unconstrained [Since PHP70, Since PHP80, Until PHP81, Until PHP71]) w"
proof -
  have r: "constraint_ranges (foldl push_claim unconstrained [Since PHP70, Since PHP80, Until PHP81, Until PHP71])
     = [range_from PHP70, range_between PHP80 PHP81, range_until PHP71]"
    by (simp add: unconstrained_def push_since_def push_until_def range_from_def range_between_def range_until_def)
  have "PHP70 \<le> PHP71" by code_simp
  then have "range_includes (range_from PHP70) w \<or> range_includes (range_until PHP71) w"
    by (auto simp: range_includes_def range_from_def range_until_def less_eq_php_version_def)
  then show ?thesis using r by (auto simp: allows_version_def)
qed

end
