(* ===== verification/Codebase.thy ===== *)
theory Codebase
  imports Invalidation Metadata_Flags Issues "HOL-Library.List_Lexorder"
begin

text \<open>
  The metadata of a codebase (crate \<open>codex\<close>, \<open>metadata/mod.rs\<close> and \<open>symbol.rs\<close>): what the files
  declare, merged file by file. Of the records of declarations the model holds the fields the
  operations of this theory read or change; the state of a codebase extends the fields the
  invalidation uses.

  A hash map is the list of its entries with distinct keys, a hash set the list of its elements;
  a boxed value is the value, and a clone of a value the value itself.
\<close>

section \<open>Symbols\<close>

datatype symbol_kind = Class | Enum | Trait | Interface

definition kind_is_class :: "symbol_kind \<Rightarrow> bool" where "kind_is_class k \<longleftrightarrow> k = Class"
definition kind_is_enum :: "symbol_kind \<Rightarrow> bool" where "kind_is_enum k \<longleftrightarrow> k = Enum"
definition kind_is_trait :: "symbol_kind \<Rightarrow> bool" where "kind_is_trait k \<longleftrightarrow> k = Trait"
definition kind_is_interface :: "symbol_kind \<Rightarrow> bool" where "kind_is_interface k \<longleftrightarrow> k = Interface"

record symbols =
  symbols_all :: "(bytes, symbol_kind) hash_map"
  symbols_namespaces :: word_set

definition symbols_new :: symbols where
  "symbols_new = \<lparr>symbols_all = [], symbols_namespaces = []\<rparr>"

definition add_symbol_name :: "symbols \<Rightarrow> bytes \<Rightarrow> symbol_kind \<Rightarrow> symbols" where
  "add_symbol_name self name kind =
     self\<lparr>symbols_namespaces :=
            fold (\<lambda>i. List.insert (take i name)) (memchr_iter 92 name) (symbols_namespaces self),
          symbols_all := AList.update name kind (symbols_all self)\<rparr>"

definition get_kind :: "symbols \<Rightarrow> bytes \<Rightarrow> symbol_kind option" where
  "get_kind self name = map_of (symbols_all self) name"

definition symbols_contains :: "symbols \<Rightarrow> bytes \<Rightarrow> bool" where
  "symbols_contains self name \<longleftrightarrow> map_of (symbols_all self) name \<noteq> None"

definition contains_namespace :: "symbols \<Rightarrow> bytes \<Rightarrow> bool" where
  "contains_namespace self namespace \<longleftrightarrow> namespace \<in> set (symbols_namespaces self)"

definition contains_enum :: "symbols \<Rightarrow> bytes \<Rightarrow> bool" where
  "contains_enum self name \<longleftrightarrow> get_kind self name = Some Enum"

text \<open>\<open>entry(key).or_insert(value)\<close> for every entry.\<close>

fun or_insert_all :: "('k, 'v) hash_map \<Rightarrow> ('k, 'v) hash_map \<Rightarrow> ('k, 'v) hash_map" where
  "or_insert_all [] m = m"
| "or_insert_all ((k, v) # es) m =
     or_insert_all es (case map_of m k of None \<Rightarrow> AList.update k v m | Some _ \<Rightarrow> m)"

definition symbols_extend :: "symbols \<Rightarrow> symbols \<Rightarrow> symbols" where
  "symbols_extend self other =
     self\<lparr>symbols_namespaces := fold List.insert (symbols_namespaces other) (symbols_namespaces self),
          symbols_all := or_insert_all (symbols_all other) (symbols_all self)\<rparr>"

definition symbols_remove :: "symbols \<Rightarrow> bytes \<Rightarrow> symbols" where
  "symbols_remove self name = self\<lparr>symbols_all := AList.delete name (symbols_all self)\<rparr>"

section \<open>Declarations\<close>

text \<open>The fields that class-likes, functions and constants share, and those of each.\<close>

record symbol_metadata =
  metadata_span :: span
  metadata_flags :: metadata_flags
  version_constraint :: version_constraint
  metadata_issues :: "issue list"

record class_like_metadata = symbol_metadata +
  class_like_name :: bytes
  original_name :: bytes
  class_like_kind :: symbol_kind
  class_aliases :: "bytes list"
  direct_parent_class :: "bytes option"
  direct_parent_interfaces :: word_set
  all_parent_classes :: word_set
  all_parent_interfaces :: word_set
  used_traits :: word_set
  require_extends :: word_set
  require_implements :: word_set
  imported_type_aliases :: "(bytes, bytes \<times> bytes \<times> span) hash_map"
  child_class_likes :: "word_set option"

record function_like_metadata = symbol_metadata +
  function_like_name :: bytes

record constant_metadata = symbol_metadata +
  constant_name :: bytes

record codebase = "file_id codebase_metadata" +
  infer_types_from_usage :: bool
  class_likes :: "(bytes, class_like_metadata) hash_map"
  class_like_aliases :: "(bytes, bytes) hash_map"
  alias_declarations :: "(bytes, bytes \<times> span \<times> metadata_flags) hash_map"
  aliases_dirty :: bool
  function_likes :: "(bytes \<times> bytes, function_like_metadata) hash_map"
  codebase_symbols :: symbols
  codebase_constants :: "(bytes, constant_metadata) hash_map"
  all_class_like_descendants :: "(bytes, word_set) hash_map"
  direct_classlike_descendants :: "(bytes, word_set) hash_map"
  patch_class_likes :: "(bytes, class_like_metadata) hash_map"
  patch_function_likes :: "(bytes \<times> bytes, function_like_metadata) hash_map"
  patch_constants :: "(bytes, constant_metadata) hash_map"

definition codebase_new :: codebase where
  "codebase_new = \<lparr>safe_symbols = [], safe_symbol_members = [], metadata_file_signatures = [],
     infer_types_from_usage = False, class_likes = [], class_like_aliases = [], alias_declarations = [],
     aliases_dirty = False, function_likes = [], codebase_symbols = symbols_new, codebase_constants = [],
     all_class_like_descendants = [], direct_classlike_descendants = [], patch_class_likes = [],
     patch_function_likes = [], patch_constants = []\<rparr>"

section \<open>Which declaration wins\<close>

definition should_replace_metadata :: "metadata_flags \<Rightarrow> span \<Rightarrow> metadata_flags \<Rightarrow> span \<Rightarrow> bool" where
  "should_replace_metadata existing_flags existing_span new_flags new_span =
     (if flag_is_user_defined new_flags \<noteq> flag_is_user_defined existing_flags then flag_is_user_defined new_flags
      else if flag_is_patch new_flags \<noteq> flag_is_patch existing_flags then flag_is_patch new_flags
      else if flag_is_external new_flags \<noteq> flag_is_external existing_flags then flag_is_external new_flags
      else if flag_is_built_in new_flags \<noteq> flag_is_built_in existing_flags then flag_is_built_in new_flags
      else if flag_is_polyfill new_flags \<noteq> flag_is_polyfill existing_flags then \<not> flag_is_polyfill new_flags
      else span_key new_span < span_key existing_span)"

definition absorb_constraint :: "'a symbol_metadata_scheme \<Rightarrow> 'a symbol_metadata_scheme \<Rightarrow> 'a symbol_metadata_scheme" where
  "absorb_constraint kept dropped =
     kept\<lparr>version_constraint := constraint_merge (version_constraint kept) (version_constraint dropped)\<rparr>"

definition settle :: "'a symbol_metadata_scheme \<Rightarrow> 'a symbol_metadata_scheme \<Rightarrow> 'a symbol_metadata_scheme" where
  "settle existing v =
     (if should_replace_metadata (metadata_flags existing) (metadata_span existing) (metadata_flags v) (metadata_span v)
      then absorb_constraint v existing
      else absorb_constraint existing v)"

text \<open>The loop that merges declarations of one kind, three times in \<open>extend\<close>.\<close>

fun merge_declarations ::
  "('k, 'a symbol_metadata_scheme) hash_map \<Rightarrow> ('k, 'a symbol_metadata_scheme) hash_map
    \<Rightarrow> ('k, 'a symbol_metadata_scheme) hash_map" where
  "merge_declarations target [] = target"
| "merge_declarations target ((k, v) # incoming) =
     merge_declarations
       (case map_of target k of
          Some existing \<Rightarrow> AList.update k (settle existing v) target
        | None \<Rightarrow> AList.update k v target) incoming"

definition merge_function_likes ::
  "(bytes \<times> bytes, function_like_metadata) hash_map \<Rightarrow> (bytes \<times> bytes, function_like_metadata) hash_map
    \<Rightarrow> (bytes \<times> bytes, function_like_metadata) hash_map" where
  "merge_function_likes target incoming = merge_declarations target incoming"

section \<open>Aliases of classes\<close>

definition add_class_like_alias :: "codebase \<Rightarrow> bytes \<Rightarrow> bytes \<Rightarrow> span \<Rightarrow> metadata_flags \<Rightarrow> codebase" where
  "add_class_like_alias self al t sp fl =
     (let replace = (case map_of (alias_declarations self) al of
                       None \<Rightarrow> True
                     | Some (_, existing_span, existing_flags) \<Rightarrow>
                         should_replace_metadata existing_flags existing_span fl sp)
      in if replace
         then self\<lparr>alias_declarations := AList.update al (t, sp, fl) (alias_declarations self), aliases_dirty := True\<rparr>
         else self)"

definition class_like_alias_declarations :: "codebase \<Rightarrow> (bytes \<times> bytes \<times> span) list" where
  "class_like_alias_declarations self = map (\<lambda>(al, t, sp, fl). (al, t, sp)) (alias_declarations self)"

definition merge_class_like_alias_declarations ::
  "codebase \<Rightarrow> (bytes, bytes \<times> span \<times> metadata_flags) hash_map \<Rightarrow> codebase" where
  "merge_class_like_alias_declarations self declarations =
     fold (\<lambda>(al, t, sp, fl) cb. add_class_like_alias cb al t sp fl) declarations self"

text \<open>The loop with its counter: from \<open>current\<close>, at most \<open>n\<close> declarations are followed.\<close>

fun follow_alias :: "codebase \<Rightarrow> nat \<Rightarrow> bytes \<Rightarrow> bytes option" where
  "follow_alias self 0 current = None"
| "follow_alias self (Suc n) current =
     (if map_of (class_likes self) current \<noteq> None then Some current
      else case map_of (alias_declarations self) current of
             None \<Rightarrow> None
           | Some (t, _) \<Rightarrow> follow_alias self n t)"

definition resolve_class_like_alias_declaration :: "codebase \<Rightarrow> bytes \<Rightarrow> bytes option" where
  "resolve_class_like_alias_declaration self al =
     (case map_of (alias_declarations self) al of
        None \<Rightarrow> None
      | Some (t, _) \<Rightarrow> follow_alias self (length (alias_declarations self)) t)"

text \<open>\<open>get_mut\<close>: a change of the value at a key that is present.\<close>

definition change_at :: "'k \<Rightarrow> ('v \<Rightarrow> 'v) \<Rightarrow> ('k, 'v) hash_map \<Rightarrow> ('k, 'v) hash_map" where
  "change_at k f m = (case map_of m k of None \<Rightarrow> m | Some v \<Rightarrow> AList.update k (f v) m)"

text \<open>The equality of hash maps: as many entries, and every entry of one in the other.\<close>

definition hash_map_eq :: "('k, 'v) hash_map \<Rightarrow> ('k, 'v) hash_map \<Rightarrow> bool" where
  "hash_map_eq a b \<longleftrightarrow> length a = length b \<and> list_all (\<lambda>(k, v). map_of b k = Some v) a"

definition restore_symbols :: "codebase \<Rightarrow> symbols" where
  "restore_symbols self =
     fold (\<lambda>(al, _) sy. case map_of (class_likes self) al of
             Some md \<Rightarrow> add_symbol_name sy al (class_like_kind md)
           | None \<Rightarrow> symbols_remove sy al)
       (class_like_aliases self) (codebase_symbols self)"

fun resolve_declarations :: "codebase \<Rightarrow> (bytes, bytes \<times> span \<times> metadata_flags) hash_map
    \<Rightarrow> (bytes, bytes) hash_map \<Rightarrow> (bytes, bytes) hash_map" where
  "resolve_declarations self [] aliases = aliases"
| "resolve_declarations self ((al, _) # ds) aliases =
     resolve_declarations self ds
       (if map_of (class_likes self) al \<noteq> None then aliases
        else case resolve_class_like_alias_declaration self al of
               Some actual \<Rightarrow> AList.update al actual aliases
             | None \<Rightarrow> aliases)"

fun attach_aliases :: "(bytes, bytes) hash_map \<Rightarrow> (bytes, class_like_metadata) hash_map \<Rightarrow> word_set \<Rightarrow> symbols
    \<Rightarrow> (bytes, class_like_metadata) hash_map \<times> word_set \<times> symbols" where
  "attach_aliases [] classes aliased sy = (classes, aliased, sy)"
| "attach_aliases ((al, actual) # as) classes aliased sy =
     (case map_of classes actual of
        None \<Rightarrow> attach_aliases as classes aliased sy
      | Some md \<Rightarrow>
          attach_aliases as (AList.update actual (md\<lparr>class_aliases := class_aliases md @ [al]\<rparr>) classes)
            (List.insert actual aliased) (add_symbol_name sy al (class_like_kind md)))"

definition populate_class_like_aliases :: "codebase \<Rightarrow> codebase \<times> bool" where
  "populate_class_like_aliases self =
     (if \<not> aliases_dirty self then (self, False)
      else
        let previous = class_like_aliases self;
            sy = restore_symbols self;
            classes = map (\<lambda>(k, md). (k, md\<lparr>class_aliases := []\<rparr>)) (class_likes self);
            aliases = resolve_declarations self (alias_declarations self) [];
            changed = \<not> hash_map_eq aliases previous;
            (classes, aliased, sy) = attach_aliases aliases classes [] sy;
            classes = fold (\<lambda>actual. change_at actual (\<lambda>md. md\<lparr>class_aliases := sort (class_aliases md)\<rparr>)) aliased classes
        in (self\<lparr>class_likes := classes, class_like_aliases := aliases, codebase_symbols := sy, aliases_dirty := False\<rparr>,
            changed))"

definition resolve_class_like_word :: "codebase \<Rightarrow> bytes \<Rightarrow> bytes option" where
  "resolve_class_like_word self name =
     (if map_of (class_likes self) name \<noteq> None then Some name
      else if class_like_aliases self = [] then None
      else map_of (class_like_aliases self) name)"

definition get_class_like_by_word :: "codebase \<Rightarrow> bytes \<Rightarrow> class_like_metadata option" where
  "get_class_like_by_word self name =
     (case map_of (class_likes self) name of
        Some md \<Rightarrow> Some md
      | None \<Rightarrow>
          if class_like_aliases self = [] then None
          else Option.bind (map_of (class_like_aliases self) name) (map_of (class_likes self)))"

definition get_method_by_words :: "codebase \<Rightarrow> bytes \<Rightarrow> bytes \<Rightarrow> function_like_metadata option" where
  "get_method_by_words self c m =
     (case map_of (function_likes self) (c, m) of
        Some md \<Rightarrow> Some md
      | None \<Rightarrow>
          if class_like_aliases self = [] then None
          else case map_of (class_like_aliases self) c of
                 None \<Rightarrow> None
               | Some actual \<Rightarrow> map_of (function_likes self) (actual, m))"

section \<open>Patches\<close>

definition duplicate_patch_issue :: "bytes \<Rightarrow> bytes \<Rightarrow> bytes \<Rightarrow> 'a symbol_metadata_scheme \<Rightarrow> 'a symbol_metadata_scheme \<Rightarrow> issue" where
  "duplicate_patch_issue subject name what kept dropped =
     with_help
       (with_annotation
         (with_annotation
           (with_code
             (issue_error_new (byte_string ''Multiple patches target '' @ subject @ [96] @ name
                @ byte_string ''`; at most one patch may target a given symbol.''))
             (byte_string ''patch-duplicate-target''))
           (with_message (annotation_primary (metadata_span dropped))
             (byte_string ''Duplicate patch for this '' @ what @ byte_string ''.'')))
         (with_message (annotation_secondary (metadata_span kept)) (byte_string ''Already patched here.'')))
       (byte_string ''Merge the conflicting declarations into a single patch, or remove all but one.'')"

definition duplicate_patch_class_diagnostic :: "class_like_metadata \<Rightarrow> class_like_metadata \<Rightarrow> issue" where
  "duplicate_patch_class_diagnostic kept dropped =
     duplicate_patch_issue [] (original_name kept) (byte_string ''symbol'') kept dropped"

definition duplicate_patch_function_diagnostic :: "function_like_metadata \<Rightarrow> function_like_metadata \<Rightarrow> issue" where
  "duplicate_patch_function_diagnostic kept dropped =
     duplicate_patch_issue (byte_string ''function '') (function_like_name kept) (byte_string ''function'') kept dropped"

definition duplicate_patch_constant_diagnostic :: "constant_metadata \<Rightarrow> constant_metadata \<Rightarrow> issue" where
  "duplicate_patch_constant_diagnostic kept dropped =
     duplicate_patch_issue (byte_string ''constant '') (constant_name kept) (byte_string ''constant'') kept dropped"

fun merge_patches :: "('k \<Rightarrow> bool) \<Rightarrow> ('a symbol_metadata_scheme \<Rightarrow> 'a symbol_metadata_scheme \<Rightarrow> issue)
    \<Rightarrow> ('k, 'a symbol_metadata_scheme) hash_map \<Rightarrow> ('k, 'a symbol_metadata_scheme) hash_map
    \<Rightarrow> ('k, 'a symbol_metadata_scheme) hash_map" where
  "merge_patches reported diagnostic target [] = target"
| "merge_patches reported diagnostic target ((k, v) # incoming) =
     merge_patches reported diagnostic
       (case map_of target k of
          Some kept \<Rightarrow>
            (if reported k
             then AList.update k (kept\<lparr>metadata_issues := metadata_issues kept @ [diagnostic kept v]\<rparr>) target
             else target)
        | None \<Rightarrow> AList.update k v target) incoming"

definition merge_patch_class_likes :: "codebase \<Rightarrow> (bytes, class_like_metadata) hash_map \<Rightarrow> codebase" where
  "merge_patch_class_likes self incoming =
     self\<lparr>patch_class_likes := merge_patches (\<lambda>_. True) duplicate_patch_class_diagnostic (patch_class_likes self) incoming\<rparr>"

definition merge_patch_function_likes :: "codebase \<Rightarrow> (bytes \<times> bytes, function_like_metadata) hash_map \<Rightarrow> codebase" where
  "merge_patch_function_likes self incoming =
     self\<lparr>patch_function_likes :=
       merge_patches (\<lambda>k. fst k = empty_word) duplicate_patch_function_diagnostic (patch_function_likes self) incoming\<rparr>"

definition merge_patch_constants :: "codebase \<Rightarrow> (bytes, constant_metadata) hash_map \<Rightarrow> codebase" where
  "merge_patch_constants self incoming =
     self\<lparr>patch_constants := merge_patches (\<lambda>_. True) duplicate_patch_constant_diagnostic (patch_constants self) incoming\<rparr>"

section \<open>Merging codebases\<close>

text \<open>\<open>entry(key).or_default().extend(values)\<close> for every entry.\<close>

fun extend_sets :: "('k, 'v hash_set) hash_map \<Rightarrow> ('k, 'v hash_set) hash_map \<Rightarrow> ('k, 'v hash_set) hash_map" where
  "extend_sets target [] = target"
| "extend_sets target ((k, vs) # incoming) =
     extend_sets (AList.update k (fold List.insert vs (case map_of target k of None \<Rightarrow> [] | Some xs \<Rightarrow> xs)) target) incoming"

definition insert_all :: "('k, 'v) hash_map \<Rightarrow> ('k, 'v) hash_map \<Rightarrow> ('k, 'v) hash_map" where
  "insert_all target incoming = fold (\<lambda>(k, v). AList.update k v) incoming target"

definition mark_aliases_dirty :: "bool \<Rightarrow> codebase \<Rightarrow> codebase" where
  "mark_aliases_dirty class_likes_changed self =
     (if class_likes_changed \<and> alias_declarations self \<noteq> [] then self\<lparr>aliases_dirty := True\<rparr> else self)"

definition codebase_extend :: "codebase \<Rightarrow> codebase \<Rightarrow> codebase" where
  "codebase_extend self other =
     (let class_likes_changed = class_likes other \<noteq> [];
          self = self\<lparr>class_likes := merge_declarations (class_likes self) (class_likes other)\<rparr>;
          self = mark_aliases_dirty class_likes_changed self;
          self = merge_class_like_alias_declarations self (alias_declarations other);
          self = self\<lparr>function_likes := merge_function_likes (function_likes self) (function_likes other)\<rparr>;
          self = self\<lparr>codebase_constants := merge_declarations (codebase_constants self) (codebase_constants other)\<rparr>;
          self = self\<lparr>codebase_symbols := symbols_extend (codebase_symbols self) (codebase_symbols other)\<rparr>;
          self = self\<lparr>all_class_like_descendants :=
                    extend_sets (all_class_like_descendants self) (all_class_like_descendants other)\<rparr>;
          self = self\<lparr>direct_classlike_descendants :=
                    extend_sets (direct_classlike_descendants self) (direct_classlike_descendants other)\<rparr>;
          self = self\<lparr>metadata_file_signatures :=
                    insert_all (metadata_file_signatures self) (metadata_file_signatures other)\<rparr>;
          self = self\<lparr>safe_symbols := fold List.insert (safe_symbols other) (safe_symbols self)\<rparr>;
          self = self\<lparr>safe_symbol_members := fold List.insert (safe_symbol_members other) (safe_symbol_members self)\<rparr>;
          self = self\<lparr>infer_types_from_usage := (infer_types_from_usage self \<or> infer_types_from_usage other)\<rparr>;
          self = merge_patch_class_likes self (patch_class_likes other);
          self = merge_patch_function_likes self (patch_function_likes other)
      in merge_patch_constants self (patch_constants other))"

text \<open>The merge by reference clones the entries it takes over and is otherwise the same.\<close>

definition codebase_extend_ref :: "codebase \<Rightarrow> codebase \<Rightarrow> codebase" where
  "codebase_extend_ref self other = codebase_extend self other"

text \<open>
  With enough files and threads the functions and the symbols are taken out of the parts and
  merged on their own.
\<close>

definition extend_many_parallel :: "nat \<Rightarrow> codebase \<Rightarrow> codebase list \<Rightarrow> codebase" where
  "extend_many_parallel threads self others =
     (if length others < 128 \<or> threads = 1 then foldl codebase_extend self others
      else
        let fns = foldl merge_function_likes (function_likes self) (map function_likes others);
            sy = foldl symbols_extend (codebase_symbols self) (map codebase_symbols others);
            rest = foldl codebase_extend (self\<lparr>function_likes := [], codebase_symbols := symbols_new\<rparr>)
                     (map (\<lambda>other. other\<lparr>function_likes := [], codebase_symbols := symbols_new\<rparr>) others)
        in rest\<lparr>function_likes := fns, codebase_symbols := sy\<rparr>)"

definition convert_partial_to_patch :: "codebase \<Rightarrow> codebase" where
  "convert_partial_to_patch self =
     self\<lparr>patch_class_likes := insert_all (patch_class_likes self) (class_likes self), class_likes := [],
          patch_function_likes := insert_all (patch_function_likes self) (function_likes self), function_likes := [],
          patch_constants := insert_all (patch_constants self) (codebase_constants self), codebase_constants := [],
          codebase_symbols := symbols_new, class_like_aliases := [], alias_declarations := [], aliases_dirty := False,
          all_class_like_descendants := [], direct_classlike_descendants := []\<rparr>"

section \<open>Removing what a file declared\<close>

record codebase_entry_keys =
  key_class_like_names :: "bytes list"
  key_class_like_aliases :: "(bytes \<times> bytes \<times> span) list"
  key_function_like_keys :: "(bytes \<times> bytes) list"
  key_constant_names :: "bytes list"
  key_file_ids :: "file_id list"

definition owned_keys :: "('k, 'a symbol_metadata_scheme) hash_map \<Rightarrow> ('k, 'a symbol_metadata_scheme) hash_map \<Rightarrow> 'k list" where
  "owned_keys own merged =
     map fst (filter (\<lambda>(k, md). case map_of merged k of
         None \<Rightarrow> False | Some m \<Rightarrow> metadata_span m = metadata_span md) own)"

definition extract_owned_keys :: "codebase \<Rightarrow> codebase \<Rightarrow> codebase_entry_keys" where
  "extract_owned_keys self merged =
     \<lparr>key_class_like_names = owned_keys (class_likes self) (class_likes merged),
      key_class_like_aliases =
        map (\<lambda>(al, t, sp, _). (al, t, sp))
          (filter (\<lambda>(al, _, sp, _). case map_of (alias_declarations merged) al of
               None \<Rightarrow> False | Some (_, merged_span, _) \<Rightarrow> merged_span = sp) (alias_declarations self)),
      key_function_like_keys = owned_keys (function_likes self) (function_likes merged),
      key_constant_names = owned_keys (codebase_constants self) (codebase_constants merged),
      key_file_ids = map fst (metadata_file_signatures self)\<rparr>"

definition remove_all :: "'k list \<Rightarrow> ('k, 'v) hash_map \<Rightarrow> ('k, 'v) hash_map" where
  "remove_all ks m = fold AList.delete ks m"

definition outside_files :: "file_id list \<Rightarrow> ('k, 'a symbol_metadata_scheme) hash_map \<Rightarrow> ('k, 'a symbol_metadata_scheme) hash_map" where
  "outside_files removed m = filter (\<lambda>(_, md). span_file_id (metadata_span md) \<notin> set removed) m"

definition remove_entries_by_keys :: "codebase \<Rightarrow> codebase_entry_keys \<Rightarrow> codebase" where
  "remove_entries_by_keys self keys =
     (let self = mark_aliases_dirty (key_class_like_names keys \<noteq> []) self;
          self = self\<lparr>class_likes := remove_all (key_class_like_names keys) (class_likes self),
                      codebase_symbols := fold (\<lambda>k sy. symbols_remove sy k) (key_class_like_names keys) (codebase_symbols self)\<rparr>;
          self = fold (\<lambda>(al, _) cb. cb\<lparr>alias_declarations := AList.delete al (alias_declarations cb), aliases_dirty := True\<rparr>)
                   (key_class_like_aliases keys) self;
          self = self\<lparr>function_likes := remove_all (key_function_like_keys keys) (function_likes self)\<rparr>;
          self = self\<lparr>codebase_constants := remove_all (key_constant_names keys) (codebase_constants self)\<rparr>;
          self = self\<lparr>metadata_file_signatures := remove_all (key_file_ids keys) (metadata_file_signatures self)\<rparr>
      in self\<lparr>patch_class_likes := outside_files (key_file_ids keys) (patch_class_likes self),
              patch_function_likes := outside_files (key_file_ids keys) (patch_function_likes self),
              patch_constants := outside_files (key_file_ids keys) (patch_constants self)\<rparr>)"

definition take_entry_issues :: "bool \<Rightarrow> ('k, 'a symbol_metadata_scheme) hash_map \<Rightarrow> ('k, 'a symbol_metadata_scheme) hash_map \<times> issue list" where
  "take_entry_issues user_defined m =
     (map (\<lambda>(k, md). (k, if user_defined \<and> \<not> flag_is_user_defined (metadata_flags md) then md else md\<lparr>metadata_issues := []\<rparr>)) m,
      concat (map (\<lambda>(k, md). if user_defined \<and> \<not> flag_is_user_defined (metadata_flags md) then [] else metadata_issues md) m))"

definition codebase_take_issues :: "codebase \<Rightarrow> bool \<Rightarrow> codebase \<times> issue list" where
  "codebase_take_issues self user_defined =
     (let (cls, i1) = take_entry_issues user_defined (class_likes self);
          (fns, i2) = take_entry_issues user_defined (function_likes self);
          (cs, i3) = take_entry_issues user_defined (codebase_constants self);
          (pcls, i4) = take_entry_issues False (patch_class_likes self);
          (pfns, i5) = take_entry_issues False (patch_function_likes self);
          (pcs, i6) = take_entry_issues False (patch_constants self)
      in (self\<lparr>class_likes := cls, function_likes := fns, codebase_constants := cs,
               patch_class_likes := pcls, patch_function_likes := pfns, patch_constants := pcs\<rparr>,
          i1 @ i2 @ i3 @ i4 @ i5 @ i6))"

definition get_all_file_ids :: "codebase \<Rightarrow> file_id list" where
  "get_all_file_ids self = map fst (metadata_file_signatures self)"

definition set_file_signature :: "codebase \<Rightarrow> file_id \<Rightarrow> file_signature \<Rightarrow> codebase \<times> file_signature option" where
  "set_file_signature self f sig =
     (self\<lparr>metadata_file_signatures := AList.update f sig (metadata_file_signatures self)\<rparr>,
      map_of (metadata_file_signatures self) f)"

text \<open>Declaration spans saved before the scan moves into the merged codebase (\<open>entry_spans.rs\<close>).\<close>

record codebase_entry_spans =
  spans_class_likes :: "(bytes \<times> span) list"
  spans_class_like_aliases :: "(bytes \<times> bytes \<times> span) list"
  spans_function_likes :: "((bytes \<times> bytes) \<times> span) list"
  spans_constants :: "(bytes \<times> span) list"
  spans_file_ids :: "file_id list"

definition entry_spans :: "codebase \<Rightarrow> codebase_entry_spans" where
  "entry_spans self =
     \<lparr>spans_class_likes = map (\<lambda>(k, md). (k, metadata_span md)) (class_likes self),
      spans_class_like_aliases = class_like_alias_declarations self,
      spans_function_likes = map (\<lambda>(k, md). (k, metadata_span md)) (function_likes self),
      spans_constants = map (\<lambda>(k, md). (k, metadata_span md)) (codebase_constants self),
      spans_file_ids = map fst (metadata_file_signatures self)\<rparr>"

definition matching_spans :: "('k \<times> span) list \<Rightarrow> ('k, 'a symbol_metadata_scheme) hash_map \<Rightarrow> 'k list" where
  "matching_spans own merged =
     map fst (filter (\<lambda>(k, sp). case map_of merged k of None \<Rightarrow> False | Some m \<Rightarrow> metadata_span m = sp) own)"

definition into_owned_keys :: "codebase_entry_spans \<Rightarrow> codebase \<Rightarrow> codebase_entry_keys" where
  "into_owned_keys self merged =
     \<lparr>key_class_like_names = matching_spans (spans_class_likes self) (class_likes merged),
      key_class_like_aliases =
        filter (\<lambda>(al, _, sp). case map_of (alias_declarations merged) al of
            None \<Rightarrow> False | Some (_, merged_span, _) \<Rightarrow> merged_span = sp) (spans_class_like_aliases self),
      key_function_like_keys = matching_spans (spans_function_likes self) (function_likes merged),
      key_constant_names = matching_spans (spans_constants self) (codebase_constants merged),
      key_file_ids = spans_file_ids self\<rparr>"

end
