(* ===== verification/Codebase_Merge.thy ===== *)
theory Codebase_Merge
  imports Codebase
begin

text \<open>
  Merging the metadata of files: at every name the best declaration of all files wins and is
  available where any of them is, whatever the order of the files; merging in parallel is merging
  in sequence; removing what a file owns leaves the entries of all other files alone.
\<close>

section \<open>The winner among declarations\<close>

text \<open>The order of the source as a key: the smaller declaration wins.\<close>

definition rank :: "metadata_flags \<Rightarrow> span \<Rightarrow> bool \<times> bool \<times> bool \<times> bool \<times> bool \<times> u64 \<times> u32 \<times> u32" where
  "rank fl sp = (\<not> flag_is_user_defined fl, \<not> flag_is_patch fl, \<not> flag_is_external fl, \<not> flag_is_built_in fl,
     flag_is_polyfill fl, span_key sp)"

abbreviation entry_rank :: "'a symbol_metadata_scheme \<Rightarrow> bool \<times> bool \<times> bool \<times> bool \<times> bool \<times> u64 \<times> u32 \<times> u32" where
  "entry_rank md \<equiv> rank (metadata_flags md) (metadata_span md)"

lemma should_replace_rank:
  "should_replace_metadata ef es nf ns \<longleftrightarrow> rank nf ns < rank ef es"
  by (cases "flag_is_user_defined nf"; cases "flag_is_user_defined ef"; cases "flag_is_patch nf";
      cases "flag_is_patch ef"; cases "flag_is_external nf"; cases "flag_is_external ef";
      cases "flag_is_built_in nf"; cases "flag_is_built_in ef"; cases "flag_is_polyfill nf"; cases "flag_is_polyfill ef")
     (simp_all add: should_replace_metadata_def rank_def)

text \<open>What two declarations have in common up to their availability.\<close>

definition same_entry :: "'a symbol_metadata_scheme \<Rightarrow> 'a symbol_metadata_scheme \<Rightarrow> bool" where
  "same_entry a b \<longleftrightarrow> a = b\<lparr>version_constraint := version_constraint a\<rparr>"

lemma absorb_constraint_facts [simp]:
  "metadata_flags (absorb_constraint a b) = metadata_flags a"
  "metadata_span (absorb_constraint a b) = metadata_span a"
  "same_entry (absorb_constraint a b) a"
  "allows_version (version_constraint (absorb_constraint a b)) w
     \<longleftrightarrow> allows_version (version_constraint a) w \<or> allows_version (version_constraint b) w"
  by (simp_all add: absorb_constraint_def allows_merge same_entry_def)

lemma settle_cases: "settle a b = (if entry_rank b < entry_rank a then absorb_constraint b a else absorb_constraint a b)"
  by (simp add: settle_def should_replace_rank)

fun settle_opt :: "'a symbol_metadata_scheme option \<Rightarrow> 'a symbol_metadata_scheme option \<Rightarrow> 'a symbol_metadata_scheme option" where
  "settle_opt None b = b"
| "settle_opt (Some a) None = Some a"
| "settle_opt (Some a) (Some b) = Some (settle a b)"

lemma map_of_merge_declarations:
  "distinct (map fst incoming) \<Longrightarrow>
   map_of (merge_declarations target incoming) k = settle_opt (map_of target k) (map_of incoming k)"
proof (induction incoming arbitrary: target)
  case Nil
  then show ?case by (cases "map_of target k") simp_all
next
  case (Cons e incoming)
  obtain k' v where e: "e = (k', v)" by (cases e)
  have "map_of incoming k = None" if "k = k'" using Cons.prems that by (simp add: e map_of_eq_None_iff)
  then show ?case
    using Cons by (cases "map_of target k") (auto simp: e update_conv' split: option.splits)
qed

lemma map_of_fold_declarations:
  "\<forall>m\<in>set ms. distinct (map fst m) \<Longrightarrow>
   map_of (foldl merge_declarations target ms) k = foldl settle_opt (map_of target k) (map (\<lambda>m. map_of m k) ms)"
  by (induction ms arbitrary: target) (simp_all add: map_of_merge_declarations)

text \<open>
  The specification of a merged map: at every key the best of the declarations, available where
  any of them is.
\<close>

definition best_of :: "'a symbol_metadata_scheme set \<Rightarrow> 'a symbol_metadata_scheme option \<Rightarrow> bool" where
  "best_of D r \<longleftrightarrow> (case r of
     None \<Rightarrow> D = {}
   | Some m \<Rightarrow> (\<exists>d\<in>D. same_entry m d \<and> (\<forall>d'\<in>D. entry_rank d \<le> entry_rank d'))
       \<and> (\<forall>w. allows_version (version_constraint m) w = (\<exists>d\<in>D. allows_version (version_constraint d) w)))"

lemma same_entryE:
  assumes "same_entry a b"
  obtains c where "a = b\<lparr>version_constraint := c\<rparr>"
  using assms unfolding same_entry_def by blast

lemma same_entryI: "same_entry (b\<lparr>version_constraint := c\<rparr>) b"
  by (simp add: same_entry_def)

lemma same_entry_rank: "same_entry a b \<Longrightarrow> entry_rank a = entry_rank b"
  by (erule same_entryE) simp

lemma same_entry_trans:
  assumes "same_entry a b" "same_entry b c"
  shows "same_entry a c"
proof -
  obtain x y where "a = b\<lparr>version_constraint := x\<rparr>" "b = c\<lparr>version_constraint := y\<rparr>"
    using assms by (elim same_entryE)
  then have "a = c\<lparr>version_constraint := x\<rparr>" by simp
  then show ?thesis by (simp add: same_entryI)
qed

lemma same_entry_refl [simp]: "same_entry a a"
  by (simp add: same_entry_def)

lemma best_of_one: "best_of {} None" "best_of {d} (Some d)"
  by (auto simp: best_of_def)

lemma best_of_settle:
  assumes "best_of D (Some a)"
  shows "best_of (insert b D) (Some (settle a b))"
proof -
  obtain d where d: "d \<in> D" "same_entry a d" "\<forall>d'\<in>D. entry_rank d \<le> entry_rank d'"
    and av: "\<forall>w. allows_version (version_constraint a) w = (\<exists>d\<in>D. allows_version (version_constraint d) w)"
    using assms unfolding best_of_def option.case by blast
  have r: "entry_rank a = entry_rank d" by (rule same_entry_rank[OF d(2)])
  have "\<exists>e\<in>insert b D. same_entry (settle a b) e \<and> (\<forall>d'\<in>insert b D. entry_rank e \<le> entry_rank d')"
  proof (cases "entry_rank b < entry_rank a")
    case True
    then have "same_entry (settle a b) b" by (simp add: settle_cases)
    moreover have "\<forall>d'\<in>insert b D. entry_rank b \<le> entry_rank d'"
      using d(3) True unfolding r by (blast intro: less_imp_le less_le_trans)
    ultimately show ?thesis by blast
  next
    case False
    then have "same_entry (settle a b) d"
      using same_entry_trans[OF absorb_constraint_facts(3) d(2)] by (simp add: settle_cases)
    moreover have "\<forall>d'\<in>insert b D. entry_rank d \<le> entry_rank d'"
      using d(3) False unfolding r by (simp add: not_less)
    ultimately show ?thesis using d(1) by blast
  qed
  moreover have "allows_version (version_constraint (settle a b)) w
      = (\<exists>e\<in>insert b D. allows_version (version_constraint e) w)" for w
    using av by (auto simp: settle_cases)
  ultimately show ?thesis unfolding best_of_def option.case by blast
qed

lemma best_of_fold_opt: "best_of D r \<Longrightarrow> best_of (D \<union> {d. Some d \<in> set os}) (foldl settle_opt r os)"
proof (induction os arbitrary: D r)
  case (Cons x os)
  show ?case
  proof (cases x)
    case None
    then have "settle_opt r x = r" by (cases r) simp_all
    then show ?thesis using Cons.IH[OF Cons.prems] None by simp
  next
    case (Some b)
    have "best_of (insert b D) (settle_opt r x)"
    proof (cases r)
      case None
      then show ?thesis using Cons.prems Some best_of_one(2) by (simp add: best_of_def)
    next
      case r: (Some a)
      have "best_of D (Some a)" using Cons.prems unfolding r .
      then show ?thesis unfolding r Some settle_opt.simps by (rule best_of_settle)
    qed
    from Cons.IH[OF this] show ?thesis using Some by (simp add: Un_commute insert_commute Collect_disj_eq)
  qed
qed simp

definition declared_in :: "('k, 'a symbol_metadata_scheme) hash_map list \<Rightarrow> 'k \<Rightarrow> 'a symbol_metadata_scheme set" where
  "declared_in ms k = {d. \<exists>m\<in>set ms. map_of m k = Some d}"

lemma best_of_fold:
  assumes "\<forall>m\<in>set ms. distinct (map fst m)"
  shows "best_of (declared_in ms k) (map_of (foldl merge_declarations [] ms) k)"
proof -
  have "{d. Some d \<in> set (map (\<lambda>m. map_of m k) ms)} = declared_in ms k"
    by (auto simp: declared_in_def image_iff) (metis+)
  then show ?thesis
    using best_of_fold_opt[OF best_of_one(1), of "map (\<lambda>m. map_of m k) ms"] map_of_fold_declarations[OF assms, of "[]" k]
    by simp
qed

section \<open>The fields of a merged codebase\<close>

text \<open>Merging alias declarations touches the declarations and the mark only.\<close>

fun declare_alias :: "(bytes, bytes \<times> span \<times> metadata_flags) hash_map \<times> bool \<Rightarrow> bytes \<times> bytes \<times> span \<times> metadata_flags
    \<Rightarrow> (bytes, bytes \<times> span \<times> metadata_flags) hash_map \<times> bool" where
  "declare_alias (ds, dirty) (al, t, sp, fl) =
     (if (case map_of ds al of None \<Rightarrow> True
          | Some (_, existing_span, existing_flags) \<Rightarrow> should_replace_metadata existing_flags existing_span fl sp)
      then (AList.update al (t, sp, fl) ds, True) else (ds, dirty))"

definition put_aliases :: "(bytes, bytes \<times> span \<times> metadata_flags) hash_map \<times> bool \<Rightarrow> codebase \<Rightarrow> codebase" where
  "put_aliases p cb = cb\<lparr>alias_declarations := fst p, aliases_dirty := snd p\<rparr>"

abbreviation alias_state :: "codebase \<Rightarrow> (bytes, bytes \<times> span \<times> metadata_flags) hash_map \<times> bool" where
  "alias_state cb \<equiv> (alias_declarations cb, aliases_dirty cb)"

lemma put_aliases_simps [simp]:
  "alias_state (put_aliases p cb) = p" "put_aliases p (put_aliases q cb) = put_aliases p cb"
  "put_aliases (alias_state cb) cb = cb"
  by (simp_all add: put_aliases_def)

lemma add_class_like_alias_put:
  "add_class_like_alias cb al t sp fl = put_aliases (declare_alias (alias_state cb) (al, t, sp, fl)) cb"
  by (simp add: add_class_like_alias_def put_aliases_def Let_def)

lemma merge_alias_declarations_put:
  "merge_class_like_alias_declarations cb ds = put_aliases (foldl declare_alias (alias_state cb) ds) cb"
proof (induction ds arbitrary: cb)
  case (Cons d ds)
  obtain al t sp fl where d: "d = (al, t, sp, fl)" by (metis prod_cases4)
  have "merge_class_like_alias_declarations cb (d # ds)
      = merge_class_like_alias_declarations (put_aliases (declare_alias (alias_state cb) d) cb) ds"
    by (simp add: merge_class_like_alias_declarations_def d add_class_like_alias_put)
  then show ?case by (simp add: Cons.IH)
qed (simp add: merge_class_like_alias_declarations_def)

definition extended_aliases :: "codebase \<Rightarrow> codebase \<Rightarrow> (bytes, bytes \<times> span \<times> metadata_flags) hash_map \<times> bool" where
  "extended_aliases self other =
     foldl declare_alias
       (alias_declarations self, aliases_dirty self \<or> class_likes other \<noteq> [] \<and> alias_declarations self \<noteq> [])
       (alias_declarations other)"

lemma codebase_extend_fields [simp]:
  "class_likes (codebase_extend a b) = merge_declarations (class_likes a) (class_likes b)"
  "function_likes (codebase_extend a b) = merge_function_likes (function_likes a) (function_likes b)"
  "codebase_constants (codebase_extend a b) = merge_declarations (codebase_constants a) (codebase_constants b)"
  "codebase_symbols (codebase_extend a b) = symbols_extend (codebase_symbols a) (codebase_symbols b)"
  "class_like_aliases (codebase_extend a b) = class_like_aliases a"
  "alias_state (codebase_extend a b) = extended_aliases a b"
  "metadata_file_signatures (codebase_extend a b) = insert_all (metadata_file_signatures a) (metadata_file_signatures b)"
  "safe_symbols (codebase_extend a b) = fold List.insert (safe_symbols b) (safe_symbols a)"
  "safe_symbol_members (codebase_extend a b) = fold List.insert (safe_symbol_members b) (safe_symbol_members a)"
  "infer_types_from_usage (codebase_extend a b) = (infer_types_from_usage a \<or> infer_types_from_usage b)"
  "all_class_like_descendants (codebase_extend a b) = extend_sets (all_class_like_descendants a) (all_class_like_descendants b)"
  "direct_classlike_descendants (codebase_extend a b)
     = extend_sets (direct_classlike_descendants a) (direct_classlike_descendants b)"
  "patch_class_likes (codebase_extend a b)
     = merge_patches (\<lambda>_. True) duplicate_patch_class_diagnostic (patch_class_likes a) (patch_class_likes b)"
  "patch_function_likes (codebase_extend a b)
     = merge_patches (\<lambda>k. fst k = empty_word) duplicate_patch_function_diagnostic (patch_function_likes a) (patch_function_likes b)"
  "patch_constants (codebase_extend a b)
     = merge_patches (\<lambda>_. True) duplicate_patch_constant_diagnostic (patch_constants a) (patch_constants b)"
  by (simp_all add: codebase_extend_def Let_def merge_alias_declarations_put put_aliases_def mark_aliases_dirty_def
      merge_patch_class_likes_def merge_patch_function_likes_def merge_patch_constants_def extended_aliases_def)

section \<open>Merging\<close>

definition keys_distinct :: "codebase \<Rightarrow> bool" where
  "keys_distinct cb \<longleftrightarrow> distinct (map fst (class_likes cb)) \<and> distinct (map fst (function_likes cb))
     \<and> distinct (map fst (codebase_constants cb))"

abbreviation merged :: "codebase list \<Rightarrow> codebase" where
  "merged parts \<equiv> foldl codebase_extend codebase_new parts"

lemma merged_maps:
  "class_likes (foldl codebase_extend cb parts) = foldl merge_declarations (class_likes cb) (map class_likes parts)"
  "function_likes (foldl codebase_extend cb parts) = foldl merge_function_likes (function_likes cb) (map function_likes parts)"
  "codebase_constants (foldl codebase_extend cb parts)
     = foldl merge_declarations (codebase_constants cb) (map codebase_constants parts)"
  "codebase_symbols (foldl codebase_extend cb parts) = foldl symbols_extend (codebase_symbols cb) (map codebase_symbols parts)"
  by (induction parts arbitrary: cb) simp_all

lemma foldl_merge_function_likes: "foldl merge_function_likes m ms = foldl merge_declarations m ms"
  by (induction ms arbitrary: m) (simp_all add: merge_function_likes_def)

lemma codebase_new_maps [simp]:
  "class_likes codebase_new = []" "function_likes codebase_new = []" "codebase_constants codebase_new = []"
  "codebase_symbols codebase_new = symbols_new" "alias_declarations codebase_new = []"
  "class_like_aliases codebase_new = []"
  by (simp_all add: codebase_new_def)

text \<open>
  Merging the metadata of files one after the other gives, for every class-like, function and
  constant, the declaration that comes first in the order of the source (user code, patches,
  external code, built-in code, the rest; then concrete declarations before polyfills; then the
  smaller span), available in the versions in which any of the declarations is.
\<close>

theorem merge_keeps_best:
  assumes "\<forall>p\<in>set parts. keys_distinct p"
  shows "best_of (declared_in (map class_likes parts) n) (map_of (class_likes (merged parts)) n)
    \<and> best_of (declared_in (map function_likes parts) fn) (map_of (function_likes (merged parts)) fn)
    \<and> best_of (declared_in (map codebase_constants parts) n) (map_of (codebase_constants (merged parts)) n)"
proof -
  have "\<forall>m\<in>set (map class_likes parts). distinct (map fst m)"
    "\<forall>m\<in>set (map function_likes parts). distinct (map fst m)"
    "\<forall>m\<in>set (map codebase_constants parts). distinct (map fst m)"
    using assms by (auto simp: keys_distinct_def)
  from this[THEN best_of_fold] show ?thesis by (simp add: merged_maps foldl_merge_function_likes)
qed

definition sample_span :: "file_id \<Rightarrow> span" where
  "sample_span f = span_new f (Position 0) (Position 9)"

definition sample_function :: "file_id \<Rightarrow> metadata_flags \<Rightarrow> version_constraint \<Rightarrow> function_like_metadata" where
  "sample_function f fl c = \<lparr>metadata_span = sample_span f, metadata_flags = fl, version_constraint = c,
     metadata_issues = [], function_like_name = byte_string ''f''\<rparr>"

definition sample_part :: "function_like_metadata \<Rightarrow> codebase" where
  "sample_part md = codebase_new\<lparr>function_likes := [((empty_word, byte_string ''f''), md)]\<rparr>"

theorem merge_keeps_best_witness:
  "\<exists>m. map_of (function_likes (merged
        [sample_part (sample_function 1 flags_empty (push_since unconstrained PHP80)),
         sample_part (sample_function 2 USER_DEFINED (push_since unconstrained PHP82))])) (empty_word, byte_string ''f'') = Some m
     \<and> metadata_flags m = USER_DEFINED \<and> allows_version (version_constraint m) PHP81"
proof -
  define a where "a = sample_function 1 flags_empty (push_since unconstrained PHP80)"
  define b where "b = sample_function 2 USER_DEFINED (push_since unconstrained PHP82)"
  have "\<forall>p\<in>set [sample_part a, sample_part b]. keys_distinct p"
    by (simp add: keys_distinct_def sample_part_def)
  from merge_keeps_best[OF this, THEN conjunct2, THEN conjunct1, of "(empty_word, byte_string ''f'')"]
  have "best_of (declared_in [function_likes (sample_part a), function_likes (sample_part b)] (empty_word, byte_string ''f''))
      (map_of (function_likes (merged [sample_part a, sample_part b])) (empty_word, byte_string ''f''))"
    by (simp only: list.map)
  moreover have "declared_in [function_likes (sample_part a), function_likes (sample_part b)] (empty_word, byte_string ''f'') = {a, b}"
    by (auto simp: declared_in_def sample_part_def)
  ultimately have best: "best_of {a, b} (map_of (function_likes (merged [sample_part a, sample_part b])) (empty_word, byte_string ''f''))"
    by (simp only:)
  then obtain m where m: "map_of (function_likes (merged [sample_part a, sample_part b])) (empty_word, byte_string ''f'') = Some m"
    by (auto simp: best_of_def split: option.splits)
  obtain d where d: "d \<in> {a, b}" "same_entry m d" "entry_rank d \<le> entry_rank b"
    "allows_version (version_constraint m) PHP81 \<longleftrightarrow> (\<exists>d\<in>{a, b}. allows_version (version_constraint d) PHP81)"
    using best unfolding m best_of_def option.case by blast
  have "\<not> entry_rank a \<le> entry_rank b" unfolding a_def b_def by code_simp
  then have "d = b" using d(1,3) by auto
  then have "metadata_flags m = USER_DEFINED" using d(2) by (auto elim!: same_entryE simp: b_def sample_function_def)
  moreover have "allows_version (version_constraint a) PHP81" unfolding a_def by code_simp
  ultimately show ?thesis using d(4) m unfolding a_def b_def by blast
qed

text \<open>Two entries that the rest of the program cannot tell apart: the same but for the way the availability is written.\<close>

definition same_declaration :: "'a symbol_metadata_scheme option \<Rightarrow> 'a symbol_metadata_scheme option \<Rightarrow> bool" where
  "same_declaration a b \<longleftrightarrow> rel_option (\<lambda>a b. same_entry a b
     \<and> (\<forall>w. allows_version (version_constraint a) w = allows_version (version_constraint b) w)) a b"

definition no_ties :: "'a symbol_metadata_scheme set \<Rightarrow> bool" where
  "no_ties D \<longleftrightarrow> (\<forall>d\<in>D. \<forall>d'\<in>D. entry_rank d = entry_rank d' \<longrightarrow> same_entry d d')"

lemma same_entry_sym: "same_entry a b \<Longrightarrow> same_entry b a"
  by (erule same_entryE) (simp add: same_entry_def)

lemma best_of_unique:
  assumes "best_of D r" "best_of D r'" "no_ties D"
  shows "same_declaration r r'"
proof (cases r)
  case None
  then have "r' = None" using assms(1,2) by (auto simp: best_of_def split: option.splits)
  then show ?thesis using None by (simp add: same_declaration_def)
next
  case (Some m)
  obtain m' where m': "r' = Some m'" using assms(1,2) Some by (auto simp: best_of_def split: option.splits)
  obtain d where d: "d \<in> D" "same_entry m d" "\<forall>x\<in>D. entry_rank d \<le> entry_rank x"
    and av: "\<forall>w. allows_version (version_constraint m) w = (\<exists>d\<in>D. allows_version (version_constraint d) w)"
    using assms(1) unfolding Some best_of_def option.case by blast
  obtain d' where d': "d' \<in> D" "same_entry m' d'" "\<forall>x\<in>D. entry_rank d' \<le> entry_rank x"
    and av': "\<forall>w. allows_version (version_constraint m') w = (\<exists>d\<in>D. allows_version (version_constraint d) w)"
    using assms(2) unfolding m' best_of_def option.case by blast
  have "entry_rank d = entry_rank d'" using d d' by (simp add: order_antisym)
  then have "same_entry d d'" using assms(3) d(1) d'(1) unfolding no_ties_def by blast
  then have "same_entry m m'" using d(2) d'(2) same_entry_trans same_entry_sym by blast
  then show ?thesis using av av' by (simp add: same_declaration_def Some m')
qed

lemma no_ties_pair:
  assumes "entry_rank a \<noteq> entry_rank b" "D \<subseteq> {a, b}"
  shows "no_ties D"
  unfolding no_ties_def
proof (intro ballI impI)
  fix d d' assume d: "d \<in> D" "d' \<in> D" "entry_rank d = entry_rank d'"
  have "d = a \<or> d = b" "d' = a \<or> d' = b" using d(1,2) assms(2) by blast+
  then have "d = d'" using d(3) assms(1) by (elim disjE) (simp_all only:)
  then show "same_entry d d'" by simp
qed

lemma fold_same_declaration:
  assumes "\<forall>m\<in>set ms. distinct (map fst m)" "set ms' = set ms" "no_ties (declared_in ms k)"
  shows "same_declaration (map_of (foldl merge_declarations [] ms) k) (map_of (foldl merge_declarations [] ms') k)"
proof (rule best_of_unique[OF _ _ assms(3)])
  show "best_of (declared_in ms k) (map_of (foldl merge_declarations [] ms) k)" by (rule best_of_fold[OF assms(1)])
  have "declared_in ms' k = declared_in ms k" by (simp add: declared_in_def assms(2))
  then show "best_of (declared_in ms k) (map_of (foldl merge_declarations [] ms') k)"
    using best_of_fold[of ms' k] assms(1,2) by simp
qed

text \<open>
  C11. Files merged in any order give the same class-likes, functions and constants, unless two
  different ones tie: the same origin and the same span. The table of symbols is not among them, since
  it keeps the kind that was merged first (\<open>kinds_depend_on_order\<close>).
\<close>

theorem merge_in_any_order:
  assumes "\<forall>p\<in>set parts. keys_distinct p" "set parts' = set parts"
    "\<forall>n. no_ties (declared_in (map class_likes parts) n)" "\<forall>n. no_ties (declared_in (map function_likes parts) n)"
    "\<forall>n. no_ties (declared_in (map codebase_constants parts) n)"
  shows "same_declaration (map_of (class_likes (merged parts)) n) (map_of (class_likes (merged parts')) n)
    \<and> same_declaration (map_of (function_likes (merged parts)) fn) (map_of (function_likes (merged parts')) fn)
    \<and> same_declaration (map_of (codebase_constants (merged parts)) n) (map_of (codebase_constants (merged parts')) n)"
proof -
  have c: "\<forall>m\<in>set (map class_likes parts). distinct (map fst m)"
    "\<forall>m\<in>set (map function_likes parts). distinct (map fst m)"
    "\<forall>m\<in>set (map codebase_constants parts). distinct (map fst m)"
    using assms(1) by (auto simp: keys_distinct_def)
  have "set (map class_likes parts') = set (map class_likes parts)"
    "set (map function_likes parts') = set (map function_likes parts)"
    "set (map codebase_constants parts') = set (map codebase_constants parts)"
    using assms(2) by simp_all
  note fold_same_declaration[OF c(1) this(1) assms(3)[THEN spec]] fold_same_declaration[OF c(2) this(2) assms(4)[THEN spec]]
    fold_same_declaration[OF c(3) this(3) assms(5)[THEN spec]]
  then show ?thesis by (simp only: merged_maps codebase_new_maps foldl_merge_function_likes)
qed

theorem merge_in_any_order_witness:
  "same_declaration
     (map_of (function_likes (merged
        [sample_part (sample_function 1 flags_empty (push_since unconstrained PHP80)),
         sample_part (sample_function 2 USER_DEFINED (push_since unconstrained PHP82))])) (empty_word, byte_string ''f''))
     (map_of (function_likes (merged
        [sample_part (sample_function 2 USER_DEFINED (push_since unconstrained PHP82)),
         sample_part (sample_function 1 flags_empty (push_since unconstrained PHP80))])) (empty_word, byte_string ''f''))"
proof -
  define a where "a = sample_function 1 flags_empty (push_since unconstrained PHP80)"
  define b where "b = sample_function 2 USER_DEFINED (push_since unconstrained PHP82)"
  have keys: "\<forall>p\<in>set [sample_part a, sample_part b]. keys_distinct p"
    by (simp add: keys_distinct_def sample_part_def)
  have sets: "set [sample_part b, sample_part a] = set [sample_part a, sample_part b]" by auto
  have "entry_rank a \<noteq> entry_rank b" unfolding a_def b_def by code_simp
  moreover have "declared_in (map function_likes [sample_part a, sample_part b]) n \<subseteq> {a, b}" for n
    by (auto simp: declared_in_def sample_part_def split: if_splits)
  ultimately have ties: "\<forall>n. no_ties (declared_in (map function_likes [sample_part a, sample_part b]) n)"
    by (intro allI no_ties_pair)
  have "\<forall>n. no_ties (declared_in (map class_likes [sample_part a, sample_part b]) n)"
    "\<forall>n. no_ties (declared_in (map codebase_constants [sample_part a, sample_part b]) n)"
    by (simp_all add: no_ties_def declared_in_def sample_part_def)
  from merge_in_any_order[OF keys sets this(1) ties this(2)] show ?thesis unfolding a_def b_def by blast
qed

section \<open>Merging in parallel\<close>

definition unshared :: "codebase \<Rightarrow> codebase" where
  "unshared cb = cb\<lparr>function_likes := [], codebase_symbols := symbols_new\<rparr>"

lemma unshared_fields [simp]:
  "function_likes (unshared cb) = []" "codebase_symbols (unshared cb) = symbols_new"
  "class_likes (unshared cb) = class_likes cb"
  "codebase_constants (unshared cb) = codebase_constants cb"
  "class_like_aliases (unshared cb) = class_like_aliases cb"
  "alias_declarations (unshared cb) = alias_declarations cb"
  "aliases_dirty (unshared cb) = aliases_dirty cb"
  "metadata_file_signatures (unshared cb) = metadata_file_signatures cb"
  "safe_symbols (unshared cb) = safe_symbols cb"
  "safe_symbol_members (unshared cb) = safe_symbol_members cb"
  "infer_types_from_usage (unshared cb) = infer_types_from_usage cb"
  "all_class_like_descendants (unshared cb) = all_class_like_descendants cb"
  "direct_classlike_descendants (unshared cb) = direct_classlike_descendants cb"
  "patch_class_likes (unshared cb) = patch_class_likes cb"
  "patch_function_likes (unshared cb) = patch_function_likes cb"
  "patch_constants (unshared cb) = patch_constants cb"
  by (simp_all add: unshared_def)

lemma symbols_extend_new: "symbols_extend symbols_new symbols_new = symbols_new"
  by (simp add: symbols_extend_def symbols_new_def)

lemma alias_fields:
  "alias_declarations (codebase_extend a b) = fst (extended_aliases a b)"
  "aliases_dirty (codebase_extend a b) = snd (extended_aliases a b)"
  using codebase_extend_fields(6)[of a b] by (metis fst_conv, metis snd_conv)

lemma unshared_extend: "codebase_extend (unshared a) (unshared b) = unshared (codebase_extend a b)"
proof -
  have "extended_aliases (unshared a) (unshared b) = extended_aliases a b" by (simp add: extended_aliases_def)
  then show ?thesis
    by (intro codebase.equality) (simp_all add: alias_fields merge_function_likes_def symbols_extend_new)
qed

lemma unshared_foldl: "foldl codebase_extend (unshared cb) (map unshared parts) = unshared (foldl codebase_extend cb parts)"
  by (induction parts arbitrary: cb) (simp_all add: unshared_extend)

text \<open>
  C27. Whatever the number of files and threads, the merge that takes functions and symbols out of the
  parts and merges them on their own gives the codebase of the merge file by file.
\<close>

theorem parallel_merge_sequential:
  "extend_many_parallel threads self others = foldl codebase_extend self others"
proof (cases "length others < 128 \<or> threads = 1")
  case False
  define seq where "seq = foldl codebase_extend self others"
  have "foldl codebase_extend (self\<lparr>function_likes := [], codebase_symbols := symbols_new\<rparr>)
      (map (\<lambda>other. other\<lparr>function_likes := [], codebase_symbols := symbols_new\<rparr>) others) = unshared seq"
    using unshared_foldl[of self others] unfolding seq_def unshared_def .
  moreover have "(unshared seq)\<lparr>function_likes := function_likes seq, codebase_symbols := codebase_symbols seq\<rparr> = seq"
    by (simp add: unshared_def)
  ultimately show ?thesis using False unfolding extend_many_parallel_def
    by (simp add: Let_def seq_def merged_maps)
qed (simp add: extend_many_parallel_def)

section \<open>The table of kinds\<close>

lemma map_of_or_insert_all:
  "map_of (or_insert_all es m) k = (case map_of m k of Some v \<Rightarrow> Some v | None \<Rightarrow> map_of es k)"
  by (induction es m rule: or_insert_all.induct) (auto simp: update_conv' split: option.splits)

lemma get_kind_extend:
  "get_kind (symbols_extend a b) n = (case get_kind a n of Some k \<Rightarrow> Some k | None \<Rightarrow> get_kind b n)"
  by (simp add: get_kind_def symbols_extend_def map_of_or_insert_all split: option.split)

definition sample_class :: "file_id \<Rightarrow> symbol_kind \<Rightarrow> metadata_flags \<Rightarrow> class_like_metadata" where
  "sample_class f kind fl = \<lparr>metadata_span = sample_span f, metadata_flags = fl, version_constraint = unconstrained,
     metadata_issues = [], class_like_name = byte_string ''c'', original_name = byte_string ''C'',
     class_like_kind = kind, class_aliases = [], direct_parent_class = None, direct_parent_interfaces = [],
     all_parent_classes = [], all_parent_interfaces = [], used_traits = [], require_extends = [],
     require_implements = [], imported_type_aliases = [], child_class_likes = None\<rparr>"

definition class_part :: "class_like_metadata \<Rightarrow> codebase" where
  "class_part md = codebase_new\<lparr>class_likes := [(class_like_name md, md)],
     codebase_symbols := add_symbol_name symbols_new (class_like_name md) (class_like_kind md)\<rparr>"

text \<open>
  The table of kinds keeps the first kind of a name while the table of declarations keeps the best
  declaration: for an interface of a dependency and a class of the same name in user code the two
  tables disagree, and whether they do depends on the order of the files.
\<close>

theorem kinds_depend_on_order:
  "(let lib = class_part (sample_class 1 Interface flags_empty);
        user = class_part (sample_class 2 Class USER_DEFINED);
        c = byte_string ''c''
    in map_option class_like_kind (map_of (class_likes (merged [lib, user])) c) = Some Class
     \<and> get_kind (codebase_symbols (merged [lib, user])) c = Some Interface
     \<and> map_option class_like_kind (map_of (class_likes (merged [user, lib])) c) = Some Class
     \<and> get_kind (codebase_symbols (merged [user, lib])) c = Some Class)"
  by code_simp

section \<open>Removing a file\<close>

lemma matching_spans_owned:
  "matching_spans (map (\<lambda>(k, md). (k, metadata_span md)) own) m = owned_keys own m"
  by (simp add: matching_spans_def owned_keys_def filter_map comp_def case_prod_unfold cong: option.case_cong)

lemma into_owned_is_extract: "into_owned_keys (entry_spans part) cb = extract_owned_keys part cb"
proof -
  have "filter (\<lambda>(al, _, sp). case map_of ds al of None \<Rightarrow> False | Some (_, merged_span, _) \<Rightarrow> merged_span = sp)
      (map (\<lambda>(al, t, sp, fl). (al, t, sp)) own)
    = map (\<lambda>(al, t, sp, _). (al, t, sp))
        (filter (\<lambda>(al, _, sp, _). case map_of ds al of None \<Rightarrow> False | Some (_, merged_span, _) \<Rightarrow> merged_span = sp) own)"
    for ds :: "(bytes, bytes \<times> span \<times> metadata_flags) hash_map" and own :: "(bytes, bytes \<times> span \<times> metadata_flags) hash_map"
    by (induction own) auto
  then show ?thesis
    by (simp add: into_owned_keys_def extract_owned_keys_def entry_spans_def matching_spans_owned
        class_like_alias_declarations_def)
qed

lemma map_of_remove_all: "map_of (remove_all ks m) k = (if k \<in> set ks then None else map_of m k)"
  unfolding remove_all_def by (induction ks arbitrary: m) (auto simp: delete_conv')

lemma owned_keys_iff:
  "k \<in> set (owned_keys own m) \<longleftrightarrow> (\<exists>md v. (k, md) \<in> set own \<and> map_of m k = Some v \<and> metadata_span v = metadata_span md)"
  by (auto simp: owned_keys_def image_iff split: option.splits)

lemma fold_remove_aliases:
  "fold (\<lambda>(al, _) cb. cb\<lparr>alias_declarations := AList.delete al (alias_declarations cb), aliases_dirty := True\<rparr>) as cb
     = cb\<lparr>alias_declarations := remove_all (map fst as) (alias_declarations cb), aliases_dirty := (aliases_dirty cb \<or> as \<noteq> [])\<rparr>"
  by (induction as arbitrary: cb) (auto simp: remove_all_def)

lemma remove_entries_fields [simp]:
  "class_likes (remove_entries_by_keys cb keys) = remove_all (key_class_like_names keys) (class_likes cb)"
  "function_likes (remove_entries_by_keys cb keys) = remove_all (key_function_like_keys keys) (function_likes cb)"
  "codebase_constants (remove_entries_by_keys cb keys) = remove_all (key_constant_names keys) (codebase_constants cb)"
  "class_like_aliases (remove_entries_by_keys cb keys) = class_like_aliases cb"
  "alias_declarations (remove_entries_by_keys cb keys)
     = remove_all (map fst (key_class_like_aliases keys)) (alias_declarations cb)"
  "aliases_dirty (remove_entries_by_keys cb keys) \<longleftrightarrow> aliases_dirty cb
     \<or> key_class_like_names keys \<noteq> [] \<and> alias_declarations cb \<noteq> [] \<or> key_class_like_aliases keys \<noteq> []"
  by (simp_all add: remove_entries_by_keys_def Let_def fold_remove_aliases mark_aliases_dirty_def)

text \<open>What one file declares stands in that file.\<close>

definition all_in_file :: "file_id \<Rightarrow> codebase \<Rightarrow> bool" where
  "all_in_file f cb \<longleftrightarrow> keys_distinct cb
     \<and> (\<forall>n md. map_of (class_likes cb) n = Some md \<longrightarrow> span_file_id (metadata_span md) = f)
     \<and> (\<forall>n md. map_of (function_likes cb) n = Some md \<longrightarrow> span_file_id (metadata_span md) = f)
     \<and> (\<forall>n md. map_of (codebase_constants cb) n = Some md \<longrightarrow> span_file_id (metadata_span md) = f)"

definition outside :: "file_id \<Rightarrow> 'a symbol_metadata_scheme option \<Rightarrow> 'a symbol_metadata_scheme option" where
  "outside f r = (case r of Some m \<Rightarrow> if span_file_id (metadata_span m) = f then None else Some m | None \<Rightarrow> None)"

text \<open>Removing the owned keys of one map, for a map merged from the maps of files.\<close>

lemma remove_owned:
  assumes files: "distinct (map fst ps)" "(f, part) \<in> set ps"
    and own: "\<forall>(g, p)\<in>set ps. distinct (map fst (h p))
      \<and> (\<forall>n md. map_of (h p) n = Some md \<longrightarrow> span_file_id (metadata_span md) = g)"
    and best: "best_of (declared_in (map h (map snd ps)) n) (map_of m n)"
  shows "map_of (remove_all (owned_keys (h part) m) m) n = outside f (map_of m n)"
proof (cases "map_of m n")
  case None
  then show ?thesis by (simp add: map_of_remove_all outside_def)
next
  case (Some v)
  obtain d where d: "d \<in> declared_in (map h (map snd ps)) n" "same_entry v d"
    using best unfolding Some best_of_def option.case by blast
  then obtain g p where p: "(g, p) \<in> set ps" "map_of (h p) n = Some d" by (auto simp: declared_in_def)
  have span: "metadata_span v = metadata_span d" using d(2) by (auto elim: same_entryE)
  have g: "span_file_id (metadata_span d) = g" using own p by fastforce
  have dist: "distinct (map fst (h part))" using own files(2) by fastforce
  have "n \<in> set (owned_keys (h part) m) \<longleftrightarrow> g = f"
  proof
    assume "n \<in> set (owned_keys (h part) m)"
    then obtain md where md: "(n, md) \<in> set (h part)" "metadata_span v = metadata_span md"
      by (auto simp: owned_keys_iff Some)
    have "map_of (h part) n = Some md" by (rule map_of_is_SomeI[OF dist md(1)])
    then have "span_file_id (metadata_span md) = f" using own files(2) by fastforce
    then show "g = f" using span g md(2) by simp
  next
    assume "g = f"
    then have "p = part" using eq_key_imp_eq_value[OF files(1)] files(2) p(1) by blast
    then show "n \<in> set (owned_keys (h part) m)"
      using p(2) Some span map_of_SomeD[of "h part" n d] by (auto simp: owned_keys_iff)
  qed
  then show ?thesis using span g by (simp add: map_of_remove_all outside_def Some)
qed

text \<open>
  C36. Removing a file from the merged codebase by the keys it owns removes exactly the entries that
  stand in this file: the declarations of all other files that won the merge stay as they are.
\<close>

theorem file_removal_exact:
  assumes "\<forall>(g, p)\<in>set ps. all_in_file g p" "distinct (map fst ps)" "(f, part) \<in> set ps"
    "cb = merged (map snd ps)" "cb' = remove_entries_by_keys cb (into_owned_keys (entry_spans part) cb)"
  shows "map_of (class_likes cb') n = outside f (map_of (class_likes cb) n)
    \<and> map_of (function_likes cb') fn = outside f (map_of (function_likes cb) fn)
    \<and> map_of (codebase_constants cb') n = outside f (map_of (codebase_constants cb) n)"
proof -
  have dist: "\<forall>p\<in>set (map snd ps). keys_distinct p" using assms(1) by (auto simp: all_in_file_def)
  note best = merge_keeps_best[OF dist, folded assms(4)]
  have "\<forall>(g, p)\<in>set ps. distinct (map fst (class_likes p))
      \<and> (\<forall>n md. map_of (class_likes p) n = Some md \<longrightarrow> span_file_id (metadata_span md) = g)"
    "\<forall>(g, p)\<in>set ps. distinct (map fst (function_likes p))
      \<and> (\<forall>n md. map_of (function_likes p) n = Some md \<longrightarrow> span_file_id (metadata_span md) = g)"
    "\<forall>(g, p)\<in>set ps. distinct (map fst (codebase_constants p))
      \<and> (\<forall>n md. map_of (codebase_constants p) n = Some md \<longrightarrow> span_file_id (metadata_span md) = g)"
    using assms(1) by (auto simp: all_in_file_def keys_distinct_def)
  note this[THEN remove_owned[OF assms(2,3)]]
  from this(1)[OF best[THEN conjunct1]] this(2)[OF best[THEN conjunct2, THEN conjunct1]]
    this(3)[OF best[THEN conjunct2, THEN conjunct2]]
  show ?thesis unfolding assms(5) into_owned_is_extract by (simp add: extract_owned_keys_def)
qed

theorem file_removal_exact_witness:
  "(let a = sample_part (sample_function 1 flags_empty unconstrained);
        b = sample_part (sample_function 2 USER_DEFINED unconstrained);
        cb = merged [a, b]; k = (empty_word, byte_string ''f'')
    in map_of (function_likes (remove_entries_by_keys cb (into_owned_keys (entry_spans a) cb))) k
         = Some (sample_function 2 USER_DEFINED unconstrained)
     \<and> map_of (function_likes (remove_entries_by_keys cb (into_owned_keys (entry_spans b) cb))) k = None)"
proof -
  define x where "x = sample_function 1 flags_empty unconstrained"
  define y where "y = sample_function 2 USER_DEFINED unconstrained"
  define cb where "cb = merged (map snd [(1 :: file_id, sample_part x), (2, sample_part y)])"
  let ?k = "(empty_word, byte_string ''f'')"
  have sp: "span_file_id (metadata_span x) = 1" "span_file_id (metadata_span y) = 2"
    by (simp_all add: x_def y_def sample_function_def sample_span_def span_new_def)
  have files: "\<forall>(g, p)\<in>set [(1 :: file_id, sample_part x), (2, sample_part y)]. all_in_file g p"
    using sp by (auto simp: all_in_file_def keys_distinct_def sample_part_def split: if_splits)
  have dist: "distinct (map fst [(1 :: file_id, sample_part x), (2, sample_part y)])" by simp
  have "should_replace_metadata (metadata_flags x) (metadata_span x) (metadata_flags y) (metadata_span y)"
    unfolding x_def y_def by code_simp
  moreover have "version_constraint x = unconstrained" "version_constraint y = unconstrained"
    by (simp_all add: x_def y_def sample_function_def)
  ultimately have "settle x y = y"
    by (simp add: settle_def absorb_constraint_def constraint_merge_def is_unconstrained_def unconstrained_def)
  then have win: "map_of (function_likes cb) ?k = Some y"
    by (simp add: cb_def merged_maps merge_function_likes_def sample_part_def)
  have out: "outside 1 (Some y) = Some y" "outside 2 (Some y) = None" by (simp_all add: outside_def sp)
  have mem: "(1, sample_part x) \<in> set [(1 :: file_id, sample_part x), (2, sample_part y)]"
    "(2, sample_part y) \<in> set [(1 :: file_id, sample_part x), (2, sample_part y)]" by simp_all
  have "map_of (function_likes (remove_entries_by_keys cb (into_owned_keys (entry_spans (sample_part x)) cb))) ?k = Some y"
    unfolding file_removal_exact[OF files dist mem(1) cb_def refl, THEN conjunct2, THEN conjunct1] win by (rule out(1))
  moreover have "map_of (function_likes (remove_entries_by_keys cb (into_owned_keys (entry_spans (sample_part y)) cb))) ?k = None"
    unfolding file_removal_exact[OF files dist mem(2) cb_def refl, THEN conjunct2, THEN conjunct1] win by (rule out(2))
  ultimately show ?thesis unfolding Let_def cb_def x_def y_def list.map snd_conv by (rule conjI)
qed

end
