(* ===== verification/Codebase_Aliases.thy ===== *)
theory Codebase_Aliases
  imports Codebase_Merge
begin

text \<open>
  The aliases of classes: a name stands for the class that its chain of alias declarations leads
  to. The table of aliases is exact whenever it is not marked dirty, through every operation on a
  codebase; chains may be cyclic, and the bound of the search, the number of declarations, is
  enough for every chain.
\<close>

section \<open>What a name stands for\<close>

inductive leads_to :: "codebase \<Rightarrow> nat \<Rightarrow> bytes \<Rightarrow> bytes \<Rightarrow> bool" for cb where
  here: "map_of (class_likes cb) c \<noteq> None \<Longrightarrow> leads_to cb 0 c c"
| step: "map_of (class_likes cb) a = None \<Longrightarrow> map_of (alias_declarations cb) a = Some (t, d)
    \<Longrightarrow> leads_to cb n t c \<Longrightarrow> leads_to cb (Suc n) a c"

definition names_class :: "codebase \<Rightarrow> bytes \<Rightarrow> bytes \<Rightarrow> bool" where
  "names_class cb a c \<longleftrightarrow> (\<exists>n. leads_to cb n a c)"

inductive_simps leads_to_unfold: "leads_to cb n a c"

lemma leads_to_at_class:
  "map_of (class_likes cb) a \<noteq> None \<Longrightarrow> leads_to cb n a c \<longleftrightarrow> n = 0 \<and> c = a"
  by (subst leads_to_unfold) auto

lemma leads_to_at_alias:
  "map_of (class_likes cb) a = None \<Longrightarrow> leads_to cb n a c
     \<longleftrightarrow> (\<exists>m t d. n = Suc m \<and> map_of (alias_declarations cb) a = Some (t, d) \<and> leads_to cb m t c)"
  by (subst leads_to_unfold) auto

lemma leads_to_deterministic: "leads_to cb n a c \<Longrightarrow> leads_to cb m a c' \<Longrightarrow> n = m \<and> c = c'"
proof (induction n a c arbitrary: m c' rule: leads_to.induct)
  case (here c)
  then show ?case by (simp add: leads_to_at_class)
next
  case (step a t d n c)
  then obtain k where "m = Suc k" "leads_to cb k t c'" by (auto simp: leads_to_at_alias)
  then show ?case using step.IH by blast
qed

lemma leads_to_class: "leads_to cb n a c \<Longrightarrow> map_of (class_likes cb) c \<noteq> None"
  by (induction rule: leads_to.induct) simp_all

text \<open>A chain passes each of its names once, so it is not longer than the declarations.\<close>

lemma leads_to_names:
  "leads_to cb n a c \<Longrightarrow> \<exists>S \<subseteq> fst ` set (alias_declarations cb). card S = n \<and> finite S
     \<and> (\<forall>y\<in>S. \<exists>m x. 0 < m \<and> m \<le> n \<and> leads_to cb m y x)"
proof (induction rule: leads_to.induct)
  case (here c)
  then show ?case by (intro exI[of _ "{}"]) simp
next
  case (step a t d n c)
  then obtain S where S: "S \<subseteq> fst ` set (alias_declarations cb)" "card S = n" "finite S"
    "\<forall>y\<in>S. \<exists>m x. 0 < m \<and> m \<le> n \<and> leads_to cb m y x" by blast
  have a: "leads_to cb (Suc n) a c" by (rule leads_to.step[OF step.hyps])
  have "a \<notin> S"
  proof
    assume "a \<in> S"
    then obtain m x where "m \<le> n" "leads_to cb m a x" using S(4) by blast
    then show False using leads_to_deterministic[OF a] by fastforce
  qed
  moreover have "a \<in> fst ` set (alias_declarations cb)" using map_of_SomeD[OF step.hyps(2)] by force
  moreover have "\<forall>y\<in>insert a S. \<exists>m x. 0 < m \<and> m \<le> Suc n \<and> leads_to cb m y x"
    using S(4) a le_SucI by blast
  ultimately show ?case using S by (intro exI[of _ "insert a S"]) simp
qed

lemma leads_to_bound: "leads_to cb n a c \<Longrightarrow> n \<le> length (alias_declarations cb)"
  using leads_to_names by (metis List.finite_set card_length card_mono finite_imageI length_map list.set_map order_trans)

lemma follow_alias_iff: "follow_alias cb k a = Some c \<longleftrightarrow> (\<exists>n<k. leads_to cb n a c)"
proof (induction k arbitrary: a)
  case (Suc k)
  show ?case
  proof (cases "map_of (class_likes cb) a")
    case None
    have "(\<exists>n<Suc k. leads_to cb n a c) \<longleftrightarrow> (\<exists>t d. map_of (alias_declarations cb) a = Some (t, d) \<and> (\<exists>n<k. leads_to cb n t c))"
      unfolding leads_to_at_alias[OF None] by (auto simp: less_Suc_eq_0_disj)
    then show ?thesis using None by (auto simp: Suc.IH split: option.splits)
  next
    case (Some md)
    then have "leads_to cb 0 a a" by (intro leads_to.here) simp
    then have "(\<exists>n<Suc k. leads_to cb n a c) \<longleftrightarrow> c = a" using leads_to_deterministic by blast
    then show ?thesis using Some by auto
  qed
qed simp

lemma resolve_declaration_iff:
  assumes "map_of (class_likes cb) a = None"
  shows "resolve_class_like_alias_declaration cb a = Some c \<longleftrightarrow> names_class cb a c"
proof
  assume "resolve_class_like_alias_declaration cb a = Some c"
  then obtain t d where "map_of (alias_declarations cb) a = Some (t, d)"
    "follow_alias cb (length (alias_declarations cb)) t = Some c"
    by (auto simp: resolve_class_like_alias_declaration_def split: option.splits)
  then show "names_class cb a c"
    unfolding follow_alias_iff names_class_def using leads_to.step[OF assms] by blast
next
  assume "names_class cb a c"
  then obtain n where n: "leads_to cb n a c" by (auto simp: names_class_def)
  then obtain t d m where t: "map_of (alias_declarations cb) a = Some (t, d)" "n = Suc m" "leads_to cb m t c"
    unfolding leads_to_at_alias[OF assms] by blast
  then have "m < length (alias_declarations cb)" using leads_to_bound[OF n] by simp
  then have "\<exists>m<length (alias_declarations cb). leads_to cb m t c" using t(3) by blast
  then show "resolve_class_like_alias_declaration cb a = Some c"
    by (simp add: resolve_class_like_alias_declaration_def t(1) follow_alias_iff)
qed

lemma names_class_self: "map_of (class_likes cb) a \<noteq> None \<Longrightarrow> names_class cb a c \<longleftrightarrow> c = a"
  unfolding names_class_def using leads_to.here leads_to_deterministic by blast

section \<open>The table\<close>

definition alias_of :: "codebase \<Rightarrow> bytes \<Rightarrow> bytes option" where
  "alias_of cb a = (if map_of (class_likes cb) a \<noteq> None then None else resolve_class_like_alias_declaration cb a)"

lemma alias_of_iff: "alias_of cb a = Some c \<longleftrightarrow> map_of (class_likes cb) a = None \<and> names_class cb a c"
  by (simp add: alias_of_def resolve_declaration_iff)

definition table_current :: "codebase \<Rightarrow> bool" where
  "table_current cb \<longleftrightarrow> map_of (class_like_aliases cb) = alias_of cb"

lemma resolve_declarations_map:
  "map_of (resolve_declarations cb ds acc) a
     = (if a \<in> fst ` set ds \<and> alias_of cb a \<noteq> None then alias_of cb a else map_of acc a)"
proof (induction cb ds acc rule: resolve_declarations.induct)
  case (2 self al x ds aliases)
  then show ?case by (auto simp: alias_of_def update_conv' split: option.splits)
qed simp

lemma resolve_declarations_distinct:
  "distinct (map fst acc) \<Longrightarrow> distinct (map fst (resolve_declarations cb ds acc))"
  by (induction cb ds acc rule: resolve_declarations.induct) (auto simp: distinct_update split: option.splits)

lemma alias_of_declared: "a \<notin> fst ` set (alias_declarations cb) \<Longrightarrow> alias_of cb a = None"
  using map_of_eq_None_iff[of "alias_declarations cb" a]
  by (simp add: alias_of_def resolve_class_like_alias_declaration_def)

lemma resolved_table: "map_of (resolve_declarations cb (alias_declarations cb) []) = alias_of cb"
  by (rule ext) (auto simp: resolve_declarations_map alias_of_declared)

section \<open>Populating the table\<close>

lemma follow_alias_cong:
  assumes "\<And>k. (map_of (class_likes a) k = None) = (map_of (class_likes b) k = None)"
    "alias_declarations a = alias_declarations b"
  shows "follow_alias a n x = follow_alias b n x"
proof (induction n arbitrary: x)
  case (Suc n)
  have "(map_of (class_likes a) x \<noteq> None) = (map_of (class_likes b) x \<noteq> None)" using assms(1) by simp
  then show ?case unfolding follow_alias.simps assms(2) using Suc.IH by (auto split: option.split)
qed simp

lemma alias_of_cong:
  assumes "\<And>k. (map_of (class_likes a) k = None) = (map_of (class_likes b) k = None)"
    "alias_declarations a = alias_declarations b"
  shows "alias_of a = alias_of b"
  using assms(1) unfolding alias_of_def resolve_class_like_alias_declaration_def assms(2) follow_alias_cong[OF assms]
  by (intro ext) simp

lemma get_kind_add: "get_kind (add_symbol_name sy n k) m = (if m = n then Some k else get_kind sy m)"
  by (simp add: get_kind_def add_symbol_name_def update_conv')

lemma attach_aliases_spec:
  "attach_aliases as classes aliased sy = (classes', aliased', sy') \<Longrightarrow>
     map_of classes' c = map_option (\<lambda>md. md\<lparr>class_aliases := class_aliases md @ map fst (filter (\<lambda>(_, x). x = c) as)\<rparr>) (map_of classes c)
   \<and> set aliased' = set aliased \<union> {x. x \<in> snd ` set as \<and> map_of classes x \<noteq> None}
   \<and> (distinct (map fst as) \<longrightarrow> get_kind sy' a =
        (case map_of as a of None \<Rightarrow> get_kind sy a
         | Some x \<Rightarrow> (case map_of classes x of None \<Rightarrow> get_kind sy a | Some md \<Rightarrow> Some (class_like_kind md))))"
proof (induction as classes aliased sy rule: attach_aliases.induct)
  case (1 classes aliased sy)
  then show ?case by (cases "map_of classes c") auto
next
  case (2 al actual as classes aliased sy)
  show ?case
  proof (cases "map_of classes actual")
    case None
    then have "attach_aliases as classes aliased sy = (classes', aliased', sy')" using 2(3) by simp
    note IH = 2(1)[OF None this]
    have "al \<notin> fst ` set as" if "distinct (map fst ((al, actual) # as))" using that by simp
    then have "map_of as al = None" if "distinct (map fst ((al, actual) # as))" using that by (simp add: map_of_eq_None_iff)
    then show ?thesis using IH None by (cases "map_of classes c") (auto split: option.split)
  next
    case (Some md)
    let ?classes = "AList.update actual (md\<lparr>class_aliases := class_aliases md @ [al]\<rparr>) classes"
    have "attach_aliases as ?classes (List.insert actual aliased) (add_symbol_name sy al (class_like_kind md))
        = (classes', aliased', sy')" using 2(3) Some by simp
    note IH = 2(2)[OF Some this]
    have upd: "map_of ?classes x = (if x = actual then Some (md\<lparr>class_aliases := class_aliases md @ [al]\<rparr>) else map_of classes x)" for x
      by (simp add: update_conv')
    have c1: "map_of classes' c = map_option (\<lambda>md. md\<lparr>class_aliases := class_aliases md @ map fst (filter (\<lambda>(_, x). x = c) ((al, actual) # as))\<rparr>) (map_of classes c)"
      using IH[THEN conjunct1] Some by (cases "map_of classes c") (auto simp: upd)
    have c2: "set aliased' = set aliased \<union> {x. x \<in> snd ` set ((al, actual) # as) \<and> map_of classes x \<noteq> None}"
      using IH[THEN conjunct2, THEN conjunct1] Some by (auto simp: upd)
    have c3: "get_kind sy' a =
        (case map_of ((al, actual) # as) a of None \<Rightarrow> get_kind sy a
         | Some x \<Rightarrow> (case map_of classes x of None \<Rightarrow> get_kind sy a | Some md \<Rightarrow> Some (class_like_kind md)))"
      if d: "distinct (map fst ((al, actual) # as))"
    proof -
      have al: "map_of as al = None" using d by (simp add: map_of_eq_None_iff)
      have "get_kind sy' a = (case map_of as a of None \<Rightarrow> get_kind (add_symbol_name sy al (class_like_kind md)) a
         | Some x \<Rightarrow> (case map_of ?classes x of None \<Rightarrow> get_kind (add_symbol_name sy al (class_like_kind md)) a
             | Some md \<Rightarrow> Some (class_like_kind md)))"
        using IH[THEN conjunct2, THEN conjunct2] d by simp
      then show ?thesis using al Some by (cases "a = al"; cases "map_of as a") (auto simp: upd get_kind_add split: option.split)
    qed
    show ?thesis using c1 c2 c3 by blast
  qed
qed

lemma map_of_change_at: "map_of (change_at k f m) x = (if x = k then map_option f (map_of m k) else map_of m x)"
  by (auto simp: change_at_def update_conv' split: option.split)

lemma map_of_change_all:
  assumes "\<And>v. f (f v) = f v"
  shows "map_of (fold (\<lambda>k. change_at k f) ks m) x = (if x \<in> set ks then map_option f (map_of m x) else map_of m x)"
proof (induction ks arbitrary: m)
  case (Cons k ks)
  then show ?case by (cases "map_of m x") (auto simp: map_of_change_at assms)
qed simp

definition sorted_aliases :: "codebase \<Rightarrow> bytes \<Rightarrow> bytes list" where
  "sorted_aliases cb c = sort (map fst (filter (\<lambda>(_, x). x = c) (resolve_declarations cb (alias_declarations cb) [])))"

lemma get_kind_remove: "get_kind (symbols_remove sy n) m = (if m = n then None else get_kind sy m)"
  by (simp add: get_kind_def symbols_remove_def delete_conv')

lemma get_kind_restore:
  "get_kind (restore_symbols cb) a
     = (if a \<notin> fst ` set (class_like_aliases cb) then get_kind (codebase_symbols cb) a
        else map_option class_like_kind (map_of (class_likes cb) a))"
proof -
  have "get_kind (fold (\<lambda>(al, _) sy. case map_of m al of
             Some md \<Rightarrow> add_symbol_name sy al (class_like_kind md) | None \<Rightarrow> symbols_remove sy al) as sy) a
     = (if a \<notin> fst ` set as then get_kind sy a else map_option class_like_kind (map_of m a))"
    for as :: "(bytes, bytes) hash_map" and sy and m :: "(bytes, class_like_metadata) hash_map"
    by (induction as arbitrary: sy)
       (auto simp: get_kind_add get_kind_remove split: option.split)
  then show ?thesis by (simp add: restore_symbols_def)
qed

lemma populate_dirty:
  assumes "aliases_dirty cb"
  defines "cb' \<equiv> fst (populate_class_like_aliases cb)"
  shows "class_like_aliases cb' = resolve_declarations cb (alias_declarations cb) []"
    "alias_declarations cb' = alias_declarations cb" "\<not> aliases_dirty cb'"
    "map_of (class_likes cb') c = map_option (\<lambda>md. md\<lparr>class_aliases := sorted_aliases cb c\<rparr>) (map_of (class_likes cb) c)"
    "get_kind (codebase_symbols cb') a = (case alias_of cb a of
        None \<Rightarrow> get_kind (restore_symbols cb) a
      | Some x \<Rightarrow> map_option class_like_kind (map_of (class_likes cb) x))"
    "snd (populate_class_like_aliases cb)
       = (\<not> hash_map_eq (resolve_declarations cb (alias_declarations cb) []) (class_like_aliases cb))"
proof -
  define T where "T = resolve_declarations cb (alias_declarations cb) []"
  define cls where "cls = map (\<lambda>(k, md). (k, md\<lparr>class_aliases := []\<rparr>)) (class_likes cb)"
  obtain cl al sy where att: "attach_aliases T cls [] (restore_symbols cb) = (cl, al, sy)" by (metis prod_cases3)
  note spec = attach_aliases_spec[OF att]
  have pop: "populate_class_like_aliases cb =
      (cb\<lparr>class_likes := fold (\<lambda>actual. change_at actual (\<lambda>md. md\<lparr>class_aliases := sort (class_aliases md)\<rparr>)) al cl,
         class_like_aliases := T, codebase_symbols := sy, aliases_dirty := False\<rparr>, \<not> hash_map_eq T (class_like_aliases cb))"
    unfolding populate_class_like_aliases_def using assms(1) att by (simp add: Let_def T_def cls_def)
  show "class_like_aliases cb' = resolve_declarations cb (alias_declarations cb) []"
    "alias_declarations cb' = alias_declarations cb" "\<not> aliases_dirty cb'"
    by (simp_all add: cb'_def pop T_def)
  have idem: "md\<lparr>class_aliases := sort (class_aliases md)\<rparr>\<lparr>class_aliases :=
      sort (class_aliases (md\<lparr>class_aliases := sort (class_aliases md)\<rparr>))\<rparr>
    = md\<lparr>class_aliases := sort (class_aliases md)\<rparr>" for md :: class_like_metadata
    by (simp add: sorted_sort_id)
  note sorting = map_of_change_all[where f = "\<lambda>md :: class_like_metadata. md\<lparr>class_aliases := sort (class_aliases md)\<rparr>", OF idem]
  have clsmap: "map_of cls x = map_option (\<lambda>md. md\<lparr>class_aliases := []\<rparr>) (map_of (class_likes cb) x)" for x
    by (simp add: cls_def map_of_map)
  show "map_of (class_likes cb') c = map_option (\<lambda>md. md\<lparr>class_aliases := sorted_aliases cb c\<rparr>) (map_of (class_likes cb) c)"
  proof (cases "map_of (class_likes cb) c")
    case None
    then show ?thesis using spec[of c] by (simp add: cb'_def pop sorting clsmap)
  next
    case (Some md)
    let ?l = "map fst (filter (\<lambda>(_, x). x = c) T)"
    have at: "map_of cl c = Some (md\<lparr>class_aliases := ?l\<rparr>)" using spec[of c] Some by (simp add: clsmap)
    have "sort ?l = ?l" if "c \<notin> set al"
    proof -
      have "c \<notin> snd ` set T" using that spec[of c] Some by (auto simp: clsmap)
      then have "filter (\<lambda>(_, x). x = c) T = []" by (force simp: filter_empty_conv)
      then show ?thesis by simp
    qed
    then show ?thesis using at Some by (simp add: cb'_def pop sorting sorted_aliases_def T_def[symmetric])
  qed
  have dist: "distinct (map fst T)" unfolding T_def by (rule resolve_declarations_distinct) simp
  have T: "map_of T = alias_of cb" unfolding T_def by (rule resolved_table)
  have kind: "get_kind sy a = (case alias_of cb a of None \<Rightarrow> get_kind (restore_symbols cb) a
       | Some x \<Rightarrow> (case map_of cls x of None \<Rightarrow> get_kind (restore_symbols cb) a | Some md \<Rightarrow> Some (class_like_kind md)))"
    using spec[of _ a, THEN conjunct2, THEN conjunct2] dist unfolding T by blast
  have "map_of (class_likes cb) x \<noteq> None" if "alias_of cb a = Some x" for x
    using that leads_to_class by (auto simp: alias_of_iff names_class_def)
  then show "get_kind (codebase_symbols cb') a = (case alias_of cb a of
        None \<Rightarrow> get_kind (restore_symbols cb) a
      | Some x \<Rightarrow> map_option class_like_kind (map_of (class_likes cb) x))"
    unfolding cb'_def pop using kind by (auto simp: clsmap split: option.split)
  show "snd (populate_class_like_aliases cb)
       = (\<not> hash_map_eq (resolve_declarations cb (alias_declarations cb) []) (class_like_aliases cb))"
    by (simp add: pop T_def)
qed

lemma set_sorted_aliases: "set (sorted_aliases cb c) = {a. alias_of cb a = Some c}"
proof -
  have dist: "distinct (map fst (resolve_declarations cb (alias_declarations cb) []))"
    by (rule resolve_declarations_distinct) simp
  have "(a, c) \<in> set (resolve_declarations cb (alias_declarations cb) []) \<longleftrightarrow> alias_of cb a = Some c" for a
    using map_of_eq_Some_iff[OF dist, of a c] by (simp add: resolved_table)
  then show ?thesis by (force simp: sorted_aliases_def)
qed

lemma distinct_sorted_aliases: "distinct (sorted_aliases cb c) \<and> sorted (sorted_aliases cb c)"
proof -
  have "distinct (map fst (resolve_declarations cb (alias_declarations cb) []))"
    by (rule resolve_declarations_distinct) simp
  then show ?thesis by (simp add: sorted_aliases_def distinct_map_filter)
qed

text \<open>
  Populating a dirty table: every class lists, in order, exactly the other names that stand for it,
  every such name gets the kind of its class in the table of kinds, and nothing else of the classes
  changes.
\<close>

theorem populate_lists_aliases:
  assumes "aliases_dirty cb" "map_of (class_likes cb) c = Some md"
  shows "\<exists>as. map_of (class_likes (fst (populate_class_like_aliases cb))) c = Some (md\<lparr>class_aliases := as\<rparr>)
     \<and> sorted as \<and> distinct as \<and> set as = {a. a \<notin> fst ` set (class_likes cb) \<and> names_class cb a c}
     \<and> (\<forall>a\<in>set as. get_kind (codebase_symbols (fst (populate_class_like_aliases cb))) a = Some (class_like_kind md))"
proof (intro exI conjI)
  show "map_of (class_likes (fst (populate_class_like_aliases cb))) c = Some (md\<lparr>class_aliases := sorted_aliases cb c\<rparr>)"
    by (simp add: populate_dirty(4)[OF assms(1)] assms(2))
  show "sorted (sorted_aliases cb c)" "distinct (sorted_aliases cb c)" using distinct_sorted_aliases by blast+
  show "set (sorted_aliases cb c) = {a. a \<notin> fst ` set (class_likes cb) \<and> names_class cb a c}"
    by (simp add: set_sorted_aliases alias_of_iff map_of_eq_None_iff)
  show "\<forall>a\<in>set (sorted_aliases cb c). get_kind (codebase_symbols (fst (populate_class_like_aliases cb))) a = Some (class_like_kind md)"
    by (simp add: set_sorted_aliases populate_dirty(5)[OF assms(1)] assms(2))
qed

definition alias_sample :: codebase where
  "alias_sample = (let md = sample_class 1 Class flags_empty;
     sp = sample_span 1
   in add_class_like_alias (add_class_like_alias (add_class_like_alias (class_part md)
        (byte_string ''b'') (byte_string ''c'') sp flags_empty)
        (byte_string ''a'') (byte_string ''b'') sp flags_empty)
        (byte_string ''x'') (byte_string ''x'') sp flags_empty)"

theorem populate_lists_aliases_witness:
  "\<exists>md. map_of (class_likes (fst (populate_class_like_aliases alias_sample))) (byte_string ''c'') = Some md
     \<and> set (class_aliases md) = {byte_string ''a'', byte_string ''b''}"
proof -
  have dirty: "aliases_dirty alias_sample" by code_simp
  have c: "map_of (class_likes alias_sample) (byte_string ''c'') = Some (sample_class 1 Class flags_empty)"
    by (simp add: alias_sample_def Let_def add_class_like_alias_put put_aliases_def class_part_def sample_class_def)
  from populate_lists_aliases[OF dirty c] obtain as where
    as: "map_of (class_likes (fst (populate_class_like_aliases alias_sample))) (byte_string ''c'')
        = Some (sample_class 1 Class flags_empty\<lparr>class_aliases := as\<rparr>)"
      "set as = {a. a \<notin> fst ` set (class_likes alias_sample) \<and> names_class alias_sample a (byte_string ''c'')}"
    by blast
  have dom: "fst ` set (class_likes alias_sample) = {byte_string ''c''}"
    by (simp add: alias_sample_def Let_def add_class_like_alias_put put_aliases_def class_part_def sample_class_def)
  have decls: "fst ` set (alias_declarations alias_sample) = {byte_string ''a'', byte_string ''b'', byte_string ''x''}"
    by (simp add: alias_sample_def Let_def add_class_like_alias_put put_aliases_def class_part_def insert_commute)
  have r: "alias_of alias_sample (byte_string ''a'') = Some (byte_string ''c'')"
    "alias_of alias_sample (byte_string ''b'') = Some (byte_string ''c'')"
    "alias_of alias_sample (byte_string ''x'') = None" by code_simp+
  have "set as = {a. alias_of alias_sample a = Some (byte_string ''c'')}"
    unfolding as(2) alias_of_iff by (simp add: map_of_eq_None_iff)
  also have "\<dots> = {byte_string ''a'', byte_string ''b''}"
    using r alias_of_declared[of _ alias_sample] unfolding decls by (auto; metis option.distinct(1) insertE singletonD)
  finally show ?thesis using as(1) by auto
qed

section \<open>The table stays exact\<close>

text \<open>
  The states of a codebase: a scanned file, whose table is empty and marked when it declares an
  alias, and everything the operations make of it. Other work on class-likes keeps their names.
\<close>

inductive reachable :: "codebase \<Rightarrow> bool" where
  scanned: "class_like_aliases cb = [] \<Longrightarrow> (alias_declarations cb \<noteq> [] \<longrightarrow> aliases_dirty cb) \<Longrightarrow> reachable cb"
| declared: "reachable cb \<Longrightarrow> reachable (add_class_like_alias cb al t sp fl)"
| extended: "reachable cb \<Longrightarrow> reachable (codebase_extend cb other)"
| removed: "reachable cb \<Longrightarrow> reachable (remove_entries_by_keys cb keys)"
| to_patch: "reachable cb \<Longrightarrow> reachable (convert_partial_to_patch cb)"
| populated: "reachable cb \<Longrightarrow> reachable (fst (populate_class_like_aliases cb))"
| taken: "reachable cb \<Longrightarrow> reachable (fst (codebase_take_issues cb user_defined))"

definition table_ok :: "codebase \<Rightarrow> bool" where
  "table_ok cb \<longleftrightarrow> distinct (map fst (class_like_aliases cb)) \<and> (\<not> aliases_dirty cb \<longrightarrow> table_current cb)"

lemma alias_of_no_declarations: "alias_declarations cb = [] \<Longrightarrow> alias_of cb = (\<lambda>_. None)"
  by (rule ext) (simp add: alias_of_def resolve_class_like_alias_declaration_def)

text \<open>An operation that leaves the mark clean changes neither the declarations nor, when there are any, the names of the classes.\<close>

lemma table_ok_step:
  assumes "table_ok cb" "class_like_aliases cb' = class_like_aliases cb"
    "\<not> aliases_dirty cb' \<Longrightarrow> \<not> aliases_dirty cb \<and> alias_declarations cb' = alias_declarations cb"
    "\<not> aliases_dirty cb' \<Longrightarrow> alias_declarations cb \<noteq> [] \<Longrightarrow>
       \<forall>k. (map_of (class_likes cb') k = None) = (map_of (class_likes cb) k = None)"
  shows "table_ok cb'"
proof -
  have "alias_of cb' = alias_of cb" if "\<not> aliases_dirty cb'"
  proof (cases "alias_declarations cb = []")
    case True
    then show ?thesis using assms(3)[OF that] by (simp add: alias_of_no_declarations)
  next
    case False
    have "(map_of (class_likes cb') k = None) = (map_of (class_likes cb) k = None)" for k
      using assms(4)[OF that False] by blast
    then show ?thesis using assms(3)[OF that] by (intro alias_of_cong) auto
  qed
  then show ?thesis using assms(1,2,3) by (simp add: table_ok_def table_current_def)
qed

lemma declare_alias_cases:
  "declare_alias (ds, dirty) d = (ds, dirty) \<or> snd (declare_alias (ds, dirty) d)"
  "map_of ds (fst d) = None \<Longrightarrow> snd (declare_alias (ds, dirty) d)"
  by (cases d; simp split: option.split)+

lemma declare_aliases_clean:
  "\<not> snd (foldl declare_alias (ds, dirty) as) \<Longrightarrow>
     foldl declare_alias (ds, dirty) as = (ds, dirty) \<and> (ds = [] \<longrightarrow> as = [])"
proof (induction as arbitrary: ds dirty)
  case (Cons a as)
  obtain ds' dirty' where d: "declare_alias (ds, dirty) a = (ds', dirty')" by (cases "declare_alias (ds, dirty) a")
  have "foldl declare_alias (ds', dirty') as = (ds', dirty')" using Cons.IH[of ds' dirty'] Cons.prems d by simp
  moreover have "\<not> dirty'" using Cons.prems d calculation by simp
  then have "declare_alias (ds, dirty) a = (ds, dirty)" "ds \<noteq> []"
    using declare_alias_cases(1)[of ds dirty a] declare_alias_cases(2)[of "[]" a dirty] d by auto
  ultimately show ?case using d by simp
qed simp

lemma declare_alias_mark: "dirty \<Longrightarrow> snd (declare_alias (ds, dirty) d)"
  by (cases d) simp

lemma declare_aliases_mark: "dirty \<Longrightarrow> snd (foldl declare_alias (ds, dirty) as)"
proof (induction as arbitrary: ds dirty)
  case (Cons a as)
  obtain ds' dirty' where d: "declare_alias (ds, dirty) a = (ds', dirty')" by (cases "declare_alias (ds, dirty) a")
  then have dirty' using declare_alias_mark[OF Cons.prems, of ds a] by simp
  then show ?case using Cons.IH[of dirty' ds'] d by simp
qed simp

lemma table_ok_declared: "table_ok cb \<Longrightarrow> table_ok (add_class_like_alias cb al t sp fl)"
proof (erule table_ok_step)
  let ?d = "declare_alias (alias_state cb) (al, t, sp, fl)"
  show "class_like_aliases (add_class_like_alias cb al t sp fl) = class_like_aliases cb"
    by (simp add: add_class_like_alias_put put_aliases_def)
  show "\<not> aliases_dirty (add_class_like_alias cb al t sp fl) \<Longrightarrow>
      \<not> aliases_dirty cb \<and> alias_declarations (add_class_like_alias cb al t sp fl) = alias_declarations cb"
    using declare_alias_cases(1)[of "alias_declarations cb" "aliases_dirty cb" "(al, t, sp, fl)"]
      declare_alias_mark[of "aliases_dirty cb" "alias_declarations cb" "(al, t, sp, fl)"]
    by (auto simp: add_class_like_alias_put put_aliases_def)
  show "\<forall>k. (map_of (class_likes (add_class_like_alias cb al t sp fl)) k = None) = (map_of (class_likes cb) k = None)"
    by (simp add: add_class_like_alias_put put_aliases_def)
qed

lemma extended_aliases_clean:
  assumes "\<not> snd (extended_aliases a b)"
  shows "fst (extended_aliases a b) = alias_declarations a" "\<not> aliases_dirty a"
    "alias_declarations a \<noteq> [] \<Longrightarrow> class_likes b = []"
proof -
  let ?m = "aliases_dirty a \<or> class_likes b \<noteq> [] \<and> alias_declarations a \<noteq> []"
  have m: "\<not> ?m" using assms unfolding extended_aliases_def by (rule contrapos_nn) (rule declare_aliases_mark)
  then show "\<not> aliases_dirty a" "alias_declarations a \<noteq> [] \<Longrightarrow> class_likes b = []" by auto
  show "fst (extended_aliases a b) = alias_declarations a"
    using declare_aliases_clean[of "alias_declarations a" ?m "alias_declarations b"] assms
    unfolding extended_aliases_def by auto
qed

lemma table_ok_extended: "table_ok cb \<Longrightarrow> table_ok (codebase_extend cb other)"
proof (erule table_ok_step)
  assume clean: "\<not> aliases_dirty (codebase_extend cb other)"
  then have c: "\<not> snd (extended_aliases cb other)" by (simp add: alias_fields)
  show "\<not> aliases_dirty cb \<and> alias_declarations (codebase_extend cb other) = alias_declarations cb"
    using extended_aliases_clean(1,2)[OF c] by (simp add: alias_fields)
  assume "alias_declarations cb \<noteq> []"
  then show "\<forall>k. (map_of (class_likes (codebase_extend cb other)) k = None) = (map_of (class_likes cb) k = None)"
    using extended_aliases_clean(3)[OF c] by simp
qed simp

lemma table_ok_removed: "table_ok cb \<Longrightarrow> table_ok (remove_entries_by_keys cb keys)"
proof (erule table_ok_step)
  assume "\<not> aliases_dirty (remove_entries_by_keys cb keys)"
  then have c: "\<not> aliases_dirty cb" "key_class_like_aliases keys = []"
    "key_class_like_names keys = [] \<or> alias_declarations cb = []"
    unfolding remove_entries_fields by blast+
  show "\<not> aliases_dirty cb \<and> alias_declarations (remove_entries_by_keys cb keys) = alias_declarations cb"
    using c by (simp add: remove_all_def)
  assume "alias_declarations cb \<noteq> []"
  then have "key_class_like_names keys = []" using c(3) by blast
  then show "\<forall>k. (map_of (class_likes (remove_entries_by_keys cb keys)) k = None) = (map_of (class_likes cb) k = None)"
    by (simp add: remove_all_def)
qed simp

lemma hash_map_eq_iff:
  assumes "distinct (map fst a)" "distinct (map fst b)"
  shows "hash_map_eq a b \<longleftrightarrow> map_of a = map_of b"
proof
  assume h: "hash_map_eq a b"
  have sub: "map_of a \<subseteq>\<^sub>m map_of b"
    using h map_of_SomeD unfolding hash_map_eq_def map_le_def list_all_iff by fastforce
  have "card (dom (map_of a)) = length a" "card (dom (map_of b)) = length b"
    using assms distinct_card[of "map fst a"] distinct_card[of "map fst b"] by (simp_all add: dom_map_of_conv_image_fst)
  then have "dom (map_of a) = dom (map_of b)"
    using h map_le_implies_dom_le[OF sub] by (simp add: hash_map_eq_def card_subset_eq finite_dom_map_of)
  then show "map_of a = map_of b" using sub by (metis map_le_antisym map_le_def)
next
  assume m: "map_of a = map_of b"
  have "dom (map_of a) = dom (map_of b)" using m by simp
  then have "length a = length b"
    using assms distinct_card[of "map fst a"] distinct_card[of "map fst b"] by (simp add: dom_map_of_conv_image_fst)
  moreover have "list_all (\<lambda>(k, v). map_of b k = Some v) a"
    using map_of_is_SomeI[OF assms(1)] m by (auto simp: list_all_iff)
  ultimately show "hash_map_eq a b" by (simp add: hash_map_eq_def)
qed

lemma table_ok_populated:
  assumes "table_ok cb"
  shows "table_ok (fst (populate_class_like_aliases cb))"
proof (cases "aliases_dirty cb")
  case False
  then show ?thesis using assms by (simp add: populate_class_like_aliases_def)
next
  case True
  note p = populate_dirty[OF True]
  have "alias_of (fst (populate_class_like_aliases cb)) = alias_of cb"
    by (rule alias_of_cong) (simp_all add: p(2,4))
  then have "table_current (fst (populate_class_like_aliases cb))"
    by (simp add: table_current_def p(1) resolved_table)
  then show ?thesis by (simp add: table_ok_def p(1) resolve_declarations_distinct)
qed

lemma table_ok_taken: "table_ok cb \<Longrightarrow> table_ok (fst (codebase_take_issues cb user_defined))"
proof (erule table_ok_step)
  let ?cb = "fst (codebase_take_issues cb user_defined)"
  have cls: "class_likes ?cb = fst (take_entry_issues user_defined (class_likes cb))"
    by (simp add: codebase_take_issues_def case_prod_unfold Let_def)
  have "map fst (class_likes ?cb) = map fst (class_likes cb)"
    unfolding cls by (simp add: take_entry_issues_def comp_def case_prod_unfold)
  then have "fst ` set (class_likes ?cb) = fst ` set (class_likes cb)" by (metis list.set_map)
  then show "\<forall>k. (map_of (class_likes ?cb) k = None) = (map_of (class_likes cb) k = None)"
    by (simp add: map_of_eq_None_iff)
qed (simp_all add: codebase_take_issues_def case_prod_unfold Let_def)

lemma table_ok_patch: "table_ok (convert_partial_to_patch cb)"
  by (simp add: table_ok_def convert_partial_to_patch_def table_current_def fun_eq_iff alias_of_no_declarations)

lemma table_ok_scanned:
  "class_like_aliases cb = [] \<Longrightarrow> (alias_declarations cb \<noteq> [] \<longrightarrow> aliases_dirty cb) \<Longrightarrow> table_ok cb"
  by (auto simp: table_ok_def table_current_def fun_eq_iff alias_of_no_declarations)

lemma reachable_table_ok: "reachable cb \<Longrightarrow> table_ok cb"
  by (induction rule: reachable.induct)
     (simp_all add: table_ok_scanned table_ok_declared table_ok_extended table_ok_removed table_ok_patch
       table_ok_populated table_ok_taken)

text \<open>
  C18. Whenever the table is not marked dirty, after any sequence of operations, a name resolves to the
  class it stands for: itself, or the class at the end of its chain of alias declarations; cyclic
  and dangling chains resolve to nothing.
\<close>

theorem alias_table_exact:
  assumes "reachable cb" "\<not> aliases_dirty cb"
  shows "(resolve_class_like_word cb name = Some c \<longleftrightarrow> names_class cb name c)
    \<and> (get_class_like_by_word cb name = Some md
        \<longleftrightarrow> (\<exists>c. names_class cb name c \<and> map_of (class_likes cb) c = Some md))
    \<and> (names_class cb name c \<longrightarrow> (\<exists>n \<le> length (alias_declarations cb). leads_to cb n name c))"
proof -
  have T: "map_of (class_like_aliases cb) name = alias_of cb name"
    using reachable_table_ok[OF assms(1)] assms(2) by (simp add: table_ok_def table_current_def)
  have r: "resolve_class_like_word cb name = Some c \<longleftrightarrow> names_class cb name c" for c
  proof (cases "map_of (class_likes cb) name")
    case None
    then have "resolve_class_like_word cb name = alias_of cb name"
      using T by (auto simp: resolve_class_like_word_def)
    then show ?thesis using None by (simp add: alias_of_iff)
  next
    case (Some m)
    then show ?thesis by (auto simp: resolve_class_like_word_def names_class_self)
  qed
  have g: "get_class_like_by_word cb name = Option.bind (resolve_class_like_word cb name) (map_of (class_likes cb))"
    by (auto simp: get_class_like_by_word_def resolve_class_like_word_def split: option.split)
  have "get_class_like_by_word cb name = Some md
      \<longleftrightarrow> (\<exists>c. names_class cb name c \<and> map_of (class_likes cb) c = Some md)"
    unfolding g bind_eq_Some_conv r by blast
  moreover have "\<exists>n \<le> length (alias_declarations cb). leads_to cb n name c" if "names_class cb name c"
    using that leads_to_bound unfolding names_class_def by blast
  ultimately show ?thesis using r by blast
qed

theorem alias_table_exact_witness:
  "resolve_class_like_word (fst (populate_class_like_aliases alias_sample)) (byte_string ''a'') = Some (byte_string ''c'')
   \<and> names_class (fst (populate_class_like_aliases alias_sample)) (byte_string ''a'') (byte_string ''c'')
   \<and> \<not> names_class (fst (populate_class_like_aliases alias_sample)) (byte_string ''x'') (byte_string ''c'')"
proof -
  let ?cb = "fst (populate_class_like_aliases alias_sample)"
  have "reachable (class_part (sample_class 1 Class flags_empty))"
    by (rule scanned) (simp_all add: class_part_def)
  then have "reachable ?cb" unfolding alias_sample_def Let_def by (intro populated declared)
  moreover have "\<not> aliases_dirty ?cb" by code_simp
  ultimately have e: "resolve_class_like_word ?cb n = Some (byte_string ''c'') \<longleftrightarrow> names_class ?cb n (byte_string ''c'')" for n
    using alias_table_exact by blast
  have "resolve_class_like_word ?cb (byte_string ''a'') = Some (byte_string ''c'')"
    "resolve_class_like_word ?cb (byte_string ''x'') = None" by code_simp+
  then show ?thesis using e[of "byte_string ''a''"] e[of "byte_string ''x''"] by simp
qed

text \<open>
  The answer of populating says exactly whether some name stands for another class than before.
\<close>

theorem alias_change_reported:
  assumes "reachable cb"
  shows "snd (populate_class_like_aliases cb)
    \<longleftrightarrow> (\<exists>name. map_of (class_like_aliases (fst (populate_class_like_aliases cb))) name \<noteq> map_of (class_like_aliases cb) name)"
proof (cases "aliases_dirty cb")
  case False
  then show ?thesis by (simp add: populate_class_like_aliases_def)
next
  case True
  have "distinct (map fst (class_like_aliases cb))" using reachable_table_ok[OF assms] by (simp add: table_ok_def)
  then show ?thesis
    by (simp add: populate_dirty(1,6)[OF True] hash_map_eq_iff resolve_declarations_distinct fun_eq_iff)
qed

theorem alias_change_reported_witness:
  "snd (populate_class_like_aliases alias_sample)
   \<and> \<not> snd (populate_class_like_aliases (fst (populate_class_like_aliases alias_sample)\<lparr>aliases_dirty := True\<rparr>))
   \<and> (\<exists>name. map_of (class_like_aliases (fst (populate_class_like_aliases alias_sample))) name
        \<noteq> map_of (class_like_aliases alias_sample) name)"
proof -
  have "reachable (class_part (sample_class 1 Class flags_empty))"
    by (rule scanned) (simp_all add: class_part_def)
  then have "reachable alias_sample" unfolding alias_sample_def Let_def by (intro declared)
  note alias_change_reported[OF this]
  moreover have "snd (populate_class_like_aliases alias_sample)"
    "\<not> snd (populate_class_like_aliases (fst (populate_class_like_aliases alias_sample)\<lparr>aliases_dirty := True\<rparr>))"
    by code_simp+
  ultimately show ?thesis by blast
qed

end
