(* ===== verification/Class_Order.thy ===== *)
theory Class_Order
  imports Codebase
begin

text \<open>
  The order in which class-likes are populated (crate \<open>codex\<close>, \<open>populator/sorter.rs\<close>): a
  depth-first traversal of what they depend on. The traversal ends on every codebase, cyclic ones
  included, visits every class-like once, and puts a dependency first unless it depends back on
  the class-like itself.
\<close>

section \<open>Dependencies\<close>

text \<open>What a class-like depends on, in the order the source visits it (also \<open>hierarchy_dependencies\<close> of \<open>hierarchy.rs\<close>).\<close>

definition hierarchy_dependencies :: "class_like_metadata \<Rightarrow> bytes list" where
  "hierarchy_dependencies md =
     (case direct_parent_class md of None \<Rightarrow> [] | Some p \<Rightarrow> [p])
     @ used_traits md @ direct_parent_interfaces md @ require_extends md @ require_implements md
     @ map (\<lambda>(_, n, _). n) (imported_type_aliases md)"

definition dependency_to_repopulate :: "codebase \<Rightarrow> word_set \<Rightarrow> bytes \<Rightarrow> bytes option" where
  "dependency_to_repopulate cb todo dependency =
     (if dependency \<in> set todo then Some dependency
      else if class_like_aliases cb = [] \<or> map_of (class_likes cb) dependency \<noteq> None then None
      else case map_of (class_like_aliases cb) dependency of
             None \<Rightarrow> None
           | Some actual \<Rightarrow> if actual \<in> set todo then Some actual else None)"

definition visited_dependencies :: "codebase \<Rightarrow> word_set \<Rightarrow> bytes \<Rightarrow> bytes list" where
  "visited_dependencies cb todo c =
     (case map_of (class_likes cb) c of
        None \<Rightarrow> []
      | Some md \<Rightarrow> List.map_filter (dependency_to_repopulate cb todo) (hierarchy_dependencies md))"

lemma visited_dependencies_todo: "set (visited_dependencies cb todo c) \<subseteq> set todo"
  by (auto simp: visited_dependencies_def map_filter_def dependency_to_repopulate_def split: option.splits if_splits)

section \<open>The traversal\<close>

text \<open>
  The calls of \<open>visit\<close> on a list of class-likes, with the sets \<open>seen\<close> and \<open>sorted\<close> it changes; one
  call of \<open>visit\<close> is the call on a list of one.
\<close>

function visit_all :: "codebase \<Rightarrow> word_set \<Rightarrow> bytes list \<Rightarrow> bytes list \<Rightarrow> bytes list \<Rightarrow> bytes list \<times> bytes list" where
  "visit_all cb todo [] seen done = (seen, done)"
| "visit_all cb todo (c # cs) seen done =
     (if c \<in> set seen then visit_all cb todo cs seen done
      else case visit_all cb todo (visited_dependencies cb todo c) (c # seen) done of
             (seen', done') \<Rightarrow> visit_all cb todo cs seen' (done' @ [c]))"
  by pat_completeness auto

lemma visit_all_seen:
  "visit_all_dom (cb, todo, cs, seen, done) \<Longrightarrow> set seen \<subseteq> set (fst (visit_all cb todo cs seen done))"
  by (induction cb todo cs seen "done" rule: visit_all.pinduct)
     (force simp: visit_all.psimps split: prod.splits)+

lemma remaining_less:
  assumes "c \<notin> set seen" "set ds \<subseteq> set todo \<union> set cs" "set (c # seen) \<subseteq> set seen'"
  shows "card ((set todo \<union> set ds) - set seen') < card ((set todo \<union> set (c # cs)) - set seen)"
  by (rule psubset_card_mono) (use assms in auto)

termination visit_all
proof (relation "measures [\<lambda>(cb, todo, cs, seen, done). card ((set todo \<union> set cs) - set seen),
    \<lambda>(cb, todo, cs, seen, done). length cs]", goal_cases)
  case 1
  show ?case by simp
next
  case (2 cb todo c cs seen "done")
  have "card ((set todo \<union> set cs) - set seen) \<le> card ((set todo \<union> set (c # cs)) - set seen)"
    by (rule card_mono) auto
  then show ?case by auto
next
  case (3 cb todo c cs seen "done")
  then show ?case using remaining_less[of c seen "visited_dependencies cb todo c" todo cs "c # seen"]
      visited_dependencies_todo[of cb todo c] by auto
next
  case (4 cb todo c cs seen "done" seen' done')
  have "set (c # seen) \<subseteq> set seen'"
    using visit_all_seen[OF 4(3)] 4(2) by (metis fst_conv)
  then show ?case using remaining_less[of c seen cs todo cs seen'] 4(1) by simp
qed

declare visit_all.simps(2) [simp del]

definition visit :: "codebase \<Rightarrow> word_set \<Rightarrow> bytes \<Rightarrow> bytes list \<Rightarrow> bytes list \<Rightarrow> bytes list \<times> bytes list" where
  "visit cb todo c seen done = visit_all cb todo [c] seen done"

definition sort_class_likes :: "codebase \<Rightarrow> word_set \<Rightarrow> bytes list" where
  "sort_class_likes cb todo = snd (visit_all cb todo todo [] [])"

text \<open>A list of calls is the calls one after the other.\<close>

lemma visit_all_Cons:
  "visit_all cb todo (c # cs) seen done =
     (case visit cb todo c seen done of (seen', done') \<Rightarrow> visit_all cb todo cs seen' done')"
  by (simp add: visit_def visit_all.simps(2) split: prod.split)

section \<open>The order\<close>

definition depends :: "codebase \<Rightarrow> word_set \<Rightarrow> (bytes \<times> bytes) set" where
  "depends cb todo = {(c, d). d \<in> set (visited_dependencies cb todo c)}"

text \<open>Every element of the list comes after what it depends on, or after something that depends on it in turn.\<close>

definition in_order :: "codebase \<Rightarrow> word_set \<Rightarrow> bytes list \<Rightarrow> bool" where
  "in_order cb todo xs \<longleftrightarrow> (\<forall>ys c zs. xs = ys @ c # zs \<longrightarrow>
     (\<forall>d \<in> set (visited_dependencies cb todo c). d \<in> set ys \<or> (d, c) \<in> (depends cb todo)\<^sup>*))"

lemma in_order_snoc:
  "in_order cb todo (xs @ [c]) \<longleftrightarrow> in_order cb todo xs
     \<and> (\<forall>d \<in> set (visited_dependencies cb todo c). d \<in> set xs \<or> (d, c) \<in> (depends cb todo)\<^sup>*)"
proof -
  have split: "xs @ [c] = ys @ y # zs \<longleftrightarrow> (zs = [] \<and> ys = xs \<and> y = c) \<or> (\<exists>zs'. zs = zs' @ [c] \<and> xs = ys @ y # zs')"
    for ys y zs by (cases zs rule: rev_cases) auto
  show ?thesis unfolding in_order_def split by blast
qed

lemma visit_all_spec:
  assumes "visit_all cb todo cs seen done = (seen', done')"
    "distinct done" "set done \<subseteq> set seen" "in_order cb todo done"
    "\<forall>g \<in> set seen - set done. \<forall>c \<in> set cs. (g, c) \<in> (depends cb todo)\<^sup>*"
  shows "distinct done' \<and> set done' \<subseteq> set seen' \<and> set seen \<subseteq> set seen' \<and> set cs \<subseteq> set seen'
    \<and> set seen' \<subseteq> set seen \<union> set cs \<union> set todo \<and> set seen' - set done' = set seen - set done \<and> in_order cb todo done'"
  using assms
proof (induction cb todo cs seen "done" arbitrary: seen' done' rule: visit_all.induct)
  case (1 cb todo seen "done")
  then show ?case by simp
next
  case (2 cb todo c cs seen "done")
  show ?case
  proof (cases "c \<in> set seen")
    case True
    then have "visit_all cb todo cs seen done = (seen', done')" using 2(4) by (simp add: visit_all.simps(2))
    then show ?thesis using 2(1)[OF True _ 2(5,6,7)] 2(8) True by auto
  next
    case False
    let ?R = "(depends cb todo)\<^sup>*" and ?ds = "visited_dependencies cb todo c"
    obtain s1 d1 where v1: "visit_all cb todo ?ds (c # seen) done = (s1, d1)" by fastforce
    have v2: "visit_all cb todo cs s1 (d1 @ [c]) = (seen', done')"
      using 2(4) False v1 by (simp add: visit_all.simps(2))
    have edge: "(c, d) \<in> ?R" if "d \<in> set ?ds" for d using that by (auto simp: depends_def)
    have path: "(g, c) \<in> ?R" if "g \<in> set seen - set done" for g using 2(8) that by simp
    have pre: "\<forall>g \<in> set (c # seen) - set done. \<forall>d \<in> set ?ds. (g, d) \<in> ?R"
      using edge path by (auto intro: rtrancl_trans)
    have "set done \<subseteq> set (c # seen)" using 2(6) by auto
    note one = 2(2)[OF False v1 2(5) this 2(7) pre]
    have grey: "set s1 - set d1 = insert c (set seen - set done)"
      using one False 2(6) by auto
    then have c1: "c \<notin> set d1" by auto
    have "\<forall>d \<in> set ?ds. d \<in> set d1 \<or> (d, c) \<in> ?R"
    proof
      fix d assume "d \<in> set ?ds"
      then have "d \<in> set s1" using one by blast
      then have "d \<in> set d1 \<or> d = c \<or> d \<in> set seen - set done" using grey by blast
      then show "d \<in> set d1 \<or> (d, c) \<in> ?R" using path by blast
    qed
    then have ord: "in_order cb todo (d1 @ [c])" using one by (simp add: in_order_snoc)
    have "set s1 - set (d1 @ [c]) = set seen - set done" using grey False by auto
    moreover have "distinct (d1 @ [c])" "set (d1 @ [c]) \<subseteq> set s1" using one c1 by auto
    ultimately have two: "distinct done' \<and> set done' \<subseteq> set seen' \<and> set s1 \<subseteq> set seen' \<and> set cs \<subseteq> set seen'
        \<and> set seen' \<subseteq> set s1 \<union> set cs \<union> set todo \<and> set seen' - set done' = set s1 - set (d1 @ [c])
        \<and> in_order cb todo done'"
      using 2(3)[OF False v1[symmetric] v2] ord 2(8) by simp
    show ?thesis using one two \<open>set s1 - set (d1 @ [c]) = set seen - set done\<close> visited_dependencies_todo[of cb todo c]
      by auto
  qed
qed

lemma sort_class_likes_spec:
  "distinct (sort_class_likes cb todo)" "set (sort_class_likes cb todo) = set todo"
  "in_order cb todo (sort_class_likes cb todo)"
proof -
  obtain s d where v: "visit_all cb todo todo [] [] = (s, d)" by fastforce
  have "in_order cb todo []" by (simp add: in_order_def)
  note spec = visit_all_spec[OF v _ _ this]
  show "distinct (sort_class_likes cb todo)" "set (sort_class_likes cb todo) = set todo"
    "in_order cb todo (sort_class_likes cb todo)"
    using spec by (auto simp: sort_class_likes_def v)
qed

text \<open>
  C8. The traversal lists exactly the class-likes to populate, each once, on every codebase. Before a
  class-like stands everything it depends on, except what depends on it in turn; so without cyclic
  inheritance everything it depends on.
\<close>

theorem class_order_exact:
  "distinct (sort_class_likes cb todo) \<and> set (sort_class_likes cb todo) = set todo
   \<and> (sort_class_likes cb todo = xs @ c # ys \<and> d \<in> set (visited_dependencies cb todo c)
        \<longrightarrow> d \<in> set xs \<or> (d, c) \<in> (depends cb todo)\<^sup>*)
   \<and> (acyclic (depends cb todo) \<and> sort_class_likes cb todo = xs @ c # ys
        \<longrightarrow> set (visited_dependencies cb todo c) \<subseteq> set xs)"
proof -
  have ord: "d \<in> set xs \<or> (d, c) \<in> (depends cb todo)\<^sup>*"
    if "sort_class_likes cb todo = xs @ c # ys" "d \<in> set (visited_dependencies cb todo c)" for d
    using sort_class_likes_spec(3) that unfolding in_order_def by blast
  have "set (visited_dependencies cb todo c) \<subseteq> set xs"
    if "acyclic (depends cb todo)" "sort_class_likes cb todo = xs @ c # ys"
  proof
    fix d assume d: "d \<in> set (visited_dependencies cb todo c)"
    then have "(c, d) \<in> depends cb todo" by (simp add: depends_def)
    then have "(d, c) \<notin> (depends cb todo)\<^sup>*" using that(1) by (meson acyclic_def rtrancl_into_trancl2)
    then show "d \<in> set xs" using ord[OF that(2) d] by blast
  qed
  then show ?thesis using sort_class_likes_spec(1,2) ord by blast
qed

definition named_class :: "string \<Rightarrow> string option \<Rightarrow> string list \<Rightarrow> string list \<Rightarrow> class_like_metadata" where
  "named_class n p ts is = \<lparr>metadata_span = span_zero, metadata_flags = flags_empty, version_constraint = unconstrained,
     metadata_issues = [], class_like_name = byte_string n, original_name = byte_string n,
     class_like_kind = Class, class_aliases = [], direct_parent_class = map_option byte_string p,
     direct_parent_interfaces = map byte_string is, all_parent_classes = [], all_parent_interfaces = [],
     used_traits = map byte_string ts, require_extends = [], require_implements = [], imported_type_aliases = [],
     child_class_likes = None\<rparr>"

definition codebase_of :: "class_like_metadata list \<Rightarrow> (string \<times> string) list \<Rightarrow> codebase" where
  "codebase_of mds as = codebase_new\<lparr>class_likes := map (\<lambda>md. (class_like_name md, md)) mds,
     class_like_aliases := map (\<lambda>(a, c). (byte_string a, byte_string c)) as\<rparr>"

definition order_sample :: codebase where
  "order_sample = codebase_of [named_class ''a'' (Some ''alias'') [] [], named_class ''b'' None [''t''] [''missing''],
     named_class ''t'' None [] [], named_class ''x'' (Some ''y'') [] [], named_class ''y'' (Some ''x'') [] []] [(''alias'', ''b'')]"

theorem class_order_exact_witness:
  "(let todo = map byte_string [''a'', ''b'', ''t'', ''x'', ''y''] in
    sort_class_likes order_sample todo = map byte_string [''t'', ''b'', ''a'', ''y'', ''x'']
    \<and> (byte_string ''x'', byte_string ''y'') \<in> (depends order_sample todo)\<^sup>*)"
proof -
  let ?todo = "map byte_string [''a'', ''b'', ''t'', ''x'', ''y'']"
  have s: "sort_class_likes order_sample ?todo = map byte_string [''t'', ''b'', ''a'', ''y'', ''x'']" by code_simp
  then have split: "sort_class_likes order_sample ?todo
      = map byte_string [''t'', ''b'', ''a''] @ byte_string ''y'' # [byte_string ''x'']"
    by simp
  moreover have "byte_string ''x'' \<in> set (visited_dependencies order_sample ?todo (byte_string ''y''))" by code_simp
  ultimately have "byte_string ''x'' \<in> set (map byte_string [''t'', ''b'', ''a''])
      \<or> (byte_string ''x'', byte_string ''y'') \<in> (depends order_sample ?todo)\<^sup>*"
    using class_order_exact by blast
  then show ?thesis using s by (simp add: Let_def)
qed

end
