(* ===== verification/Class_Layers.thy ===== *)
theory Class_Layers
  imports Class_Order
begin

text \<open>
  The plan of the parallel population of class-likes (crate \<open>codex\<close>, \<open>populator/hierarchy.rs\<close>):
  the sorted class-likes are cut into segments whose class-likes are grouped in layers, populated
  one layer after the other; a class-like with a dependency that is not settled is populated on
  its own between two segments. What a segment and a single class-like make of the codebase are
  parameters. The lemmas show that the class-likes of one layer never depend on each other, and
  that every class-like is populated once.
\<close>

section \<open>Dependencies\<close>

text \<open>\<open>positions\<close>: a later entry of a name replaces an earlier one.\<close>

definition positions :: "bytes list \<Rightarrow> bytes \<Rightarrow> nat option" where
  "positions sorted_classes = map_of (rev (zip sorted_classes [0..<length sorted_classes]))"

type_synonym class_dependencies = "(bytes \<times> nat option) list option"

definition class_dependencies :: "codebase \<Rightarrow> (bytes \<Rightarrow> nat option) \<Rightarrow> bytes \<Rightarrow> class_dependencies" where
  "class_dependencies cb pos name =
     (case map_of (class_likes cb) name of
        None \<Rightarrow> None
      | Some md \<Rightarrow>
          if class_like_name md \<noteq> name then None
          else
            let trait_requirements = concat (map require_implements
                  (List.map_filter (get_class_like_by_word cb) (used_traits md)));
                inherited_requirements = concat (map all_parent_interfaces
                  (List.map_filter (get_class_like_by_word cb) (require_extends md)))
            in Some (map (\<lambda>d. (d, pos d))
                 (List.map_filter (resolve_class_like_word cb)
                   (hierarchy_dependencies md @ trait_requirements @ inherited_requirements))))"

section \<open>The plan\<close>

text \<open>The test of the dependencies of the class-like at \<open>index\<close>, with the level it raises on the way.\<close>

fun dependency_level :: "word_set \<Rightarrow> nat list \<Rightarrow> nat \<Rightarrow> nat \<Rightarrow> (bytes \<times> nat option) list \<Rightarrow> nat \<Rightarrow> nat option" where
  "dependency_level serial levels segment_start index [] level = Some level"
| "dependency_level serial levels segment_start index ((dependency, i) # ds) level =
     (if dependency \<in> set serial then None
      else case i of
          None \<Rightarrow> dependency_level serial levels segment_start index ds level
        | Some j \<Rightarrow>
            if index \<le> j then None
            else dependency_level serial levels segment_start index ds
                   (if segment_start \<le> j then max level (levels ! j + 1) else level))"

definition independent_level :: "word_set \<Rightarrow> nat list \<Rightarrow> nat \<Rightarrow> nat \<Rightarrow> class_dependencies \<Rightarrow> nat option" where
  "independent_level serial levels segment_start index ds =
     (case ds of None \<Rightarrow> None | Some ds \<Rightarrow> dependency_level serial levels segment_start index ds 0)"

definition push_layer :: "nat list list \<Rightarrow> nat \<Rightarrow> nat \<Rightarrow> nat list list" where
  "push_layer layers level index =
     (let layers = (if length layers \<le> level then layers @ replicate (level + 1 - length layers) [] else layers)
      in layers[level := layers ! level @ [index]])"

text \<open>The steps of the population, each with the codebase it starts from.\<close>

datatype population_step = Segment nat nat "nat list list" | Serial nat

type_synonym population_trace = "(population_step \<times> codebase) list"

record layer_state =
  layer_dependencies :: "class_dependencies list option"
  layer_levels :: "nat list"
  current_layers :: "nat list list"
  segment_start :: nat
  serial_dependencies :: word_set

text \<open>
  The loop over the class-likes from \<open>index\<close> on; \<open>segment s e ls\<close> and \<open>single c\<close> stand for
  \<open>populate_hierarchy_segment\<close> and \<open>populate_class_like_metadata_iterative\<close>.
\<close>

fun plan_layers :: "(nat \<Rightarrow> nat \<Rightarrow> nat list list \<Rightarrow> codebase \<Rightarrow> codebase) \<Rightarrow> (bytes \<Rightarrow> codebase \<Rightarrow> codebase)
    \<Rightarrow> (bytes \<Rightarrow> nat option) \<Rightarrow> nat \<Rightarrow> bytes list \<Rightarrow> layer_state \<Rightarrow> codebase \<Rightarrow> population_trace \<times> codebase" where
  "plan_layers segment single pos index [] st cb =
     ([(Segment (segment_start st) index (current_layers st), cb)],
      segment (segment_start st) index (current_layers st) cb)"
| "plan_layers segment single pos index (name # names) st cb =
     (let ds = (case layer_dependencies st of
                  Some dependencies \<Rightarrow> dependencies ! index
                | None \<Rightarrow> class_dependencies cb pos name)
      in case independent_level (serial_dependencies st) (layer_levels st) (segment_start st) index ds of
           None \<Rightarrow>
             (let cb1 = segment (segment_start st) index (current_layers st) cb;
                  cb2 = single name cb1;
                  st2 = st\<lparr>serial_dependencies := List.insert name (serial_dependencies st), current_layers := [],
                           segment_start := index + 1, layer_dependencies := None\<rparr>;
                  (trace, result) = plan_layers segment single pos (index + 1) names st2 cb2
              in ((Segment (segment_start st) index (current_layers st), cb) # (Serial index, cb1) # trace, result))
         | Some level \<Rightarrow>
             plan_layers segment single pos (index + 1) names
               (st\<lparr>layer_levels := (layer_levels st)[index := level],
                   current_layers := push_layer (current_layers st) level index\<rparr>) cb)"

declare plan_layers.simps(2) [simp del]

definition populate_class_likes_parallel ::
  "(nat \<Rightarrow> nat \<Rightarrow> nat list list \<Rightarrow> codebase \<Rightarrow> codebase) \<Rightarrow> (bytes \<Rightarrow> codebase \<Rightarrow> codebase) \<Rightarrow> nat
    \<Rightarrow> bytes list \<Rightarrow> codebase \<Rightarrow> population_trace \<times> codebase" where
  "populate_class_likes_parallel segment single threads sorted_classes cb =
     (if length sorted_classes < 128 \<or> threads = 1
      then
        let states = foldl (\<lambda>cbs name. cbs @ [single name (last cbs)]) [cb] sorted_classes
        in (zip (map Serial [0..<length sorted_classes]) states, last states)
      else
        plan_layers segment single (positions sorted_classes) 0 sorted_classes
          \<lparr>layer_dependencies = Some (map (class_dependencies cb (positions sorted_classes)) sorted_classes),
           layer_levels = replicate (length sorted_classes) 0, current_layers = [], segment_start = 0,
           serial_dependencies = []\<rparr> cb)"

section \<open>Layers are independent\<close>

text \<open>The indices a step populates.\<close>

fun step_indices :: "population_step \<Rightarrow> nat list" where
  "step_indices (Segment s e layers) = concat layers"
| "step_indices (Serial i) = [i]"

text \<open>
  A segment that starts from a codebase is safe: every class-like in one of its layers knows its
  dependencies, and each of them that is among the sorted class-likes comes before the segment or
  in an earlier layer.
\<close>

definition segment_safe :: "(bytes \<Rightarrow> nat option) \<Rightarrow> bytes list \<Rightarrow> codebase \<Rightarrow> nat \<Rightarrow> nat \<Rightarrow> nat list list \<Rightarrow> bool" where
  "segment_safe pos names cb s e layers \<longleftrightarrow>
     distinct (concat layers) \<and> set (concat layers) = {s..<e} \<and>
     (\<forall>l < length layers. \<forall>i \<in> set (layers ! l).
        \<exists>ds. class_dependencies cb pos (names ! i) = Some ds \<and>
          (\<forall>d j. (d, Some j) \<in> set ds \<longrightarrow> j < s \<or> (\<exists>l' < l. j \<in> set (layers ! l'))))"

lemma dependency_level_spec:
  "dependency_level serial levels s index ds level = Some l \<Longrightarrow>
     level \<le> l \<and> (\<forall>d j. (d, Some j) \<in> set ds \<longrightarrow> j < index \<and> (s \<le> j \<longrightarrow> levels ! j < l))"
proof (induction serial levels s index ds level rule: dependency_level.induct)
  case (2 serial levels s index d p ds level)
  show ?case
  proof (cases p)
    case None
    then show ?thesis using 2 by (auto split: if_splits)
  next
    case (Some j)
    let ?level = "if s \<le> j then max level (levels ! j + 1) else level"
    have d: "d \<notin> set serial" "j < index" "dependency_level serial levels s index ds ?level = Some l"
      using 2(3) Some by (auto split: if_splits)
    then have "?level \<le> l \<and> (\<forall>d j. (d, Some j) \<in> set ds \<longrightarrow> j < index \<and> (s \<le> j \<longrightarrow> levels ! j < l))"
      using 2(2)[OF _ Some] by simp
    then show ?thesis using d Some by (auto split: if_splits)
  qed
qed simp

lemma mset_concat_update:
  assumes "l < length xss"
  shows "mset (concat (xss[l := xss ! l @ [x]])) = add_mset x (mset (concat xss))"
proof -
  have "mset (concat xss) = mset (concat (take l xss @ xss ! l # drop (Suc l) xss))"
    using id_take_nth_drop[OF assms] by simp
  then show ?thesis by (simp add: upd_conv_take_nth_drop[OF assms])
qed

lemma push_layer_spec:
  "mset (concat (push_layer layers l i)) = add_mset i (mset (concat layers))"
  "length (push_layer layers l i) = max (length layers) (l + 1)"
  "k < length (push_layer layers l i) \<Longrightarrow>
     set (push_layer layers l i ! k)
       = (if k < length layers then set (layers ! k) else {}) \<union> (if k = l then {i} else {})"
proof -
  define grown where "grown = (if length layers \<le> l then layers @ replicate (l + 1 - length layers) [] else layers)"
  have p: "push_layer layers l i = grown[l := grown ! l @ [i]]" by (simp add: push_layer_def grown_def Let_def)
  have len: "length grown = max (length layers) (l + 1)" by (simp add: grown_def)
  have "concat (replicate n []) = ([] :: nat list)" for n by (induction n) simp_all
  then have c: "concat grown = concat layers" by (simp add: grown_def)
  show "mset (concat (push_layer layers l i)) = add_mset i (mset (concat layers))"
    unfolding p using mset_concat_update[of l grown i] len c by simp
  show "length (push_layer layers l i) = max (length layers) (l + 1)" by (simp add: p len)
  assume "k < length (push_layer layers l i)"
  then have "grown ! k = (if k < length layers then layers ! k else [])"
    by (auto simp: p len grown_def nth_append)
  then show "set (push_layer layers l i ! k)
       = (if k < length layers then set (layers ! k) else {}) \<union> (if k = l then {i} else {})"
    using \<open>k < length (push_layer layers l i)\<close> by (auto simp: p nth_list_update)
qed

definition placed :: "(bytes \<Rightarrow> nat option) \<Rightarrow> bytes list \<Rightarrow> codebase \<Rightarrow> nat \<Rightarrow> nat list list \<Rightarrow> nat \<Rightarrow> nat \<Rightarrow> bool" where
  "placed pos names cb s layers l i \<longleftrightarrow> (\<exists>ds. class_dependencies cb pos (names ! i) = Some ds \<and>
     (\<forall>d j. (d, Some j) \<in> set ds \<longrightarrow> j < s \<or> (\<exists>l' < l. j \<in> set (layers ! l'))))"

definition layer_inv :: "(bytes \<Rightarrow> nat option) \<Rightarrow> bytes list \<Rightarrow> codebase \<Rightarrow> nat \<Rightarrow> layer_state \<Rightarrow> bool" where
  "layer_inv pos names cb index st \<longleftrightarrow>
     length (layer_levels st) = length names \<and> segment_start st \<le> index
     \<and> distinct (concat (current_layers st)) \<and> set (concat (current_layers st)) = {segment_start st..<index}
     \<and> (\<forall>l < length (current_layers st). \<forall>i \<in> set (current_layers st ! l).
          layer_levels st ! i = l \<and> placed pos names cb (segment_start st) (current_layers st) l i)
     \<and> (\<forall>dv. layer_dependencies st = Some dv \<longrightarrow> dv = map (class_dependencies cb pos) names)"

lemma layer_inv_safe:
  "layer_inv pos names cb index st \<Longrightarrow> segment_safe pos names cb (segment_start st) index (current_layers st)"
  unfolding layer_inv_def segment_safe_def placed_def by blast

lemma placed_mono:
  assumes "placed pos names cb s layers l i" "l \<le> length layers"
    "\<And>k. k < length layers \<Longrightarrow> set (layers ! k) \<subseteq> set (layers' ! k)"
  shows "placed pos names cb s layers' l i"
proof -
  have "j < s \<or> (\<exists>l' < l. j \<in> set (layers' ! l'))" if "j < s \<or> (\<exists>l' < l. j \<in> set (layers ! l'))" for j
    using that assms(2,3) by (meson in_mono less_le_trans)
  then show ?thesis using assms(1) unfolding placed_def by blast
qed

text \<open>A class-like that goes into a layer keeps the invariant.\<close>

lemma layer_inv_push:
  assumes inv: "layer_inv pos names cb index st" and i: "index < length names"
    and ds: "class_dependencies cb pos (names ! index) = Some ds"
    and level: "dependency_level (serial_dependencies st) (layer_levels st) (segment_start st) index ds 0 = Some l"
  shows "layer_inv pos names cb (index + 1)
     (st\<lparr>layer_levels := (layer_levels st)[index := l], current_layers := push_layer (current_layers st) l index\<rparr>)"
proof -
  let ?L = "current_layers st" and ?s = "segment_start st"
  let ?P = "push_layer ?L l index"
  note p = push_layer_spec[where layers = ?L and l = l and i = index]
  have len: "length (layer_levels st) = length names" and start: "?s \<le> index" and dist: "distinct (concat ?L)"
    and dom: "set (concat ?L) = {?s..<index}"
    and lev: "\<forall>l < length ?L. \<forall>i \<in> set (?L ! l). layer_levels st ! i = l \<and> placed pos names cb ?s ?L l i"
    and dep: "\<forall>dv. layer_dependencies st = Some dv \<longrightarrow> dv = map (class_dependencies cb pos) names"
    using inv unfolding layer_inv_def by blast+
  have sub: "set (?L ! k) \<subseteq> set (?P ! k)" if "k < length ?L" for k
    using p(3)[where k = k] that by (simp add: p(2))
  have "set_mset (mset (concat ?P)) = insert index {?s..<index}" unfolding p(1) using dom by simp
  then have dom': "set (concat ?P) = {?s..<index + 1}" using start by auto
  have "mset (concat ?P) = mset (index # concat ?L)" by (simp add: p(1))
  then have "distinct (concat ?P) = distinct (index # concat ?L)" by (rule mset_eq_imp_distinct_iff)
  moreover have "index \<notin> set (concat ?L)" unfolding dom by simp
  ultimately have dist': "distinct (concat ?P)" using dist by (simp only: distinct.simps) simp
  have lower: "\<exists>l' < l. j \<in> set (?P ! l')" if "j < index" "?s \<le> j" "layer_levels st ! j < l" for j
  proof -
    have "j \<in> set (concat ?L)" using dom that by simp
    then obtain xs where "xs \<in> set ?L" "j \<in> set xs" by auto
    then obtain l' where l': "l' < length ?L" "j \<in> set (?L ! l')" using in_set_conv_nth[of xs ?L] by blast
    then have "l' < l" using lev[rule_format, OF l', THEN conjunct1] that(3) by simp
    then show ?thesis using sub[OF l'(1)] l'(2) by blast
  qed
  have new: "placed pos names cb ?s ?P l index"
    unfolding placed_def
  proof (rule exI[of _ ds], intro conjI allI impI)
    show "class_dependencies cb pos (names ! index) = Some ds" by (rule ds)
    fix d j
    assume "(d, Some j) \<in> set ds"
    then have "j < index \<and> (?s \<le> j \<longrightarrow> layer_levels st ! j < l)"
      using dependency_level_spec[OF level, THEN conjunct2] by simp
    then show "j < ?s \<or> (\<exists>l' < l. j \<in> set (?P ! l'))" using lower[of j] by (cases "?s \<le> j") simp_all
  qed
  have "(layer_levels st)[index := l] ! i = k \<and> placed pos names cb ?s ?P k i"
    if k: "k < length ?P" and ik: "i \<in> set (?P ! k)" for k i
  proof (cases "i = index")
    case True
    have fresh: "index \<notin> set (?L ! k')" if "k' < length ?L" for k'
    proof
      assume "index \<in> set (?L ! k')"
      then have "index \<in> set (concat ?L)" using nth_mem[OF that] by auto
      then show False unfolding dom by simp
    qed
    have "index \<in> (if k < length ?L then set (?L ! k) else {}) \<union> (if k = l then {index} else {})"
      using ik True unfolding p(3)[OF k] by simp
    then have "k = l" using fresh[of k] by (simp split: if_splits)
    then show ?thesis using True new i len by simp
  next
    case False
    then have kk: "k < length ?L" "i \<in> set (?L ! k)" using p(3)[OF k] ik by (auto split: if_splits)
    then have "layer_levels st ! i = k" "placed pos names cb ?s ?L k i" using lev by blast+
    then show ?thesis using False placed_mono[OF _ _ sub, of pos names cb ?s k i] kk by simp
  qed
  then show ?thesis using len start dist' dom' dep unfolding layer_inv_def by simp
qed

section \<open>The whole population\<close>

definition trace_indices :: "population_trace \<Rightarrow> nat list" where
  "trace_indices tr = concat (map (\<lambda>(a, _). step_indices a) tr)"

lemma trace_indices_Cons: "trace_indices ((a, cb) # tr) = step_indices a @ trace_indices tr"
  by (simp add: trace_indices_def)

definition trace_safe :: "(bytes \<Rightarrow> nat option) \<Rightarrow> bytes list \<Rightarrow> population_trace \<Rightarrow> bool" where
  "trace_safe pos names tr \<longleftrightarrow> (\<forall>s e layers cb. (Segment s e layers, cb) \<in> set tr \<longrightarrow> segment_safe pos names cb s e layers)"

lemma layer_inv_empty:
  "s \<le> length names \<Longrightarrow> length (layer_levels st) = length names \<Longrightarrow> current_layers st = [] \<Longrightarrow> segment_start st = s
    \<Longrightarrow> \<forall>dv. layer_dependencies st = Some dv \<longrightarrow> dv = map (class_dependencies cb pos) names
    \<Longrightarrow> layer_inv pos names cb s st"
  by (simp add: layer_inv_def)

lemma plan_layers_spec:
  assumes "layer_inv pos names cb index st" "rest = drop index names" "index \<le> length names"
    "plan_layers segment single pos index rest st cb = (tr, cb')"
  shows "trace_safe pos names tr \<and> distinct (trace_indices tr)
     \<and> set (trace_indices tr) = {segment_start st..<length names}"
  using assms
proof (induction rest arbitrary: index st cb tr)
  case Nil
  then have tr: "tr = [(Segment (segment_start st) index (current_layers st), cb)]" and i: "index = length names" by auto
  have "segment_safe pos names cb (segment_start st) index (current_layers st)" by (rule layer_inv_safe[OF Nil(1)])
  then show ?case using i by (simp add: tr trace_safe_def trace_indices_def segment_safe_def)
next
  case (Cons name rest)
  let ?s = "segment_start st" and ?L = "current_layers st"
  define ds where "ds = (case layer_dependencies st of Some dependencies \<Rightarrow> dependencies ! index
                | None \<Rightarrow> class_dependencies cb pos name)"
  note run = Cons.prems(4)[unfolded plan_layers.simps(2) ds_def[symmetric] Let_def]
  have i: "index < length names" using Cons.prems(2) by (metis drop_all list.distinct(1) not_le)
  have name: "name = names ! index" "rest = drop (index + 1) names"
    using Cons.prems(2) Cons_nth_drop_Suc[OF i, symmetric] by simp_all
  have "layer_dependencies st = Some dv \<Longrightarrow> dv ! index = class_dependencies cb pos name" for dv
    using Cons.prems(1) i unfolding layer_inv_def by (simp add: name)
  then have ds_eq: "ds = class_dependencies cb pos name" unfolding ds_def by (simp split: option.split)
  have safe: "segment_safe pos names cb ?s index ?L" by (rule layer_inv_safe[OF Cons.prems(1)])
  have start: "?s \<le> index" using Cons.prems(1) by (simp add: layer_inv_def)
  show ?case
  proof (cases "independent_level (serial_dependencies st) (layer_levels st) ?s index ds")
    case None
    let ?cb1 = "segment ?s index ?L cb"
    let ?st2 = "st\<lparr>serial_dependencies := List.insert name (serial_dependencies st), current_layers := [],
        segment_start := index + 1, layer_dependencies := None\<rparr>"
    obtain tr2 where tr2: "plan_layers segment single pos (index + 1) rest ?st2 (single name ?cb1) = (tr2, cb')"
      and tr: "tr = (Segment ?s index ?L, cb) # (Serial index, ?cb1) # tr2"
      using run None by (auto split: prod.splits)
    have "layer_inv pos names (single name ?cb1) (index + 1) ?st2"
      by (rule layer_inv_empty) (use i Cons.prems(1) in \<open>simp_all add: layer_inv_def\<close>)
    from Cons.IH[OF this name(2) _ tr2] i
    have IH: "trace_safe pos names tr2" "distinct (trace_indices tr2)" "set (trace_indices tr2) = {index + 1..<length names}"
      by simp_all
    have own: "distinct (concat ?L)" "set (concat ?L) = {?s..<index}" using safe by (simp_all only: segment_safe_def)
    have idx: "trace_indices tr = concat ?L @ index # trace_indices tr2" by (simp add: tr trace_indices_Cons)
    have "distinct (trace_indices tr)" unfolding idx distinct_append distinct.simps
      using own IH(2,3) by (auto simp del: set_concat)
    moreover have "set (trace_indices tr) = {?s..<length names}"
      unfolding idx set_append list.set own(2) IH(3) using i start by auto
    moreover have "trace_safe pos names tr" using IH(1) safe by (auto simp: trace_safe_def tr)
    ultimately show ?thesis by blast
  next
    case (Some l)
    then obtain dv where dv: "ds = Some dv"
      "dependency_level (serial_dependencies st) (layer_levels st) ?s index dv 0 = Some l"
      by (auto simp: independent_level_def split: option.splits)
    let ?st2 = "st\<lparr>layer_levels := (layer_levels st)[index := l], current_layers := push_layer ?L l index\<rparr>"
    have "class_dependencies cb pos (names ! index) = Some dv" using ds_eq dv(1) by (simp add: name)
    from layer_inv_push[OF Cons.prems(1) i this dv(2)]
    have inv: "layer_inv pos names cb (index + 1) ?st2" .
    have run2: "plan_layers segment single pos (index + 1) rest ?st2 cb = (tr, cb')" using run Some by simp
    have "index + 1 \<le> length names" using i by simp
    from Cons.IH[OF inv name(2) this run2] show ?thesis by simp
  qed
qed

lemma populate_parallel_spec:
  assumes "populate_class_likes_parallel segment single threads sorted_classes cb = (tr, cb')"
  shows "distinct (trace_indices tr) \<and> set (trace_indices tr) = {0..<length sorted_classes}
    \<and> trace_safe (positions sorted_classes) sorted_classes tr"
proof (cases "length sorted_classes < 128 \<or> threads = 1")
  case True
  define states where "states = foldl (\<lambda>cbs name. cbs @ [single name (last cbs)]) [cb] sorted_classes"
  have "length (foldl (\<lambda>cbs name. cbs @ [single name (last cbs)]) cbs names) = length cbs + length names" for cbs names
    by (induction names arbitrary: cbs) simp_all
  then have len: "length states = Suc (length sorted_classes)" by (simp add: states_def)
  have tr: "tr = zip (map Serial [0..<length sorted_classes]) states"
    using assms True by (simp add: populate_class_likes_parallel_def states_def Let_def)
  have one: "concat (map step_indices (map Serial ns)) = ns" for ns by (induction ns) simp_all
  have "trace_indices tr = concat (map step_indices (map fst tr))"
    by (simp add: trace_indices_def comp_def case_prod_unfold)
  also have "map fst tr = map Serial [0..<length sorted_classes]"
    unfolding tr map_fst_zip_take using len by simp
  finally have "trace_indices tr = [0..<length sorted_classes]" by (simp only: one)
  moreover have "trace_safe (positions sorted_classes) sorted_classes tr"
    by (auto simp: trace_safe_def tr dest!: set_zip_leftD)
  ultimately show ?thesis by simp
next
  case False
  define st where "st = \<lparr>layer_dependencies = Some (map (class_dependencies cb (positions sorted_classes)) sorted_classes),
      layer_levels = replicate (length sorted_classes) 0, current_layers = [], segment_start = 0, serial_dependencies = []\<rparr>"
  have run: "plan_layers segment single (positions sorted_classes) 0 sorted_classes st cb = (tr, cb')"
    using assms False by (simp add: populate_class_likes_parallel_def st_def)
  have "layer_inv (positions sorted_classes) sorted_classes cb 0 st"
    by (rule layer_inv_empty) (simp_all add: st_def)
  from plan_layers_spec[OF this _ _ run] show ?thesis by (simp add: st_def)
qed

text \<open>
  C29. Whatever populating a segment or a class-like does to the codebase, the parallel population
  takes up every sorted class-like exactly once, and in every segment the class-likes of one layer
  know their dependencies, none of which stands in the same or a later layer of the segment or
  after it.
\<close>

theorem layers_independent:
  "distinct (trace_indices (fst (populate_class_likes_parallel segment single threads sorted_classes cb)))
   \<and> set (trace_indices (fst (populate_class_likes_parallel segment single threads sorted_classes cb)))
       = {0..<length sorted_classes}
   \<and> trace_safe (positions sorted_classes) sorted_classes
       (fst (populate_class_likes_parallel segment single threads sorted_classes cb))"
  by (rule populate_parallel_spec[OF prod.collapse[symmetric]])

end
