(* ===== verification/Descendants.thy ===== *)
theory Descendants
  imports Class_Order Codebase_Aliases
begin

text \<open>
  The index of descendants (crate \<open>codex\<close>, \<open>populator/descendants.rs\<close>): which class-likes descend
  from a class-like, kept up to date when some class-likes have been populated again, and the
  traversal that collects all descendants (\<open>metadata/mod.rs\<close>). The update of an index that is
  stale only at the repopulated class-likes gives the exact index, and the traversal ends with
  exactly the class-likes that are reached, cyclic hierarchies included.
\<close>

section \<open>The update\<close>

type_synonym descendant_index = "(bytes, word_set) hash_map"

definition keeps_child :: "(bytes, class_like_metadata) hash_map \<Rightarrow> word_set
    \<Rightarrow> (class_like_metadata \<Rightarrow> bytes list) \<Rightarrow> bytes \<Rightarrow> bytes \<Rightarrow> bool" where
  "keeps_child classes repopulated parents parent child =
     (case map_of classes child of
        None \<Rightarrow> False
      | Some md \<Rightarrow> child \<notin> set repopulated \<or> parent \<in> set (parents md))"

definition direct_parents :: "class_like_metadata \<Rightarrow> bytes list" where
  "direct_parents md =
     direct_parent_interfaces md @ (case direct_parent_class md of None \<Rightarrow> [] | Some p \<Rightarrow> [p])"

definition all_parents :: "class_like_metadata \<Rightarrow> bytes list" where
  "all_parents md = all_parent_interfaces md @ all_parent_classes md @ used_traits md"

text \<open>The pass that retains the direct children; a parent that loses one is to be refreshed.\<close>

fun retain_direct :: "(bytes, class_like_metadata) hash_map \<Rightarrow> word_set \<Rightarrow> descendant_index \<Rightarrow> word_set
    \<Rightarrow> descendant_index \<times> word_set" where
  "retain_direct classes repopulated [] refresh = ([], refresh)"
| "retain_direct classes repopulated ((parent, children) # es) refresh =
     (let kept = filter (keeps_child classes repopulated direct_parents parent) children;
          refresh = (if length kept \<noteq> length children then List.insert parent refresh else refresh);
          (es, refresh) = retain_direct classes repopulated es refresh
      in (if kept = [] then es else (parent, kept) # es, refresh))"

definition retain_all :: "(bytes, class_like_metadata) hash_map \<Rightarrow> word_set \<Rightarrow> descendant_index \<Rightarrow> descendant_index" where
  "retain_all classes repopulated index =
     filter (\<lambda>(_, children). children \<noteq> [])
       (map (\<lambda>(parent, children).
          (parent, filter (keeps_child classes repopulated all_parents parent) children)) index)"

definition add_child :: "bytes \<Rightarrow> bytes \<Rightarrow> descendant_index \<Rightarrow> descendant_index" where
  "add_child name parent index =
     AList.update parent (List.insert name (case map_of index parent of None \<Rightarrow> [] | Some children \<Rightarrow> children)) index"

text \<open>The loop over the repopulated class-likes.\<close>

fun register :: "(bytes, class_like_metadata) hash_map \<Rightarrow> word_set \<Rightarrow> descendant_index \<times> descendant_index \<times> word_set
    \<Rightarrow> descendant_index \<times> descendant_index \<times> word_set" where
  "register classes [] st = st"
| "register classes (name # names) (direct, every, refresh) =
     register classes names
       (case map_of classes name of
          None \<Rightarrow> (direct, every, refresh)
        | Some md \<Rightarrow>
            (fold (add_child name) (direct_parents md) direct, fold (add_child name) (all_parents md) every,
             fold List.insert (direct_parents md) refresh))"

definition update_descendants :: "codebase \<Rightarrow> word_set \<Rightarrow> codebase" where
  "update_descendants cb repopulated =
     (let classes = class_likes cb;
          (direct, refresh) = retain_direct classes repopulated (direct_classlike_descendants cb) repopulated;
          every = retain_all classes repopulated (all_class_like_descendants cb);
          (direct, every, refresh) = register classes repopulated (direct, every, refresh)
      in cb\<lparr>direct_classlike_descendants := direct, all_class_like_descendants := every,
            class_likes := fold (\<lambda>parent. change_at parent (\<lambda>md. md\<lparr>child_class_likes := map_of direct parent\<rparr>))
                             refresh classes\<rparr>)"

section \<open>The index is exact\<close>

definition children :: "descendant_index \<Rightarrow> bytes \<Rightarrow> bytes set" where
  "children index parent = (case map_of index parent of None \<Rightarrow> {} | Some cs \<Rightarrow> set cs)"

definition index_wf :: "descendant_index \<Rightarrow> bool" where
  "index_wf index \<longleftrightarrow> distinct (map fst index) \<and> [] \<notin> snd ` set index"

text \<open>An index lists, of the class-likes outside a set, exactly the children of every parent.\<close>

definition index_exact_outside ::
  "bytes set \<Rightarrow> (bytes, class_like_metadata) hash_map \<Rightarrow> (class_like_metadata \<Rightarrow> bytes list) \<Rightarrow> descendant_index \<Rightarrow> bool" where
  "index_exact_outside stale classes parents index \<longleftrightarrow>
     (\<forall>p c md. c \<notin> stale \<and> map_of classes c = Some md \<longrightarrow> (c \<in> children index p \<longleftrightarrow> p \<in> set (parents md)))"

definition index_exact ::
  "(bytes, class_like_metadata) hash_map \<Rightarrow> (class_like_metadata \<Rightarrow> bytes list) \<Rightarrow> descendant_index \<Rightarrow> bool" where
  "index_exact classes parents index \<longleftrightarrow>
     (\<forall>p c. c \<in> children index p \<longleftrightarrow> (\<exists>md. map_of classes c = Some md \<and> p \<in> set (parents md)))"

definition children_mirrored :: "bytes set \<Rightarrow> codebase \<Rightarrow> bool" where
  "children_mirrored stale cb \<longleftrightarrow>
     (\<forall>p md. p \<notin> stale \<and> map_of (class_likes cb) p = Some md
        \<longrightarrow> child_class_likes md = map_of (direct_classlike_descendants cb) p)"

lemma children_Nil [simp]: "children [] p = {}"
  by (simp add: children_def)

lemma children_Cons: "children ((q, cs) # index) p = (if p = q then set cs else children index p)"
  by (simp add: children_def)

lemma children_add: "children (add_child n q index) p = children index p \<union> (if p = q then {n} else {})"
  by (auto simp: children_def add_child_def update_conv' split: option.split)

lemma children_fold_add: "children (fold (add_child n) qs index) p = children index p \<union> (if p \<in> set qs then {n} else {})"
  by (induction qs arbitrary: index) (auto simp: children_add)

lemma update_no_empty: "v \<noteq> [] \<Longrightarrow> [] \<notin> snd ` set index \<Longrightarrow> [] \<notin> snd ` set (AList.update k v index)"
  by (induction index) auto

lemma insert_not_Nil: "List.insert n cs \<noteq> []"
  by (cases cs) (simp_all add: List.insert_def)

lemma index_wf_add: "index_wf index \<Longrightarrow> index_wf (add_child n q index)"
  unfolding index_wf_def add_child_def by (auto simp only: distinct_update intro: update_no_empty[OF insert_not_Nil, THEN notE])

lemma index_wf_fold_add: "index_wf index \<Longrightarrow> index_wf (fold (add_child n) qs index)"
  by (induction qs arbitrary: index) (simp_all add: index_wf_add)

text \<open>Both passes keep, at every parent, the children that pass a test.\<close>

definition retained :: "(bytes \<Rightarrow> bytes \<Rightarrow> bool) \<Rightarrow> descendant_index \<Rightarrow> descendant_index" where
  "retained keep index =
     filter (\<lambda>(_, cs). cs \<noteq> []) (map (\<lambda>(p, cs). (p, filter (keep p) cs)) index)"

lemma retain_all_retained:
  "retain_all classes rep index = retained (keeps_child classes rep all_parents) index"
  by (simp add: retain_all_def retained_def)

lemma retain_direct_retained:
  "fst (retain_direct classes rep index refresh) = retained (keeps_child classes rep direct_parents) index"
proof (induction index arbitrary: refresh)
  case (Cons e index)
  obtain q cs where e: "e = (q, cs)" by (cases e)
  let ?kept = "filter (keeps_child classes rep direct_parents q) cs"
  have "fst (retain_direct classes rep (e # index) refresh)
      = (if ?kept = [] then [] else [(q, ?kept)])
        @ fst (retain_direct classes rep index (if length ?kept \<noteq> length cs then List.insert q refresh else refresh))"
    by (simp add: e Let_def split: prod.split)
  then show ?case by (simp add: Cons e retained_def)
qed (simp add: retained_def)

lemma filter_length_differs: "length (filter P xs) \<noteq> length xs \<longleftrightarrow> filter P xs \<noteq> xs"
  by (metis filter_id_conv length_filter_less less_irrefl)

lemma retain_direct_refresh:
  "set (snd (retain_direct classes rep index refresh)) = set refresh
     \<union> {p. \<exists>cs. (p, cs) \<in> set index \<and> filter (keeps_child classes rep direct_parents p) cs \<noteq> cs}"
proof (induction index arbitrary: refresh)
  case (Cons e index)
  obtain q cs where e: "e = (q, cs)" by (cases e)
  let ?kept = "filter (keeps_child classes rep direct_parents q) cs"
  have "snd (retain_direct classes rep (e # index) refresh)
      = snd (retain_direct classes rep index (if ?kept \<noteq> cs then List.insert q refresh else refresh))"
    by (simp add: e Let_def filter_length_differs split: prod.split)
  then show ?case by (auto simp: Cons e)
qed simp

lemma retained_fst: "fst ` set (retained keep index) \<subseteq> fst ` set index"
  by (force simp: retained_def)

lemma map_of_retained:
  "distinct (map fst index) \<Longrightarrow> map_of (retained keep index) p =
     (case map_of index p of None \<Rightarrow> None
      | Some cs \<Rightarrow> if filter (keep p) cs = [] then None else Some (filter (keep p) cs))"
proof (induction index)
  case (Cons e index)
  obtain q cs where e: "e = (q, cs)" by (cases e)
  have fresh: "map_of (retained keep index) q = None" if "q \<notin> fst ` set index"
    using that retained_fst[of keep index] by (auto simp: map_of_eq_None_iff)
  have step: "retained keep (e # index) = (if filter (keep q) cs = [] then [] else [(q, filter (keep q) cs)]) @ retained keep index"
    by (simp add: retained_def e)
  show ?case using Cons fresh unfolding step by (auto simp: e)
qed (simp add: retained_def)

lemma index_wf_retained: "index_wf index \<Longrightarrow> index_wf (retained keep index)"
proof -
  have "distinct (map fst (retained keep index))" if "distinct (map fst index)"
    using that distinct_map_filter[of fst "map (\<lambda>(p, cs). (p, filter (keep p) cs)) index"]
    by (simp add: retained_def comp_def case_prod_unfold)
  moreover have "[] \<notin> snd ` set (retained keep index)" by (auto simp: retained_def)
  ultimately show "index_wf index \<Longrightarrow> index_wf (retained keep index)" by (simp add: index_wf_def)
qed

lemma children_retained:
  "distinct (map fst index) \<Longrightarrow> children (retained keep index) p = {c \<in> children index p. keep p c}"
  by (auto simp: children_def map_of_retained filter_empty_conv split: option.split)

lemma register_spec:
  "register classes names (direct, every, refresh) = (direct', every', refresh') \<Longrightarrow>
     children direct' p = children direct p \<union> {n \<in> set names. \<exists>md. map_of classes n = Some md \<and> p \<in> set (direct_parents md)}
     \<and> children every' p = children every p \<union> {n \<in> set names. \<exists>md. map_of classes n = Some md \<and> p \<in> set (all_parents md)}
     \<and> set refresh' = set refresh \<union> {q. \<exists>n \<in> set names. \<exists>md. map_of classes n = Some md \<and> q \<in> set (direct_parents md)}
     \<and> (index_wf direct \<longrightarrow> index_wf direct') \<and> (index_wf every \<longrightarrow> index_wf every')
     \<and> (p \<notin> set refresh' \<longrightarrow> map_of direct' p = map_of direct p)"
proof (induction names arbitrary: direct every refresh)
  case (Cons n names)
  show ?case
  proof (cases "map_of classes n")
    case None
    have "register classes names (direct, every, refresh) = (direct', every', refresh')" using Cons.prems None by simp
    from Cons.IH[OF this] show ?thesis using None by auto
  next
    case (Some md)
    have "map_of (fold (add_child n) qs index) q = map_of index q" if "q \<notin> set qs" for qs q index
      using that by (induction qs arbitrary: index) (simp_all add: add_child_def update_conv')
    then show ?thesis
      using Cons.IH[of "fold (add_child n) (direct_parents md) direct" "fold (add_child n) (all_parents md) every"
          "fold List.insert (direct_parents md) refresh"] Cons.prems Some
      by (auto simp: children_fold_add index_wf_fold_add)
  qed
qed simp

lemma map_of_change_each:
  assumes "\<And>k v. f k (f k v) = f k v"
  shows "map_of (fold (\<lambda>k. change_at k (f k)) ks m) x = (if x \<in> set ks then map_option (f x) (map_of m x) else map_of m x)"
  using assms by (induction ks arbitrary: m) (simp_all add: map_of_change_at option.map_comp comp_def)


lemma update_descendants_spec:
  assumes wf: "index_wf (direct_classlike_descendants cb)" "index_wf (all_class_like_descendants cb)"
    and direct: "index_exact_outside (set repopulated) (class_likes cb) direct_parents (direct_classlike_descendants cb)"
    and every: "index_exact_outside (set repopulated) (class_likes cb) all_parents (all_class_like_descendants cb)"
    and mirror: "children_mirrored (set repopulated) cb"
    and result: "cb' = update_descendants cb repopulated"
  shows "index_wf (direct_classlike_descendants cb') \<and> index_wf (all_class_like_descendants cb')
    \<and> index_exact (class_likes cb') direct_parents (direct_classlike_descendants cb')
    \<and> index_exact (class_likes cb') all_parents (all_class_like_descendants cb')
    \<and> children_mirrored {} cb'
    \<and> (\<forall>c. map_option (\<lambda>md. md\<lparr>child_class_likes := None\<rparr>) (map_of (class_likes cb') c)
           = map_option (\<lambda>md. md\<lparr>child_class_likes := None\<rparr>) (map_of (class_likes cb) c))"
proof -
  let ?classes = "class_likes cb" and ?D = "direct_classlike_descendants cb" and ?A = "all_class_like_descendants cb"
  let ?kd = "keeps_child ?classes repopulated direct_parents" and ?ka = "keeps_child ?classes repopulated all_parents"
  obtain r0 where retain: "retain_direct ?classes repopulated ?D repopulated = (retained ?kd ?D, r0)"
    by (metis retain_direct_retained prod.collapse)
  have r0: "set r0 = set repopulated \<union> {p. \<exists>cs. (p, cs) \<in> set ?D \<and> filter (?kd p) cs \<noteq> cs}"
    using retain_direct_refresh[of ?classes repopulated ?D repopulated] by (simp add: retain)
  obtain d a r where reg: "register ?classes repopulated (retained ?kd ?D, retained ?ka ?A, r0) = (d, a, r)"
    by (metis prod_cases3)
  have cb': "cb' = cb\<lparr>direct_classlike_descendants := d, all_class_like_descendants := a,
      class_likes := fold (\<lambda>p. change_at p (\<lambda>md. md\<lparr>child_class_likes := map_of d p\<rparr>)) r ?classes\<rparr>"
    unfolding result update_descendants_def by (simp add: retain retain_all_retained reg)
  note spec = register_spec[OF reg]
  have dist: "distinct (map fst ?D)" "distinct (map fst ?A)" using wf by (simp_all add: index_wf_def)
  have classes': "map_of (class_likes cb') c = (if c \<in> set r
      then map_option (\<lambda>md. md\<lparr>child_class_likes := map_of d c\<rparr>) (map_of ?classes c) else map_of ?classes c)" for c
    by (simp add: cb' map_of_change_each)
  have same: "map_option (\<lambda>md. md\<lparr>child_class_likes := None\<rparr>) (map_of (class_likes cb') c)
           = map_option (\<lambda>md. md\<lparr>child_class_likes := None\<rparr>) (map_of ?classes c)" for c
    by (simp add: classes' option.map_comp comp_def)
  have parents': "(\<exists>md. map_of (class_likes cb') c = Some md \<and> p \<in> set (f md))
      \<longleftrightarrow> (\<exists>md. map_of ?classes c = Some md \<and> p \<in> set (f md))"
    if "\<And>md v. f (md\<lparr>child_class_likes := v\<rparr>) = f md" for f :: "class_like_metadata \<Rightarrow> bytes list" and c p
    by (auto simp: classes' that)
  have exact: "c \<in> {c \<in> children index p. keeps_child ?classes repopulated f p c}
        \<union> {n \<in> set repopulated. \<exists>md. map_of ?classes n = Some md \<and> p \<in> set (f md)}
      \<longleftrightarrow> (\<exists>md. map_of ?classes c = Some md \<and> p \<in> set (f md))"
    if "index_exact_outside (set repopulated) ?classes f index" for f index c p
    using that unfolding index_exact_outside_def keeps_child_def by (auto split: option.splits)
  have dp: "direct_parents (md\<lparr>child_class_likes := v\<rparr>) = direct_parents md" for md v by (simp add: direct_parents_def)
  have ap: "all_parents (md\<lparr>child_class_likes := v\<rparr>) = all_parents md" for md v by (simp add: all_parents_def)
  have "index_exact (class_likes cb') direct_parents d"
    unfolding index_exact_def parents'[of direct_parents, OF dp] using spec exact[OF direct]
    by (simp add: children_retained dist)
  moreover have "index_exact (class_likes cb') all_parents a"
    unfolding index_exact_def parents'[of all_parents, OF ap] using spec exact[OF every]
    by (simp add: children_retained dist)
  moreover have "index_wf d \<and> index_wf a" using spec wf by (simp add: index_wf_retained)
  moreover have "child_class_likes md = map_of d p" if md: "map_of (class_likes cb') p = Some md" for p md
  proof (cases "p \<in> set r")
    case True
    then show ?thesis using md by (auto simp: classes')
  next
    case False
    then have old: "p \<notin> set r0" "p \<notin> set repopulated" using spec r0 by auto
    have "map_of d p = map_of (retained ?kd ?D) p" using register_spec[OF reg, of p] False by simp
    also have "\<dots> = map_of ?D p"
    proof (cases "map_of ?D p")
      case None
      then show ?thesis by (simp add: map_of_retained dist)
    next
      case (Some cs)
      then have "(p, cs) \<in> set ?D" by (rule map_of_SomeD)
      then have "filter (?kd p) cs = cs" "cs \<noteq> []" using old(1) wf(1) r0 by (force simp: index_wf_def)+
      then show ?thesis using Some by (simp add: map_of_retained dist)
    qed
    finally show ?thesis using mirror md old(2) False by (simp add: children_mirrored_def classes')
  qed
  ultimately show ?thesis using same by (simp add: children_mirrored_def cb')
qed

text \<open>
  C14. When the index of descendants is stale only at the class-likes that were populated again
  (also those that are gone, whose entries may have remained), the update makes it exact: at every
  parent exactly the class-likes stand whose metadata names it, directly or among all ancestors,
  no parent keeps an empty set, every class-like carries its direct children, and nothing else of
  the class-likes changes.
\<close>

theorem descendants_updated:
  assumes wf: "index_wf (direct_classlike_descendants cb)" "index_wf (all_class_like_descendants cb)"
    and direct: "index_exact_outside (set repopulated) (class_likes cb) direct_parents (direct_classlike_descendants cb)"
    and every: "index_exact_outside (set repopulated) (class_likes cb) all_parents (all_class_like_descendants cb)"
    and mirror: "children_mirrored (set repopulated) cb"
    and result: "cb' = update_descendants cb repopulated"
  shows "index_wf (direct_classlike_descendants cb') \<and> index_wf (all_class_like_descendants cb')
    \<and> index_exact (class_likes cb') direct_parents (direct_classlike_descendants cb')
    \<and> index_exact (class_likes cb') all_parents (all_class_like_descendants cb')
    \<and> children_mirrored {} cb'
    \<and> (\<forall>c. map_option (\<lambda>md. md\<lparr>child_class_likes := None\<rparr>) (map_of (class_likes cb') c)
           = map_option (\<lambda>md. md\<lparr>child_class_likes := None\<rparr>) (map_of (class_likes cb) c))"
  by (rule update_descendants_spec[OF assms])

section \<open>All descendants\<close>

text \<open>The inner loop: the direct descendants that were not visited are found and pushed.\<close>

fun push_fresh :: "bytes list \<Rightarrow> bytes list \<times> bytes list \<times> word_set \<Rightarrow> bytes list \<times> bytes list \<times> word_set" where
  "push_fresh [] st = st"
| "push_fresh (d # ds) (queue, visited, found) =
     push_fresh ds
       (if d \<in> set visited then (queue, visited, found) else (d # queue, d # visited, List.insert d found))"

text \<open>The loop; the last element of the vector is the head of \<open>queue\<close>.\<close>

definition index_names :: "descendant_index \<Rightarrow> bytes set" where
  "index_names index = (\<Union>cs \<in> snd ` set index. set cs)"

lemma push_fresh_spec:
  "push_fresh ds (queue, visited, found) = (queue', visited', found') \<Longrightarrow>
     \<exists>new. queue' = new @ queue \<and> visited' = new @ visited \<and> set found' = set found \<union> set new
       \<and> set new = set ds - set visited \<and> distinct new"
proof (induction ds arbitrary: queue visited found)
  case (Cons d ds)
  show ?case
  proof (cases "d \<in> set visited")
    case True
    then have "push_fresh ds (queue, visited, found) = (queue', visited', found')" using Cons.prems by simp
    from Cons.IH[OF this] show ?thesis using True by auto
  next
    case False
    then have "push_fresh ds (d # queue, d # visited, List.insert d found) = (queue', visited', found')"
      using Cons.prems by simp
    then obtain new where new: "queue' = new @ d # queue" "visited' = new @ d # visited"
        "set found' = insert d (set found \<union> set new)" "set new = set ds - insert d (set visited)" "distinct new"
      using Cons.IH[of "d # queue" "d # visited" "List.insert d found"] by auto
    show ?thesis by (rule exI[of _ "new @ [d]"]) (use new False in auto)
  qed
qed simp

function descend :: "descendant_index \<Rightarrow> bytes list \<Rightarrow> bytes list \<Rightarrow> word_set \<Rightarrow> word_set" where
  "descend index [] visited found = found"
| "descend index (c # queue) visited found =
     (case map_of index c of
        None \<Rightarrow> descend index queue visited found
      | Some ds \<Rightarrow>
          case push_fresh ds (queue, visited, found) of
            (queue', visited', found') \<Rightarrow> descend index queue' visited' found')"
  by pat_completeness auto
termination
proof (relation "measure (\<lambda>(index, queue, visited, found). card (index_names index - set visited) + length queue)", goal_cases)
  case (3 index c queue visited found ds queue' y visited' found')
  then obtain new where new: "queue' = new @ queue" "visited' = new @ visited" "set new = set ds - set visited" "distinct new"
    using push_fresh_spec[of ds queue visited found queue' visited' found'] by auto
  have "ds \<in> snd ` set index" using map_of_SomeD[OF 3(1)] by force
  then have sub: "set new \<subseteq> index_names index - set visited" using new(3) by (auto simp: index_names_def)
  have fin: "finite (index_names index - set visited)" by (simp add: index_names_def)
  have "index_names index - set visited' = (index_names index - set visited) - set new" unfolding new(2) by auto
  then have "card (index_names index - set visited') = card (index_names index - set visited) - card (set new)"
    using card_Diff_subset[OF finite_set sub] by simp
  moreover have "card (set new) \<le> card (index_names index - set visited)" by (rule card_mono[OF fin sub])
  ultimately show ?case using new(1) distinct_card[OF new(4)] by simp
qed simp_all

declare descend.simps(2) [simp del]

definition get_all_descendants :: "codebase \<Rightarrow> bytes \<Rightarrow> word_set" where
  "get_all_descendants self class =
     (let lowercase_class = to_ascii_lowercase class;
          root = (case resolve_class_like_word self lowercase_class of None \<Rightarrow> lowercase_class | Some actual \<Rightarrow> actual)
      in descend (direct_classlike_descendants self) [root] [root] [])"

definition get_class_descendants :: "codebase \<Rightarrow> bytes \<Rightarrow> word_set" where
  "get_class_descendants self class = get_all_descendants self class"

text \<open>The relation of direct descent.\<close>

definition descends :: "descendant_index \<Rightarrow> (bytes \<times> bytes) set" where
  "descends index = {(p, c). c \<in> children index p}"

lemma descend_spec:
  assumes "root \<in> set visited" "set queue \<subseteq> set visited" "set visited = insert root (set found)"
    "set visited \<subseteq> (descends index)\<^sup>* `` {root}" "root \<notin> set found"
    "\<And>p c. p \<in> set visited - set queue \<Longrightarrow> (p, c) \<in> descends index \<Longrightarrow> c \<in> set visited"
  shows "set (descend index queue visited found) = (descends index)\<^sup>* `` {root} - {root}"
  using assms
proof (induction index queue visited found rule: descend.induct)
  case (1 index visited found)
  have "c \<in> set visited" if "(root, c) \<in> (descends index)\<^sup>*" for c
    using that by (induction rule: rtrancl_induct) (use 1 in auto)
  then show ?case using 1 by auto
next
  case (2 index c queue visited found)
  show ?case
  proof (cases "map_of index c")
    case None
    then have "children index c = {}" by (simp add: children_def)
    then have "x \<in> set visited" if "p \<in> set visited - set queue" "(p, x) \<in> descends index" for p x
      using that 2(8)[of p x] by (cases "p = c") (simp_all add: descends_def)
    from 2(1)[OF None 2(3) _ 2(5,6,7) this] 2(4) show ?thesis by (simp add: descend.simps(2) None)
  next
    case (Some ds)
    obtain q v f where push: "push_fresh ds (queue, visited, found) = (q, v, f)" by (metis prod_cases3)
    obtain new where new: "q = new @ queue" "v = new @ visited" "set f = set found \<union> set new"
        "set new = set ds - set visited"
      using push_fresh_spec[OF push] by blast
    have ds: "children index c = set ds" by (simp add: children_def Some)
    have step: "descend index (c # queue) visited found = descend index q v f"
      by (simp add: descend.simps(2) Some push)
    have c: "(root, c) \<in> (descends index)\<^sup>*" using 2(4,6) by auto
    have reach: "set new \<subseteq> (descends index)\<^sup>* `` {root}"
    proof
      fix x assume "x \<in> set new"
      then have "(c, x) \<in> descends index" using new(4) ds by (simp add: descends_def)
      then show "x \<in> (descends index)\<^sup>* `` {root}" using c by (auto intro: rtrancl_into_rtrancl)
    qed
    have closed: "x \<in> set v" if "p \<in> set v - set q" "(p, x) \<in> descends index" for p x
    proof (cases "p = c")
      case True
      then show ?thesis using that(2) ds new(2,4) by (auto simp: descends_def)
    next
      case False
      then show ?thesis using that 2(8)[of p x] new(1,2) by auto
    qed
    have ih: "root \<in> set v" "set q \<subseteq> set v" "set v = insert root (set f)" "set v \<subseteq> (descends index)\<^sup>* `` {root}" "root \<notin> set f"
      using 2(3-7) new reach by auto
    show ?thesis unfolding step by (rule 2(2)[OF Some push[symmetric] refl ih closed])
  qed
qed

lemma distinct_descend: "distinct found \<Longrightarrow> distinct (descend index queue visited found)"
proof (induction index queue visited found rule: descend.induct)
  case (2 index c queue visited found)
  have "distinct (snd (snd (push_fresh ds st)))" if "distinct (snd (snd st))" for ds and st :: "bytes list \<times> bytes list \<times> word_set"
    using that by (induction ds st rule: push_fresh.induct) (auto simp: distinct_insert)
  from this[of "(queue, visited, found)"] show ?case using 2
    by (auto simp: descend.simps(2) split: option.split prod.split) (metis snd_conv)
qed simp

text \<open>\<open>c\<close> names \<open>p\<close> as its parent class or one of its parent interfaces.\<close>

definition extends_directly :: "codebase \<Rightarrow> (bytes \<times> bytes) set" where
  "extends_directly cb = {(c, p). \<exists>md. map_of (class_likes cb) c = Some md \<and> p \<in> set (direct_parents md)}"

lemma descends_extends:
  "index_exact (class_likes cb) direct_parents (direct_classlike_descendants cb)
    \<Longrightarrow> descends (direct_classlike_descendants cb) = (extends_directly cb)\<inverse>"
  by (auto simp: descends_def extends_directly_def index_exact_def)

text \<open>
  On every codebase with an exact index, cyclic hierarchies included, the search for the
  descendants of a name ends and gives, each once, exactly the class-likes that reach the class the
  name stands for by going from a class-like to one of its direct parents, other than that class
  itself.
\<close>

theorem all_descendants_exact:
  assumes "index_exact (class_likes cb) direct_parents (direct_classlike_descendants cb)"
    and "root = (case resolve_class_like_word cb (to_ascii_lowercase class) of
                   None \<Rightarrow> to_ascii_lowercase class | Some actual \<Rightarrow> actual)"
  shows "set (get_all_descendants cb class) = {c. (c, root) \<in> (extends_directly cb)\<^sup>+ \<and> c \<noteq> root}
    \<and> distinct (get_all_descendants cb class) \<and> get_class_descendants cb class = get_all_descendants cb class"
proof -
  have run: "get_all_descendants cb class = descend (direct_classlike_descendants cb) [root] [root] []"
    by (simp add: get_all_descendants_def assms(2) Let_def)
  have "set (get_all_descendants cb class) = (descends (direct_classlike_descendants cb))\<^sup>* `` {root} - {root}"
    unfolding run by (rule descend_spec) auto
  also have "\<dots> = {c. (c, root) \<in> (extends_directly cb)\<^sup>+ \<and> c \<noteq> root}"
    unfolding descends_extends[OF assms(1)] rtrancl_converse by (auto simp: rtrancl_eq_or_trancl)
  finally show ?thesis using distinct_descend[of "[]"] by (simp add: run get_class_descendants_def)
qed

section \<open>A sample\<close>

lemma all_stale: "index_exact_outside (set (map fst classes)) classes parents index"
  by (force simp: index_exact_outside_def dest: map_of_SomeD)

text \<open>
  The hierarchy of \<open>order_sample\<close> with an index that still holds a class that is gone and a child
  that has moved.
\<close>

definition descendants_sample :: codebase where
  "descendants_sample = (codebase_of [named_class ''a'' (Some ''b'') [] [''i''], named_class ''b'' None [''t''] [],
      named_class ''i'' None [] [], named_class ''x'' (Some ''y'') [] [], named_class ''y'' (Some ''x'') [] [''i'']]
      [(''alias'', ''b'')])
    \<lparr>direct_classlike_descendants := [(byte_string ''b'', [byte_string ''gone'', byte_string ''a'']), (byte_string ''a'', [byte_string ''b''])]\<rparr>"

definition sample_names :: "bytes list" where
  "sample_names = map byte_string [''a'', ''b'', ''i'', ''x'', ''y'']"

lemma sample_classes: "map fst (class_likes descendants_sample) = sample_names"
  by (simp add: descendants_sample_def codebase_of_def sample_names_def named_class_def)

lemma sample_stale:
  "index_wf (direct_classlike_descendants descendants_sample)" "index_wf (all_class_like_descendants descendants_sample)"
  "children_mirrored (set sample_names) descendants_sample"
proof -
  show "index_wf (direct_classlike_descendants descendants_sample)" "index_wf (all_class_like_descendants descendants_sample)"
    by (simp_all add: index_wf_def descendants_sample_def codebase_of_def codebase_new_def)
  have "map_of (class_likes descendants_sample) p = None" if "p \<notin> set sample_names" for p
    using that unfolding sample_classes[symmetric] by (force simp: map_of_eq_None_iff)
  then show "children_mirrored (set sample_names) descendants_sample" unfolding children_mirrored_def
    by (metis option.distinct(1))
qed

theorem descendants_updated_witness:
  "index_exact (class_likes (update_descendants descendants_sample sample_names)) direct_parents
     (direct_classlike_descendants (update_descendants descendants_sample sample_names))
   \<and> direct_classlike_descendants (update_descendants descendants_sample sample_names)
     = [(byte_string ''b'', [byte_string ''a'']), (byte_string ''i'', [byte_string ''y'', byte_string ''a'']),
        (byte_string ''y'', [byte_string ''x'']), (byte_string ''x'', [byte_string ''y''])]"
proof -
  have "direct_classlike_descendants (update_descendants descendants_sample sample_names)
     = [(byte_string ''b'', [byte_string ''a'']), (byte_string ''i'', [byte_string ''y'', byte_string ''a'']),
        (byte_string ''y'', [byte_string ''x'']), (byte_string ''x'', [byte_string ''y''])]"
    by code_simp
  then show ?thesis
    using descendants_updated[OF sample_stale(1,2) _ _ sample_stale(3) refl]
      all_stale[of "class_likes descendants_sample"] unfolding sample_classes by blast
qed

definition updated_sample :: codebase where
  "updated_sample = update_descendants descendants_sample sample_names"

lemma updated_sample_exact:
  "index_exact (class_likes updated_sample) direct_parents (direct_classlike_descendants updated_sample)"
  using update_descendants_spec[OF sample_stale(1,2) _ _ sample_stale(3) updated_sample_def]
    all_stale[of "class_likes descendants_sample"] unfolding sample_classes by blast

text \<open>A name in other letter case, and an alias.\<close>

theorem all_descendants_exact_witness:
  "get_all_descendants updated_sample (byte_string ''I'') = map byte_string [''x'', ''a'', ''y'']
   \<and> {c. (c, byte_string ''i'') \<in> (extends_directly updated_sample)\<^sup>+ \<and> c \<noteq> byte_string ''i''}
     = set (map byte_string [''x'', ''a'', ''y''])
   \<and> {c. (c, byte_string ''b'') \<in> (extends_directly updated_sample)\<^sup>+ \<and> c \<noteq> byte_string ''b''}
     = set (map byte_string [''a''])"
proof -
  have i: "get_all_descendants updated_sample (byte_string ''I'') = map byte_string [''x'', ''a'', ''y'']"
    "byte_string ''i'' = (case resolve_class_like_word updated_sample (to_ascii_lowercase (byte_string ''I'')) of
       None \<Rightarrow> to_ascii_lowercase (byte_string ''I'') | Some actual \<Rightarrow> actual)"
    by code_simp+
  have al: "get_all_descendants updated_sample (byte_string ''Alias'') = map byte_string [''a'']"
    "byte_string ''b'' = (case resolve_class_like_word updated_sample (to_ascii_lowercase (byte_string ''Alias'')) of
       None \<Rightarrow> to_ascii_lowercase (byte_string ''Alias'') | Some actual \<Rightarrow> actual)"
    by code_simp+
  from all_descendants_exact[OF updated_sample_exact i(2)] all_descendants_exact[OF updated_sample_exact al(2)]
  show ?thesis unfolding i(1) al(1) by (simp only: simp_thms)
qed

end
