(* ===== verification/Guard_Match.thy ===== *)
theory Guard_Match
  imports Byte_Text
begin

text \<open>
  The matcher of the dependency guard (crate \<open>guard\<close>, \<open>matcher.rs\<close>): fully qualified names
  against patterns with wildcards and brace alternatives. The lemmas relate the greedy search
  inside a segment, the recursion over segments and the rewriting of braces to declarative
  readings of patterns; \<open>matches\<close> calls itself on what the braces expand to, so that not
  returning is a value of the model.
\<close>

section \<open>Parts of names\<close>

abbreviation separator :: u8 where "separator \<equiv> 92"
abbreviation star :: u8 where "star \<equiv> 42"
abbreviation open_brace :: u8 where "open_brace \<equiv> 123"
abbreviation close_brace :: u8 where "close_brace \<equiv> 125"
abbreviation comma :: u8 where "comma \<equiv> 44"

definition trim_separator :: "bytes \<Rightarrow> bytes" where
  "trim_separator s = rev (dropWhile (\<lambda>b. b = separator) (rev (dropWhile (\<lambda>b. b = separator) s)))"

definition split_first_separator :: "bytes \<Rightarrow> bytes \<times> bytes option" where
  "split_first_separator s =
     (case position_of (\<lambda>b. b = separator) s of
        Some position \<Rightarrow> (take position s, Some (drop (Suc position) s))
      | None \<Rightarrow> (s, None))"

definition rsplit_once_separator :: "bytes \<Rightarrow> (bytes \<times> bytes) option" where
  "rsplit_once_separator s =
     map_option (\<lambda>pos. (take pos s, drop (Suc pos) s)) (rposition_of (\<lambda>b. b = separator) s)"

definition starts_with_ignore_case :: "bytes \<Rightarrow> bytes \<Rightarrow> bool" where
  "starts_with_ignore_case haystack pre \<longleftrightarrow>
     length pre \<le> length haystack \<and> eq_ignore_ascii_case (take (length pre) haystack) pre"

section \<open>One segment\<close>

text \<open>The pieces of a list between the occurrences of a byte.\<close>

fun split_segments :: "u8 \<Rightarrow> bytes \<Rightarrow> bytes list" where
  "split_segments b [] = [[]]"
| "split_segments b (c # s) =
     (if c = b then [] # split_segments b s
      else case split_segments b s of [] \<Rightarrow> [[c]] | x # xs \<Rightarrow> (c # x) # xs)"

definition same_text :: "bool \<Rightarrow> bytes \<Rightarrow> bytes \<Rightarrow> bool" where
  "same_text case_sensitive a b \<longleftrightarrow> (if case_sensitive then a = b else eq_ignore_ascii_case a b)"

text \<open>\<open>haystack.windows(n).position(p)\<close>.\<close>

definition window_position :: "(bytes \<Rightarrow> bool) \<Rightarrow> nat \<Rightarrow> bytes \<Rightarrow> nat option" where
  "window_position p n haystack = List.find (\<lambda>i. p (take n (drop i haystack))) [0..<length haystack + 1 - n]"

definition find_subslice :: "bytes \<Rightarrow> bytes \<Rightarrow> nat option" where
  "find_subslice haystack needle =
     (if needle = [] then Some 0 else window_position (\<lambda>window. window = needle) (length needle) haystack)"

definition find_ignore_ascii_case :: "bytes \<Rightarrow> bytes \<Rightarrow> nat option" where
  "find_ignore_ascii_case haystack needle =
     (if needle = [] then Some 0
      else window_position (\<lambda>window. eq_ignore_ascii_case window needle) (length needle) haystack)"

text \<open>The loop over the chunks between the first and the last.\<close>

fun find_chunks :: "bool \<Rightarrow> bytes list \<Rightarrow> bytes \<Rightarrow> bool" where
  "find_chunks case_sensitive [] remainder = True"
| "find_chunks case_sensitive (chunk # chunks) remainder =
     (if chunk = [] then find_chunks case_sensitive chunks remainder
      else case (if case_sensitive then find_subslice remainder chunk else find_ignore_ascii_case remainder chunk) of
             Some pos \<Rightarrow> find_chunks case_sensitive chunks (drop (pos + length chunk) remainder)
           | None \<Rightarrow> False)"

definition strip_first_chunk :: "bool \<Rightarrow> bytes \<Rightarrow> bytes \<Rightarrow> bytes option" where
  "strip_first_chunk case_sensitive first_chunk remainder =
     (if first_chunk = [] then Some remainder
      else if length remainder < length first_chunk then None
      else if same_text case_sensitive (take (length first_chunk) remainder) first_chunk
      then Some (drop (length first_chunk) remainder)
      else None)"

definition strip_last_chunk :: "bool \<Rightarrow> bytes \<Rightarrow> bytes \<Rightarrow> bytes option" where
  "strip_last_chunk case_sensitive last_chunk remainder =
     (if last_chunk = [] then Some remainder
      else if length remainder < length last_chunk then None
      else if same_text case_sensitive (drop (length remainder - length last_chunk) remainder) last_chunk
      then Some (take (length remainder - length last_chunk) remainder)
      else None)"

definition segment_matches :: "bytes \<Rightarrow> bytes \<Rightarrow> bool \<Rightarrow> bool" where
  "segment_matches fqcn_part pattern_part case_sensitive =
     (if pattern_part = [star] then True
      else if star \<notin> set pattern_part then same_text case_sensitive fqcn_part pattern_part
      else
        let chunks = split_segments star pattern_part
        in case strip_first_chunk case_sensitive (hd chunks) fqcn_part of
             None \<Rightarrow> False
           | Some remainder \<Rightarrow>
               (case strip_last_chunk case_sensitive (last (tl chunks)) remainder of
                  None \<Rightarrow> False
                | Some remainder \<Rightarrow> find_chunks case_sensitive (butlast (tl chunks)) remainder))"

section \<open>Segments\<close>

lemma split_first_separator_shorter: "split_first_separator s = (a, Some r) \<Longrightarrow> length r < length s"
  by (auto simp: split_first_separator_def position_of_Some split: option.splits)

function do_match :: "bytes option \<Rightarrow> bytes option \<Rightarrow> bool \<Rightarrow> bool" where
  "do_match fqcn pattern is_constant =
     (case map_option split_first_separator pattern of
        None \<Rightarrow> fqcn = None
      | Some (p_part, pattern_rest) \<Rightarrow>
          if p_part = [star, star]
          then pattern_rest = None
            \<or> do_match fqcn pattern_rest is_constant
            \<or> (case fqcn of
                 None \<Rightarrow> False
               | Some f \<Rightarrow> do_match (snd (split_first_separator f)) pattern is_constant)
          else
            case map_option split_first_separator fqcn of
              None \<Rightarrow> False
            | Some (f_part, fqcn_rest) \<Rightarrow>
                segment_matches f_part p_part (is_constant \<and> fqcn_rest = None \<and> pattern_rest = None)
                \<and> do_match fqcn_rest pattern_rest is_constant)"
  by pat_completeness auto
termination
proof (relation "measure (\<lambda>(f, p, c). case_option 0 (\<lambda>s. length s + 1) f + case_option 0 (\<lambda>s. length s + 1) p)", goal_cases)
  case 1
  show ?case by simp
next
  case (2 fqcn pattern is_constant part p_part pattern_rest)
  then obtain s where "pattern = Some s" "split_first_separator s = (p_part, pattern_rest)" by auto
  then show ?case using split_first_separator_shorter[of s p_part] by (cases pattern_rest) auto
next
  case (3 fqcn pattern is_constant part p_part pattern_rest f)
  show ?case using split_first_separator_shorter[of f] 3 by (cases "split_first_separator f") (auto split: option.split)
next
  case (4 fqcn pattern is_constant part p_part pattern_rest part2 f_part fqcn_rest)
  then obtain s t where "pattern = Some s" "split_first_separator s = (p_part, pattern_rest)"
    "fqcn = Some t" "split_first_separator t = (f_part, fqcn_rest)" by auto
  then show ?case using split_first_separator_shorter[of s p_part] split_first_separator_shorter[of t f_part]
    by (cases pattern_rest; cases fqcn_rest) auto
qed

declare do_match.simps [simp del]

section \<open>Patterns of one segment, declaratively\<close>

text \<open>A star stands for any text, every other byte for itself.\<close>

fun glob :: "bytes \<Rightarrow> bytes \<Rightarrow> bool" where
  "glob [] s \<longleftrightarrow> s = []"
| "glob (c # p) s \<longleftrightarrow>
     (if c = star then \<exists>n \<le> length s. glob p (drop n s) else \<exists>t. s = c # t \<and> glob p t)"

fun join_star :: "bytes list \<Rightarrow> bytes" where
  "join_star [] = []"
| "join_star [x] = x"
| "join_star (x # y # xs) = x @ star # join_star (y # xs)"

lemma split_segments_not_Nil [simp]: "split_segments b s \<noteq> []"
  by (induction s) (auto split: list.split)

lemma join_split: "join_star (split_segments star s) = s"
proof (induction s)
  case (Cons c s)
  obtain x xs where s: "split_segments star s = x # xs" by (cases "split_segments star s") auto
  then show ?case using Cons by (cases xs) auto
qed simp

lemma split_segments_free: "x \<in> set (split_segments b s) \<Longrightarrow> b \<notin> set x"
proof (induction s arbitrary: x)
  case (Cons c s)
  obtain y ys where s: "split_segments b s = y # ys" by (cases "split_segments b s") auto
  then show ?case using Cons by (auto split: if_splits)
qed simp

lemma split_segments_many: "b \<in> set s \<Longrightarrow> tl (split_segments b s) \<noteq> []"
  by (induction s) (auto split: list.split)

lemma glob_literal: "star \<notin> set x \<Longrightarrow> glob (x @ p) s \<longleftrightarrow> (\<exists>t. s = x @ t \<and> glob p t)"
  by (induction x arbitrary: s) auto

lemma glob_star: "glob (star # p) s \<longleftrightarrow> (\<exists>u t. s = u @ t \<and> glob p t)"
proof
  assume "\<exists>u t. s = u @ t \<and> glob p t"
  then obtain u t where "s = u @ t" "glob p t" by blast
  then show "glob (star # p) s" by (auto intro!: exI[of _ "length u"])
next
  assume "glob (star # p) s"
  then show "\<exists>u t. s = u @ t \<and> glob p t" by simp (metis append_take_drop_id)
qed

declare glob.simps(2) [simp del]

text \<open>The chunks stand in the text, in order and apart from each other.\<close>

fun occur_in_order :: "bytes list \<Rightarrow> bytes \<Rightarrow> bool" where
  "occur_in_order [] s \<longleftrightarrow> True"
| "occur_in_order (x # xs) s \<longleftrightarrow> (\<exists>u t. s = u @ x @ t \<and> occur_in_order xs t)"

lemma occur_prepend: "occur_in_order xs t \<Longrightarrow> occur_in_order xs (u @ t)"
proof (cases xs)
  case (Cons x ys)
  assume "occur_in_order xs t"
  then obtain v w where "t = v @ x @ w" "occur_in_order ys w" using Cons by auto
  then have "u @ t = (u @ v) @ x @ w \<and> occur_in_order ys w" by simp
  then show ?thesis unfolding Cons occur_in_order.simps by blast
qed simp

lemma glob_chunks:
  "star \<notin> set l \<Longrightarrow> \<forall>x \<in> set mid. star \<notin> set x \<Longrightarrow>
     glob (star # join_star (mid @ [l])) s \<longleftrightarrow> (\<exists>m. s = m @ l \<and> occur_in_order mid m)"
proof (induction mid arbitrary: s)
  case Nil
  have "glob l t \<longleftrightarrow> t = l" for t using glob_literal[of l "[]" t] Nil by simp
  then show ?case unfolding glob_star by simp
next
  case (Cons x mid)
  have step: "join_star ((x # mid) @ [l]) = x @ star # join_star (mid @ [l])" by (cases mid) simp_all
  have "glob (star # join_star ((x # mid) @ [l])) s \<longleftrightarrow>
      (\<exists>u t. s = u @ x @ t \<and> glob (star # join_star (mid @ [l])) t)"
    unfolding step glob_star[of "x @ star # join_star (mid @ [l])"] glob_literal[OF bspec[OF Cons.prems(2) list.set_intros(1)]]
    by blast
  also have "\<dots> \<longleftrightarrow> (\<exists>u t m. s = u @ x @ t \<and> t = m @ l \<and> occur_in_order mid m)"
    using Cons.IH Cons.prems by auto
  also have "\<dots> \<longleftrightarrow> (\<exists>m. s = m @ l \<and> occur_in_order (x # mid) m)" by force
  finally show ?case .
qed

text \<open>The leftmost occurrence is as good as any.\<close>

lemma window_position_Some:
  "window_position p n h = Some i \<longleftrightarrow> i + n \<le> length h \<and> p (take n (drop i h)) \<and> (\<forall>j < i. \<not> p (take n (drop j h)))"
proof -
  have "j < length h + 1 - n \<longleftrightarrow> j + n \<le> length h" for j by arith
  then show ?thesis unfolding window_position_def find_Some_iff by (auto simp del: upt_Suc)
qed

lemma window_position_None:
  "window_position p n h = None \<longleftrightarrow> (\<forall>i. i + n \<le> length h \<longrightarrow> \<not> p (take n (drop i h)))"
  unfolding window_position_def find_None_iff by auto

lemma find_subslice_Some:
  assumes "find_subslice h x = Some i" shows "h = take i h @ x @ drop (i + length x) h"
proof (cases "x = []")
  case True
  then show ?thesis by simp
next
  case False
  then have "take (length x) (drop i h) = x"
    using assms unfolding find_subslice_def by (simp add: window_position_Some)
  then have "x @ drop (i + length x) h = drop i h"
    using append_take_drop_id[of "length x" "drop i h"] by (simp add: add.commute)
  then show ?thesis by simp
qed

lemma find_subslice_leftmost:
  assumes "h = u @ x @ t" "x \<noteq> []" shows "\<exists>i. find_subslice h x = Some i \<and> i \<le> length u"
proof -
  have find: "find_subslice h x = window_position (\<lambda>w. w = x) (length x) h" using assms(2) by (simp add: find_subslice_def)
  have at: "length u + length x \<le> length h" "take (length x) (drop (length u) h) = x" using assms(1) by simp_all
  show ?thesis
  proof (cases "find_subslice h x")
    case None
    then show ?thesis using at unfolding find window_position_None by blast
  next
    case (Some i)
    then have "\<forall>j < i. take (length x) (drop j h) \<noteq> x" unfolding find window_position_Some by blast
    then have "\<not> length u < i" using at(2) by blast
    then show ?thesis using Some by simp
  qed
qed

lemma occur_empty: "occur_in_order ([] # xs) s \<longleftrightarrow> occur_in_order xs s"
proof
  assume "occur_in_order ([] # xs) s"
  then show "occur_in_order xs s" by (auto intro: occur_prepend)
next
  assume "occur_in_order xs s"
  then show "occur_in_order ([] # xs) s" by (auto intro: exI[of _ "[]"])
qed

lemma find_chunks_exact: "find_chunks True chunks r \<longleftrightarrow> occur_in_order chunks r"
proof (induction chunks arbitrary: r)
  case (Cons x xs)
  show ?case
  proof (cases "x = []")
    case True
    then show ?thesis using Cons occur_empty by simp
  next
    case False
    have step: "find_chunks True (x # xs) r = (case find_subslice r x of
        Some i \<Rightarrow> occur_in_order xs (drop (i + length x) r) | None \<Rightarrow> False)"
      using False Cons by (simp split: option.split)
    show ?thesis
    proof
      assume "find_chunks True (x # xs) r"
      then obtain i where "find_subslice r x = Some i" "occur_in_order xs (drop (i + length x) r)"
        unfolding step by (auto split: option.splits)
      then show "occur_in_order (x # xs) r" using find_subslice_Some[of r x i] by auto
    next
      assume "occur_in_order (x # xs) r"
      then obtain u t where r: "r = u @ x @ t" "occur_in_order xs t" by auto
      then obtain i where i: "find_subslice r x = Some i" "i \<le> length u" using find_subslice_leftmost[OF r(1) False] by blast
      have "t = drop (length u + length x) r" using r(1) by simp
      also have "\<dots> = drop (length u - i) (drop (i + length x) r)" using i(2) by (simp add: add.commute)
      finally have "drop (i + length x) r = take (length u - i) (drop (i + length x) r) @ t"
        by (metis append_take_drop_id)
      then have "occur_in_order xs (drop (i + length x) r)" using occur_prepend[OF r(2)] by metis
      then show "find_chunks True (x # xs) r" unfolding step i(1) by simp
    qed
  qed
qed simp

text \<open>Ignoring case is comparing lower-case texts.\<close>

definition folded :: "bool \<Rightarrow> bytes \<Rightarrow> bytes" where
  "folded case_sensitive s = (if case_sensitive then s else to_ascii_lowercase s)"

lemma folded_simps [simp]:
  "length (folded c s) = length s" "folded c (take n s) = take n (folded c s)" "folded c (drop n s) = drop n (folded c s)"
  "folded c s = [] \<longleftrightarrow> s = []" "folded c [] = []" "folded c (s @ t) = folded c s @ folded c t"
  by (simp_all add: folded_def to_ascii_lowercase_def take_map drop_map)

lemma folded_True [simp]: "folded True s = s"
  by (simp add: folded_def)

lemma same_text_folded: "same_text c a b \<longleftrightarrow> folded c a = folded c b"
  by (simp add: same_text_def folded_def eq_ignore_ascii_case_def)

lemma find_folded:
  "(if c then find_subslice h x else find_ignore_ascii_case h x) = find_subslice (folded c h) (folded c x)"
  by (simp add: find_subslice_def find_ignore_ascii_case_def window_position_def eq_ignore_ascii_case_def
      folded_def to_ascii_lowercase_def take_map drop_map)

lemma find_chunks_folded: "find_chunks c chunks r \<longleftrightarrow> find_chunks True (map (folded c) chunks) (folded c r)"
proof (induction chunks arbitrary: r)
  case (Cons x xs)
  show ?case unfolding find_chunks.simps list.map find_folded folded_True using Cons by (auto split: option.split)
qed simp

lemma strip_first_folded:
  "strip_first_chunk c x r = Some r' \<longleftrightarrow> (\<exists>y. r = y @ r' \<and> folded c y = folded c x)"
proof
  assume "strip_first_chunk c x r = Some r'"
  then show "\<exists>y. r = y @ r' \<and> folded c y = folded c x"
    by (intro exI[of _ "take (length x) r"])
       (auto simp: strip_first_chunk_def same_text_folded simp del: folded_simps(2) split: if_splits)
next
  assume "\<exists>y. r = y @ r' \<and> folded c y = folded c x"
  then obtain y where y: "r = y @ r'" "folded c y = folded c x" by blast
  have "length y = length x" using arg_cong[OF y(2), of length] by simp
  then show "strip_first_chunk c x r = Some r'" using y by (auto simp: strip_first_chunk_def same_text_folded)
qed

lemma strip_last_folded:
  "strip_last_chunk c x r = Some r' \<longleftrightarrow> (\<exists>y. r = r' @ y \<and> folded c y = folded c x)"
proof
  assume "strip_last_chunk c x r = Some r'"
  then show "\<exists>y. r = r' @ y \<and> folded c y = folded c x"
    by (intro exI[of _ "drop (length r - length x) r"])
       (auto simp: strip_last_chunk_def same_text_folded simp del: folded_simps(3) split: if_splits)
next
  assume "\<exists>y. r = r' @ y \<and> folded c y = folded c x"
  then obtain y where y: "r = r' @ y" "folded c y = folded c x" by blast
  have "length y = length x" using arg_cong[OF y(2), of length] by simp
  then show "strip_last_chunk c x r = Some r'" using y by (auto simp: strip_last_chunk_def same_text_folded)
qed

lemma folded_append_iff: "folded c s = u @ t \<longleftrightarrow> (\<exists>v w. s = v @ w \<and> folded c v = u \<and> folded c w = t)"
  by (auto simp: folded_def to_ascii_lowercase_def map_eq_append_conv)

lemma folded_star [simp]: "star \<in> set (folded c s) \<longleftrightarrow> star \<in> set s"
proof -
  have "ascii_lower b = star \<longleftrightarrow> b = star" for b
    by (auto simp: ascii_lower_def word_le_nat_alt unat_word_ariths word_unat_eq_iff)
  then show ?thesis by (force simp: folded_def to_ascii_lowercase_def)
qed

lemma folded_first: "(\<exists>t. folded c f = u @ t \<and> P t) \<longleftrightarrow> (\<exists>y r. f = y @ r \<and> folded c y = u \<and> P (folded c r))"
  unfolding folded_append_iff by blast

lemma folded_last: "(\<exists>m. folded c r = m @ v \<and> P m) \<longleftrightarrow> (\<exists>m z. r = m @ z \<and> folded c z = v \<and> P (folded c m))"
  unfolding folded_append_iff by blast

lemma case_Some_iff: "(case g of None \<Rightarrow> False | Some r \<Rightarrow> P r) \<longleftrightarrow> (\<exists>r. g = Some r \<and> P r)"
  by (cases g) simp_all

lemma strip_case:
  "(case strip_first_chunk c x f of None \<Rightarrow> False | Some r \<Rightarrow> P r)
     \<longleftrightarrow> (\<exists>y r. f = y @ r \<and> folded c y = folded c x \<and> P r)"
  "(case strip_last_chunk c x f of None \<Rightarrow> False | Some r \<Rightarrow> P r)
     \<longleftrightarrow> (\<exists>r y. f = r @ y \<and> folded c y = folded c x \<and> P r)"
  unfolding case_Some_iff strip_first_folded strip_last_folded by blast+

lemma segment_matches_glob: "segment_matches f p c \<longleftrightarrow> glob (folded c p) (folded c f)"
proof (cases "star \<in> set p")
  case False
  have "glob (folded c p) (folded c f) \<longleftrightarrow> folded c f = folded c p"
    using glob_literal[of "folded c p" "[]" "folded c f"] False by simp
  then show ?thesis using False by (auto simp: segment_matches_def same_text_folded)
next
  case True
  show ?thesis
  proof (cases "p = [star]")
    case one: True
    have "folded c p = [star]" by (simp add: one folded_def to_ascii_lowercase_def ascii_lower_def)
    then show ?thesis using glob_star[of "[]" "folded c f"] by (simp add: segment_matches_def one)
  next
    case many: False
    obtain x xs where chunks: "split_segments star p = x # xs" by (cases "split_segments star p") auto
    have xs: "xs \<noteq> []" using split_segments_many[OF True] by (simp add: chunks)
    define mid l where "mid = butlast xs" and "l = last xs"
    have xs_eq: "xs = mid @ [l]" using xs by (simp add: mid_def l_def)
    have free: "star \<notin> set y" if "y \<in> insert x (insert l (set mid))" for y
      using split_segments_free[of y star p] that by (auto simp: chunks xs_eq)
    have "p = x @ star # join_star (mid @ [l])"
      using join_split[of p] xs by (cases mid) (auto simp: chunks xs_eq)
    moreover have "folded c (star # join_star ys) = star # join_star (map (folded c) ys)" for ys
    proof -
      have star: "folded c (star # s) = star # folded c s" for s
        by (simp add: folded_def to_ascii_lowercase_def ascii_lower_def)
      have "folded c (join_star ys) = join_star (map (folded c) ys)"
        by (induction ys rule: join_star.induct) (simp_all add: star)
      then show ?thesis by (simp add: star)
    qed
    ultimately have p: "folded c p = folded c x @ star # join_star (map (folded c) mid @ [folded c l])" by simp
    have "glob (folded c p) (folded c f) \<longleftrightarrow>
        (\<exists>t. folded c f = folded c x @ t \<and> (\<exists>m. t = m @ folded c l \<and> occur_in_order (map (folded c) mid) m))"
      unfolding p using glob_literal[of "folded c x"] glob_chunks[of "folded c l" "map (folded c) mid"] free by auto
    also have "\<dots> \<longleftrightarrow> (\<exists>y r. f = y @ r \<and> folded c y = folded c x \<and>
        (\<exists>m z. r = m @ z \<and> folded c z = folded c l \<and> occur_in_order (map (folded c) mid) (folded c m)))"
      unfolding folded_first folded_last by simp
    also have "\<dots> \<longleftrightarrow> segment_matches f p c"
      using True many unfolding segment_matches_def chunks Let_def list.sel mid_def[symmetric] l_def[symmetric]
      by (simp add: strip_case find_chunks_folded[of c mid] find_chunks_exact)
    finally show ?thesis by simp
  qed
qed

section \<open>Patterns of several segments, declaratively\<close>

text \<open>
  \<open>**\<close> stands for any number of segments, every other segment for one segment that matches it.
  Case counts only when the last segment of the pattern, other than \<open>**\<close>, stands for the last segment
  of a constant; before a trailing \<open>**\<close> that segment is compared in any case too.
\<close>

fun path_glob :: "bool \<Rightarrow> bytes list \<Rightarrow> bytes list \<Rightarrow> bool" where
  "path_glob c [] fs \<longleftrightarrow> fs = []"
| "path_glob c (p # ps) fs \<longleftrightarrow>
     (if p = [star, star] then \<exists>n \<le> length fs. path_glob c ps (drop n fs)
      else \<exists>f gs. fs = f # gs \<and> path_glob c ps gs
        \<and> glob (folded (c \<and> gs = [] \<and> ps = []) p) (folded (c \<and> gs = [] \<and> ps = []) f))"

fun segments :: "bytes option \<Rightarrow> bytes list" where
  "segments None = []"
| "segments (Some s) = split_segments separator s"

lemma segments_Nil [simp]: "segments x = [] \<longleftrightarrow> x = None"
  by (cases x) simp_all

lemma split_segments_append: "b \<notin> set u \<Longrightarrow> split_segments b (u @ b # v) = u # split_segments b v"
  by (induction u) auto

lemma split_segments_single: "b \<notin> set u \<Longrightarrow> split_segments b u = [u]"
  by (induction u) auto

lemma split_first_segments:
  assumes "split_first_separator s = (a, r)" shows "split_segments separator s = a # segments r"
proof (cases "position_of (\<lambda>b. b = separator) s")
  case None
  then have "separator \<notin> set s" by (auto simp: position_of_None)
  then show ?thesis using assms None by (auto simp: split_first_separator_def split_segments_single)
next
  case (Some n)
  then have n: "n < length s" "s ! n = separator" "\<forall>i < n. s ! i \<noteq> separator" by (simp_all add: position_of_Some)
  then have "separator \<notin> set (take n s)" by (auto simp: in_set_conv_nth)
  moreover have "s = take n s @ separator # drop (Suc n) s" using id_take_nth_drop[OF n(1)] n(2) by simp
  ultimately have "split_segments separator s = take n s # split_segments separator (drop (Suc n) s)" by (metis split_segments_append)
  then show ?thesis using assms Some by (auto simp: split_first_separator_def)
qed

lemma any_suffix_step:
  "(\<exists>n \<le> length fs. P (drop n fs)) \<longleftrightarrow> P fs \<or> (\<exists>g gs. fs = g # gs \<and> (\<exists>n \<le> length gs. P (drop n gs)))"
proof (cases fs)
  case (Cons g gs)
  have "(\<exists>n \<le> Suc (length gs). P (drop n (g # gs))) \<longleftrightarrow> P (g # gs) \<or> (\<exists>n \<le> length gs. P (drop n gs))"
    by (metis Suc_le_mono drop0 drop_Suc_Cons not0_implies_Suc zero_le)
  then show ?thesis using Cons by simp
qed simp

lemma do_match_step:
  "do_match fqcn None c \<longleftrightarrow> fqcn = None"
  "map_option split_first_separator pattern = Some ([star, star], ps) \<Longrightarrow>
     do_match fqcn pattern c \<longleftrightarrow> ps = None \<or> do_match fqcn ps c
       \<or> (case fqcn of None \<Rightarrow> False | Some f \<Rightarrow> do_match (snd (split_first_separator f)) pattern c)"
  "map_option split_first_separator pattern = Some (p, ps) \<Longrightarrow> p \<noteq> [star, star] \<Longrightarrow>
     do_match fqcn pattern c \<longleftrightarrow> (case map_option split_first_separator fqcn of None \<Rightarrow> False
       | Some (g, r) \<Rightarrow> segment_matches g p (c \<and> r = None \<and> ps = None) \<and> do_match r ps c)"
proof -
  show "do_match fqcn None c \<longleftrightarrow> fqcn = None" by (subst do_match.simps) simp
  show "do_match fqcn pattern c \<longleftrightarrow> ps = None \<or> do_match fqcn ps c
       \<or> (case fqcn of None \<Rightarrow> False | Some f \<Rightarrow> do_match (snd (split_first_separator f)) pattern c)"
    if "map_option split_first_separator pattern = Some ([star, star], ps)"
    unfolding do_match.simps[of fqcn pattern] that option.case prod.case by simp
  show "do_match fqcn pattern c \<longleftrightarrow> (case map_option split_first_separator fqcn of None \<Rightarrow> False
       | Some (g, r) \<Rightarrow> segment_matches g p (c \<and> r = None \<and> ps = None) \<and> do_match r ps c)"
    if "map_option split_first_separator pattern = Some (p, ps)" "p \<noteq> [star, star]"
    using that(2) by (subst do_match.simps) (simp only: that(1) option.case prod.case if_False)
qed

lemma do_match_exact: "do_match fqcn pattern c \<longleftrightarrow> path_glob c (segments pattern) (segments fqcn)"
proof (induction fqcn pattern c rule: do_match.induct)
  case (1 fqcn pattern c)
  show ?case
  proof (cases pattern)
    case None
    then show ?thesis by (simp add: do_match_step(1))
  next
    case (Some s)
    obtain p ps where sp: "split_first_separator s = (p, ps)" by force
    then have pat: "map_option split_first_separator pattern = Some (p, ps)" by (simp add: Some)
    have seg: "segments pattern = p # segments ps" using split_first_segments[OF sp] by (simp add: Some)
    show ?thesis
    proof (cases "p = [star, star]")
      case True
      have rest: "(case fqcn of None \<Rightarrow> False | Some f \<Rightarrow> do_match (snd (split_first_separator f)) pattern c)
          \<longleftrightarrow> (\<exists>g gs. segments fqcn = g # gs \<and> path_glob c (segments pattern) gs)"
      proof (cases fqcn)
        case (Some f)
        obtain g r where f: "split_first_separator f = (g, r)" by force
        have "do_match r pattern c \<longleftrightarrow> path_glob c (segments pattern) (segments r)"
          using 1(2)[OF pat refl True Some] by (simp add: f)
        then show ?thesis using Some f split_first_segments[OF f] by simp
      qed simp
      have "do_match fqcn pattern c \<longleftrightarrow> ps = None \<or> do_match fqcn ps c
          \<or> (\<exists>g gs. segments fqcn = g # gs \<and> path_glob c (segments pattern) gs)"
        using do_match_step(2)[of pattern ps fqcn c] pat True rest by simp
      also have "do_match fqcn ps c \<longleftrightarrow> path_glob c (segments ps) (segments fqcn)" by (rule 1(1)[OF pat refl True])
      also have "ps = None \<or> path_glob c (segments ps) (segments fqcn)
          \<or> (\<exists>g gs. segments fqcn = g # gs \<and> path_glob c (segments pattern) gs)
        \<longleftrightarrow> (\<exists>n \<le> length (segments fqcn). path_glob c (segments ps) (drop n (segments fqcn)))"
      proof (cases "ps = None")
        case None: True
        then have "path_glob c (segments ps) (drop (length (segments fqcn)) (segments fqcn))" by simp
        then show ?thesis using None by blast
      next
        case False
        then show ?thesis
          unfolding any_suffix_step[of "segments fqcn"] seg path_glob.simps(2)[of c p] if_P[OF True] using False by blast
      qed
      finally show ?thesis using True by (simp add: seg)
    next
      case False
      show ?thesis
      proof (cases fqcn)
        case None
        then show ?thesis using do_match_step(3)[OF pat False, of fqcn c] False seg by simp
      next
        case (Some f)
        obtain g r where f: "split_first_separator f = (g, r)" by force
        have name: "map_option split_first_separator fqcn = Some (g, r)" by (simp add: Some f)
        have ih: "segment_matches g p (c \<and> r = None \<and> ps = None) \<Longrightarrow>
            do_match r ps c \<longleftrightarrow> path_glob c (segments ps) (segments r)"
          by (rule 1(3)[OF pat refl False name refl])
        have "segments fqcn = g # segments r" using split_first_segments[OF f] by (simp add: Some)
        then show ?thesis using do_match_step(3)[OF pat False, of fqcn c] False ih
          unfolding name seg by (auto simp: segment_matches_glob)
      qed
    qed
  qed
qed


section \<open>Braces\<close>

text \<open>The scan for the brace that closes the one in front.\<close>

fun find_close :: "int \<Rightarrow> bytes \<Rightarrow> nat option" where
  "find_close depth [] = None"
| "find_close depth (b # s) =
     (if b = open_brace then map_option Suc (find_close (depth + 1) s)
      else if b = close_brace
      then (if depth - 1 = 0 then Some 0 else map_option Suc (find_close (depth - 1) s))
      else map_option Suc (find_close depth s))"

text \<open>The alternatives between the commas outside inner braces.\<close>

fun split_alternatives :: "int \<Rightarrow> bytes \<Rightarrow> bytes list" where
  "split_alternatives depth [] = [[]]"
| "split_alternatives depth (b # s) =
     (if b = comma \<and> depth = 0 then [] # split_alternatives depth s
      else case split_alternatives (if b = open_brace then depth + 1 else if b = close_brace then depth - 1 else depth) s of
             [] \<Rightarrow> [[b]] | x # xs \<Rightarrow> (b # x) # xs)"

lemma split_alternatives_opens: "x \<in> set (split_alternatives d s) \<Longrightarrow> count_list x open_brace \<le> count_list s open_brace"
proof (induction d s arbitrary: x rule: split_alternatives.induct)
  case (2 d b s)
  then show ?case by (auto split: if_splits list.splits) fastforce+
qed simp

lemma count_list_drop: "m \<le> n \<Longrightarrow> count_list (drop n xs) y \<le> count_list (drop m xs) y"
proof -
  assume "m \<le> n"
  then have "drop m xs = take (n - m) (drop m xs) @ drop n xs"
    by (metis append_take_drop_id drop_drop le_add_diff_inverse2)
  then show ?thesis by (metis count_list_append le_add2)
qed

function expand_braces :: "bytes \<Rightarrow> bytes list" where
  "expand_braces pattern =
     (case position_of (\<lambda>b. b = open_brace) pattern of
        None \<Rightarrow> [pattern]
      | Some at_open \<Rightarrow>
          (case find_close 0 (drop at_open pattern) of
             None \<Rightarrow> [pattern]
           | Some i \<Rightarrow>
               let at_close = at_open + i;
                   before = take at_open pattern;
                   suffix = drop (at_close + 1) pattern;
                   alternatives = take (at_close - (at_open + 1)) (drop (at_open + 1) pattern)
               in concat (map (\<lambda>part. expand_braces (before @ part @ suffix)) (split_alternatives 0 alternatives))))"
  by pat_completeness auto
termination
proof (relation "measure (\<lambda>p. count_list p open_brace)", goal_cases)
  case (2 pattern at_open i at_close before suffix alternatives part)
  have at: "at_open < length pattern" "pattern ! at_open = open_brace" using 2(1) by (simp_all add: position_of_Some)
  have "pattern = before @ open_brace # drop (at_open + 1) pattern"
    using id_take_nth_drop[OF at(1)] by (simp add: 2(4) at(2))
  then have "pattern = before @ open_brace # alternatives @ drop (at_close - (at_open + 1)) (drop (at_open + 1) pattern)"
  proof (rule trans, intro arg_cong[where f = "\<lambda>r. before @ open_brace # r"])
    show "drop (at_open + 1) pattern = alternatives @ drop (at_close - (at_open + 1)) (drop (at_open + 1) pattern)"
      unfolding 2(6) by (rule append_take_drop_id[symmetric])
  qed
  from arg_cong[OF this, of "\<lambda>p. count_list p open_brace"]
  have "count_list pattern open_brace = count_list before open_brace + Suc (count_list alternatives open_brace
      + count_list (drop (at_close - (at_open + 1)) (drop (at_open + 1) pattern)) open_brace)"
    by (simp only: count_list_append count_list.simps simp_thms if_True Suc_eq_plus1)
  moreover have "count_list suffix open_brace \<le> count_list (drop (at_close - (at_open + 1)) (drop (at_open + 1) pattern)) open_brace"
    unfolding 2(5) drop_drop by (rule count_list_drop) (simp add: 2(3))
  moreover have "count_list part open_brace \<le> count_list alternatives open_brace" using split_alternatives_opens 2(7) by blast
  ultimately show ?case by simp
qed simp

declare expand_braces.simps [simp del]

section \<open>Braces, declaratively\<close>

text \<open>A pattern with braces is a list of bytes and groups of alternatives, which may hold groups in turn.\<close>

datatype piece = Byte u8 | Group "piece list list"

fun join_comma :: "bytes list \<Rightarrow> bytes" where
  "join_comma [] = []"
| "join_comma [x] = x"
| "join_comma (x # y # xs) = x @ comma # join_comma (y # xs)"

fun render_piece :: "piece \<Rightarrow> bytes" where
  "render_piece (Byte b) = [b]"
| "render_piece (Group as) = open_brace # join_comma (map (\<lambda>a. concat (map render_piece a)) as) @ [close_brace]"

abbreviation render :: "piece list \<Rightarrow> bytes" where
  "render ps \<equiv> concat (map render_piece ps)"

text \<open>Every choice of one text of each list, in order.\<close>

fun combinations :: "bytes list list \<Rightarrow> bytes list" where
  "combinations [] = [[]]"
| "combinations (xs # xss) = concat (map (\<lambda>x. map (\<lambda>y. x @ y) (combinations xss)) xs)"

fun expand_piece :: "piece \<Rightarrow> bytes list" where
  "expand_piece (Byte b) = [[b]]"
| "expand_piece (Group as) = concat (map (\<lambda>a. combinations (map expand_piece a)) as)"

definition expand_pieces :: "piece list \<Rightarrow> bytes list" where
  "expand_pieces ps = combinations (map expand_piece ps)"

fun piece_wf :: "piece \<Rightarrow> bool" where
  "piece_wf (Byte b) \<longleftrightarrow> b \<noteq> open_brace \<and> b \<noteq> close_brace"
| "piece_wf (Group as) \<longleftrightarrow> as \<noteq> [] \<and> (\<forall>a \<in> set as. \<forall>p \<in> set a. p \<noteq> Byte comma \<and> piece_wf p)"

lemma combinations_append:
  "combinations (xss @ yss) = concat (map (\<lambda>x. map (\<lambda>y. x @ y) (combinations yss)) (combinations xss))"
proof (induction xss)
  case Nil
  show ?case by (simp add: map_idI)
next
  case (Cons xs xss)
  have "map (\<lambda>y. x @ y) (concat (map (\<lambda>z. map (\<lambda>y. z @ y) (combinations yss)) zs))
      = concat (map (\<lambda>z. map (\<lambda>y. z @ y) (combinations yss)) (map (\<lambda>y. x @ y) zs))" for x zs
    by (induction zs) simp_all
  then have "concat (map (\<lambda>x. map (\<lambda>y. x @ y) (combinations (xss @ yss))) xs)
      = concat (map (\<lambda>z. map (\<lambda>y. z @ y) (combinations yss)) (concat (map (\<lambda>x. map (\<lambda>y. x @ y) (combinations xss)) xs)))"
    unfolding Cons by (induction xs) simp_all
  then show ?case by simp
qed

lemma expand_group:
  "expand_pieces (map Byte bs @ Group as # rest) = concat (map (\<lambda>a. expand_pieces (map Byte bs @ a @ rest)) as)"
proof -
  have lit: "combinations (map expand_piece (map Byte bs)) = [bs]" by (induction bs) simp_all
  have "expand_pieces (map Byte bs @ ps) = map (\<lambda>y. bs @ y) (combinations (map expand_piece ps))" for ps
    unfolding expand_pieces_def map_append combinations_append lit by simp
  moreover have "combinations (map expand_piece (Group as # rest))
      = concat (map (\<lambda>a. combinations (map expand_piece (a @ rest))) as)"
    by (induction as) (simp_all add: combinations_append)
  ultimately show ?thesis by (simp add: map_concat comp_def)
qed

text \<open>The scans pass over a piece.\<close>

lemma find_close_join:
  assumes "\<And>a d s. a \<in> set as \<Longrightarrow> 1 \<le> d \<Longrightarrow> find_close d (f a @ s) = map_option ((+) (length (f a))) (find_close d s)"
  shows "1 \<le> d \<Longrightarrow> find_close d (join_comma (map f as) @ s)
    = map_option ((+) (length (join_comma (map f as)))) (find_close d s)"
  using assms
proof (induction as rule: induct_list012)
  case (3 x y zs)
  then have "find_close d (join_comma (map f (y # zs)) @ s) = map_option ((+) (length (join_comma (map f (y # zs))))) (find_close d s)"
    by simp
  moreover have "find_close d (f x @ comma # join_comma (map f (y # zs)) @ s)
      = map_option ((+) (length (f x))) (find_close d (comma # join_comma (map f (y # zs)) @ s))"
    using 3 by simp
  ultimately show ?case by (simp add: option.map_comp comp_def add.assoc)
qed (simp_all add: option.map_ident_strong)

lemma find_close_piece:
  "piece_wf p \<Longrightarrow> 1 \<le> d \<Longrightarrow> find_close d (render_piece p @ s) = map_option ((+) (length (render_piece p))) (find_close d s)"
proof (induction p arbitrary: d s)
  case (Byte b)
  then show ?case by simp
next
  case (Group as)
  have pieces: "find_close d (render a @ s) = map_option ((+) (length (render a))) (find_close d s)"
    if "a \<in> set as" "1 \<le> d" for a d s
  proof -
    have "find_close d (render ps @ s) = map_option ((+) (length (render ps))) (find_close d s)" if "set ps \<subseteq> set a" for ps
      using that
    proof (induction ps arbitrary: s)
      case (Cons p ps)
      have "find_close d (render_piece p @ render ps @ s)
          = map_option ((+) (length (render_piece p))) (find_close d (render ps @ s))"
        using Group.IH[OF \<open>a \<in> set as\<close>, of p d] Group.prems(1) \<open>1 \<le> d\<close> \<open>a \<in> set as\<close> Cons.prems by auto
      then show ?case using Cons by (simp add: option.map_comp comp_def add.assoc)
    qed (simp add: option.map_ident_strong)
    then show ?thesis by simp
  qed
  have "find_close (d + 1) (join_comma (map (\<lambda>a. render a) as) @ close_brace # s)
      = map_option ((+) (length (join_comma (map (\<lambda>a. render a) as)))) (find_close (d + 1) (close_brace # s))"
    using find_close_join[of as "\<lambda>a. render a" "d + 1"] pieces Group.prems(2) by simp
  then show ?case using Group.prems(2) by (simp add: option.map_comp comp_def)
qed

text \<open>The first alternative grows by a text.\<close>

fun extend_first :: "bytes \<Rightarrow> bytes list \<Rightarrow> bytes list" where
  "extend_first x [] = [x]"
| "extend_first x (y # ys) = (x @ y) # ys"

lemma split_alternatives_not_Nil [simp]: "split_alternatives d s \<noteq> []"
  by (cases s) (auto split: list.split)

lemma extend_first_append: "extend_first x (extend_first y ys) = extend_first (x @ y) ys"
  by (cases ys) simp_all

lemma extend_first_Nil: "ys \<noteq> [] \<Longrightarrow> extend_first [] ys = ys"
  by (cases ys) simp_all

lemma split_alternatives_step:
  "\<not> (b = comma \<and> d = 0) \<Longrightarrow> split_alternatives d (b # s) = extend_first [b]
     (split_alternatives (if b = open_brace then d + 1 else if b = close_brace then d - 1 else d) s)"
  by (cases "split_alternatives (if b = open_brace then d + 1 else if b = close_brace then d - 1 else d) s") auto

declare split_alternatives.simps(2) [simp del]

lemma split_alternatives_join:
  assumes "\<And>a d s. a \<in> set as \<Longrightarrow> 1 \<le> d \<Longrightarrow> split_alternatives d (f a @ s) = extend_first (f a) (split_alternatives d s)"
  shows "1 \<le> d \<Longrightarrow> split_alternatives d (join_comma (map f as) @ s) = extend_first (join_comma (map f as)) (split_alternatives d s)"
  using assms
proof (induction as rule: induct_list012)
  case (3 x y zs)
  then have "split_alternatives d (join_comma (map f (y # zs)) @ s) = extend_first (join_comma (map f (y # zs))) (split_alternatives d s)"
    by simp
  then have "split_alternatives d (comma # join_comma (map f (y # zs)) @ s)
      = extend_first (comma # join_comma (map f (y # zs))) (split_alternatives d s)"
    using 3(3) by (simp add: split_alternatives_step extend_first_append)
  moreover have "split_alternatives d (f x @ comma # join_comma (map f (y # zs)) @ s)
      = extend_first (f x) (split_alternatives d (comma # join_comma (map f (y # zs)) @ s))"
    using 3 by simp
  ultimately show ?case by (simp add: extend_first_append)
qed (simp_all add: extend_first_Nil)

lemma split_alternatives_piece:
  "piece_wf p \<Longrightarrow> 1 \<le> d \<or> d = 0 \<and> p \<noteq> Byte comma
    \<Longrightarrow> split_alternatives d (render_piece p @ s) = extend_first (render_piece p) (split_alternatives d s)"
proof (induction p arbitrary: d s)
  case (Byte b)
  then show ?case by (auto simp: split_alternatives_step)
next
  case (Group as)
  have pieces: "split_alternatives d (render a @ s) = extend_first (render a) (split_alternatives d s)"
    if "a \<in> set as" "1 \<le> d" for a d s
  proof -
    have "split_alternatives d (render ps @ s) = extend_first (render ps) (split_alternatives d s)" if "set ps \<subseteq> set a" for ps
      using that
    proof (induction ps arbitrary: s)
      case (Cons p ps)
      have "split_alternatives d (render_piece p @ render ps @ s)
          = extend_first (render_piece p) (split_alternatives d (render ps @ s))"
        using Group.IH[OF \<open>a \<in> set as\<close>, of p d] Group.prems(1) \<open>1 \<le> d\<close> \<open>a \<in> set as\<close> Cons.prems by auto
      then show ?case using Cons by (simp add: extend_first_append)
    qed (simp add: extend_first_Nil)
    then show ?thesis by simp
  qed
  have "split_alternatives (d + 1) (join_comma (map (\<lambda>a. render a) as) @ close_brace # s)
      = extend_first (join_comma (map (\<lambda>a. render a) as)) (split_alternatives (d + 1) (close_brace # s))"
    using split_alternatives_join[of as "\<lambda>a. render a" "d + 1"] pieces Group.prems(2) by auto
  then show ?case by (simp add: split_alternatives_step extend_first_append)
qed

lemma split_alternatives_render:
  assumes "as \<noteq> []" "\<forall>a \<in> set as. \<forall>p \<in> set a. p \<noteq> Byte comma \<and> piece_wf p"
  shows "split_alternatives 0 (join_comma (map (\<lambda>a. render a) as)) = map (\<lambda>a. render a) as"
  using assms
proof (induction as rule: induct_list012)
  have pieces: "split_alternatives 0 (render a @ s) = extend_first (render a) (split_alternatives 0 s)"
    if "\<forall>p \<in> set a. p \<noteq> Byte comma \<and> piece_wf p" for a s
    using that
  proof (induction a arbitrary: s)
    case (Cons p ps)
    then show ?case using split_alternatives_piece[of p 0 "render ps @ s"] by (simp add: extend_first_append)
  qed (simp add: extend_first_Nil)
  {
    case (2 a)
    then show ?case using pieces[of a "[]"] by simp
  next
    case (3 a b as)
    then show ?case using pieces[of a "comma # join_comma (map (\<lambda>a. render a) (b # as))"]
      by (simp add: split_alternatives.simps(2))
  }
qed simp

lemma first_group:
  obtains bs where "ps = map Byte bs" | bs as rest where "ps = map Byte bs @ Group as # rest"
proof (induction ps arbitrary: thesis)
  case Nil
  then show ?case by simp
next
  case (Cons p ps)
  show ?case
  proof (cases p)
    case (Byte b)
    show ?thesis
    proof (rule Cons.IH)
      show thesis if "ps = map Byte bs" for bs using Cons.prems(1)[of "b # bs"] that Byte by simp
      show thesis if "ps = map Byte bs @ Group as # rest" for bs as rest
        using Cons.prems(2)[of "b # bs" as rest] that Byte by simp
    qed
  next
    case (Group as)
    then show ?thesis using Cons.prems(2)[of "[]" as ps] by simp
  qed
qed

lemma render_bytes: "render (map Byte bs) = bs"
  by (induction bs) simp_all

lemma expand_braces_free: "open_brace \<notin> set p \<Longrightarrow> expand_braces p = [p]"
proof -
  assume "open_brace \<notin> set p"
  then have "position_of (\<lambda>b. b = open_brace) p = None" by (auto simp: position_of_None)
  then show ?thesis by (subst expand_braces.simps) simp
qed

lemma expand_braces_group:
  assumes "open_brace \<notin> set bs" "as \<noteq> []" "\<forall>a \<in> set as. \<forall>p \<in> set a. p \<noteq> Byte comma \<and> piece_wf p"
  shows "expand_braces (bs @ render_piece (Group as) @ s) = concat (map (\<lambda>a. expand_braces (bs @ render a @ s)) as)"
proof -
  let ?j = "join_comma (map (\<lambda>a. render a) as)"
  let ?p = "bs @ open_brace # ?j @ close_brace # s"
  have open_at: "position_of (\<lambda>b. b = open_brace) ?p = Some (length bs)"
    using assms(1) by (intro position_of_append) auto
  have "find_close 1 (?j @ close_brace # s) = map_option ((+) (length ?j)) (find_close 1 (close_brace # s))"
  proof (rule find_close_join)
    fix a d s assume a: "a \<in> set as" "(1::int) \<le> d"
    have "find_close d (render ps @ s) = map_option ((+) (length (render ps))) (find_close d s)" if "set ps \<subseteq> set a" for ps
      using that
    proof (induction ps arbitrary: s)
      case (Cons p ps)
      have "find_close d (render_piece p @ render ps @ s) = map_option ((+) (length (render_piece p))) (find_close d (render ps @ s))"
        using find_close_piece[of p d] assms(3) a Cons.prems by auto
      then show ?case using Cons by (simp add: option.map_comp comp_def add.assoc)
    qed (simp add: option.map_ident_strong)
    then show "find_close d (render a @ s) = map_option ((+) (length (render a))) (find_close d s)" by simp
  qed simp
  then have close_at: "find_close 0 (drop (length bs) ?p) = Some (Suc (length ?j))" by simp
  have parts: "split_alternatives 0 ?j = map (\<lambda>a. render a) as" by (rule split_alternatives_render[OF assms(2,3)])
  have "expand_braces ?p = concat (map (\<lambda>part. expand_braces (bs @ part @ s)) (split_alternatives 0 ?j))"
    by (subst expand_braces.simps) (simp only: open_at close_at option.case Let_def, simp)
  then show ?thesis by (simp add: parts comp_def)
qed

text \<open>Expanding the text of a pattern gives its combinations, in order.\<close>

lemma expand_braces_render: "\<forall>p \<in> set ps. piece_wf p \<Longrightarrow> expand_braces (render ps) = expand_pieces ps"
proof (induction "count_list (render ps) open_brace" arbitrary: ps rule: less_induct)
  case less
  show ?case
  proof (cases rule: first_group[of ps])
    case (1 bs)
    have "combinations (map expand_piece (map Byte bs)) = [bs]" by (induction bs) simp_all
    moreover have "open_brace \<notin> set bs" using less.prems by (auto simp: 1)
    ultimately show ?thesis unfolding 1 render_bytes expand_pieces_def
      using expand_braces_free[of bs] by simp
  next
    case (2 bs as rest)
    have bytes: "\<forall>b \<in> set bs. b \<noteq> open_brace \<and> b \<noteq> close_brace" using less.prems by (simp add: 2 ball_Un)
    have wf: "open_brace \<notin> set bs" "as \<noteq> []" "\<forall>a \<in> set as. \<forall>p \<in> set a. p \<noteq> Byte comma \<and> piece_wf p"
      "\<forall>p \<in> set rest. piece_wf p" "\<forall>b \<in> set bs. piece_wf (Byte b)"
      using less.prems bytes by (simp_all add: 2 ball_Un) blast
    have "expand_braces (bs @ render a @ render rest) = expand_pieces (map Byte bs @ a @ rest)" if "a \<in> set as" for a
    proof -
      have "count_list (render a) open_brace \<le> count_list (join_comma (map (\<lambda>a. render a) as)) open_brace"
        using that by (induction as rule: induct_list012) auto
      then have less_count: "count_list (render (map Byte bs @ a @ rest)) open_brace < count_list (render ps) open_brace"
        by (simp add: 2)
      have "\<forall>p \<in> set (map Byte bs @ a @ rest). piece_wf p" using wf that by auto
      from less.hyps[OF less_count this] show ?thesis by (simp only: map_append concat_append render_bytes)
    qed
    then have "map (\<lambda>a. expand_braces (bs @ render a @ render rest)) as = map (\<lambda>a. expand_pieces (map Byte bs @ a @ rest)) as"
      by simp
    then show ?thesis using expand_braces_group[OF wf(1,2,3), of "render rest"]
      by (simp only: 2 expand_group map_append concat_append render_bytes list.map concat.simps)
  qed
qed


section \<open>Matching\<close>

text \<open>\<open>iter().any(p)\<close> for a test that may not return.\<close>

fun any_returning :: "('a \<Rightarrow> bool option) \<Rightarrow> 'a list \<Rightarrow> bool option" where
  "any_returning p [] = Some False"
| "any_returning p (x # xs) = Option.bind (p x) (\<lambda>b. if b then Some True else any_returning p xs)"

lemma any_returning_mono [partial_function_mono]:
  assumes "\<And>y. mono_option (\<lambda>f. B y f)"
  shows "mono_option (\<lambda>f. any_returning (\<lambda>y. B y f) xs)"
proof (induction xs)
  case (Cons x xs)
  show ?case unfolding any_returning.simps
    by (rule bind_mono[OF assms]) (intro partial_function_mono Cons)
qed (simp add: option.const_mono)

text \<open>What \<open>matches\<close> does for a pattern without braces.\<close>

definition matches_plain :: "bytes \<Rightarrow> bytes \<Rightarrow> bool \<Rightarrow> bool \<Rightarrow> bool" where
  "matches_plain fqcn pattern is_constant treat_as_namespace =
     (if star \<notin> set pattern then
        let p = trim_separator pattern; f = trim_separator fqcn
        in if p = [] then f = []
           else if treat_as_namespace \<or> (pattern \<noteq> [] \<and> last pattern = separator) then
             (if \<not> starts_with_ignore_case f p then False
              else length f = length p \<or> (length p < length f \<and> f ! length p = separator))
           else if is_constant then
             (case (rsplit_once_separator f, rsplit_once_separator p) of
                (Some (f_ns, f_name), Some (p_ns, p_name)) \<Rightarrow> eq_ignore_ascii_case f_ns p_ns \<and> f_name = p_name
              | (None, None) \<Rightarrow> f = p
              | _ \<Rightarrow> False)
           else eq_ignore_ascii_case f p
      else
        let fqcn = trim_separator fqcn; pattern = trim_separator pattern
        in if pattern = [star, star] then True
           else if pattern = [star] then separator \<notin> set fqcn
           else if fqcn = [] \<or> pattern = [] then fqcn = pattern
           else do_match (Some fqcn) (Some pattern) is_constant)"

partial_function (option) matches :: "bytes \<Rightarrow> bytes \<Rightarrow> bool \<Rightarrow> bool \<Rightarrow> bool option" where
  "matches fqcn pattern is_constant treat_as_namespace =
     (if open_brace \<in> set pattern
      then any_returning (\<lambda>p. matches fqcn p is_constant treat_as_namespace) (expand_braces pattern)
      else Some (matches_plain fqcn pattern is_constant treat_as_namespace))"

text \<open>Every balanced text is the text of a pattern with braces.\<close>

fun balanced_from :: "nat \<Rightarrow> bytes \<Rightarrow> bool" where
  "balanced_from d [] \<longleftrightarrow> d = 0"
| "balanced_from d (b # s) \<longleftrightarrow>
     (if b = open_brace then balanced_from (d + 1) s
      else if b = close_brace then 0 < d \<and> balanced_from (d - 1) s
      else balanced_from d s)"

abbreviation alternative_wf :: "piece list \<Rightarrow> bool" where
  "alternative_wf a \<equiv> \<forall>p \<in> set a. p \<noteq> Byte comma \<and> piece_wf p"

text \<open>The rest of a text inside \<open>d\<close> groups: the alternatives that remain of each, and what follows.\<close>

fun remaining :: "nat \<Rightarrow> bytes \<Rightarrow> bool" where
  "remaining 0 s \<longleftrightarrow> (\<exists>ps. (\<forall>p \<in> set ps. piece_wf p) \<and> s = render ps)"
| "remaining (Suc d) s \<longleftrightarrow> (\<exists>a as r. alternative_wf a \<and> (\<forall>a \<in> set as. alternative_wf a)
     \<and> s = join_comma (map (\<lambda>a. render a) (a # as)) @ close_brace # r \<and> remaining d r)"

lemma join_comma_first: "join_comma ((x @ y) # ys) = x @ join_comma (y # ys)"
  by (cases ys) simp_all

lemma remaining_piece:
  assumes "remaining d s" "piece_wf p" "p = Byte comma \<longrightarrow> d = 0"
  shows "remaining d (render_piece p @ s)"
proof (cases d)
  case 0
  then obtain ps where "\<forall>p \<in> set ps. piece_wf p" "s = render ps" using assms(1) by auto
  then show ?thesis using 0 assms(2) by (auto intro!: exI[of _ "p # ps"])
next
  case (Suc e)
  then obtain a as r where a: "alternative_wf a" "\<forall>a \<in> set as. alternative_wf a"
    "s = join_comma (map (\<lambda>a. render a) (a # as)) @ close_brace # r" "remaining e r"
    using assms(1) by (auto simp del: list.map)
  have "alternative_wf (p # a)" using a(1) assms(2,3) Suc by auto
  moreover have "render_piece p @ s = join_comma (map (\<lambda>a. render a) ((p # a) # as)) @ close_brace # r"
    using a(3) join_comma_first[of "render_piece p" "render a" "map (\<lambda>a. render a) as"] by simp
  ultimately show ?thesis unfolding Suc remaining.simps using a(2,4) by blast
qed

lemma balanced_remaining: "balanced_from d s \<Longrightarrow> remaining d s"
proof (induction d s rule: balanced_from.induct)
  case (1 d)
  then show ?case by (auto intro: exI[of _ "[]"])
next
  case (2 d b s)
  consider (opens) "b = open_brace" | (closes) "b = close_brace" | (comma) "b = comma" "0 < d"
    | (byte) "b \<noteq> open_brace" "b \<noteq> close_brace" "b = comma \<longrightarrow> d = 0" by auto
  then show ?case
  proof cases
    case opens
    then have "remaining (Suc d) s" using 2(1,4) by simp
    then obtain a as r where a: "alternative_wf a" "\<forall>a \<in> set as. alternative_wf a"
      "s = join_comma (map (\<lambda>a. render a) (a # as)) @ close_brace # r" "remaining d r"
      by (auto simp del: list.map)
    have "piece_wf (Group (a # as))" using a(1,2) by simp
    moreover have "b # s = render_piece (Group (a # as)) @ r" using a(3) opens by simp
    ultimately show ?thesis using remaining_piece[OF a(4), of "Group (a # as)"] by simp
  next
    case closes
    then obtain e where "d = Suc e" "remaining e s" using 2(2,4) by (cases d) auto
    moreover have "b # s = join_comma (map (\<lambda>a. render a) ([] # [])) @ close_brace # s" using closes by simp
    ultimately show ?thesis unfolding \<open>d = Suc e\<close> remaining.simps
      by (intro exI[of _ "[]"] exI[of _ s]) simp
  next
    case comma
    then obtain e where e: "d = Suc e" by (cases d) auto
    have "remaining d s" using 2(3,4) comma by simp
    then obtain a as r where a: "alternative_wf a" "\<forall>a \<in> set as. alternative_wf a"
      "s = join_comma (map (\<lambda>a. render a) (a # as)) @ close_brace # r" "remaining e r"
      unfolding e remaining.simps by blast
    then have "b # s = join_comma (map (\<lambda>a. render a) ([] # a # as)) @ close_brace # r" using comma by simp
    then show ?thesis unfolding e remaining.simps using a
      by (intro exI[of _ "[]"] exI[of _ "a # as"] exI[of _ r]) simp
  next
    case byte
    then show ?thesis using remaining_piece[of d s "Byte b"] 2(3,4) by simp
  qed
qed

lemma expand_pieces_free: "\<forall>p \<in> set ps. piece_wf p \<Longrightarrow> x \<in> set (expand_pieces ps) \<Longrightarrow> open_brace \<notin> set x"
proof -
  have comb: "open_brace \<notin> set x" if "x \<in> set (combinations xss)" "\<forall>xs \<in> set xss. \<forall>y \<in> set xs. open_brace \<notin> set y" for x xss
    using that by (induction xss arbitrary: x) auto
  have piece: "piece_wf p \<Longrightarrow> y \<in> set (expand_piece p) \<Longrightarrow> open_brace \<notin> set y" for p y
  proof (induction p arbitrary: y)
    case (Group as)
    then obtain a where a: "a \<in> set as" "y \<in> set (combinations (map expand_piece a))" by auto
    show ?case by (rule comb[OF a(2)]) (use Group a(1) in auto)
  qed simp
  show "open_brace \<notin> set x" if wf: "\<forall>p \<in> set ps. piece_wf p" and x: "x \<in> set (expand_pieces ps)"
    by (rule comb[OF x[unfolded expand_pieces_def]]) (use wf piece in fastforce)
qed

lemma any_returning_Some: "(\<And>x. x \<in> set xs \<Longrightarrow> p x = Some (q x)) \<Longrightarrow> any_returning p xs = Some (\<exists>x \<in> set xs. q x)"
  by (induction xs) auto

lemma matches_free: "open_brace \<notin> set p \<Longrightarrow> matches f p c ns = Some (matches_plain f p c ns)"
  by (simp add: matches.simps)

lemma matches_render:
  assumes "\<forall>p \<in> set ps. piece_wf p"
  shows "matches fqcn (render ps) is_constant ns = Some (\<exists>p \<in> set (expand_pieces ps). matches_plain fqcn p is_constant ns)"
proof (cases "open_brace \<in> set (render ps)")
  case True
  then have "matches fqcn (render ps) is_constant ns = any_returning (\<lambda>p. matches fqcn p is_constant ns) (expand_pieces ps)"
    by (subst matches.simps) (simp add: expand_braces_render[OF assms])
  then show ?thesis using expand_pieces_free[OF assms] by (simp add: any_returning_Some matches_free)
next
  case False
  then have "expand_pieces ps = [render ps]" using expand_braces_render[OF assms] expand_braces_free by metis
  then show ?thesis using matches_free[OF False] by simp
qed

text \<open>
  C28. A pattern with braces matches a name exactly when one of the patterns it stands for does,
  with one alternative chosen in every group, nested groups included; the expansion lists the
  choices in the order of the groups, and the matcher returns.
\<close>

theorem brace_patterns_exact:
  assumes "\<forall>p \<in> set ps. piece_wf p"
  shows "expand_braces (render ps) = expand_pieces ps
    \<and> matches fqcn (render ps) is_constant ns = Some (\<exists>p \<in> set (expand_pieces ps). matches_plain fqcn p is_constant ns)"
  using expand_braces_render[OF assms] matches_render[OF assms] by blast

theorem brace_patterns_exact_witness:
  "expand_braces (byte_string ''App{A,B{x,y}}*'') = map byte_string [''AppA*'', ''AppBx*'', ''AppBy*'']
   \<and> matches (byte_string ''appbyUser'') (byte_string ''App{A,B{x,y}}*'') False False = Some True"
proof -
  define ps where "ps = map Byte (byte_string ''App'')
    @ [Group [map Byte (byte_string ''A''), Byte 66 # [Group [map Byte (byte_string ''x''), map Byte (byte_string ''y'')]]], Byte star]"
  have wf: "\<forall>p \<in> set ps. piece_wf p" and written: "render ps = byte_string ''App{A,B{x,y}}*''"
    and choices: "expand_pieces ps = map byte_string [''AppA*'', ''AppBx*'', ''AppBy*'']"
    by (simp_all add: ps_def expand_pieces_def)
  have "matches_plain (byte_string ''appbyUser'') (byte_string ''AppBy*'') False False" by code_simp
  then show ?thesis using brace_patterns_exact[OF wf, of "byte_string ''appbyUser''" False False]
    unfolding written choices by simp
qed

text \<open>
  C15. Without braces, a pattern with wildcards matches a name exactly when its segments, read
  declaratively, do: \<open>**\<close> as any number of segments, none included, and \<open>*\<close> inside a segment as any
  text. Letters match in any case, except where the last segment of the pattern, other than \<open>**\<close>,
  stands for the last segment of a constant. A name without any segment only matches the patterns \<open>*\<close>
  and \<open>**\<close>.
\<close>

theorem wildcard_patterns_exact:
  assumes "star \<in> set pattern" "open_brace \<notin> set pattern"
  shows "matches fqcn pattern is_constant ns = Some
    (if trim_separator fqcn = [] then trim_separator pattern = [star] \<or> trim_separator pattern = [star, star]
     else path_glob is_constant (split_segments separator (trim_separator pattern)) (split_segments separator (trim_separator fqcn)))"
proof -
  let ?p = "trim_separator pattern" and ?f = "trim_separator fqcn"
  have keeps: "star \<in> set (dropWhile (\<lambda>b. b = separator) s) \<longleftrightarrow> star \<in> set s" for s by (induction s) auto
  have "star \<in> set ?p" using assms(1) by (simp add: trim_separator_def keeps)
  then have p: "?p \<noteq> []" by auto
  have two: "path_glob is_constant (split_segments separator [star, star]) fs" for fs
    by (auto intro: exI[of _ "length fs"])
  have one: "path_glob is_constant (split_segments separator [star]) (split_segments separator f) \<longleftrightarrow> separator \<notin> set f" for f
  proof -
    have "glob (folded c [star]) s" for c s
      using glob_star[of "[]" s] by (simp add: folded_def to_ascii_lowercase_def ascii_lower_def)
    then have "path_glob is_constant (split_segments separator [star]) (split_segments separator f) \<longleftrightarrow> tl (split_segments separator f) = []"
      by (cases "split_segments separator f") auto
    then show ?thesis using split_segments_many[of separator f] split_segments_single[of separator f] by auto
  qed
  have "do_match (Some ?f) (Some ?p) is_constant \<longleftrightarrow> path_glob is_constant (split_segments separator ?p) (split_segments separator ?f)"
    by (simp only: do_match_exact segments.simps)
  then have "matches_plain fqcn pattern is_constant ns \<longleftrightarrow>
    (if ?f = [] then ?p = [star] \<or> ?p = [star, star]
     else path_glob is_constant (split_segments separator ?p) (split_segments separator ?f))"
    using assms(1) p one[of ?f] two[of "split_segments separator ?f"] unfolding matches_plain_def Let_def by auto
  then show ?thesis using matches_free[OF assms(2)] by simp
qed

text \<open>A qualified name from its segments.\<close>

fun fqn :: "string list \<Rightarrow> bytes" where
  "fqn [] = []"
| "fqn [x] = byte_string x"
| "fqn (x # y # xs) = byte_string x @ separator # fqn (y # xs)"

theorem wildcard_patterns_exact_witness:
  "matches (fqn [''app'', ''Domain'', ''UserRepository'']) (fqn [''App'', ''**'', ''User*'']) True False = Some True
   \<and> path_glob True [byte_string ''App'', byte_string ''**'', byte_string ''User*'']
       [byte_string ''app'', byte_string ''Domain'', byte_string ''UserRepository'']"
proof -
  have "matches (fqn [''app'', ''Domain'', ''UserRepository'']) (fqn [''App'', ''**'', ''User*'']) True False = Some True"
    by (subst matches_free) code_simp+
  moreover have "star \<in> set (fqn [''App'', ''**'', ''User*''])" "open_brace \<notin> set (fqn [''App'', ''**'', ''User*''])"
    "split_segments separator (trim_separator (fqn [''App'', ''**'', ''User*''])) = [byte_string ''App'', byte_string ''**'', byte_string ''User*'']"
    "split_segments separator (trim_separator (fqn [''app'', ''Domain'', ''UserRepository'']))
      = [byte_string ''app'', byte_string ''Domain'', byte_string ''UserRepository'']"
    "trim_separator (fqn [''app'', ''Domain'', ''UserRepository'']) \<noteq> []"
    by code_simp+
  ultimately show ?thesis
    using wildcard_patterns_exact[of "fqn [''App'', ''**'', ''User*'']" "fqn [''app'', ''Domain'', ''UserRepository'']" True False]
    by simp
qed

text \<open>
  The last segment of a constant is documented to be matched with its case; before a trailing \<open>**\<close>, and
  in a pattern that ends in a separator, it is not.
\<close>

theorem constant_case_ignored:
  "matches (fqn [''App'', ''foo'']) (fqn [''App'', ''FOO'', ''**'']) True False = Some True
   \<and> matches (fqn [''App'', ''foo'']) (fqn [''App'', ''FOO'', '''']) True False = Some True
   \<and> matches (fqn [''App'', ''foo'']) (fqn [''App'', ''FOO'']) True False = Some False
   \<and> matches (fqn [''App'', ''foo'']) (fqn [''**'', ''FOO'']) True False = Some False"
proof -
  have free: "open_brace \<notin> set (fqn [''App'', ''FOO'', ''**''])" "open_brace \<notin> set (fqn [''App'', ''FOO'', ''''])"
    "open_brace \<notin> set (fqn [''App'', ''FOO''])" "open_brace \<notin> set (fqn [''**'', ''FOO''])"
    by code_simp+
  show ?thesis unfolding free[THEN matches_free] by code_simp
qed

text \<open>
  A pattern whose first open brace is never closed makes the matcher call itself on the same
  pattern: it returns for no name.
\<close>

theorem unclosed_brace_never_returns:
  assumes "pattern = before @ open_brace # rest" "open_brace \<notin> set before" "find_close 1 rest = None"
  shows "matches fqcn pattern is_constant ns = None"
proof -
  have "position_of (\<lambda>b. b = open_brace) pattern = Some (length before)"
    unfolding assms(1) using assms(2) by (intro position_of_append) auto
  then have stuck: "expand_braces pattern = [pattern]"
    using assms(3) by (subst expand_braces.simps) (simp add: assms(1))
  have "p \<noteq> pattern" if "matches f p c n = Some y" for f p c n y
  proof (rule matches.raw_induct[where P = "\<lambda>f p c n y. p \<noteq> pattern", OF _ that])
    fix self f p c n y
    assume ih: "\<And>f p c n y. self f p c n = Some y \<Longrightarrow> p \<noteq> pattern"
      and body: "(if open_brace \<in> set p then any_returning (\<lambda>q. self f q c n) (expand_braces p)
        else Some (matches_plain f p c n)) = Some y"
    show "p \<noteq> pattern"
    proof
      assume p: "p = pattern"
      then have "any_returning (\<lambda>q. self f q c n) [pattern] = Some y" using body stuck assms(1) by simp
      then obtain y' where "self f pattern c n = Some y'" by (auto simp: bind_eq_Some_conv)
      then show False using ih by blast
    qed
  qed
  then show ?thesis by (cases "matches fqcn pattern is_constant ns") blast+
qed

theorem unclosed_brace_never_returns_witness:
  "matches (byte_string ''App'') (fqn [''App'', ''{Domain'']) False True = None"
proof (rule unclosed_brace_never_returns)
  show "fqn [''App'', ''{Domain''] = fqn [''App'', ''''] @ open_brace # byte_string ''Domain''" by simp
  show "open_brace \<notin> set (fqn [''App'', ''''])" by simp
  show "find_close 1 (byte_string ''Domain'') = None" by simp
qed

end
