(* ===== verification/Guard_Path.thy ===== *)
theory Guard_Path
  imports Guard_Match
begin

text \<open>
  Paths of the dependency guard (crate \<open>guard\<close>, \<open>path.rs\<close>): the selectors its rules name, parsed
  from text and printed. The lemmas show that a printed path parses back, and that the matcher
  returns for every pattern the parser accepts.
\<close>

section \<open>Paths\<close>

datatype namespace_path = Global_Namespace | Specific_Namespace bytes

datatype symbol_selector = Namespace_Selector namespace_path | Symbol_Selector bytes | Pattern_Selector bytes

datatype guard_path = All_Path | Self_Path | Native_Path | Layer_Path bytes | Selector_Path symbol_selector

datatype path_error = Invalid_Path | Invalid_Selector | Invalid_Namespace

section \<open>Validation\<close>

definition start_of_identifier :: "u8 \<Rightarrow> bool" where
  "start_of_identifier b \<longleftrightarrow> 97 \<le> b \<and> b \<le> 122 \<or> 65 \<le> b \<and> b \<le> 90 \<or> b = 95 \<or> 128 \<le> b"

definition part_of_identifier :: "u8 \<Rightarrow> bool" where
  "part_of_identifier b \<longleftrightarrow> 48 \<le> b \<and> b \<le> 57 \<or> start_of_identifier b"

definition is_valid_identifier_part :: "bytes \<Rightarrow> bool" where
  "is_valid_identifier_part part \<longleftrightarrow>
     (case part of [] \<Rightarrow> False | b # s \<Rightarrow> start_of_identifier b \<and> list_all part_of_identifier s)"

text \<open>The loop over the bytes, with the depth of braces.\<close>

fun valid_pattern_from :: "nat \<Rightarrow> bytes \<Rightarrow> bool" where
  "valid_pattern_from depth [] \<longleftrightarrow> depth = 0"
| "valid_pattern_from depth (b # s) \<longleftrightarrow>
     (if b = open_brace then valid_pattern_from (depth + 1) s
      else if b = close_brace \<and> 0 < depth then valid_pattern_from (depth - 1) s
      else if b = comma \<and> 0 < depth then valid_pattern_from depth s
      else if part_of_identifier b \<or> b = star \<or> b = separator then valid_pattern_from depth s
      else False)"

definition is_valid_pattern :: "bytes \<Rightarrow> bool" where
  "is_valid_pattern pattern \<longleftrightarrow> valid_pattern_from 0 pattern"

section \<open>Parsing\<close>

definition namespace_from_str :: "bytes \<Rightarrow> path_error + namespace_path" where
  "namespace_from_str s =
     (if eq_ignore_ascii_case s (byte_string ''@global'') then Inr Global_Namespace
      else
        let path_to_validate = (case strip_suffix [separator] s of None \<Rightarrow> s | Some r \<Rightarrow> r)
        in if list_all is_valid_identifier_part (split_segments separator path_to_validate)
           then Inr (Specific_Namespace s)
           else Inl Invalid_Namespace)"

definition selector_from_str :: "bytes \<Rightarrow> path_error + symbol_selector" where
  "selector_from_str s =
     (if star \<in> set s \<or> open_brace \<in> set s
      then (if is_valid_pattern s then Inr (Pattern_Selector s) else Inl Invalid_Selector)
      else if strip_suffix [separator] s \<noteq> None \<or> eq_ignore_ascii_case s (byte_string ''@global'')
      then map_sum id Namespace_Selector (namespace_from_str s)
      else if list_all is_valid_identifier_part (split_segments separator s) then Inr (Symbol_Selector s)
      else Inl Invalid_Selector)"

definition layer_name :: "bytes \<Rightarrow> bytes option" where
  "layer_name s =
     (case strip_prefix (byte_string ''@layer:'') s of
        Some name \<Rightarrow> Some name
      | None \<Rightarrow> strip_prefix (byte_string ''@layers:'') s)"

definition path_from_str :: "bytes \<Rightarrow> path_error + guard_path" where
  "path_from_str s =
     (if s = byte_string ''*'' \<or> eq_ignore_ascii_case s (byte_string ''@all'') then Inr All_Path
      else if eq_ignore_ascii_case s (byte_string ''@self'') \<or> eq_ignore_ascii_case s (byte_string ''@this'') then Inr Self_Path
      else if eq_ignore_ascii_case s (byte_string ''@native'') \<or> eq_ignore_ascii_case s (byte_string ''@php'')
        \<or> eq_ignore_ascii_case s (byte_string ''@builtin'') then Inr Native_Path
      else case layer_name s of
          Some name \<Rightarrow> Inr (Layer_Path name)
        | None \<Rightarrow> (case selector_from_str s of Inr selector \<Rightarrow> Inr (Selector_Path selector) | Inl _ \<Rightarrow> Inl Invalid_Path))"

section \<open>Printing\<close>

fun namespace_display :: "namespace_path \<Rightarrow> bytes" where
  "namespace_display Global_Namespace = byte_string ''@global''"
| "namespace_display (Specific_Namespace s) = s"

fun selector_display :: "symbol_selector \<Rightarrow> bytes" where
  "selector_display (Namespace_Selector ns) = namespace_display ns"
| "selector_display (Symbol_Selector s) = s"
| "selector_display (Pattern_Selector s) = s"

fun path_display :: "guard_path \<Rightarrow> bytes" where
  "path_display All_Path = byte_string ''@all''"
| "path_display Self_Path = byte_string ''@self''"
| "path_display Native_Path = byte_string ''@native''"
| "path_display (Layer_Path name) = byte_string ''@layer:'' @ name"
| "path_display (Selector_Path selector) = selector_display selector"

section \<open>Round trips\<close>

lemma selector_roundtrip:
  assumes "selector_from_str s = Inr sel" shows "selector_display sel = s \<or> sel = Namespace_Selector Global_Namespace"
    "selector_from_str (selector_display sel) = Inr sel"
proof -
  have ns: "namespace_display n = s \<or> n = Global_Namespace" if "namespace_from_str s = Inr n" for n
    using that by (auto simp: namespace_from_str_def Let_def split: if_splits)
  show "selector_display sel = s \<or> sel = Namespace_Selector Global_Namespace"
    using assms ns unfolding selector_from_str_def by (auto split: if_splits sum.splits simp: map_sum_def)
  then show "selector_from_str (selector_display sel) = Inr sel"
  proof
    assume "sel = Namespace_Selector Global_Namespace"
    moreover have "selector_from_str (byte_string ''@global'') = Inr (Namespace_Selector Global_Namespace)" by code_simp
    ultimately show ?thesis by simp
  qed (use assms in simp)
qed

lemma strip_prefix_append: "strip_prefix p (p @ s) = Some s"
  by (simp add: strip_prefix_def starts_with_def)

text \<open>
  C34. A path of a rule that was parsed from any text is printed as a text that parses to the same
  path; what is not one of the keywords or the name of a layer is printed as it was written, except
  for the global namespace, whose letters are normalised.
\<close>

theorem path_text_roundtrip:
  assumes "path_from_str s = Inr p"
  shows "path_from_str (path_display p) = Inr p
    \<and> (\<forall>sel. p = Selector_Path sel \<longrightarrow> path_display p = s \<or> sel = Namespace_Selector Global_Namespace)"
proof -
  consider (key) "p = All_Path \<or> p = Self_Path \<or> p = Native_Path" | (layer) n where "p = Layer_Path n"
    | (sel) sel where "p = Selector_Path sel" by (cases p) auto
  then show ?thesis
  proof cases
    case key
    have "path_from_str (path_display All_Path) = Inr All_Path" "path_from_str (path_display Self_Path) = Inr Self_Path"
      "path_from_str (path_display Native_Path) = Inr Native_Path" by code_simp+
    then show ?thesis using key by auto
  next
    case layer
    have "\<not> eq_ignore_ascii_case (byte_string ''@layer:'' @ n) (byte_string ''@all'')"
      "\<not> eq_ignore_ascii_case (byte_string ''@layer:'' @ n) (byte_string ''@self'')"
      "\<not> eq_ignore_ascii_case (byte_string ''@layer:'' @ n) (byte_string ''@this'')"
      "\<not> eq_ignore_ascii_case (byte_string ''@layer:'' @ n) (byte_string ''@native'')"
      "\<not> eq_ignore_ascii_case (byte_string ''@layer:'' @ n) (byte_string ''@php'')"
      "\<not> eq_ignore_ascii_case (byte_string ''@layer:'' @ n) (byte_string ''@builtin'')"
      by (simp_all add: eq_ignore_ascii_case_def to_ascii_lowercase_def ascii_lower_def)
    moreover have "byte_string ''@layer:'' @ n \<noteq> byte_string ''*''" by simp
    ultimately show ?thesis unfolding layer path_from_str_def layer_name_def path_display.simps strip_prefix_append
      by simp
  next
    case sel
    then have s: "selector_from_str s = Inr sel" and nokey: "path_from_str s = Inr (Selector_Path sel)"
      using assms unfolding path_from_str_def by (auto split: if_splits option.splits sum.splits)
    show ?thesis
    proof (cases "sel = Namespace_Selector Global_Namespace")
      case True
      have "path_from_str (byte_string ''@global'') = Inr (Selector_Path (Namespace_Selector Global_Namespace))" by code_simp
      then show ?thesis by (simp add: sel True)
    next
      case False
      then have "path_display p = s" using selector_roundtrip(1)[OF s] by (simp add: sel)
      then show ?thesis using nokey sel by simp
    qed
  qed
qed

theorem path_text_roundtrip_witness:
  "path_from_str (byte_string ''@Layers:core'') = Inl Invalid_Path
   \<and> path_from_str (byte_string ''@layers:core'') = Inr (Layer_Path (byte_string ''core''))
   \<and> path_from_str (path_display (Layer_Path (byte_string ''core''))) = Inr (Layer_Path (byte_string ''core''))"
proof -
  have "path_from_str (byte_string ''@Layers:core'') = Inl Invalid_Path"
    and core: "path_from_str (byte_string ''@layers:core'') = Inr (Layer_Path (byte_string ''core''))" by code_simp+
  then show ?thesis using path_text_roundtrip[OF core] by blast
qed

section \<open>Accepted patterns\<close>

lemma valid_pattern_balanced: "valid_pattern_from d s \<Longrightarrow> balanced_from d s"
proof (induction d s rule: valid_pattern_from.induct)
  case (2 depth b s)
  have "\<not> part_of_identifier close_brace" by code_simp
  then show ?case using 2 by (auto split: if_splits)
qed simp

text \<open>
  The matcher returns on every pattern the parser accepts, and answers whether one of the
  patterns that its braces stand for matches the name.
\<close>

theorem valid_pattern_returns:
  assumes "is_valid_pattern pattern"
  shows "\<exists>ps. render ps = pattern \<and> (\<forall>p \<in> set ps. piece_wf p)
    \<and> matches fqcn pattern is_constant ns = Some (\<exists>p \<in> set (expand_pieces ps). matches_plain fqcn p is_constant ns)"
proof -
  have "remaining 0 pattern"
    using assms valid_pattern_balanced balanced_remaining unfolding is_valid_pattern_def by blast
  then obtain ps where ps: "\<forall>p \<in> set ps. piece_wf p" "pattern = render ps" by auto
  then show ?thesis using matches_render[OF ps(1)] by blast
qed

theorem valid_pattern_returns_witness:
  "\<exists>r. matches (fqn [''App'', ''Domain'', ''User'']) (fqn [''App'', ''{Domain,{Core,Http}}'', ''*'']) False False = Some r"
proof -
  have "is_valid_pattern (fqn [''App'', ''{Domain,{Core,Http}}'', ''*''])" by code_simp
  from valid_pattern_returns[OF this] show ?thesis by blast
qed

end
