(* ===== verification/Class_Queries.thy ===== *)
theory Class_Queries
  imports Class_Order
begin

text \<open>
  The queries on the symbols and the hierarchy of a codebase (crate \<open>codex\<close>, \<open>metadata/mod.rs\<close>),
  which the analyzer, the linter and the guard ask by name in any letter case. The lemmas show that
  a name and the aliases of a class are interchangeable in the queries on the hierarchy.
\<close>

section \<open>Names\<close>

definition ascii_lowercase_word :: "bytes \<Rightarrow> bytes" where
  "ascii_lowercase_word bs = (if \<not> list_ex is_ascii_uppercase bs then bs else map ascii_lower bs)"

definition ascii_lowercase_constant_name_word :: "bytes \<Rightarrow> bytes" where
  "ascii_lowercase_constant_name_word name =
     (case rposition_of (\<lambda>b. b = 92) name of
        Some i \<Rightarrow> map ascii_lower (take i name) @ 92 # tl (drop i name)
      | None \<Rightarrow> name)"

lemma ascii_lowercase_word: "ascii_lowercase_word bs = to_ascii_lowercase bs"
proof -
  have "map ascii_lower bs = bs" if "\<not> list_ex is_ascii_uppercase bs"
    using that by (induction bs) (auto simp: ascii_lower_def is_ascii_uppercase_def)
  then show ?thesis by (simp add: ascii_lowercase_word_def to_ascii_lowercase_def)
qed

section \<open>Existence\<close>

definition class_exists :: "codebase \<Rightarrow> bytes \<Rightarrow> bool" where
  "class_exists self name \<longleftrightarrow> get_kind (codebase_symbols self) (ascii_lowercase_word name) = Some Class"

definition interface_exists :: "codebase \<Rightarrow> bytes \<Rightarrow> bool" where
  "interface_exists self name \<longleftrightarrow> get_kind (codebase_symbols self) (ascii_lowercase_word name) = Some Interface"

definition trait_exists :: "codebase \<Rightarrow> bytes \<Rightarrow> bool" where
  "trait_exists self name \<longleftrightarrow> get_kind (codebase_symbols self) (ascii_lowercase_word name) = Some Trait"

definition enum_exists :: "codebase \<Rightarrow> bytes \<Rightarrow> bool" where
  "enum_exists self name \<longleftrightarrow> get_kind (codebase_symbols self) (ascii_lowercase_word name) = Some Enum"

definition class_like_exists :: "codebase \<Rightarrow> bytes \<Rightarrow> bool" where
  "class_like_exists self name \<longleftrightarrow> symbols_contains (codebase_symbols self) (ascii_lowercase_word name)"

definition namespace_exists :: "codebase \<Rightarrow> bytes \<Rightarrow> bool" where
  "namespace_exists self name \<longleftrightarrow> contains_namespace (codebase_symbols self) (ascii_lowercase_word name)"

definition class_or_trait_exists :: "codebase \<Rightarrow> bytes \<Rightarrow> bool" where
  "class_or_trait_exists self name \<longleftrightarrow>
     get_kind (codebase_symbols self) (ascii_lowercase_word name) \<in> {Some Class, Some Trait}"

definition class_or_interface_exists :: "codebase \<Rightarrow> bytes \<Rightarrow> bool" where
  "class_or_interface_exists self name \<longleftrightarrow>
     get_kind (codebase_symbols self) (ascii_lowercase_word name) \<in> {Some Class, Some Interface}"

definition method_identifier_exists :: "codebase \<Rightarrow> bytes \<times> bytes \<Rightarrow> bool" where
  "method_identifier_exists self method_id \<longleftrightarrow>
     get_method_by_words self (ascii_lowercase_word (fst method_id)) (ascii_lowercase_word (snd method_id)) \<noteq> None"

definition function_exists :: "codebase \<Rightarrow> bytes \<Rightarrow> bool" where
  "function_exists self name \<longleftrightarrow> map_of (function_likes self) (empty_word, ascii_lowercase_word name) \<noteq> None"

definition constant_exists :: "codebase \<Rightarrow> bytes \<Rightarrow> bool" where
  "constant_exists self name \<longleftrightarrow> map_of (codebase_constants self) (ascii_lowercase_constant_name_word name) \<noteq> None"

section \<open>Declarations\<close>

definition get_class_like :: "codebase \<Rightarrow> bytes \<Rightarrow> class_like_metadata option" where
  "get_class_like self name = get_class_like_by_word self (ascii_lowercase_word name)"

definition get_class_like_by_name :: "codebase \<Rightarrow> bytes \<Rightarrow> class_like_metadata option" where
  "get_class_like_by_name self name = get_class_like_by_word self (to_ascii_lowercase name)"

definition filter_option :: "('a \<Rightarrow> bool) \<Rightarrow> 'a option \<Rightarrow> 'a option" where
  "filter_option p x = (case x of None \<Rightarrow> None | Some a \<Rightarrow> if p a then Some a else None)"

definition get_class :: "codebase \<Rightarrow> bytes \<Rightarrow> class_like_metadata option" where
  "get_class self name =
     filter_option (\<lambda>md. kind_is_class (class_like_kind md)) (get_class_like_by_word self (ascii_lowercase_word name))"

definition get_interface :: "codebase \<Rightarrow> bytes \<Rightarrow> class_like_metadata option" where
  "get_interface self name =
     filter_option (\<lambda>md. kind_is_interface (class_like_kind md)) (get_class_like_by_word self (ascii_lowercase_word name))"

definition get_trait :: "codebase \<Rightarrow> bytes \<Rightarrow> class_like_metadata option" where
  "get_trait self name =
     filter_option (\<lambda>md. kind_is_trait (class_like_kind md)) (get_class_like_by_word self (ascii_lowercase_word name))"

definition get_enum :: "codebase \<Rightarrow> bytes \<Rightarrow> class_like_metadata option" where
  "get_enum self name =
     filter_option (\<lambda>md. kind_is_enum (class_like_kind md)) (get_class_like_by_word self (ascii_lowercase_word name))"

definition get_function :: "codebase \<Rightarrow> bytes \<Rightarrow> function_like_metadata option" where
  "get_function self name = map_of (function_likes self) (empty_word, ascii_lowercase_word name)"

definition get_method :: "codebase \<Rightarrow> bytes \<Rightarrow> bytes \<Rightarrow> function_like_metadata option" where
  "get_method self class method =
     get_method_by_words self (ascii_lowercase_word class) (ascii_lowercase_word method)"

definition get_constant :: "codebase \<Rightarrow> bytes \<Rightarrow> constant_metadata option" where
  "get_constant self name = map_of (codebase_constants self) (ascii_lowercase_constant_name_word name)"

section \<open>The hierarchy\<close>

text \<open>The question whether one of the ancestors a query looks at is a name, or what it is an alias of.\<close>

definition related :: "codebase \<Rightarrow> (bytes \<Rightarrow> bool) \<Rightarrow> bytes \<Rightarrow> bool" where
  "related self ancestor lowercase_parent =
     (if ancestor lowercase_parent then True
      else if class_like_aliases self = [] \<or> map_of (class_likes self) lowercase_parent \<noteq> None then False
      else case map_of (class_like_aliases self) lowercase_parent of None \<Rightarrow> False | Some actual \<Rightarrow> ancestor actual)"

definition class_extends :: "codebase \<Rightarrow> bytes \<Rightarrow> bytes \<Rightarrow> bool" where
  "class_extends self child parent =
     (case get_class_like_by_word self (ascii_lowercase_word child) of
        None \<Rightarrow> False
      | Some md \<Rightarrow> related self (\<lambda>p. p \<in> set (all_parent_classes md)) (ascii_lowercase_word parent))"

definition class_implements :: "codebase \<Rightarrow> bytes \<Rightarrow> bytes \<Rightarrow> bool" where
  "class_implements self class interface =
     (case get_class_like_by_word self (ascii_lowercase_word class) of
        None \<Rightarrow> False
      | Some md \<Rightarrow> related self (\<lambda>p. p \<in> set (all_parent_interfaces md)) (ascii_lowercase_word interface))"

definition class_uses_trait :: "codebase \<Rightarrow> bytes \<Rightarrow> bytes \<Rightarrow> bool" where
  "class_uses_trait self class trait_name =
     (case get_class_like_by_word self (ascii_lowercase_word class) of
        None \<Rightarrow> False
      | Some md \<Rightarrow> related self (\<lambda>p. p \<in> set (used_traits md)) (ascii_lowercase_word trait_name))"

definition is_instance_of :: "codebase \<Rightarrow> bytes \<Rightarrow> bytes \<Rightarrow> bool" where
  "is_instance_of self child parent =
     (if child = parent then True
      else if ascii_lowercase_word child = ascii_lowercase_word parent then True
      else case get_class_like_by_word self (ascii_lowercase_word child) of
             None \<Rightarrow> False
           | Some md \<Rightarrow>
               related self (\<lambda>p. class_like_name md = p \<or> p \<in> set (all_parent_classes md)
                   \<or> p \<in> set (all_parent_interfaces md) \<or> p \<in> set (used_traits md)
                   \<or> p \<in> set (require_extends md) \<or> p \<in> set (require_implements md))
                 (ascii_lowercase_word parent))"

definition is_enum_or_final_class :: "codebase \<Rightarrow> bytes \<Rightarrow> bool" where
  "is_enum_or_final_class self name =
     (case get_class_like_by_word self (ascii_lowercase_word name) of
        None \<Rightarrow> False
      | Some md \<Rightarrow> kind_is_enum (class_like_kind md) \<or> flag_is_final (metadata_flags md))"

definition is_inheritable :: "codebase \<Rightarrow> bytes \<Rightarrow> bool" where
  "is_inheritable self name =
     (case get_kind (codebase_symbols self) (ascii_lowercase_word name) of
        Some Class \<Rightarrow>
          (case get_class_like_by_word self (ascii_lowercase_word name) of
             None \<Rightarrow> False
           | Some md \<Rightarrow> \<not> flag_is_final (metadata_flags md))
      | Some Enum \<Rightarrow> False
      | Some Interface \<Rightarrow> True
      | Some Trait \<Rightarrow> True
      | None \<Rightarrow> True)"

definition get_class_ancestors :: "codebase \<Rightarrow> bytes \<Rightarrow> word_set" where
  "get_class_ancestors self class =
     (case get_class_like_by_word self (ascii_lowercase_word class) of
        None \<Rightarrow> []
      | Some md \<Rightarrow> fold List.insert (all_parent_interfaces md) (fold List.insert (all_parent_classes md) []))"

section \<open>Names and aliases\<close>

text \<open>The class-like a name denotes: itself, what it is an alias of, or nothing that is known.\<close>

definition denoted :: "codebase \<Rightarrow> bytes \<Rightarrow> bytes" where
  "denoted cb name =
     (case resolve_class_like_word cb (to_ascii_lowercase name) of None \<Rightarrow> to_ascii_lowercase name | Some c \<Rightarrow> c)"

definition ancestors :: "class_like_metadata \<Rightarrow> bytes set" where
  "ancestors md = set (all_parent_classes md) \<union> set (all_parent_interfaces md) \<union> set (used_traits md)
     \<union> set (require_extends md) \<union> set (require_implements md)"

text \<open>
  A codebase with resolved names, as population leaves it: class-likes carry their keys as names,
  aliases lead to class-likes, and no ancestor is named by an alias.
\<close>

definition names_resolved :: "codebase \<Rightarrow> bool" where
  "names_resolved cb \<longleftrightarrow>
     (\<forall>k md. map_of (class_likes cb) k = Some md \<longrightarrow> class_like_name md = k
        \<and> (\<forall>p \<in> ancestors md. resolve_class_like_word cb p \<in> {None, Some p}))
     \<and> (\<forall>a c. map_of (class_like_aliases cb) a = Some c \<longrightarrow> map_of (class_likes cb) c \<noteq> None)"

lemma resolve_known: "names_resolved cb \<Longrightarrow> resolve_class_like_word cb n = Some c \<Longrightarrow> map_of (class_likes cb) c \<noteq> None"
  unfolding names_resolved_def resolve_class_like_word_def by (auto split: if_splits)

lemma denoted_unknown:
  "names_resolved cb \<Longrightarrow> map_of (class_likes cb) (denoted cb n) = None \<Longrightarrow> denoted cb n = to_ascii_lowercase n"
  using resolve_known[of cb "to_ascii_lowercase n"] by (cases "resolve_class_like_word cb (to_ascii_lowercase n)") (auto simp: denoted_def)

lemma class_of_denoted:
  assumes "names_resolved cb"
  shows "get_class_like_by_word cb (ascii_lowercase_word name) = map_of (class_likes cb) (denoted cb name)"
  by (auto simp: get_class_like_by_word_def denoted_def resolve_class_like_word_def ascii_lowercase_word
      split: option.split)

lemma related_denoted:
  assumes "\<And>p. ancestor p \<Longrightarrow> resolve_class_like_word cb p \<in> {None, Some p}"
  shows "related cb ancestor (ascii_lowercase_word name) \<longleftrightarrow> ancestor (denoted cb name)"
  using assms[of "to_ascii_lowercase name"]
  by (auto simp: related_def denoted_def resolve_class_like_word_def ascii_lowercase_word split: option.splits if_splits)

text \<open>
  C30. On a codebase whose names are resolved, the queries for a class-like or one of its kinds, for
  its ancestors, whether it is an enum or final, and the four on the hierarchy depend on their names
  only through the class-likes these denote, so that letter case and aliases never change an answer:
  one class-like extends, implements or uses another exactly when its ancestors of that kind hold it,
  and is an instance of itself and of every ancestor, required ones included. The queries that ask the
  table of symbols (\<open>class_exists\<close> and its like, \<open>is_inheritable\<close>) are not among them.
\<close>

theorem queries_follow_denotation:
  assumes "names_resolved cb"
  shows "(class_extends cb a b \<longleftrightarrow>
       (\<exists>md. map_of (class_likes cb) (denoted cb a) = Some md \<and> denoted cb b \<in> set (all_parent_classes md)))
    \<and> (class_implements cb a b \<longleftrightarrow>
       (\<exists>md. map_of (class_likes cb) (denoted cb a) = Some md \<and> denoted cb b \<in> set (all_parent_interfaces md)))
    \<and> (class_uses_trait cb a b \<longleftrightarrow>
       (\<exists>md. map_of (class_likes cb) (denoted cb a) = Some md \<and> denoted cb b \<in> set (used_traits md)))
    \<and> (is_instance_of cb a b \<longleftrightarrow> denoted cb a = denoted cb b
       \<or> (\<exists>md. map_of (class_likes cb) (denoted cb a) = Some md \<and> denoted cb b \<in> ancestors md))
    \<and> get_class_like cb a = map_of (class_likes cb) (denoted cb a)
    \<and> get_class_like_by_name cb a = map_of (class_likes cb) (denoted cb a)
    \<and> get_class cb a = filter_option (\<lambda>md. kind_is_class (class_like_kind md)) (map_of (class_likes cb) (denoted cb a))
    \<and> get_interface cb a = filter_option (\<lambda>md. kind_is_interface (class_like_kind md)) (map_of (class_likes cb) (denoted cb a))
    \<and> get_trait cb a = filter_option (\<lambda>md. kind_is_trait (class_like_kind md)) (map_of (class_likes cb) (denoted cb a))
    \<and> get_enum cb a = filter_option (\<lambda>md. kind_is_enum (class_like_kind md)) (map_of (class_likes cb) (denoted cb a))
    \<and> (is_enum_or_final_class cb a \<longleftrightarrow> (\<exists>md. map_of (class_likes cb) (denoted cb a) = Some md
         \<and> (kind_is_enum (class_like_kind md) \<or> flag_is_final (metadata_flags md))))
    \<and> (c \<in> set (get_class_ancestors cb a) \<longleftrightarrow> (\<exists>md. map_of (class_likes cb) (denoted cb a) = Some md
         \<and> (c \<in> set (all_parent_classes md) \<or> c \<in> set (all_parent_interfaces md))))"
proof -
  note md = class_of_denoted[OF assms]
  have anc: "resolve_class_like_word cb p \<in> {None, Some p}"
    if "map_of (class_likes cb) c = Some m" "p \<in> ancestors m" for c m p
    using assms that unfolding names_resolved_def by blast
  have one: "(case map_of (class_likes cb) (denoted cb a) of None \<Rightarrow> False
        | Some md \<Rightarrow> related cb (\<lambda>p. p \<in> f md) (ascii_lowercase_word b))
      \<longleftrightarrow> (\<exists>md. map_of (class_likes cb) (denoted cb a) = Some md \<and> denoted cb b \<in> f md)"
    if "\<And>m. f m \<subseteq> ancestors m" for f
    using anc that by (cases "map_of (class_likes cb) (denoted cb a)") (simp_all add: related_denoted subset_iff)
  have inst: "is_instance_of cb a b \<longleftrightarrow> denoted cb a = denoted cb b
       \<or> (\<exists>md. map_of (class_likes cb) (denoted cb a) = Some md \<and> denoted cb b \<in> ancestors md)"
  proof (cases "map_of (class_likes cb) (denoted cb a)")
    case None
    have "to_ascii_lowercase a = to_ascii_lowercase b" if "denoted cb a = denoted cb b"
      using denoted_unknown[OF assms None] denoted_unknown[OF assms, of b] None that by simp
    moreover have "denoted cb a = denoted cb b" if "to_ascii_lowercase a = to_ascii_lowercase b"
      unfolding denoted_def that ..
    ultimately show ?thesis using None unfolding is_instance_of_def md by (auto simp: ascii_lowercase_word)
  next
    case (Some m)
    have name: "class_like_name m = denoted cb a" using assms Some unfolding names_resolved_def by blast
    have self: "resolve_class_like_word cb (denoted cb a) \<in> {None, Some (denoted cb a)}"
      using Some by (simp add: resolve_class_like_word_def)
    have rel: "related cb (\<lambda>p. class_like_name m = p \<or> p \<in> ancestors m) (ascii_lowercase_word b)
        \<longleftrightarrow> class_like_name m = denoted cb b \<or> denoted cb b \<in> ancestors m"
    proof (rule related_denoted)
      fix p assume "class_like_name m = p \<or> p \<in> ancestors m"
      then show "resolve_class_like_word cb p \<in> {None, Some p}"
      proof
        assume "class_like_name m = p"
        then have "p = denoted cb a" using name by simp
        then show ?thesis using self by simp
      qed (rule anc[OF Some])
    qed
    have same: "denoted cb a = denoted cb b" if "to_ascii_lowercase a = to_ascii_lowercase b"
      unfolding denoted_def that ..
    have "is_instance_of cb a b \<longleftrightarrow> a = b \<or> to_ascii_lowercase a = to_ascii_lowercase b
        \<or> related cb (\<lambda>p. class_like_name m = p \<or> p \<in> ancestors m) (ascii_lowercase_word b)"
      unfolding is_instance_of_def md Some ancestors_def by (simp add: ascii_lowercase_word Un_iff disj_assoc)
    then show ?thesis using rel name same Some by auto
  qed
  have sub: "set (all_parent_classes m) \<subseteq> ancestors m" "set (all_parent_interfaces m) \<subseteq> ancestors m"
    "set (used_traits m) \<subseteq> ancestors m" for m by (auto simp: ancestors_def)
  have by_name: "get_class_like_by_word cb (to_ascii_lowercase a) = map_of (class_likes cb) (denoted cb a)"
    using md[of a] by (simp add: ascii_lowercase_word)
  have flags: "is_enum_or_final_class cb a \<longleftrightarrow> (\<exists>md. map_of (class_likes cb) (denoted cb a) = Some md
         \<and> (kind_is_enum (class_like_kind md) \<or> flag_is_final (metadata_flags md)))"
    by (simp add: is_enum_or_final_class_def md split: option.split)
  have above: "c \<in> set (get_class_ancestors cb a) \<longleftrightarrow> (\<exists>md. map_of (class_likes cb) (denoted cb a) = Some md
         \<and> (c \<in> set (all_parent_classes md) \<or> c \<in> set (all_parent_interfaces md)))"
    by (cases "map_of (class_likes cb) (denoted cb a)") (auto simp: get_class_ancestors_def md)
  show ?thesis unfolding class_extends_def class_implements_def class_uses_trait_def get_class_like_def
      get_class_like_by_name_def get_class_def get_interface_def get_trait_def get_enum_def md by_name
    by (intro conjI one[OF sub(1)] one[OF sub(2)] one[OF sub(3)] inst flags above refl)
qed

definition query_sample :: codebase where
  "query_sample = codebase_of
     [named_class ''base'' None [] [], (named_class ''child'' (Some ''base'') [] [])\<lparr>all_parent_classes := [byte_string ''base'']\<rparr>]
     [(''old'', ''base'')]"

theorem queries_follow_denotation_witness:
  "class_extends query_sample (byte_string ''Child'') (byte_string ''OLD'')
   \<and> is_instance_of query_sample (byte_string ''Child'') (byte_string ''OLD'')
   \<and> is_instance_of query_sample (byte_string ''Old'') (byte_string ''base'')
   \<and> \<not> class_extends query_sample (byte_string ''Old'') (byte_string ''child'')"
proof -
  have res: "names_resolved query_sample"
    unfolding names_resolved_def
    by (auto simp: query_sample_def codebase_of_def named_class_def ancestors_def resolve_class_like_word_def codebase_new_def
        split: if_splits)
  have d: "denoted query_sample (byte_string ''Child'') = byte_string ''child''"
    "denoted query_sample (byte_string ''OLD'') = byte_string ''base''"
    "denoted query_sample (byte_string ''Old'') = byte_string ''base''"
    "denoted query_sample (byte_string ''base'') = byte_string ''base''"
    "denoted query_sample (byte_string ''child'') = byte_string ''child''"
    by code_simp+
  have c: "\<exists>md. map_of (class_likes query_sample) (byte_string ''child'') = Some md \<and> byte_string ''base'' \<in> set (all_parent_classes md)"
    "\<not> (\<exists>md. map_of (class_likes query_sample) (byte_string ''base'') = Some md \<and> byte_string ''child'' \<in> set (all_parent_classes md))"
    by (simp_all add: query_sample_def codebase_of_def named_class_def)
  note q = queries_follow_denotation[OF res, unfolded ancestors_def]
  have "class_extends query_sample (byte_string ''Child'') (byte_string ''OLD'')"
    using q[of "byte_string ''Child''" "byte_string ''OLD''", THEN conjunct1] c(1) unfolding d by blast
  moreover have "is_instance_of query_sample (byte_string ''Child'') (byte_string ''OLD'')"
    using q[of "byte_string ''Child''" "byte_string ''OLD''", THEN conjunct2, THEN conjunct2, THEN conjunct2, THEN conjunct1] c(1)
    unfolding d by blast
  moreover have "is_instance_of query_sample (byte_string ''Old'') (byte_string ''base'')"
    using q[of "byte_string ''Old''" "byte_string ''base''", THEN conjunct2, THEN conjunct2, THEN conjunct2, THEN conjunct1]
    unfolding d by blast
  moreover have "\<not> class_extends query_sample (byte_string ''Old'') (byte_string ''child'')"
    using q[of "byte_string ''Old''" "byte_string ''child''", THEN conjunct1] c(2) unfolding d by blast
  ultimately show ?thesis by (intro conjI)
qed

end
