(* ===== verification/Guard_Perimeter.thy ===== *)
theory Guard_Perimeter
  imports Guard_Path Class_Queries
begin

text \<open>
  The perimeter guard (crate \<open>guard\<close>, \<open>perimeter/checker.rs\<close>, with its settings and reports): the
  decision whether code in a namespace may use a symbol. Patterns and layers may make the checker
  run forever, so every step that matches a pattern is partial. The lemmas relate the decision to a
  declarative reading of the settings, show that it is reached for settings without unclosed braces
  and circular layers, and that circular layers prevent it.
\<close>

section \<open>Settings and reports\<close>

datatype dependency_kind = Class_Like_Kind | Function_Kind | Constant_Kind | Attribute_Kind

datatype permitted_dependency = Dependency guard_path | Dependency_Of_Kind guard_path "dependency_kind list"

record perimeter_rule =
  rule_namespace :: namespace_path
  permit :: "permitted_dependency list"
  rule_reason :: "bytes option"

record dependency_restriction =
  restricted_dependency :: symbol_selector
  allow_from :: "bytes list"
  deny_from :: "bytes list"
  restricted_kinds :: "dependency_kind list"
  restriction_reason :: "bytes option"

record perimeter_settings =
  layers :: "(bytes, guard_path list) hash_map"
  layering :: "namespace_path list"
  layering_reason :: "bytes option"
  perimeter_rules :: "perimeter_rule list"
  restrictions :: "dependency_restriction list"

definition perimeter_is_empty :: "perimeter_settings \<Rightarrow> bool" where
  "perimeter_is_empty s \<longleftrightarrow> perimeter_rules s = [] \<and> restrictions s = [] \<and> layering s = []"

datatype breach_vector = Extends | Implements | Use | Trait_Use | Property_Type | Parameter_Type | Return_Type
  | Instantiation | Static_Method_Call | Static_Property_Access | Class_Constant_Access | Function_Call
  | Constant_Access | Attribute

datatype breach_reason = Layering namespace_path namespace_path | No_Matching_Rule
  | Forbidden_By_Rule "namespace_path list" | Forbidden_By_Restriction symbol_selector

record boundary_breach =
  source_namespace :: bytes
  dependency_fqn :: bytes
  breach_dependency_kind :: dependency_kind
  vector :: breach_vector
  breach_span :: span
  reason :: breach_reason
  explanation :: "bytes option"

record guard_context =
  guard_settings :: perimeter_settings
  guard_codebase :: codebase
  boundary_breaches :: "boundary_breach list"
  current_namespace :: "bytes option"

definition set_current_namespace :: "bytes option \<Rightarrow> guard_context \<Rightarrow> guard_context" where
  "set_current_namespace namespace ctx = ctx\<lparr>current_namespace := namespace\<rparr>"

definition get_current_namespace :: "guard_context \<Rightarrow> bytes" where
  "get_current_namespace ctx = (case current_namespace ctx of None \<Rightarrow> [] | Some n \<Rightarrow> n)"

section \<open>Selectors, restrictions and layers\<close>

definition matches_selector :: "bytes \<Rightarrow> symbol_selector \<Rightarrow> bool option" where
  "matches_selector target_fqn selector =
     (case selector of
        Namespace_Selector Global_Namespace \<Rightarrow> Some (separator \<notin> set target_fqn)
      | Namespace_Selector (Specific_Namespace pattern) \<Rightarrow> matches target_fqn pattern False True
      | Symbol_Selector symbol \<Rightarrow> Some (eq_ignore_ascii_case target_fqn symbol)
      | Pattern_Selector pattern \<Rightarrow> matches target_fqn pattern False False)"

definition matches_source_namespace :: "bytes \<Rightarrow> bytes \<Rightarrow> bool option" where
  "matches_source_namespace namespace pattern =
     (if eq_ignore_ascii_case pattern (byte_string ''@global'') then Some (namespace = [])
      else matches namespace pattern False True)"

definition violates_restriction :: "dependency_restriction \<Rightarrow> bytes \<Rightarrow> bytes \<Rightarrow> dependency_kind \<Rightarrow> bool option" where
  "violates_restriction restriction source_ns target_fqn kind =
     (if restricted_kinds restriction \<noteq> [] \<and> kind \<notin> set (restricted_kinds restriction) then Some False
      else Option.bind (matches_selector target_fqn (restricted_dependency restriction)) (\<lambda>selected.
        if \<not> selected then Some False
        else
          Option.bind (any_returning (matches_source_namespace source_ns) (deny_from restriction)) (\<lambda>explicitly_denied.
          Option.bind (if allow_from restriction = [] then Some True
                       else any_returning (matches_source_namespace source_ns) (allow_from restriction)) (\<lambda>allowed.
            Some (explicitly_denied \<or> \<not> allowed)))))"

text \<open>\<open>iter().find(p)\<close> for a test that may not return.\<close>

fun find_returning :: "('a \<Rightarrow> bool option) \<Rightarrow> 'a list \<Rightarrow> 'a option option" where
  "find_returning p [] = Some None"
| "find_returning p (x # xs) = Option.bind (p x) (\<lambda>b. if b then Some (Some x) else find_returning p xs)"

definition is_native :: "codebase \<Rightarrow> bytes \<Rightarrow> bool" where
  "is_native cb fqcn =
     (case get_class_like cb fqcn of
        Some c \<Rightarrow> flag_is_built_in (metadata_flags c)
      | None \<Rightarrow>
          (case get_function cb fqcn of
             Some f \<Rightarrow> flag_is_built_in (metadata_flags f)
           | None \<Rightarrow>
               (case get_constant cb fqcn of
                  Some c \<Rightarrow> flag_is_built_in (metadata_flags c)
                | None \<Rightarrow> False)))"

definition in_namespace :: "bytes \<Rightarrow> namespace_path \<Rightarrow> bool option" where
  "in_namespace namespace path =
     (case path of
        Global_Namespace \<Rightarrow> Some (namespace = [])
      | Specific_Namespace ns \<Rightarrow> matches namespace ns False True)"

fun layer_index_from :: "nat \<Rightarrow> bytes \<Rightarrow> namespace_path list \<Rightarrow> nat option option" where
  "layer_index_from i namespace [] = Some None"
| "layer_index_from i namespace (path # paths) =
     Option.bind (in_namespace namespace path) (\<lambda>b. if b then Some (Some i) else layer_index_from (i + 1) namespace paths)"

definition get_layer_index :: "bytes \<Rightarrow> perimeter_settings \<Rightarrow> nat option option" where
  "get_layer_index namespace settings = layer_index_from 0 namespace (layering settings)"

partial_function (option) is_path_allowed ::
  "codebase \<Rightarrow> perimeter_settings \<Rightarrow> namespace_path \<Rightarrow> bytes \<Rightarrow> guard_path \<Rightarrow> bool option" where
  "is_path_allowed cb settings rule_ns target_fqn path =
     (case path of
        All_Path \<Rightarrow> Some True
      | Native_Path \<Rightarrow> Some (is_native cb target_fqn)
      | Self_Path \<Rightarrow>
          (case rule_ns of
             Global_Namespace \<Rightarrow> Some (separator \<notin> set target_fqn)
           | Specific_Namespace namespace \<Rightarrow> matches target_fqn namespace False True)
      | Layer_Path layer \<Rightarrow>
          (case map_of (layers settings) layer of
             None \<Rightarrow> Some False
           | Some patterns \<Rightarrow>
               any_returning (\<lambda>pattern. is_path_allowed cb settings rule_ns target_fqn pattern) patterns)
      | Selector_Path selector \<Rightarrow> matches_selector target_fqn selector)"

section \<open>The decision\<close>

definition rule_specificity :: "bytes \<Rightarrow> perimeter_rule \<Rightarrow> nat option option" where
  "rule_specificity namespace rule =
     (case rule_namespace rule of
        Global_Namespace \<Rightarrow> Some (if namespace = [] then Some 0 else None)
      | Specific_Namespace ns \<Rightarrow> map_option (\<lambda>b. if b then Some (length ns) else None) (matches namespace ns False True))"

text \<open>\<open>filter_map(..).max_by_key(..)\<close>, which keeps the last of several greatest elements.\<close>

fun select_rule :: "bytes \<Rightarrow> perimeter_rule list \<Rightarrow> (perimeter_rule \<times> nat) option \<Rightarrow> (perimeter_rule \<times> nat) option option" where
  "select_rule namespace [] best = Some best"
| "select_rule namespace (rule # rules) best =
     Option.bind (rule_specificity namespace rule) (\<lambda>s.
       select_rule namespace rules
         (case s of
            None \<Rightarrow> best
          | Some specificity \<Rightarrow>
              (case best of
                 None \<Rightarrow> Some (rule, specificity)
               | Some (_, greatest) \<Rightarrow> if greatest \<le> specificity then Some (rule, specificity) else best)))"

definition dependency_permitted ::
  "codebase \<Rightarrow> perimeter_settings \<Rightarrow> namespace_path \<Rightarrow> bytes \<Rightarrow> dependency_kind \<Rightarrow> permitted_dependency \<Rightarrow> bool option" where
  "dependency_permitted cb settings rule_ns target_fqn kind allowed =
     (case allowed of
        Dependency path \<Rightarrow> is_path_allowed cb settings rule_ns target_fqn path
      | Dependency_Of_Kind path kinds \<Rightarrow>
          (if kind \<in> set kinds then is_path_allowed cb settings rule_ns target_fqn path else Some False))"

definition find_breach :: "guard_context \<Rightarrow> bytes \<Rightarrow> dependency_kind \<Rightarrow> breach_vector \<Rightarrow> span \<Rightarrow> boundary_breach option option" where
  "find_breach ctx target_fqn kind vec sp =
     (let settings = guard_settings ctx;
          namespace = get_current_namespace ctx;
          breach = (\<lambda>why expl. \<lparr>source_namespace = namespace, dependency_fqn = target_fqn, breach_dependency_kind = kind,
             vector = vec, breach_span = sp, reason = why, explanation = expl\<rparr>)
      in Option.bind (find_returning (\<lambda>r. violates_restriction r namespace target_fqn kind) (restrictions settings)) (\<lambda>restriction.
         case restriction of
           Some r \<Rightarrow> Some (Some (breach (Forbidden_By_Restriction (restricted_dependency r)) (restriction_reason r)))
         | None \<Rightarrow>
             Option.bind (map_option (map_option fst) (select_rule namespace (perimeter_rules settings) None)) (\<lambda>rule.
             Option.bind (case rule of
                 None \<Rightarrow> Some False
               | Some rule \<Rightarrow> any_returning (dependency_permitted (guard_codebase ctx) settings (rule_namespace rule) target_fqn kind) (permit rule)) (\<lambda>permitted.
             if permitted then Some None
             else
               Option.bind (if layering settings = [] then Some (None, None)
                 else Option.bind (get_layer_index namespace settings) (\<lambda>src.
                      Option.bind (get_layer_index target_fqn settings) (\<lambda>tgt. Some (src, tgt)))) (\<lambda>indices.
               case indices of
                 (Some src, Some tgt) \<Rightarrow>
                   if tgt \<le> src then Some None
                   else Some (Some (breach (Layering (layering settings ! src) (layering settings ! tgt)) (layering_reason settings)))
               | _ \<Rightarrow>
                   (case rule of
                      None \<Rightarrow>
                        if perimeter_rules settings = [] \<and> layering settings = [] then Some None
                        else Some (Some (breach No_Matching_Rule None))
                    | Some rule \<Rightarrow> Some (Some (breach (Forbidden_By_Rule [rule_namespace rule]) (rule_reason rule)))))))))"

definition check_usage :: "bytes \<Rightarrow> dependency_kind \<Rightarrow> breach_vector \<Rightarrow> span \<Rightarrow> guard_context \<Rightarrow> guard_context option" where
  "check_usage fqcn kind vec sp ctx =
     map_option (\<lambda>b. case b of None \<Rightarrow> ctx | Some breach \<Rightarrow> ctx\<lparr>boundary_breaches := boundary_breaches ctx @ [breach]\<rparr>)
       (find_breach ctx fqcn kind vec sp)"

section \<open>Settings on which the checker returns\<close>

definition pattern_returns :: "bytes \<Rightarrow> bool" where
  "pattern_returns pattern \<longleftrightarrow> is_valid_pattern pattern \<or> open_brace \<notin> set pattern"

fun namespace_ok :: "namespace_path \<Rightarrow> bool" where
  "namespace_ok Global_Namespace \<longleftrightarrow> True"
| "namespace_ok (Specific_Namespace ns) \<longleftrightarrow> pattern_returns ns"

fun selector_ok :: "symbol_selector \<Rightarrow> bool" where
  "selector_ok (Namespace_Selector ns) \<longleftrightarrow> namespace_ok ns"
| "selector_ok (Symbol_Selector s) \<longleftrightarrow> True"
| "selector_ok (Pattern_Selector p) \<longleftrightarrow> pattern_returns p"

fun path_ok :: "guard_path \<Rightarrow> bool" where
  "path_ok (Selector_Path selector) \<longleftrightarrow> selector_ok selector"
| "path_ok _ \<longleftrightarrow> True"

fun dependency_path :: "permitted_dependency \<Rightarrow> guard_path" where
  "dependency_path (Dependency path) = path"
| "dependency_path (Dependency_Of_Kind path _) = path"

definition settings_ok :: "perimeter_settings \<Rightarrow> bool" where
  "settings_ok s \<longleftrightarrow>
     (\<forall>name ps. map_of (layers s) name = Some ps \<longrightarrow> (\<forall>p \<in> set ps. path_ok p))
     \<and> (\<forall>n \<in> set (layering s). namespace_ok n)
     \<and> (\<forall>r \<in> set (perimeter_rules s). namespace_ok (rule_namespace r) \<and> (\<forall>d \<in> set (permit r). path_ok (dependency_path d)))
     \<and> (\<forall>r \<in> set (restrictions s). selector_ok (restricted_dependency r)
          \<and> (\<forall>p \<in> set (allow_from r @ deny_from r). pattern_returns p))"

text \<open>A layer that another one names.\<close>

definition layer_step :: "perimeter_settings \<Rightarrow> (bytes \<times> bytes) set" where
  "layer_step s = {(b, a). \<exists>ps. map_of (layers s) a = Some ps \<and> Layer_Path b \<in> set ps}"

text \<open>What the parser accepts is such a path.\<close>

lemma valid_part_no_brace: "is_valid_identifier_part p \<Longrightarrow> open_brace \<notin> set p"
proof -
  have "\<not> part_of_identifier open_brace" "\<not> start_of_identifier open_brace" by code_simp+
  then show "is_valid_identifier_part p \<Longrightarrow> open_brace \<notin> set p"
    by (auto simp: is_valid_identifier_part_def list_all_iff split: list.splits)
qed

lemma split_segments_set: "b \<noteq> c \<Longrightarrow> c \<in> set s \<Longrightarrow> \<exists>x \<in> set (split_segments b s). c \<in> set x"
  by (induction s) (auto split: list.splits)

lemma namespace_from_str_ok: "namespace_from_str s = Inr n \<Longrightarrow> namespace_ok n"
proof (cases n)
  case (Specific_Namespace t)
  assume n: "namespace_from_str s = Inr n"
  let ?v = "case strip_suffix [separator] s of None \<Rightarrow> s | Some r \<Rightarrow> r"
  have t: "t = s" "list_all is_valid_identifier_part (split_segments separator ?v)"
    using n by (auto simp: namespace_from_str_def Specific_Namespace Let_def split: if_splits)
  have "open_brace \<notin> set ?v"
    using split_segments_set[of separator open_brace ?v] valid_part_no_brace t(2) by (auto simp: list_all_iff)
  moreover have "set s \<subseteq> set ?v \<union> {separator}"
  proof (cases "strip_suffix [separator] s")
    case (Some r)
    then obtain r' where r': "r = rev r'" "rev s = separator # r'"
      by (cases "rev s") (auto simp: strip_suffix_def strip_prefix_def starts_with_def split: if_splits)
    then have "s = r @ [separator]" by (metis rev_rev_ident rev.simps(2))
    then show ?thesis using Some by simp
  qed auto
  ultimately have "open_brace \<notin> set s" by auto
  then show ?thesis by (simp add: Specific_Namespace t(1) pattern_returns_def)
qed simp

lemma path_from_str_ok: "path_from_str s = Inr p \<Longrightarrow> path_ok p"
proof (cases p)
  case (Selector_Path sel)
  assume "path_from_str s = Inr p"
  then have sel: "selector_from_str s = Inr sel"
    unfolding Selector_Path path_from_str_def by (auto split: if_splits option.splits sum.splits)
  show ?thesis
  proof (cases sel)
    case (Namespace_Selector n)
    then have "namespace_from_str s = Inr n"
      using sel unfolding selector_from_str_def map_sum_def by (auto split: if_splits sum.splits)
    then show ?thesis by (simp add: Selector_Path Namespace_Selector namespace_from_str_ok)
  next
    case (Pattern_Selector q)
    then have "is_valid_pattern q"
      using sel unfolding selector_from_str_def map_sum_def by (auto split: if_splits sum.splits)
    then show ?thesis by (simp add: Selector_Path Pattern_Selector pattern_returns_def)
  qed (simp add: Selector_Path)
qed simp_all

section \<open>Each test returns\<close>

lemma matches_returns: "pattern_returns p \<Longrightarrow> \<exists>b. matches f p c ns = Some b"
proof -
  assume "pattern_returns p"
  then consider "is_valid_pattern p" | "open_brace \<notin> set p" by (auto simp: pattern_returns_def)
  then show ?thesis
  proof cases
    case 1
    then have "remaining 0 p" using valid_pattern_balanced balanced_remaining unfolding is_valid_pattern_def by blast
    then obtain ps where "\<forall>p \<in> set ps. piece_wf p" "p = render ps" by auto
    then show ?thesis using matches_render by blast
  qed (simp add: matches_free)
qed

text \<open>
  What a test that may not return owes to the searches through a list that use it: on the inputs it
  decides, it answers whether they hold.
\<close>

locale deciding_test =
  fixes test :: "'a \<Rightarrow> bool option" and holds :: "'a \<Rightarrow> bool" and decided :: "'a \<Rightarrow> bool"
  assumes decides: "decided x \<Longrightarrow> test x = Some (holds x)"
begin

lemma any_decided: "\<forall>x \<in> set xs. decided x \<Longrightarrow> any_returning test xs = Some (\<exists>x \<in> set xs. holds x)"
  using decides by (intro any_returning_Some) blast

lemma find_decided: "\<forall>x \<in> set xs. decided x \<Longrightarrow> find_returning test xs = Some (List.find holds xs)"
  using decides by (induction xs) auto

end

lemma matches_selector_returns: "selector_ok s \<Longrightarrow> \<exists>b. matches_selector t s = Some b"
proof (cases s)
  case (Namespace_Selector n)
  assume "selector_ok s"
  then show ?thesis using matches_returns by (cases n) (auto simp: matches_selector_def Namespace_Selector)
qed (auto simp: matches_selector_def intro: matches_returns)

lemma in_namespace_returns: "namespace_ok n \<Longrightarrow> \<exists>b. in_namespace ns n = Some b"
  by (cases n) (auto simp: in_namespace_def intro: matches_returns)

lemma Some_True_iff: "\<exists>b. x = Some b \<Longrightarrow> x = Some (x = Some True)"
  by auto

interpretation source_pattern: deciding_test "matches_source_namespace ns"
  "\<lambda>p. matches_source_namespace ns p = Some True" pattern_returns for ns
  by unfold_locales (rule Some_True_iff, auto simp: matches_source_namespace_def intro: matches_returns)

text \<open>A restriction is violated by a restricted use from a denied namespace, or from none of the allowed ones.\<close>

definition restriction_violated :: "dependency_restriction \<Rightarrow> bytes \<Rightarrow> bytes \<Rightarrow> dependency_kind \<Rightarrow> bool" where
  "restriction_violated r ns t kind \<longleftrightarrow>
     (restricted_kinds r = [] \<or> kind \<in> set (restricted_kinds r)) \<and> matches_selector t (restricted_dependency r) = Some True
     \<and> ((\<exists>p \<in> set (deny_from r). matches_source_namespace ns p = Some True)
        \<or> allow_from r \<noteq> [] \<and> \<not> (\<exists>p \<in> set (allow_from r). matches_source_namespace ns p = Some True))"

interpretation restriction: deciding_test "\<lambda>r. violates_restriction r ns t kind" "\<lambda>r. restriction_violated r ns t kind"
  "\<lambda>r. selector_ok (restricted_dependency r) \<and> (\<forall>p \<in> set (allow_from r @ deny_from r). pattern_returns p)" for ns t kind
proof
  fix r :: dependency_restriction assume r: "selector_ok (restricted_dependency r) \<and> (\<forall>p \<in> set (allow_from r @ deny_from r). pattern_returns p)"
  then obtain sel where "matches_selector t (restricted_dependency r) = Some sel"
    using matches_selector_returns by blast
  then show "violates_restriction r ns t kind = Some (restriction_violated r ns t kind)"
    using r source_pattern.any_decided[of "deny_from r" ns] source_pattern.any_decided[of "allow_from r" ns]
    by (auto simp: violates_restriction_def restriction_violated_def)
qed

section \<open>Paths, declaratively\<close>

inductive path_allows :: "codebase \<Rightarrow> perimeter_settings \<Rightarrow> namespace_path \<Rightarrow> bytes \<Rightarrow> guard_path \<Rightarrow> bool"
  for cb :: codebase and s :: perimeter_settings and ns :: namespace_path and t :: bytes where
  allows_all: "path_allows cb s ns t All_Path"
| allows_native: "is_native cb t \<Longrightarrow> path_allows cb s ns t Native_Path"
| allows_self_global: "ns = Global_Namespace \<Longrightarrow> separator \<notin> set t \<Longrightarrow> path_allows cb s ns t Self_Path"
| allows_self: "ns = Specific_Namespace n \<Longrightarrow> matches t n False True = Some True \<Longrightarrow> path_allows cb s ns t Self_Path"
| allows_layer: "map_of (layers s) name = Some ps \<Longrightarrow> p \<in> set ps \<Longrightarrow> path_allows cb s ns t p \<Longrightarrow> path_allows cb s ns t (Layer_Path name)"
| allows_selector: "matches_selector t sel = Some True \<Longrightarrow> path_allows cb s ns t (Selector_Path sel)"

inductive_simps path_allows_simps:
  "path_allows cb s ns t All_Path" "path_allows cb s ns t Native_Path" "path_allows cb s ns t Self_Path"
  "path_allows cb s ns t (Layer_Path name)" "path_allows cb s ns t (Selector_Path sel)"

lemma is_path_allowed_simps:
  "is_path_allowed cb s ns t All_Path = Some True"
  "is_path_allowed cb s ns t Native_Path = Some (is_native cb t)"
  "is_path_allowed cb s Global_Namespace t Self_Path = Some (separator \<notin> set t)"
  "is_path_allowed cb s (Specific_Namespace n) t Self_Path = matches t n False True"
  "is_path_allowed cb s ns t (Selector_Path sel) = matches_selector t sel"
  "is_path_allowed cb s ns t (Layer_Path name) = (case map_of (layers s) name of None \<Rightarrow> Some False
     | Some ps \<Rightarrow> any_returning (is_path_allowed cb s ns t) ps)"
  by (subst is_path_allowed.simps, simp)+

lemma path_allowed_flat:
  assumes "path_ok p" "namespace_ok ns" "\<And>name. p \<noteq> Layer_Path name"
  shows "is_path_allowed cb s ns t p = Some (path_allows cb s ns t p)"
proof (cases p)
  case Self_Path
  show ?thesis
  proof (cases ns)
    case (Specific_Namespace n)
    then obtain b where "matches t n False True = Some b" using matches_returns[of n t False True] assms(2) by auto
    then show ?thesis by (simp add: Self_Path Specific_Namespace is_path_allowed_simps path_allows_simps)
  qed (simp add: Self_Path is_path_allowed_simps path_allows_simps)
next
  case (Selector_Path sel)
  then obtain b where "matches_selector t sel = Some b" using matches_selector_returns assms(1) by auto
  then show ?thesis by (simp add: Selector_Path is_path_allowed_simps path_allows_simps)
qed (use assms(3) in \<open>simp_all add: is_path_allowed_simps path_allows_simps\<close>)

lemma layer_step_wf: "acyclic (layer_step s) \<Longrightarrow> wf (layer_step s)"
proof -
  have "layer_step s \<subseteq> {b. Layer_Path b \<in> (\<Union>ps \<in> snd ` set (layers s). set ps)} \<times> fst ` set (layers s)"
    by (force simp: layer_step_def dest: map_of_SomeD)
  moreover have "finite {b. Layer_Path b \<in> (\<Union>ps \<in> snd ` set (layers s). set ps)}"
    by (rule finite_vimageI[of _ Layer_Path, unfolded vimage_def]) (simp_all add: inj_def)
  ultimately have "finite (layer_step s)" by (meson finite_SigmaI finite_imageI finite_set finite_subset)
  then show "acyclic (layer_step s) \<Longrightarrow> wf (layer_step s)" by (rule finite_acyclic_wf)
qed

lemma is_path_allowed_exact:
  assumes "settings_ok s" "acyclic (layer_step s)" "namespace_ok ns" "path_ok p"
  shows "is_path_allowed cb s ns t p = Some (path_allows cb s ns t p)"
proof -
  have layer: "is_path_allowed cb s ns t (Layer_Path name) = Some (path_allows cb s ns t (Layer_Path name))" for name
  proof (induction name rule: wf_induct_rule[OF layer_step_wf[OF assms(2)]])
    case (1 name)
    show ?case
    proof (cases "map_of (layers s) name")
      case None
      then show ?thesis by (simp add: is_path_allowed_simps path_allows_simps)
    next
      case (Some ps)
      have "is_path_allowed cb s ns t q = Some (path_allows cb s ns t q)" if "q \<in> set ps" for q
      proof (cases "\<exists>inner. q = Layer_Path inner")
        case True
        then obtain inner where q: "q = Layer_Path inner" by blast
        then have "(inner, name) \<in> layer_step s" using Some that by (auto simp: layer_step_def)
        from 1[OF this] show ?thesis by (simp add: q)
      next
        case False
        have "path_ok q" using assms(1) Some that unfolding settings_ok_def by blast
        then show ?thesis using path_allowed_flat[OF _ assms(3)] False by blast
      qed
      then have "any_returning (is_path_allowed cb s ns t) ps = Some (\<exists>q \<in> set ps. path_allows cb s ns t q)"
        by (intro any_returning_Some)
      then show ?thesis using Some by (auto simp: is_path_allowed_simps path_allows_simps)
    qed
  qed
  show ?thesis
  proof (cases "\<exists>name. p = Layer_Path name")
    case False
    then show ?thesis using path_allowed_flat[OF assms(4,3)] by blast
  qed (use layer in blast)
qed

interpretation path: deciding_test "is_path_allowed cb s ns t" "path_allows cb s ns t"
  "\<lambda>p. settings_ok s \<and> acyclic (layer_step s) \<and> namespace_ok ns \<and> path_ok p" for cb s ns t
  by unfold_locales (blast intro: is_path_allowed_exact)

section \<open>The most specific rule\<close>

definition best_rule :: "bytes \<Rightarrow> perimeter_rule list \<Rightarrow> perimeter_rule \<Rightarrow> nat \<Rightarrow> bool" where
  "best_rule ns rules r k \<longleftrightarrow> (\<exists>before after. rules = before @ r # after \<and> rule_specificity ns r = Some (Some k)
     \<and> (\<forall>q \<in> set before. \<forall>j. rule_specificity ns q = Some (Some j) \<longrightarrow> j \<le> k)
     \<and> (\<forall>q \<in> set after. \<forall>j. rule_specificity ns q = Some (Some j) \<longrightarrow> j < k))"

definition rule_chosen :: "bytes \<Rightarrow> perimeter_rule list \<Rightarrow> (perimeter_rule \<times> nat) option \<Rightarrow> bool" where
  "rule_chosen ns rules best \<longleftrightarrow>
     (case best of
        None \<Rightarrow> \<forall>q \<in> set rules. rule_specificity ns q = Some None
      | Some (r, k) \<Rightarrow> best_rule ns rules r k)"

lemma rule_chosen_step:
  assumes "rule_chosen ns rules best" "rule_specificity ns q = Some c"
  shows "rule_chosen ns (rules @ [q]) (case c of None \<Rightarrow> best
     | Some k \<Rightarrow> (case best of None \<Rightarrow> Some (q, k) | Some (_, g) \<Rightarrow> if g \<le> k then Some (q, k) else best))"
proof (cases best)
  case None
  then have none: "\<forall>p \<in> set rules. rule_specificity ns p = Some None" using assms(1) by (simp add: rule_chosen_def)
  show ?thesis
  proof (cases c)
    case (Some k)
    have "best_rule ns (rules @ [q]) q k"
      unfolding best_rule_def by (rule exI[of _ rules], rule exI[of _ "[]"]) (use none assms(2) Some in auto)
    then show ?thesis by (simp add: rule_chosen_def None Some)
  qed (use none assms(2) None in \<open>simp add: rule_chosen_def\<close>)
next
  case (Some b)
  obtain r g where b: "b = (r, g)" by (cases b)
  obtain xs ys where best: "rules = xs @ r # ys" "rule_specificity ns r = Some (Some g)"
    "\<forall>p \<in> set xs. \<forall>j. rule_specificity ns p = Some (Some j) \<longrightarrow> j \<le> g"
    "\<forall>p \<in> set ys. \<forall>j. rule_specificity ns p = Some (Some j) \<longrightarrow> j < g"
    using assms(1) unfolding Some b rule_chosen_def best_rule_def option.case prod.case by blast
  show ?thesis
  proof (cases "\<exists>k. c = Some k \<and> g \<le> k")
    case True
    then obtain k where k: "c = Some k" "g \<le> k" by blast
    have "best_rule ns (rules @ [q]) q k"
      unfolding best_rule_def
    proof (rule exI[of _ rules], rule exI[of _ "[]"], intro conjI ballI allI impI)
      fix p j assume p: "p \<in> set rules" "rule_specificity ns p = Some (Some j)"
      then have "p \<in> set xs \<or> p = r \<or> p \<in> set ys" using best(1) by auto
      then have "j \<le> g" using best(2-4) p(2) by fastforce
      then show "j \<le> k" using k(2) by simp
    qed (use assms(2) k in simp_all)
    then show ?thesis by (simp add: rule_chosen_def Some b k)
  next
    case False
    then have small: "\<forall>j. rule_specificity ns q = Some (Some j) \<longrightarrow> j < g" using assms(2) by auto
    have "best_rule ns (rules @ [q]) r g"
      unfolding best_rule_def by (rule exI[of _ xs], rule exI[of _ "ys @ [q]"]) (use best small in auto)
    then show ?thesis using False by (cases c) (auto simp: rule_chosen_def Some b)
  qed
qed

lemma select_rule_spec:
  assumes "\<forall>q \<in> set rest. \<exists>c. rule_specificity ns q = Some c" "rule_chosen ns done best"
  shows "\<exists>chosen. select_rule ns rest best = Some chosen \<and> rule_chosen ns (done @ rest) chosen"
  using assms
proof (induction rest arbitrary: "done" best)
  case (Cons q rest)
  then obtain c where c: "rule_specificity ns q = Some c" by auto
  from Cons.IH[OF _ rule_chosen_step[OF Cons.prems(2) c]] Cons.prems(1)
  show ?case by (simp add: c)
qed simp

lemma best_rule_unique:
  assumes "best_rule ns rules r k" "best_rule ns rules r' k'" shows "r = r'"
proof -
  obtain xs ys where a: "rules = xs @ r # ys" "rule_specificity ns r = Some (Some k)"
    "\<forall>q \<in> set xs. \<forall>j. rule_specificity ns q = Some (Some j) \<longrightarrow> j \<le> k"
    "\<forall>q \<in> set ys. \<forall>j. rule_specificity ns q = Some (Some j) \<longrightarrow> j < k"
    using assms(1) unfolding best_rule_def by blast
  obtain xs' ys' where b: "rules = xs' @ r' # ys'" "rule_specificity ns r' = Some (Some k')"
    "\<forall>q \<in> set xs'. \<forall>j. rule_specificity ns q = Some (Some j) \<longrightarrow> j \<le> k'"
    "\<forall>q \<in> set ys'. \<forall>j. rule_specificity ns q = Some (Some j) \<longrightarrow> j < k'"
    using assms(2) unfolding best_rule_def by blast
  have "xs @ r # ys = xs' @ r' # ys'" using a(1) b(1) by simp
  then obtain us where "xs = xs' @ us \<and> us @ r # ys = r' # ys' \<or> xs @ us = xs' \<and> r # ys = us @ r' # ys'"
    by (auto simp: append_eq_append_conv2)
  then consider "r = r'" | "r \<in> set ys'" "r' \<in> set xs" | "r' \<in> set ys" "r \<in> set xs'" by (cases us) auto
  then show ?thesis
  proof cases
    case 2
    then have "k < k'" "k' \<le> k" using a b by blast+
    then show ?thesis by simp
  next
    case 3
    then have "k' < k" "k \<le> k'" using a b by blast+
    then show ?thesis by simp
  qed
qed

section \<open>The decision, declaratively\<close>

definition dependency_allows ::
  "codebase \<Rightarrow> perimeter_settings \<Rightarrow> namespace_path \<Rightarrow> bytes \<Rightarrow> dependency_kind \<Rightarrow> permitted_dependency \<Rightarrow> bool" where
  "dependency_allows cb s ns t kind d \<longleftrightarrow> path_allows cb s ns t (dependency_path d)
     \<and> (\<forall>path kinds. d = Dependency_Of_Kind path kinds \<longrightarrow> kind \<in> set kinds)"

interpretation dependency: deciding_test "dependency_permitted cb s ns t kind" "dependency_allows cb s ns t kind"
  "\<lambda>d. settings_ok s \<and> acyclic (layer_step s) \<and> namespace_ok ns \<and> path_ok (dependency_path d)" for cb s ns t kind
proof
  fix d assume "settings_ok s \<and> acyclic (layer_step s) \<and> namespace_ok ns \<and> path_ok (dependency_path d)"
  then show "dependency_permitted cb s ns t kind d = Some (dependency_allows cb s ns t kind d)"
    using path.decides by (cases d) (simp_all add: dependency_permitted_def dependency_allows_def)
qed

definition rule_permits :: "codebase \<Rightarrow> perimeter_settings \<Rightarrow> perimeter_rule \<Rightarrow> bytes \<Rightarrow> dependency_kind \<Rightarrow> bool" where
  "rule_permits cb s r t kind \<longleftrightarrow> (\<exists>d \<in> set (permit r). dependency_allows cb s (rule_namespace r) t kind d)"

text \<open>The first layer a namespace lies in.\<close>

definition in_layer :: "perimeter_settings \<Rightarrow> bytes \<Rightarrow> nat \<Rightarrow> bool" where
  "in_layer s ns i \<longleftrightarrow> i < length (layering s) \<and> in_namespace ns (layering s ! i) = Some True
     \<and> (\<forall>j < i. in_namespace ns (layering s ! j) = Some False)"

definition use_allowed :: "codebase \<Rightarrow> perimeter_settings \<Rightarrow> bytes \<Rightarrow> bytes \<Rightarrow> dependency_kind \<Rightarrow> bool" where
  "use_allowed cb s ns t kind \<longleftrightarrow>
     \<not> (\<exists>r \<in> set (restrictions s). restriction_violated r ns t kind)
     \<and> ((\<exists>r k. best_rule ns (perimeter_rules s) r k \<and> rule_permits cb s r t kind)
        \<or> (\<exists>i j. in_layer s ns i \<and> in_layer s t j \<and> j \<le> i)
        \<or> perimeter_rules s = [] \<and> layering s = [])"

lemma layer_index_exact:
  assumes "\<forall>n \<in> set paths. namespace_ok n"
  shows "\<exists>found. layer_index_from i ns paths = Some found
    \<and> (\<forall>k. found = Some k \<longleftrightarrow> i \<le> k \<and> k - i < length paths \<and> in_namespace ns (paths ! (k - i)) = Some True
         \<and> (\<forall>j < k - i. in_namespace ns (paths ! j) = Some False))"
  using assms
proof (induction paths arbitrary: i)
  case (Cons p paths)
  then obtain b where b: "in_namespace ns p = Some b" using in_namespace_returns[of p ns] by auto
  show ?case
  proof (cases b)
    case True
    have "(Some i = Some k) \<longleftrightarrow> i \<le> k \<and> k - i < length (p # paths) \<and> in_namespace ns ((p # paths) ! (k - i)) = Some True
        \<and> (\<forall>j < k - i. in_namespace ns ((p # paths) ! j) = Some False)" for k
    proof (cases "k - i")
      case (Suc m)
      then have "in_namespace ns ((p # paths) ! 0) \<noteq> Some False" using b True by simp
      then show ?thesis using Suc by auto
    qed (use b True in auto)
    then show ?thesis using b True by simp
  next
    case False
    obtain found where found: "layer_index_from (i + 1) ns paths = Some found"
      "\<forall>k. found = Some k \<longleftrightarrow> i + 1 \<le> k \<and> k - (i + 1) < length paths \<and> in_namespace ns (paths ! (k - (i + 1))) = Some True
         \<and> (\<forall>j < k - (i + 1). in_namespace ns (paths ! j) = Some False)"
      using Cons.IH[of "i + 1"] Cons.prems by auto
    have "found = Some k \<longleftrightarrow> i \<le> k \<and> k - i < length (p # paths) \<and> in_namespace ns ((p # paths) ! (k - i)) = Some True
        \<and> (\<forall>j < k - i. in_namespace ns ((p # paths) ! j) = Some False)" for k
    proof (cases "k - i")
      case 0
      then show ?thesis using found(2) b False by (cases "k = i") auto
    next
      case (Suc m)
      then have k: "k = Suc (i + m)" by simp
      have first: "(\<forall>j < Suc m. in_namespace ns ((p # paths) ! j) = Some False)
          \<longleftrightarrow> (\<forall>j < m. in_namespace ns (paths ! j) = Some False)"
        using b False by (simp add: All_less_Suc2)
      show ?thesis using found(2)[rule_format, of k] by (simp add: k first)
    qed
    then show ?thesis using b False found(1) by simp
  qed
qed simp

lemma get_layer_exact:
  assumes "settings_ok s"
  shows "\<exists>found. get_layer_index ns s = Some found \<and> (\<forall>k. found = Some k \<longleftrightarrow> in_layer s ns k)"
  using layer_index_exact[of "layering s" 0 ns] assms unfolding settings_ok_def get_layer_index_def in_layer_def by auto

section \<open>The steps of the decision\<close>

lemma settings_okD:
  assumes "settings_ok s"
  shows "\<forall>r \<in> set (perimeter_rules s). namespace_ok (rule_namespace r) \<and> (\<forall>d \<in> set (permit r). path_ok (dependency_path d))"
    "\<forall>r \<in> set (restrictions s). selector_ok (restricted_dependency r)
          \<and> (\<forall>p \<in> set (allow_from r @ deny_from r). pattern_returns p)"
  using assms unfolding settings_ok_def by blast+

lemma rule_decided:
  assumes "settings_ok s" "acyclic (layer_step s)"
  shows "\<exists>chosen. select_rule ns (perimeter_rules s) None = Some chosen \<and> (perimeter_rules s = [] \<longrightarrow> chosen = None)
    \<and> (case map_option fst chosen of None \<Rightarrow> Some False
        | Some r \<Rightarrow> any_returning (dependency_permitted cb s (rule_namespace r) t kind) (permit r))
      = Some (\<exists>r k. best_rule ns (perimeter_rules s) r k \<and> rule_permits cb s r t kind)"
proof -
  have "\<exists>c. rule_specificity ns q = Some c" if "q \<in> set (perimeter_rules s)" for q
    using settings_okD(1)[OF assms(1)] that matches_returns unfolding rule_specificity_def
    by (cases "rule_namespace q") fastforce+
  then obtain chosen where chosen: "select_rule ns (perimeter_rules s) None = Some chosen"
      "rule_chosen ns (perimeter_rules s) chosen"
    using select_rule_spec[of "perimeter_rules s" ns "[]" None] by (auto simp: rule_chosen_def)
  show ?thesis
  proof (cases chosen)
    case None
    then have "\<not> best_rule ns (perimeter_rules s) r k" for r k
      using chosen(2) unfolding rule_chosen_def best_rule_def by auto
    then show ?thesis using chosen(1) None by simp
  next
    case (Some c)
    obtain r k where c: "c = (r, k)" by (cases c)
    then have best: "best_rule ns (perimeter_rules s) r k" using chosen(2) by (simp add: Some rule_chosen_def)
    then have r: "r \<in> set (perimeter_rules s)" unfolding best_rule_def by auto
    have "any_returning (dependency_permitted cb s (rule_namespace r) t kind) (permit r) = Some (rule_permits cb s r t kind)"
      unfolding rule_permits_def by (rule dependency.any_decided) (use settings_okD(1)[OF assms(1)] r assms in blast)
    moreover have "rule_permits cb s r t kind \<longleftrightarrow> (\<exists>r k. best_rule ns (perimeter_rules s) r k \<and> rule_permits cb s r t kind)"
      using best best_rule_unique[OF best] by blast
    ultimately show ?thesis using chosen(1) r by (auto simp: Some c)
  qed
qed

lemma layers_decided:
  assumes "settings_ok s"
  shows "\<exists>src tgt. (if layering s = [] then Some (None, None) else Option.bind (get_layer_index ns s) (\<lambda>src.
        Option.bind (get_layer_index t s) (\<lambda>tgt. Some (src, tgt)))) = Some (src, tgt)
    \<and> ((\<exists>i j. in_layer s ns i \<and> in_layer s t j \<and> j \<le> i) \<longleftrightarrow> (\<exists>i j. src = Some i \<and> tgt = Some j \<and> j \<le> i))
    \<and> (layering s = [] \<longrightarrow> src = None)"
proof -
  obtain src where src: "get_layer_index ns s = Some src" "\<forall>k. src = Some k \<longleftrightarrow> in_layer s ns k"
    using get_layer_exact[OF assms] by blast
  obtain tgt where tgt: "get_layer_index t s = Some tgt" "\<forall>k. tgt = Some k \<longleftrightarrow> in_layer s t k"
    using get_layer_exact[OF assms] by blast
  have "src = None \<and> tgt = None" if "layering s = []"
    using src(2) tgt(2) that by (cases src; cases tgt) (auto simp: in_layer_def)
  then show ?thesis using src tgt by (intro exI[of _ src] exI[of _ tgt]) auto
qed


section \<open>A sample\<close>

text \<open>Code in \<open>B\<close> may use \<open>A\<close> and not the other way; \<open>A\Secret\<close> may only be used from \<open>A\<close>.\<close>

definition layered_settings :: perimeter_settings where
  "layered_settings = \<lparr>layers = [(byte_string ''core'', [Self_Path])],
     layering = [Specific_Namespace (fqn [''A'', '''']), Specific_Namespace (fqn [''B'', ''''])], layering_reason = None,
     perimeter_rules = [],
     restrictions = [\<lparr>restricted_dependency = Symbol_Selector (fqn [''A'', ''Secret'']), allow_from = [fqn [''A'', '''']],
       deny_from = [], restricted_kinds = [], restriction_reason = None\<rparr>]\<rparr>"

definition layered_context :: "string \<Rightarrow> guard_context" where
  "layered_context ns = \<lparr>guard_settings = layered_settings, guard_codebase = codebase_new, boundary_breaches = [],
     current_namespace = Some (byte_string ns)\<rparr>"

lemma in_namespace_plain:
  "open_brace \<notin> set ns \<Longrightarrow> in_namespace name (Specific_Namespace ns) = Some (matches_plain name ns False True)"
  by (simp add: in_namespace_def matches_free)

lemma layered_settings_ok: "settings_ok layered_settings" "acyclic (layer_step layered_settings)"
proof -
  show "settings_ok layered_settings" by (simp add: settings_ok_def layered_settings_def pattern_returns_def)
  have "layer_step layered_settings = {}" by (auto simp: layer_step_def layered_settings_def split: if_splits)
  then show "acyclic (layer_step layered_settings)" by (simp add: acyclic_def)
qed

lemma layered_uses:
  "use_allowed codebase_new layered_settings (byte_string ''B'') (fqn [''A'', ''X'']) k"
  "\<not> use_allowed codebase_new layered_settings (byte_string ''A'') (fqn [''B'', ''X'']) k"
  "\<not> use_allowed codebase_new layered_settings (byte_string ''B'') (fqn [''a'', ''secret'']) k"
proof -
  let ?A = "Specific_Namespace (fqn [''A'', ''''])" and ?B = "Specific_Namespace (fqn [''B'', ''''])"
  have l: "layering layered_settings = [?A, ?B]" "perimeter_rules layered_settings = []"
    by (simp_all add: layered_settings_def)
  have m: "in_namespace (byte_string ''A'') ?A = Some True" "in_namespace (byte_string ''B'') ?A = Some False"
    "in_namespace (byte_string ''B'') ?B = Some True" "in_namespace (fqn [''A'', ''X'']) ?A = Some True"
    "in_namespace (fqn [''B'', ''X'']) ?A = Some False" "in_namespace (fqn [''B'', ''X'']) ?B = Some True"
    by (subst in_namespace_plain, code_simp, code_simp)+
  have inA: "in_layer layered_settings (byte_string ''A'') i \<longleftrightarrow> i = 0" for i
    using m(1) by (cases i) (auto simp: in_layer_def l dest: spec[where x = 0])
  have inB: "in_layer layered_settings (byte_string ''B'') (Suc 0)"
    using m(2,3) by (auto simp: in_layer_def l)
  have inAX: "in_layer layered_settings (fqn [''A'', ''X'']) 0"
    using m(4) by (auto simp: in_layer_def l)
  have inBX: "\<not> in_layer layered_settings (fqn [''B'', ''X'']) 0"
    using m(5) by (auto simp: in_layer_def l)
  have no_rule: "\<not> best_rule ns [] r j" for ns r j by (simp add: best_rule_def)
  have restr: "(\<exists>r \<in> set (restrictions layered_settings). restriction_violated r ns t k)
      \<longleftrightarrow> eq_ignore_ascii_case t (fqn [''A'', ''Secret'']) \<and> matches_source_namespace ns (fqn [''A'', '''']) \<noteq> Some True" for ns t
    by (simp add: layered_settings_def restriction_violated_def matches_selector_def)
  have "\<not> eq_ignore_ascii_case (fqn [''A'', ''X'']) (fqn [''A'', ''Secret''])" by code_simp
  then show "use_allowed codebase_new layered_settings (byte_string ''B'') (fqn [''A'', ''X'']) k"
    unfolding use_allowed_def restr using inB inAX by blast
  show "\<not> use_allowed codebase_new layered_settings (byte_string ''A'') (fqn [''B'', ''X'']) k"
    unfolding use_allowed_def l(2) using no_rule inA inBX l(1) by auto
  have "eq_ignore_ascii_case (fqn [''a'', ''secret'']) (fqn [''A'', ''Secret''])" by code_simp
  moreover have "matches_source_namespace (byte_string ''B'') (fqn [''A'', '''']) = Some False"
    unfolding matches_source_namespace_def by (subst matches_free) code_simp+
  ultimately show "\<not> use_allowed codebase_new layered_settings (byte_string ''B'') (fqn [''a'', ''secret'']) k"
    unfolding use_allowed_def restr by simp
qed


section \<open>Where the checker goes wrong\<close>

text \<open>
  Layers that name each other before anything in their lists allows the symbol are never decided.
\<close>

lemma any_returning_passes:
  "any_returning f (xs @ z # zs) = Some y \<Longrightarrow> \<forall>x \<in> set xs. f x \<noteq> Some True \<Longrightarrow> f z \<noteq> None"
  by (induction xs) (auto simp: bind_eq_Some_conv split: if_splits)

lemma any_returning_stuck:
  "\<forall>x \<in> set xs. f x = Some False \<Longrightarrow> f z = None \<Longrightarrow> any_returning f (xs @ z # zs) = None"
  by (induction xs) auto

lemma any_returning_extends:
  assumes ext: "\<And>x y. f x = Some y \<Longrightarrow> g x = Some y"
  shows "any_returning f xs = Some y \<Longrightarrow> any_returning g xs = Some y"
proof (induction xs)
  case (Cons x xs)
  then obtain b where b: "f x = Some b" "(if b then Some True else any_returning f xs) = Some y"
    by (auto simp: bind_eq_Some_conv)
  then show ?case using ext[OF b(1)] Cons.IH by (cases b) simp_all
qed simp

definition circle :: "codebase \<Rightarrow> perimeter_settings \<Rightarrow> namespace_path \<Rightarrow> bytes \<Rightarrow> bytes set \<Rightarrow> bool" where
  "circle cb s ns t S \<longleftrightarrow> (\<forall>name \<in> S. \<exists>passed inner ps. inner \<in> S
     \<and> map_of (layers s) name = Some (passed @ Layer_Path inner # ps)
     \<and> (\<forall>p \<in> set passed. is_path_allowed cb s ns t p = Some False))"

lemma circular_layers:
  assumes "circle cb s ns t S" "name \<in> S"
  shows "is_path_allowed cb s ns t (Layer_Path name) = None"
proof -
  let ?P = "\<lambda>cb' s' ns' t' p y. is_path_allowed cb' s' ns' t' p = Some y
    \<and> (cb' = cb \<and> s' = s \<and> ns' = ns \<and> t' = t \<longrightarrow> p \<notin> Layer_Path ` S)"
  have gen: "?P cb' s' ns' t' p y" if "is_path_allowed cb' s' ns' t' p = Some y" for cb' s' ns' t' p y
  proof (rule is_path_allowed.raw_induct[where P = ?P, OF _ that])
    fix self cb' s' ns' t' p y
    assume ih: "\<And>cb' s' ns' t' p y. self cb' s' ns' t' p = Some y \<Longrightarrow> ?P cb' s' ns' t' p y"
      and body: "(case p of All_Path \<Rightarrow> Some True | Self_Path \<Rightarrow> (case ns' of Global_Namespace \<Rightarrow> Some (separator \<notin> set t')
             | Specific_Namespace namespace \<Rightarrow> matches t' namespace False True)
         | Native_Path \<Rightarrow> Some (is_native cb' t')
         | Layer_Path layer \<Rightarrow> (case map_of (layers s') layer of None \<Rightarrow> Some False
             | Some patterns \<Rightarrow> any_returning (\<lambda>pattern. self cb' s' ns' t' pattern) patterns)
         | Selector_Path selector \<Rightarrow> matches_selector t' selector) = Some y"
    have "is_path_allowed cb' s' ns' t' p = Some y"
      using body ih any_returning_extends[of "self cb' s' ns' t'" "is_path_allowed cb' s' ns' t'" _ y]
      by (subst is_path_allowed.simps) (auto split: guard_path.splits namespace_path.splits option.splits)
    moreover have "p \<notin> Layer_Path ` S" if "cb' = cb \<and> s' = s \<and> ns' = ns \<and> t' = t"
    proof
      assume "p \<in> Layer_Path ` S"
      then obtain name passed inner ps where n: "p = Layer_Path name" "inner \<in> S"
        "map_of (layers s) name = Some (passed @ Layer_Path inner # ps)"
        "\<forall>p \<in> set passed. is_path_allowed cb s ns t p = Some False"
        using assms(1) unfolding circle_def by blast
      then have "any_returning (self cb s ns t) (passed @ Layer_Path inner # ps) = Some y" using body that by simp
      moreover have "\<forall>p \<in> set passed. self cb s ns t p \<noteq> Some True" using n(4) ih by fastforce
      ultimately have "self cb s ns t (Layer_Path inner) \<noteq> None" by (rule any_returning_passes)
      then show False using ih[of cb s ns t "Layer_Path inner"] n(2) by blast
    qed
    ultimately show "?P cb' s' ns' t' p y" by blast
  qed
  show ?thesis
  proof (cases "is_path_allowed cb s ns t (Layer_Path name)")
    case (Some y)
    then show ?thesis using gen[OF Some] assms(2) by blast
  qed
qed

text \<open>
  C40. When the rule that applies to a namespace permits a layer of a circle, and neither a
  restriction forbids the use nor anything before that layer permits it, the checker does not return.
  In a circle every layer lists another one of the circle, behind paths that are decided and do not
  allow the symbol.
\<close>

theorem circular_layers_never_decide:
  assumes "circle (guard_codebase ctx) (guard_settings ctx) (rule_namespace r) t S" "name \<in> S"
    and "find_returning (\<lambda>r. violates_restriction r (get_current_namespace ctx) t kind) (restrictions (guard_settings ctx)) = Some None"
    and "select_rule (get_current_namespace ctx) (perimeter_rules (guard_settings ctx)) None = Some (Some (r, k))"
    and "permit r = passed @ d # ds" "d = Dependency (Layer_Path name) \<or> (\<exists>kinds. d = Dependency_Of_Kind (Layer_Path name) kinds \<and> kind \<in> set kinds)"
    and "\<forall>e \<in> set passed. dependency_permitted (guard_codebase ctx) (guard_settings ctx) (rule_namespace r) t kind e = Some False"
  shows "find_breach ctx t kind vec sp = None \<and> check_usage t kind vec sp ctx = None"
proof -
  have "dependency_permitted (guard_codebase ctx) (guard_settings ctx) (rule_namespace r) t kind d = None"
    using assms(6) circular_layers[OF assms(1,2)] by (auto simp: dependency_permitted_def)
  then have "any_returning (dependency_permitted (guard_codebase ctx) (guard_settings ctx) (rule_namespace r) t kind) (permit r) = None"
    unfolding assms(5) by (rule any_returning_stuck[OF assms(7)])
  then have "find_breach ctx t kind vec sp = None" by (simp add: find_breach_def Let_def assms(3,4))
  then show ?thesis by (simp add: check_usage_def)
qed

definition circular_rule :: perimeter_rule where
  "circular_rule = \<lparr>rule_namespace = Global_Namespace,
     permit = [Dependency Native_Path, Dependency (Layer_Path (byte_string ''a''))], rule_reason = None\<rparr>"

definition circular_context :: guard_context where
  "circular_context = \<lparr>guard_settings = \<lparr>layers = [(byte_string ''a'', [Native_Path, Layer_Path (byte_string ''b'')]),
         (byte_string ''b'', [Layer_Path (byte_string ''a''), All_Path])],
       layering = [], layering_reason = None, perimeter_rules = [circular_rule], restrictions = []\<rparr>,
     guard_codebase = codebase_new, boundary_breaches = [], current_namespace = None\<rparr>"

theorem circular_layers_never_decide_witness:
  "find_breach circular_context (byte_string ''strlen'') Function_Kind Function_Call span_zero = None"
proof -
  let ?ctx = circular_context
  have native: "is_native codebase_new (byte_string ''strlen'') = False" by code_simp
  have distinct: "byte_string ''b'' \<noteq> byte_string ''a''" by code_simp
  have circle: "circle (guard_codebase ?ctx) (guard_settings ?ctx) (rule_namespace circular_rule) (byte_string ''strlen'')
      {byte_string ''a'', byte_string ''b''}"
    unfolding circle_def
  proof (intro ballI)
    fix name assume "name \<in> {byte_string ''a'', byte_string ''b''}"
    then consider "name = byte_string ''a''" | "name = byte_string ''b''" by blast
    then show "\<exists>passed inner ps. inner \<in> {byte_string ''a'', byte_string ''b''}
      \<and> map_of (layers (guard_settings ?ctx)) name = Some (passed @ Layer_Path inner # ps)
      \<and> (\<forall>p \<in> set passed. is_path_allowed (guard_codebase ?ctx) (guard_settings ?ctx) (rule_namespace circular_rule) (byte_string ''strlen'') p = Some False)"
    proof cases
      case 1
      then show ?thesis by (intro exI[of _ "[Native_Path]"] exI[of _ "byte_string ''b''"] exI[of _ "[]"])
        (simp add: circular_context_def native is_path_allowed_simps del: byte_string_Cons)
    next
      case 2
      then show ?thesis by (intro exI[of _ "[]"] exI[of _ "byte_string ''a''"] exI[of _ "[All_Path]"])
        (simp add: circular_context_def distinct del: byte_string_Cons)
    qed
  qed
  show ?thesis
    by (rule conjunct1[OF circular_layers_never_decide[OF circle, where name = "byte_string ''a''" and k = 0
          and passed = "[Dependency Native_Path]" and d = "Dependency (Layer_Path (byte_string ''a''))" and ds = "[]"]])
       (simp_all add: circular_context_def circular_rule_def get_current_namespace_def rule_specificity_def
          dependency_permitted_def native is_path_allowed_simps del: byte_string_Cons)
qed

text \<open>
  A symbol of the global namespace is in no layer: with the global namespace as the only
  layer, and neither rules nor restrictions, every use of a global symbol is reported, even from
  the global namespace, although the selector of the global namespace matches it.
\<close>

theorem global_layer_misses_symbols:
  assumes "t \<noteq> []" "separator \<notin> set t" "layering (guard_settings ctx) = [Global_Namespace]"
    and "perimeter_rules (guard_settings ctx) = []" "restrictions (guard_settings ctx) = []"
  shows "matches_selector t (Namespace_Selector Global_Namespace) = Some True
    \<and> get_layer_index t (guard_settings ctx) = Some None
    \<and> (\<exists>br. find_breach ctx t kind vec sp = Some (Some br) \<and> reason br = No_Matching_Rule)"
proof -
  have layer: "get_layer_index t (guard_settings ctx) = Some None"
    using assms(1) by (simp add: get_layer_index_def assms(3) in_namespace_def)
  obtain src where src: "get_layer_index (get_current_namespace ctx) (guard_settings ctx) = Some src"
    by (cases "get_current_namespace ctx = []") (simp_all add: get_layer_index_def assms(3) in_namespace_def)
  have "\<exists>br. find_breach ctx t kind vec sp = Some (Some br) \<and> reason br = No_Matching_Rule"
    unfolding find_breach_def Let_def by (cases src) (simp_all add: assms(3-5) src layer)
  then show ?thesis using layer assms(2) by (simp add: matches_selector_def)
qed

theorem global_layer_misses_symbols_witness:
  "\<exists>br. find_breach \<lparr>guard_settings = \<lparr>layers = [], layering = [Global_Namespace], layering_reason = None, perimeter_rules = [],
       restrictions = []\<rparr>, guard_codebase = codebase_new, boundary_breaches = [], current_namespace = None\<rparr>
     (byte_string ''Foo'') Class_Like_Kind Instantiation span_zero = Some (Some br)"
  using global_layer_misses_symbols[of "byte_string ''Foo''" "\<lparr>guard_settings = \<lparr>layers = [], layering = [Global_Namespace],
      layering_reason = None, perimeter_rules = [], restrictions = []\<rparr>, guard_codebase = codebase_new,
      boundary_breaches = [], current_namespace = None\<rparr>" Class_Like_Kind Instantiation span_zero]
  by auto

end
