(* ===== verification/Doc_Printer.thy ===== *)
theory Doc_Printer
  imports Byte_Text "HOL-Library.AList"
begin

text \<open>
  The printer of the formatter (crate \<open>formatter\<close>, \<open>internal/printer/\<close> and \<open>document/mod.rs\<close>): a
  document of texts, lines and groups is laid out within a line width. A stack of commands is run
  one after the other; a group is printed flat when \<open>fits\<close> says that what follows up to the next
  line break has room, and broken otherwise. The lemmas show that the printer ends on every document,
  what \<open>fits\<close> decides, and what propagating breaks does.

  A vector used as a stack is a list whose head is its top. A document is a tree: its nodes are not
  shared, so a change of a node is a new tree. The mutable break mode of a group is a field of the
  node. Left out is the cache of the groups whose breaks were propagated without a result, since
  propagating again changes nothing (\<open>propagate_twice\<close>). The width of a line that is not printable
  ASCII, decoded with replacement characters and measured by another crate, is the parameter \<open>wide\<close>. A width is an integer, an offset a natural
  number; both are bounded by the memory that holds the text.
\<close>

section \<open>Documents\<close>

type_synonym group_identifier = nat

datatype trim = Trim_Whitespace | Trim_Newlines

record line =
  hard :: bool
  soft :: bool
  literal :: bool

datatype break_mode = Auto | Force | Preserve

datatype document =
    Doc_String bytes
  | Doc_Range_Start
  | Doc_Range_End
  | Doc_Array "document list"
  | Doc_Indent "document list"
  | Doc_Indent_If_Break group_identifier "document list"
  | Doc_Group "document list" break_mode "document list option" "group_identifier option"
  | Doc_Line line
  | Doc_Line_Suffix "document list"
  | Doc_Line_Suffix_Boundary
  | Doc_If_Break document document "group_identifier option"
  | Doc_Break_Parent
  | Doc_Align bytes "document list"
  | Doc_Trim trim
  | Doc_Do_Not_Trim
  | Doc_Space bool

definition line_default :: line where "line_default = \<lparr>hard = False, soft = False, literal = False\<rparr>"
definition line_soft :: line where "line_soft = line_default\<lparr>soft := True\<rparr>"
definition line_hard :: line where "line_hard = line_default\<lparr>hard := True\<rparr>"
definition line_literal :: line where "line_literal = line_default\<lparr>hard := True, literal := True\<rparr>"

definition doc_space :: document where "doc_space = Doc_Space False"

section \<open>The state of the printer\<close>

record indentation =
  depth :: nat
  alignment :: "bytes option"

definition indentation_root :: indentation where
  "indentation_root = \<lparr>depth = 0, alignment = None\<rparr>"

definition indentation_aligned :: "bytes \<Rightarrow> indentation" where
  "indentation_aligned value = \<lparr>depth = 0, alignment = Some value\<rparr>"

definition indented :: "indentation \<Rightarrow> indentation" where
  "indented self = self\<lparr>depth := depth self + 1\<rparr>"

definition is_root :: "indentation \<Rightarrow> bool" where
  "is_root self \<longleftrightarrow> depth self = 0 \<and> alignment self = None"

datatype mode = Break | Flat

datatype command_document = Command_Document document | Command_Array "document list"

record command =
  cmd_indentation :: indentation
  cmd_mode :: mode
  cmd_document :: command_document

definition command_new :: "indentation \<Rightarrow> mode \<Rightarrow> document \<Rightarrow> command" where
  "command_new ind m doc = \<lparr>cmd_indentation = ind, cmd_mode = m, cmd_document = Command_Document doc\<rparr>"

definition command_array :: "indentation \<Rightarrow> mode \<Rightarrow> document list \<Rightarrow> command" where
  "command_array ind m docs = \<lparr>cmd_indentation = ind, cmd_mode = m, cmd_document = Command_Array docs\<rparr>"

datatype end_of_line = Eol_Auto | Eol_Lf | Eol_Crlf | Eol_Cr

fun eol_bytes :: "end_of_line \<Rightarrow> bytes" where
  "eol_bytes Eol_Crlf = [13, 10]"
| "eol_bytes Eol_Cr = [13]"
| "eol_bytes Eol_Lf = [10]"
| "eol_bytes Eol_Auto = [10]"

record format_settings =
  print_width :: nat
  tab_width :: nat
  use_tabs :: bool
  end_of_line :: end_of_line

record printer =
  settings :: format_settings
  out :: bytes
  position :: nat
  commands :: "command list"
  line_suffix :: "command list"
  group_mode_map :: "(group_identifier \<times> mode) list"
  new_line :: bytes
  can_trim :: bool
  range_start :: "nat option"
  range_end :: "nat option"

definition printer_new :: "document \<Rightarrow> format_settings \<Rightarrow> printer" where
  "printer_new doc s =
     \<lparr>settings = s, out = [], position = 0, commands = [command_new indentation_root Break doc], line_suffix = [],
      group_mode_map = [], new_line = eol_bytes (end_of_line s), can_trim = True, range_start = None, range_end = None\<rparr>"

section \<open>Texts and white space\<close>

definition is_line_terminator :: "u8 \<Rightarrow> bool" where
  "is_line_terminator c \<longleftrightarrow> c = 10 \<or> c = 13"

definition is_space :: "u8 \<Rightarrow> bool" where
  "is_space c \<longleftrightarrow> c = 32 \<or> c = 9"

definition is_line_terminator_or_space :: "u8 \<Rightarrow> bool" where
  "is_line_terminator_or_space c \<longleftrightarrow> is_line_terminator c \<or> is_space c"

definition printable_ascii :: "bytes \<Rightarrow> bool" where
  "printable_ascii s \<longleftrightarrow> list_all (\<lambda>b. 32 \<le> b \<and> b \<le> 126) s"

text \<open>A word of four Arabic letters that is usually shown as one glyph counts as an underscore.\<close>

definition one_glyph_word :: bytes where
  "one_glyph_word = [216, 167, 217, 132, 217, 132, 217, 135]"

fun single_glyphs :: "bytes \<Rightarrow> bytes" where
  "single_glyphs [] = []"
| "single_glyphs (b # s) =
     (if take 8 (b # s) = one_glyph_word then 95 # single_glyphs (drop 7 s) else b # single_glyphs s)"

definition string_width :: "(bytes \<Rightarrow> nat) \<Rightarrow> bytes \<Rightarrow> nat" where
  "string_width wide s =
     (if printable_ascii s then length s
      else let line = (case rposition_of is_line_terminator s of None \<Rightarrow> s | Some offset \<Rightarrow> drop (offset + 1) s)
           in if printable_ascii line then length line else wide (single_glyphs line))"

section \<open>Breaks that propagate\<close>

text \<open>
  \<open>propagate_breaks\<close> answers whether a document forces the groups around it to break, and marks the
  groups it forces; a slice is visited from its end, up to the first document that answers yes.
\<close>

fun propagate_breaks :: "document \<Rightarrow> bool \<times> document"
  and propagate_slice :: "document list \<Rightarrow> bool \<times> document list" where
  "propagate_breaks Doc_Break_Parent = (True, Doc_Break_Parent)"
| "propagate_breaks (Doc_Group contents bm states i) =
     (if bm = Force then (True, Doc_Group contents bm states i)
      else
        let (broken_states, states') =
              (case states of None \<Rightarrow> (False, None) | Some ss \<Rightarrow> map_prod id Some (propagate_slice ss));
            (broken_contents, contents') = propagate_slice contents;
            should_break = broken_states \<or> broken_contents;
            bm' = (if states = None \<and> should_break \<and> bm \<noteq> Preserve then Force else bm)
        in (bm' = Force, Doc_Group contents' bm' states' i))"
| "propagate_breaks (Doc_If_Break broken flat i) =
     map_prod id (\<lambda>d. Doc_If_Break d flat i) (propagate_breaks broken)"
| "propagate_breaks (Doc_Array ds) = map_prod id Doc_Array (propagate_slice ds)"
| "propagate_breaks (Doc_Indent ds) = map_prod id Doc_Indent (propagate_slice ds)"
| "propagate_breaks (Doc_Align a ds) = map_prod id (Doc_Align a) (propagate_slice ds)"
| "propagate_breaks (Doc_Indent_If_Break i ds) = map_prod id (Doc_Indent_If_Break i) (propagate_slice ds)"
| "propagate_breaks d = (False, d)"
| "propagate_slice [] = (False, [])"
| "propagate_slice (d # ds) =
     (case propagate_slice ds of
        (True, ds') \<Rightarrow> (True, d # ds')
      | (False, ds') \<Rightarrow> map_prod id (\<lambda>d'. d' # ds') (propagate_breaks d))"

section \<open>Weights\<close>

text \<open>A weight that every step of the printer lowers, but for those that only move a command.\<close>

fun weight :: "document \<Rightarrow> nat" and weights :: "document list \<Rightarrow> nat" where
  "weight (Doc_Array ds) = 1 + weights ds"
| "weight (Doc_Indent ds) = 1 + weights ds"
| "weight (Doc_Indent_If_Break i ds) = 1 + weights ds"
| "weight (Doc_Align a ds) = 1 + weights ds"
| "weight (Doc_Group ds bm states i) = 2 + weights ds + (case states of None \<Rightarrow> 0 | Some ss \<Rightarrow> weights ss)"
| "weight (Doc_Line_Suffix ds) = 2 + weights ds"
| "weight Doc_Line_Suffix_Boundary = 2"
| "weight (Doc_If_Break a b i) = 1 + weight a + weight b"
| "weight d = 1"
| "weights [] = 0"
| "weights (d # ds) = weight d + weights ds"

lemma weight_pos: "0 < weight d"
  by (cases d) simp_all

lemma weights_append [simp]: "weights (ds @ es) = weights ds + weights es"
  by (induction ds) simp_all

lemma weight_mem: "d \<in> set ds \<Longrightarrow> weight d \<le> weights ds"
  by (induction ds) auto

lemma propagate_weight:
  "weight (snd (propagate_breaks d)) = weight d"
  "weights (snd (propagate_slice ds)) = weights ds"
  by (induction d and ds rule: propagate_breaks_propagate_slice.induct)
    (auto simp: Let_def map_prod_def split: prod.splits option.splits if_splits bool.splits)

section \<open>The stack of the measurement\<close>

text \<open>
  \<open>FitsStack\<close>: frames of documents with their mode, sixteen of them in an array and the others
  in a vector. The array is total: every index the code uses is below sixteen.
\<close>

abbreviation inline_depth :: nat where "inline_depth \<equiv> 16"

record fits_stack =
  inline :: "nat \<Rightarrow> mode \<times> document list"
  overflow :: "(mode \<times> document list) list"
  stack_depth :: nat

definition fits_stack_new :: fits_stack where
  "fits_stack_new = \<lparr>inline = (\<lambda>_. (Flat, [])), overflow = [], stack_depth = 0\<rparr>"

definition fits_push :: "mode \<Rightarrow> document list \<Rightarrow> fits_stack \<Rightarrow> fits_stack" where
  "fits_push m ds s =
     (if ds = [] then s
      else if stack_depth s < inline_depth
      then s\<lparr>inline := (inline s)(stack_depth s := (m, ds)), stack_depth := stack_depth s + 1\<rparr>
      else s\<lparr>overflow := (m, ds) # overflow s, stack_depth := stack_depth s + 1\<rparr>)"

definition fits_pop :: "fits_stack \<Rightarrow> fits_stack" where
  "fits_pop s =
     (if inline_depth < stack_depth s then s\<lparr>overflow := tl (overflow s), stack_depth := stack_depth s - 1\<rparr>
      else s\<lparr>stack_depth := stack_depth s - 1\<rparr>)"

definition fits_top :: "fits_stack \<Rightarrow> (mode \<times> document list) option" where
  "fits_top s =
     (if stack_depth s \<le> inline_depth then Some (inline s (stack_depth s - 1))
      else case overflow s of [] \<Rightarrow> None | f # _ \<Rightarrow> Some f)"

definition fits_set_top :: "mode \<times> document list \<Rightarrow> fits_stack \<Rightarrow> fits_stack" where
  "fits_set_top f s =
     (if stack_depth s \<le> inline_depth then s\<lparr>inline := (inline s)(stack_depth s - 1 := f)\<rparr>
      else s\<lparr>overflow := f # tl (overflow s)\<rparr>)"

function fits_next :: "fits_stack \<Rightarrow> ((mode \<times> document) \<times> fits_stack) option" where
  "fits_next s =
     (if stack_depth s = 0 then None
      else case fits_top s of
             None \<Rightarrow> None
           | Some (m, []) \<Rightarrow> fits_next (fits_pop s)
           | Some (m, d # rest) \<Rightarrow> Some ((m, d), if rest = [] then fits_pop s else fits_set_top (m, rest) s))"
  by pat_completeness auto
termination
  by (relation "measure stack_depth") (auto simp: fits_pop_def)

declare fits_next.simps [simp del]

text \<open>The frames from the top, and the documents they still hold, in the order they are read.\<close>

definition frames :: "fits_stack \<Rightarrow> (mode \<times> document list) list" where
  "frames s = overflow s @ map (inline s) (rev [0..<min (stack_depth s) inline_depth])"

definition frame_items :: "mode \<times> document list \<Rightarrow> (mode \<times> document) list" where
  "frame_items f = map (Pair (fst f)) (snd f)"

definition items :: "fits_stack \<Rightarrow> (mode \<times> document) list" where
  "items s = concat (map frame_items (frames s))"

definition stack_ok :: "fits_stack \<Rightarrow> bool" where
  "stack_ok s \<longleftrightarrow> length (overflow s) = stack_depth s - inline_depth"

definition stack_weight :: "fits_stack \<Rightarrow> nat" where
  "stack_weight s = sum_list (map (weights \<circ> snd) (frames s))"

lemma frames_new: "frames fits_stack_new = []" "stack_ok fits_stack_new"
  by (simp_all add: frames_def stack_ok_def fits_stack_new_def)

lemma frames_push:
  assumes "stack_ok s"
  shows "frames (fits_push m ds s) = (if ds = [] then frames s else (m, ds) # frames s)" "stack_ok (fits_push m ds s)"
proof -
  have "overflow s = []" if "stack_depth s < inline_depth" using assms that by (simp add: stack_ok_def)
  then show "frames (fits_push m ds s) = (if ds = [] then frames s else (m, ds) # frames s)"
    by (simp add: frames_def fits_push_def)
  show "stack_ok (fits_push m ds s)" using assms by (auto simp: stack_ok_def fits_push_def)
qed

lemma frames_top:
  assumes "stack_ok s" "stack_depth s \<noteq> 0"
  shows "\<exists>f. fits_top s = Some f \<and> frames s = f # frames (fits_pop s) \<and> stack_ok (fits_pop s)
    \<and> (\<forall>g. frames (fits_set_top g s) = g # frames (fits_pop s) \<and> stack_ok (fits_set_top g s))"
proof (cases "stack_depth s \<le> inline_depth")
  case True
  then obtain k where k: "stack_depth s = Suc k" "k < inline_depth" using assms(2) by (cases "stack_depth s") auto
  have "overflow s = []" using assms(1) True by (simp add: stack_ok_def)
  then show ?thesis using k by (simp add: fits_top_def frames_def fits_pop_def fits_set_top_def stack_ok_def min_def)
next
  case False
  then obtain f fs where f: "overflow s = f # fs" using assms(1) by (cases "overflow s") (auto simp: stack_ok_def)
  then show ?thesis using False assms(1) by (auto simp: fits_top_def frames_def fits_pop_def fits_set_top_def stack_ok_def)
qed

lemma stack_weight_push: "stack_weight (fits_push m ds s) = stack_weight s + weights ds"
  by (cases "ds = []") (simp_all add: stack_weight_def frames_def fits_push_def min_def map_map[symmetric] del: map_map)

lemma stack_weight_top:
  assumes "stack_depth s \<noteq> 0" "fits_top s = Some f"
  shows "stack_weight s = weights (snd f) + stack_weight (fits_pop s)"
    "stack_weight (fits_set_top g s) = weights (snd g) + stack_weight (fits_pop s)"
proof -
  have deep: "min (stack_depth s) inline_depth = inline_depth" "min (stack_depth s - Suc 0) inline_depth = inline_depth"
    if "inline_depth < stack_depth s"
    using that by linarith+
  have "stack_weight s = weights (snd f) + stack_weight (fits_pop s)
      \<and> stack_weight (fits_set_top g s) = weights (snd g) + stack_weight (fits_pop s)"
  proof (cases "stack_depth s \<le> inline_depth")
    case True
    then obtain k where "stack_depth s = Suc k" "k < inline_depth" using assms(1) by (cases "stack_depth s") auto
    then show ?thesis using assms(2)
      by (simp add: stack_weight_def frames_def fits_top_def fits_set_top_def fits_pop_def map_map[symmetric] del: map_map)
  next
    case False
    then show ?thesis using assms(2) deep
      by (auto simp: stack_weight_def frames_def fits_top_def fits_set_top_def fits_pop_def split: list.splits)
  qed
  then show "stack_weight s = weights (snd f) + stack_weight (fits_pop s)"
    "stack_weight (fits_set_top g s) = weights (snd g) + stack_weight (fits_pop s)" by simp_all
qed

lemma fits_next_weight: "fits_next s = Some ((m, d), s') \<Longrightarrow> stack_weight s = weight d + stack_weight s'"
proof (induction s rule: fits_next.induct)
  case (1 s)
  then have depth: "stack_depth s \<noteq> 0" by (subst (asm) (2) fits_next.simps) (auto split: if_splits)
  then obtain m' ds where top: "fits_top s = Some (m', ds)"
    using 1(2) by (subst (asm) fits_next.simps) (auto split: option.splits)
  show ?case
  proof (cases ds)
    case Nil
    then show ?thesis using 1 depth top stack_weight_top(1)[OF depth top]
      by (subst (asm) (2) fits_next.simps) simp
  next
    case (Cons d' rest)
    then show ?thesis using 1(2) depth top stack_weight_top(1)[OF depth top] stack_weight_top(2)[OF depth top, of "(m', rest)"]
      by (subst (asm) fits_next.simps) (auto split: if_splits)
  qed
qed

lemma fits_next_items:
  "stack_ok s \<Longrightarrow> (case fits_next s of None \<Rightarrow> items s = [] | Some (x, s') \<Rightarrow> items s = x # items s' \<and> stack_ok s')"
proof (induction s rule: fits_next.induct)
  case (1 s)
  show ?case
  proof (cases "stack_depth s = 0")
    case True
    then show ?thesis using 1(2) by (simp add: fits_next.simps items_def frames_def stack_ok_def)
  next
    case False
    obtain m ds where top: "fits_top s = Some (m, ds)" "frames s = (m, ds) # frames (fits_pop s)" "stack_ok (fits_pop s)"
      "\<forall>g. frames (fits_set_top g s) = g # frames (fits_pop s) \<and> stack_ok (fits_set_top g s)"
      using frames_top[OF 1(2) False] by (metis surj_pair)
    show ?thesis
    proof (cases ds)
      case Nil
      then have "items s = items (fits_pop s)" by (simp add: items_def frame_items_def top(2))
      then show ?thesis using 1(1)[OF False top(1) _ refl] top False Nil by (subst fits_next.simps) (simp split: option.splits prod.splits)
    next
      case (Cons d rest)
      then show ?thesis using top False
        by (subst fits_next.simps) (simp add: items_def frame_items_def)
    qed
  qed
qed

lemma items_push: "stack_ok s \<Longrightarrow> items (fits_push m ds s) = map (Pair m) ds @ items s"
  by (simp add: items_def frames_push frame_items_def)

section \<open>Whether a command fits\<close>

text \<open>
  What the loop of \<open>fits\<close> makes of one document: an answer, or documents to push with their mode,
  the remaining width and whether a suffix was seen.
\<close>

definition fits_document :: "(bytes \<Rightarrow> nat) \<Rightarrow> printer \<Rightarrow> mode \<Rightarrow> document \<Rightarrow> int \<Rightarrow> bool
    \<Rightarrow> bool + (mode \<times> document list) \<times> int \<times> bool" where
  "fits_document wide self m doc remaining has_suffix =
     (case doc of
        Doc_String s \<Rightarrow> Inr ((m, []), remaining - int (string_width wide s), has_suffix)
      | Doc_Space is_soft \<Rightarrow>
          Inr ((m, []),
            if \<not> is_soft then remaining - 1
            else if out self = [] \<or> \<not> is_space (last (out self)) then remaining - 1
            else remaining, has_suffix)
      | Doc_Indent_If_Break _ contents \<Rightarrow> Inr ((m, contents), remaining, has_suffix)
      | Doc_Indent contents \<Rightarrow> Inr ((m, contents), remaining, has_suffix)
      | Doc_Align _ contents \<Rightarrow> Inr ((m, contents), remaining, has_suffix)
      | Doc_Array contents \<Rightarrow> Inr ((m, contents), remaining, has_suffix)
      | Doc_Group contents bm states _ \<Rightarrow>
          if bm = Preserve \<and> m = Flat then Inl False
          else
            let group_mode = (if bm = Force then Break else m)
            in if states \<noteq> None \<and> group_mode = Break
               then Inr ((group_mode, case states of Some ss \<Rightarrow> if ss = [] then [] else [last ss] | None \<Rightarrow> []), remaining, has_suffix)
               else Inr ((group_mode, contents), remaining, has_suffix)
      | Doc_If_Break broken flat i \<Rightarrow>
          let group_mode =
                (case i of None \<Rightarrow> m
                 | Some g \<Rightarrow> (case map_of (group_mode_map self) g of None \<Rightarrow> Flat | Some gm \<Rightarrow> gm))
          in Inr ((m, [if group_mode = Break then broken else flat]), remaining, has_suffix)
      | Doc_Line line \<Rightarrow>
          if m = Break \<or> hard line then Inl True
          else Inr ((m, []), if soft line then remaining else remaining - 1, has_suffix)
      | Doc_Line_Suffix _ \<Rightarrow> Inr ((m, []), remaining, True)
      | Doc_Line_Suffix_Boundary \<Rightarrow>
          if has_suffix \<or> line_suffix self \<noteq> [] then Inl False else Inr ((m, []), remaining, has_suffix)
      | _ \<Rightarrow> Inr ((m, []), remaining, has_suffix))"

text \<open>
  The loop; \<open>pending\<close> is the command in question followed by the commands of the printer. The first
  is taken before a suffix can have been seen.
\<close>

definition command_weight :: "command \<Rightarrow> nat" where
  "command_weight c = (case cmd_document c of Command_Document d \<Rightarrow> weight d | Command_Array ds \<Rightarrow> 1 + weights ds)"

lemma fits_document_weight:
  "fits_document wide self m d remaining has_suffix = Inr ((m', ds), r, h) \<Longrightarrow> weights ds < weight d"
proof (cases d)
  case (Doc_Group contents bm states i)
  moreover have "weights [last ss] \<le> weights ss" if "ss \<noteq> []" for ss
    using weight_mem[OF last_in_set[OF that]] by simp
  ultimately show "fits_document wide self m d remaining has_suffix = Inr ((m', ds), r, h) \<Longrightarrow> weights ds < weight d"
    by (fastforce simp: fits_document_def Let_def split: if_splits option.splits)
qed (auto simp: fits_document_def Let_def split: if_splits option.splits)

lemma pending_weight:
  "cs \<noteq> [] \<Longrightarrow> sum_list (map command_weight cs) = command_weight (hd cs) + sum_list (map command_weight (tl cs))"
  by (cases cs) simp_all

function fits_loop :: "(bytes \<Rightarrow> nat) \<Rightarrow> printer \<Rightarrow> fits_stack \<Rightarrow> command list \<Rightarrow> int \<Rightarrow> bool \<Rightarrow> bool" where
  "fits_loop wide self stack pending remaining has_suffix =
     (case fits_next stack of
        Some ((m, doc), stack) \<Rightarrow>
          (case fits_document wide self m doc remaining has_suffix of
             Inl answer \<Rightarrow> answer
           | Inr ((m', docs), remaining, has_suffix) \<Rightarrow>
               if remaining < 0 then False
               else fits_loop wide self (fits_push m' docs stack) pending remaining has_suffix)
      | None \<Rightarrow>
          (if pending = [] \<or> has_suffix then True
           else
             case cmd_document (hd pending) of
               Command_Array docs \<Rightarrow>
                 if remaining < 0 then False
                 else fits_loop wide self (fits_push (cmd_mode (hd pending)) docs stack) (tl pending) remaining has_suffix
             | Command_Document doc \<Rightarrow>
                 (case fits_document wide self (cmd_mode (hd pending)) doc remaining has_suffix of
                    Inl answer \<Rightarrow> answer
                  | Inr ((m', docs), remaining, has_suffix) \<Rightarrow>
                      if remaining < 0 then False
                      else fits_loop wide self (fits_push m' docs stack) (tl pending) remaining has_suffix)))"
  by pat_completeness auto
termination
  by (relation "measure (\<lambda>(wide, self, stack, pending, remaining, has_suffix).
      stack_weight stack + sum_list (map command_weight pending))")
    (auto simp: stack_weight_push command_weight_def pending_weight dest!: fits_next_weight fits_document_weight)

declare fits_loop.simps [simp del]

definition fits :: "(bytes \<Rightarrow> nat) \<Rightarrow> printer \<Rightarrow> command \<Rightarrow> int \<Rightarrow> bool" where
  "fits wide self c width = fits_loop wide self fits_stack_new (c # commands self) width False"

section \<open>The handlers\<close>

definition remaining_width :: "printer \<Rightarrow> int" where
  "remaining_width self = int (print_width (settings self)) - int (position self)"

definition handle_bytes :: "(bytes \<Rightarrow> nat) \<Rightarrow> bytes \<Rightarrow> printer \<Rightarrow> printer" where
  "handle_bytes wide s self = self\<lparr>out := out self @ s, position := position self + string_width wide s\<rparr>"

definition handle_space :: "bool \<Rightarrow> printer \<Rightarrow> printer" where
  "handle_space is_soft self =
     (if is_soft \<and> out self \<noteq> [] \<and> is_line_terminator_or_space (last (out self)) then self
      else self\<lparr>out := out self @ [32], position := position self + 1\<rparr>)"

definition push_docs :: "indentation \<Rightarrow> mode \<Rightarrow> document list \<Rightarrow> printer \<Rightarrow> printer" where
  "push_docs ind m docs self = self\<lparr>commands := map (command_new ind m) docs @ commands self\<rparr>"

definition trim_end_while :: "(u8 \<Rightarrow> bool) \<Rightarrow> bytes \<Rightarrow> bytes" where
  "trim_end_while should_pop s = rev (dropWhile should_pop (rev s))"

definition handle_trim :: "trim \<Rightarrow> printer \<Rightarrow> printer" where
  "handle_trim t self =
     (if \<not> can_trim self then self\<lparr>can_trim := True\<rparr>
      else
        let should_pop = (case t of Trim_Whitespace \<Rightarrow> is_space | Trim_Newlines \<Rightarrow> is_line_terminator_or_space);
            trimmed = trim_end_while should_pop (out self)
        in self\<lparr>out := trimmed, range_start := map_option (\<lambda>offset. min offset (length trimmed)) (range_start self),
                range_end := map_option (\<lambda>offset. min offset (length trimmed)) (range_end self)\<rparr>)"

definition set_group_mode_from_last_cmd :: "group_identifier option \<Rightarrow> printer \<Rightarrow> printer" where
  "set_group_mode_from_last_cmd i self =
     (case i of
        None \<Rightarrow> self
      | Some g \<Rightarrow>
          (case commands self of
             [] \<Rightarrow> self
           | c # _ \<Rightarrow> self\<lparr>group_mode_map := AList.update g (cmd_mode c) (group_mode_map self)\<rparr>))"

definition push_command :: "command \<Rightarrow> printer \<Rightarrow> printer" where
  "push_command c self = self\<lparr>commands := c # commands self\<rparr>"

text \<open>The first of the states but the last that fits flat, else the last one broken.\<close>

fun expand_states :: "(bytes \<Rightarrow> nat) \<Rightarrow> indentation \<Rightarrow> int \<Rightarrow> document list \<Rightarrow> document \<Rightarrow> printer \<Rightarrow> printer \<times> bool" where
  "expand_states wide ind width [] most_expanded self = (push_command (command_new ind Break most_expanded) self, False)"
| "expand_states wide ind width (state # states) most_expanded self =
     (if fits wide self (command_new ind Flat state) width then (push_command (command_new ind Flat state) self, True)
      else expand_states wide ind width states most_expanded self)"

text \<open>\<open>handle_group\<close>; \<open>None\<close> is the panic on an empty list of expanded states.\<close>

definition handle_group :: "(bytes \<Rightarrow> nat) \<Rightarrow> indentation \<Rightarrow> mode \<Rightarrow> document list \<Rightarrow> break_mode \<Rightarrow> document list option
    \<Rightarrow> group_identifier option \<Rightarrow> bool \<Rightarrow> printer \<Rightarrow> (printer \<times> bool) option" where
  "handle_group wide ind m contents bm states i should_remeasure self =
     (let should_break = (bm \<noteq> Auto) in
      if m = Flat \<and> \<not> should_remeasure then
        Some (set_group_mode_from_last_cmd i (push_docs ind (if should_break then Break else m) contents self), should_remeasure)
      else
        let width = remaining_width self;
            c = command_new ind Flat (Doc_Group contents bm states i)
        in if \<not> should_break \<and> fits wide self c width
           then Some (set_group_mode_from_last_cmd i (push_command c self), False)
           else
             case states of
               Some ss \<Rightarrow>
                 (if ss = [] then None
                  else if should_break then Some (push_command (command_new ind Break (last ss)) self, False)
                  else
                    case expand_states wide ind width (butlast ss) (last ss) self of
                      (self, True) \<Rightarrow> Some (self, False)
                    | (self, False) \<Rightarrow> Some (set_group_mode_from_last_cmd i self, False))
             | None \<Rightarrow>
                 Some (set_group_mode_from_last_cmd i (push_command (command_array ind Break contents) self), False))"

definition handle_indent_if_break :: "indentation \<Rightarrow> mode \<Rightarrow> group_identifier \<Rightarrow> document list \<Rightarrow> printer \<Rightarrow> printer" where
  "handle_indent_if_break ind m group_id contents self =
     (let group_mode = (case map_of (group_mode_map self) group_id of None \<Rightarrow> m | Some gm \<Rightarrow> gm);
          new_indentation = (case group_mode of Flat \<Rightarrow> ind | Break \<Rightarrow> indented ind)
      in push_docs new_indentation m contents self)"

definition add_indentation :: "(bytes \<Rightarrow> nat) \<Rightarrow> indentation \<Rightarrow> printer \<Rightarrow> printer \<times> nat" where
  "add_indentation wide ind self =
     (let indentation_width = depth ind * tab_width (settings self);
          indentation_byte = (if use_tabs (settings self) then 9 else 32);
          indentation_length = (if use_tabs (settings self) then depth ind else indentation_width);
          self = self\<lparr>out := out self @ replicate indentation_length indentation_byte\<rparr>
      in case alignment ind of
           None \<Rightarrow> (self, indentation_width)
         | Some a \<Rightarrow> (self\<lparr>out := out self @ a\<rparr>, indentation_width + string_width wide a))"

text \<open>\<open>self.commands.extend(self.line_suffix.drain(..).rev())\<close>.\<close>

definition flush_suffix :: "printer \<Rightarrow> printer" where
  "flush_suffix self = self\<lparr>commands := line_suffix self @ commands self, line_suffix := []\<rparr>"

definition write_new_line :: "printer \<Rightarrow> printer" where
  "write_new_line self = self\<lparr>out := out self @ new_line self\<rparr>"

definition indent_line :: "(bytes \<Rightarrow> nat) \<Rightarrow> indentation \<Rightarrow> printer \<Rightarrow> printer" where
  "indent_line wide ind self = (case add_indentation wide ind self of (self, column) \<Rightarrow> self\<lparr>position := column\<rparr>)"

definition handle_line :: "(bytes \<Rightarrow> nat) \<Rightarrow> line \<Rightarrow> indentation \<Rightarrow> mode \<Rightarrow> bool \<Rightarrow> printer \<Rightarrow> printer \<times> bool" where
  "handle_line wide l ind m should_remeasure self =
     (if m = Flat \<and> \<not> hard l then
        (if \<not> soft l then self\<lparr>out := out self @ [32], position := position self + 1\<rparr> else self, should_remeasure)
      else
        let should_remeasure = (should_remeasure \<or> m = Flat) in
        if line_suffix self \<noteq> [] then
          (flush_suffix (push_command (command_new ind m (Doc_Line l)) self), should_remeasure)
        else if literal l then
          (let self = write_new_line self
           in if is_root ind then indent_line wide ind self else self\<lparr>position := 0\<rparr>, should_remeasure)
        else (indent_line wide ind (write_new_line (handle_trim Trim_Whitespace self)), should_remeasure))"

definition handle_line_suffix_boundary :: "indentation \<Rightarrow> mode \<Rightarrow> bool \<Rightarrow> printer \<Rightarrow> printer \<times> bool" where
  "handle_line_suffix_boundary ind m should_remeasure self =
     (if line_suffix self \<noteq> [] then (flush_suffix (push_command (command_new ind m doc_space) self), True)
      else (self, should_remeasure))"

definition handle_if_break :: "document \<Rightarrow> document \<Rightarrow> group_identifier option \<Rightarrow> indentation \<Rightarrow> mode \<Rightarrow> printer \<Rightarrow> printer" where
  "handle_if_break broken flat i ind m self =
     (let group_mode =
            (case (case i of None \<Rightarrow> Some m | Some g \<Rightarrow> map_of (group_mode_map self) g) of None \<Rightarrow> m | Some gm \<Rightarrow> gm)
      in case group_mode of
           Flat \<Rightarrow> push_command (command_new ind Flat flat) self
         | Break \<Rightarrow> push_command (command_new ind Break broken) self)"

section \<open>The loop\<close>

definition propagated :: "document \<Rightarrow> document" where
  "propagated doc =
     (case doc of
        Doc_Group _ _ _ _ \<Rightarrow> snd (propagate_breaks doc)
      | Doc_Array _ \<Rightarrow> snd (propagate_breaks doc)
      | Doc_Indent _ \<Rightarrow> snd (propagate_breaks doc)
      | Doc_Align _ _ \<Rightarrow> snd (propagate_breaks doc)
      | Doc_Indent_If_Break _ _ \<Rightarrow> snd (propagate_breaks doc)
      | Doc_If_Break _ _ _ \<Rightarrow> snd (propagate_breaks doc)
      | _ \<Rightarrow> doc)"

definition print_document :: "(bytes \<Rightarrow> nat) \<Rightarrow> indentation \<Rightarrow> mode \<Rightarrow> document \<Rightarrow> bool \<Rightarrow> printer \<Rightarrow> (printer \<times> bool) option" where
  "print_document wide ind m doc rm self =
     (case doc of
        Doc_String s \<Rightarrow> Some (handle_bytes wide s self, rm)
      | Doc_Range_Start \<Rightarrow> Some (self\<lparr>range_start := Some (length (out self))\<rparr>, rm)
      | Doc_Range_End \<Rightarrow>
          Some (if line_suffix self = [] then self\<lparr>range_end := Some (length (out self))\<rparr>
                else self\<lparr>line_suffix := line_suffix self @ [command_new ind m doc]\<rparr>, rm)
      | Doc_Space is_soft \<Rightarrow> Some (handle_space is_soft self, rm)
      | Doc_Array docs \<Rightarrow> Some (push_docs ind m docs self, rm)
      | Doc_Indent docs \<Rightarrow> Some (push_docs (indented ind) m docs self, rm)
      | Doc_Align a docs \<Rightarrow> Some (push_docs (indentation_aligned a) m docs self, rm)
      | Doc_Group contents bm states i \<Rightarrow> handle_group wide ind m contents bm states i rm self
      | Doc_Indent_If_Break i docs \<Rightarrow> Some (handle_indent_if_break ind m i docs self, rm)
      | Doc_Line l \<Rightarrow> Some (handle_line wide l ind m rm self)
      | Doc_Line_Suffix docs \<Rightarrow> Some (self\<lparr>line_suffix := line_suffix self @ [command_array ind m docs]\<rparr>, rm)
      | Doc_Line_Suffix_Boundary \<Rightarrow> Some (handle_line_suffix_boundary ind m rm self)
      | Doc_If_Break broken flat i \<Rightarrow> Some (handle_if_break broken flat i ind m self, rm)
      | Doc_Break_Parent \<Rightarrow> Some (self, rm)
      | Doc_Trim t \<Rightarrow> Some (handle_trim t self, rm)
      | Doc_Do_Not_Trim \<Rightarrow> Some (self\<lparr>can_trim := False\<rparr>, rm))"

definition run_command :: "(bytes \<Rightarrow> nat) \<Rightarrow> command \<Rightarrow> bool \<Rightarrow> printer \<Rightarrow> (printer \<times> bool) option" where
  "run_command wide c rm self =
     (case cmd_document c of
        Command_Array docs \<Rightarrow>
          Some (push_docs (cmd_indentation c) (cmd_mode c) (snd (propagate_slice docs)) self, rm)
      | Command_Document doc \<Rightarrow> print_document wide (cmd_indentation c) (cmd_mode c) (propagated doc) rm self)"

definition flush_at_end :: "printer \<Rightarrow> printer" where
  "flush_at_end self = (if commands self = [] \<and> line_suffix self \<noteq> [] then flush_suffix self else self)"

definition print_step :: "(bytes \<Rightarrow> nat) \<Rightarrow> printer \<Rightarrow> bool \<Rightarrow> (printer \<times> bool) option" where
  "print_step wide self rm =
     map_option (map_prod flush_at_end id) (run_command wide (hd (commands self)) rm (self\<lparr>commands := tl (commands self)\<rparr>))"

text \<open>Every step lowers the weight of what is left, or keeps it and only moves a command.\<close>

definition commands_weight :: "command list \<Rightarrow> nat" where
  "commands_weight cs = sum_list (map command_weight cs)"

definition total_weight :: "printer \<Rightarrow> nat" where
  "total_weight self = commands_weight (commands self) + commands_weight (line_suffix self)"

definition remeasures :: "bool \<Rightarrow> command \<Rightarrow> nat" where
  "remeasures rm c = (if rm then 1 else 0) + (if cmd_mode c = Break then 1 else 0)"

definition top_remeasures :: "printer \<Rightarrow> bool \<Rightarrow> nat" where
  "top_remeasures self rm = (case commands self of [] \<Rightarrow> 0 | c # _ \<Rightarrow> remeasures rm c)"

definition step_order :: "((printer \<times> bool) \<times> (printer \<times> bool)) set" where
  "step_order = measures [\<lambda>(self, rm). total_weight self, \<lambda>(self, rm). if line_suffix self = [] then 0 else 1,
     \<lambda>(self, rm). length (commands self), \<lambda>(self, rm). top_remeasures self rm]"

lemma commands_weight_simps [simp]:
  "commands_weight [] = 0"
  "commands_weight (c # cs) = command_weight c + commands_weight cs"
  "commands_weight (cs @ cs') = commands_weight cs + commands_weight cs'"
  by (simp_all add: commands_weight_def)

lemma command_weight_simps [simp]:
  "command_weight (command_new ind m d) = weight d"
  "command_weight (command_array ind m ds) = 1 + weights ds"
  by (simp_all add: command_weight_def command_new_def command_array_def)

lemma commands_weight_docs [simp]: "commands_weight (map (command_new ind m) ds) = weights ds"
  by (induction ds) simp_all

text \<open>What the handlers do to the two lists of commands.\<close>

lemma handlers_commands [simp]:
  "commands (handle_bytes wide s p) = commands p" "line_suffix (handle_bytes wide s p) = line_suffix p"
  "commands (handle_space b p) = commands p" "line_suffix (handle_space b p) = line_suffix p"
  "commands (push_docs ind m ds p) = map (command_new ind m) ds @ commands p" "line_suffix (push_docs ind m ds p) = line_suffix p"
  "commands (handle_trim t p) = commands p" "line_suffix (handle_trim t p) = line_suffix p"
  "commands (set_group_mode_from_last_cmd i p) = commands p" "line_suffix (set_group_mode_from_last_cmd i p) = line_suffix p"
  "commands (push_command c p) = c # commands p" "line_suffix (push_command c p) = line_suffix p"
  "commands (flush_suffix p) = line_suffix p @ commands p" "line_suffix (flush_suffix p) = []"
  "commands (write_new_line p) = commands p" "line_suffix (write_new_line p) = line_suffix p"
  by (simp_all add: handle_bytes_def handle_space_def push_docs_def handle_trim_def set_group_mode_from_last_cmd_def
      push_command_def flush_suffix_def write_new_line_def Let_def split: option.splits list.splits)

lemma indent_line_commands [simp]:
  "commands (indent_line wide ind p) = commands p" "line_suffix (indent_line wide ind p) = line_suffix p"
  by (simp_all add: indent_line_def add_indentation_def Let_def split: option.splits)

lemma handle_group_commands:
  assumes "handle_group wide ind m contents bm states i rm p = Some (p', rm')"
  shows "line_suffix p' = line_suffix p
    \<and> (commands_weight (commands p') < weight (Doc_Group contents bm states i) + commands_weight (commands p)
       \<or> (m = Flat \<longrightarrow> rm) \<and> commands p' = command_new ind Flat (Doc_Group contents bm states i) # commands p \<and> \<not> rm')"
proof -
  have expanded: "\<exists>s gm. s \<in> set (ss @ [l]) \<and> commands (fst (expand_states wide ind w ss l p)) = command_new ind gm s # commands p
      \<and> line_suffix (fst (expand_states wide ind w ss l p)) = line_suffix p" for ss l w
    by (induction ss) auto
  have lighter: "weight s < weight (Doc_Group contents bm (Some ss) i)" if "s \<in> set (butlast ss @ [last ss])" "ss \<noteq> []" for s ss
    using weight_mem[of s ss] that by simp
  show ?thesis
  proof (cases "\<exists>ss. states = Some ss \<and> bm = Auto \<and> ss \<noteq> [] \<and> (m = Flat \<longrightarrow> rm)
      \<and> \<not> fits wide p (command_new ind Flat (Doc_Group contents bm states i)) (remaining_width p)")
    case True
    then obtain ss where ss: "states = Some ss" "ss \<noteq> []" by blast
    obtain p'' b where run: "expand_states wide ind (remaining_width p) (butlast ss) (last ss) p = (p'', b)" by fastforce
    from expanded[where ss = "butlast ss" and l = "last ss" and w = "remaining_width p", unfolded run] obtain s gm where
      s: "s \<in> set (butlast ss @ [last ss])" "commands p'' = command_new ind gm s # commands p" "line_suffix p'' = line_suffix p"
      by auto
    have "commands p' = commands p''" "line_suffix p' = line_suffix p''"
      using assms True ss run unfolding handle_group_def Let_def by (auto split: if_splits bool.splits)
    then show ?thesis using s lighter[OF s(1) ss(2)] ss(1) by simp
  next
    case False
    then show ?thesis using assms lighter[of "last _"] unfolding handle_group_def Let_def
      by (fastforce split: if_splits option.splits)
  qed
qed

lemma propagated_weight [simp]: "weight (propagated d) = weight d"
  by (cases d) (simp_all only: propagated_def document.case propagate_weight)

definition moved :: "nat \<Rightarrow> nat \<Rightarrow> printer \<Rightarrow> printer \<Rightarrow> bool \<Rightarrow> bool" where
  "moved w r p p' rm' \<longleftrightarrow>
     total_weight p' < w + total_weight p
     \<or> total_weight p' = w + total_weight p \<and> line_suffix p \<noteq> []
        \<and> (line_suffix p' = [] \<or> line_suffix p' \<noteq> [] \<and> commands p' = commands p)
     \<or> (\<exists>c'. total_weight p' = w + total_weight p \<and> commands p' = c' # commands p \<and> line_suffix p' = line_suffix p
          \<and> remeasures rm' c' < r)"

lemma print_document_simps:
  "print_document wide ind m (Doc_String s) rm self = Some (handle_bytes wide s self, rm)"
  "print_document wide ind m Doc_Range_Start rm self = Some (self\<lparr>range_start := Some (length (out self))\<rparr>, rm)"
  "print_document wide ind m Doc_Range_End rm self =
     Some (if line_suffix self = [] then self\<lparr>range_end := Some (length (out self))\<rparr>
           else self\<lparr>line_suffix := line_suffix self @ [command_new ind m Doc_Range_End]\<rparr>, rm)"
  "print_document wide ind m (Doc_Space b) rm self = Some (handle_space b self, rm)"
  "print_document wide ind m (Doc_Array docs) rm self = Some (push_docs ind m docs self, rm)"
  "print_document wide ind m (Doc_Indent docs) rm self = Some (push_docs (indented ind) m docs self, rm)"
  "print_document wide ind m (Doc_Align a docs) rm self = Some (push_docs (indentation_aligned a) m docs self, rm)"
  "print_document wide ind m (Doc_Group contents bm states i) rm self = handle_group wide ind m contents bm states i rm self"
  "print_document wide ind m (Doc_Indent_If_Break g docs) rm self = Some (handle_indent_if_break ind m g docs self, rm)"
  "print_document wide ind m (Doc_Line l) rm self = Some (handle_line wide l ind m rm self)"
  "print_document wide ind m (Doc_Line_Suffix docs) rm self =
     Some (self\<lparr>line_suffix := line_suffix self @ [command_array ind m docs]\<rparr>, rm)"
  "print_document wide ind m Doc_Line_Suffix_Boundary rm self = Some (handle_line_suffix_boundary ind m rm self)"
  "print_document wide ind m (Doc_If_Break broken flat i) rm self = Some (handle_if_break broken flat i ind m self, rm)"
  "print_document wide ind m Doc_Break_Parent rm self = Some (self, rm)"
  "print_document wide ind m (Doc_Trim t) rm self = Some (handle_trim t self, rm)"
  "print_document wide ind m Doc_Do_Not_Trim rm self = Some (self\<lparr>can_trim := False\<rparr>, rm)"
  by (simp_all add: print_document_def)

text \<open>The handlers that push documents.\<close>

lemma pushing_handlers:
  "\<exists>ind'. alignment ind' = alignment ind \<and> handle_indent_if_break ind m g docs p = push_docs ind' m docs p"
  "\<exists>m' d. d \<in> {broken, flat} \<and> handle_if_break broken flat i ind m p = push_command (command_new ind m' d) p"
  "handle_line_suffix_boundary ind m rm p
     = (if line_suffix p = [] then (p, rm) else (flush_suffix (push_command (command_new ind m doc_space) p), True))"
proof -
  show "\<exists>ind'. alignment ind' = alignment ind \<and> handle_indent_if_break ind m g docs p = push_docs ind' m docs p"
    by (rule exI[of _ "case (case map_of (group_mode_map p) g of None \<Rightarrow> m | Some gm \<Rightarrow> gm) of Flat \<Rightarrow> ind | Break \<Rightarrow> indented ind"])
      (simp add: handle_indent_if_break_def indented_def split: mode.splits)
  show "\<exists>m' d. d \<in> {broken, flat} \<and> handle_if_break broken flat i ind m p = push_command (command_new ind m' d) p"
    by (auto simp: handle_if_break_def Let_def split: mode.splits)
qed (simp add: handle_line_suffix_boundary_def)

lemma print_document_moved:
  assumes "print_document wide ind m doc rm p = Some (p', rm')"
  shows "moved (weight doc) ((if rm then 1 else 0) + (if m = Break then 1 else 0)) p p' rm'"
proof (cases doc)
  case (Doc_Group contents bm states i)
  then have "handle_group wide ind m contents bm states i rm p = Some (p', rm')"
    using assms by (simp add: print_document_def)
  note group = handle_group_commands[OF this]
  then consider "commands_weight (commands p') < weight doc + commands_weight (commands p)"
    | "m = Flat \<longrightarrow> rm" "commands p' = command_new ind Flat doc # commands p" "\<not> rm'"
    unfolding Doc_Group by blast
  then show ?thesis
  proof cases
    case 2
    have "remeasures rm' (command_new ind Flat doc) < (if rm then 1 else 0) + (if m = Break then 1 else 0)"
      using 2(1,3) by (cases m) (auto simp: remeasures_def command_new_def)
    then show ?thesis using 2(2) group by (auto simp: moved_def total_weight_def)
  qed (use group in \<open>simp add: moved_def total_weight_def\<close>)
next
  case (Doc_Line l)
  then have "(p', rm') = handle_line wide l ind m rm p" using assms by (simp add: print_document_def)
  then show ?thesis
    by (cases "line_suffix p = []") (auto simp: moved_def handle_line_def total_weight_def Doc_Line Let_def split: if_splits)
next
  case (Doc_Indent_If_Break i docs)
  then show ?thesis using assms pushing_handlers(1)[of ind m i docs p] by (auto simp: print_document_simps moved_def total_weight_def)
next
  case (Doc_If_Break broken flat i)
  then show ?thesis using assms pushing_handlers(2)[of broken flat i ind m p]
    by (auto simp: print_document_simps moved_def total_weight_def)
next
  case Doc_Range_End
  then show ?thesis using assms by (cases "line_suffix p = []") (auto simp: print_document_simps moved_def total_weight_def)
next
  case Doc_Line_Suffix_Boundary
  then show ?thesis using assms
    by (cases "line_suffix p = []") (auto simp: print_document_simps pushing_handlers(3) moved_def total_weight_def doc_space_def)
qed (use assms in \<open>simp_all add: print_document_simps moved_def total_weight_def, auto?\<close>)

lemma flush_at_end_moves:
  assumes "moved (command_weight c) (remeasures rm c) (p\<lparr>commands := cs\<rparr>) p' rm'" "commands p = c # cs"
  shows "((flush_at_end p', rm'), (p, rm)) \<in> step_order"
proof -
  have total: "command_weight c + total_weight (p\<lparr>commands := cs\<rparr>) = total_weight p"
    using assms(2) by (simp add: total_weight_def)
  have flushed: "total_weight (flush_at_end p') = total_weight p'"
    by (simp add: flush_at_end_def total_weight_def)
  have cases: "total_weight p' < total_weight p
      \<or> total_weight p' = total_weight p \<and> line_suffix p \<noteq> []
        \<and> (line_suffix p' = [] \<or> line_suffix p' \<noteq> [] \<and> commands p' = cs)
      \<or> (\<exists>c'. total_weight p' = total_weight p \<and> commands p' = c' # cs \<and> line_suffix p' = line_suffix p
          \<and> remeasures rm' c' < remeasures rm c)"
    using assms(1) unfolding moved_def total by simp
  show ?thesis
  proof (cases "commands p' = [] \<and> line_suffix p' \<noteq> []")
    case True
    then have "line_suffix (flush_at_end p') = []" by (simp add: flush_at_end_def)
    moreover have "total_weight p' < total_weight p \<or> total_weight p' = total_weight p \<and> line_suffix p \<noteq> []"
      using cases True by auto
    ultimately show ?thesis by (auto simp: step_order_def flushed)
  next
    case False
    then have "flush_at_end p' = p'" by (auto simp: flush_at_end_def)
    then show ?thesis using cases assms(2)
      by (elim disjE conjE exE) (simp_all add: step_order_def top_remeasures_def)
  qed
qed

lemma print_step_order:
  assumes "print_step wide p rm = Some (p', rm')" "commands p \<noteq> []"
  shows "((p', rm'), (p, rm)) \<in> step_order"
proof -
  obtain c cs where c: "commands p = c # cs" using assms(2) by (cases "commands p") auto
  then obtain p'' where run: "run_command wide c rm (p\<lparr>commands := cs\<rparr>) = Some (p'', rm')" "p' = flush_at_end p''"
    using assms(1) by (auto simp: print_step_def)
  have "moved (command_weight c) (remeasures rm c) (p\<lparr>commands := cs\<rparr>) p'' rm'"
  proof (cases "cmd_document c")
    case (Command_Document doc)
    then show ?thesis using print_document_moved[of wide _ "cmd_mode c" "propagated doc"] run(1)
      by (simp add: run_command_def remeasures_def command_weight_def)
  next
    case (Command_Array docs)
    then show ?thesis using run(1)
      by (auto simp: run_command_def moved_def total_weight_def command_weight_def propagate_weight)
  qed
  from flush_at_end_moves[OF this c] show ?thesis by (simp add: run(2))
qed

text \<open>The loop, started with its flag; \<open>None\<close> when a handler panics.\<close>

function print_loop :: "(bytes \<Rightarrow> nat) \<Rightarrow> printer \<Rightarrow> bool \<Rightarrow> printer option" where
  "print_loop wide self rm =
     (if commands self = [] then Some self
      else case print_step wide self rm of
             None \<Rightarrow> None
           | Some (self, rm) \<Rightarrow> print_loop wide self rm)"
  by pat_completeness auto
termination
proof (relation "inv_image step_order (\<lambda>(wide, self, rm). (self, rm))")
  show "wf (inv_image step_order (\<lambda>(wide, self, rm). (self, rm)))" by (simp add: step_order_def)
qed (auto dest: print_step_order)

declare print_loop.simps [simp del]

definition print_doc_to_string :: "(bytes \<Rightarrow> nat) \<Rightarrow> printer \<Rightarrow> printer option" where
  "print_doc_to_string wide self = print_loop wide self False"

definition build :: "(bytes \<Rightarrow> nat) \<Rightarrow> printer \<Rightarrow> bytes option" where
  "build wide self = map_option out (print_doc_to_string wide self)"

text \<open>\<open>build_range\<close>: the outer option is the panic, the inner one the result without a range.\<close>

definition build_range :: "(bytes \<Rightarrow> nat) \<Rightarrow> printer \<Rightarrow> (bytes \<times> nat \<times> nat) option option" where
  "build_range wide self =
     map_option (\<lambda>self. case (range_start self, range_end self) of
         (Some a, Some b) \<Rightarrow> Some (out self, a, b)
       | _ \<Rightarrow> None) (print_doc_to_string wide self)"

end
