(* ===== verification/Doc_Output.thy ===== *)
theory Doc_Output
  imports Doc_Printer
begin

text \<open>
  What the printer of the formatter makes of a document: it returns for every document whose lists of
  expanded states are not empty and whose alignments are blank, and loses no character but white
  space. Without literal lines, texts of several lines and \<open>Doc_Do_Not_Trim\<close>, no line break follows a
  space or a tab.
\<close>

section \<open>Documents the printer is safe for\<close>

text \<open>
  A document whose leaves and alignments pass two tests, whose groups have a state in every list of
  expanded states, and that has suffixes only where they are admitted.
\<close>

fun doc_ok :: "(document \<Rightarrow> bool) \<Rightarrow> (bytes \<Rightarrow> bool) \<Rightarrow> bool \<Rightarrow> document \<Rightarrow> bool"
  and docs_ok :: "(document \<Rightarrow> bool) \<Rightarrow> (bytes \<Rightarrow> bool) \<Rightarrow> bool \<Rightarrow> document list \<Rightarrow> bool" where
  "doc_ok leaf align suffixes (Doc_Array ds) \<longleftrightarrow> docs_ok leaf align suffixes ds"
| "doc_ok leaf align suffixes (Doc_Indent ds) \<longleftrightarrow> docs_ok leaf align suffixes ds"
| "doc_ok leaf align suffixes (Doc_Indent_If_Break i ds) \<longleftrightarrow> docs_ok leaf align suffixes ds"
| "doc_ok leaf align suffixes (Doc_Align a ds) \<longleftrightarrow> align a \<and> docs_ok leaf align suffixes ds"
| "doc_ok leaf align suffixes (Doc_Group ds bm states i) \<longleftrightarrow>
     docs_ok leaf align suffixes ds \<and> (case states of None \<Rightarrow> True | Some ss \<Rightarrow> ss \<noteq> [] \<and> docs_ok leaf align suffixes ss)"
| "doc_ok leaf align suffixes (Doc_Line_Suffix ds) \<longleftrightarrow> suffixes \<and> docs_ok leaf align suffixes ds"
| "doc_ok leaf align suffixes (Doc_If_Break a b i) \<longleftrightarrow> doc_ok leaf align suffixes a \<and> doc_ok leaf align suffixes b"
| "doc_ok leaf align suffixes d \<longleftrightarrow> leaf d"
| "docs_ok leaf align suffixes [] \<longleftrightarrow> True"
| "docs_ok leaf align suffixes (d # ds) \<longleftrightarrow> doc_ok leaf align suffixes d \<and> docs_ok leaf align suffixes ds"

lemma docs_ok_iff: "docs_ok leaf align suffixes ds \<longleftrightarrow> (\<forall>d \<in> set ds. doc_ok leaf align suffixes d)"
  by (induction ds) auto

lemma doc_ok_suffixes:
  "doc_ok leaf align suffixes d \<Longrightarrow> doc_ok leaf align True d"
  "docs_ok leaf align suffixes ds \<Longrightarrow> docs_ok leaf align True ds"
  by (induction leaf align suffixes d and leaf align suffixes ds rule: doc_ok_docs_ok.induct) (auto split: option.splits)

definition command_ok :: "(document \<Rightarrow> bool) \<Rightarrow> (bytes \<Rightarrow> bool) \<Rightarrow> bool \<Rightarrow> command \<Rightarrow> bool" where
  "command_ok leaf align suffixes c \<longleftrightarrow>
     (case alignment (cmd_indentation c) of None \<Rightarrow> True | Some a \<Rightarrow> align a)
     \<and> (case cmd_document c of Command_Document d \<Rightarrow> doc_ok leaf align suffixes d
        | Command_Array ds \<Rightarrow> docs_ok leaf align suffixes ds)"

definition commands_ok :: "(document \<Rightarrow> bool) \<Rightarrow> (bytes \<Rightarrow> bool) \<Rightarrow> bool \<Rightarrow> printer \<Rightarrow> bool" where
  "commands_ok leaf align suffixes p \<longleftrightarrow> (\<forall>c \<in> set (commands p) \<union> set (line_suffix p). command_ok leaf align suffixes c)
     \<and> (line_suffix p \<noteq> [] \<longrightarrow> suffixes)"

lemma command_ok_simps [simp]:
  "command_ok leaf align suffixes (command_new ind m d)
     \<longleftrightarrow> (case alignment ind of None \<Rightarrow> True | Some a \<Rightarrow> align a) \<and> doc_ok leaf align suffixes d"
  "command_ok leaf align suffixes (command_array ind m ds)
     \<longleftrightarrow> (case alignment ind of None \<Rightarrow> True | Some a \<Rightarrow> align a) \<and> docs_ok leaf align suffixes ds"
  by (simp_all add: command_ok_def command_new_def command_array_def)

lemma indentation_alignment [simp]:
  "alignment (indented ind) = alignment ind" "alignment (indentation_aligned a) = Some a" "alignment indentation_root = None"
  by (simp_all add: indented_def indentation_aligned_def indentation_root_def)

lemma propagate_ok:
  "doc_ok leaf align suffixes d \<Longrightarrow> doc_ok leaf align suffixes (snd (propagate_breaks d))"
  "docs_ok leaf align suffixes ds \<Longrightarrow>
     docs_ok leaf align suffixes (snd (propagate_slice ds)) \<and> (snd (propagate_slice ds) = [] \<longleftrightarrow> ds = [])"
  by (induction d and ds rule: propagate_breaks_propagate_slice.induct)
    (auto simp: Let_def map_prod_def split: prod.splits option.splits if_splits bool.splits)

lemma propagated_ok: "doc_ok leaf align suffixes d \<Longrightarrow> doc_ok leaf align suffixes (propagated d)"
  by (cases d) (simp_all only: propagated_def document.case propagate_ok)

lemma expand_states_commands:
  "\<exists>s gm. s \<in> set (ss @ [l]) \<and> commands (fst (expand_states wide ind w ss l p)) = command_new ind gm s # commands p
      \<and> line_suffix (fst (expand_states wide ind w ss l p)) = line_suffix p
      \<and> out (fst (expand_states wide ind w ss l p)) = out p \<and> can_trim (fst (expand_states wide ind w ss l p)) = can_trim p
      \<and> range_start (fst (expand_states wide ind w ss l p)) = range_start p
      \<and> range_end (fst (expand_states wide ind w ss l p)) = range_end p
      \<and> new_line (fst (expand_states wide ind w ss l p)) = new_line p"
  by (induction ss) (auto simp: push_command_def)

text \<open>What a group leaves on top of the commands; nothing else but the map of group modes changes.\<close>

definition same_output :: "printer \<Rightarrow> printer \<Rightarrow> bool" where
  "same_output p' p \<longleftrightarrow> out p' = out p \<and> can_trim p' = can_trim p \<and> range_start p' = range_start p
     \<and> range_end p' = range_end p \<and> new_line p' = new_line p \<and> line_suffix p' = line_suffix p"

definition group_choice :: "indentation \<Rightarrow> document list \<Rightarrow> break_mode \<Rightarrow> document list option \<Rightarrow> group_identifier option
    \<Rightarrow> command list \<Rightarrow> bool" where
  "group_choice ind contents bm states i cs \<longleftrightarrow>
     (\<exists>gm. cs = map (command_new ind gm) contents) \<or> cs = [command_new ind Flat (Doc_Group contents bm states i)]
     \<or> cs = [command_array ind Break contents]
     \<or> (\<exists>gm s ss. states = Some ss \<and> s \<in> set ss \<and> cs = [command_new ind gm s])"

lemma same_output_set [simp]: "same_output (set_group_mode_from_last_cmd i p') p \<longleftrightarrow> same_output p' p"
  by (auto simp: same_output_def set_group_mode_from_last_cmd_def split: option.splits list.splits)

lemma same_output_push [simp]:
  "same_output (push_command c p') p \<longleftrightarrow> same_output p' p" "same_output (push_docs ind m ds p') p \<longleftrightarrow> same_output p' p"
  "same_output p p"
  by (simp_all add: same_output_def push_command_def push_docs_def)

lemma handle_group_choice:
  assumes "handle_group wide ind m contents bm states i rm p = Some (p', rm')"
  shows "same_output p' p \<and> (\<exists>cs. commands p' = cs @ commands p \<and> group_choice ind contents bm states i cs)"
proof (cases "\<exists>ss. states = Some ss \<and> bm = Auto \<and> ss \<noteq> [] \<and> (m = Flat \<longrightarrow> rm)
    \<and> \<not> fits wide p (command_new ind Flat (Doc_Group contents bm states i)) (remaining_width p)")
  case True
  then obtain ss where ss: "states = Some ss" "ss \<noteq> []" by blast
  obtain p'' b where run: "expand_states wide ind (remaining_width p) (butlast ss) (last ss) p = (p'', b)" by fastforce
  from expand_states_commands[of "butlast ss" "last ss" wide ind "remaining_width p" p, unfolded run] obtain s gm where
    s: "s \<in> set ss" "commands p'' = [command_new ind gm s] @ commands p" "same_output p'' p"
    using ss(2) by (auto simp: same_output_def)
  have "commands p' = commands p''" "same_output p' p"
    using assms True ss run s(3) unfolding handle_group_def Let_def by (auto split: if_splits bool.splits)
  then show ?thesis using s ss(1)
    by (intro conjI exI[of _ "[command_new ind gm s]"]) (auto simp: group_choice_def)
next
  case False
  consider "\<exists>gm. commands p' = map (command_new ind gm) contents @ commands p"
    | "commands p' = [command_new ind Flat (Doc_Group contents bm states i)] @ commands p"
    | "commands p' = [command_array ind Break contents] @ commands p"
    | ss where "states = Some ss" "ss \<noteq> []" "commands p' = [command_new ind Break (last ss)] @ commands p"
    using assms False unfolding handle_group_def Let_def by (fastforce split: if_splits option.splits)
  moreover have "same_output p' p"
    using assms False unfolding handle_group_def Let_def by (auto split: if_splits option.splits)
  ultimately show ?thesis unfolding group_choice_def by (metis last_in_set)
qed

lemma handle_group_panic: "states \<noteq> Some [] \<Longrightarrow> handle_group wide ind m contents bm states i rm p \<noteq> None"
  by (auto simp: handle_group_def Let_def split: option.splits prod.splits bool.splits)

lemma group_choice_ok:
  assumes "group_choice ind contents bm states i cs" "doc_ok leaf align suffixes (Doc_Group contents bm states i)"
    "case alignment ind of None \<Rightarrow> True | Some a \<Rightarrow> align a"
  shows "\<forall>c \<in> set cs. command_ok leaf align suffixes c"
  using assms unfolding group_choice_def by (auto simp: docs_ok_iff split: option.splits)

lemma print_document_ok:
  assumes "print_document wide ind m doc rm p = Some (p', rm')" "commands_ok leaf align suffixes p"
    "doc_ok leaf align suffixes doc" "case alignment ind of None \<Rightarrow> True | Some a \<Rightarrow> align a" "leaf doc_space" "leaf Doc_Range_End"
  shows "commands_ok leaf align suffixes p'"
proof (cases doc)
  case (Doc_Group contents bm states i)
  then have "handle_group wide ind m contents bm states i rm p = Some (p', rm')"
    using assms(1) by (simp add: print_document_def)
  then show ?thesis using handle_group_choice group_choice_ok assms(2-4)
    unfolding commands_ok_def same_output_def Doc_Group by fastforce
next
  case (Doc_Line l)
  then have "(p', rm') = handle_line wide l ind m rm p" using assms(1) by (simp add: print_document_def)
  then show ?thesis using assms(2-4)
    by (cases "line_suffix p = []")
      (auto simp: commands_ok_def handle_line_def Doc_Line Let_def split: if_splits)
next
  case (Doc_Indent_If_Break i docs)
  then show ?thesis using assms pushing_handlers(1)[of ind m i docs p]
    by (auto simp: print_document_simps commands_ok_def docs_ok_iff)
next
  case (Doc_If_Break broken flat i)
  then show ?thesis using assms pushing_handlers(2)[of broken flat i ind m p]
    by (auto simp: print_document_simps commands_ok_def)
next
  case Doc_Range_End
  then show ?thesis using assms by (cases "line_suffix p = []") (auto simp: print_document_simps commands_ok_def)
next
  case Doc_Line_Suffix_Boundary
  then show ?thesis using assms
    by (cases "line_suffix p = []") (auto simp: print_document_simps pushing_handlers(3) commands_ok_def doc_space_def)
qed (use assms in \<open>simp_all add: print_document_simps commands_ok_def docs_ok_iff, auto?\<close>)

lemma print_step_ok:
  assumes "print_step wide p rm = Some (p', rm')" "commands_ok leaf align suffixes p" "commands p \<noteq> []"
    "leaf doc_space" "leaf Doc_Range_End"
  shows "commands_ok leaf align suffixes p'"
proof -
  obtain c cs where c: "commands p = c # cs" using assms(3) by (cases "commands p") auto
  then obtain p'' where run: "run_command wide c rm (p\<lparr>commands := cs\<rparr>) = Some (p'', rm')" "p' = flush_at_end p''"
    using assms(1) by (auto simp: print_step_def)
  have c_ok: "command_ok leaf align suffixes c" and rest: "commands_ok leaf align suffixes (p\<lparr>commands := cs\<rparr>)"
    using assms(2) c by (auto simp: commands_ok_def)
  have "commands_ok leaf align suffixes p''"
  proof (cases "cmd_document c")
    case (Command_Document doc)
    then show ?thesis
      using print_document_ok[OF _ rest propagated_ok _ assms(4,5)] run(1) c_ok by (simp add: run_command_def command_ok_def)
  next
    case (Command_Array docs)
    then show ?thesis using run(1) c_ok rest propagate_ok(2)[of leaf align suffixes docs]
      by (auto simp: run_command_def commands_ok_def command_ok_def[of _ _ _ c] docs_ok_iff)
  qed
  then show ?thesis by (auto simp: run(2) flush_at_end_def commands_ok_def)
qed

section \<open>The printer returns\<close>

lemma print_loop_invariant:
  assumes "\<And>p rm p' rm'. I p \<Longrightarrow> commands p \<noteq> [] \<Longrightarrow> print_step wide p rm = Some (p', rm') \<Longrightarrow> I p'" "I p"
    "print_loop wide p rm = Some p'"
  shows "I p' \<and> commands p' = []"
  using assms(2,3)
proof (induction wide\<equiv>wide p rm arbitrary: p' rule: print_loop.induct)
  case (1 p rm)
  show ?case
  proof (cases "commands p = []")
    case True
    then show ?thesis using 1(2,3) by (simp add: print_loop.simps)
  next
    case False
    then obtain q rm' where q: "print_step wide p rm = Some (q, rm')" "print_loop wide q rm' = Some p'"
      using 1(3) by (subst (asm) print_loop.simps) (auto split: option.splits)
    show ?thesis using 1(1)[OF False q(1) refl assms(1)[OF 1(2) False q(1)] q(2)] .
  qed
qed

lemma print_document_returns:
  assumes "doc_ok leaf align suffixes doc" shows "print_document wide ind m doc rm p \<noteq> None"
proof (cases doc)
  case (Doc_Group contents bm states i)
  then have "states \<noteq> Some []" using assms by auto
  from handle_group_panic[OF this] show ?thesis by (simp only: Doc_Group print_document_simps not_False_eq_True)
qed (use assms in \<open>simp_all add: print_document_simps\<close>)

lemma print_step_returns:
  assumes "commands_ok leaf align suffixes p" "commands p \<noteq> []"
  shows "print_step wide p rm \<noteq> None"
proof -
  obtain c cs where c: "commands p = c # cs" using assms(2) by (cases "commands p") auto
  then have "command_ok leaf align suffixes c" using assms(1) by (simp add: commands_ok_def)
  then show ?thesis using propagated_ok print_document_returns
    by (fastforce simp: print_step_def run_command_def command_ok_def c split: command_document.splits)
qed

lemma print_loop_returns:
  assumes "commands_ok leaf align suffixes p" "leaf doc_space" "leaf Doc_Range_End"
  shows "print_loop wide p rm \<noteq> None"
  using assms(1)
proof (induction wide\<equiv>wide p rm rule: print_loop.induct)
  case (1 p rm)
  show ?case
  proof (cases "commands p = []")
    case False
    then obtain q rm' where q: "print_step wide p rm = Some (q, rm')" using print_step_returns[OF 1(2)] by fastforce
    have "print_loop wide q rm' \<noteq> None"
      using 1(1)[OF False q refl] print_step_ok[OF q 1(2) False assms(2,3)] by simp
    then show ?thesis using False q by (simp add: print_loop.simps[of wide p])
  qed (simp add: print_loop.simps)
qed

lemma printer_new_ok: "doc_ok leaf align suffixes doc \<Longrightarrow> commands_ok leaf align suffixes (printer_new doc s)"
  by (simp add: printer_new_def commands_ok_def)

text \<open>Nothing is left, and the offsets of the range stay inside the output.\<close>

definition range_inside :: "printer \<Rightarrow> bool" where
  "range_inside p \<longleftrightarrow> (\<forall>a. range_start p = Some a \<longrightarrow> a \<le> length (out p)) \<and> (\<forall>b. range_end p = Some b \<longrightarrow> b \<le> length (out p))"

lemma range_inside_handlers:
  assumes "range_inside p"
  shows "range_inside (handle_bytes wide s p)" "range_inside (handle_space b p)" "range_inside (push_docs ind m ds p)"
    "range_inside (handle_trim t p)" "range_inside (push_command c p)" "range_inside (flush_suffix p)"
    "range_inside (write_new_line p)" "range_inside (indent_line wide ind p)"
    "range_inside (p\<lparr>commands := cs\<rparr>)" "range_inside (p\<lparr>line_suffix := cs\<rparr>)" "range_inside (p\<lparr>can_trim := b\<rparr>)"
    "range_inside (p\<lparr>position := n\<rparr>)" "range_inside (p\<lparr>out := out p @ s, position := n\<rparr>)"
    "range_inside (p\<lparr>range_start := Some (length (out p))\<rparr>)" "range_inside (p\<lparr>range_end := Some (length (out p))\<rparr>)"
  using assms
  by (auto simp: range_inside_def handle_bytes_def handle_space_def push_docs_def handle_trim_def push_command_def
      flush_suffix_def write_new_line_def indent_line_def add_indentation_def Let_def split: option.splits)

lemma range_inside_new [simp]: "range_inside (printer_new doc s)"
  by (simp add: range_inside_def printer_new_def)

lemma range_inside_same: "same_output p' p \<Longrightarrow> range_inside p' = range_inside p"
  by (simp add: same_output_def range_inside_def)

lemma range_inside_line: "range_inside p \<Longrightarrow> range_inside (fst (handle_line wide l ind m rm p))"
  by (simp add: handle_line_def Let_def range_inside_handlers)

lemma print_document_range:
  assumes "print_document wide ind m doc rm p = Some (p', rm')" "range_inside p"
  shows "range_inside p'"
proof (cases doc)
  case (Doc_Group contents bm states i)
  then show ?thesis using assms handle_group_choice range_inside_same by (fastforce simp: print_document_simps)
next
  case (Doc_Line l)
  then show ?thesis using assms range_inside_line[of p wide l ind m rm] by (auto simp: print_document_simps)
next
  case (Doc_Indent_If_Break i docs)
  then show ?thesis using assms pushing_handlers(1)[of ind m i docs p]
    by (auto simp: print_document_simps range_inside_handlers)
next
  case (Doc_If_Break broken flat i)
  then show ?thesis using assms pushing_handlers(2)[of broken flat i ind m p]
    by (auto simp: print_document_simps range_inside_handlers)
qed (use assms in \<open>auto simp: print_document_simps pushing_handlers(3) range_inside_handlers split: if_splits\<close>)

text \<open>
  What every document keeps and the lists of commands do not matter to holds for the output of the
  printer; also what the documents keep that pass the tests the commands were checked for.
\<close>

lemma print_step_keeps:
  assumes step: "print_step wide p rm = Some (p', rm')" "commands p \<noteq> []" "I p" "commands_ok leaf align suffixes p"
    and forgets: "\<And>q ks. I q \<Longrightarrow> I (q\<lparr>commands := ks\<rparr>)" "\<And>q. I q \<Longrightarrow> I (flush_suffix q)"
      "\<And>q ind m ds. I q \<Longrightarrow> I (push_docs ind m ds q)"
    and document: "\<And>q q' ind m doc b. print_document wide ind m doc rm q = Some (q', b) \<Longrightarrow> I q \<Longrightarrow>
      doc_ok leaf align suffixes doc \<Longrightarrow> (case alignment ind of None \<Rightarrow> True | Some a \<Rightarrow> align a) \<Longrightarrow> I q'"
  shows "I p'"
proof -
  obtain c cs where c: "commands p = c # cs" using step(2) by (cases "commands p") auto
  then obtain q where q: "run_command wide c rm (p\<lparr>commands := cs\<rparr>) = Some (q, rm')" "p' = flush_at_end q"
    using step(1) by (auto simp: print_step_def)
  have c_ok: "command_ok leaf align suffixes c" using step(4) c by (simp add: commands_ok_def)
  have "I q"
  proof (cases "cmd_document c")
    case (Command_Document doc)
    then show ?thesis using document[OF _ forgets(1)[OF step(3)] propagated_ok] q(1) c_ok
      by (simp add: run_command_def command_ok_def)
  next
    case (Command_Array docs)
    then show ?thesis using q(1) forgets(3)[OF forgets(1)[OF step(3)]] by (auto simp: run_command_def)
  qed
  then show ?thesis using forgets(2) by (auto simp: q(2) flush_at_end_def)
qed

lemma print_loop_keeps:
  assumes "print_loop wide (printer_new doc s) False = Some p'" "I (printer_new doc s)"
    "doc_ok leaf align suffixes doc" "leaf doc_space" "leaf Doc_Range_End"
    and forgets: "\<And>q ks. I q \<Longrightarrow> I (q\<lparr>commands := ks\<rparr>)" "\<And>q. I q \<Longrightarrow> I (flush_suffix q)"
      "\<And>q ind m ds. I q \<Longrightarrow> I (push_docs ind m ds q)"
    and document: "\<And>q q' ind m doc rm b. print_document wide ind m doc rm q = Some (q', b) \<Longrightarrow> I q \<Longrightarrow>
      doc_ok leaf align suffixes doc \<Longrightarrow> (case alignment ind of None \<Rightarrow> True | Some a \<Rightarrow> align a) \<Longrightarrow> I q'"
  shows "I p'"
proof -
  have "(commands_ok leaf align suffixes p' \<and> I p') \<and> commands p' = []"
  proof (rule print_loop_invariant[OF _ _ assms(1), where I = "\<lambda>p. commands_ok leaf align suffixes p \<and> I p"])
    fix q rm q' rm' assume q: "commands_ok leaf align suffixes q \<and> I q" "commands q \<noteq> []" "print_step wide q rm = Some (q', rm')"
    then have "I q'" using print_step_keeps[OF q(3,2), of I leaf align suffixes] forgets document by blast
    then show "commands_ok leaf align suffixes q' \<and> I q'" using print_step_ok[OF q(3) _ q(2) assms(4,5)] q(1) by blast
  qed (simp add: assms(2) printer_new_ok[OF assms(3)])
  then show ?thesis by simp
qed

lemma print_loop_result:
  assumes "doc_ok leaf align suffixes doc" "leaf doc_space" "leaf Doc_Range_End"
  shows "\<exists>p. print_doc_to_string wide (printer_new doc s) = Some p \<and> commands p = [] \<and> line_suffix p = [] \<and> range_inside p"
proof -
  obtain p where p: "print_loop wide (printer_new doc s) False = Some p" "print_doc_to_string wide (printer_new doc s) = Some p"
    using print_loop_returns[OF printer_new_ok[OF assms(1)] assms(2,3)] unfolding print_doc_to_string_def by blast
  have "range_inside p"
    by (rule print_loop_keeps[OF p(1) _ assms]) (auto simp: range_inside_handlers dest: print_document_range)
  moreover have "(commands p = [] \<longrightarrow> line_suffix p = []) \<and> commands p = []"
    by (rule print_loop_invariant[OF _ _ p(1), where I = "\<lambda>p. commands p = [] \<longrightarrow> line_suffix p = []"])
      (auto simp: print_step_def flush_at_end_def printer_new_def)
  ultimately show ?thesis using p(2) by blast
qed

section \<open>White space at the end of lines\<close>

definition tidy :: "bytes \<Rightarrow> bool" where
  "tidy s \<longleftrightarrow> successively (\<lambda>a b. is_line_terminator b \<longrightarrow> \<not> is_space a) s"

definition one_line :: "bytes \<Rightarrow> bool" where
  "one_line s \<longleftrightarrow> list_all (\<lambda>b. \<not> is_line_terminator b) s"

text \<open>No text of more than one line, no literal line, and trimming is never switched off.\<close>

fun tidy_leaf :: "document \<Rightarrow> bool" where
  "tidy_leaf (Doc_String s) \<longleftrightarrow> one_line s"
| "tidy_leaf (Doc_Line l) \<longleftrightarrow> \<not> literal l"
| "tidy_leaf Doc_Do_Not_Trim \<longleftrightarrow> False"
| "tidy_leaf _ \<longleftrightarrow> True"

lemma tidy_one_line: "one_line s \<Longrightarrow> tidy s"
  unfolding tidy_def one_line_def by (induction s rule: induct_list012) auto

lemma tidy_append_one_line: "tidy s \<Longrightarrow> one_line t \<Longrightarrow> tidy (s @ t)"
  using tidy_one_line by (cases t) (auto simp: tidy_def successively_append_iff one_line_def)

lemma one_line_simps [simp]:
  "one_line [32]" "one_line (replicate n b) \<longleftrightarrow> n = 0 \<or> \<not> is_line_terminator b" "one_line (s @ t) \<longleftrightarrow> one_line s \<and> one_line t"
  by (auto simp: one_line_def list_all_iff is_line_terminator_def)

lemma trim_end_split:
  "\<exists>r. s = trim_end_while f s @ r \<and> list_all f r \<and> (trim_end_while f s \<noteq> [] \<longrightarrow> \<not> f (last (trim_end_while f s)))"
proof (intro exI[of _ "rev (takeWhile f (rev s))"] conjI impI)
  show "s = trim_end_while f s @ rev (takeWhile f (rev s))"
    by (metis rev_append rev_rev_ident takeWhile_dropWhile_id trim_end_while_def)
  show "list_all f (rev (takeWhile f (rev s)))" by (auto simp: list_all_iff dest: set_takeWhileD)
  assume "trim_end_while f s \<noteq> []"
  then show "\<not> f (last (trim_end_while f s))"
    by (metis hd_dropWhile last_rev rev_is_Nil_conv trim_end_while_def)
qed

lemma tidy_trimmed: "tidy s \<Longrightarrow> tidy (trim_end_while f s)"
  using trim_end_split[of s f] unfolding tidy_def by (metis successively_append_iff)

lemma tidy_new_line: "tidy s \<Longrightarrow> tidy (trim_end_while is_space s @ eol_bytes e)"
  using trim_end_split[of s is_space] tidy_trimmed[of s is_space]
  by (cases e) (auto simp: tidy_def successively_append_iff is_space_def)

definition tidy_state :: "end_of_line \<Rightarrow> printer \<Rightarrow> bool" where
  "tidy_state e p \<longleftrightarrow> tidy (out p) \<and> can_trim p \<and> new_line p = eol_bytes e"

lemma tidy_handlers:
  assumes "tidy_state e p"
  shows "one_line s \<Longrightarrow> tidy_state e (handle_bytes wide s p)" "tidy_state e (handle_space b p)"
    "tidy_state e (push_docs ind m ds p)" "tidy_state e (handle_trim t p)" "tidy_state e (push_command c p)"
    "tidy_state e (flush_suffix p)" "tidy_state e (p\<lparr>commands := cs\<rparr>)" "tidy_state e (p\<lparr>line_suffix := cs\<rparr>)"
    "tidy_state e (p\<lparr>range_start := a\<rparr>)" "tidy_state e (p\<lparr>range_end := a\<rparr>)"
    "one_line s \<Longrightarrow> tidy_state e (p\<lparr>out := out p @ s, position := n\<rparr>)"
    "tidy_state e (write_new_line (handle_trim Trim_Whitespace p))"
    "(case alignment ind of None \<Rightarrow> True | Some a \<Rightarrow> one_line a) \<Longrightarrow> tidy_state e (indent_line wide ind p)"
  using assms
  by (auto simp: tidy_state_def handle_bytes_def handle_space_def push_docs_def handle_trim_def push_command_def
      flush_suffix_def write_new_line_def indent_line_def add_indentation_def Let_def tidy_trimmed tidy_new_line
      tidy_append_one_line is_line_terminator_def simp flip: append_assoc split: option.splits)

lemma tidy_new [simp]: "tidy_state (end_of_line s) (printer_new doc s)"
  by (simp add: tidy_state_def tidy_def printer_new_def)

lemma tidy_same: "same_output p' p \<Longrightarrow> tidy_state e p' = tidy_state e p"
  by (simp add: same_output_def tidy_state_def)

lemma print_document_tidy:
  assumes "print_document wide ind m doc rm p = Some (p', rm')" "tidy_state e p" "doc_ok tidy_leaf one_line suffixes doc"
    "case alignment ind of None \<Rightarrow> True | Some a \<Rightarrow> one_line a"
  shows "tidy_state e p'"
proof (cases doc)
  case (Doc_Group contents bm states i)
  then show ?thesis using assms(1,2) handle_group_choice tidy_same by (fastforce simp: print_document_simps)
next
  case (Doc_Line l)
  then have "\<not> literal l" "(p', rm') = handle_line wide l ind m rm p" using assms(1,3) by (simp_all add: print_document_simps)
  then show ?thesis using assms(2,4) tidy_handlers(11)[OF assms(2), of "[32]"]
    by (auto simp: handle_line_def Let_def tidy_handlers split: if_splits)
next
  case (Doc_Indent_If_Break i docs)
  then show ?thesis using assms pushing_handlers(1)[of ind m i docs p]
    by (auto simp: print_document_simps tidy_handlers)
next
  case (Doc_If_Break broken flat i)
  then show ?thesis using assms pushing_handlers(2)[of broken flat i ind m p]
    by (auto simp: print_document_simps tidy_handlers)
qed (use assms in \<open>auto simp: print_document_simps pushing_handlers(3) tidy_handlers split: if_splits\<close>)

text \<open>
  C19. When the texts and alignments of a document have one line each and it has neither literal lines,
  nor an exemption from trimming, nor an empty list of expanded states, the printed text has no space
  and no tab before a line terminator.
\<close>

theorem no_blank_before_line_end:
  assumes "doc_ok tidy_leaf one_line True doc" "build wide (printer_new doc s) = Some text"
    "Suc i < length text" "is_line_terminator (text ! Suc i)"
  shows "\<not> is_space (text ! i)"
proof -
  obtain p where p: "print_loop wide (printer_new doc s) False = Some p" "text = out p"
    using assms(2) by (auto simp: build_def print_doc_to_string_def)
  have "tidy_state (end_of_line s) p"
    by (rule print_loop_keeps[OF p(1) _ assms(1)])
      (auto simp: tidy_handlers doc_space_def intro: print_document_tidy)
  then have "successively (\<lambda>a b. is_line_terminator b \<longrightarrow> \<not> is_space a) text" by (simp add: tidy_state_def tidy_def p(2))
  then show ?thesis using assms(3,4) by (auto simp: successively_conv_nth)
qed

text \<open>A document of a few lines, for a line width of six.\<close>

definition example_settings :: format_settings where
  "example_settings = \<lparr>print_width = 6, tab_width = 4, use_tabs = False, end_of_line = Eol_Lf\<rparr>"

definition example_group :: "document list" where
  "example_group = [Doc_String [98, 98], Doc_Indent [Doc_Line line_default, Doc_String [99, 99]], Doc_Line line_soft]"

definition example_document :: document where
  "example_document = Doc_Array [Doc_String [97], Doc_Space False, Doc_Line line_hard, Doc_Group example_group Auto None None]"

lemma example_printed:
  "build (\<lambda>_. 0) (printer_new example_document example_settings) = Some [97, 10, 98, 98, 32, 99, 99]"
  by code_simp

theorem no_blank_before_line_end_witness: "\<not> is_space ([97, 10, 98, 98, 32, 99, 99] ! 0)"
proof (rule no_blank_before_line_end[OF _ example_printed])
  show "doc_ok tidy_leaf one_line True example_document" by code_simp
qed (simp_all add: is_line_terminator_def)

lemma new_line_handlers [simp]:
  "new_line (handle_bytes wide s p) = new_line p" "new_line (handle_space b p) = new_line p"
  "new_line (push_docs ind m ds p) = new_line p" "new_line (handle_trim t p) = new_line p"
  "new_line (push_command c p) = new_line p" "new_line (flush_suffix p) = new_line p"
  "new_line (write_new_line p) = new_line p" "new_line (indent_line wide ind p) = new_line p"
  by (simp_all add: handle_bytes_def handle_space_def push_docs_def handle_trim_def push_command_def
      flush_suffix_def write_new_line_def indent_line_def add_indentation_def Let_def split: option.splits)

lemma print_document_new_line:
  assumes "print_document wide ind m doc rm p = Some (p', rm')"
  shows "new_line p' = new_line p"
proof (cases doc)
  case (Doc_Group contents bm states i)
  then show ?thesis using assms handle_group_choice by (fastforce simp: print_document_simps same_output_def)
next
  case (Doc_Line l)
  then show ?thesis using assms by (auto simp: print_document_simps handle_line_def Let_def split: if_splits)
next
  case (Doc_Indent_If_Break i docs)
  then show ?thesis using assms pushing_handlers(1)[of ind m i docs p] by (auto simp: print_document_simps)
next
  case (Doc_If_Break broken flat i)
  then show ?thesis using assms pushing_handlers(2)[of broken flat i ind m p] by (auto simp: print_document_simps)
qed (use assms in \<open>auto simp: print_document_simps pushing_handlers(3) split: if_splits\<close>)

section \<open>What is printed\<close>

text \<open>
  The measures of the texts a document may print, for a way to put measures together: of a choice
  between contents any may be printed.
\<close>

definition both :: "('m \<Rightarrow> 'm \<Rightarrow> 'm) \<Rightarrow> 'm set \<Rightarrow> 'm set \<Rightarrow> 'm set" where
  "both join A B = {join a b | a b. a \<in> A \<and> b \<in> B}"

fun prints :: "'m \<Rightarrow> ('m \<Rightarrow> 'm \<Rightarrow> 'm) \<Rightarrow> (bytes \<Rightarrow> 'm) \<Rightarrow> document \<Rightarrow> 'm set"
  and prints_all :: "'m \<Rightarrow> ('m \<Rightarrow> 'm \<Rightarrow> 'm) \<Rightarrow> (bytes \<Rightarrow> 'm) \<Rightarrow> document list \<Rightarrow> 'm set"
  and prints_any :: "'m \<Rightarrow> ('m \<Rightarrow> 'm \<Rightarrow> 'm) \<Rightarrow> (bytes \<Rightarrow> 'm) \<Rightarrow> document list \<Rightarrow> 'm set" where
  "prints nothing join f (Doc_String s) = {f s}"
| "prints nothing join f (Doc_Array ds) = prints_all nothing join f ds"
| "prints nothing join f (Doc_Indent ds) = prints_all nothing join f ds"
| "prints nothing join f (Doc_Indent_If_Break i ds) = prints_all nothing join f ds"
| "prints nothing join f (Doc_Align a ds) = prints_all nothing join f ds"
| "prints nothing join f (Doc_Group ds bm states i) =
     prints_all nothing join f ds \<union> (case states of None \<Rightarrow> {} | Some ss \<Rightarrow> prints_any nothing join f ss)"
| "prints nothing join f (Doc_Line_Suffix ds) = prints_all nothing join f ds"
| "prints nothing join f (Doc_If_Break a b i) = prints nothing join f a \<union> prints nothing join f b"
| "prints nothing join f d = {nothing}"
| "prints_all nothing join f [] = {nothing}"
| "prints_all nothing join f (d # ds) = both join (prints nothing join f d) (prints_all nothing join f ds)"
| "prints_any nothing join f [] = {}"
| "prints_any nothing join f (d # ds) = prints nothing join f d \<union> prints_any nothing join f ds"

definition blank_text :: "bytes \<Rightarrow> bool" where
  "blank_text s \<longleftrightarrow> list_all is_line_terminator_or_space s"

definition ink :: "bytes \<Rightarrow> bytes" where
  "ink s = filter (\<lambda>b. \<not> is_line_terminator_or_space b) s"

lemma prints_any_iff: "x \<in> prints_any nothing join f ss \<longleftrightarrow> (\<exists>d \<in> set ss. x \<in> prints nothing join f d)"
  by (induction ss) auto

lemma both_mono: "A \<subseteq> A' \<Longrightarrow> B \<subseteq> B' \<Longrightarrow> both join A B \<subseteq> both join A' B'"
  unfolding both_def by blast

lemma prints_propagate:
  "prints nothing join f (snd (propagate_breaks d)) = prints nothing join f d"
  "prints_all nothing join f (snd (propagate_slice ds)) = prints_all nothing join f ds
     \<and> prints_any nothing join f (snd (propagate_slice ds)) = prints_any nothing join f ds"
  by (induction d and ds rule: propagate_breaks_propagate_slice.induct)
    (simp_all add: Let_def map_prod_def case_prod_beta split: option.split bool.split, metis prod.collapse)

lemma prints_propagated [simp]: "prints nothing join f (propagated d) = prints nothing join f d"
  by (cases d) (simp_all only: propagated_def document.case prints_propagate)

definition command_prints :: "'m \<Rightarrow> ('m \<Rightarrow> 'm \<Rightarrow> 'm) \<Rightarrow> (bytes \<Rightarrow> 'm) \<Rightarrow> command \<Rightarrow> 'm set" where
  "command_prints nothing join f c =
     (case cmd_document c of Command_Document d \<Rightarrow> prints nothing join f d | Command_Array ds \<Rightarrow> prints_all nothing join f ds)"

definition commands_print :: "'m \<Rightarrow> ('m \<Rightarrow> 'm \<Rightarrow> 'm) \<Rightarrow> (bytes \<Rightarrow> 'm) \<Rightarrow> command list \<Rightarrow> 'm set" where
  "commands_print nothing join f cs = foldr (\<lambda>c. both join (command_prints nothing join f c)) cs {nothing}"

lemma command_prints_simps [simp]:
  "command_prints nothing join f (command_new ind m d) = prints nothing join f d"
  "command_prints nothing join f (command_array ind m ds) = prints_all nothing join f ds"
  "commands_print nothing join f [] = {nothing}"
  "commands_print nothing join f (c # cs) = both join (command_prints nothing join f c) (commands_print nothing join f cs)"
  by (simp_all add: command_prints_def command_new_def command_array_def commands_print_def)

text \<open>
  The laws of a measure of texts: it is a homomorphism that ignores white space. Suffixes are
  printed later than they stand in the document, so with suffixes the order must not matter.
\<close>

locale text_measure =
  fixes nothing :: 'm and join :: "'m \<Rightarrow> 'm \<Rightarrow> 'm" and f :: "bytes \<Rightarrow> 'm" and suffixes :: bool
  assumes assoc: "join (join a b) c = join a (join b c)"
    and neutral: "join nothing a = a" "join a nothing = a"
    and append: "f (s @ t) = join (f s) (f t)"
    and blank: "blank_text s \<Longrightarrow> f s = nothing"
    and commute: "suffixes \<Longrightarrow> join a b = join b a"
begin

lemma both_assoc: "both join (both join A B) C = both join A (both join B C)"
  unfolding both_def by (auto simp: assoc) (metis assoc)+

lemma both_zero: "both join {nothing} A = A" "both join A {nothing} = A"
  unfolding both_def by (auto simp: neutral)

lemma both_swap: "suffixes \<or> A = {nothing} \<Longrightarrow> both join A B = both join B A"
  unfolding both_def using commute by (auto simp: neutral)

lemma commands_print_append:
  "commands_print nothing join f (cs @ ks) = both join (commands_print nothing join f cs) (commands_print nothing join f ks)"
  by (induction cs) (simp_all add: both_zero both_assoc)

lemma commands_print_docs: "commands_print nothing join f (map (command_new ind m) ds) = prints_all nothing join f ds"
  by (induction ds) simp_all

definition printed :: "printer \<Rightarrow> 'm set" where
  "printed p = both join {f (out p)}
     (both join (commands_print nothing join f (line_suffix p)) (commands_print nothing join f (commands p)))"

text \<open>What is still to be printed when a document was taken off the commands.\<close>

definition printed_with :: "'m set \<Rightarrow> printer \<Rightarrow> 'm set" where
  "printed_with D p = both join {f (out p)}
     (both join (commands_print nothing join f (line_suffix p)) (both join D (commands_print nothing join f (commands p))))"

lemma printed_forgets [simp]: "printed_with {nothing} p = printed p"
  by (simp add: printed_def printed_with_def both_zero)

lemma printed_flush [simp]: "printed (flush_suffix p) = printed p" "printed_with D (flush_suffix p) \<subseteq> printed_with D (flush_suffix p)"
  by (simp_all add: printed_def flush_suffix_def commands_print_append both_zero)

lemma printed_push:
  "printed (push_docs ind m ds p) = printed_with (prints_all nothing join f ds) p"
  "printed (push_command c p) = printed_with (command_prints nothing join f c) p"
  by (simp_all add: printed_def printed_with_def push_docs_def push_command_def commands_print_append commands_print_docs)

lemma printed_suffix:
  "printed (p\<lparr>line_suffix := line_suffix p @ [c]\<rparr>) = printed_with (command_prints nothing join f c) p"
  by (simp add: printed_def printed_with_def commands_print_append both_zero both_assoc)

lemma printed_same:
  "f (out p') = f (out p) \<Longrightarrow> line_suffix p' = line_suffix p \<Longrightarrow> commands p' = commands p \<Longrightarrow> printed p' = printed p"
  by (simp add: printed_def)

lemma printed_emit:
  assumes "suffixes \<or> line_suffix p = []"
  shows "printed (handle_bytes wide s p) = printed_with {f s} p"
proof -
  let ?L = "commands_print nothing join f (line_suffix p)" and ?C = "commands_print nothing join f (commands p)"
  have "suffixes \<or> ?L = {nothing}" using assms by auto
  note both_swap[OF this, of "{f s}"]
  moreover have "{f (out p @ s)} = both join {f (out p)} {f s}" by (simp add: append both_def)
  ultimately show ?thesis
    by (simp add: printed_def printed_with_def handle_bytes_def both_assoc flip: both_assoc[of ?L])
qed

lemma blank_trim: "list_all g r \<Longrightarrow> (\<And>b. g b \<Longrightarrow> is_line_terminator_or_space b) \<Longrightarrow> f (s @ r) = f s"
  by (simp add: append neutral blank blank_text_def list_all_iff)

lemma measure_trim: "f (out (handle_trim t p)) = f (out p)"
proof -
  have "f (trim_end_while g s) = f s" if "\<And>b. g b \<Longrightarrow> is_line_terminator_or_space b" for g s
    using trim_end_split[of s g] blank_trim[of g] that by metis
  then show ?thesis
    using is_line_terminator_or_space_def by (cases t) (auto simp: handle_trim_def Let_def)
qed

lemma measure_space: "f (out (handle_space b p)) = f (out p)"
  by (simp add: handle_space_def append blank blank_text_def is_line_terminator_or_space_def is_space_def neutral)

lemma measure_indent:
  assumes "case alignment ind of None \<Rightarrow> True | Some a \<Rightarrow> blank_text a"
  shows "f (out (indent_line wide ind p)) = f (out p)"
proof -
  have "f (replicate n 9) = nothing" "f (replicate n 32) = nothing" for n
    by (simp_all add: blank blank_text_def list_all_iff is_line_terminator_or_space_def is_space_def)
  then show ?thesis using assms
    by (auto simp: indent_line_def add_indentation_def Let_def append blank neutral split: option.splits)
qed

lemma printed_blank [simp]:
  "printed (handle_trim t p) = printed p" "printed (handle_space b p) = printed p"
  "printed (p\<lparr>range_start := a\<rparr>) = printed p" "printed (p\<lparr>range_end := a\<rparr>) = printed p"
  "printed (p\<lparr>can_trim := c\<rparr>) = printed p" "printed (p\<lparr>position := n\<rparr>) = printed p"
  by (rule printed_same; simp add: measure_trim measure_space)+

lemma printed_indent:
  "(case alignment ind of None \<Rightarrow> True | Some a \<Rightarrow> blank_text a) \<Longrightarrow> printed (indent_line wide ind p) = printed p"
  by (rule printed_same) (simp_all add: measure_indent)

lemma both_mono_right: "B \<subseteq> B' \<Longrightarrow> both join A B \<subseteq> both join A B'"
  by (rule both_mono) auto

lemma printed_with_mono: "D \<subseteq> D' \<Longrightarrow> printed_with D p \<subseteq> printed_with D' p"
  unfolding printed_with_def by (intro both_mono_right both_mono) auto

lemma printed_group:
  assumes "handle_group wide ind m contents bm states i rm p = Some (p', rm')"
  shows "printed p' \<subseteq> printed_with (prints nothing join f (Doc_Group contents bm states i)) p"
proof -
  obtain cs where cs: "same_output p' p" "commands p' = cs @ commands p" "group_choice ind contents bm states i cs"
    using handle_group_choice[OF assms] by blast
  have "commands_print nothing join f cs \<subseteq> prints nothing join f (Doc_Group contents bm states i)"
    using cs(3) by (auto simp: group_choice_def commands_print_docs both_zero prints_any_iff split: option.splits)
  then show ?thesis using cs(1,2)
    by (simp add: printed_def printed_with_def same_output_def commands_print_append both_mono)
qed

lemma printed_line:
  assumes "handle_line wide l ind m rm p = (p', rm')" "blank_text (new_line p)"
    "case alignment ind of None \<Rightarrow> True | Some a \<Rightarrow> blank_text a"
  shows "printed p' = printed p"
proof -
  have blanks: "printed (write_new_line q) = printed q" if "new_line q = new_line p" for q
    by (rule printed_same) (use assms(2) that in \<open>simp_all add: write_new_line_def append blank neutral\<close>)
  have new_line: "new_line (handle_trim t q) = new_line q" for t q by (simp add: handle_trim_def Let_def)
  have space: "f (out p @ [32]) = f (out p)" using measure_space[of False p] by (simp add: handle_space_def)
  show ?thesis
  proof (cases "m = Flat \<and> \<not> hard l")
    case True
    then have "out p' = out p \<or> out p' = out p @ [32]" "line_suffix p' = line_suffix p" "commands p' = commands p"
      using assms(1) by (auto simp: handle_line_def split: if_splits)
    then show ?thesis using space by (intro printed_same) auto
  next
    case breaks: False
    show ?thesis
    proof (cases "line_suffix p = []")
      case True
      have "p' = (if literal l then if is_root ind then indent_line wide ind (write_new_line p) else (write_new_line p)\<lparr>position := 0\<rparr>
          else indent_line wide ind (write_new_line (handle_trim Trim_Whitespace p)))"
        using assms(1) breaks True by (auto simp: handle_line_def Let_def)
      then show ?thesis using blanks[OF new_line[of Trim_Whitespace p]] blanks[OF refl] printed_indent[OF assms(3)] by simp
    next
      case False
      then have "p' = flush_suffix (push_command (command_new ind m (Doc_Line l)) p)"
        using assms(1) breaks by (auto simp: handle_line_def Let_def)
      then show ?thesis by (simp add: printed_push)
    qed
  qed
qed

lemma printed_document:
  assumes "print_document wide ind m doc rm p = Some (p', rm')" "blank_text (new_line p)"
    "doc_ok (\<lambda>_. True) blank_text suffixes doc" "case alignment ind of None \<Rightarrow> True | Some a \<Rightarrow> blank_text a"
    "line_suffix p \<noteq> [] \<Longrightarrow> suffixes"
  shows "printed p' \<subseteq> printed_with (prints nothing join f doc) p"
proof (cases doc)
  case (Doc_String s)
  then show ?thesis using assms(1) printed_emit[of p wide s] assms(5) by (auto simp: print_document_simps)
next
  case (Doc_Group contents bm states i)
  then show ?thesis using assms(1) printed_group by (simp add: print_document_simps)
next
  case (Doc_Line l)
  then show ?thesis using assms(1,2,4) printed_line by (simp add: print_document_simps)
next
  case (Doc_Indent_If_Break i docs)
  then show ?thesis using assms(1) pushing_handlers(1)[of ind m i docs p] by (auto simp: print_document_simps printed_push)
next
  case (Doc_If_Break broken flat i)
  obtain m' d where d: "d \<in> {broken, flat}" "handle_if_break broken flat i ind m p = push_command (command_new ind m' d) p"
    using pushing_handlers(2)[of broken flat i ind m p] by blast
  then have "p' = push_command (command_new ind m' d) p" using assms(1) by (simp add: Doc_If_Break print_document_simps)
  then have "printed p' = printed_with (prints nothing join f d) p" by (simp add: printed_push)
  moreover have "prints nothing join f d \<subseteq> prints nothing join f doc" using d(1) by (auto simp: Doc_If_Break)
  ultimately show ?thesis using printed_with_mono by blast
next
  case (Doc_Trim t)
  then show ?thesis using assms(1) by (auto simp: print_document_simps)
next
  case (Doc_Space b)
  then show ?thesis using assms(1) by (auto simp: print_document_simps)
next
  case Doc_Range_End
  then have "p' = (if line_suffix p = [] then p\<lparr>range_end := Some (length (out p))\<rparr>
      else p\<lparr>line_suffix := line_suffix p @ [command_new ind m Doc_Range_End]\<rparr>)"
    using assms(1) by (simp add: print_document_simps)
  then have "printed p' = printed p" using printed_suffix[of p "command_new ind m Doc_Range_End"] by simp
  then show ?thesis by (simp add: Doc_Range_End)
next
  case (Doc_Line_Suffix docs)
  then show ?thesis using assms(1) printed_suffix[of p "command_array ind m docs"] by (simp add: print_document_simps)
next
  case Doc_Line_Suffix_Boundary
  then show ?thesis using assms(1)
    by (auto simp: print_document_simps pushing_handlers(3) printed_push doc_space_def split: if_splits)
next
  case (Doc_Array docs)
  then have "p' = push_docs ind m docs p" using assms(1) by (simp add: print_document_simps)
  then show ?thesis by (simp add: printed_push Doc_Array)
next
  case (Doc_Indent docs)
  then have "p' = push_docs (indented ind) m docs p" using assms(1) by (simp add: print_document_simps)
  then show ?thesis by (simp add: printed_push Doc_Indent)
next
  case (Doc_Align a docs)
  then have "p' = push_docs (indentation_aligned a) m docs p" using assms(1) by (simp add: print_document_simps)
  then show ?thesis by (simp add: printed_push Doc_Align)
qed (use assms(1) in \<open>auto simp: print_document_simps\<close>)

lemma printed_step:
  assumes "print_step wide p rm = Some (p', rm')" "commands p \<noteq> []" "blank_text (new_line p)"
    "commands_ok (\<lambda>_. True) blank_text suffixes p"
  shows "printed p' \<subseteq> printed p"
proof -
  obtain c cs where c: "commands p = c # cs" using assms(2) by (cases "commands p") auto
  let ?p = "p\<lparr>commands := cs\<rparr>"
  obtain q where q: "run_command wide c rm ?p = Some (q, rm')" "p' = flush_at_end q"
    using assms(1) c by (auto simp: print_step_def)
  have c_ok: "command_ok (\<lambda>_. True) blank_text suffixes c" and rest: "line_suffix ?p \<noteq> [] \<Longrightarrow> suffixes"
    using assms(4) c by (auto simp: commands_ok_def)
  have before: "printed p = printed_with (command_prints nothing join f c) ?p"
    by (simp add: printed_def printed_with_def c)
  have "printed q \<subseteq> printed p"
  proof (cases "cmd_document c")
    case (Command_Document doc)
    then have "printed q \<subseteq> printed_with (prints nothing join f (propagated doc)) ?p"
      by (intro printed_document[OF _ _ _ _ rest, of wide "cmd_indentation c" "cmd_mode c" "propagated doc" rm])
        (use q(1) assms(3) c_ok propagated_ok in \<open>simp_all add: run_command_def command_ok_def\<close>)
    then show ?thesis using Command_Document by (simp add: before command_prints_def)
  next
    case (Command_Array docs)
    then have "q = push_docs (cmd_indentation c) (cmd_mode c) (snd (propagate_slice docs)) ?p"
      using q(1) by (simp add: run_command_def)
    then show ?thesis using Command_Array by (simp add: before command_prints_def printed_push prints_propagate)
  qed
  then show ?thesis by (simp add: q(2) flush_at_end_def)
qed

lemma printed_text:
  assumes "build wide (printer_new doc s) = Some text" "doc_ok (\<lambda>_. True) blank_text suffixes doc"
  shows "f text \<in> prints nothing join f doc"
proof -
  obtain p where p: "print_loop wide (printer_new doc s) False = Some p" "text = out p"
    using assms(1) by (auto simp: build_def print_doc_to_string_def)
  let ?I = "\<lambda>p. commands_ok (\<lambda>_. True) blank_text suffixes p \<and> blank_text (new_line p) \<and> printed p \<subseteq> prints nothing join f doc"
  have eol: "blank_text (eol_bytes e)" for e
    by (cases e) (simp_all add: blank_text_def is_line_terminator_or_space_def is_line_terminator_def)
  have "?I p \<and> commands p = []"
  proof (rule print_loop_invariant[OF _ _ p(1), where I = ?I])
    fix q rm q' rm' assume q: "?I q" "commands q \<noteq> []" "print_step wide q rm = Some (q', rm')"
    have "new_line q' = new_line q"
      by (rule print_step_keeps[OF q(3,2), where I = "\<lambda>p. new_line p = new_line q"]) (use q(1) print_document_new_line in auto)
    then show "?I q'" using q(1) printed_step[OF q(3,2)] print_step_ok[OF q(3) _ q(2)] by auto
  next
    have "printed (printer_new doc s) = prints nothing join f doc"
      using blank[of "[]"] by (simp add: printed_def printer_new_def both_zero blank_text_def)
    then show "?I (printer_new doc s)" using printer_new_ok[OF assms(2)] eol by (simp add: printer_new_def)
  qed
  moreover have "line_suffix p = []"
    using print_loop_result[OF assms(2), of wide s] p(1) by (auto simp: print_doc_to_string_def)
  ultimately have "printed p = {f (out p)}" "printed p \<subseteq> prints nothing join f doc"
    by (auto simp: printed_def both_zero)
  then show ?thesis using p(2) by simp
qed

end

lemma ink_simps: "ink (s @ t) = ink s @ ink t" "blank_text s \<Longrightarrow> ink s = []"
  by (auto simp: ink_def blank_text_def list_all_iff filter_empty_conv)

interpretation ordered_ink: text_measure "[]" append ink False
  by unfold_locales (simp_all add: ink_simps)

interpretation counted_ink: text_measure "{#}" plus "\<lambda>s. mset (ink s)" True
  by unfold_locales (simp_all add: ink_simps)

text \<open>
  C5. The printer returns for every document whose lists of expanded states are not empty and whose
  alignments are blank, with the offsets of the range inside the text. It loses no character but
  white space: the others are those of the document, for some choice between the contents of groups
  and breaks, and without suffixes also in their order.
\<close>

theorem printed_text_complete:
  assumes "doc_ok (\<lambda>_. True) blank_text suffixes doc"
  shows "\<exists>text. build wide (printer_new doc s) = Some text
    \<and> mset (ink text) \<in> prints {#} plus (\<lambda>s. mset (ink s)) doc
    \<and> (\<not> suffixes \<longrightarrow> ink text \<in> prints [] append ink doc)
    \<and> (\<exists>range. build_range wide (printer_new doc s) = Some range
         \<and> (\<forall>t a b. range = Some (t, a, b) \<longrightarrow> t = text \<and> a \<le> length text \<and> b \<le> length text))"
proof -
  obtain p where p: "print_doc_to_string wide (printer_new doc s) = Some p" "range_inside p"
    using print_loop_result[OF assms] by blast
  then have built: "build wide (printer_new doc s) = Some (out p)" by (simp add: build_def)
  have any: "doc_ok (\<lambda>_. True) blank_text True doc"
    using assms doc_ok_suffixes(1) by blast
  have "\<not> suffixes \<Longrightarrow> doc_ok (\<lambda>_. True) blank_text False doc" using assms by (cases suffixes) auto
  then show ?thesis
    using built counted_ink.printed_text[OF built any] ordered_ink.printed_text[OF built] p(2)
    by (auto simp: build_range_def p(1) range_inside_def split: option.splits)
qed

theorem printed_text_complete_witness:
  "ink [97, 10, 98, 98, 32, 99, 99] \<in> prints [] append ink example_document"
proof -
  have "doc_ok (\<lambda>_. True) blank_text False example_document" by code_simp
  from printed_text_complete[OF this, of "\<lambda>_. 0" example_settings] show ?thesis by (simp add: example_printed)
qed

end
