(* ===== verification/Doc_Layout.thy ===== *)
theory Doc_Layout
  imports Doc_Output
begin

text \<open>
  How the printer of the formatter decides between one line and several: which documents force the
  groups around them to break, what \<open>fits\<close> measures, and what becomes of a group without alternative
  states. When its contents can stand on one line and a line break follows, it is printed on the
  current line exactly if it has room there.
\<close>

section \<open>Forced breaks\<close>

text \<open>What forces the groups around it to break: a group with states or a preserved one only by its own mode.\<close>

fun forces :: "document \<Rightarrow> bool" and forces_any :: "document list \<Rightarrow> bool" where
  "forces Doc_Break_Parent \<longleftrightarrow> True"
| "forces (Doc_Group contents bm states i) \<longleftrightarrow> bm = Force \<or> states = None \<and> bm \<noteq> Preserve \<and> forces_any contents"
| "forces (Doc_If_Break broken flat i) \<longleftrightarrow> forces broken"
| "forces (Doc_Array ds) \<longleftrightarrow> forces_any ds"
| "forces (Doc_Indent ds) \<longleftrightarrow> forces_any ds"
| "forces (Doc_Align a ds) \<longleftrightarrow> forces_any ds"
| "forces (Doc_Indent_If_Break i ds) \<longleftrightarrow> forces_any ds"
| "forces d \<longleftrightarrow> False"
| "forces_any [] \<longleftrightarrow> False"
| "forces_any (d # ds) \<longleftrightarrow> forces d \<or> forces_any ds"

lemma propagate_answer:
  "fst (propagate_breaks d) = forces d" "fst (propagate_slice ds) = forces_any ds"
  by (induction d and ds rule: weight_weights.induct)
    (auto simp: Let_def map_prod_def case_prod_beta split: option.split bool.split)

lemma propagate_twice:
  "propagate_breaks (snd (propagate_breaks d)) = propagate_breaks d"
  "propagate_slice (snd (propagate_slice ds)) = propagate_slice ds"
  by (induction d and ds rule: weight_weights.induct)
    (simp_all add: Let_def map_prod_def case_prod_beta split: option.split bool.split)

section \<open>Documents that can stand on one line\<close>

text \<open>No hard line, no soft space, nothing that trims, marks or delays, and groups that may stay flat.\<close>

fun flat_doc :: "document \<Rightarrow> bool" and flat_docs :: "document list \<Rightarrow> bool" where
  "flat_doc (Doc_String s) \<longleftrightarrow> True"
| "flat_doc (Doc_Space is_soft) \<longleftrightarrow> \<not> is_soft"
| "flat_doc (Doc_Line l) \<longleftrightarrow> \<not> hard l"
| "flat_doc (Doc_Array ds) \<longleftrightarrow> flat_docs ds"
| "flat_doc (Doc_Indent ds) \<longleftrightarrow> flat_docs ds"
| "flat_doc (Doc_Align a ds) \<longleftrightarrow> flat_docs ds"
| "flat_doc (Doc_Indent_If_Break i ds) \<longleftrightarrow> flat_docs ds"
| "flat_doc (Doc_Group ds bm states i) \<longleftrightarrow> bm = Auto \<and> flat_docs ds"
| "flat_doc (Doc_If_Break broken flat i) \<longleftrightarrow> i = None \<and> \<not> forces broken \<and> flat_doc flat"
| "flat_doc d \<longleftrightarrow> False"
| "flat_docs [] \<longleftrightarrow> True"
| "flat_docs (d # ds) \<longleftrightarrow> flat_doc d \<and> flat_docs ds"

text \<open>The text of such a document on one line, and its width.\<close>

fun flat_text :: "document \<Rightarrow> bytes" and flat_texts :: "document list \<Rightarrow> bytes" where
  "flat_text (Doc_String s) = s"
| "flat_text (Doc_Space is_soft) = [32]"
| "flat_text (Doc_Line l) = (if soft l then [] else [32])"
| "flat_text (Doc_Array ds) = flat_texts ds"
| "flat_text (Doc_Indent ds) = flat_texts ds"
| "flat_text (Doc_Align a ds) = flat_texts ds"
| "flat_text (Doc_Indent_If_Break i ds) = flat_texts ds"
| "flat_text (Doc_Group ds bm states i) = flat_texts ds"
| "flat_text (Doc_If_Break broken flat i) = flat_text flat"
| "flat_text d = []"
| "flat_texts [] = []"
| "flat_texts (d # ds) = flat_text d @ flat_texts ds"

fun flat_width :: "(bytes \<Rightarrow> nat) \<Rightarrow> document \<Rightarrow> nat" and flat_widths :: "(bytes \<Rightarrow> nat) \<Rightarrow> document list \<Rightarrow> nat" where
  "flat_width wide (Doc_String s) = string_width wide s"
| "flat_width wide (Doc_Space is_soft) = 1"
| "flat_width wide (Doc_Line l) = (if soft l then 0 else 1)"
| "flat_width wide (Doc_Array ds) = flat_widths wide ds"
| "flat_width wide (Doc_Indent ds) = flat_widths wide ds"
| "flat_width wide (Doc_Align a ds) = flat_widths wide ds"
| "flat_width wide (Doc_Indent_If_Break i ds) = flat_widths wide ds"
| "flat_width wide (Doc_Group ds bm states i) = flat_widths wide ds"
| "flat_width wide (Doc_If_Break broken flat i) = flat_width wide flat"
| "flat_width wide d = 0"
| "flat_widths wide [] = 0"
| "flat_widths wide (d # ds) = flat_width wide d + flat_widths wide ds"

lemma flat_forces: "flat_doc d \<Longrightarrow> \<not> forces d" "flat_docs ds \<Longrightarrow> \<not> forces_any ds"
  by (induction d and ds rule: weight_weights.induct) auto

lemma forces_propagate [simp]: "forces (snd (propagate_breaks d)) = forces d"
  using propagate_twice(1)[of d] propagate_answer(1) by metis

lemma flat_propagate:
  "flat_doc d \<Longrightarrow> flat_doc (snd (propagate_breaks d)) \<and> flat_text (snd (propagate_breaks d)) = flat_text d
     \<and> flat_width wide (snd (propagate_breaks d)) = flat_width wide d"
  "flat_docs ds \<Longrightarrow> flat_docs (snd (propagate_slice ds)) \<and> flat_texts (snd (propagate_slice ds)) = flat_texts ds
     \<and> flat_widths wide (snd (propagate_slice ds)) = flat_widths wide ds"
  by (induction d and ds rule: weight_weights.induct)
    (simp_all add: Let_def map_prod_def case_prod_beta propagate_answer flat_forces split: option.split bool.split)

section \<open>What fits measures\<close>

lemma flat_docs_append [simp]: "flat_docs (ds @ es) \<longleftrightarrow> flat_docs ds \<and> flat_docs es"
  by (induction ds) auto

lemma flat_widths_append [simp]: "flat_widths wide (ds @ es) = flat_widths wide ds + flat_widths wide es"
  by (induction ds) auto

lemma fits_document_flat:
  assumes "flat_doc d"
  shows "\<exists>es w. fits_document wide self Flat d remaining has_suffix = Inr ((Flat, es), remaining - int w, has_suffix)
    \<and> flat_docs es \<and> weights es < weight d \<and> flat_width wide d = w + flat_widths wide es"
proof (cases d)
  case (Doc_Group contents bm states i)
  then show ?thesis using assms by (intro exI[of _ contents] exI[of _ 0]) (simp add: fits_document_def)
next
  case (Doc_If_Break broken flat i)
  then show ?thesis using assms by (intro exI[of _ "[flat]"] exI[of _ 0]) (simp add: fits_document_def)
qed (use assms in \<open>auto simp: fits_document_def\<close>)

lemma fits_flat:
  assumes "stack_ok stack" "items stack = map (Pair Flat) ds @ its" "flat_docs ds" "0 \<le> remaining"
  shows "if int (flat_widths wide ds) \<le> remaining
    then \<exists>stack'. stack_ok stack' \<and> items stack' = its
      \<and> fits_loop wide self stack pending remaining has_suffix
        = fits_loop wide self stack' pending (remaining - int (flat_widths wide ds)) has_suffix
    else \<not> fits_loop wide self stack pending remaining has_suffix"
  using assms
proof (induction "weights ds" arbitrary: ds stack its remaining rule: less_induct)
  case less
  show ?case
  proof (cases ds)
    case Nil
    then show ?thesis using less.prems by auto
  next
    case (Cons d ds')
    then obtain stack1 where stack1: "fits_next stack = Some ((Flat, d), stack1)" "items stack1 = map (Pair Flat) ds' @ its" "stack_ok stack1"
      using fits_next_items[OF less.prems(1)] less.prems(2) by (cases "fits_next stack") auto
    obtain es w where doc: "fits_document wide self Flat d remaining has_suffix = Inr ((Flat, es), remaining - int w, has_suffix)"
      "flat_docs es" "weights es < weight d" "flat_width wide d = w + flat_widths wide es"
      using fits_document_flat less.prems(3) Cons by (metis flat_docs.simps(2))
    let ?stack2 = "fits_push Flat es stack1"
    have run: "fits_loop wide self stack pending remaining has_suffix
        = (int w \<le> remaining \<and> fits_loop wide self ?stack2 pending (remaining - int w) has_suffix)"
      by (subst fits_loop.simps) (simp add: stack1(1) doc(1))
    have stack2: "stack_ok ?stack2" "items ?stack2 = map (Pair Flat) (es @ ds') @ its"
      using frames_push(2)[OF stack1(3)] items_push[OF stack1(3)] stack1(2) by simp_all
    show ?thesis
    proof (cases "int w \<le> remaining")
      case True
      have "weights (es @ ds') < weights ds" "flat_docs (es @ ds')"
        using doc(2,3) less.prems(3) Cons flat_docs_append by simp_all
      from less.hyps[OF this(1) stack2 this(2), of "remaining - int w"] True
      show ?thesis by (auto simp: run Cons doc(4) algebra_simps split: if_splits)
    qed (simp add: run Cons doc(4))
  qed
qed

section \<open>Printing on one line\<close>

lemma print_document_flat:
  assumes "flat_doc d"
  shows "\<exists>p' es t w ind'. print_document wide ind Flat d False p = Some (p', False)
    \<and> commands p' = map (command_new ind' Flat) es @ commands p \<and> line_suffix p' = line_suffix p
    \<and> out p' = out p @ t \<and> position p' = position p + w \<and> settings p' = settings p
    \<and> flat_docs es \<and> weights es < weight d \<and> flat_text d = t @ flat_texts es \<and> flat_width wide d = w + flat_widths wide es"
proof (cases d)
  case (Doc_String s)
  then show ?thesis
    by (intro exI[of _ "handle_bytes wide s p"] exI[of _ "[]"] exI[of _ s]) (simp add: print_document_simps handle_bytes_def)
next
  case (Doc_Space b)
  then show ?thesis using assms
    by (intro exI[of _ "handle_space False p"] exI[of _ "[]"] exI[of _ "[32]"] exI[of _ 1])
      (simp add: print_document_simps handle_space_def)
next
  case (Doc_Line l)
  then show ?thesis using assms
    by (intro exI[of _ "fst (handle_line wide l ind Flat False p)"] exI[of _ "[]"]
        exI[of _ "if soft l then [] else [32]"] exI[of _ "if soft l then 0 else 1"])
      (simp add: print_document_simps handle_line_def)
next
  case (Doc_Group contents bm states i)
  then show ?thesis using assms
    by (intro exI[of _ "set_group_mode_from_last_cmd i (push_docs ind Flat contents p)"] exI[of _ contents] exI[of _ "[]"] exI[of _ 0] exI[of _ ind])
      (simp add: print_document_simps handle_group_def push_docs_def set_group_mode_from_last_cmd_def split: option.split list.split)
next
  case (Doc_If_Break broken flat i)
  then show ?thesis using assms
    by (intro exI[of _ "push_command (command_new ind Flat flat) p"] exI[of _ "[flat]"] exI[of _ "[]"] exI[of _ 0] exI[of _ ind])
      (simp add: print_document_simps handle_if_break_def push_command_def)
next
  case (Doc_Indent_If_Break g docs)
  obtain ind' where "handle_indent_if_break ind Flat g docs p = push_docs ind' Flat docs p"
    using pushing_handlers(1)[of ind Flat g docs p] by blast
  then show ?thesis using assms Doc_Indent_If_Break
    by (intro exI[of _ "push_docs ind' Flat docs p"] exI[of _ docs] exI[of _ "[]"] exI[of _ 0] exI[of _ ind'])
      (simp add: print_document_simps push_docs_def)
next
  case (Doc_Array docs)
  then show ?thesis using assms
    by (intro exI[of _ "push_docs ind Flat docs p"] exI[of _ docs] exI[of _ "[]"] exI[of _ 0] exI[of _ ind])
      (simp add: print_document_simps push_docs_def)
next
  case (Doc_Indent docs)
  then show ?thesis using assms
    by (intro exI[of _ "push_docs (indented ind) Flat docs p"] exI[of _ docs] exI[of _ "[]"] exI[of _ 0] exI[of _ "indented ind"])
      (simp add: print_document_simps push_docs_def)
next
  case (Doc_Align a docs)
  then show ?thesis using assms
    by (intro exI[of _ "push_docs (indentation_aligned a) Flat docs p"] exI[of _ docs] exI[of _ "[]"] exI[of _ 0] exI[of _ "indentation_aligned a"])
      (simp add: print_document_simps push_docs_def)
qed (use assms in simp_all)

lemma propagated_flat:
  assumes "flat_doc d"
  shows "flat_doc (propagated d)" "flat_text (propagated d) = flat_text d" "flat_width wide (propagated d) = flat_width wide d"
  using flat_propagate(1)[OF assms] by (cases d; simp add: propagated_def)+

lemma print_loop_flat:
  assumes "commands p = map (command_new ind Flat) ds @ rest" "flat_docs ds" "line_suffix p = []"
  shows "\<exists>p'. print_loop wide p False = print_loop wide p' False \<and> commands p' = rest \<and> line_suffix p' = []
    \<and> out p' = out p @ flat_texts ds \<and> position p' = position p + flat_widths wide ds \<and> settings p' = settings p"
  using assms
proof (induction "weights ds" arbitrary: ds p ind rest rule: less_induct)
  case less
  show ?case
  proof (cases ds)
    case Nil
    then show ?thesis using less.prems by auto
  next
    case (Cons d ds')
    let ?p = "p\<lparr>commands := map (command_new ind Flat) ds' @ rest\<rparr>"
    have d: "flat_doc (propagated d)" "flat_text (propagated d) = flat_text d" "flat_width wide (propagated d) = flat_width wide d"
      using propagated_flat[of d] less.prems(2) Cons by simp_all
    obtain q es t w ind' where q: "print_document wide ind Flat (propagated d) False ?p = Some (q, False)"
      "commands q = map (command_new ind' Flat) es @ map (command_new ind Flat) ds' @ rest" "line_suffix q = []"
      "out q = out p @ t" "position q = position p + w" "settings q = settings p"
      "flat_docs es" "weights es < weight d" "flat_text d = t @ flat_texts es" "flat_width wide d = w + flat_widths wide es"
      using print_document_flat[OF d(1), of wide ind ?p] less.prems(3) d(2,3) by auto
    have "print_step wide p False = Some (q, False)"
      using q(1,3) less.prems(1) Cons
      by (simp add: print_step_def run_command_def command_new_def[of _ _ d] flush_at_end_def)
    then have step: "print_loop wide p False = print_loop wide q False"
      using less.prems(1) Cons by (simp add: print_loop.simps[of wide p])
    have lighter: "weights es < weights ds" "weights ds' < weights ds" using q(8) Cons weight_pos[of d] by simp_all
    obtain q1 where q1: "print_loop wide q False = print_loop wide q1 False" "commands q1 = map (command_new ind Flat) ds' @ rest"
      "line_suffix q1 = []" "out q1 = out q @ flat_texts es" "position q1 = position q + flat_widths wide es" "settings q1 = settings q"
      using less.hyps[OF lighter(1) q(2,7,3)] by blast
    obtain q2 where q2: "print_loop wide q1 False = print_loop wide q2 False" "commands q2 = rest"
      "line_suffix q2 = []" "out q2 = out q1 @ flat_texts ds'" "position q2 = position q1 + flat_widths wide ds'" "settings q2 = settings q1"
      using less.hyps[OF lighter(2) q1(2) _ q1(3)] less.prems(2) Cons by auto
    show ?thesis using step q q1 q2 by (intro exI[of _ q2]) (simp add: Cons)
  qed
qed

section \<open>Groups\<close>

lemma fits_group:
  assumes "flat_docs contents"
  shows "if int (flat_widths wide contents) \<le> width
    then \<exists>stack. stack_ok stack \<and> items stack = []
      \<and> fits wide p (command_new ind Flat (Doc_Group contents Auto states i)) width
        = fits_loop wide p stack (commands p) (width - int (flat_widths wide contents)) False
    else \<not> fits wide p (command_new ind Flat (Doc_Group contents Auto states i)) width"
proof -
  have new: "fits_next fits_stack_new = None" "stack_ok fits_stack_new" "items fits_stack_new = []"
    using frames_new by (simp_all add: fits_next.simps fits_stack_new_def items_def)
  have run: "fits wide p (command_new ind Flat (Doc_Group contents Auto states i)) width
      = (0 \<le> width \<and> fits_loop wide p (fits_push Flat contents fits_stack_new) (commands p) width False)"
    unfolding fits_def by (subst fits_loop.simps) (auto simp: new command_new_def fits_document_def)
  show ?thesis
  proof (cases "0 \<le> width")
    case True
    have "stack_ok (fits_push Flat contents fits_stack_new)"
      "items (fits_push Flat contents fits_stack_new) = map (Pair Flat) contents @ []"
      using frames_push(2)[OF new(2)] items_push[OF new(2)] new(3) by simp_all
    from fits_flat[OF this assms True, of wide p "commands p" False] show ?thesis by (simp add: run True)
  qed (simp add: run)
qed

lemma fits_at_break:
  assumes "stack_ok stack" "items stack = []" "rest = [] \<or> (\<exists>ind l cs. rest = command_new ind Break (Doc_Line l) # cs)"
  shows "fits_loop wide p stack rest remaining False"
proof -
  have "fits_next stack = None" using fits_next_items[OF assms(1)] assms(2) by (cases "fits_next stack") auto
  then show ?thesis using assms(3) by (subst fits_loop.simps) (auto simp: command_new_def fits_document_def)
qed

text \<open>When a group without states breaks whatever its width, and its contents once its breaks are propagated.\<close>

definition group_breaks :: "document list \<Rightarrow> break_mode \<Rightarrow> bool" where
  "group_breaks contents bm \<longleftrightarrow> bm \<noteq> Auto \<or> forces_any contents"

definition visited :: "document list \<Rightarrow> break_mode \<Rightarrow> document list" where
  "visited contents bm = (if bm = Force then contents else snd (propagate_slice contents))"

lemma propagated_group:
  "propagated (Doc_Group contents bm None i)
     = Doc_Group (visited contents bm) (if bm = Auto \<and> forces_any contents then Force else bm) None i"
  by (cases bm) (simp_all add: propagated_def visited_def propagate_answer(2) Let_def case_prod_beta)

lemma visited_flat:
  assumes "flat_docs contents"
  shows "\<not> group_breaks contents Auto" "flat_docs (visited contents Auto)" "flat_texts (visited contents Auto) = flat_texts contents"
    "flat_widths wide (visited contents Auto) = flat_widths wide contents"
  using flat_propagate(2)[OF assms] flat_forces(2)[OF assms] by (simp_all add: visited_def group_breaks_def)

text \<open>The step of the printer at a group without states.\<close>

lemma group_step:
  assumes "commands p = command_new ind m (Doc_Group contents bm None i) # rest"
  shows "print_loop wide p rm =
    (let q = p\<lparr>commands := rest\<rparr>; g = propagated (Doc_Group contents bm None i);
         then_mode = set_group_mode_from_last_cmd i
     in if m = Flat \<and> \<not> rm
        then print_loop wide (flush_at_end (then_mode
               (push_docs ind (if group_breaks contents bm then Break else Flat) (visited contents bm) q))) False
        else if \<not> group_breaks contents bm \<and> fits wide q (command_new ind Flat g) (remaining_width p)
        then print_loop wide (then_mode (push_command (command_new ind Flat g) q)) False
        else print_loop wide (then_mode (push_command (command_array ind Break (visited contents bm)) q)) False)"
proof -
  let ?p = "p\<lparr>commands := rest\<rparr>" and ?bm = "if bm = Auto \<and> forces_any contents then Force else bm"
  have breaks: "?bm \<noteq> Auto \<longleftrightarrow> group_breaks contents bm" by (simp add: group_breaks_def)
  have "print_step wide p rm
      = map_option (map_prod flush_at_end id) (handle_group wide ind m (visited contents bm) ?bm None i rm ?p)"
    using assms by (simp add: print_step_def run_command_def command_new_def propagated_group print_document_simps)
  then show ?thesis
    using assms breaks
    by (auto simp: print_loop.simps[of wide p] handle_group_def Let_def propagated_group remaining_width_def flush_at_end_def)
qed

lemma flat_group_fits:
  assumes "flat_docs contents"
    and "fits wide (p\<lparr>commands := rest\<rparr>) (command_new ind Flat (propagated (Doc_Group contents Auto None i))) (remaining_width p)"
  shows "position p + flat_widths wide contents \<le> print_width (settings p)"
  using fits_group[OF visited_flat(2)[OF assms(1)], of wide "remaining_width p" "p\<lparr>commands := rest\<rparr>" ind None i] assms(2)
    flat_forces(2)[OF assms(1)]
  by (auto simp: propagated_group visited_flat(4)[OF assms(1)] remaining_width_def split: if_splits)

lemma flat_group_fits_exactly:
  assumes "flat_docs contents" "rest = [] \<or> (\<exists>ind' l cs. rest = command_new ind' Break (Doc_Line l) # cs)"
  shows "fits wide (p\<lparr>commands := rest\<rparr>) (command_new ind Flat (propagated (Doc_Group contents Auto None i))) (remaining_width p)
    \<longleftrightarrow> position p + flat_widths wide contents \<le> print_width (settings p)"
  using fits_group[OF visited_flat(2)[OF assms(1)], of wide "remaining_width p" "p\<lparr>commands := rest\<rparr>" ind None i]
    fits_at_break[OF _ _ assms(2)] flat_forces(2)[OF assms(1)]
  by (auto simp: propagated_group visited_flat(4)[OF assms(1)] remaining_width_def split: if_splits)

lemma flat_group_printed:
  assumes "flat_docs contents" "line_suffix q = []" "commands q = command_new ind Flat (propagated (Doc_Group contents Auto None i)) # rest"
  shows "\<exists>p'. print_loop wide q False = print_loop wide p' False \<and> commands p' = rest \<and> line_suffix p' = []
    \<and> out p' = out q @ flat_texts contents \<and> position p' = position q + flat_widths wide contents"
proof -
  have "flat_docs [propagated (Doc_Group contents Auto None i)]"
    "flat_texts [propagated (Doc_Group contents Auto None i)] = flat_texts contents"
    "flat_widths wide [propagated (Doc_Group contents Auto None i)] = flat_widths wide contents"
    using visited_flat[OF assms(1)] flat_forces(2)[OF assms(1)] by (simp_all add: propagated_group)
  then show ?thesis using print_loop_flat[of q ind "[propagated (Doc_Group contents Auto None i)]" rest wide] assms(2,3) by auto
qed

lemma position_after_push [simp]:
  "position (set_group_mode_from_last_cmd i p) = position p" "position (push_command c p) = position p"
  "out (set_group_mode_from_last_cmd i p) = out p" "out (push_command c p) = out p"
  by (simp_all add: set_group_mode_from_last_cmd_def push_command_def split: option.split list.split)

text \<open>
  C10. The layout of a group without alternative states. In a flat context that need not be measured
  again its contents follow on, flat, or broken when the group breaks: when its mode is not \<open>Auto\<close> or
  something in it forces a break. In a broken context, or after a forced break, its contents are run
  broken when the group breaks or does not fit, and otherwise the group is run flat. If it is \<open>Auto\<close>,
  has nothing that must break, trim or wait, and no suffix is pending, then, when it fits, its text is
  printed on the current line, which ends within the line width; and when a line break or nothing
  follows, it fits exactly if there is room for it.
\<close>

theorem group_layout:
  assumes "commands p = command_new ind m (Doc_Group contents bm None i) # rest"
    and "fitting \<longleftrightarrow> fits wide (p\<lparr>commands := rest\<rparr>)
           (command_new ind Flat (propagated (Doc_Group contents bm None i))) (remaining_width p)"
  shows "(m = Flat \<and> \<not> rm \<longrightarrow> (\<exists>q. print_loop wide p rm = print_loop wide (flush_at_end q) False \<and> same_output q p
       \<and> commands q = map (command_new ind (if group_breaks contents bm then Break else Flat)) (visited contents bm) @ rest))
    \<and> ((m = Break \<or> rm) \<and> (group_breaks contents bm \<or> \<not> fitting) \<longrightarrow> (\<exists>q. print_loop wide p rm = print_loop wide q False
       \<and> same_output q p \<and> commands q = command_array ind Break (visited contents bm) # rest))
    \<and> ((m = Break \<or> rm) \<and> \<not> group_breaks contents bm \<and> fitting \<longrightarrow> (\<exists>q. print_loop wide p rm = print_loop wide q False
       \<and> same_output q p \<and> commands q = command_new ind Flat (propagated (Doc_Group contents bm None i)) # rest))
    \<and> ((m = Break \<or> rm) \<and> bm = Auto \<and> flat_docs contents \<and> line_suffix p = [] \<and> fitting \<longrightarrow>
       position p + flat_widths wide contents \<le> print_width (settings p)
       \<and> (\<exists>p'. print_loop wide p rm = print_loop wide p' False \<and> commands p' = rest \<and> line_suffix p' = []
            \<and> out p' = out p @ flat_texts contents \<and> position p' = position p + flat_widths wide contents))
    \<and> (bm = Auto \<and> flat_docs contents \<and> (rest = [] \<or> (\<exists>ind' l cs. rest = command_new ind' Break (Doc_Line l) # cs))
       \<longrightarrow> (fitting \<longleftrightarrow> position p + flat_widths wide contents \<le> print_width (settings p)))"
    (is "?unmeasured \<and> ?broken \<and> ?flat \<and> ?one_line \<and> ?exact")
proof -
  let ?p = "p\<lparr>commands := rest\<rparr>" and ?g = "propagated (Doc_Group contents bm None i)"
  note step = group_step[OF assms(1), of wide rm, unfolded Let_def assms(2)[symmetric]]
  have same: "same_output ?p p" by (simp add: same_output_def)
  let ?q = "set_group_mode_from_last_cmd i (push_command (command_new ind Flat ?g) ?p)"
    and ?b = "set_group_mode_from_last_cmd i (push_command (command_array ind Break (visited contents bm)) ?p)"
    and ?u = "set_group_mode_from_last_cmd i (push_docs ind (if group_breaks contents bm then Break else Flat) (visited contents bm) ?p)"
  have run: "print_loop wide p rm = print_loop wide ?q False" if "(m = Break \<or> rm) \<and> \<not> group_breaks contents bm \<and> fitting"
    unfolding step using that by (cases m) auto
  have run_broken: "print_loop wide p rm = print_loop wide ?b False" if "(m = Break \<or> rm) \<and> (group_breaks contents bm \<or> \<not> fitting)"
    unfolding step using that by (cases m) auto
  have run_unmeasured: "print_loop wide p rm = print_loop wide (flush_at_end ?u) False" if "m = Flat \<and> \<not> rm"
    unfolding step using that by simp
  have unmeasured: ?unmeasured using run_unmeasured same by (intro impI exI[of _ ?u] conjI) simp_all
  have broken: ?broken using run_broken same by (intro impI exI[of _ ?b] conjI) simp_all
  have flat: ?flat using run same by (intro impI exI[of _ ?q] conjI) simp_all
  have one_line: ?one_line
  proof (intro impI conjI; elim conjE)
    assume *: "m = Break \<or> rm" "bm = Auto" "flat_docs contents" "line_suffix p = []" fitting
    show "position p + flat_widths wide contents \<le> print_width (settings p)"
      using flat_group_fits[OF *(3)] *(2,5) assms(2) by simp
    show "\<exists>p'. print_loop wide p rm = print_loop wide p' False \<and> commands p' = rest \<and> line_suffix p' = []
        \<and> out p' = out p @ flat_texts contents \<and> position p' = position p + flat_widths wide contents"
      using flat_group_printed[OF *(3), of ?q ind i rest wide] run visited_flat(1)[OF *(3)] * by simp
  qed
  have exact: ?exact using flat_group_fits_exactly assms(2) by simp
  show ?thesis using unmeasured broken flat one_line exact by blast
qed

text \<open>The same group in a line of six columns and in one of four.\<close>

theorem group_layout_witness:
  "(\<exists>p'. print_loop (\<lambda>_. 0) (printer_new (Doc_Group example_group Auto None None) example_settings) False
       = print_loop (\<lambda>_. 0) p' False \<and> commands p' = [] \<and> out p' = [98, 98, 32, 99, 99] \<and> position p' = 5)
    \<and> (\<exists>p'. print_loop (\<lambda>_. 0) (printer_new (Doc_Group example_group Auto None None) (example_settings\<lparr>print_width := 4\<rparr>)) False
       = print_loop (\<lambda>_. 0) p' False
       \<and> commands p' = [command_array indentation_root Break (snd (propagate_slice example_group))])"
proof -
  have group: "flat_docs example_group" "flat_texts example_group = [98, 98, 32, 99, 99]"
    "flat_widths (\<lambda>_. 0) example_group = 5" by code_simp+
  note layout = group_layout[where p = "printer_new (Doc_Group example_group Auto None None) s" and ind = indentation_root and m = Break
    and contents = example_group and bm = Auto and i = None and rest = "[]" and wide = "\<lambda>_. 0" and rm = False for s, OF _ refl]
  have breaks: "\<not> group_breaks example_group Auto" "visited example_group Auto = snd (propagate_slice example_group)"
    using visited_flat(1)[OF group(1)] by (simp_all add: visited_def)
  show ?thesis
    using layout[of example_settings] layout[of "example_settings\<lparr>print_width := 4\<rparr>"]
    by (auto simp: printer_new_def group breaks example_settings_def)
qed

end
