(* ===== verification/Spec2Isabelle.thy ===== *)
theory Spec2Isabelle
  imports Text_Edit Integer_Bits Php_Version Name_Resolution Issue_Collector Formula_Algebra
    Invalidation Codebase_Aliases Class_Layers Descendants Guard_Perimeter Doc_Layout
begin

text \<open>
  Verification development for mago, a toolchain for PHP (linter, formatter, analyzer, architectural
  guard) written in Rust. All paths below are under \<open>src/crates/\<close>.

  \<^bold>\<open>The program and the parts modelled.\<close> A run loads files into a database, parses each, resolves
  its names, scans its declarations into metadata, merges the metadata of all files into one
  codebase, populates it with what is inherited, and hands tree and codebase to the tools. The
  analyzer types expressions and keeps what the conditions on the way imply as formulas; all tools
  report issues to a collector, which pragmas in comments can silence, and issues carry text edits.
  When files change, the difference of their signatures and a graph of references decide what has to
  be analysed again. The development follows these parts; a group of theories models each.

  \<^item> Shared vocabulary. \<open>Mago_Prelude\<close> has the machine types (\<open>u8\<close> to \<open>u64\<close> as words), the slices
    and searches of Rust's standard library and the lemmas on lists that several parts use;
    \<open>Byte_Text\<close> the operations on byte strings (a \<open>str\<close> and an interned word are their bytes);
    \<open>Decimal\<close> the printing and parsing of numerals.
  \<^item> Text edits. \<open>Text_Edit\<close> models crate \<open>text-edit\<close>: \<open>apply_edit\<close>, \<open>apply_batch\<close>,
    \<open>apply_unique_batch\<close> and \<open>editor_finish\<close> on a record of the editor's fields. Each operation
    refines an abstract contract over the list of accepted edits, \<open>editor_inv\<close> is kept, and the
    finished text is the original with the edits spliced in.
  \<^item> Integers. \<open>Integer_Type\<close> and \<open>Integer_Sets\<close> model the integer types of \<open>codex\<close>
    (\<open>ttype/atomic/scalar/int.rs\<close>) and prove them against the set \<open>\<gamma>\<close> of the values a type stands
    for; \<open>Integer_Arith\<close>, \<open>Integer_Division\<close> and \<open>Integer_Bits\<close> their arithmetic, up to the
    dispatch of the analyzer (\<open>analyzer/src/expression/binary/arithmetic.rs\<close>). The locale
    \<open>sound_operation\<close> states what every operator owes: the values of the result contain what PHP
    computes. It is interpreted on each operator of the code.
  \<^item> Versions, files, names. \<open>Php_Version\<close> models crate \<open>php-version\<close>; \<open>Source_File\<close> the spans and
    the lines of a file (\<open>span\<close>, \<open>database/src/file.rs\<close>); \<open>Name_Resolution\<close> crate \<open>names\<close>, whose
    walker is a step function on the events of a walk over the syntax tree. The locale
    \<open>folded_table\<close> is the interface of its tables of aliases, whose keys ignore letter case.
  \<^item> Issues. \<open>Pragma\<close> models the lines of comments and the pragmas in them, \<open>Issues\<close> the issues and
    collections of \<open>reporting\<close>, \<open>Issue_Collector\<close> crate \<open>collector\<close>: suppression, recordings,
    deferral, the report of unused pragmas and its fixes.
  \<^item> Formulas. \<open>Assertions\<close> (\<open>codex/src/assertion.rs\<close>), \<open>Clauses\<close>, \<open>Assertion_Sets\<close>, \<open>Saturation\<close>,
    \<open>Saturation_Sound\<close> and \<open>Formula_Algebra\<close> model crate \<open>algebra\<close>. A valuation gives clauses and
    formulas a meaning, to which saturation, disjunction and negation are related; where the code
    departs from it, theorems show how.
  \<^item> Incremental analysis. \<open>Signature_Diff\<close> models the difference of two versions of a file
    (\<open>codex/src/differ.rs\<close>, \<open>diff.rs\<close>, \<open>signature.rs\<close>), \<open>Reference_Graph\<close> the graph of references
    (\<open>codex/src/reference.rs\<close>), \<open>Invalidation\<close> what a change makes invalid, which symbols stay safe
    and when a file is skipped. The set \<open>cascade\<close>, an inductive closure, specifies the propagation.
  \<^item> The codebase. \<open>Metadata_Flags\<close> models the flags and the versions a symbol is available in
    (\<open>codex/src/metadata/flags.rs\<close>, \<open>version_constraint.rs\<close>), \<open>Codebase\<close> the state and the operations
    of \<open>metadata/mod.rs\<close> with \<open>symbol.rs\<close> and \<open>entry_spans.rs\<close>, \<open>Codebase_Merge\<close> and
    \<open>Codebase_Aliases\<close> prove what merging, removing and populating make of declarations and aliases;
    the latter as an invariant of the reachable states. \<open>Class_Queries\<close> models the queries by name.
  \<^item> Population. \<open>Class_Order\<close> models the sort of \<open>populator/sorter.rs\<close>, \<open>Class_Layers\<close> the plan of
    the parallel population (\<open>hierarchy.rs\<close>), \<open>Descendants\<close> the index of \<open>descendants.rs\<close>.
  \<^item> The guard. \<open>Guard_Match\<close> models the matcher of crate \<open>guard\<close>, \<open>Guard_Path\<close> the parser of paths,
    \<open>Guard_Perimeter\<close> the decision whether a use of a symbol breaches the perimeter.
  \<^item> The formatter. \<open>Doc_Printer\<close> models the printer of crate \<open>formatter\<close> (\<open>internal/printer/\<close>,
    \<open>document/mod.rs\<close>): a step takes a command off the stack and runs its handler, \<open>fits\<close> measures
    ahead with a stack of frames, and breaks propagate to the groups around them. \<open>Doc_Output\<close> proves
    that a run ends and loses no text but white space, which it reorders only through line suffixes,
    and that without literal lines, texts of several lines and \<open>Doc_Do_Not_Trim\<close> no line break follows
    a blank; \<open>Doc_Layout\<close> how a group without alternative states is laid out, and when it stays on its
    line. The locale \<open>text_measure\<close> is what a measure of texts
    owes for the printed text to have the measure of the document; it is interpreted on the characters
    in their order and on their multiset.

  \<^bold>\<open>How code is represented.\<close> A struct is a record with the fields the modelled operations use, an
  enum a datatype. Unsigned integers that may wrap or saturate are words; an \<open>i64\<close> of an integer
  type is an \<open>int\<close> with its range written out, so that saturation shows. A hash map is the list of
  its entries with distinct keys and a hash set the list of its elements, in the order an iteration
  visits them: a theorem about such lists holds for every order. A panic is \<open>None\<close>; where a function
  may also return nothing, options nest. Errors are values of a sum type.

  \<^bold>\<open>Parameters.\<close> Hash functions, the comparison and printing of types other than integers, compiled
  regular expressions and globs, the order of the walk over a syntax tree, in \<open>Class_Layers\<close> what
  populating a segment and a single class-like makes of the codebase, and in \<open>Doc_Printer\<close> the width
  of a line that is not ASCII are arguments of the definitions that use them. Hypotheses on them state
  no more than what their users document, and witnesses give concrete functions.

  \<^bold>\<open>Termination and bounds.\<close> Loops are structurally recursive or have a measure: the sort and the
  collection of descendants end on cyclic hierarchies because every step visits a new name; the links
  between clauses are followed with as much fuel as there are clauses, which \<open>walk_links_visits\<close> shows
  to be enough; a chain of aliases is followed for at most as many steps as there are declarations,
  and \<open>leads_to_bound\<close> shows that no chain is longer; the invalidation gives up after 5000 steps,
  and \<open>invalidation_exact\<close> says exactly when. A step of the printer lowers a weight of the commands left,
  or keeps it and only moves a command, in the order \<open>step_order\<close>. The difference of
  files assumes that a list of nodes has fewer than 2 to the 60th elements, which memory guarantees. \<open>matches\<close> and \<open>is_path_allowed\<close> may not
  return at all; they are partial functions with \<open>None\<close> for a run without end, and theorems name both
  the inputs on which they return and some on which they do not.

  \<^bold>\<open>Where the code departs from what it means.\<close> Theorems of kind error and bounds state what happens
  instead: among others, a negative dividend of the smallest integer panics, saturation loses
  contradictory facts, a batch of edits may overlap an accepted insertion, the kind of a symbol
  depends on the order of the files, layers that name each other and unclosed braces overflow the
  stack.

  \<^bold>\<open>Not modelled.\<close> The lexers, parsers, syntax trees and tree walkers of PHP, Twig and documentation
  comments, the high-level representation and the semantic checks: they are one function per node of
  a tree of several hundred kinds, and the parts above take from them only events. The types of the
  analyzer other than integers, with the scanner, the inheritance of members, patches and the analyzer
  that rest on them; the rules of the linter, and how the formatter builds its documents from the tree. The
  database, the orchestrator, the reports, extensions and the command line, which are mostly input and
  output, and the crates that wrap libraries.
\<close>

end
